(* ===== verification/Prelude.thy ===== *)
theory Prelude
  imports "HOL-Library.Word" "HOL-Library.Monad_Syntax"
begin

text \<open>
  Shared vocabulary of the development: the machine types of the C++ code, the little-endian
  byte layout the code relies on when it casts buffers to structs, and lemmas on byte lists
  that stand for \<^verbatim>\<open>memcpy\<close> into and out of a buffer.

  A definition that can leave the defined behaviour of C++ (a failed \<^verbatim>\<open>assert\<close>, an access out
  of range, a null pointer, a loop that does not end) has the type \<open>'a option\<close>; \<open>None\<close> is
  that case, and every error the code itself reports is a value under \<open>Some\<close>.
\<close>

unbundle bit_operations_syntax

type_synonym byte = "8 word"
type_synonym u16 = "16 word"
type_synonym u32 = "32 word"
type_synonym u64 = "64 word"

named_theorems buf_simps \<open>reading and writing slices of byte buffers\<close>
named_theorems layout_simps \<open>sizes and round trips of struct layouts\<close>

section \<open>Little-endian words\<close>

fun le_bytes :: "nat \<Rightarrow> 'a::len word \<Rightarrow> byte list" where
  "le_bytes 0 w = []"
| "le_bytes (Suc n) w = ucast w # le_bytes n (drop_bit 8 w)"

fun le_word :: "byte list \<Rightarrow> 'a::len word" where
  "le_word [] = 0"
| "le_word (b # bs) = ucast b OR push_bit 8 (le_word bs)"

lemma length_le_bytes [simp, layout_simps]: "length (le_bytes n w) = n"
  by (induction n arbitrary: w) auto

lemma le_word_le_bytes_take_bit:
  assumes "8 \<le> LENGTH('a)"
  shows "le_word (le_bytes n (w :: 'a::len word)) = take_bit (8 * n) w"
proof (induction n arbitrary: w)
  case 0
  show ?case by simp
next
  case (Suc n)
  have "ucast (ucast w :: byte) OR push_bit 8 (take_bit (8 * n) (drop_bit 8 w)) = take_bit (8 * Suc n) w"
    by (rule bit_word_eqI) (auto simp: bit_simps)
  then show ?case
    by (simp add: Suc.IH)
qed

lemma le_word_u64 [simp, layout_simps]: "le_word (le_bytes 8 (w :: u64)) = w"
  by (simp add: le_word_le_bytes_take_bit take_bit_word_eq_self)

lemma le_word_u32 [simp, layout_simps]: "le_word (le_bytes 4 (w :: u32)) = w"
  by (simp add: le_word_le_bytes_take_bit take_bit_word_eq_self)

lemma le_word_u16 [simp, layout_simps]: "le_word (le_bytes 2 (w :: u16)) = w"
  by (simp add: le_word_le_bytes_take_bit take_bit_word_eq_self)

section \<open>Words and natural numbers\<close>

lemma unat_u64_less [simp]: "unat (w :: u64) < 18446744073709551616"
  using unsigned_less [of w, where 'a = nat] by simp

lemma unat_u8_less [simp]: "unat (w :: byte) < 256"
  using unsigned_less [of w, where 'a = nat] by simp

lemma unat_of_nat_u64: "n < 2 ^ 64 \<Longrightarrow> unat (of_nat n :: u64) = n"
  by (simp add: unat_of_nat)

lemma word_eq_of_nat_diff:
  "x = of_nat a \<Longrightarrow> y = of_nat b \<Longrightarrow> b \<le> a \<Longrightarrow> x - y = (of_nat (a - b) :: 'a::len word)"
  by (simp add: of_nat_diff)

lemma word_eq_of_nat_div:
  assumes "x = of_nat a" "y = of_nat b" "a < 2 ^ LENGTH('a)" "b < 2 ^ LENGTH('a)"
  shows "x div y = (of_nat (a div b) :: 'a::len word)"
  using assms by (simp add: word_arith_nat_div unat_of_nat)

section \<open>Slices of a buffer\<close>

text \<open>\<open>overwrite a ys xs\<close> is \<^verbatim>\<open>memcpy(xs + a, ys, length ys)\<close>.\<close>

definition slice :: "nat \<Rightarrow> nat \<Rightarrow> 'a list \<Rightarrow> 'a list" where
  "slice a n xs = take n (drop a xs)"

definition overwrite :: "nat \<Rightarrow> 'a list \<Rightarrow> 'a list \<Rightarrow> 'a list" where
  "overwrite a ys xs = take a xs @ ys @ drop (a + length ys) xs"

lemma length_slice [simp, buf_simps]: "length (slice a n xs) = min n (length xs - a)"
  by (simp add: slice_def)

lemma length_overwrite [simp, buf_simps]:
  "a + length ys \<le> length xs \<Longrightarrow> length (overwrite a ys xs) = length xs"
  by (simp add: overwrite_def)

lemma slice_overwrite [buf_simps]: "a \<le> length xs \<Longrightarrow> slice a (length ys) (overwrite a ys xs) = ys"
  by (simp add: slice_def overwrite_def)

lemma take_overwrite [buf_simps]: "a \<le> length xs \<Longrightarrow> take a (overwrite a ys xs) = take a xs"
  by (simp add: overwrite_def)

lemma take_overwrite_end [buf_simps]:
  "a \<le> length xs \<Longrightarrow> take (a + length ys) (overwrite a ys xs) = take a xs @ ys"
  by (simp add: overwrite_def)

lemma nth_overwrite:
  "a + length ys \<le> length xs \<Longrightarrow> i < length xs \<Longrightarrow>
     overwrite a ys xs ! i = (if a \<le> i \<and> i < a + length ys then ys ! (i - a) else xs ! i)"
  by (auto simp: overwrite_def nth_append min_def)

lemma overwrite_Nil [simp]: "overwrite a [] xs = xs"
  by (simp add: overwrite_def)

section \<open>Text\<close>

abbreviation ch_of :: "char \<Rightarrow> byte" where "ch_of \<equiv> of_char"

definition ascii :: "string \<Rightarrow> byte list" where
  "ascii = map of_char"

text \<open>Decimal digits, as \<^verbatim>\<open>%d\<close> and \<^verbatim>\<open>%zu\<close> print them.\<close>

fun dec_nat :: "nat \<Rightarrow> byte list" where
  "dec_nat n = (if n < 10 then [of_nat (48 + n)] else dec_nat (n div 10) @ [of_nat (48 + n mod 10)])"

declare dec_nat.simps [simp del]

lemma dec_nat_decimal: "dec_nat n \<noteq> [] \<and> (\<forall>c \<in> set (dec_nat n). ch_of CHR ''0'' \<le> c \<and> c \<le> ch_of CHR ''9'')"
proof (induction n rule: dec_nat.induct)
  case (1 n)
  have "ch_of CHR ''0'' \<le> (of_nat (48 + m) :: byte) \<and> of_nat (48 + m) \<le> (ch_of CHR ''9'' :: byte)" if "m < 10" for m
  proof -
    have "m \<in> set [0..<10]" using that by simp
    moreover have "\<forall>m \<in> set [0..<10]. ch_of CHR ''0'' \<le> (of_nat (48 + m) :: byte) \<and> of_nat (48 + m) \<le> (ch_of CHR ''9'' :: byte)" by code_simp
    ultimately show ?thesis by blast
  qed
  then show ?case using 1 by (subst (1 2) dec_nat.simps) (cases "n < 10", simp_all)
qed

lemma digits_value:
  "foldl (\<lambda>n c. 10 * n + unat (c - ch_of CHR ''0'')) 0 (dec_nat n) = n"
proof (induction n rule: dec_nat.induct)
  case (1 n)
  have "m < 10 \<Longrightarrow> unat (of_nat (48 + m) - ch_of CHR ''0'') = m" for m
    by (simp add: unat_of_nat)
  then show ?case using 1 by (subst dec_nat.simps) (cases "n < 10", simp_all)
qed

lemma dec_nat_length: "n < 10 ^ k \<Longrightarrow> 0 < k \<Longrightarrow> length (dec_nat n) \<le> k"
proof (induction k arbitrary: n)
  case (Suc k)
  show ?case
  proof (cases "n < 10")
    case True
    then show ?thesis by (simp add: dec_nat.simps)
  next
    case False
    then have "0 < k" "n div 10 < 10 ^ k" using Suc.prems by (auto intro: Nat.gr0I)
    then show ?thesis using Suc.IH False by (subst dec_nat.simps) simp
  qed
qed simp

definition dec_int :: "int \<Rightarrow> byte list" where
  "dec_int i = (if i < 0 then ascii ''-'' @ dec_nat (nat (- i)) else dec_nat (nat i))"

end
