(* ===== verification/Crc32.thy ===== *)
theory Crc32
  imports Prelude
begin

text \<open>
  The table-driven CRC-32 of \<^verbatim>\<open>lib_util/util_crc32.cpp\<close>. The file system uses it to tell a
  complete metadata block from a torn one. The reference definition is the bit-at-a-time CRC
  with the reflected polynomial 0xEDB88320; the lemmas show that every table entry is eight
  reference steps, that the whole routine equals the reference, that a step is a bijection of
  the running value, and hence that a change confined to one byte is always detected.
\<close>

unbundle bit_operations_syntax

section \<open>The code\<close>

definition crc32_tab :: "u32 list" where
  "crc32_tab = [
     0x00000000, 0x77073096, 0xEE0E612C, 0x990951BA, 0x076DC419, 0x706AF48F,
     0xE963A535, 0x9E6495A3, 0x0EDB8832, 0x79DCB8A4, 0xE0D5E91E, 0x97D2D988,
     0x09B64C2B, 0x7EB17CBD, 0xE7B82D07, 0x90BF1D91, 0x1DB71064, 0x6AB020F2,
     0xF3B97148, 0x84BE41DE, 0x1ADAD47D, 0x6DDDE4EB, 0xF4D4B551, 0x83D385C7,
     0x136C9856, 0x646BA8C0, 0xFD62F97A, 0x8A65C9EC, 0x14015C4F, 0x63066CD9,
     0xFA0F3D63, 0x8D080DF5, 0x3B6E20C8, 0x4C69105E, 0xD56041E4, 0xA2677172,
     0x3C03E4D1, 0x4B04D447, 0xD20D85FD, 0xA50AB56B, 0x35B5A8FA, 0x42B2986C,
     0xDBBBC9D6, 0xACBCF940, 0x32D86CE3, 0x45DF5C75, 0xDCD60DCF, 0xABD13D59,
     0x26D930AC, 0x51DE003A, 0xC8D75180, 0xBFD06116, 0x21B4F4B5, 0x56B3C423,
     0xCFBA9599, 0xB8BDA50F, 0x2802B89E, 0x5F058808, 0xC60CD9B2, 0xB10BE924,
     0x2F6F7C87, 0x58684C11, 0xC1611DAB, 0xB6662D3D, 0x76DC4190, 0x01DB7106,
     0x98D220BC, 0xEFD5102A, 0x71B18589, 0x06B6B51F, 0x9FBFE4A5, 0xE8B8D433,
     0x7807C9A2, 0x0F00F934, 0x9609A88E, 0xE10E9818, 0x7F6A0DBB, 0x086D3D2D,
     0x91646C97, 0xE6635C01, 0x6B6B51F4, 0x1C6C6162, 0x856530D8, 0xF262004E,
     0x6C0695ED, 0x1B01A57B, 0x8208F4C1, 0xF50FC457, 0x65B0D9C6, 0x12B7E950,
     0x8BBEB8EA, 0xFCB9887C, 0x62DD1DDF, 0x15DA2D49, 0x8CD37CF3, 0xFBD44C65,
     0x4DB26158, 0x3AB551CE, 0xA3BC0074, 0xD4BB30E2, 0x4ADFA541, 0x3DD895D7,
     0xA4D1C46D, 0xD3D6F4FB, 0x4369E96A, 0x346ED9FC, 0xAD678846, 0xDA60B8D0,
     0x44042D73, 0x33031DE5, 0xAA0A4C5F, 0xDD0D7CC9, 0x5005713C, 0x270241AA,
     0xBE0B1010, 0xC90C2086, 0x5768B525, 0x206F85B3, 0xB966D409, 0xCE61E49F,
     0x5EDEF90E, 0x29D9C998, 0xB0D09822, 0xC7D7A8B4, 0x59B33D17, 0x2EB40D81,
     0xB7BD5C3B, 0xC0BA6CAD, 0xEDB88320, 0x9ABFB3B6, 0x03B6E20C, 0x74B1D29A,
     0xEAD54739, 0x9DD277AF, 0x04DB2615, 0x73DC1683, 0xE3630B12, 0x94643B84,
     0x0D6D6A3E, 0x7A6A5AA8, 0xE40ECF0B, 0x9309FF9D, 0x0A00AE27, 0x7D079EB1,
     0xF00F9344, 0x8708A3D2, 0x1E01F268, 0x6906C2FE, 0xF762575D, 0x806567CB,
     0x196C3671, 0x6E6B06E7, 0xFED41B76, 0x89D32BE0, 0x10DA7A5A, 0x67DD4ACC,
     0xF9B9DF6F, 0x8EBEEFF9, 0x17B7BE43, 0x60B08ED5, 0xD6D6A3E8, 0xA1D1937E,
     0x38D8C2C4, 0x4FDFF252, 0xD1BB67F1, 0xA6BC5767, 0x3FB506DD, 0x48B2364B,
     0xD80D2BDA, 0xAF0A1B4C, 0x36034AF6, 0x41047A60, 0xDF60EFC3, 0xA867DF55,
     0x316E8EEF, 0x4669BE79, 0xCB61B38C, 0xBC66831A, 0x256FD2A0, 0x5268E236,
     0xCC0C7795, 0xBB0B4703, 0x220216B9, 0x5505262F, 0xC5BA3BBE, 0xB2BD0B28,
     0x2BB45A92, 0x5CB36A04, 0xC2D7FFA7, 0xB5D0CF31, 0x2CD99E8B, 0x5BDEAE1D,
     0x9B64C2B0, 0xEC63F226, 0x756AA39C, 0x026D930A, 0x9C0906A9, 0xEB0E363F,
     0x72076785, 0x05005713, 0x95BF4A82, 0xE2B87A14, 0x7BB12BAE, 0x0CB61B38,
     0x92D28E9B, 0xE5D5BE0D, 0x7CDCEFB7, 0x0BDBDF21, 0x86D3D2D4, 0xF1D4E242,
     0x68DDB3F8, 0x1FDA836E, 0x81BE16CD, 0xF6B9265B, 0x6FB077E1, 0x18B74777,
     0x88085AE6, 0xFF0F6A70, 0x66063BCA, 0x11010B5C, 0x8F659EFF, 0xF862AE69,
     0x616BFFD3, 0x166CCF45, 0xA00AE278, 0xD70DD2EE, 0x4E048354, 0x3903B3C2,
     0xA7672661, 0xD06016F7, 0x4969474D, 0x3E6E77DB, 0xAED16A4A, 0xD9D65ADC,
     0x40DF0B66, 0x37D83BF0, 0xA9BCAE53, 0xDEBB9EC5, 0x47B2CF7F, 0x30B5FFE9,
     0xBDBDF21C, 0xCABAC28A, 0x53B39330, 0x24B4A3A6, 0xBAD03605, 0xCDD70693,
     0x54DE5729, 0x23D967BF, 0xB3667A2E, 0xC4614AB8, 0x5D681B02, 0x2A6F2B94,
     0xB40BBE37, 0xC30C8EA1, 0x5A05DF1B, 0x2D02EF8D]"

text \<open>One iteration of the \<^verbatim>\<open>while (size--)\<close> loop, and the loop.\<close>

definition crc32_step :: "u32 \<Rightarrow> byte \<Rightarrow> u32" where
  "crc32_step crc b = crc32_tab ! unat ((crc XOR ucast b) AND 0xFF) XOR drop_bit 8 crc"

fun crc32_loop :: "u32 \<Rightarrow> byte list \<Rightarrow> u32" where
  "crc32_loop crc [] = crc"
| "crc32_loop crc (b # bs) = crc32_loop (crc32_step crc b) bs"

definition crc32 :: "byte list \<Rightarrow> u32" where
  "crc32 buf = crc32_loop (NOT 0) buf XOR NOT 0"

section \<open>The bitwise reference\<close>

definition crc_bit :: "u32 \<Rightarrow> u32" where
  "crc_bit c = (if bit c 0 then 0xEDB88320 XOR drop_bit 1 c else drop_bit 1 c)"

definition crc_byte :: "u32 \<Rightarrow> u32" where
  "crc_byte c = (crc_bit ^^ 8) c"

fun crc_ref_loop :: "u32 \<Rightarrow> byte list \<Rightarrow> u32" where
  "crc_ref_loop crc [] = crc"
| "crc_ref_loop crc (b # bs) = crc_ref_loop (crc_byte (crc XOR ucast b)) bs"

section \<open>Table entries and bijectivity\<close>

lemma xor_left_cancelD: "c XOR a = c XOR b \<Longrightarrow> a = (b :: 'a::len word)"
  by (metis xor.assoc xor_self_eq xor.left_neutral)

lemma crc_bit_linear: "crc_bit (a XOR b) = crc_bit a XOR crc_bit b"
proof -
  have d: "drop_bit 1 (a XOR b) = drop_bit 1 a XOR drop_bit 1 b" by (simp add: drop_bit_xor)
  show ?thesis
    unfolding crc_bit_def bit_xor_iff d
    by (cases "bit a 0"; cases "bit b 0")
       (simp_all add: xor.assoc xor.left_commute [of _ "0xEDB88320"])
qed

lemma crc_pow_linear: "(crc_bit ^^ n) (a XOR b) = (crc_bit ^^ n) a XOR (crc_bit ^^ n) b"
  by (induction n) (simp_all add: crc_bit_linear)

lemma inj_crc_bit: "inj crc_bit"
proof (rule injI)
  fix a b assume eq: "crc_bit a = crc_bit b"
  have top: "bit (crc_bit c) 31 = bit c 0" for c
    using bit_imp_le_length [of c 32] by (auto simp: crc_bit_def bit_simps)
  from eq have b0: "bit a 0 = bit b 0" by (metis top)
  have "drop_bit 1 a = drop_bit 1 b"
    using eq b0 by (auto simp: crc_bit_def split: if_splits dest: xor_left_cancelD)
  then have "bit a (Suc n) = bit b (Suc n)" for n
    by (metis bit_drop_bit_eq comp_apply plus_1_eq_Suc)
  with b0 show "a = b" by (metis bit_word_eqI not0_implies_Suc)
qed

lemma crc_pow_drop: "take_bit n c = 0 \<Longrightarrow> (crc_bit ^^ n) c = drop_bit n c"
proof (induction n arbitrary: c)
  case 0
  then show ?case by simp
next
  case (Suc n)
  then have b0: "\<not> bit c 0"
    by (metis bit_0_eq bit_take_bit_iff zero_less_Suc bot_apply bot_bool_def)
  then have c1: "crc_bit c = drop_bit 1 c" by (simp add: crc_bit_def)
  have "take_bit n (drop_bit 1 c) = 0"
    using Suc.prems by (metis drop_bit_take_bit drop_bit_of_0 diff_Suc_1 One_nat_def add_diff_cancel_left' plus_1_eq_Suc)
  then show ?case
    by (simp add: funpow_swap1 c1 Suc.IH)
qed

lemma crc_byte_linear: "crc_byte (a XOR b) = crc_byte a XOR crc_byte b"
  by (simp add: crc_byte_def crc_pow_linear)

lemma inj_crc_byte_pow: "inj (crc_byte ^^ n)"
proof -
  have "inj crc_byte" unfolding crc_byte_def [abs_def] using inj_crc_bit by (rule inj_fn)
  then show ?thesis by (rule inj_fn)
qed

lemma crc_byte_drop: "take_bit 8 c = 0 \<Longrightarrow> crc_byte c = drop_bit 8 c"
  by (simp add: crc_byte_def crc_pow_drop)

lemma tab_nibbles:
  "crc32_tab = concat (map (\<lambda>h. map (\<lambda>l. h XOR l) (take 16 crc32_tab)) (map (\<lambda>i. crc32_tab ! (16 * i)) [0..<16]))"
  by (simp add: crc32_tab_def upt_rec)
lemma tab_lo: "map (\<lambda>n. crc_byte (of_nat n)) [0..<16] = take 16 crc32_tab"
  by code_simp
lemma tab_hi: "map (\<lambda>n. crc_byte (of_nat (16 * n))) [0..<16] = map (\<lambda>i. crc32_tab ! (16 * i)) [0..<16]"
  by code_simp

text \<open>The 256 entries from two groups of sixteen: linearity does the rest.\<close>

lemma nibble_xor: "j < 16 \<Longrightarrow> of_nat (16 * i) XOR of_nat j = (of_nat (16 * i + j) :: u32)"
proof -
  assume j: "j < 16"
  have hi: "(of_nat (16 * i) :: u32) = push_bit 4 (of_nat i)"
    by (simp add: push_bit_eq_mult)
  have "take_bit 4 j = j"
    using j by (simp add: take_bit_nat_eq_self)
  then have low: "bit j n \<Longrightarrow> n < 4" for n
    by (metis bit_take_bit_iff)
  have "(push_bit 4 (of_nat i) :: u32) + of_nat j = push_bit 4 (of_nat i) OR of_nat j"
    by (rule disjunctive_add) (auto simp: bit_simps dest: low)
  also have "\<dots> = push_bit 4 (of_nat i) XOR of_nat j"
    by (rule bit_word_eqI) (auto simp: bit_simps dest: low)
  finally show ?thesis
    unfolding of_nat_add hi by (rule sym)
qed

lemma upt_256: "[0..<256] = concat (map (\<lambda>i. map (\<lambda>j. 16 * i + j) [0..<16]) [0..<16])"
  by (simp add: upt_rec)

lemma crc32_tab_eq: "crc32_tab = map (\<lambda>n. crc_byte (of_nat n)) [0..<256]"
proof -
  have "crc32_tab = concat (map (\<lambda>h. map (\<lambda>l. h XOR l) (map (\<lambda>n. crc_byte (of_nat n)) [0..<16]))
      (map (\<lambda>n. crc_byte (of_nat (16 * n))) [0..<16]))"
    unfolding tab_lo tab_hi by (rule tab_nibbles)
  also have "\<dots> = concat (map (\<lambda>i. map (\<lambda>j. crc_byte (of_nat (16 * i + j))) [0..<16]) [0..<16])"
    by (simp only: map_map o_def crc_byte_linear [symmetric])
       (rule arg_cong [where f = concat], rule map_cong, simp, rule map_cong, simp, simp only: nibble_xor set_upt atLeastLessThan_iff)
  also have "\<dots> = map (\<lambda>n. crc_byte (of_nat n)) [0..<256]"
    by (simp only: upt_256 map_concat map_map o_def)
  finally show ?thesis .
qed

lemma crc32_tab_entry: "n < 256 \<Longrightarrow> crc32_tab ! n = crc_byte (of_nat n)"
  by (simp add: crc32_tab_eq)

lemma crc32_step_ref: "crc32_step crc b = crc_byte (crc XOR ucast b)"
proof -
  let ?x = "crc XOR ucast b" and ?h = "push_bit 8 (drop_bit 8 crc)"
  have and_ff: "?x AND 0xFF = take_bit 8 ?x"
    by (simp add: take_bit_eq_mask mask_eq_exp_minus_1)
  have ix: "unat (take_bit 8 ?x) < 256"
    using take_bit_nat_less_exp [of 8 "unat ?x"]
    by (simp only: unsigned_take_bit_eq) simp
  have "crc32_step crc b = crc_byte (take_bit 8 ?x) XOR drop_bit 8 crc"
    using crc32_tab_entry [OF ix] by (simp only: crc32_step_def and_ff) simp
  also have "drop_bit 8 crc = crc_byte ?h"
  proof -
    have "take_bit 8 ?h = 0"
      by (rule bit_word_eqI) (auto simp: bit_simps)
    moreover have "drop_bit 8 ?h = drop_bit 8 crc"
      by (rule bit_word_eqI) (auto simp: bit_simps dest: bit_imp_le_length)
    ultimately show ?thesis by (simp add: crc_byte_drop)
  qed
  also have "crc_byte (take_bit 8 ?x) XOR crc_byte ?h = crc_byte ?x"
  proof -
    have "take_bit 8 ?x XOR ?h = ?x"
      by (rule bit_word_eqI) (auto simp: bit_simps dest: bit_imp_le_length)
    then show ?thesis by (metis crc_byte_linear)
  qed
  finally show ?thesis .
qed

lemma crc32_loop_ref: "crc32_loop crc bs = crc_ref_loop crc bs"
  by (induction bs arbitrary: crc) (simp_all add: crc32_step_ref)

lemma crc_ref_loop_append: "crc_ref_loop c (xs @ ys) = crc_ref_loop (crc_ref_loop c xs) ys"
  by (induction xs arbitrary: c) simp_all

lemma le_word_high_zero: "8 * length bs \<le> n \<Longrightarrow> \<not> bit (le_word bs :: u32) n"
  by (induction bs arbitrary: n) (auto simp: bit_simps dest: bit_imp_le_length)

text \<open>Up to four bytes can be XORed into the running value at once.\<close>

lemma crc_ref_loop_word:
  "length bs \<le> 4 \<Longrightarrow> crc_ref_loop c bs = (crc_byte ^^ length bs) (c XOR le_word bs)"
proof (induction bs arbitrary: c)
  case Nil
  then show ?case by simp
next
  case (Cons b bs)
  have low: "take_bit 8 (push_bit 8 (le_word bs :: u32)) = 0"
    by (rule bit_word_eqI) (auto simp: bit_simps)
  have hz: "24 \<le> n \<Longrightarrow> \<not> bit (le_word bs :: u32) n" for n
    using Cons.prems by (intro le_word_high_zero) simp
  have "drop_bit 8 (push_bit 8 (le_word bs :: u32)) = le_word bs"
    by (intro bit_word_eqI) (use hz not_le in \<open>auto simp: bit_simps\<close>)
  then have sh: "crc_byte (push_bit 8 (le_word bs)) = le_word bs"
    by (simp add: crc_byte_drop [OF low])
  have disj: "ucast b OR push_bit 8 (le_word bs) = (ucast b XOR push_bit 8 (le_word bs) :: u32)"
    by (rule bit_word_eqI) (auto simp: bit_simps dest: bit_imp_le_length)
  have "crc_ref_loop c (b # bs) = (crc_byte ^^ length bs) (crc_byte (c XOR ucast b) XOR le_word bs)"
    using Cons by simp
  also have "crc_byte (c XOR ucast b) XOR le_word bs = crc_byte (c XOR (ucast b XOR push_bit 8 (le_word bs)))"
    by (metis crc_byte_linear sh xor.assoc)
  finally show ?case
    by (simp add: disj funpow_swap1)
qed

lemma le_word_inj:
  "length xs = length ys \<Longrightarrow> length xs \<le> 4 \<Longrightarrow> (le_word xs :: u32) = le_word ys \<Longrightarrow> xs = ys"
proof (induction xs ys rule: list_induct2)
  case Nil
  then show ?case by simp
next
  case (Cons x xs y ys)
  have eq: "bit (ucast x OR push_bit 8 (le_word xs) :: u32) n = bit (ucast y OR push_bit 8 (le_word ys) :: u32) n" for n
    using Cons.prems by simp
  have "x = y"
  proof (rule bit_word_eqI)
    fix n :: nat assume "n < LENGTH(8)"
    then show "bit x n = bit y n"
      using eq [of n] by (auto simp: bit_simps)
  qed
  moreover have "(le_word xs :: u32) = le_word ys"
  proof (rule bit_word_eqI)
    fix n :: nat assume n: "n < LENGTH(32)"
    show "bit (le_word xs :: u32) n = bit (le_word ys :: u32) n"
    proof (cases "n < 24")
      case True
      then show ?thesis
        using eq [of "n + 8"] bit_imp_le_length [of x "n + 8"] bit_imp_le_length [of y "n + 8"]
        by (auto simp: bit_simps)
    next
      case False
      then show ?thesis
        using Cons.prems Cons.hyps le_word_high_zero [of xs n] le_word_high_zero [of ys n] by simp
    qed
  qed
  ultimately show ?case using Cons by simp
qed

text \<open>
  A burst of at most 32 bits confined to four consecutive bytes changes the checksum,
  whatever surrounds it.
\<close>

lemma crc_ref_loop_inj: "crc_ref_loop c bs = crc_ref_loop c' bs \<Longrightarrow> c = c'"
proof (induction bs arbitrary: c c')
  case Nil
  then show ?case by simp
next
  case (Cons b bs)
  then have "crc_byte (c XOR ucast b) = crc_byte (c' XOR ucast b)" by simp
  then have "c XOR ucast b = c' XOR ucast b"
    using injD [OF inj_crc_byte_pow [of 1]] by simp
  then show ?case by (metis xor.commute xor_left_cancelD)
qed

lemma crc_burst_detected:
  assumes "length b1 = length b2" "length b1 \<le> 4" "crc32 (pre @ b1 @ post) = crc32 (pre @ b2 @ post)"
  shows "b1 = b2"
proof -
  let ?c = "crc_ref_loop (NOT 0) pre"
  have "crc_ref_loop (crc_ref_loop ?c b1) post = crc_ref_loop (crc_ref_loop ?c b2) post"
    using assms(3) xor_left_cancelD [of "NOT 0"]
    by (simp add: crc32_def crc32_loop_ref crc_ref_loop_append xor.commute)
  then have "crc_ref_loop ?c b1 = crc_ref_loop ?c b2" by (rule crc_ref_loop_inj)
  then have "(crc_byte ^^ length b1) (?c XOR le_word b1) = (crc_byte ^^ length b1) (?c XOR le_word b2)"
    using assms(1,2) by (simp add: crc_ref_loop_word)
  then have "?c XOR le_word b1 = ?c XOR le_word b2" by (rule injD [OF inj_crc_byte_pow])
  then show ?thesis
    using assms(1,2) by (blast dest: xor_left_cancelD intro: le_word_inj)
qed

lemma crc32_ref: "crc32 buf = crc_ref_loop (NOT 0) buf XOR NOT 0"
  by (simp add: crc32_def crc32_loop_ref)

text \<open>
  C28: the table-driven routine computes the bit-at-a-time CRC-32 with the reflected
  polynomial 0xEDB88320 on every buffer, so the 256 table constants are all right.
\<close>

theorem crc32_bitwise_spec: "crc32 buf = crc_ref_loop (NOT 0) buf XOR NOT 0"
  by (rule crc32_ref)

text \<open>
  C29: two buffers of one length that differ only inside four consecutive bytes have
  different checksums, so a burst error of up to 32 bits in a metadata block is detected.
\<close>

theorem crc32_detects_bursts:
  assumes "length b1 = length b2" "length b1 \<le> 4" "b1 \<noteq> b2"
  shows "crc32 (pre @ b1 @ post) \<noteq> crc32 (pre @ b2 @ post)"
  using assms crc_burst_detected by blast

theorem crc32_detects_bursts_witness:
  "crc32 ([7, 7] @ [1, 2, 3, 4] @ [9]) \<noteq> crc32 ([7, 7] @ [1, 2, 0, 4] @ [9])"
  by (rule crc32_detects_bursts) simp_all

end
