(* ===== verification/BlockDevice.thy ===== *)
theory BlockDevice
  imports Prelude
begin

text \<open>
  The abstract class \<^verbatim>\<open>BlockDevice\<close> of \<^verbatim>\<open>lib_slotfs/slotfs.h\<close>. Its implementations (an SD card, an
  eMMC) are not part of the repository, so a device is a parameter: a record of the two
  virtual functions over a device state of any type. The locales state the documented
  behaviour of a block device that the file system relies on: a successful write changes
  exactly the addressed range, a failed one at most that range (a torn write may leave
  anything in it), a read changes nothing, and, in the extension, an aligned access inside
  the capacity succeeds. Two concrete devices satisfy the contracts: an ideal memory of a
  given capacity, and one whose writes tear according to a plan.
\<close>

section \<open>The interface\<close>

record 'd device =
  dev_write :: "u64 \<Rightarrow> byte list \<Rightarrow> 'd \<Rightarrow> int \<times> 'd"
  dev_read :: "u64 \<Rightarrow> byte list \<Rightarrow> 'd \<Rightarrow> int \<times> byte list \<times> 'd"

definition in_range :: "u64 \<Rightarrow> nat \<Rightarrow> nat \<Rightarrow> bool" where
  "in_range a n x \<longleftrightarrow> unat a \<le> x \<and> x < unat a + n"

locale block_device =
  fixes bd :: "'d device" and mem :: "'d \<Rightarrow> nat \<Rightarrow> byte"
  assumes write_data: "dev_write bd a bs d = (0, d') \<Longrightarrow> i < length bs \<Longrightarrow> mem d' (unat a + i) = bs ! i"
    and write_frame: "dev_write bd a bs d = (rc, d') \<Longrightarrow> \<not> in_range a (length bs) x \<Longrightarrow> mem d' x = mem d x"
    and read_data: "dev_read bd a buf d = (0, buf', d') \<Longrightarrow>
          buf' = map (mem d) [unat a ..< unat a + length buf]"
    and read_length: "dev_read bd a buf d = (rc, buf', d') \<Longrightarrow> length buf' = length buf"
    and read_frame: "dev_read bd a buf d = (rc, buf', d') \<Longrightarrow> mem d' = mem d"

locale readable_device = block_device +
  fixes cap :: nat
  assumes read_succeeds: "512 dvd unat a \<Longrightarrow> 512 dvd length buf \<Longrightarrow> unat a + length buf \<le> cap \<Longrightarrow>
          fst (dev_read bd a buf d) = 0"
begin

lemma read_reliable:
  assumes "512 dvd unat a" "512 dvd length buf" "unat a + length buf \<le> cap"
  obtains d' where "dev_read bd a buf d = (0, map (mem d) [unat a ..< unat a + length buf], d')" "mem d' = mem d"
proof -
  obtain rc b' d' where r: "dev_read bd a buf d = (rc, b', d')" by (cases "dev_read bd a buf d")
  have "rc = 0" using read_succeeds [OF assms, of d] r by simp
  with r that show thesis by (metis read_data read_frame)
qed

end

locale reliable_device = readable_device +
  assumes write_succeeds: "512 dvd unat a \<Longrightarrow> 512 dvd length bs \<Longrightarrow> unat a + length bs \<le> cap \<Longrightarrow>
          fst (dev_write bd a bs d) = 0"
begin

lemma write_reliable:
  assumes "512 dvd unat a" "512 dvd length bs" "unat a + length bs \<le> cap"
  obtains d' where "dev_write bd a bs d = (0, d')"
    "\<And>i. i < length bs \<Longrightarrow> mem d' (unat a + i) = bs ! i"
    "\<And>x. \<not> in_range a (length bs) x \<Longrightarrow> mem d' x = mem d x"
proof -
  obtain rc d' where w: "dev_write bd a bs d = (rc, d')" by (cases "dev_write bd a bs d")
  have "rc = 0" using write_succeeds [OF assms, of d] w by simp
  with w that show thesis by (metis write_data write_frame)
qed

end

section \<open>An ideal memory\<close>

definition ram_device :: "nat \<Rightarrow> (nat \<Rightarrow> byte) device" where
  "ram_device n = \<lparr>
     dev_write = (\<lambda>a bs d. if unat a + length bs \<le> n
       then (0, \<lambda>x. if in_range a (length bs) x then bs ! (x - unat a) else d x) else (-2, d)),
     dev_read = (\<lambda>a buf d. if unat a + length buf \<le> n
       then (0, map d [unat a ..< unat a + length buf], d) else (-1, buf, d))\<rparr>"

interpretation ram: reliable_device "ram_device n" "\<lambda>d. d" n for n
  by unfold_locales (auto simp: ram_device_def in_range_def split: if_splits)

section \<open>A memory whose writes tear\<close>

text \<open>
  Each write consumes one entry of the plan: \<open>False\<close> means the write is cut after half of
  its bytes and reported as failed. An exhausted plan writes normally.
\<close>

record flaky_disk =
  cells :: "nat \<Rightarrow> byte"
  plan :: "bool list"

definition flaky_device :: "flaky_disk device" where
  "flaky_device = \<lparr>
     dev_write = (\<lambda>a bs d. case plan d of
         False # ps \<Rightarrow> (-2, d\<lparr>cells := (\<lambda>x. if in_range a (length bs div 2) x then bs ! (x - unat a) else cells d x),
                               plan := ps\<rparr>)
       | ps \<Rightarrow> (0, d\<lparr>cells := (\<lambda>x. if in_range a (length bs) x then bs ! (x - unat a) else cells d x),
                      plan := tl ps\<rparr>)),
     dev_read = (\<lambda>a buf d. (0, map (cells d) [unat a ..< unat a + length buf], d))\<rparr>"

interpretation flaky: readable_device flaky_device cells n for n
  by unfold_locales (auto simp: flaky_device_def in_range_def split: list.splits bool.splits)

end
