(* ===== verification/SlotFS.thy ===== *)
theory SlotFS
  imports Crc32 BlockDevice
begin

text \<open>
  The slot file system of \<^verbatim>\<open>lib_slotfs/slotfs.h\<close> and \<^verbatim>\<open>lib_slotfs/slotfs.cpp\<close>: data types, struct
  layouts and every operation, in the order of the source. \<^verbatim>\<open>size_t\<close> and \<^verbatim>\<open>uint64_t\<close> are 64-bit
  words (an LP64 host), so address arithmetic wraps as in the code; the offset inside a
  page, which the code keeps below the page size, is a natural number. Padding bytes of the
  two structs are zero, as the \<^verbatim>\<open>memset\<close>s leave them. \<open>None\<close> stands for a null device, a failed
  \<^verbatim>\<open>assert\<close>, a division by zero or an index outside \<^verbatim>\<open>lock_counters\<close>. The trace macros are
  empty in the default build and are left out.
\<close>

unbundle bit_operations_syntax

section \<open>Data\<close>

abbreviation (input) kBlockSize :: "'a::numeral" where "kBlockSize \<equiv> 512"
abbreviation (input) kMaxSlots :: "'a::numeral" where "kMaxSlots \<equiv> 128"

record config =
  slot_count :: u64
  start_address :: u64
  end_address :: u64

datatype mode = Mode_WriteCreate | Mode_Read | Mode_Unknown

datatype result = Result_Success | Result_Success_Eof | Result_Error_Read | Result_Error_Write
  | Result_Error_CorruptData | Result_Error_Assert | Result_Error_FileNotFound

record meta_data_block =
  md_start_address :: u64
  max_address :: u64
  file_size :: u64
  revision :: byte

record block_page =
  data_size :: nat
  page_data :: "byte list"
  page_offset :: nat

record sfs_file =
  slot :: u64
  md :: meta_data_block
  file_mode :: mode
  file_cursor :: u64
  file_page :: "block_page option"

record 'd slotfs =
  block_device :: "'d device option"
  dev :: 'd
  config :: config
  lock_counters :: "byte list"

section \<open>Pages\<close>

definition new_page :: "nat \<Rightarrow> block_page" where
  "new_page n = \<lparr>data_size = n, page_data = replicate n 0, page_offset = 0\<rparr>"

definition page_size :: "block_page \<Rightarrow> nat" where "page_size p = page_offset p"

definition page_available :: "block_page \<Rightarrow> nat" where "page_available p = data_size p - page_offset p"

definition page_capacity :: "block_page \<Rightarrow> nat" where "page_capacity p = data_size p"

definition page_clear :: "block_page \<Rightarrow> block_page" where "page_clear p = p\<lparr>page_offset := 0\<rparr>"

section \<open>Struct layouts\<close>

definition config_bytes :: "config \<Rightarrow> byte list" where
  "config_bytes c = le_bytes 8 (slot_count c) @ le_bytes 8 (start_address c) @ le_bytes 8 (end_address c)"

definition config_of_bytes :: "byte list \<Rightarrow> config" where
  "config_of_bytes bs = \<lparr>slot_count = le_word (slice 0 8 bs), start_address = le_word (slice 8 8 bs),
     end_address = le_word (slice 16 8 bs)\<rparr>"

definition md_bytes :: "meta_data_block \<Rightarrow> byte list" where
  "md_bytes m = le_bytes 8 (md_start_address m) @ le_bytes 8 (max_address m) @ le_bytes 8 (file_size m)
     @ [revision m] @ replicate 7 0"

definition md_of_bytes :: "byte list \<Rightarrow> meta_data_block" where
  "md_of_bytes bs = \<lparr>md_start_address = le_word (slice 0 8 bs), max_address = le_word (slice 8 8 bs),
     file_size = le_word (slice 16 8 bs), revision = bs ! 24\<rparr>"

definition zero_md :: meta_data_block where
  "zero_md = \<lparr>md_start_address = 0, max_address = 0, file_size = 0, revision = 0\<rparr>"

definition zero_file :: sfs_file where
  "zero_file = \<lparr>slot = 0, md = zero_md, file_mode = Mode_WriteCreate, file_cursor = 0, file_page = None\<rparr>"

section \<open>Device calls\<close>

definition bd_write :: "'d slotfs \<Rightarrow> u64 \<Rightarrow> byte list \<Rightarrow> (int \<times> 'd slotfs) option" where
  "bd_write s a bs = (case block_device s of None \<Rightarrow> None
     | Some bd \<Rightarrow> (case dev_write bd a bs (dev s) of (rc, d') \<Rightarrow> Some (rc, s\<lparr>dev := d'\<rparr>)))"

definition bd_read :: "'d slotfs \<Rightarrow> u64 \<Rightarrow> byte list \<Rightarrow> (int \<times> byte list \<times> 'd slotfs) option" where
  "bd_read s a buf = (case block_device s of None \<Rightarrow> None
     | Some bd \<Rightarrow> (case dev_read bd a buf (dev s) of (rc, buf', d') \<Rightarrow> Some (rc, buf', s\<lparr>dev := d'\<rparr>)))"

section \<open>Metadata blocks\<close>

definition page_block_address :: "sfs_file \<Rightarrow> (u64 \<times> u64) option" where
  "page_block_address f = (case file_page f of None \<Rightarrow> None
     | Some p \<Rightarrow>
        if md_start_address (md f) + file_cursor f \<le> max_address (md f)
        then let cap = of_nat (page_capacity p) in
             Some (md_start_address (md f) + (file_cursor f div cap) * cap, file_cursor f mod cap)
        else None)"

definition add_block_crc :: "byte list \<Rightarrow> byte list" where
  "add_block_crc buf = overwrite (length buf - 4) (le_bytes 4 (crc32 (take (length buf - 4) buf))) buf"

definition check_block_crc :: "byte list \<Rightarrow> bool" where
  "check_block_crc buf = (le_word (slice (length buf - 4) 4 buf) = crc32 (take (length buf - 4) buf))"

definition meta_block_address :: "config \<Rightarrow> u64 \<Rightarrow> u32 \<Rightarrow> u64" where
  "meta_block_address c sl idx = start_address c + kBlockSize * (sl * 2 + 1 + ucast idx)"

definition write_meta_data_block ::
  "'d slotfs \<Rightarrow> u64 \<Rightarrow> meta_data_block \<Rightarrow> u32 \<Rightarrow> (result \<times> 'd slotfs) option" where
  "write_meta_data_block s sl m idx =
     (if idx > 2 then Some (Result_Error_Assert, s)
      else do {
        let buf = add_block_crc (overwrite 0 (md_bytes m) (replicate kBlockSize 0));
        (rc, s) \<leftarrow> bd_write s (meta_block_address (config s) sl idx) buf;
        Some (if rc \<noteq> 0 then Result_Error_Write else Result_Success, s)
      })"

text \<open>The metadata argument is the caller's variable, left as it is on an error.\<close>

definition read_meta_data_block ::
  "'d slotfs \<Rightarrow> u64 \<Rightarrow> meta_data_block \<Rightarrow> u32 \<Rightarrow> (result \<times> meta_data_block \<times> 'd slotfs) option" where
  "read_meta_data_block s sl m idx = do {
     (rc, buf, s) \<leftarrow> bd_read s (meta_block_address (config s) sl idx) (replicate kBlockSize 0);
     Some (if rc \<noteq> 0 then (Result_Error_Read, m, s)
           else if check_block_crc buf then (Result_Success, md_of_bytes buf, s)
           else (Result_Error_CorruptData, m, s))
   }"

definition init_meta_data_block :: "config \<Rightarrow> u64 \<Rightarrow> meta_data_block option" where
  "init_meta_data_block cfg sl =
     (if slot_count cfg = 0 then None
      else let fs_total_size = end_address cfg - start_address cfg;
               fs_data_size = fs_total_size - kBlockSize * (1 + slot_count cfg * 2);
               slot_size = ((fs_data_size div slot_count cfg) div kBlockSize) * kBlockSize;
               slot_start_address = start_address cfg + kBlockSize * (1 + slot_count cfg * 2) + slot_size * sl
           in Some (zero_md\<lparr>max_address := slot_start_address + slot_size,
                            md_start_address := slot_start_address\<rparr>))"

text \<open>The results of the two metadata writes of a slot are ignored by the code.\<close>

fun format_slots :: "'d slotfs \<Rightarrow> nat list \<Rightarrow> 'd slotfs option" where
  "format_slots s [] = Some s"
| "format_slots s (sl # sls) = do {
     m \<leftarrow> init_meta_data_block (config s) (of_nat sl);
     (_, s) \<leftarrow> write_meta_data_block s (of_nat sl) m 0;
     (_, s) \<leftarrow> write_meta_data_block s (of_nat sl) m 1;
     format_slots s sls
   }"

definition sfs_format :: "'d slotfs \<Rightarrow> (result \<times> 'd slotfs) option" where
  "sfs_format s = do {
     let buf = overwrite 0 (config_bytes (config s)) (replicate kBlockSize 0);
     (rc, s) \<leftarrow> bd_write s (start_address (config s)) buf;
     if rc \<noteq> 0 then Some (Result_Error_Write, s)
     else do {
       s \<leftarrow> format_slots s [0 ..< unat (slot_count (config s))];
       Some (Result_Success, s)
     }
   }"

definition sfs_init :: "'d device \<Rightarrow> 'd \<Rightarrow> config \<Rightarrow> (result \<times> 'd slotfs) option" where
  "sfs_init bd d cfg = do {
     let s = \<lparr>block_device = Some bd, dev = d, config = cfg, lock_counters = replicate kMaxSlots 0\<rparr>;
     (rc, buf, s) \<leftarrow> bd_read s (start_address cfg) (replicate kBlockSize 0);
     if rc \<noteq> 0 then Some (Result_Error_Read, s)
     else if config_of_bytes buf \<noteq> cfg then sfs_format s
     else Some (Result_Success, s)
   }"

definition most_recent_meta_data_block ::
  "meta_data_block \<Rightarrow> bool \<Rightarrow> meta_data_block \<Rightarrow> bool \<Rightarrow> result \<times> nat option" where
  "most_recent_meta_data_block a valid_a b valid_b =
     (if valid_a \<and> valid_b then
        (Result_Success,
         Some (if \<bar>uint (revision a) - uint (revision b)\<bar> > 1
               then (if revision a < revision b then 0 else 1)
               else (if revision a < revision b then 1 else 0)))
      else if \<not> valid_a \<and> \<not> valid_b then (Result_Error_CorruptData, None)
      else (Result_Success, Some (if valid_a then 0 else 1)))"

definition sfs_file_opened :: "sfs_file \<Rightarrow> bool" where
  "sfs_file_opened f \<longleftrightarrow> file_page f \<noteq> None"

text \<open>
  The common start of \<^verbatim>\<open>sfs_file_exists\<close>, \<^verbatim>\<open>sfs_file_open\<close> and \<^verbatim>\<open>sfs_file_flush\<close>: read both metadata
  blocks of a slot and pick the most recent one. The two uninitialised locals \<^verbatim>\<open>md[2]\<close> are
  \<open>zero_md\<close>; a block that could not be read is never looked at.
\<close>

definition read_most_recent ::
  "'d slotfs \<Rightarrow> u64 \<Rightarrow> (result \<times> nat option \<times> meta_data_block \<times> meta_data_block \<times> 'd slotfs) option" where
  "read_most_recent s sl = do {
     (rc_a, a, s) \<leftarrow> read_meta_data_block s sl zero_md 0;
     (rc_b, b, s) \<leftarrow> read_meta_data_block s sl zero_md 1;
     let (rc, idx) = most_recent_meta_data_block a (rc_a = Result_Success) b (rc_b = Result_Success);
     Some (rc, idx, a, b, s)
   }"

definition sfs_file_exists :: "'d slotfs \<Rightarrow> u64 \<Rightarrow> (bool \<times> 'd slotfs) option" where
  "sfs_file_exists s sl = do {
     (rc, idx, a, b, s) \<leftarrow> read_most_recent s sl;
     Some (case idx of None \<Rightarrow> False
           | Some i \<Rightarrow> revision (if i = 0 then a else b) \<noteq> 0, s)
   }"

section \<open>Opening, seeking, flushing\<close>

definition lock_counter :: "'d slotfs \<Rightarrow> u64 \<Rightarrow> byte option" where
  "lock_counter s sl = (if unat sl < length (lock_counters s) then Some (lock_counters s ! unat sl) else None)"

definition set_lock_counter :: "'d slotfs \<Rightarrow> u64 \<Rightarrow> byte \<Rightarrow> 'd slotfs" where
  "set_lock_counter s sl c = s\<lparr>lock_counters := (lock_counters s)[unat sl := c]\<rparr>"

text \<open>The last lines of \<^verbatim>\<open>sfs_file_open\<close>: a page of four blocks, and one more user of the slot.\<close>

definition open_finish :: "'d slotfs \<Rightarrow> u64 \<Rightarrow> mode \<Rightarrow> sfs_file \<Rightarrow> (result \<times> 'd slotfs \<times> sfs_file) option" where
  "open_finish s sl m f = do {
     let f = f\<lparr>slot := sl, file_mode := m, file_cursor := 0, file_page := Some (new_page (kBlockSize * 4))\<rparr>;
     c \<leftarrow> lock_counter s sl;
     Some (Result_Success, set_lock_counter s sl (c + 1), f)
   }"

definition sfs_file_open :: "'d slotfs \<Rightarrow> u64 \<Rightarrow> mode \<Rightarrow> sfs_file \<Rightarrow> (result \<times> 'd slotfs \<times> sfs_file) option" where
  "sfs_file_open s sl m f =
     (if sfs_file_opened f then Some (Result_Error_Assert, s, f)
      else if sl > slot_count (config s) then Some (Result_Error_FileNotFound, s, f)
      else if m = Mode_Read then do {
        (rc, idx, a, b, s) \<leftarrow> read_most_recent s sl;
        (case idx of None \<Rightarrow> Some (rc, s, zero_file)
         | Some i \<Rightarrow>
             let f = zero_file\<lparr>md := if i = 0 then a else b\<rparr> in
             if revision (md f) = 0 then Some (Result_Error_FileNotFound, s, f)
             else open_finish s sl m f)
      }
      else if m = Mode_WriteCreate then do {
        c \<leftarrow> lock_counter s sl;
        if c \<noteq> 0 then Some (Result_Error_Assert, s, zero_file)
        else do {
          m0 \<leftarrow> init_meta_data_block (config s) sl;
          let f = zero_file\<lparr>md := m0\<lparr>revision := 1\<rparr>\<rparr>;
          (rc, s) \<leftarrow> write_meta_data_block s sl (md f) 0;
          if rc \<noteq> Result_Success then Some (rc, s, f)
          else do {
            (rc, s) \<leftarrow> write_meta_data_block s sl (md f) 1;
            if rc \<noteq> Result_Success then Some (rc, s, f)
            else open_finish s sl m f
          }
        }
      }
      else Some (Result_Error_Assert, s, zero_file))"

definition sfs_file_seek :: "'d slotfs \<Rightarrow> sfs_file \<Rightarrow> u64 \<Rightarrow> result \<times> sfs_file" where
  "sfs_file_seek s f pos = (case file_page f of None \<Rightarrow> (Result_Error_Assert, f)
     | Some p \<Rightarrow>
         if file_mode f = Mode_WriteCreate then (Result_Error_Assert, f)
         else if pos \<ge> file_size (md f) then (Result_Error_Assert, f)
         else (Result_Success, f\<lparr>file_cursor := pos, file_page := Some (page_clear p)\<rparr>))"

text \<open>The page write that \<^verbatim>\<open>sfs_file_write\<close> and \<^verbatim>\<open>sfs_file_flush\<close> share.\<close>

definition write_page :: "'d slotfs \<Rightarrow> sfs_file \<Rightarrow> (int \<times> 'd slotfs) option" where
  "write_page s f = do {
     (block_address, _) \<leftarrow> page_block_address f;
     p \<leftarrow> file_page f;
     bd_write s block_address (take (page_capacity p) (page_data p))
   }"

definition sfs_file_flush :: "'d slotfs \<Rightarrow> sfs_file \<Rightarrow> (result \<times> 'd slotfs \<times> sfs_file) option" where
  "sfs_file_flush s f = (case file_page f of None \<Rightarrow> Some (Result_Error_Assert, s, f)
     | Some p \<Rightarrow>
         if file_mode f \<noteq> Mode_WriteCreate then Some (Result_Error_Assert, s, f)
         else do {
           (rc, s) \<leftarrow> (if page_size p > 0 then write_page s f else Some (0, s));
           if rc \<noteq> 0 then Some (Result_Error_Write, s, f)
           else do {
             let f = f\<lparr>md := (md f)\<lparr>file_size := file_cursor f, revision := revision (md f) + 1\<rparr>\<rparr>;
             (rc, idx, a, b, s) \<leftarrow> read_most_recent s (slot f);
             (case idx of None \<Rightarrow> Some (rc, s, f)
              | Some i \<Rightarrow> do {
                  (_, s) \<leftarrow> write_meta_data_block s (slot f) (md f) (of_nat ((i + 1) mod 2));
                  Some (Result_Success, s, f)
                })
           }
         })"

definition sfs_file_allocate :: "'d slotfs \<Rightarrow> sfs_file \<Rightarrow> u64 \<Rightarrow> (result \<times> 'd slotfs \<times> sfs_file) option" where
  "sfs_file_allocate s f n = (case file_page f of None \<Rightarrow> Some (Result_Error_Assert, s, f)
     | Some p \<Rightarrow>
         if file_mode f \<noteq> Mode_WriteCreate then Some (Result_Error_Assert, s, f)
         else sfs_file_flush s (f\<lparr>file_cursor := n, file_page := Some (page_clear p)\<rparr>))"

section \<open>Writing and reading\<close>

text \<open>
  One iteration of the write loop on the data still to be written: the first component is
  the value returned, if the iteration returns, the last the number of bytes it consumed.
\<close>

definition write_step ::
  "'d slotfs \<Rightarrow> sfs_file \<Rightarrow> byte list \<Rightarrow> (result option \<times> 'd slotfs \<times> sfs_file \<times> nat) option" where
  "write_step s f rest = (
     let remaining_file_space = (max_address (md f) - md_start_address (md f)) - file_cursor f in
     if length rest > unat remaining_file_space then Some (Some Result_Error_Write, s, f, 0)
     else do {
       p \<leftarrow> file_page f;
       let can_write = min (length rest) (page_available p);
       let p = p\<lparr>page_data := overwrite (page_offset p) (take can_write rest) (page_data p),
                 page_offset := page_offset p + can_write\<rparr>;
       let f = f\<lparr>file_page := Some p\<rparr>;
       if page_available p = 0 then do {
         (rc, s) \<leftarrow> write_page s f;
         if rc \<noteq> 0 then Some (Some Result_Error_Write, s, f, 0)
         else do {
           (_, s, f) \<leftarrow> sfs_file_flush s (f\<lparr>file_page := Some (page_clear p)\<rparr>);
           Some (None, s, f\<lparr>file_cursor := file_cursor f + of_nat can_write\<rparr>, can_write)
         }
       }
       else Some (None, s, f\<lparr>file_cursor := file_cursor f + of_nat can_write\<rparr>, can_write)
     })"

partial_function (option) write_loop ::
  "'d slotfs \<Rightarrow> sfs_file \<Rightarrow> byte list \<Rightarrow> nat \<Rightarrow> (result \<times> 'd slotfs \<times> sfs_file \<times> nat) option" where
  "write_loop s f rest written =
     (if rest = [] then Some (Result_Success, s, f, written)
      else do {
        (ret, s, f, n) \<leftarrow> write_step s f rest;
        (case ret of Some rc \<Rightarrow> Some (rc, s, f, written)
         | None \<Rightarrow> write_loop s f (drop n rest) (written + n))
      })"

definition sfs_file_write ::
  "'d slotfs \<Rightarrow> sfs_file \<Rightarrow> byte list \<Rightarrow> (result \<times> 'd slotfs \<times> sfs_file \<times> nat) option" where
  "sfs_file_write s f data =
     (if \<not> sfs_file_opened f then Some (Result_Error_Assert, s, f, 0) else write_loop s f data 0)"

text \<open>Loading the page the cursor points into.\<close>

definition load_page :: "'d slotfs \<Rightarrow> sfs_file \<Rightarrow> (int \<times> 'd slotfs \<times> sfs_file) option" where
  "load_page s f = do {
     (block_address, offset) \<leftarrow> page_block_address f;
     p \<leftarrow> file_page f;
     (rc, buf, s) \<leftarrow> bd_read s block_address (page_data p);
     Some (rc, s, f\<lparr>file_page := Some (p\<lparr>page_data := buf,
             page_offset := if rc \<noteq> 0 then page_offset p else unat offset\<rparr>)\<rparr>)
   }"

definition read_step ::
  "'d slotfs \<Rightarrow> sfs_file \<Rightarrow> nat \<Rightarrow> (result option \<times> 'd slotfs \<times> sfs_file \<times> byte list) option" where
  "read_step s f remaining =
     (if file_cursor f \<ge> file_size (md f) then Some (Some Result_Success_Eof, s, f, [])
      else do {
        p \<leftarrow> file_page f;
        (rc, s, f) \<leftarrow> (if page_available p = 0 \<or> page_size p = 0 then load_page s f else Some (0, s, f));
        if rc \<noteq> 0 then Some (Some Result_Error_Read, s, f, [])
        else do {
          p \<leftarrow> file_page f;
          let remaining_to_read = min remaining (unat (file_size (md f) - file_cursor f));
          let can_read = min (page_capacity p - page_size p) remaining_to_read;
          Some (None, s, f\<lparr>file_cursor := file_cursor f + of_nat can_read,
                          file_page := Some (p\<lparr>page_offset := page_offset p + can_read\<rparr>)\<rparr>,
                slice (page_offset p) can_read (page_data p))
        }
      })"

partial_function (option) read_loop ::
  "'d slotfs \<Rightarrow> sfs_file \<Rightarrow> nat \<Rightarrow> byte list \<Rightarrow> (result \<times> 'd slotfs \<times> sfs_file \<times> byte list) option" where
  "read_loop s f remaining acc =
     (if remaining = 0 then Some (Result_Success, s, f, acc)
      else do {
        (ret, s, f, bs) \<leftarrow> read_step s f remaining;
        (case ret of Some rc \<Rightarrow> Some (rc, s, f, acc)
         | None \<Rightarrow> read_loop s f (remaining - length bs) (acc @ bs))
      })"

text \<open>The bytes returned are the filled prefix of the caller's buffer; \<^verbatim>\<open>*bytes_read\<close> is their number.\<close>

definition sfs_file_read ::
  "'d slotfs \<Rightarrow> sfs_file \<Rightarrow> nat \<Rightarrow> (result \<times> 'd slotfs \<times> sfs_file \<times> byte list) option" where
  "sfs_file_read s f n =
     (if \<not> sfs_file_opened f \<or> file_mode f \<noteq> Mode_Read then Some (Result_Error_Assert, s, f, [])
      else read_loop s f n [])"

section \<open>Closing\<close>

definition sfs_file_close :: "'d slotfs \<Rightarrow> sfs_file \<Rightarrow> (result \<times> 'd slotfs \<times> sfs_file) option" where
  "sfs_file_close s f =
     (if \<not> sfs_file_opened f then Some (Result_Error_Assert, s, f)
      else do {
        (rc, s, f) \<leftarrow> (if file_mode f = Mode_WriteCreate then sfs_file_flush s f else Some (Result_Success, s, f));
        if rc \<noteq> Result_Success then Some (rc, s, f)
        else do {
          c \<leftarrow> lock_counter s (slot f);
          Some (Result_Success, set_lock_counter s (slot f) (c - 1), zero_file)
        }
      })"

definition sfs_deinit :: "'d slotfs \<Rightarrow> result \<times> 'd slotfs" where
  "sfs_deinit s = (Result_Success,
     s\<lparr>block_device := None, config := \<lparr>slot_count = 0, start_address = 0, end_address = 0\<rparr>\<rparr>)"

definition sfs_file_size :: "sfs_file \<Rightarrow> result \<times> u64 option" where
  "sfs_file_size f = (if sfs_file_opened f then (Result_Success, Some (file_size (md f)))
     else (Result_Error_Assert, None))"

end
