(* ===== verification/SlotFS_Layout.thy ===== *)
theory SlotFS_Layout
  imports SlotFS
begin

text \<open>
  Where things lie on the device: the layout \<^verbatim>\<open>init_meta_data_block\<close> and the metadata addresses
  compute, in natural numbers for a well-formed configuration (no wrap-around), the
  round trips of the two struct layouts and of a metadata block with its checksum.
\<close>

unbundle bit_operations_syntax

section \<open>Layout in natural numbers\<close>

definition slots_of :: "config \<Rightarrow> nat" where "slots_of c = unat (slot_count c)"

definition data_start :: "config \<Rightarrow> nat" where
  "data_start c = unat (start_address c) + 512 * (1 + 2 * slots_of c)"

definition slot_bytes :: "config \<Rightarrow> nat" where
  "slot_bytes c = (unat (end_address c) - data_start c) div slots_of c div 512 * 512"

definition slot_begin :: "config \<Rightarrow> nat \<Rightarrow> nat" where
  "slot_begin c i = data_start c + slot_bytes c * i"

definition meta_addr :: "config \<Rightarrow> nat \<Rightarrow> nat \<Rightarrow> nat" where
  "meta_addr c i k = unat (start_address c) + 512 * (2 * i + 1 + k)"

text \<open>A configuration whose tables fit below its end, with a block-aligned start.\<close>

definition wf_config :: "config \<Rightarrow> bool" where
  "wf_config c \<longleftrightarrow> 0 < slots_of c \<and> slots_of c \<le> 128 \<and> 512 dvd unat (start_address c)
     \<and> data_start c \<le> unat (end_address c)"

lemma slot_total: "wf_config c \<Longrightarrow> data_start c + slot_bytes c * slots_of c \<le> unat (end_address c)"
proof -
  assume wf: "wf_config c"
  define D where "D = unat (end_address c) - data_start c"
  have "D div slots_of c div 512 * 512 \<le> D div slots_of c" by simp
  then have "slot_bytes c * slots_of c \<le> D div slots_of c * slots_of c"
    unfolding slot_bytes_def D_def by (rule mult_le_mono1)
  also have "\<dots> \<le> D" by simp
  finally show ?thesis
    using wf unfolding wf_config_def D_def by linarith
qed

lemma slot_end: "wf_config c \<Longrightarrow> i < slots_of c \<Longrightarrow> slot_begin c i + slot_bytes c \<le> unat (end_address c)"
proof -
  assume wf: "wf_config c" and i: "i < slots_of c"
  then have "slot_bytes c * Suc i \<le> slot_bytes c * slots_of c"
    by (intro mult_le_mono2) simp
  with slot_total [OF wf] show ?thesis by (simp add: slot_begin_def)
qed

lemma slot_begin_bound: "wf_config c \<Longrightarrow> i < slots_of c \<Longrightarrow> slot_begin c i < 2 ^ 64"
  using slot_end [of c i] unat_u64_less [of "end_address c"] by (simp del: unat_u64_less)

lemma init_md_layout:
  assumes wf: "wf_config c" and sl: "unat sl < slots_of c"
  shows "init_meta_data_block c sl = Some (zero_md\<lparr>max_address := of_nat (slot_begin c (unat sl) + slot_bytes c),
           md_start_address := of_nat (slot_begin c (unat sl))\<rparr>)"
proof -
  let ?N = "slots_of c" and ?S = "unat (start_address c)" and ?E = "unat (end_address c)"
  have n0: "slot_count c \<noteq> 0"
    using wf by (auto simp: wf_config_def slots_of_def)
  have le: "?S + 512 * (1 + 2 * ?N) \<le> ?E"
    using wf by (simp add: wf_config_def data_start_def)
  have E: "?E < 2 ^ LENGTH(64)" by (rule unsigned_less)
  have cnt: "slot_count c = of_nat ?N" by (simp add: slots_of_def)
  have tab: "(512 * (1 + slot_count c * 2) :: u64) = of_nat (512 * (1 + 2 * ?N))"
    by (simp add: cnt)
  have tot: "end_address c - start_address c = of_nat (?E - ?S)"
    by (rule word_eq_of_nat_diff) (use le in simp_all)
  have fs: "end_address c - start_address c - 512 * (1 + slot_count c * 2) = of_nat (?E - ?S - 512 * (1 + 2 * ?N))"
    by (rule word_eq_of_nat_diff [OF tot tab]) (use le in simp)
  let ?D = "?E - data_start c"
  have D: "?E - ?S - 512 * (1 + 2 * ?N) = ?D" by (simp add: data_start_def)
  have Db: "?D < 2 ^ LENGTH(64)" using E by (simp add: less_imp_diff_less)
  have d1: "of_nat ?D div slot_count c = of_nat (?D div ?N)"
    by (rule word_eq_of_nat_div [OF refl cnt Db]) (simp add: slots_of_def)
  have d1b: "?D div ?N < 2 ^ LENGTH(64)"
    by (rule le_less_trans [OF div_le_dividend Db])
  have d2: "of_nat (?D div ?N) div (512 :: u64) = of_nat (?D div ?N div 512)"
    by (rule word_eq_of_nat_div [OF refl _ d1b, of _ 512]) simp_all
  have size: "(end_address c - start_address c - 512 * (1 + slot_count c * 2)) div slot_count c div 512 * 512
      = (of_nat (slot_bytes c) :: u64)"
    by (simp only: fs D d1 d2 slot_bytes_def of_nat_mult of_nat_numeral)
  have beg: "start_address c + 512 * (1 + slot_count c * 2) + of_nat (slot_bytes c) * sl
      = of_nat (slot_begin c (unat sl))"
    by (simp only: tab slot_begin_def data_start_def of_nat_add of_nat_mult) simp
  show ?thesis
    unfolding init_meta_data_block_def Let_def if_not_P [OF n0] size beg by simp
qed


lemma meta_addr_end: "wf_config c \<Longrightarrow> i < slots_of c \<Longrightarrow> k \<le> 1 \<Longrightarrow> meta_addr c i k + 512 \<le> data_start c"
  by (simp add: meta_addr_def data_start_def)

lemma unat_meta_block_address:
  assumes wf: "wf_config c" and sl: "unat sl < slots_of c" and idx: "unat idx \<le> 1"
  shows "unat (meta_block_address c sl idx) = meta_addr c (unat sl) (unat idx)"
proof -
  have "meta_block_address c sl idx = of_nat (meta_addr c (unat sl) (unat idx))"
    by (simp add: meta_block_address_def meta_addr_def algebra_simps)
  moreover have "meta_addr c (unat sl) (unat idx) < 2 ^ 64"
    using meta_addr_end [OF wf sl idx] wf unat_u64_less [of "end_address c"]
    unfolding wf_config_def by (simp del: unat_u64_less)
  ultimately show ?thesis by (simp only: unat_of_nat_u64)
qed

lemma meta_addr_aligned: "wf_config c \<Longrightarrow> 512 dvd meta_addr c i k"
  by (simp add: meta_addr_def wf_config_def)

lemma data_start_aligned: "wf_config c \<Longrightarrow> 512 dvd data_start c"
  by (simp add: data_start_def wf_config_def)

lemma slot_begin_aligned: "wf_config c \<Longrightarrow> 512 dvd slot_begin c i"
  by (simp add: slot_begin_def slot_bytes_def data_start_aligned)

section \<open>Round trips of the layouts\<close>

lemma length_config_bytes [simp]: "length (config_bytes c) = 24"
  by (simp add: config_bytes_def)

lemma length_md_bytes [simp]: "length (md_bytes m) = 32"
  by (simp add: md_bytes_def)

lemma config_roundtrip: "config_of_bytes (config_bytes c @ rest) = c"
  by (simp add: config_of_bytes_def config_bytes_def slice_def)

lemma md_roundtrip: "md_of_bytes (md_bytes m @ rest) = m"
  by (simp add: md_of_bytes_def md_bytes_def slice_def nth_append)

definition md_image :: "meta_data_block \<Rightarrow> byte list" where
  "md_image m = add_block_crc (overwrite 0 (md_bytes m) (replicate 512 0))"

lemma md_image_split: "\<exists>z. length z = 476 \<and>
    md_image m = md_bytes m @ z @ le_bytes 4 (crc32 (md_bytes m @ z))"
proof -
  have "overwrite 0 (md_bytes m) (replicate 512 0) = md_bytes m @ replicate 480 0"
    by (simp add: overwrite_def)
  then have "md_image m = md_bytes m @ replicate 476 0 @ le_bytes 4 (crc32 (md_bytes m @ replicate 476 0))"
    by (simp add: md_image_def add_block_crc_def overwrite_def)
  then show ?thesis by (intro exI [of _ "replicate 476 0"]) simp
qed

lemma length_md_image [simp]: "length (md_image m) = 512"
  using md_image_split [of m] by auto

lemma check_md_image [simp]: "check_block_crc (md_image m)"
proof -
  obtain z where z: "length z = 476" "md_image m = md_bytes m @ z @ le_bytes 4 (crc32 (md_bytes m @ z))"
    using md_image_split by blast
  have "slice 508 4 (md_image m) = le_bytes 4 (crc32 (md_bytes m @ z))"
    using z by (simp add: slice_def)
  moreover have "take 508 (md_image m) = md_bytes m @ z"
    using z by simp
  ultimately show ?thesis by (simp add: check_block_crc_def)
qed

lemma md_of_image [simp]: "md_of_bytes (md_image m) = m"
  using md_image_split [of m] md_roundtrip by auto

section \<open>What the device holds\<close>

definition block_at :: "(nat \<Rightarrow> byte) \<Rightarrow> nat \<Rightarrow> byte list" where
  "block_at mm a = map mm [a ..< a + 512]"

text \<open>The metadata block \<open>k\<close> of slot \<open>i\<close>, if its checksum is right.\<close>

definition disk_md :: "(nat \<Rightarrow> byte) \<Rightarrow> config \<Rightarrow> nat \<Rightarrow> nat \<Rightarrow> meta_data_block option" where
  "disk_md mm c i k = (let b = block_at mm (meta_addr c i k) in if check_block_crc b then Some (md_of_bytes b) else None)"

lemma length_block_at [simp]: "length (block_at mm a) = 512"
  by (simp add: block_at_def)

lemma block_at_cong: "(\<And>x. a \<le> x \<Longrightarrow> x < a + 512 \<Longrightarrow> mm x = mm' x) \<Longrightarrow> block_at mm a = block_at mm' a"
  by (simp add: block_at_def)

lemma block_at_eq: "length bs = 512 \<Longrightarrow> (\<And>i. i < 512 \<Longrightarrow> mm (a + i) = bs ! i) \<Longrightarrow> block_at mm a = bs"
  by (simp add: block_at_def list_eq_iff_nth_eq)

lemma disk_md_cong:
  "(\<And>x. meta_addr c i k \<le> x \<Longrightarrow> x < meta_addr c i k + 512 \<Longrightarrow> mm x = mm' x) \<Longrightarrow> disk_md mm c i k = disk_md mm' c i k"
  using block_at_cong [of "meta_addr c i k" mm mm'] by (simp add: disk_md_def)

lemma disk_md_image: "block_at mm (meta_addr c i k) = md_image m \<Longrightarrow> disk_md mm c i k = Some m"
  by (simp add: disk_md_def)

text \<open>
  The block a reader picks: its index and contents. This is the specification of
  \<^verbatim>\<open>most_recent_meta_data_block\<close> on the two blocks of a slot.
\<close>

definition newer_idx :: "byte \<Rightarrow> byte \<Rightarrow> nat" where
  "newer_idx ra rb = (if \<bar>uint ra - uint rb\<bar> > 1 then (if ra < rb then 0 else 1) else (if ra < rb then 1 else 0))"

definition committed :: "(nat \<Rightarrow> byte) \<Rightarrow> config \<Rightarrow> nat \<Rightarrow> (nat \<times> meta_data_block) option" where
  "committed mm c i = (case (disk_md mm c i 0, disk_md mm c i 1) of
       (None, None) \<Rightarrow> None
     | (Some a, None) \<Rightarrow> Some (0, a)
     | (None, Some b) \<Rightarrow> Some (1, b)
     | (Some a, Some b) \<Rightarrow> Some (if newer_idx (revision a) (revision b) = 0 then (0, a) else (1, b)))"

lemma newer_idx_less_2: "newer_idx a b < 2"
  by (simp add: newer_idx_def)

end
