(* ===== verification/SlotFS_Meta.thy ===== *)
theory SlotFS_Meta
  imports SlotFS_Layout
begin

text \<open>
  The metadata blocks on a device that satisfies its contract: what reading and writing one
  does to the device, which block a reader picks, and the A/B discipline of the flush.
\<close>

unbundle bit_operations_syntax

section \<open>A mounted file system and a file inside its slot\<close>

definition fs_ready :: "'d device \<Rightarrow> nat \<Rightarrow> 'd slotfs \<Rightarrow> bool" where
  "fs_ready bd cap s \<longleftrightarrow> block_device s = Some bd \<and> wf_config (config s)
     \<and> unat (end_address (config s)) \<le> cap \<and> length (lock_counters s) = 128"

definition page_ok :: "block_page \<Rightarrow> bool" where
  "page_ok p \<longleftrightarrow> data_size p = 2048 \<and> length (page_data p) = 2048 \<and> page_offset p \<le> 2048"

definition in_slot :: "config \<Rightarrow> sfs_file \<Rightarrow> bool" where
  "in_slot c f \<longleftrightarrow> unat (slot f) < slots_of c
     \<and> md_start_address (md f) = of_nat (slot_begin c (unat (slot f)))
     \<and> max_address (md f) = of_nat (slot_begin c (unat (slot f)) + slot_bytes c)
     \<and> unat (file_cursor f) \<le> slot_bytes c"

lemma fs_ready_dev [simp]: "fs_ready bd cap (s\<lparr>dev := d\<rparr>) = fs_ready bd cap s"
  by (simp add: fs_ready_def)

lemma fs_ready_wf: "fs_ready bd cap s \<Longrightarrow> wf_config (config s)"
  by (simp add: fs_ready_def)

text \<open>The page of the cursor: its address and the offset in it.\<close>

lemma page_block_address_in_slot:
  assumes wf: "wf_config c" and f: "in_slot c f" and p: "file_page f = Some p" "page_ok p"
  shows "page_block_address f = Some (of_nat (slot_begin c (unat (slot f)) + unat (file_cursor f) div 2048 * 2048),
           of_nat (unat (file_cursor f) mod 2048))"
    and "slot_begin c (unat (slot f)) + unat (file_cursor f) div 2048 * 2048 < 2 ^ 64"
proof -
  let ?b = "slot_begin c (unat (slot f))" and ?k = "unat (file_cursor f)"
  have E: "?b + slot_bytes c < 2 ^ 64"
    using f slot_end [OF wf, of "unat (slot f)"] unat_u64_less [of "end_address c"]
    by (simp add: in_slot_def del: unat_u64_less)
  have k: "?k \<le> slot_bytes c" using f by (simp add: in_slot_def)
  have sum: "md_start_address (md f) + file_cursor f = of_nat (?b + ?k)"
    using f by (simp add: in_slot_def)
  have le: "md_start_address (md f) + file_cursor f \<le> max_address (md f)"
    using f E k unfolding sum by (simp add: in_slot_def word_le_nat_alt unat_of_nat_u64 del: of_nat_add)
  have cur: "file_cursor f = of_nat ?k" by simp
  have kb: "?k < 2 ^ LENGTH(64)" by simp
  have dv: "file_cursor f div 2048 = of_nat (?k div 2048)"
    by (rule word_eq_of_nat_div [OF cur _ kb, of _ 2048]) simp_all
  have md: "file_cursor f mod 2048 = of_nat (?k mod 2048)"
    by (simp add: word_arith_nat_mod)
  show "page_block_address f = Some (of_nat (?b + ?k div 2048 * 2048), of_nat (?k mod 2048))"
    using le p f by (simp add: page_block_address_def page_ok_def page_capacity_def in_slot_def Let_def dv md)
  show "?b + ?k div 2048 * 2048 < 2 ^ 64"
    using E k by (intro le_less_trans [OF _ E]) (simp add: div_times_less_eq_dividend le_trans)
qed

section \<open>Picking the most recent block\<close>

definition md_or_zero :: "meta_data_block option \<Rightarrow> meta_data_block" where
  "md_or_zero x = (case x of None \<Rightarrow> zero_md | Some m \<Rightarrow> m)"

lemma most_recent_committed:
  fixes mm c i
  defines "A \<equiv> disk_md mm c i 0" and "B \<equiv> disk_md mm c i 1"
  defines "r \<equiv> most_recent_meta_data_block (md_or_zero A) (A \<noteq> None) (md_or_zero B) (B \<noteq> None)"
  shows "committed mm c i = None \<Longrightarrow> r = (Result_Error_CorruptData, None)"
    and "committed mm c i = Some (k, m) \<Longrightarrow>
      r = (Result_Success, Some k) \<and> k < 2 \<and> m = (if k = 0 then md_or_zero A else md_or_zero B)"
  unfolding r_def A_def B_def
  by (auto simp: committed_def most_recent_meta_data_block_def md_or_zero_def newer_idx_def
      split: option.splits if_splits)

section \<open>Reading and writing one metadata block\<close>

context block_device
begin

lemma write_md_effect:
  assumes rdy: "fs_ready bd cap s" and sl: "unat sl < slots_of (config s)" and k: "unat idx = k" "k \<le> 1"
    and ma: "ma = meta_addr (config s) (unat sl) k"
  obtains rc d' where "write_meta_data_block (s\<lparr>dev := d\<rparr>) sl m idx = Some (rc, s\<lparr>dev := d'\<rparr>)"
    "rc = (if fst (dev_write bd (of_nat ma) (md_image m) d) = 0 then Result_Success else Result_Error_Write)"
    "rc = Result_Success \<Longrightarrow> block_at (mem d') ma = md_image m"
    "\<And>x. x < ma \<or> ma + 512 \<le> x \<Longrightarrow> mem d' x = mem d x"
proof -
  have idx: "unat idx \<le> 1" using k by simp
  have u: "unat (meta_block_address (config s) sl idx) = ma"
    unfolding ma unat_meta_block_address [OF fs_ready_wf [OF rdy] sl idx] k by (rule refl)
  have a: "meta_block_address (config s) sl idx = of_nat ma"
    unfolding u [symmetric] by simp
  have ua: "unat (of_nat ma :: u64) = ma" using u unfolding a .
  obtain r d' where w: "dev_write bd (of_nat ma) (md_image m) d = (r, d')"
    by (cases "dev_write bd (of_nat ma) (md_image m) d")
  have i2: "\<not> 2 < idx" using idx by (simp add: word_less_nat_alt)
  have run: "write_meta_data_block (s\<lparr>dev := d\<rparr>) sl m idx =
      Some (if r \<noteq> 0 then Result_Error_Write else Result_Success, s\<lparr>dev := d'\<rparr>)"
    using rdy w i2 by (simp add: write_meta_data_block_def bd_write_def fs_ready_def md_image_def a)
  show thesis
  proof (rule that [OF run])
    assume "(if r \<noteq> 0 then Result_Error_Write else Result_Success) = Result_Success"
    then have "dev_write bd (of_nat ma) (md_image m) d = (0, d')" using w by (simp split: if_splits)
    from write_data [OF this] show "block_at (mem d') ma = md_image m"
      by (intro block_at_eq) (simp_all add: ua)
  next
    fix x assume "x < ma \<or> ma + 512 \<le> x"
    then show "mem d' x = mem d x"
      using write_frame [OF w, of x] ua by (auto simp: in_range_def)
  qed (simp add: w)
qed

text \<open>The page write, for a file inside its slot.\<close>

lemma write_page_effect:
  assumes rdy: "fs_ready bd cap s" and f: "in_slot (config s) f" and p: "file_page f = Some p" "page_ok p"
  defines "pa \<equiv> slot_begin (config s) (unat (slot f)) + unat (file_cursor f) div 2048 * 2048"
  obtains rc d' where "write_page s f = Some (rc, s\<lparr>dev := d'\<rparr>)"
    "rc = fst (dev_write bd (of_nat pa) (page_data p) (dev s))"
    "\<And>j. rc = 0 \<Longrightarrow> j < 2048 \<Longrightarrow> mem d' (pa + j) = page_data p ! j"
    "\<And>x. x < pa \<or> pa + 2048 \<le> x \<Longrightarrow> mem d' x = mem (dev s) x"
proof -
  note wf = fs_ready_wf [OF rdy]
  have pba: "page_block_address f = Some (of_nat pa, of_nat (unat (file_cursor f) mod 2048))" and pb: "pa < 2 ^ 64"
    unfolding pa_def by (rule page_block_address_in_slot [OF wf f p])+
  have ua: "unat (of_nat pa :: u64) = pa" by (rule unat_of_nat_u64 [OF pb])
  have len: "length (page_data p) = 2048" using p by (simp add: page_ok_def)
  obtain rc d' where w: "dev_write bd (of_nat pa) (page_data p) (dev s) = (rc, d')"
    by (cases "dev_write bd (of_nat pa) (page_data p) (dev s)")
  show thesis
  proof (rule that)
    show "write_page s f = Some (rc, s\<lparr>dev := d'\<rparr>)"
      using rdy p w by (simp add: write_page_def pba bd_write_def fs_ready_def page_ok_def page_capacity_def)
    show "rc = fst (dev_write bd (of_nat pa) (page_data p) (dev s))" by (simp add: w)
    show "mem d' (pa + j) = page_data p ! j" if "rc = 0" "j < 2048" for j
      using write_data [of "of_nat pa" "page_data p" "dev s" d' j] w that by (simp add: ua len)
    show "mem d' x = mem (dev s) x" if "x < pa \<or> pa + 2048 \<le> x" for x
      using write_frame [OF w, of x] that by (auto simp: in_range_def ua len)
  qed
qed

end

context readable_device
begin

lemma read_md_ready:
  assumes rdy: "fs_ready bd cap s" and sl: "unat sl < slots_of (config s)" and idx: "unat idx \<le> 1"
  shows "\<exists>d'. mem d' = mem (dev s) \<and>
    read_meta_data_block s sl m idx = Some (case disk_md (mem (dev s)) (config s) (unat sl) (unat idx) of
         None \<Rightarrow> (Result_Error_CorruptData, m, s\<lparr>dev := d'\<rparr>) | Some x \<Rightarrow> (Result_Success, x, s\<lparr>dev := d'\<rparr>))"
proof -
  let ?a = "meta_block_address (config s) sl idx"
  have ua: "unat ?a = meta_addr (config s) (unat sl) (unat idx)"
    using rdy sl idx by (simp add: unat_meta_block_address fs_ready_def)
  have al: "512 dvd unat ?a"
    using rdy by (simp add: ua meta_addr_aligned fs_ready_def)
  have le: "unat ?a + length (replicate 512 (0::byte)) \<le> cap"
    using rdy meta_addr_end [of "config s" "unat sl" "unat idx"] sl idx
    by (simp add: ua fs_ready_def wf_config_def)
  obtain d' where r: "dev_read bd ?a (replicate 512 0) (dev s) = (0, map (mem (dev s)) [unat ?a ..< unat ?a + 512], d')"
    and m: "mem d' = mem (dev s)"
    using read_reliable [OF al _ le, of "dev s"] by auto
  show ?thesis
    using r rdy
    by (intro exI [of _ d'] conjI m) (simp add: read_meta_data_block_def bd_read_def fs_ready_def disk_md_def block_at_def ua Let_def)
qed

lemma read_most_recent_ready:
  assumes rdy: "fs_ready bd cap s" and sl: "unat sl < slots_of (config s)"
  obtains d' rc idx a b where "mem d' = mem (dev s)"
    "read_most_recent s sl = Some (rc, idx, a, b, s\<lparr>dev := d'\<rparr>)"
    "committed (mem (dev s)) (config s) (unat sl) = None \<Longrightarrow> rc = Result_Error_CorruptData \<and> idx = None"
    "\<And>i m. committed (mem (dev s)) (config s) (unat sl) = Some (i, m) \<Longrightarrow>
        rc = Result_Success \<and> idx = Some i \<and> i < 2 \<and> m = (if i = 0 then a else b)"
proof -
  obtain d1 where d1: "mem d1 = mem (dev s)" and r1: "read_meta_data_block s sl zero_md 0 =
      Some (case disk_md (mem (dev s)) (config s) (unat sl) 0 of
         None \<Rightarrow> (Result_Error_CorruptData, zero_md, s\<lparr>dev := d1\<rparr>) | Some x \<Rightarrow> (Result_Success, x, s\<lparr>dev := d1\<rparr>))"
    using read_md_ready [OF rdy sl, of 0 zero_md] by force
  have "fs_ready bd cap (s\<lparr>dev := d1\<rparr>)" "unat sl < slots_of (config (s\<lparr>dev := d1\<rparr>))" using rdy sl by simp_all
  from read_md_ready [OF this, of 1 zero_md]
  have "\<exists>d2. mem d2 = mem (dev s) \<and> read_meta_data_block (s\<lparr>dev := d1\<rparr>) sl zero_md 1 =
      Some (case disk_md (mem (dev s)) (config s) (unat sl) 1 of
         None \<Rightarrow> (Result_Error_CorruptData, zero_md, s\<lparr>dev := d2\<rparr>) | Some x \<Rightarrow> (Result_Success, x, s\<lparr>dev := d2\<rparr>))"
    by (simp add: d1 cong: option.case_cong)
  then obtain d2 where d2: "mem d2 = mem (dev s)" and r2: "read_meta_data_block (s\<lparr>dev := d1\<rparr>) sl zero_md 1 =
      Some (case disk_md (mem (dev s)) (config s) (unat sl) 1 of
         None \<Rightarrow> (Result_Error_CorruptData, zero_md, s\<lparr>dev := d2\<rparr>) | Some x \<Rightarrow> (Result_Success, x, s\<lparr>dev := d2\<rparr>))"
    by blast
  let ?A = "disk_md (mem (dev s)) (config s) (unat sl) 0" and ?B = "disk_md (mem (dev s)) (config s) (unat sl) 1"
  have run: "read_most_recent s sl =
      (case most_recent_meta_data_block (md_or_zero ?A) (?A \<noteq> None) (md_or_zero ?B) (?B \<noteq> None) of
         (rc, idx) \<Rightarrow> Some (rc, idx, md_or_zero ?A, md_or_zero ?B, s\<lparr>dev := d2\<rparr>))"
    by (simp add: read_most_recent_def r1 r2 md_or_zero_def split: option.split prod.split)
  obtain rc idx where mr: "most_recent_meta_data_block (md_or_zero ?A) (?A \<noteq> None) (md_or_zero ?B) (?B \<noteq> None) = (rc, idx)"
    by (cases "most_recent_meta_data_block (md_or_zero ?A) (?A \<noteq> None) (md_or_zero ?B) (?B \<noteq> None)")
  show thesis
  proof (rule that [OF d2])
    show "read_most_recent s sl = Some (rc, idx, md_or_zero ?A, md_or_zero ?B, s\<lparr>dev := d2\<rparr>)"
      unfolding run mr by simp
    show "committed (mem (dev s)) (config s) (unat sl) = None \<Longrightarrow> rc = Result_Error_CorruptData \<and> idx = None"
      using most_recent_committed(1) [of "mem (dev s)" "config s" "unat sl"] unfolding mr by simp
    show "\<And>i m. committed (mem (dev s)) (config s) (unat sl) = Some (i, m) \<Longrightarrow>
        rc = Result_Success \<and> idx = Some i \<and> i < 2 \<and> m = (if i = 0 then md_or_zero ?A else md_or_zero ?B)"
      using most_recent_committed(2) [of "mem (dev s)" "config s" "unat sl"] unfolding mr by simp
  qed
qed

end

section \<open>The flush\<close>

text \<open>
  One flush. The slot's current block is \<open>i\<close>; the flush writes the page (if it holds data) and
  then the other block. Nothing else on the device changes, whether or not the writes succeed.
\<close>

definition flushed :: "sfs_file \<Rightarrow> sfs_file" where
  "flushed f = f\<lparr>md := (md f)\<lparr>file_size := file_cursor f, revision := revision (md f) + 1\<rparr>\<rparr>"

lemma committed_cong:
  assumes "\<And>x. x < data_start c \<Longrightarrow> mm x = mm' x" "wf_config c" "i < slots_of c"
  shows "committed mm c i = committed mm' c i"
proof -
  have "disk_md mm c i k = disk_md mm' c i k" if "k \<le> 1" for k
    using meta_addr_end [OF assms(2,3) that] assms(1) by (intro disk_md_cong) simp
  then show ?thesis by (simp add: committed_def)
qed

lemma meta_addr_disjoint: "k \<noteq> k' \<Longrightarrow> x < meta_addr c i k + 512 \<Longrightarrow> meta_addr c i k \<le> x \<Longrightarrow>
    x < meta_addr c i k' \<or> meta_addr c i k' + 512 \<le> x"
  by (simp add: meta_addr_def) arith


definition flush_tail :: "'d slotfs \<Rightarrow> sfs_file \<Rightarrow> (result \<times> 'd slotfs \<times> sfs_file) option" where
  "flush_tail s f = do {
     (rc, idx, a, b, s) \<leftarrow> read_most_recent s (slot f);
     (case idx of None \<Rightarrow> Some (rc, s, f)
      | Some i \<Rightarrow> do {
          (_, s) \<leftarrow> write_meta_data_block s (slot f) (md f) (of_nat ((i + 1) mod 2));
          Some (Result_Success, s, f)
        })
   }"

lemma sfs_file_flush_tail:
  assumes "file_page f = Some p" "file_mode f = Mode_WriteCreate"
  shows "sfs_file_flush s f = do {
           (rc, s) \<leftarrow> (if page_offset p > 0 then write_page s f else Some (0, s));
           if rc \<noteq> 0 then Some (Result_Error_Write, s, f) else flush_tail s (flushed f)
         }"
  using assms unfolding sfs_file_flush_def flush_tail_def flushed_def page_size_def Let_def by simp

lemma slot_flushed [simp]: "slot (flushed f) = slot f" "md_start_address (md (flushed f)) = md_start_address (md f)"
  "max_address (md (flushed f)) = max_address (md f)" "file_cursor (flushed f) = file_cursor f"
  "file_page (flushed f) = file_page f" "file_mode (flushed f) = file_mode f"
  "file_size (md (flushed f)) = file_cursor f" "revision (md (flushed f)) = revision (md f) + 1"
  by (simp_all add: flushed_def)

lemma in_slot_flushed [simp]: "in_slot c (flushed f) = in_slot c f"
  by (simp add: in_slot_def)

context readable_device
begin

lemma flush_tail_effect:
  assumes rdy: "fs_ready bd cap s" and sl: "unat (slot f) < slots_of (config s)"
    and cm: "committed (mem (dev s)) (config s) (unat (slot f)) = Some (i, m)"
  defines "ma \<equiv> meta_addr (config s) (unat (slot f)) ((i + 1) mod 2)"
  obtains d' d1 where "flush_tail s f = Some (Result_Success, s\<lparr>dev := d'\<rparr>, f)"
    "fst (dev_write bd (of_nat ma) (md_image (md f)) d1) = 0 \<Longrightarrow> block_at (mem d') ma = md_image (md f)"
    "\<And>x. x < ma \<or> ma + 512 \<le> x \<Longrightarrow> mem d' x = mem (dev s) x"
proof -
  obtain d1 a b where d1: "mem d1 = mem (dev s)"
    and r: "read_most_recent s (slot f) = Some (Result_Success, Some i, a, b, s\<lparr>dev := d1\<rparr>)"
    using read_most_recent_ready [OF rdy sl] cm by metis
  let ?k = "of_nat ((i + 1) mod 2) :: u32"
  have k: "unat ?k = (i + 1) mod 2"
    by (cases "i mod 2 = 0") (simp_all add: unat_of_nat)
  obtain rc d' where w: "write_meta_data_block (s\<lparr>dev := d1\<rparr>) (slot f) (md f) ?k = Some (rc, s\<lparr>dev := d'\<rparr>)"
    and rc: "rc = (if fst (dev_write bd (of_nat ma) (md_image (md f)) d1) = 0 then Result_Success else Result_Error_Write)"
    and good: "rc = Result_Success \<Longrightarrow> block_at (mem d') ma = md_image (md f)"
    and frame: "\<And>x. x < ma \<or> ma + 512 \<le> x \<Longrightarrow> mem d' x = mem d1 x"
    by (rule write_md_effect [OF rdy sl k _ ma_def [THEN meta_eq_to_obj_eq], of d1 "md f"]) (simp, rule that)
  show thesis
  proof (rule that)
    show "flush_tail s f = Some (Result_Success, s\<lparr>dev := d'\<rparr>, f)"
      using w by (simp add: flush_tail_def r)
    show "block_at (mem d') ma = md_image (md f)"
      if "fst (dev_write bd (of_nat ma) (md_image (md f)) d1) = 0"
      using that rc by (intro good) simp
    show "mem d' x = mem (dev s) x" if "x < ma \<or> ma + 512 \<le> x" for x
      using frame [OF that] d1 by simp
  qed
qed

lemma flush_effect:
  assumes rdy: "fs_ready bd cap s" and f: "in_slot (config s) f" and p: "file_page f = Some p" "page_ok p"
    and mode: "file_mode f = Mode_WriteCreate"
    and cm: "committed (mem (dev s)) (config s) (unat (slot f)) = Some (i, m)"
  defines "pa \<equiv> slot_begin (config s) (unat (slot f)) + unat (file_cursor f) div 2048 * 2048"
    and "ma \<equiv> meta_addr (config s) (unat (slot f)) ((i + 1) mod 2)"
  obtains d' d1 rc where "sfs_file_flush s f = Some (rc, s\<lparr>dev := d'\<rparr>, if rc = Result_Success then flushed f else f)"
    "rc = (if page_offset p > 0 \<and> fst (dev_write bd (of_nat pa) (page_data p) (dev s)) \<noteq> 0
           then Result_Error_Write else Result_Success)"
    "\<And>j. rc = Result_Success \<Longrightarrow> page_offset p > 0 \<Longrightarrow> j < 2048 \<Longrightarrow> mem d' (pa + j) = page_data p ! j"
    "rc = Result_Success \<Longrightarrow> fst (dev_write bd (of_nat ma) (md_image (md (flushed f))) d1) = 0 \<Longrightarrow>
       block_at (mem d') ma = md_image (md (flushed f))"
    "\<And>x. \<not> (page_offset p > 0 \<and> pa \<le> x \<and> x < pa + 2048) \<Longrightarrow> x < ma \<or> ma + 512 \<le> x \<Longrightarrow> mem d' x = mem (dev s) x"
    "\<And>x. rc = Result_Error_Write \<Longrightarrow> x < data_start (config s) \<Longrightarrow> mem d' x = mem (dev s) x"
proof -
  note wf = fs_ready_wf [OF rdy]
  have sl: "unat (slot f) < slots_of (config s)" using f by (simp add: in_slot_def)
  have pa: "data_start (config s) \<le> pa" by (simp add: pa_def slot_begin_def)
  have mb: "ma + 512 \<le> data_start (config s)" unfolding ma_def by (rule meta_addr_end [OF wf sl]) simp
  obtain rc0 d0 where w: "(if page_offset p > 0 then write_page s f else Some (0, s)) = Some (rc0, s\<lparr>dev := d0\<rparr>)"
    and rc0: "rc0 = (if page_offset p > 0 then fst (dev_write bd (of_nat pa) (page_data p) (dev s)) else 0)"
    and good: "\<And>j. page_offset p > 0 \<Longrightarrow> rc0 = 0 \<Longrightarrow> j < 2048 \<Longrightarrow> mem d0 (pa + j) = page_data p ! j"
    and fr: "\<And>x. \<not> (page_offset p > 0 \<and> pa \<le> x \<and> x < pa + 2048) \<Longrightarrow> mem d0 x = mem (dev s) x"
  proof (cases "page_offset p > 0")
    case True
    obtain rc1 d1 where "write_page s f = Some (rc1, s\<lparr>dev := d1\<rparr>)"
      "rc1 = fst (dev_write bd (of_nat pa) (page_data p) (dev s))"
      "\<And>j. rc1 = 0 \<Longrightarrow> j < 2048 \<Longrightarrow> mem d1 (pa + j) = page_data p ! j"
      "\<And>x. x < pa \<or> pa + 2048 \<le> x \<Longrightarrow> mem d1 x = mem (dev s) x"
      using write_page_effect [OF rdy f p] unfolding pa_def by blast
    then show thesis by (intro that [of rc1 d1]) (use True in auto)
  next
    case False
    show thesis by (rule that [of 0 "dev s"]) (use False in simp_all)
  qed
  show thesis
  proof (cases "rc0 = 0")
    case False
    show thesis
      by (rule that [of Result_Error_Write d0 d0])
        (use False w rc0 fr pa in \<open>auto simp: sfs_file_flush_tail [OF p(1) mode] split: if_splits\<close>)
  next
    case True
    have "committed (mem d0) (config s) (unat (slot f)) = committed (mem (dev s)) (config s) (unat (slot f))"
      by (rule committed_cong [OF _ wf sl]) (use fr pa in auto)
    then obtain d' d1 where t: "flush_tail (s\<lparr>dev := d0\<rparr>) (flushed f) = Some (Result_Success, s\<lparr>dev := d'\<rparr>, flushed f)"
      and img: "fst (dev_write bd (of_nat ma) (md_image (md (flushed f))) d1) = 0 \<Longrightarrow> block_at (mem d') ma = md_image (md (flushed f))"
      and fr': "\<And>x. x < ma \<or> ma + 512 \<le> x \<Longrightarrow> mem d' x = mem d0 x"
      using flush_tail_effect [of "s\<lparr>dev := d0\<rparr>" "flushed f" i m] rdy sl cm unfolding ma_def by auto
    show thesis
    proof (rule that [of Result_Success d' d1])
      show "mem d' (pa + j) = page_data p ! j" if "page_offset p > 0" "j < 2048" for j
        using good [OF that(1) True that(2)] fr' [of "pa + j"] mb pa by simp
    qed (use True w t img fr fr' rc0 in \<open>auto simp: sfs_file_flush_tail [OF p(1) mode] split: if_splits\<close>)
  qed
qed

end

end
