(* ===== verification/SlotFS_Write.thy ===== *)
theory SlotFS_Write
  imports SlotFS_Meta
begin

text \<open>
  A write session: the abstract state of an open file is the list of bytes written so far.
  The invariant ties it to the cursor, the page buffer, the blocks on the device and the
  current metadata block; every operation of the session keeps it.
\<close>

unbundle bit_operations_syntax

section \<open>The invariant of a write session\<close>

definition holds_at :: "(nat \<Rightarrow> byte) \<Rightarrow> nat \<Rightarrow> byte list \<Rightarrow> bool" where
  "holds_at mm a xs \<longleftrightarrow> (\<forall>i < length xs. mm (a + i) = xs ! i)"

abbreviation full_pages :: "byte list \<Rightarrow> nat" where "full_pages L \<equiv> length L div 2048"

definition writing :: "('d \<Rightarrow> nat \<Rightarrow> byte) \<Rightarrow> 'd device \<Rightarrow> nat \<Rightarrow> 'd slotfs \<Rightarrow> sfs_file \<Rightarrow> byte list \<Rightarrow> bool" where
  "writing mem bd cap s f L \<longleftrightarrow> fs_ready bd cap s \<and> 2048 dvd slot_bytes (config s)
     \<and> in_slot (config s) f \<and> file_mode f = Mode_WriteCreate
     \<and> length L \<le> slot_bytes (config s) \<and> file_cursor f = of_nat (length L)
     \<and> (\<exists>p. file_page f = Some p \<and> page_ok p \<and> page_offset p = length L mod 2048
            \<and> take (page_offset p) (page_data p) = drop (full_pages L * 2048) L)
     \<and> holds_at (mem (dev s)) (slot_begin (config s) (unat (slot f))) (take (full_pages L * 2048) L)
     \<and> (\<exists>i m. committed (mem (dev s)) (config s) (unat (slot f)) = Some (i, m) \<and> revision m = revision (md f))"

text \<open>What a session on slot \<open>i\<close> may change on the device: the slot's data and its two metadata blocks.\<close>

definition slot_area :: "config \<Rightarrow> nat \<Rightarrow> nat \<Rightarrow> bool" where
  "slot_area c i x \<longleftrightarrow> (slot_begin c i \<le> x \<and> x < slot_begin c i + slot_bytes c)
     \<or> (meta_addr c i 0 \<le> x \<and> x < meta_addr c i 0 + 1024)"

definition outside_unchanged :: "config \<Rightarrow> nat \<Rightarrow> (nat \<Rightarrow> byte) \<Rightarrow> (nat \<Rightarrow> byte) \<Rightarrow> bool" where
  "outside_unchanged c i mm mm' \<longleftrightarrow> (\<forall>x. \<not> slot_area c i x \<longrightarrow> mm' x = mm x)"

lemma outside_unchanged_refl [simp]: "outside_unchanged c i mm mm"
  by (simp add: outside_unchanged_def)

lemma outside_unchanged_trans:
  "outside_unchanged c i mm mm' \<Longrightarrow> outside_unchanged c i mm' mm'' \<Longrightarrow> outside_unchanged c i mm mm''"
  by (simp add: outside_unchanged_def)

lemma slot_area_meta: "k \<le> 1 \<Longrightarrow> meta_addr c i k \<le> x \<Longrightarrow> x < meta_addr c i k + 512 \<Longrightarrow> slot_area c i x"
  by (auto simp: slot_area_def meta_addr_def)

lemma slot_area_other:
  assumes wf: "wf_config c" and ij: "i < slots_of c" "j < slots_of c" "i \<noteq> j" and x: "slot_area c i x"
  shows "\<not> slot_area c j x"
proof -
  have "a * slot_bytes c + slot_bytes c \<le> b * slot_bytes c" if "a < b" for a b
    using mult_le_mono1 [of "Suc a" b "slot_bytes c"] that by simp
  from this [of i j] this [of j i] ij(3)
  have data: "slot_begin c i + slot_bytes c \<le> slot_begin c j \<or> slot_begin c j + slot_bytes c \<le> slot_begin c i"
    by (cases "i < j") (simp_all add: slot_begin_def mult.commute)
  have meta: "meta_addr c k 0 + 1024 \<le> data_start c" if "k < slots_of c" for k
    using that by (simp add: meta_addr_def data_start_def)
  have sep: "meta_addr c i 0 + 1024 \<le> meta_addr c j 0 \<or> meta_addr c j 0 + 1024 \<le> meta_addr c i 0"
    using ij(3) by (auto simp: meta_addr_def)
  have "data_start c \<le> slot_begin c i" "data_start c \<le> slot_begin c j" by (simp_all add: slot_begin_def)
  then show ?thesis
    using x data sep meta [OF ij(1)] meta [OF ij(2)] unfolding slot_area_def by linarith
qed

lemma committed_other:
  assumes wf: "wf_config c" and ij: "i < slots_of c" "j < slots_of c" "i \<noteq> j"
    and o: "outside_unchanged c i mm mm'"
  shows "committed mm' c j = committed mm c j"
proof -
  have "disk_md mm' c j k = disk_md mm c j k" if "k \<le> 1" for k
  proof (rule disk_md_cong)
    fix x assume "meta_addr c j k \<le> x" "x < meta_addr c j k + 512"
    with that have "slot_area c j x" by (intro slot_area_meta)
    then have "\<not> slot_area c i x" using slot_area_other [OF wf ij] by blast
    then show "mm' x = mm x" using o by (simp add: outside_unchanged_def)
  qed
  then show ?thesis by (simp add: committed_def)
qed

section \<open>The newer of two consecutive revisions\<close>

lemma newer_idx_succ [simp]: "newer_idx r (r + 1) = 1" "newer_idx (r + 1) r = 0"
proof -
  have u: "uint (r + 1) = (if uint r = 255 then 0 else uint r + 1)"
    using uint_plus_if_size [of r 1] unsigned_less [of r, where 'a = int] unsigned_greater_eq [of r, where 'a = int]
    by (auto simp: word_size uint_word_ariths)
  show "newer_idx r (r + 1) = 1" "newer_idx (r + 1) r = 0"
    using unsigned_greater_eq [of r, where 'a = int]
    by (auto simp: newer_idx_def word_less_def u)
qed

lemma committed_Some_disk: "committed mm c i = Some (k, m) \<Longrightarrow> disk_md mm c i k = Some m \<and> k < 2"
  by (auto simp: committed_def split: option.splits if_splits)

text \<open>Writing the other block with the next revision makes it the current one.\<close>

lemma committed_flip:
  assumes cm: "committed mm c i = Some (k, m)" and r: "revision m' = revision m + 1"
    and new: "disk_md mm' c i ((k + 1) mod 2) = Some m'" and old: "disk_md mm' c i k = disk_md mm c i k"
  shows "committed mm' c i = Some ((k + 1) mod 2, m')"
proof -
  have k: "k = 0 \<or> k = 1" and d: "disk_md mm c i k = Some m"
    using committed_Some_disk [OF cm] by auto
  from k show ?thesis
    using new old d r by (auto simp: committed_def)
qed

text \<open>If the other block has a wrong checksum, the current one stays.\<close>

lemma committed_torn:
  assumes cm: "committed mm c i = Some (k, m)"
    and torn: "disk_md mm' c i ((k + 1) mod 2) = None" and old: "disk_md mm' c i k = disk_md mm c i k"
  shows "committed mm' c i = Some (k, m)"
proof -
  have k: "k = 0 \<or> k = 1" and d: "disk_md mm c i k = Some m"
    using committed_Some_disk [OF cm] by auto
  from k show ?thesis
    using torn old d by (auto simp: committed_def)
qed

lemma disk_md_frame:
  assumes "\<And>x. x < meta_addr c i ((k + 1) mod 2) \<or> meta_addr c i ((k + 1) mod 2) + 512 \<le> x \<Longrightarrow> x < data_start c \<Longrightarrow> mm' x = mm x"
    and "wf_config c" "i < slots_of c" "k < 2"
  shows "disk_md mm' c i k = disk_md mm c i k"
proof (rule disk_md_cong)
  fix x assume x: "meta_addr c i k \<le> x" "x < meta_addr c i k + 512"
  have "k \<noteq> (k + 1) mod 2" using \<open>k < 2\<close> by arith
  from meta_addr_disjoint [OF this x(2,1)] meta_addr_end [OF assms(2,3), of k] x \<open>k < 2\<close>
  show "mm' x = mm x" by (intro assms(1)) auto
qed

section \<open>A page of the slot\<close>

lemma page_in_slot:
  assumes wf: "wf_config c" and i: "i < slots_of c" and al: "2048 dvd slot_bytes c" and k: "k < slot_bytes c"
  shows "slot_begin c i + k div 2048 * 2048 + 2048 \<le> slot_begin c i + slot_bytes c"
    and "slot_begin c i + k div 2048 * 2048 + 2048 \<le> unat (end_address c)"
    and "512 dvd slot_begin c i + k div 2048 * 2048"
proof -
  obtain n where n: "slot_bytes c = 2048 * n" using al by (rule dvdE)
  then have "k div 2048 < n" using k by (simp add: div_less_iff_less_mult mult.commute)
  then show 1: "slot_begin c i + k div 2048 * 2048 + 2048 \<le> slot_begin c i + slot_bytes c"
    unfolding n by linarith
  show "slot_begin c i + k div 2048 * 2048 + 2048 \<le> unat (end_address c)"
    using 1 slot_end [OF wf i] by linarith
  show "512 dvd slot_begin c i + k div 2048 * 2048"
    by (intro dvd_add slot_begin_aligned wf) simp
qed

lemma slot_area_data: "slot_begin c i \<le> x \<Longrightarrow> x < slot_begin c i + slot_bytes c \<Longrightarrow> slot_area c i x"
  by (simp add: slot_area_def)

lemma meta_not_data: "wf_config c \<Longrightarrow> i < slots_of c \<Longrightarrow> k \<le> 1 \<Longrightarrow> data_start c \<le> x \<Longrightarrow>
    x < meta_addr c i k \<or> meta_addr c i k + 512 \<le> x"
  using meta_addr_end [of c i k] by linarith

context reliable_device
begin

lemma write_block_ok:
  "512 dvd a \<Longrightarrow> 512 dvd length bs \<Longrightarrow> a + length bs \<le> cap \<Longrightarrow> a < 2 ^ 64 \<Longrightarrow> fst (dev_write bd (of_nat a) bs d) = 0"
  by (rule write_succeeds) (simp_all add: unat_of_nat_u64)

lemma flush_reliable:
  assumes rdy: "fs_ready bd cap s" and f: "in_slot (config s) f" and p: "file_page f = Some p" "page_ok p"
    and mode: "file_mode f = Mode_WriteCreate" and al: "2048 dvd slot_bytes (config s)"
    and cur: "page_offset p > 0 \<Longrightarrow> unat (file_cursor f) < slot_bytes (config s)"
    and cm: "committed (mem (dev s)) (config s) (unat (slot f)) = Some (i, m)" "revision m = revision (md f)"
  defines "pa \<equiv> slot_begin (config s) (unat (slot f)) + unat (file_cursor f) div 2048 * 2048"
  obtains d' where "sfs_file_flush s f = Some (Result_Success, s\<lparr>dev := d'\<rparr>, flushed f)"
    "page_offset p > 0 \<Longrightarrow> holds_at (mem d') pa (page_data p)"
    "committed (mem d') (config s) (unat (slot f)) = Some ((i + 1) mod 2, md (flushed f))"
    "\<And>x. \<not> (page_offset p > 0 \<and> pa \<le> x \<and> x < pa + 2048) \<Longrightarrow> data_start (config s) \<le> x \<Longrightarrow> mem d' x = mem (dev s) x"
    "outside_unchanged (config s) (unat (slot f)) (mem (dev s)) (mem d')"
proof -
  note wf = fs_ready_wf [OF rdy]
  have sl: "unat (slot f) < slots_of (config s)" using f by (simp add: in_slot_def)
  have E: "unat (end_address (config s)) \<le> cap" using rdy by (simp add: fs_ready_def)
  have E64: "unat (end_address (config s)) < 2 ^ 64" using unat_u64_less [of "end_address (config s)"] by simp
  have low: "a + n \<le> unat (end_address (config s)) \<Longrightarrow> a < 2 ^ 64" for a n using E64 by linarith
  define ma where "ma = meta_addr (config s) (unat (slot f)) ((i + 1) mod 2)"
  have mb: "ma + 512 \<le> data_start (config s)" unfolding ma_def by (rule meta_addr_end [OF wf sl]) simp
  have de: "data_start (config s) \<le> unat (end_address (config s))" using wf by (simp add: wf_config_def)
  have page: "fst (dev_write bd (of_nat pa) (page_data p) d) = 0" if "page_offset p > 0" for d
    using page_in_slot [OF wf sl al cur [OF that]] p E low [of pa 2048]
    by (intro write_block_ok) (simp_all add: pa_def page_ok_def)
  have meta: "fst (dev_write bd (of_nat ma) (md_image (md (flushed f))) d) = 0" for d
    using mb de E low [of ma 512] by (intro write_block_ok) (simp_all add: ma_def meta_addr_aligned wf)
  obtain d' d1 rc where run: "sfs_file_flush s f = Some (rc, s\<lparr>dev := d'\<rparr>, if rc = Result_Success then flushed f else f)"
    and rc: "rc = (if page_offset p > 0 \<and> fst (dev_write bd (of_nat pa) (page_data p) (dev s)) \<noteq> 0
           then Result_Error_Write else Result_Success)"
    and data: "\<And>j. rc = Result_Success \<Longrightarrow> page_offset p > 0 \<Longrightarrow> j < 2048 \<Longrightarrow> mem d' (pa + j) = page_data p ! j"
    and img: "rc = Result_Success \<Longrightarrow> fst (dev_write bd (of_nat ma) (md_image (md (flushed f))) d1) = 0 \<Longrightarrow>
       block_at (mem d') ma = md_image (md (flushed f))"
    and fr: "\<And>x. \<not> (page_offset p > 0 \<and> pa \<le> x \<and> x < pa + 2048) \<Longrightarrow> x < ma \<or> ma + 512 \<le> x \<Longrightarrow> mem d' x = mem (dev s) x"
    by (rule flush_effect [OF rdy f p mode cm(1), folded pa_def ma_def]) (rule that)
  have ok: "rc = Result_Success" using rc page by auto
  have k: "i < 2" using committed_Some_disk [OF cm(1)] by simp
  have old: "disk_md (mem d') (config s) (unat (slot f)) i = disk_md (mem (dev s)) (config s) (unat (slot f)) i"
    by (rule disk_md_frame [OF _ wf sl k]) (rule fr; simp add: ma_def pa_def slot_begin_def)
  have new: "disk_md (mem d') (config s) (unat (slot f)) ((i + 1) mod 2) = Some (md (flushed f))"
    using img [OF ok meta] unfolding ma_def by (rule disk_md_image)
  have sa: "slot_area (config s) (unat (slot f)) x" if "\<not> (x < ma \<or> ma + 512 \<le> x)" for x
    using that unfolding ma_def by (intro slot_area_meta [of "(i + 1) mod 2"]) auto
  have sp: "slot_area (config s) (unat (slot f)) x" if "page_offset p > 0" "pa \<le> x" "x < pa + 2048" for x
    using that page_in_slot(1) [OF wf sl al cur [OF that(1)]] by (intro slot_area_data) (auto simp: pa_def)
  show thesis
  proof (rule that)
    show "sfs_file_flush s f = Some (Result_Success, s\<lparr>dev := d'\<rparr>, flushed f)" using run ok by simp
    show "holds_at (mem d') pa (page_data p)" if "page_offset p > 0"
      using data [OF ok that] p by (simp add: holds_at_def page_ok_def)
    show "committed (mem d') (config s) (unat (slot f)) = Some ((i + 1) mod 2, md (flushed f))"
      by (rule committed_flip [OF cm(1) _ new old]) (simp add: cm(2))
    show "mem d' x = mem (dev s) x"
      if "\<not> (page_offset p > 0 \<and> pa \<le> x \<and> x < pa + 2048)" "data_start (config s) \<le> x" for x
      using that mb by (intro fr) auto
    show "outside_unchanged (config s) (unat (slot f)) (mem (dev s)) (mem d')"
      unfolding outside_unchanged_def using fr sa sp by blast
  qed
qed

end

section \<open>One iteration of the write loop\<close>

lemma div_page: "b < 2048 \<Longrightarrow> a = q * 2048 + b \<Longrightarrow> a div 2048 = (q :: nat)"
  by simp

lemma full_pages_small: "length L mod 2048 + k < 2048 \<Longrightarrow> (length L + k) div 2048 = full_pages L"
  by (erule div_page) (use div_mult_mod_eq [of "length L" 2048] in linarith)

lemma next_page: "r < 2048 \<Longrightarrow> a = q * 2048 + r \<Longrightarrow> (a + (2048 - r)) div 2048 = (q :: nat) + 1"
  by simp

lemma full_pages_page: "(length L + (2048 - length L mod 2048)) div 2048 = full_pages L + 1"
  by (rule next_page) simp_all

lemma page_fill:
  assumes "length pd = 2048" "pre = drop (full_pages L * 2048) L" "take (length L mod 2048) pd = pre" "n \<le> 2048 - length L mod 2048"
    "n \<le> length rest"
  shows "take (length L mod 2048 + n) (overwrite (length L mod 2048) (take n rest) pd)
    = drop (full_pages L * 2048) (L @ take n rest)"
proof -
  have "full_pages L * 2048 \<le> length L" by simp
  moreover have "length (take n rest) = n" using assms(5) by simp
  ultimately show ?thesis
    using assms take_overwrite_end [of "length L mod 2048" pd "take n rest"] by simp
qed

lemma holds_at_append: "holds_at mm a (xs @ ys) \<longleftrightarrow> holds_at mm a xs \<and> holds_at mm (a + length xs) ys"
proof
  assume h: "holds_at mm a (xs @ ys)"
  then have "mm (a + i) = xs ! i" if "i < length xs" for i
    using that by (auto simp: holds_at_def nth_append)
  moreover have "mm (a + length xs + i) = ys ! i" if "i < length ys" for i
    using h that by (force simp: holds_at_def nth_append add.assoc dest: spec [of _ "length xs + i"])
  ultimately show "holds_at mm a xs \<and> holds_at mm (a + length xs) ys" by (simp add: holds_at_def)
next
  assume h: "holds_at mm a xs \<and> holds_at mm (a + length xs) ys"
  have "mm (a + i) = (xs @ ys) ! i" if "i < length xs + length ys" for i
  proof (cases "i < length xs")
    case True
    then show ?thesis using h by (simp add: holds_at_def nth_append)
  next
    case False
    then obtain j where "i = length xs + j" by (metis le_add_diff_inverse not_less)
    then show ?thesis using h that by (simp add: holds_at_def add.assoc)
  qed
  then show "holds_at mm a (xs @ ys)" by (simp add: holds_at_def)
qed

lemma holds_at_cong: "(\<And>x. a \<le> x \<Longrightarrow> x < a + length xs \<Longrightarrow> mm' x = mm x) \<Longrightarrow> holds_at mm' a xs = holds_at mm a xs"
  by (simp add: holds_at_def)

text \<open>The space left in the file, which the code computes on words.\<close>

lemma remaining_space:
  assumes wf: "wf_config c" and f: "in_slot c f"
  shows "unat ((max_address (md f) - md_start_address (md f)) - file_cursor f) = slot_bytes c - unat (file_cursor f)"
proof -
  let ?b = "slot_begin c (unat (slot f))"
  have "max_address (md f) - md_start_address (md f) = of_nat (slot_bytes c)"
    using f by (simp add: in_slot_def)
  then have "max_address (md f) - md_start_address (md f) - file_cursor f = of_nat (slot_bytes c - unat (file_cursor f))"
    by (rule word_eq_of_nat_diff) (use f in \<open>simp_all add: in_slot_def\<close>)
  moreover have "slot_bytes c < 2 ^ 64"
    using slot_end [OF wf, of "unat (slot f)"] f unat_u64_less [of "end_address c"]
    by (simp add: in_slot_def del: unat_u64_less)
  then have "slot_bytes c - unat (file_cursor f) < 2 ^ 64" by (rule le_less_trans [OF diff_le_self])
  ultimately show ?thesis by (simp only: unat_of_nat_u64)
qed

lemma writingD:
  assumes "writing mem bd cap s f L"
  shows "fs_ready bd cap s" "wf_config (config s)" "2048 dvd slot_bytes (config s)" "in_slot (config s) f"
    "unat (slot f) < slots_of (config s)" "file_mode f = Mode_WriteCreate"
    "length L \<le> slot_bytes (config s)" "file_cursor f = of_nat (length L)" "unat (file_cursor f) = length L"
proof -
  show 1: "fs_ready bd cap s" "2048 dvd slot_bytes (config s)" "in_slot (config s) f" "file_mode f = Mode_WriteCreate"
    and 2: "length L \<le> slot_bytes (config s)" "file_cursor f = of_nat (length L)"
    using assms by (simp_all add: writing_def)
  show wf: "wf_config (config s)" using 1 by (simp add: fs_ready_def)
  show sl: "unat (slot f) < slots_of (config s)" using 1 by (simp add: in_slot_def)
  have "slot_bytes (config s) < 2 ^ 64"
    using slot_end [OF wf sl] unat_u64_less [of "end_address (config s)"] by (simp del: unat_u64_less)
  with 2 show "unat (file_cursor f) = length L" by (simp add: unat_of_nat_u64 del: unat_u64_less)
qed

lemma write_space:
  assumes "writing mem bd cap s f L"
  shows "unat ((max_address (md f) - md_start_address (md f)) - file_cursor f) = slot_bytes (config s) - length L"
  using writingD [OF assms] remaining_space [of "config s" f] by simp

lemma writing_page:
  assumes "writing mem bd cap s f L"
  obtains p where "file_page f = Some p" "page_ok p" "page_offset p = length L mod 2048"
    "take (page_offset p) (page_data p) = drop (full_pages L * 2048) L"
  using assms by (auto simp: writing_def)

lemma writing_disk:
  assumes "writing mem bd cap s f L"
  obtains i m where "committed (mem (dev s)) (config s) (unat (slot f)) = Some (i, m)" "revision m = revision (md f)"
    "holds_at (mem (dev s)) (slot_begin (config s) (unat (slot f))) (take (full_pages L * 2048) L)"
  using assms by (auto simp: writing_def)

context reliable_device
begin

lemma write_step_fill:
  assumes inv: "writing mem bd cap s f L" and rest: "rest \<noteq> []" "length L + length rest \<le> slot_bytes (config s)"
    and small: "length L mod 2048 + length rest < 2048"
  obtains f' where "write_step s f rest = Some (None, s, f', length rest)" "writing mem bd cap s f' (L @ rest)"
    "slot f' = slot f" "revision (md f') = revision (md f)"
proof -
  note W = writingD [OF inv]
  obtain p where p: "file_page f = Some p" "page_ok p" "page_offset p = length L mod 2048"
    "take (page_offset p) (page_data p) = drop (full_pages L * 2048) L" using writing_page [OF inv] .
  obtain i m where d: "committed (mem (dev s)) (config s) (unat (slot f)) = Some (i, m)" "revision m = revision (md f)"
    "holds_at (mem (dev s)) (slot_begin (config s) (unat (slot f))) (take (full_pages L * 2048) L)"
    using writing_disk [OF inv] .
  define p' where "p' = p\<lparr>page_data := overwrite (page_offset p) rest (page_data p), page_offset := page_offset p + length rest\<rparr>"
  let ?f' = "f\<lparr>file_cursor := file_cursor f + of_nat (length rest), file_page := Some p'\<rparr>"
  have n: "min (length rest) (page_available p) = length rest"
    using small p by (simp add: page_available_def page_ok_def)
  have pages: "full_pages (L @ rest) = full_pages L" "(length L + length rest) mod 2048 = length L mod 2048 + length rest"
  proof -
    have L: "length L = full_pages L * 2048 + length L mod 2048" by simp
    show "full_pages (L @ rest) = full_pages L"
      unfolding length_append by (subst L) (use small in \<open>simp only: add.assoc div_mult_self3 div_less; simp\<close>)
    show "(length L + length rest) mod 2048 = length L mod 2048 + length rest"
      by (subst L) (use small in \<open>simp only: add.assoc mod_mult_self3 mod_less; simp\<close>)
  qed
  have run: "write_step s f rest = Some (None, s, ?f', length rest)"
    using rest p small n write_space [OF inv] unfolding write_step_def Let_def
    by (simp add: page_available_def p'_def page_ok_def)
  have fill: "take (length L mod 2048 + length rest) (overwrite (length L mod 2048) rest (page_data p)) = drop (full_pages L * 2048) (L @ rest)"
    using page_fill [of "page_data p" _ L "length rest" rest] p small by (simp add: page_ok_def)
  have tk: "take (full_pages L * 2048) (L @ rest) = take (full_pages L * 2048) L" by simp
  have "writing mem bd cap s ?f' (L @ rest)"
    unfolding writing_def
  proof (intro conjI)
    show "in_slot (config s) ?f'"
      using W rest unat_of_nat_u64 [of "length L + length rest"] unat_u64_less [of "max_address (md f)"] slot_end [OF W(2,5)] unat_u64_less [of "end_address (config s)"]
      by (simp add: in_slot_def del: unat_u64_less)
    show "\<exists>p. file_page ?f' = Some p \<and> page_ok p \<and> page_offset p = length (L @ rest) mod 2048 \<and>
        take (page_offset p) (page_data p) = drop (full_pages (L @ rest) * 2048) (L @ rest)"
      unfolding pages(1) using p small fill pages(2) by (simp add: p'_def page_ok_def)
    show "holds_at (mem (dev s)) (slot_begin (config s) (unat (slot ?f'))) (take (full_pages (L @ rest) * 2048) (L @ rest))"
      unfolding pages(1) tk using d(3) by simp
  qed (use W rest d in \<open>simp_all\<close>)
  then show thesis by (intro that [OF run]) simp_all
qed

text \<open>The page fills up: it is written, and the metadata with the size before this step.\<close>

lemma write_step_page:
  assumes inv: "writing mem bd cap s f L" and fits: "length L + length rest \<le> slot_bytes (config s)"
    and n: "n = 2048 - length L mod 2048" and big: "n \<le> length rest"
  obtains d' f' where "write_step s f rest = Some (None, s\<lparr>dev := d'\<rparr>, f', n)"
    "writing mem bd cap (s\<lparr>dev := d'\<rparr>) f' (L @ take n rest)" "slot f' = slot f" "revision (md f') = revision (md f) + 1"
    "outside_unchanged (config s) (unat (slot f)) (mem (dev s)) (mem d')"
proof -
  note W = writingD [OF inv]
  let ?c = "config s" and ?i = "unat (slot f)"
  obtain p where p: "file_page f = Some p" "page_ok p" "page_offset p = length L mod 2048"
    "take (page_offset p) (page_data p) = drop (full_pages L * 2048) L" using writing_page [OF inv] .
  obtain i m where d: "committed (mem (dev s)) ?c ?i = Some (i, m)" "revision m = revision (md f)"
    "holds_at (mem (dev s)) (slot_begin ?c ?i) (take (full_pages L * 2048) L)"
    using writing_disk [OF inv] .
  have n0: "0 < n" and o: "length L mod 2048 + n = 2048" using n by simp_all
  have lt: "length L < slot_bytes ?c" using fits big n0 by linarith
  define p' where "p' = p\<lparr>page_data := overwrite (page_offset p) (take n rest) (page_data p), page_offset := 2048\<rparr>"
  have p': "page_ok p'" using p big o by (simp add: p'_def page_ok_def)
  define pa where "pa = slot_begin ?c ?i + full_pages L * 2048"
  let ?fw = "f\<lparr>file_page := Some p'\<rparr>" and ?ff = "f\<lparr>file_page := Some (page_clear p')\<rparr>"
  have fw: "in_slot ?c ?fw" "file_page ?fw = Some p'" "in_slot ?c ?ff" using W by (simp_all add: in_slot_def)
  have pin: "slot_begin ?c ?i + full_pages L * 2048 + 2048 \<le> slot_begin ?c ?i + slot_bytes ?c" "pa + 2048 \<le> unat (end_address ?c)" "512 dvd pa"
    unfolding pa_def by (rule page_in_slot [OF W(2,5,3) lt])+
  have ok: "fst (dev_write bd (of_nat pa) (page_data p') dd) = 0" for dd
    using pin p' W(1) unat_u64_less [of "end_address ?c"]
    by (intro write_block_ok) (simp_all add: page_ok_def fs_ready_def del: unat_u64_less)
  obtain rc1 d1 where w: "write_page s ?fw = Some (rc1, s\<lparr>dev := d1\<rparr>)" "rc1 = 0"
    and data: "\<And>j. j < 2048 \<Longrightarrow> mem d1 (pa + j) = page_data p' ! j"
    and fr1: "\<And>x. x < pa \<or> pa + 2048 \<le> x \<Longrightarrow> mem d1 x = mem (dev s) x"
    using write_page_effect [OF W(1) fw(1,2) p'] ok W(9) unfolding pa_def by (simp del: of_nat_add of_nat_mult) metis
  have cm1: "committed (mem d1) ?c ?i = Some (i, m)"
    unfolding d(1) [symmetric]
    by (rule committed_cong [OF _ W(2,5)]) (rule fr1, simp add: pa_def slot_begin_def)
  obtain d2 where fl: "sfs_file_flush (s\<lparr>dev := d1\<rparr>) ?ff = Some (Result_Success, s\<lparr>dev := d2\<rparr>, flushed ?ff)"
    and cm2: "committed (mem d2) ?c ?i = Some ((i + 1) mod 2, md (flushed ?ff))"
    and fr2: "\<And>x. data_start ?c \<le> x \<Longrightarrow> mem d2 x = mem d1 x"
    and out2: "outside_unchanged ?c ?i (mem d1) (mem d2)"
    using flush_reliable [of "s\<lparr>dev := d1\<rparr>" ?ff "page_clear p'" i m] W fw p' cm1 d(2)
    by (auto simp: page_clear_def page_ok_def)
  define f' where "f' = (flushed ?ff)\<lparr>file_cursor := file_cursor f + of_nat n\<rparr>"
  have mn: "min (length rest) (page_available p) = n" using p big o by (simp add: page_available_def page_ok_def)
  have off: "page_offset p + n = 2048" using p o by simp
  have run: "write_step s f rest = Some (None, s\<lparr>dev := d2\<rparr>, f', n)"
  proof -
    have sp: "\<not> unat (max_address (md f) - md_start_address (md f) - file_cursor f) < length rest"
      using fits write_space [OF inv] by simp
    have av: "page_available p' = 0" using p by (simp add: page_available_def p'_def page_ok_def)
    show ?thesis
      unfolding write_step_def Let_def if_not_P [OF sp] p(1) Option.bind.bind_lunit mn off p'_def [symmetric] if_P [OF av]
      using w fl by (simp add: f'_def)
  qed
  let ?L = "L @ take n rest"
  have "length ?L = length L + n" using big by simp
  then have len: "length ?L = full_pages L * 2048 + 2048"
    using o div_mult_mod_eq [of "length L" 2048] by linarith
  have pages: "full_pages ?L = full_pages L + 1" "length ?L mod 2048 = 0"
    unfolding len by simp_all
  have whole: "take (full_pages ?L * 2048) ?L = ?L" unfolding pages by (rule take_all) (unfold len, simp)
  have "page_data p' = drop (full_pages L * 2048) ?L"
    using page_fill [of "page_data p" _ L n rest] p p' big n unfolding o by (simp add: p'_def page_ok_def)
  then have split: "?L = take (full_pages L * 2048) L @ page_data p'"
    using append_take_drop_id [of "full_pages L * 2048" ?L] by simp
  have hold: "holds_at (mem d2) (slot_begin ?c ?i) ?L"
    unfolding split holds_at_append
  proof
    show "holds_at (mem d2) (slot_begin ?c ?i) (take (full_pages L * 2048) L)"
      using d(3) by (subst holds_at_cong) (auto simp: fr2 fr1 slot_begin_def pa_def)
    have "length (take (full_pages L * 2048) L) = full_pages L * 2048" by (simp add: min_absorb2)
    then show "holds_at (mem d2) (slot_begin ?c ?i + length (take (full_pages L * 2048) L)) (page_data p')"
      using data p' by (simp add: holds_at_def fr2 pa_def slot_begin_def page_ok_def)
  qed
  have "writing mem bd cap (s\<lparr>dev := d2\<rparr>) f' ?L"
    unfolding writing_def
  proof (intro conjI)
    show "in_slot (config (s\<lparr>dev := d2\<rparr>)) f'"
      using W fits big slot_end [OF W(2,5)] unat_u64_less [of "end_address ?c"] unat_of_nat_u64 [of "length L + n"]
      by (simp add: in_slot_def f'_def del: unat_u64_less)
    show "\<exists>p. file_page f' = Some p \<and> page_ok p \<and> page_offset p = length ?L mod 2048 \<and>
        take (page_offset p) (page_data p) = drop (full_pages ?L * 2048) ?L"
      unfolding pages using p' len by (simp add: f'_def page_clear_def page_ok_def)
    show "holds_at (mem (dev (s\<lparr>dev := d2\<rparr>))) (slot_begin (config (s\<lparr>dev := d2\<rparr>)) (unat (slot f'))) (take (full_pages ?L * 2048) ?L)"
      unfolding whole using hold by (simp add: f'_def)
  qed (use W fits big cm2 in \<open>simp_all add: f'_def\<close>)
  moreover have "outside_unchanged ?c ?i (mem (dev s)) (mem d1)"
    unfolding outside_unchanged_def
  proof (intro allI impI)
    fix x assume "\<not> slot_area ?c ?i x"
    then have "\<not> (pa \<le> x \<and> x < pa + 2048)" using pin(1) slot_area_data [of ?c ?i x] unfolding pa_def by linarith
    then show "mem d1 x = mem (dev s) x" by (intro fr1) linarith
  qed
  ultimately show thesis
    by (intro that [OF run]) (auto simp: f'_def intro: outside_unchanged_trans [OF _ out2])
qed

lemma write_step_ok:
  assumes inv: "writing mem bd cap s f L" and rest: "rest \<noteq> []" "length L + length rest \<le> slot_bytes (config s)"
  obtains n d' f' where "0 < n" "n \<le> length rest" "write_step s f rest = Some (None, s\<lparr>dev := d'\<rparr>, f', n)"
    "writing mem bd cap (s\<lparr>dev := d'\<rparr>) f' (L @ take n rest)" "slot f' = slot f"
    "revision (md f') = revision (md f) + of_nat ((length L + n) div 2048 - full_pages L)"
    "outside_unchanged (config s) (unat (slot f)) (mem (dev s)) (mem d')"
proof (cases "length L mod 2048 + length rest < 2048")
  case True
  obtain f' where "write_step s f rest = Some (None, s, f', length rest)" "writing mem bd cap s f' (L @ rest)"
    "slot f' = slot f" "revision (md f') = revision (md f)"
    using write_step_fill [OF inv rest True] .
  with rest full_pages_small [OF True] show thesis
    by (intro that [of "length rest" "dev s" f']) simp_all
next
  case False
  define n where "n = 2048 - length L mod 2048"
  have n: "0 < n" "n \<le> length rest" using False by (simp_all add: n_def)
  obtain d' f' where "write_step s f rest = Some (None, s\<lparr>dev := d'\<rparr>, f', n)"
    "writing mem bd cap (s\<lparr>dev := d'\<rparr>) f' (L @ take n rest)" "slot f' = slot f" "revision (md f') = revision (md f) + 1"
    "outside_unchanged (config s) (unat (slot f)) (mem (dev s)) (mem d')"
    using write_step_page [OF inv rest(2) n_def n(2)] .
  then show thesis
    using full_pages_page [of L] by (intro that [OF n]) (simp_all add: n_def)
qed

lemma write_loop_ok:
  assumes "writing mem bd cap s f L" "length L + length rest \<le> slot_bytes (config s)"
  shows "\<exists>d' f'. write_loop s f rest w = Some (Result_Success, s\<lparr>dev := d'\<rparr>, f', w + length rest)
     \<and> writing mem bd cap (s\<lparr>dev := d'\<rparr>) f' (L @ rest) \<and> slot f' = slot f
     \<and> revision (md f') = revision (md f) + of_nat (full_pages (L @ rest) - full_pages L)
     \<and> outside_unchanged (config s) (unat (slot f)) (mem (dev s)) (mem d')"
  using assms
proof (induction "length rest" arbitrary: s f L rest w rule: less_induct)
  case less
  show ?case
  proof (cases "rest = []")
    case True
    then show ?thesis using less.prems
      by (intro exI [of _ "dev s"] exI [of _ f]) (simp add: write_loop.simps)
  next
    case False
    obtain n d' f' where n: "0 < n" "n \<le> length rest" and st: "write_step s f rest = Some (None, s\<lparr>dev := d'\<rparr>, f', n)"
      and inv: "writing mem bd cap (s\<lparr>dev := d'\<rparr>) f' (L @ take n rest)" and sl: "slot f' = slot f"
      and rev: "revision (md f') = revision (md f) + of_nat ((length L + n) div 2048 - full_pages L)"
      and out: "outside_unchanged (config s) (unat (slot f)) (mem (dev s)) (mem d')"
      using write_step_ok [OF less.prems(1) False less.prems(2)] .
    have lt: "length (drop n rest) < length rest" using n by simp
    have len: "length (L @ take n rest) = length L + n" using n by simp
    obtain d'' f'' where IH: "write_loop (s\<lparr>dev := d'\<rparr>) f' (drop n rest) (w + n) =
        Some (Result_Success, s\<lparr>dev := d''\<rparr>, f'', w + n + length (drop n rest))"
      "writing mem bd cap (s\<lparr>dev := d''\<rparr>) f'' (L @ rest)" "slot f'' = slot f"
      "revision (md f'') = revision (md f') + of_nat (full_pages (L @ rest) - (length L + n) div 2048)"
      "outside_unchanged (config s) (unat (slot f)) (mem d') (mem d'')"
      using less.hyps [OF lt inv, of "w + n"] n less.prems(2) sl unfolding len by auto
    have mono: "full_pages L \<le> (length L + n) div 2048" "(length L + n) div 2048 \<le> full_pages (L @ rest)"
      using n by (auto intro!: div_le_mono)
    have "revision (md f'') = revision (md f) + of_nat (full_pages (L @ rest) - full_pages L)"
      unfolding IH(4) rev add.assoc of_nat_add [symmetric] using mono by simp
    moreover have "write_loop s f rest w = Some (Result_Success, s\<lparr>dev := d''\<rparr>, f'', w + length rest)"
      using False st IH(1) n by (simp add: write_loop.simps [of s f rest])
    ultimately show ?thesis
      using IH outside_unchanged_trans [OF out] by blast
  qed
qed

lemma sfs_file_write_ok:
  assumes inv: "writing mem bd cap s f L" and fits: "length L + length data \<le> slot_bytes (config s)"
  obtains d' f' where "sfs_file_write s f data = Some (Result_Success, s\<lparr>dev := d'\<rparr>, f', length data)"
    "writing mem bd cap (s\<lparr>dev := d'\<rparr>) f' (L @ data)" "slot f' = slot f"
    "revision (md f') = revision (md f) + of_nat (full_pages (L @ data) - full_pages L)"
    "outside_unchanged (config s) (unat (slot f)) (mem (dev s)) (mem d')"
proof -
  have "sfs_file_opened f" using inv by (auto simp: writing_def sfs_file_opened_def)
  then show thesis
    using write_loop_ok [OF inv fits, of 0] that by (auto simp: sfs_file_write_def)
qed

end

text \<open>A write that does not fit changes nothing.\<close>

lemma sfs_file_write_full:
  assumes "writing mem bd cap s f L" "slot_bytes (config s) < length L + length data"
  shows "sfs_file_write s f data = Some (Result_Error_Write, s, f, 0)"
proof -
  have "data \<noteq> []" using assms writingD(7) [OF assms(1)] by auto
  moreover have "sfs_file_opened f" using assms by (auto simp: writing_def sfs_file_opened_def)
  moreover have "write_step s f data = Some (Some Result_Error_Write, s, f, 0)"
  proof -
    have "slot_bytes (config s) - length L < length data" using assms(2) writingD(7) [OF assms(1)] by linarith
    then show ?thesis using write_space [OF assms(1)] by (simp add: write_step_def)
  qed
  ultimately show ?thesis by (simp add: sfs_file_write_def write_loop.simps)
qed

end
