(* ===== verification/SlotFS_Session.thy ===== *)
theory SlotFS_Session
  imports SlotFS_Write
begin

text \<open>
  Whole sessions. The abstract file system maps a slot to the bytes of its file: what the
  current metadata block describes. Opening for writing starts an empty session, closing
  publishes the bytes written, and reading returns slices of the published bytes.
\<close>

unbundle bit_operations_syntax

section \<open>The abstract file system\<close>

text \<open>The file of a slot as a reader sees it; \<open>None\<close> when there is none.\<close>

definition stored_file :: "(nat \<Rightarrow> byte) \<Rightarrow> config \<Rightarrow> nat \<Rightarrow> byte list option" where
  "stored_file mm c i = (case committed mm c i of None \<Rightarrow> None
     | Some (_, m) \<Rightarrow> if revision m = 0 then None
         else Some (map mm [slot_begin c i ..< slot_begin c i + unat (file_size m)]))"

definition wf_md :: "config \<Rightarrow> nat \<Rightarrow> meta_data_block \<Rightarrow> bool" where
  "wf_md c i m \<longleftrightarrow> md_start_address m = of_nat (slot_begin c i)
     \<and> max_address m = of_nat (slot_begin c i + slot_bytes c) \<and> unat (file_size m) \<le> slot_bytes c"

definition wf_slot :: "(nat \<Rightarrow> byte) \<Rightarrow> config \<Rightarrow> nat \<Rightarrow> bool" where
  "wf_slot mm c i \<longleftrightarrow> (\<forall>k m. committed mm c i = Some (k, m) \<longrightarrow> wf_md c i m)"

lemma holds_at_map: "holds_at mm a xs \<longleftrightarrow> map mm [a ..< a + length xs] = xs"
proof -
  have "map mm [a ..< a + length xs] ! i = mm (a + i)" if "i < length xs" for i
    using that by simp
  then show ?thesis unfolding holds_at_def list_eq_iff_nth_eq by (metis length_map length_upt diff_add_inverse)
qed

text \<open>A session on one slot leaves the files of the others.\<close>

lemma stored_file_other:
  assumes wf: "wf_config c" and ij: "i < slots_of c" "j < slots_of c" "i \<noteq> j"
    and o: "outside_unchanged c i mm mm'" and w: "wf_slot mm c j"
  shows "stored_file mm' c j = stored_file mm c j" "wf_slot mm' c j"
proof -
  note cm = committed_other [OF wf ij o]
  have mem: "mm' x = mm x" if "slot_begin c j \<le> x" "x < slot_begin c j + slot_bytes c" for x
  proof -
    have "\<not> slot_area c i x" using slot_area_other [OF wf ij] slot_area_data [OF that] by blast
    then show ?thesis using o by (simp add: outside_unchanged_def)
  qed
  have "map mm' [slot_begin c j ..< slot_begin c j + n] = map mm [slot_begin c j ..< slot_begin c j + n]"
    if "n \<le> slot_bytes c" for n
    using that by (auto intro!: mem)
  then show "stored_file mm' c j = stored_file mm c j"
    using w by (auto simp: stored_file_def cm wf_slot_def wf_md_def split: option.split)
  show "wf_slot mm' c j" using w by (simp add: wf_slot_def cm)
qed

section \<open>Opening for writing\<close>

lemma set_lock_simps [simp]: "dev (set_lock_counter s i v) = dev s" "config (set_lock_counter s i v) = config s"
  "block_device (set_lock_counter s i v) = block_device s" "fs_ready bd cap (set_lock_counter s i v) = fs_ready bd cap s"
  "(set_lock_counter s i v)\<lparr>dev := d\<rparr> = set_lock_counter (s\<lparr>dev := d\<rparr>) i v"
  "set_lock_counter (set_lock_counter s i v) i w = set_lock_counter s i w"
  "lock_counter (s\<lparr>dev := d\<rparr>) i = lock_counter s i"
  by (simp_all add: set_lock_counter_def fs_ready_def lock_counter_def)

lemma lock_counter_set [simp]:
  "lock_counter s i = Some v \<Longrightarrow> lock_counter (set_lock_counter s i w) i = Some w"
  by (simp add: set_lock_counter_def lock_counter_def split: if_splits)

lemma writing_set_lock [simp]: "writing mem bd cap (set_lock_counter s i v) f L = writing mem bd cap s f L"
  by (simp add: writing_def)

lemma lock_counter_ready:
  assumes "fs_ready bd cap s" "unat sl < slots_of (config s)"
  obtains v where "lock_counter s sl = Some v"
  using assms by (auto simp: lock_counter_def fs_ready_def wf_config_def)

context reliable_device
begin

lemma write_md_reliable:
  assumes rdy: "fs_ready bd cap s" and sl: "unat sl < slots_of (config s)" and k: "unat idx = k" "k \<le> 1"
  obtains d' where "write_meta_data_block (s\<lparr>dev := d\<rparr>) sl m idx = Some (Result_Success, s\<lparr>dev := d'\<rparr>)"
    "disk_md (mem d') (config s) (unat sl) k = Some m"
    "\<And>x. x < meta_addr (config s) (unat sl) k \<or> meta_addr (config s) (unat sl) k + 512 \<le> x \<Longrightarrow> mem d' x = mem d x"
proof -
  define ma where "ma = meta_addr (config s) (unat sl) k"
  note wf = fs_ready_wf [OF rdy]
  have "ma + 512 \<le> data_start (config s)" unfolding ma_def by (rule meta_addr_end [OF wf sl k(2)])
  then have ok: "fst (dev_write bd (of_nat ma) (md_image m) d) = 0"
    using rdy wf unat_u64_less [of "end_address (config s)"] unfolding fs_ready_def wf_config_def
    by (intro write_block_ok) (simp_all add: ma_def meta_addr_aligned wf del: unat_u64_less)
  obtain rc d' where w: "write_meta_data_block (s\<lparr>dev := d\<rparr>) sl m idx = Some (rc, s\<lparr>dev := d'\<rparr>)"
    "rc = (if fst (dev_write bd (of_nat ma) (md_image m) d) = 0 then Result_Success else Result_Error_Write)"
    "rc = Result_Success \<Longrightarrow> block_at (mem d') ma = md_image m"
    "\<And>x. x < ma \<or> ma + 512 \<le> x \<Longrightarrow> mem d' x = mem d x"
    by (rule write_md_effect [OF rdy sl k ma_def, of d m]) (rule that)
  with ok that show thesis unfolding ma_def by (auto intro: disk_md_image)
qed

lemma open_write_ok:
  assumes rdy: "fs_ready bd cap s" and sl: "unat sl < slots_of (config s)" and al: "2048 dvd slot_bytes (config s)"
    and free: "lock_counter s sl = Some 0" and closed: "\<not> sfs_file_opened f0"
  obtains d' f where "sfs_file_open s sl Mode_WriteCreate f0 = Some (Result_Success, set_lock_counter (s\<lparr>dev := d'\<rparr>) sl 1, f)"
    "writing mem bd cap (s\<lparr>dev := d'\<rparr>) f []" "slot f = sl" "revision (md f) = 1"
    "outside_unchanged (config s) (unat sl) (mem (dev s)) (mem d')"
proof -
  note wf = fs_ready_wf [OF rdy]
  let ?c = "config s" and ?i = "unat sl"
  define m1 where "m1 = zero_md\<lparr>max_address := of_nat (slot_begin ?c ?i + slot_bytes ?c),
           md_start_address := of_nat (slot_begin ?c ?i), revision := 1\<rparr>"
  obtain d1 where w1: "write_meta_data_block s sl m1 0 = Some (Result_Success, s\<lparr>dev := d1\<rparr>)"
    and b1: "disk_md (mem d1) ?c ?i 0 = Some m1"
    and fr1: "\<And>x. x < meta_addr ?c ?i 0 \<or> meta_addr ?c ?i 0 + 512 \<le> x \<Longrightarrow> mem d1 x = mem (dev s) x"
    using write_md_reliable [OF rdy sl, of 0 0 "dev s" m1] by auto
  obtain d2 where w2: "write_meta_data_block (s\<lparr>dev := d1\<rparr>) sl m1 1 = Some (Result_Success, s\<lparr>dev := d2\<rparr>)"
    and b2: "disk_md (mem d2) ?c ?i 1 = Some m1"
    and fr2: "\<And>x. x < meta_addr ?c ?i 1 \<or> meta_addr ?c ?i 1 + 512 \<le> x \<Longrightarrow> mem d2 x = mem d1 x"
    using write_md_reliable [OF rdy sl, of 1 1 d1 m1] by auto
  have "disk_md (mem d2) ?c ?i 0 = Some m1"
    unfolding b1 [symmetric] by (rule disk_md_frame [OF _ wf sl]) (use fr2 in auto)
  then have cm: "committed (mem d2) ?c ?i = Some (0, m1)"
    using b2 by (simp add: committed_def newer_idx_def)
  let ?f = "zero_file\<lparr>md := m1, slot := sl, file_mode := Mode_WriteCreate, file_cursor := 0,
              file_page := Some (new_page 2048)\<rparr>"
  have sc: "\<not> sl > slot_count ?c" using sl by (simp add: slots_of_def word_less_nat_alt)
  have "m1 = zero_md\<lparr>max_address := of_nat (slot_begin ?c ?i + slot_bytes ?c),
           md_start_address := of_nat (slot_begin ?c ?i)\<rparr>\<lparr>revision := 1\<rparr>"
    by (simp add: m1_def)
  then have run: "sfs_file_open s sl Mode_WriteCreate f0 = Some (Result_Success, set_lock_counter (s\<lparr>dev := d2\<rparr>) sl 1, ?f)"
    using closed sc free w1 w2 by (simp add: sfs_file_open_def init_md_layout [OF wf sl] open_finish_def del: of_nat_add)
  have "writing mem bd cap (s\<lparr>dev := d2\<rparr>) ?f []"
    using rdy al sl cm by (simp add: writing_def in_slot_def page_ok_def new_page_def holds_at_def m1_def)
  moreover have "outside_unchanged ?c ?i (mem (dev s)) (mem d2)"
    unfolding outside_unchanged_def
  proof (intro allI impI)
    fix x assume "\<not> slot_area ?c ?i x"
    then show "mem d2 x = mem (dev s) x"
      using slot_area_meta [of 0 ?c ?i x] slot_area_meta [of 1 ?c ?i x] fr1 fr2
      by (metis linorder_not_le zero_le_one order_refl)
  qed
  ultimately show thesis by (intro that [OF run]) (simp_all add: m1_def)
qed

section \<open>Closing a write session\<close>

lemma close_write_ok:
  assumes inv: "writing mem bd cap s f L" and lock: "lock_counter s (slot f) = Some v"
  obtains d' where "sfs_file_close s f = Some (Result_Success, set_lock_counter (s\<lparr>dev := d'\<rparr>) (slot f) (v - 1), zero_file)"
    "stored_file (mem d') (config s) (unat (slot f)) = (if revision (md f) + 1 = 0 then None else Some L)"
    "wf_slot (mem d') (config s) (unat (slot f))" "committed (mem d') (config s) (unat (slot f)) \<noteq> None"
    "outside_unchanged (config s) (unat (slot f)) (mem (dev s)) (mem d')"
proof -
  note W = writingD [OF inv]
  let ?c = "config s" and ?i = "unat (slot f)"
  obtain p where p: "file_page f = Some p" "page_ok p" "page_offset p = length L mod 2048"
    "take (page_offset p) (page_data p) = drop (full_pages L * 2048) L" using writing_page [OF inv] .
  obtain i m where d: "committed (mem (dev s)) ?c ?i = Some (i, m)" "revision m = revision (md f)"
    "holds_at (mem (dev s)) (slot_begin ?c ?i) (take (full_pages L * 2048) L)"
    using writing_disk [OF inv] .
  define pa where "pa = slot_begin ?c ?i + full_pages L * 2048"
  have lt: "unat (file_cursor f) < slot_bytes ?c" if "page_offset p > 0"
  proof -
    have "length L \<noteq> slot_bytes ?c" using that W(3) p(3) by auto
    then show ?thesis using W(7,9) by simp
  qed
  obtain d' where fl: "sfs_file_flush s f = Some (Result_Success, s\<lparr>dev := d'\<rparr>, flushed f)"
    and page: "page_offset p > 0 \<Longrightarrow> holds_at (mem d') pa (page_data p)"
    and cm: "committed (mem d') ?c ?i = Some ((i + 1) mod 2, md (flushed f))"
    and fr: "\<And>x. \<not> (page_offset p > 0 \<and> pa \<le> x \<and> x < pa + 2048) \<Longrightarrow> data_start ?c \<le> x \<Longrightarrow> mem d' x = mem (dev s) x"
    and out: "outside_unchanged ?c ?i (mem (dev s)) (mem d')"
    using flush_reliable [OF W(1,4) p(1,2) W(6,3) lt d(1,2)] unfolding W(9) pa_def by blast
  have L: "L = take (full_pages L * 2048) L @ take (page_offset p) (page_data p)" using p(4) by simp
  have lenq: "length (take (full_pages L * 2048) L) = full_pages L * 2048" by (simp add: min_absorb2)
  have "holds_at (mem d') (slot_begin ?c ?i) L"
  proof (subst L, unfold holds_at_append, intro conjI)
    show "holds_at (mem d') (slot_begin ?c ?i) (take (full_pages L * 2048) L)"
      using d(3) by (subst holds_at_cong) (auto simp: pa_def lenq slot_begin_def intro!: fr)
    show "holds_at (mem d') (slot_begin ?c ?i + length (take (full_pages L * 2048) L)) (take (page_offset p) (page_data p))"
      using page p(2) unfolding lenq pa_def [symmetric] by (cases "page_offset p = 0") (auto simp: holds_at_def page_ok_def)
  qed
  then have hold: "map (mem d') [slot_begin ?c ?i ..< slot_begin ?c ?i + length L] = L" by (simp add: holds_at_map)
  show thesis
  proof (rule that [OF _ _ _ _ out])
    show "sfs_file_close s f = Some (Result_Success, set_lock_counter (s\<lparr>dev := d'\<rparr>) (slot f) (v - 1), zero_file)"
      using fl lock W(6) p(1) by (simp add: sfs_file_close_def sfs_file_opened_def)
    show "stored_file (mem d') ?c ?i = (if revision (md f) + 1 = 0 then None else Some L)"
      using hold W(9) by (simp add: stored_file_def cm)
    show "wf_slot (mem d') ?c ?i"
      using W(4,7,9) by (simp add: wf_slot_def cm wf_md_def in_slot_def)
    show "committed (mem d') ?c ?i \<noteq> None" by (simp add: cm)
  qed
qed

end

end
