(* ===== verification/SlotFS_Read.thy ===== *)
theory SlotFS_Read
  imports SlotFS_Session
begin

text \<open>
  Reading: a file open for reading is the list of bytes the metadata describes and a position
  in it. Reads need only a device whose reads succeed.
\<close>

unbundle bit_operations_syntax

section \<open>The invariant of a read session\<close>

definition page_of :: "config \<Rightarrow> nat \<Rightarrow> nat \<Rightarrow> nat" where
  "page_of c i k = slot_begin c i + k div 2048 * 2048"

definition cached :: "(nat \<Rightarrow> byte) \<Rightarrow> config \<Rightarrow> nat \<Rightarrow> nat \<Rightarrow> block_page \<Rightarrow> bool" where
  "cached mm c i k p \<longleftrightarrow> page_ok p \<and> page_offset p = k mod 2048
     \<and> page_data p = map mm [page_of c i k ..< page_of c i k + 2048]"

definition read_base :: "('d \<Rightarrow> nat \<Rightarrow> byte) \<Rightarrow> 'd device \<Rightarrow> nat \<Rightarrow> 'd slotfs \<Rightarrow> sfs_file \<Rightarrow> byte list \<Rightarrow> nat \<Rightarrow> bool" where
  "read_base mem bd cap s f L k \<longleftrightarrow> fs_ready bd cap s \<and> 2048 dvd slot_bytes (config s)
     \<and> in_slot (config s) f \<and> file_mode f = Mode_Read
     \<and> length L \<le> slot_bytes (config s) \<and> k \<le> length L \<and> file_cursor f = of_nat k
     \<and> file_size (md f) = of_nat (length L)
     \<and> holds_at (mem (dev s)) (slot_begin (config s) (unat (slot f))) L"

definition reading :: "('d \<Rightarrow> nat \<Rightarrow> byte) \<Rightarrow> 'd device \<Rightarrow> nat \<Rightarrow> 'd slotfs \<Rightarrow> sfs_file \<Rightarrow> byte list \<Rightarrow> nat \<Rightarrow> bool" where
  "reading mem bd cap s f L k \<longleftrightarrow> read_base mem bd cap s f L k
     \<and> (\<exists>p. file_page f = Some p \<and> page_ok p
          \<and> (page_offset p = 0 \<or> page_offset p = 2048 \<or> cached (mem (dev s)) (config s) (unat (slot f)) k p))"

lemma read_baseD:
  assumes "read_base mem bd cap s f L k"
  shows "fs_ready bd cap s" "wf_config (config s)" "2048 dvd slot_bytes (config s)" "in_slot (config s) f"
    "unat (slot f) < slots_of (config s)" "file_mode f = Mode_Read"
    "length L \<le> slot_bytes (config s)" "k \<le> length L" "unat (file_cursor f) = k" "unat (file_size (md f)) = length L"
    "holds_at (mem (dev s)) (slot_begin (config s) (unat (slot f))) L"
proof -
  show 1: "fs_ready bd cap s" "2048 dvd slot_bytes (config s)" "in_slot (config s) f" "file_mode f = Mode_Read"
    "length L \<le> slot_bytes (config s)" "k \<le> length L"
    "holds_at (mem (dev s)) (slot_begin (config s) (unat (slot f))) L"
    using assms by (simp_all add: read_base_def)
  show wf: "wf_config (config s)" using 1 by (simp add: fs_ready_def)
  show sl: "unat (slot f) < slots_of (config s)" using 1 by (simp add: in_slot_def)
  have "slot_bytes (config s) < 2 ^ 64"
    using slot_end [OF wf sl] unat_u64_less [of "end_address (config s)"] by (simp del: unat_u64_less)
  then show "unat (file_cursor f) = k" "unat (file_size (md f)) = length L"
    using assms by (simp_all add: read_base_def unat_of_nat_u64 del: unat_u64_less)
qed

section \<open>One iteration of the read loop\<close>

lemma cached_slice:
  assumes c: "cached mm c i k p" and h: "holds_at mm (slot_begin c i) L" and n: "n \<le> 2048 - k mod 2048" "k + n \<le> length L"
  shows "slice (page_offset p) n (page_data p) = take n (drop k L)"
proof -
  have eq: "page_of c i k + (k mod 2048 + j) = slot_begin c i + (k + j)" for j
    using div_mult_mod_eq [of k 2048] unfolding page_of_def by linarith
  have "slice (page_offset p) n (page_data p) ! j = L ! (k + j)" if "j < n" for j
  proof -
    have "[page_of c i k ..< page_of c i k + 2048] ! (k mod 2048 + j) = page_of c i k + (k mod 2048 + j)"
      by (rule nth_upt) (use that n in linarith)
    then show ?thesis
      using that c h n by (simp add: cached_def slice_def holds_at_def eq del: nth_upt)
  qed
  then show ?thesis
    using c n by (simp add: list_eq_iff_nth_eq cached_def)
qed

lemma cached_advance:
  assumes c: "cached mm c i k p" and n: "k mod 2048 + n < 2048"
  shows "cached mm c i (k + n) (p\<lparr>page_offset := page_offset p + n\<rparr>)"
proof -
  have k: "k + n = k div 2048 * 2048 + (k mod 2048 + n)" by simp
  have "(k + n) div 2048 = k div 2048" by (rule div_page [OF n k])
  moreover have "(k + n) mod 2048 = k mod 2048 + n" by (subst k) (use n in \<open>simp only: mod_mult_self3 mod_less\<close>)
  ultimately show ?thesis using c n by (simp add: cached_def page_of_def page_ok_def)
qed

context readable_device
begin

lemma load_page_ok:
  assumes b: "read_base mem bd cap s f L k" and p: "file_page f = Some p" "page_ok p" and lt: "k < length L"
  obtains d' p' where "load_page s f = Some (0, s\<lparr>dev := d'\<rparr>, f\<lparr>file_page := Some p'\<rparr>)" "mem d' = mem (dev s)"
    "cached (mem (dev s)) (config s) (unat (slot f)) k p'"
proof -
  note B = read_baseD [OF b]
  let ?pa = "page_of (config s) (unat (slot f)) k"
  have pba: "page_block_address f = Some (of_nat ?pa, of_nat (k mod 2048))" and pb: "?pa < 2 ^ 64"
    using page_block_address_in_slot [OF B(2,4) p] unfolding B(9) page_of_def by simp_all
  have k: "k < slot_bytes (config s)" using lt B(7) by simp
  have "?pa + 2048 \<le> cap" "512 dvd ?pa"
    using page_in_slot [OF B(2,5,3) k] B(1) unfolding page_of_def by (simp_all add: fs_ready_def)
  then have fit: "unat (of_nat ?pa :: u64) + length (page_data p) \<le> cap" "512 dvd unat (of_nat ?pa :: u64)" "512 dvd length (page_data p)"
    using p(2) by (simp_all only: unat_of_nat_u64 [OF pb] page_ok_def) simp
  obtain d' where r: "dev_read bd (of_nat ?pa) (page_data p) (dev s) = (0, map (mem (dev s)) [?pa ..< ?pa + 2048], d')"
    and m: "mem d' = mem (dev s)"
    using read_reliable [OF fit(2,3,1), of "dev s"] p(2) unfolding unat_of_nat_u64 [OF pb] page_ok_def by metis
  have off: "unat (of_nat (k mod 2048) :: u64) = k mod 2048"
    by (rule unat_of_nat_u64, rule less_trans [of _ 2048]) simp_all
  show thesis
    by (rule that [OF _ m, of "p\<lparr>page_data := map (mem (dev s)) [?pa ..< ?pa + 2048], page_offset := k mod 2048\<rparr>"])
      (use pba p r off B(1) in \<open>simp_all add: load_page_def bd_read_def fs_ready_def cached_def page_ok_def\<close>)
qed

lemma read_step_cached:
  assumes b: "read_base mem bd cap s f L k" and p: "file_page f = Some p" "cached (mem (dev s)) (config s) (unat (slot f)) k p"
    and lt: "k < length L" "0 < rem" and n: "n = min (2048 - k mod 2048) (min rem (length L - k))"
  defines "f' \<equiv> f\<lparr>file_cursor := file_cursor f + of_nat n, file_page := Some (p\<lparr>page_offset := page_offset p + n\<rparr>)\<rparr>"
  shows "reading mem bd cap s f' L (k + n)" "slice (page_offset p) n (page_data p) = take n (drop k L)" "0 < n"
    "n = min (page_capacity p - page_size p) (min rem (unat (file_size (md f) - file_cursor f)))"
proof -
  note B = read_baseD [OF b]
  show n0: "0 < n" using lt n by simp
  have "n \<le> length L - k" unfolding n by linarith
  then have le: "k + n \<le> length L" "n \<le> 2048 - k mod 2048" unfolding n using lt by linarith+
  show "slice (page_offset p) n (page_data p) = take n (drop k L)"
    by (rule cached_slice [OF p(2) B(11) le(2,1)])
  have "file_size (md f) - file_cursor f = of_nat (length L - k)"
    using b by (intro word_eq_of_nat_diff) (simp_all add: read_base_def)
  moreover have "length L - k < 2 ^ 64"
    using B(10) unat_u64_less [of "file_size (md f)"] by (simp del: unat_u64_less)
  ultimately have "unat (file_size (md f) - file_cursor f) = length L - k" by (simp only: unat_of_nat_u64)
  then show "n = min (page_capacity p - page_size p) (min rem (unat (file_size (md f) - file_cursor f)))"
    using p(2) unfolding n by (simp add: cached_def page_ok_def page_capacity_def page_size_def)
  have kb: "unat (of_nat (k + n) :: u64) = k + n"
    using B(10) le(1) unat_u64_less [of "file_size (md f)"] by (intro unat_of_nat_u64) (simp del: unat_u64_less)
  have base: "read_base mem bd cap s f' L (k + n)"
    using b le kb B(7) by (simp add: read_base_def f'_def in_slot_def)
  have "page_offset p + n = 2048 \<or> k mod 2048 + n < 2048"
    using p(2) le(2) by (auto simp: cached_def)
  then have "page_offset p + n = 2048 \<or> cached (mem (dev s)) (config s) (unat (slot f)) (k + n) (p\<lparr>page_offset := page_offset p + n\<rparr>)"
    using cached_advance [OF p(2)] by blast
  then show "reading mem bd cap s f' L (k + n)"
    using base p(2) by (auto simp: reading_def f'_def cached_def page_ok_def)
qed

lemma read_step_ok:
  assumes inv: "reading mem bd cap s f L k" and lt: "k < length L" "0 < rem"
  obtains n d' f' where "0 < n" "n \<le> rem" "n \<le> length L - k"
    "read_step s f rem = Some (None, s\<lparr>dev := d'\<rparr>, f', take n (drop k L))"
    "reading mem bd cap (s\<lparr>dev := d'\<rparr>) f' L (k + n)" "slot f' = slot f" "mem d' = mem (dev s)"
proof -
  have b: "read_base mem bd cap s f L k" using inv by (simp add: reading_def)
  note B = read_baseD [OF b]
  obtain p where p: "file_page f = Some p" "page_ok p"
    "page_offset p = 0 \<or> page_offset p = 2048 \<or> cached (mem (dev s)) (config s) (unat (slot f)) k p"
    using inv by (auto simp: reading_def)
  have "\<exists>d' p'. (if page_available p = 0 \<or> page_size p = 0 then load_page s f else Some (0, s, f))
      = Some (0, s\<lparr>dev := d'\<rparr>, f\<lparr>file_page := Some p'\<rparr>) \<and> mem d' = mem (dev s)
        \<and> cached (mem (dev s)) (config s) (unat (slot f)) k p'"
  proof (cases "page_available p = 0 \<or> page_size p = 0")
    case True
    then show ?thesis using load_page_ok [OF b p(1,2) lt(1)] by metis
  next
    case False
    then have "cached (mem (dev s)) (config s) (unat (slot f)) k p"
      using p by (auto simp: page_available_def page_size_def page_ok_def)
    moreover have "f\<lparr>file_page := Some p\<rparr> = f" using p(1) by (cases f) simp
    ultimately show ?thesis using False by (intro exI [of _ "dev s"] exI [of _ p]) simp
  qed
  then obtain d' p' where ld: "(if page_available p = 0 \<or> page_size p = 0 then load_page s f else Some (0, s, f))
      = Some (0, s\<lparr>dev := d'\<rparr>, f\<lparr>file_page := Some p'\<rparr>)" and m: "mem d' = mem (dev s)"
    and c: "cached (mem (dev s)) (config s) (unat (slot f)) k p'" by blast
  define n where "n = min (2048 - k mod 2048) (min rem (length L - k))"
  let ?s = "s\<lparr>dev := d'\<rparr>" and ?f = "f\<lparr>file_page := Some p'\<rparr>"
  have b': "read_base mem bd cap ?s ?f L k" using b m B(9) by (auto simp: read_base_def in_slot_def)
  have c': "cached (mem (dev ?s)) (config ?s) (unat (slot ?f)) k p'" using c m by simp
  note R = read_step_cached [OF b' _ c' lt n_def, simplified]
  have ge: "\<not> file_size (md f) \<le> file_cursor f"
    using lt(1) B(9,10) by (simp add: word_le_nat_alt)
  have run: "read_step s f rem = Some (None, ?s, f\<lparr>file_cursor := file_cursor f + of_nat n,
      file_page := Some (p'\<lparr>page_offset := page_offset p' + n\<rparr>)\<rparr>, take n (drop k L))"
    using ge p(1) ld R(2,4) by (simp add: read_step_def Let_def)
  have "n \<le> rem" "n \<le> length L - k" unfolding n_def by linarith+
  from that [OF R(3) this run R(1)] show thesis using m by simp
qed

lemma read_step_eof: "reading mem bd cap s f L (length L) \<Longrightarrow> read_step s f rem = Some (Some Result_Success_Eof, s, f, [])"
  by (auto simp: read_step_def reading_def read_base_def)

lemma read_loop_ok:
  assumes "reading mem bd cap s f L k"
  shows "\<exists>d' f'. read_loop s f rem acc = Some (if k + rem \<le> length L then Result_Success else Result_Success_Eof,
           s\<lparr>dev := d'\<rparr>, f', acc @ take rem (drop k L))
     \<and> reading mem bd cap (s\<lparr>dev := d'\<rparr>) f' L (min (k + rem) (length L)) \<and> slot f' = slot f \<and> mem d' = mem (dev s)"
  using assms
proof (induction rem arbitrary: s f k acc rule: less_induct)
  case (less rem)
  have k: "k \<le> length L" using less.prems by (simp add: reading_def read_base_def)
  consider "rem = 0" | "0 < rem" "k = length L" | "0 < rem" "k < length L" using k by linarith
  then show ?case
  proof cases
    case 1
    then show ?thesis using less.prems k
      by (intro exI [of _ "dev s"] exI [of _ f]) (simp add: read_loop.simps)
  next
    case 2
    then show ?thesis using less.prems read_step_eof [of s f L rem]
      by (intro exI [of _ "dev s"] exI [of _ f]) (simp add: read_loop.simps [of s f rem])
  next
    case 3
    obtain n d' f' where n: "0 < n" "n \<le> rem" "n \<le> length L - k"
      and st: "read_step s f rem = Some (None, s\<lparr>dev := d'\<rparr>, f', take n (drop k L))"
      and inv: "reading mem bd cap (s\<lparr>dev := d'\<rparr>) f' L (k + n)" and sl: "slot f' = slot f" and m: "mem d' = mem (dev s)"
      using read_step_ok [OF less.prems 3(2,1)] .
    have len: "length (take n (drop k L)) = n" using n 3 by simp
    have app: "take n (drop k L) @ take (rem - n) (drop (k + n) L) = take rem (drop k L)"
      using take_add [of n "rem - n" "drop k L"] n by (simp add: add.commute)
    obtain d'' f'' where IH: "read_loop (s\<lparr>dev := d'\<rparr>) f' (rem - n) (acc @ take n (drop k L)) =
        Some (if k + n + (rem - n) \<le> length L then Result_Success else Result_Success_Eof, s\<lparr>dev := d''\<rparr>, f'',
              (acc @ take n (drop k L)) @ take (rem - n) (drop (k + n) L))"
      "reading mem bd cap (s\<lparr>dev := d''\<rparr>) f'' L (min (k + n + (rem - n)) (length L))" "slot f'' = slot f" "mem d'' = mem (dev s)"
      using less.IH [OF _ inv, of "rem - n" "acc @ take n (drop k L)"] n 3(1) m sl by auto
    have "read_loop s f rem acc = Some (if k + rem \<le> length L then Result_Success else Result_Success_Eof,
        s\<lparr>dev := d''\<rparr>, f'', acc @ take rem (drop k L))"
      using 3 st IH(1) n by (simp add: read_loop.simps [of s f rem] len app)
    then show ?thesis using IH n by auto
  qed
qed

lemma sfs_file_read_ok:
  assumes inv: "reading mem bd cap s f L k"
  obtains d' f' where "sfs_file_read s f n = Some (if k + n \<le> length L then Result_Success else Result_Success_Eof,
           s\<lparr>dev := d'\<rparr>, f', take n (drop k L))"
    "reading mem bd cap (s\<lparr>dev := d'\<rparr>) f' L (min (k + n) (length L))" "slot f' = slot f" "mem d' = mem (dev s)"
proof -
  have "sfs_file_opened f" "file_mode f = Mode_Read"
    using inv by (auto simp: reading_def read_base_def sfs_file_opened_def)
  then show thesis
    using read_loop_ok [OF inv, of n "[]"] that by (auto simp: sfs_file_read_def)
qed

section \<open>Opening, seeking, closing\<close>

lemma open_read_ok:
  assumes rdy: "fs_ready bd cap s" and sl: "unat sl < slots_of (config s)" and al: "2048 dvd slot_bytes (config s)"
    and lock: "lock_counter s sl = Some v" and closed: "\<not> sfs_file_opened f0"
    and sf: "stored_file (mem (dev s)) (config s) (unat sl) = Some L" and wfs: "wf_slot (mem (dev s)) (config s) (unat sl)"
  obtains d' f where "sfs_file_open s sl Mode_Read f0 = Some (Result_Success, set_lock_counter (s\<lparr>dev := d'\<rparr>) sl (v + 1), f)"
    "reading mem bd cap (s\<lparr>dev := d'\<rparr>) f L 0" "slot f = sl" "mem d' = mem (dev s)"
proof -
  obtain i m where cm: "committed (mem (dev s)) (config s) (unat sl) = Some (i, m)" and r: "revision m \<noteq> 0"
    and L: "L = map (mem (dev s)) [slot_begin (config s) (unat sl) ..< slot_begin (config s) (unat sl) + unat (file_size m)]"
    using sf by (auto simp: stored_file_def split: option.splits if_splits)
  have wm: "wf_md (config s) (unat sl) m" using wfs cm by (simp add: wf_slot_def)
  obtain d' a b where m: "mem d' = mem (dev s)"
    and rd: "read_most_recent s sl = Some (Result_Success, Some i, a, b, s\<lparr>dev := d'\<rparr>)" "m = (if i = 0 then a else b)"
    using read_most_recent_ready [OF rdy sl] cm by metis
  have sc: "\<not> sl > slot_count (config s)" using sl by (simp add: slots_of_def word_less_nat_alt)
  let ?f = "zero_file\<lparr>md := m, slot := sl, file_mode := Mode_Read, file_cursor := 0, file_page := Some (new_page 2048)\<rparr>"
  have run: "sfs_file_open s sl Mode_Read f0 = Some (Result_Success, set_lock_counter (s\<lparr>dev := d'\<rparr>) sl (v + 1), ?f)"
    using closed sc rd r lock by (auto simp: sfs_file_open_def open_finish_def Let_def)
  have lenL: "length L = unat (file_size m)" by (simp add: L)
  have "holds_at (mem d') (slot_begin (config s) (unat sl)) L"
    unfolding holds_at_map lenL m by (simp add: L)
  then have "reading mem bd cap (s\<lparr>dev := d'\<rparr>) ?f L 0"
    using rdy sl al wm by (simp add: reading_def read_base_def in_slot_def page_ok_def new_page_def wf_md_def lenL)
  then show thesis by (intro that [OF run]) (simp_all add: m)
qed

lemma open_read_none:
  assumes rdy: "fs_ready bd cap s" and sl: "unat sl < slots_of (config s)" and closed: "\<not> sfs_file_opened f0"
    and sf: "stored_file (mem (dev s)) (config s) (unat sl) = None"
  obtains rc d' f where "sfs_file_open s sl Mode_Read f0 = Some (rc, s\<lparr>dev := d'\<rparr>, f)"
    "rc = (if committed (mem (dev s)) (config s) (unat sl) = None then Result_Error_CorruptData else Result_Error_FileNotFound)"
    "\<not> sfs_file_opened f" "mem d' = mem (dev s)"
proof -
  have sc: "\<not> sl > slot_count (config s)" using sl by (simp add: slots_of_def word_less_nat_alt)
  obtain d' rc idx a b where m: "mem d' = mem (dev s)" and rd: "read_most_recent s sl = Some (rc, idx, a, b, s\<lparr>dev := d'\<rparr>)"
    and no: "committed (mem (dev s)) (config s) (unat sl) = None \<Longrightarrow> rc = Result_Error_CorruptData \<and> idx = None"
    and yes: "\<And>i m. committed (mem (dev s)) (config s) (unat sl) = Some (i, m) \<Longrightarrow>
        rc = Result_Success \<and> idx = Some i \<and> i < 2 \<and> m = (if i = 0 then a else b)"
    by (rule read_most_recent_ready [OF rdy sl]) (rule that)
  show thesis
  proof (cases "committed (mem (dev s)) (config s) (unat sl)")
    case None
    then have "sfs_file_open s sl Mode_Read f0 = Some (Result_Error_CorruptData, s\<lparr>dev := d'\<rparr>, zero_file)"
      using no rd closed sc by (simp add: sfs_file_open_def)
    then show thesis
      by (rule that) (simp_all add: None sfs_file_opened_def zero_file_def m)
  next
    case (Some im)
    obtain i x where im: "im = (i, x)" by (cases im)
    have r: "revision x = 0" using sf Some im by (simp add: stored_file_def split: if_splits)
    have y: "rc = Result_Success" "idx = Some i" "x = (if i = 0 then a else b)" using yes [of i x] Some im by simp_all
    have "sfs_file_open s sl Mode_Read f0 = Some (Result_Error_FileNotFound, s\<lparr>dev := d'\<rparr>, zero_file\<lparr>md := x\<rparr>)"
      using closed sc rd r y by (simp add: sfs_file_open_def Let_def)
    then show thesis
      by (rule that) (simp_all add: Some im sfs_file_opened_def zero_file_def m)
  qed
qed

lemma seek_ok:
  assumes inv: "reading mem bd cap s f L k" and pos: "unat pos < length L"
  obtains f' where "sfs_file_seek s f pos = (Result_Success, f')" "reading mem bd cap s f' L (unat pos)" "slot f' = slot f"
proof -
  have b: "read_base mem bd cap s f L k" using inv by (simp add: reading_def)
  obtain p where p: "file_page f = Some p" "page_ok p" using inv by (auto simp: reading_def)
  have "\<not> pos \<ge> file_size (md f)" using pos read_baseD(10) [OF b] by (simp add: word_le_nat_alt)
  then have "sfs_file_seek s f pos = (Result_Success, f\<lparr>file_cursor := pos, file_page := Some (page_clear p)\<rparr>)"
    using p read_baseD(6) [OF b] by (simp add: sfs_file_seek_def)
  moreover have "reading mem bd cap s (f\<lparr>file_cursor := pos, file_page := Some (page_clear p)\<rparr>) L (unat pos)"
    using b p pos by (simp add: reading_def read_base_def in_slot_def page_clear_def page_ok_def)
  ultimately show thesis by (rule that) simp
qed

lemma close_read_ok:
  assumes "reading mem bd cap s f L k" "lock_counter s (slot f) = Some v"
  shows "sfs_file_close s f = Some (Result_Success, set_lock_counter s (slot f) (v - 1), zero_file)"
  using assms by (auto simp: reading_def read_base_def sfs_file_close_def sfs_file_opened_def)

end

end
