(* ===== verification/SlotFS_Props.thy ===== *)
theory SlotFS_Props
  imports SlotFS_Read
begin

text \<open>
  The properties of the slot file system that the layers below add up to, each stated for any
  device that meets its contract and applied to a concrete one by its witness.
\<close>

unbundle bit_operations_syntax

section \<open>A concrete file system\<close>

text \<open>Two slots of one page each; also a file system of one slot with room for 256 pages.\<close>

definition demo_config :: config where
  "demo_config = \<lparr>slot_count = 2, start_address = 0, end_address = 6656\<rparr>"

definition big_config :: config where
  "big_config = \<lparr>slot_count = 1, start_address = 0, end_address = 525824\<rparr>"

definition fs_on :: "'d device \<Rightarrow> 'd \<Rightarrow> config \<Rightarrow> 'd slotfs" where
  "fs_on bd d c = \<lparr>block_device = Some bd, dev = d, config = c, lock_counters = replicate 128 0\<rparr>"

lemma demo_layout: "slots_of demo_config = 2" "data_start demo_config = 2560" "slot_bytes demo_config = 2048"
    "wf_config demo_config" "unat (end_address demo_config) = 6656"
  by (simp_all add: demo_config_def slots_of_def data_start_def slot_bytes_def wf_config_def)

lemma big_layout: "slots_of big_config = 1" "data_start big_config = 1536" "slot_bytes big_config = 524288"
    "wf_config big_config" "unat (end_address big_config) = 525824"
  by (simp_all add: big_config_def slots_of_def data_start_def slot_bytes_def wf_config_def)

lemma fs_on_ready: "wf_config c \<Longrightarrow> unat (end_address c) \<le> cap \<Longrightarrow> fs_ready bd cap (fs_on bd d c)"
  by (simp add: fs_ready_def fs_on_def)

lemma fs_on_simps [simp]: "config (fs_on bd d c) = c" "dev (fs_on bd d c) = d"
  by (simp_all add: fs_on_def)

lemma not_dvd_256 [simp]: "\<not> 256 dvd Suc (Suc 0)"
  by (simp flip: numeral_2_eq_2)

lemma fs_on_lock: "unat sl < 128 \<Longrightarrow> lock_counter (fs_on bd d c) sl = Some 0"
  by (simp add: lock_counter_def fs_on_def)

lemma dvd_256_iff: "256 dvd n + 2 \<longleftrightarrow> n mod 256 = (254 :: nat)"
proof -
  have r: "n mod 256 < 256" by simp
  have "(n + 2) mod 256 = (n mod 256 + 2) mod 256" by (rule mod_add_left_eq [symmetric])
  also have "\<dots> = (if n mod 256 < 254 then n mod 256 + 2 else n mod 256 - 254)"
    using r by (subst mod_if) (auto simp: mod_if [of "n mod 256 + 2 - 256"])
  finally show ?thesis using r by (auto simp: dvd_eq_mod_eq_0)
qed

section \<open>Formatting\<close>

definition fresh_md :: "config \<Rightarrow> nat \<Rightarrow> meta_data_block" where
  "fresh_md c i = zero_md\<lparr>max_address := of_nat (slot_begin c i + slot_bytes c), md_start_address := of_nat (slot_begin c i)\<rparr>"

definition slot_formatted :: "(nat \<Rightarrow> byte) \<Rightarrow> config \<Rightarrow> nat \<Rightarrow> bool" where
  "slot_formatted mm c i \<longleftrightarrow> disk_md mm c i 0 = Some (fresh_md c i) \<and> disk_md mm c i 1 = Some (fresh_md c i)"

lemma slot_formatted_empty: "slot_formatted mm c i \<Longrightarrow> stored_file mm c i = None \<and> wf_slot mm c i"
  by (simp add: slot_formatted_def stored_file_def wf_slot_def committed_def newer_idx_def fresh_md_def zero_md_def wf_md_def)

lemma slot_formatted_cong:
  assumes "\<And>x. meta_addr c i 0 \<le> x \<Longrightarrow> x < meta_addr c i 0 + 1024 \<Longrightarrow> mm' x = mm x"
  shows "slot_formatted mm' c i = slot_formatted mm c i"
proof -
  have "disk_md mm' c i k = disk_md mm c i k" if "k \<le> 1" for k
    by (rule disk_md_cong, rule assms) (use that in \<open>simp_all add: meta_addr_def\<close>)
  then show ?thesis by (simp add: slot_formatted_def)
qed

context reliable_device
begin

lemma format_slots_ok:
  assumes "fs_ready bd cap s" "\<forall>j \<in> set js. j < slots_of (config s)"
  shows "\<exists>d'. format_slots (s\<lparr>dev := d\<rparr>) js = Some (s\<lparr>dev := d'\<rparr>) \<and> (\<forall>j \<in> set js. slot_formatted (mem d') (config s) j)
     \<and> (\<forall>x. (\<forall>j \<in> set js. x < meta_addr (config s) j 0 \<or> meta_addr (config s) j 0 + 1024 \<le> x) \<longrightarrow> mem d' x = mem d x)"
  using assms
proof (induction js arbitrary: d)
  case Nil
  then show ?case by (intro exI [of _ d]) simp
next
  case (Cons j js)
  let ?c = "config s"
  note wf = fs_ready_wf [OF Cons.prems(1)]
  have j: "j < slots_of ?c" using Cons.prems by simp
  have jb: "unat (of_nat j :: u64) = j" using j wf by (intro unat_of_nat_u64) (simp add: wf_config_def)
  have sl: "unat (of_nat j :: u64) < slots_of ?c" using j jb by simp
  have init: "init_meta_data_block ?c (of_nat j) = Some (fresh_md ?c j)"
    unfolding init_md_layout [OF wf sl] jb fresh_md_def by (rule refl)
  obtain d1 where w1: "write_meta_data_block (s\<lparr>dev := d\<rparr>) (of_nat j) (fresh_md ?c j) 0 = Some (Result_Success, s\<lparr>dev := d1\<rparr>)"
    and b1: "disk_md (mem d1) ?c j 0 = Some (fresh_md ?c j)"
    and fr1: "\<And>x. x < meta_addr ?c j 0 \<or> meta_addr ?c j 0 + 512 \<le> x \<Longrightarrow> mem d1 x = mem d x"
    using write_md_reliable [OF Cons.prems(1) sl, of 0 0 d "fresh_md ?c j"] unfolding jb by auto
  obtain d2 where w2: "write_meta_data_block (s\<lparr>dev := d1\<rparr>) (of_nat j) (fresh_md ?c j) 1 = Some (Result_Success, s\<lparr>dev := d2\<rparr>)"
    and b2: "disk_md (mem d2) ?c j 1 = Some (fresh_md ?c j)"
    and fr2: "\<And>x. x < meta_addr ?c j 1 \<or> meta_addr ?c j 1 + 512 \<le> x \<Longrightarrow> mem d2 x = mem d1 x"
    using write_md_reliable [OF Cons.prems(1) sl, of 1 1 d1 "fresh_md ?c j"] unfolding jb by auto
  have "disk_md (mem d2) ?c j 0 = Some (fresh_md ?c j)"
    unfolding b1 [symmetric] by (rule disk_md_frame [OF _ wf j]) (use fr2 in auto)
  then have fj: "slot_formatted (mem d2) ?c j" using b2 by (simp add: slot_formatted_def)
  have fr: "mem d2 x = mem d x" if "x < meta_addr ?c j 0 \<or> meta_addr ?c j 0 + 1024 \<le> x" for x
    using that fr1 [of x] fr2 [of x] by (auto simp: meta_addr_def)
  obtain d' where IH: "format_slots (s\<lparr>dev := d2\<rparr>) js = Some (s\<lparr>dev := d'\<rparr>)" "\<forall>j \<in> set js. slot_formatted (mem d') ?c j"
    "\<forall>x. (\<forall>j \<in> set js. x < meta_addr ?c j 0 \<or> meta_addr ?c j 0 + 1024 \<le> x) \<longrightarrow> mem d' x = mem d2 x"
    using Cons.IH [of d2] Cons.prems by auto
  have "slot_formatted (mem d') ?c j"
  proof (cases "j \<in> set js")
    case False
    have "mem d' x = mem d2 x" if "meta_addr ?c j 0 \<le> x" "x < meta_addr ?c j 0 + 1024" for x
    proof (rule IH(3) [rule_format])
      fix j' assume "j' \<in> set js"
      with False have "j' \<noteq> j" by auto
      with that show "x < meta_addr ?c j' 0 \<or> meta_addr ?c j' 0 + 1024 \<le> x" by (auto simp: meta_addr_def)
    qed
    then show ?thesis using fj slot_formatted_cong by blast
  qed (use IH(2) in blast)
  moreover have "format_slots (s\<lparr>dev := d\<rparr>) (j # js) = Some (s\<lparr>dev := d'\<rparr>)"
    using init w1 w2 IH(1) by simp
  ultimately show ?case
    using IH(2,3) fr by (intro exI [of _ d']) simp
qed

text \<open>The configuration block, as \<^verbatim>\<open>sfs_init\<close> will read it.\<close>

lemma format_ok:
  assumes rdy: "fs_ready bd cap s"
  obtains d' where "sfs_format s = Some (Result_Success, s\<lparr>dev := d'\<rparr>)"
    "\<forall>j < slots_of (config s). slot_formatted (mem d') (config s) j"
    "config_of_bytes (block_at (mem d') (unat (start_address (config s)))) = config s"
proof -
  let ?c = "config s" and ?b = "overwrite 0 (config_bytes (config s)) (replicate 512 0)"
  note wf = fs_ready_wf [OF rdy]
  let ?sa = "unat (start_address ?c)"
  have len: "length ?b = 512" by simp
  have dl: "512 dvd length ?b" unfolding len by simp
  have "?sa + 512 \<le> data_start ?c" by (simp add: data_start_def)
  then have fit: "?sa + length ?b \<le> cap" using rdy wf unfolding len by (simp add: fs_ready_def wf_config_def)
  have al: "512 dvd ?sa" using wf by (simp add: wf_config_def)
  obtain d1 where w: "dev_write bd (start_address ?c) ?b (dev s) = (0, d1)"
    and dat: "\<And>i. i < length ?b \<Longrightarrow> mem d1 (?sa + i) = ?b ! i"
    by (rule write_reliable [OF al dl fit, of "dev s"]) (rule that)
  obtain d' where f: "format_slots (s\<lparr>dev := d1\<rparr>) [0 ..< slots_of ?c] = Some (s\<lparr>dev := d'\<rparr>)"
    and fm: "\<forall>j \<in> set [0 ..< slots_of ?c]. slot_formatted (mem d') ?c j"
    and fr: "\<forall>x. (\<forall>j \<in> set [0 ..< slots_of ?c]. x < meta_addr ?c j 0 \<or> meta_addr ?c j 0 + 1024 \<le> x) \<longrightarrow> mem d' x = mem d1 x"
    using format_slots_ok [OF rdy, of "[0 ..< slots_of ?c]" d1] by auto
  have "block_at (mem d') ?sa = ?b"
  proof (rule block_at_eq [OF len])
    fix i :: nat assume i: "i < 512"
    then have "mem d' (?sa + i) = mem d1 (?sa + i)" by (intro fr [rule_format]) (simp add: meta_addr_def)
    then show "mem d' (?sa + i) = ?b ! i" using dat [of i] i by simp
  qed
  then have cb: "config_of_bytes (block_at (mem d') ?sa) = ?c"
    by (simp add: overwrite_def config_roundtrip)
  have "sfs_format s = Some (Result_Success, s\<lparr>dev := d'\<rparr>)"
    using rdy w f by (simp add: sfs_format_def bd_write_def fs_ready_def slots_of_def)
  from that [OF this _ cb] fm show thesis by simp
qed

text \<open>Mounting: a device that already carries this configuration is left alone.\<close>

lemma init_reads:
  assumes wf: "wf_config c" and cap: "unat (end_address c) \<le> cap"
  obtains d' where "mem d' = mem d" "bd_read (fs_on bd d c) (start_address c) (replicate 512 0)
      = Some (0, block_at (mem d) (unat (start_address c)), fs_on bd d' c)"
proof -
  have "unat (start_address c) + 512 \<le> data_start c" by (simp add: data_start_def)
  then have fit: "unat (start_address c) + length (replicate 512 (0 :: byte)) \<le> cap"
    using wf cap by (simp add: wf_config_def)
  have al: "512 dvd unat (start_address c)" using wf by (simp add: wf_config_def)
  have dl: "512 dvd length (replicate 512 (0 :: byte))" by simp
  obtain d' where "dev_read bd (start_address c) (replicate 512 0) d
      = (0, map (mem d) [unat (start_address c) ..< unat (start_address c) + length (replicate 512 (0 :: byte))], d')"
    and m: "mem d' = mem d"
    by (rule read_reliable [OF al dl fit, of d]) (rule that)
  then have "bd_read (fs_on bd d c) (start_address c) (replicate 512 0)
      = Some (0, block_at (mem d) (unat (start_address c)), fs_on bd d' c)"
    by (simp add: bd_read_def fs_on_def block_at_def)
  with m show thesis by (rule that)
qed

lemma mount_ok:
  assumes wf: "wf_config c" and cap: "unat (end_address c) \<le> cap"
  shows "\<exists>d'. sfs_init bd d c = Some (Result_Success, fs_on bd d' c)
    \<and> (if config_of_bytes (block_at (mem d) (unat (start_address c))) = c then mem d' = mem d
       else config_of_bytes (block_at (mem d') (unat (start_address c))) = c
         \<and> (\<forall>j < slots_of c. stored_file (mem d') c j = None \<and> wf_slot (mem d') c j))"
proof -
  obtain d1 where m: "mem d1 = mem d" and rd: "bd_read (fs_on bd d c) (start_address c) (replicate 512 0)
      = Some (0, block_at (mem d) (unat (start_address c)), fs_on bd d1 c)"
    using init_reads [OF wf cap] .
  obtain d2 where f: "sfs_format (fs_on bd d1 c) = Some (Result_Success, fs_on bd d1 c\<lparr>dev := d2\<rparr>)"
    "\<forall>j < slots_of c. slot_formatted (mem d2) c j" "config_of_bytes (block_at (mem d2) (unat (start_address c))) = c"
    by (rule format_ok [OF fs_on_ready [OF wf cap, of bd d1], simplified]) (rule that)
  have e: "fs_on bd d1 c\<lparr>dev := d2\<rparr> = fs_on bd d2 c" by (simp add: fs_on_def)
  have i: "sfs_init bd d c = (if config_of_bytes (block_at (mem d) (unat (start_address c))) \<noteq> c
      then sfs_format (fs_on bd d1 c) else Some (Result_Success, fs_on bd d1 c))"
    using rd by (simp add: sfs_init_def fs_on_def)
  show ?thesis
  proof (cases "config_of_bytes (block_at (mem d) (unat (start_address c))) = c")
    case True
    then show ?thesis using i m by (intro exI [of _ d1]) simp
  next
    case False
    then show ?thesis using i f(1,3) slot_formatted_empty f(2) unfolding e by (intro exI [of _ d2]) simp
  qed
qed

end

section \<open>A write session\<close>

text \<open>The client's loop: write the chunks one after another, stop at the first error.\<close>

fun write_chunks :: "'d slotfs \<Rightarrow> sfs_file \<Rightarrow> byte list list \<Rightarrow> (result \<times> 'd slotfs \<times> sfs_file) option" where
  "write_chunks s f [] = Some (Result_Success, s, f)"
| "write_chunks s f (ch # chs) = do {
     (rc, s, f, n) \<leftarrow> sfs_file_write s f ch;
     if rc \<noteq> Result_Success then Some (rc, s, f) else write_chunks s f chs
   }"

context reliable_device
begin

lemma write_chunks_ok:
  assumes "writing mem bd cap s f L" "length L + length (concat chs) \<le> slot_bytes (config s)"
  shows "\<exists>d' f'. write_chunks s f chs = Some (Result_Success, s\<lparr>dev := d'\<rparr>, f')
     \<and> writing mem bd cap (s\<lparr>dev := d'\<rparr>) f' (L @ concat chs) \<and> slot f' = slot f
     \<and> revision (md f') = revision (md f) + of_nat (full_pages (L @ concat chs) - full_pages L)
     \<and> outside_unchanged (config s) (unat (slot f)) (mem (dev s)) (mem d')"
  using assms
proof (induction chs arbitrary: s f L)
  case Nil
  then show ?case by (intro exI [of _ "dev s"] exI [of _ f]) simp
next
  case (Cons ch chs)
  have fit: "length L + length ch \<le> slot_bytes (config s)" using Cons.prems by simp
  obtain d' f' where w: "sfs_file_write s f ch = Some (Result_Success, s\<lparr>dev := d'\<rparr>, f', length ch)"
    and inv: "writing mem bd cap (s\<lparr>dev := d'\<rparr>) f' (L @ ch)" and sl: "slot f' = slot f"
    and rev: "revision (md f') = revision (md f) + of_nat (full_pages (L @ ch) - full_pages L)"
    and out: "outside_unchanged (config s) (unat (slot f)) (mem (dev s)) (mem d')"
    using sfs_file_write_ok [OF Cons.prems(1) fit] .
  obtain d'' f'' where IH: "write_chunks (s\<lparr>dev := d'\<rparr>) f' chs = Some (Result_Success, s\<lparr>dev := d''\<rparr>, f'')"
    "writing mem bd cap (s\<lparr>dev := d''\<rparr>) f'' ((L @ ch) @ concat chs)" "slot f'' = slot f"
    "revision (md f'') = revision (md f') + of_nat (full_pages ((L @ ch) @ concat chs) - full_pages (L @ ch))"
    "outside_unchanged (config s) (unat (slot f)) (mem d') (mem d'')"
    using Cons.IH [OF inv] Cons.prems(2) sl by auto
  have mono: "full_pages L \<le> full_pages (L @ ch)" "full_pages (L @ ch) \<le> full_pages ((L @ ch) @ concat chs)"
    by (intro div_le_mono, simp)+
  have "revision (md f'') = revision (md f) + of_nat (full_pages ((L @ ch) @ concat chs) - full_pages L)"
    unfolding IH(4) rev add.assoc of_nat_add [symmetric] using mono by simp
  then show ?case
    using w IH(1-3) outside_unchanged_trans [OF out IH(5)] by (intro exI [of _ d''] exI [of _ f'']) simp
qed

text \<open>The whole session, from the free slot to the published file.\<close>

lemma write_session:
  assumes rdy: "fs_ready bd cap s" and sl: "unat sl < slots_of (config s)" and al: "2048 dvd slot_bytes (config s)"
    and free: "lock_counter s sl = Some 0" and fit: "length (concat chs) \<le> slot_bytes (config s)"
  shows "\<exists>s1 f1 s2 f2 d. sfs_file_open s sl Mode_WriteCreate zero_file = Some (Result_Success, s1, f1)
     \<and> write_chunks s1 f1 chs = Some (Result_Success, s2, f2)
     \<and> sfs_file_close s2 f2 = Some (Result_Success, set_lock_counter (s\<lparr>dev := d\<rparr>) sl 0, zero_file)
     \<and> stored_file (mem d) (config s) (unat sl)
         = (if 256 dvd full_pages (concat chs) + 2 then None else Some (concat chs))
     \<and> wf_slot (mem d) (config s) (unat sl) \<and> committed (mem d) (config s) (unat sl) \<noteq> None
     \<and> outside_unchanged (config s) (unat sl) (mem (dev s)) (mem d)"
proof -
  have cl: "\<not> sfs_file_opened zero_file" by (simp add: sfs_file_opened_def zero_file_def)
  obtain d1 f1 where o: "sfs_file_open s sl Mode_WriteCreate zero_file = Some (Result_Success, set_lock_counter (s\<lparr>dev := d1\<rparr>) sl 1, f1)"
    and w1: "writing mem bd cap (s\<lparr>dev := d1\<rparr>) f1 []" and s1: "slot f1 = sl" and r1: "revision (md f1) = 1"
    and out1: "outside_unchanged (config s) (unat sl) (mem (dev s)) (mem d1)"
    using open_write_ok [OF rdy sl al free cl] .
  let ?s1 = "set_lock_counter (s\<lparr>dev := d1\<rparr>) sl 1"
  have w1': "writing mem bd cap ?s1 f1 []" using w1 by simp
  obtain d2 f2 where wr: "write_chunks ?s1 f1 chs = Some (Result_Success, ?s1\<lparr>dev := d2\<rparr>, f2)"
    and w2: "writing mem bd cap (?s1\<lparr>dev := d2\<rparr>) f2 (concat chs)" and s2: "slot f2 = sl"
    and r2: "revision (md f2) = 1 + of_nat (full_pages (concat chs))"
    and out2: "outside_unchanged (config s) (unat sl) (mem d1) (mem d2)"
    using write_chunks_ok [OF w1', of chs] fit s1 r1 by auto
  have lk: "lock_counter (?s1\<lparr>dev := d2\<rparr>) (slot f2) = Some 1" unfolding s2 using free by simp
  obtain d3 where c: "sfs_file_close (?s1\<lparr>dev := d2\<rparr>) f2 =
       Some (Result_Success, set_lock_counter (?s1\<lparr>dev := d2\<rparr>\<lparr>dev := d3\<rparr>) (slot f2) (1 - 1), zero_file)"
    and st: "stored_file (mem d3) (config s) (unat sl) = (if revision (md f2) + 1 = 0 then None else Some (concat chs))"
    and wf: "wf_slot (mem d3) (config s) (unat sl)" and cm: "committed (mem d3) (config s) (unat sl) \<noteq> None"
    and out3: "outside_unchanged (config s) (unat sl) (mem d2) (mem d3)"
    using close_write_ok [OF w2 lk] s2 by auto
  have "revision (md f2) + 1 = (of_nat (full_pages (concat chs) + 2) :: byte)" unfolding r2 by simp
  then have rv: "revision (md f2) + 1 = 0 \<longleftrightarrow> 256 dvd full_pages (concat chs) + 2"
    by (simp only: word_of_nat_eq_0_iff) simp
  have cc: "sfs_file_close (?s1\<lparr>dev := d2\<rparr>) f2 = Some (Result_Success, set_lock_counter (s\<lparr>dev := d3\<rparr>) sl 0, zero_file)"
    using c by (simp add: s2)
  show ?thesis
    using o wr cc st wf cm outside_unchanged_trans [OF outside_unchanged_trans [OF out1 out2] out3] unfolding rv
    by blast
qed

end

context readable_device
begin

lemma read_session:
  assumes rdy: "fs_ready bd cap s" and sl: "unat sl < slots_of (config s)" and al: "2048 dvd slot_bytes (config s)"
    and st: "stored_file (mem (dev s)) (config s) (unat sl) = Some L" and wf: "wf_slot (mem (dev s)) (config s) (unat sl)"
    and pos: "unat pos < length L"
  shows "\<exists>s4 f4 f5 d f6. sfs_file_open s sl Mode_Read zero_file = Some (Result_Success, s4, f4)
    \<and> sfs_file_seek s4 f4 pos = (Result_Success, f5)
    \<and> sfs_file_read s4 f5 n = Some (if unat pos + n \<le> length L then Result_Success else Result_Success_Eof,
                                     s4\<lparr>dev := d\<rparr>, f6, take n (drop (unat pos) L))
    \<and> sfs_file_close (s4\<lparr>dev := d\<rparr>) f6 = Some (Result_Success, s\<lparr>dev := d\<rparr>, zero_file) \<and> mem d = mem (dev s)"
proof -
  have cl: "\<not> sfs_file_opened zero_file" by (simp add: sfs_file_opened_def zero_file_def)
  obtain v where v: "lock_counter s sl = Some v" using lock_counter_ready [OF rdy sl] .
  obtain d1 f4 where o: "sfs_file_open s sl Mode_Read zero_file = Some (Result_Success, set_lock_counter (s\<lparr>dev := d1\<rparr>) sl (v + 1), f4)"
    and r4: "reading mem bd cap (s\<lparr>dev := d1\<rparr>) f4 L 0" and s4: "slot f4 = sl" and m1: "mem d1 = mem (dev s)"
    using open_read_ok [OF rdy sl al v cl st wf] .
  let ?s4 = "set_lock_counter (s\<lparr>dev := d1\<rparr>) sl (v + 1)"
  have r4': "reading mem bd cap ?s4 f4 L 0" using r4 by (simp add: reading_def read_base_def)
  obtain f5 where sk: "sfs_file_seek ?s4 f4 pos = (Result_Success, f5)"
    and r5: "reading mem bd cap ?s4 f5 L (unat pos)" and s5: "slot f5 = sl"
    using seek_ok [OF r4' pos] s4 by metis
  obtain d f6 where rd: "sfs_file_read ?s4 f5 n = Some (if unat pos + n \<le> length L then Result_Success else Result_Success_Eof,
                                     ?s4\<lparr>dev := d\<rparr>, f6, take n (drop (unat pos) L))"
    and r6: "reading mem bd cap (?s4\<lparr>dev := d\<rparr>) f6 L (min (unat pos + n) (length L))" and s6: "slot f6 = sl"
    and m: "mem d = mem (dev ?s4)"
    using sfs_file_read_ok [OF r5] s5 by metis
  have "lock_counter (?s4\<lparr>dev := d\<rparr>) (slot f6) = Some (v + 1)" using v s6 by simp
  from close_read_ok [OF r6 this] have "sfs_file_close (?s4\<lparr>dev := d\<rparr>) f6 = Some (Result_Success, set_lock_counter (s\<lparr>dev := d\<rparr>) sl v, zero_file)"
    by (simp add: s6)
  moreover have "set_lock_counter (s\<lparr>dev := d\<rparr>) sl v = s\<lparr>dev := d\<rparr>"
    using v by (simp add: set_lock_counter_def lock_counter_def list_update_same_conv split: if_splits)
  moreover have "mem d = mem (dev s)" using m m1 by simp
  ultimately show ?thesis using o sk rd by metis
qed

end

text \<open>
  C1: a file written in any number of chunks on a free slot of a reliable device, closed and
  opened again for reading, gives back exactly the bytes written: every call returns, with
  \<^verbatim>\<open>Result_Success\<close>, and a read of \<open>n\<close> bytes at any position yields the bytes there, with
  \<^verbatim>\<open>Result_Success_Eof\<close> exactly when it runs over the end. (The side condition on 256 is the
  revision byte: see the property on its wrap-around.)
\<close>

theorem slotfs_roundtrip:
  assumes dev: "reliable_device bd mem cap" and rdy: "fs_ready bd cap s"
    and sl: "unat sl < slots_of (config s)" and al: "2048 dvd slot_bytes (config s)"
    and free: "lock_counter s sl = Some 0" and fit: "length (concat chs) \<le> slot_bytes (config s)"
    and rev: "\<not> 256 dvd length (concat chs) div 2048 + 2" and pos: "unat pos < length (concat chs)"
  shows "\<exists>s1 f1 s2 f2 s3 s4 f4 f5 s6 f6.
      sfs_file_open s sl Mode_WriteCreate zero_file = Some (Result_Success, s1, f1)
    \<and> write_chunks s1 f1 chs = Some (Result_Success, s2, f2)
    \<and> sfs_file_close s2 f2 = Some (Result_Success, s3, zero_file)
    \<and> sfs_file_open s3 sl Mode_Read zero_file = Some (Result_Success, s4, f4)
    \<and> sfs_file_seek s4 f4 pos = (Result_Success, f5)
    \<and> sfs_file_read s4 f5 n = Some (if unat pos + n \<le> length (concat chs) then Result_Success else Result_Success_Eof,
                                     s6, f6, take n (drop (unat pos) (concat chs)))"
proof -
  obtain s1 f1 s2 f2 d where w: "sfs_file_open s sl Mode_WriteCreate zero_file = Some (Result_Success, s1, f1)"
    "write_chunks s1 f1 chs = Some (Result_Success, s2, f2)"
    "sfs_file_close s2 f2 = Some (Result_Success, set_lock_counter (s\<lparr>dev := d\<rparr>) sl 0, zero_file)"
    and st: "stored_file (mem d) (config s) (unat sl) = Some (concat chs)" "wf_slot (mem d) (config s) (unat sl)"
    using reliable_device.write_session [OF dev rdy sl al free fit] rev by auto
  let ?s3 = "set_lock_counter (s\<lparr>dev := d\<rparr>) sl 0"
  have "fs_ready bd cap ?s3" "unat sl < slots_of (config ?s3)" "2048 dvd slot_bytes (config ?s3)"
    "stored_file (mem (dev ?s3)) (config ?s3) (unat sl) = Some (concat chs)" "wf_slot (mem (dev ?s3)) (config ?s3) (unat sl)"
    using rdy sl al st by simp_all
  from readable_device.read_session [OF reliable_device.axioms(1) [OF dev] this pos, of n] show ?thesis
    using w by blast
qed

theorem slotfs_roundtrip_witness:
  "\<exists>s1 f1 s2 f2 s3 s4 f4 f5 s6 f6.
      sfs_file_open (fs_on (ram_device 6656) (\<lambda>_. 0) demo_config) 1 Mode_WriteCreate zero_file = Some (Result_Success, s1, f1)
    \<and> write_chunks s1 f1 [[1, 2], [3]] = Some (Result_Success, s2, f2)
    \<and> sfs_file_close s2 f2 = Some (Result_Success, s3, zero_file)
    \<and> sfs_file_open s3 1 Mode_Read zero_file = Some (Result_Success, s4, f4)
    \<and> sfs_file_seek s4 f4 1 = (Result_Success, f5)
    \<and> sfs_file_read s4 f5 9 = Some (Result_Success_Eof, s6, f6, [2, 3])"
  using slotfs_roundtrip [OF ram.reliable_device_axioms [of 6656] fs_on_ready [of demo_config 6656 "ram_device 6656" "\<lambda>_. 0"], of 1 "[[1, 2], [3]]" 1 9]
  by (simp add: demo_layout fs_on_lock)

text \<open>
  Pages are written whole, so the last page of a slot whose size is not a multiple of the page
  size runs into the next slot: the bytes behind the slot's end are then those of the page.
\<close>

lemma last_page_leaves_slot:
  assumes dev: "readable_device bd mem cap" and rdy: "fs_ready bd cap s" and f: "in_slot (config s) f"
    and p: "file_page f = Some p" "page_ok p" and w: "write_page s f = Some (0, s')"
    and last: "slot_bytes (config s) div 2048 * 2048 \<le> unat (file_cursor f)"
    and j: "slot_bytes (config s) mod 2048 + j < 2048"
  shows "mem (dev s') (slot_begin (config s) (unat (slot f)) + slot_bytes (config s) + j)
    = page_data p ! (slot_bytes (config s) mod 2048 + j)"
proof -
  let ?b = "slot_begin (config s) (unat (slot f))" and ?n = "slot_bytes (config s)"
  have "unat (file_cursor f) \<le> ?n" using f by (simp add: in_slot_def)
  then have "unat (file_cursor f) div 2048 \<le> ?n div 2048" by (rule div_le_mono)
  moreover have "?n div 2048 \<le> unat (file_cursor f) div 2048" using div_le_mono [OF last, of 2048] by simp
  ultimately have "unat (file_cursor f) div 2048 = ?n div 2048" by (rule antisym)
  moreover have "?n = ?n div 2048 * 2048 + ?n mod 2048" by simp
  ultimately have a: "?b + unat (file_cursor f) div 2048 * 2048 + (?n mod 2048 + j) = ?b + ?n + j" by linarith
  obtain rc d' where e: "write_page s f = Some (rc, s\<lparr>dev := d'\<rparr>)"
    and d: "\<And>j. rc = 0 \<Longrightarrow> j < 2048 \<Longrightarrow> mem d' (?b + unat (file_cursor f) div 2048 * 2048 + j) = page_data p ! j"
    by (rule block_device.write_page_effect [OF readable_device.axioms(1) [OF dev] rdy f p]) (rule that)
  from e w have "s' = s\<lparr>dev := d'\<rparr>" "rc = 0" by auto
  then show ?thesis using d [of "?n mod 2048 + j"] j unfolding a by simp
qed

text \<open>
  C11: a write session refines the update of one entry of the map from slots to files: the files
  of all other slots, the configuration and the lock counters are as before. The entry is the
  data written, except that a file whose number of full pages is 254 modulo 256 is lost: its
  last flush leaves the revision byte at zero, which marks an empty slot. This is for a slot of
  the configuration that nobody has open, data that fit into it, a device whose calls succeed,
  and a slot size that is a multiple of 2048, the size of a page: otherwise the last page of the
  slot is written over the beginning of the next one (\<open>last_page_leaves_slot\<close>).
\<close>

theorem write_session_refines:
  assumes dev: "reliable_device bd mem cap" and rdy: "fs_ready bd cap s"
    and sl: "unat sl < slots_of (config s)" and al: "2048 dvd slot_bytes (config s)"
    and free: "lock_counter s sl = Some 0" and fit: "length (concat chs) \<le> slot_bytes (config s)"
    and wf: "\<forall>j < slots_of (config s). wf_slot (mem (dev s)) (config s) j"
  shows "\<exists>s1 f1 s2 f2 s3. sfs_file_open s sl Mode_WriteCreate zero_file = Some (Result_Success, s1, f1)
    \<and> write_chunks s1 f1 chs = Some (Result_Success, s2, f2)
    \<and> sfs_file_close s2 f2 = Some (Result_Success, s3, zero_file)
    \<and> config s3 = config s \<and> lock_counters s3 = lock_counters s
    \<and> (\<forall>j < slots_of (config s). wf_slot (mem (dev s3)) (config s) j
         \<and> stored_file (mem (dev s3)) (config s) j =
             (if j \<noteq> unat sl then stored_file (mem (dev s)) (config s) j
              else if (length (concat chs) div 2048) mod 256 = 254 then None else Some (concat chs)))"
proof -
  obtain s1 f1 s2 f2 d where w: "sfs_file_open s sl Mode_WriteCreate zero_file = Some (Result_Success, s1, f1)"
    "write_chunks s1 f1 chs = Some (Result_Success, s2, f2)"
    "sfs_file_close s2 f2 = Some (Result_Success, set_lock_counter (s\<lparr>dev := d\<rparr>) sl 0, zero_file)"
    and st: "stored_file (mem d) (config s) (unat sl) = (if 256 dvd full_pages (concat chs) + 2 then None else Some (concat chs))"
    "wf_slot (mem d) (config s) (unat sl)" and out: "outside_unchanged (config s) (unat sl) (mem (dev s)) (mem d)"
    using reliable_device.write_session [OF dev rdy sl al free fit] by blast
  have lk: "lock_counters (set_lock_counter (s\<lparr>dev := d\<rparr>) sl 0) = lock_counters s"
    using free by (simp add: set_lock_counter_def lock_counter_def list_update_same_conv split: if_splits)
  have r: "256 dvd full_pages (concat chs) + 2 \<longleftrightarrow> full_pages (concat chs) mod 256 = 254"
    by (rule dvd_256_iff)
  have "wf_slot (mem d) (config s) j \<and> stored_file (mem d) (config s) j =
      (if j \<noteq> unat sl then stored_file (mem (dev s)) (config s) j
       else if full_pages (concat chs) mod 256 = 254 then None else Some (concat chs))" if "j < slots_of (config s)" for j
    using stored_file_other [OF fs_ready_wf [OF rdy] sl that _ out] wf st that unfolding r
    by (cases "j = unat sl") auto
  then show ?thesis
    using w lk by (intro exI [of _ s1] exI [of _ f1] exI [of _ s2] exI [of _ f2] exI [of _ "set_lock_counter (s\<lparr>dev := d\<rparr>) sl 0"]) simp
qed

lemma ram_fresh:
  assumes "wf_config c" "unat (end_address c) \<le> n"
  obtains d where "\<forall>j < slots_of c. stored_file d c j = None \<and> wf_slot d c j"
proof -
  obtain d where "\<forall>j < slots_of c. slot_formatted d c j"
    by (rule ram.format_ok [OF fs_on_ready [OF assms, of "ram_device n" "\<lambda>_. 0"]]) (rule that, simp)
  then show thesis by (intro that [of d]) (simp add: slot_formatted_empty)
qed

theorem write_session_refines_witness:
  "\<exists>d s1 f1 s2 f2 s3. sfs_file_open (fs_on (ram_device 6656) d demo_config) 1 Mode_WriteCreate zero_file = Some (Result_Success, s1, f1)
    \<and> write_chunks s1 f1 [[1, 2], [3]] = Some (Result_Success, s2, f2)
    \<and> sfs_file_close s2 f2 = Some (Result_Success, s3, zero_file)
    \<and> (\<forall>j < 2. stored_file (dev s3) demo_config j = (if j = 1 then Some [1, 2, 3] else None))"
proof -
  obtain d where d: "\<forall>j < slots_of demo_config. stored_file d demo_config j = None \<and> wf_slot d demo_config j"
    by (rule ram_fresh [of demo_config 6656]) (simp_all add: demo_layout)
  let ?s = "fs_on (ram_device 6656) d demo_config"
  have p: "fs_ready (ram_device 6656) 6656 ?s" "unat (1 :: u64) < slots_of (config ?s)" "2048 dvd slot_bytes (config ?s)"
    "lock_counter ?s 1 = Some 0" "length (concat [[1, 2], [3 :: byte]]) \<le> slot_bytes (config ?s)"
    "\<forall>j < slots_of (config ?s). wf_slot (dev ?s) (config ?s) j"
    using d by (simp_all add: demo_layout fs_on_ready fs_on_lock)
  obtain s1 f1 s2 f2 s3 where r: "sfs_file_open ?s 1 Mode_WriteCreate zero_file = Some (Result_Success, s1, f1)"
    "write_chunks s1 f1 [[1, 2], [3]] = Some (Result_Success, s2, f2)"
    "sfs_file_close s2 f2 = Some (Result_Success, s3, zero_file)"
    and st: "\<forall>j < slots_of (config ?s). wf_slot (dev s3) (config ?s) j \<and> stored_file (dev s3) (config ?s) j =
       (if j \<noteq> unat (1 :: u64) then stored_file (dev ?s) (config ?s) j
        else if (length (concat [[1, 2], [3 :: byte]]) div 2048) mod 256 = 254 then None else Some (concat [[1, 2], [3]]))"
    using write_session_refines [OF ram.reliable_device_axioms p] by blast
  have "\<forall>j < 2. stored_file (dev s3) demo_config j = (if j = 1 then Some [1, 2, 3] else None)"
    using st d by (simp add: demo_layout)
  with r show ?thesis by blast
qed

text \<open>
  C17: a session on a device whose reads succeed (its writes may fail): opening a slot that holds
  a file, seeking and reading returns the bytes of the file, closing frees the slot again, and
  nothing on the device changes.
\<close>

theorem read_session_refines:
  assumes dev: "readable_device bd mem cap" and rdy: "fs_ready bd cap s"
    and sl: "unat sl < slots_of (config s)" and al: "2048 dvd slot_bytes (config s)"
    and st: "stored_file (mem (dev s)) (config s) (unat sl) = Some L" and wf: "wf_slot (mem (dev s)) (config s) (unat sl)"
    and pos: "unat pos < length L"
  shows "\<exists>s4 f4 f5 d f6. sfs_file_open s sl Mode_Read zero_file = Some (Result_Success, s4, f4)
    \<and> sfs_file_seek s4 f4 pos = (Result_Success, f5)
    \<and> sfs_file_read s4 f5 n = Some (if unat pos + n \<le> length L then Result_Success else Result_Success_Eof,
                                     s4\<lparr>dev := d\<rparr>, f6, take n (drop (unat pos) L))
    \<and> sfs_file_close (s4\<lparr>dev := d\<rparr>) f6 = Some (Result_Success, s\<lparr>dev := d\<rparr>, zero_file) \<and> mem d = mem (dev s)"
  by (rule readable_device.read_session [OF assms])

lemma ram_written:
  fixes sl :: u64
  assumes wf: "wf_config c" "unat (end_address c) \<le> n" and sl: "unat sl < slots_of c" and al: "2048 dvd slot_bytes c"
    and fit: "length L \<le> slot_bytes c" and r: "\<not> 256 dvd full_pages L + 2"
  obtains d where "stored_file d c (unat sl) = Some L" "wf_slot d c (unat sl)"
proof -
  have "unat sl < 128" using sl wf by (simp add: wf_config_def)
  from ram.write_session [OF fs_on_ready [OF wf, of "ram_device n" "\<lambda>_. 0"] _ _ fs_on_lock [OF this], of "[L]"] sl al fit r that
  show thesis by auto
qed

theorem read_session_refines_witness:
  "\<exists>d s4 f4 f5 d' f6. sfs_file_open (fs_on (ram_device 6656) d demo_config) 0 Mode_Read zero_file = Some (Result_Success, s4, f4)
    \<and> sfs_file_seek s4 f4 2 = (Result_Success, f5)
    \<and> sfs_file_read s4 f5 1 = Some (Result_Success, s4\<lparr>dev := d'\<rparr>, f6, [9])
    \<and> sfs_file_close (s4\<lparr>dev := d'\<rparr>) f6 = Some (Result_Success, fs_on (ram_device 6656) d demo_config\<lparr>dev := d'\<rparr>, zero_file) \<and> d' = d"
proof -
  obtain d where d: "stored_file d demo_config (unat (0 :: u64)) = Some [7, 8, 9]" "wf_slot d demo_config (unat (0 :: u64))"
    by (rule ram_written [of demo_config 6656 0 "[7, 8, 9]"]) (simp_all add: demo_layout)
  show ?thesis
    using read_session_refines [OF ram.readable_device_axioms [of 6656] fs_on_ready [of demo_config 6656 "ram_device 6656" d],
        of 0 "[7, 8, 9]" 2 1] d
    by (simp add: demo_layout) metis
qed

section \<open>Mounting\<close>

text \<open>
  mounting a device with a well-formed configuration succeeds. If the device already carries
  that configuration nothing on it changes, so all files persist; otherwise it is formatted:
  every slot is empty, and the next mount finds the configuration.
\<close>

theorem sfs_init_mounts:
  assumes dev: "reliable_device bd mem cap" and wf: "wf_config c" and cap: "unat (end_address c) \<le> cap"
  shows "\<exists>d'. sfs_init bd d c = Some (Result_Success, fs_on bd d' c)
    \<and> (if config_of_bytes (block_at (mem d) (unat (start_address c))) = c then mem d' = mem d
       else config_of_bytes (block_at (mem d') (unat (start_address c))) = c
         \<and> (\<forall>j < slots_of c. stored_file (mem d') c j = None \<and> wf_slot (mem d') c j))"
  by (rule reliable_device.mount_ok [OF assms])

theorem sfs_init_mounts_witness:
  "\<exists>d'. sfs_init (ram_device 6656) (\<lambda>_. 0) demo_config = Some (Result_Success, fs_on (ram_device 6656) d' demo_config)
    \<and> stored_file d' demo_config 1 = None"
proof -
  have "config_of_bytes (block_at (\<lambda>_. 0) 0) \<noteq> demo_config"
    by (simp add: config_of_bytes_def block_at_def slice_def demo_config_def upt_rec numeral_eq_Suc)
  moreover have "start_address demo_config = 0" by (simp add: demo_config_def)
  ultimately show ?thesis
    using sfs_init_mounts [OF ram.reliable_device_axioms [of 6656], of demo_config "\<lambda>_. 0"] by (auto simp: demo_layout)
qed

end
