(* ===== verification/SlotFS_Safety.thy ===== *)
theory SlotFS_Safety
  imports SlotFS_Props
begin

text \<open>
  What holds of the slot file system when something goes wrong: torn writes, exhausted slots,
  locked slots, the wrap-around of the revision byte, and two checks that are off by one.
\<close>

unbundle bit_operations_syntax

section \<open>Layout and choice of the metadata block\<close>

lemma init_fresh: "wf_config c \<Longrightarrow> unat i < slots_of c \<Longrightarrow> init_meta_data_block c i = Some (fresh_md c (unat i))"
  by (simp only: init_md_layout fresh_md_def)

lemma fresh_md_bounds:
  assumes wf: "wf_config c" and i: "i < slots_of c"
  shows "unat (md_start_address (fresh_md c i)) = slot_begin c i"
    and "unat (max_address (fresh_md c i)) = slot_begin c i + slot_bytes c"
proof -
  have "slot_begin c i + slot_bytes c < 2 ^ 64"
    using slot_end [OF wf i] unat_u64_less [of "end_address c"] by (simp del: unat_u64_less)
  then have "unat (of_nat (slot_begin c i + slot_bytes c) :: u64) = slot_begin c i + slot_bytes c"
    "unat (of_nat (slot_begin c i) :: u64) = slot_begin c i"
    by (intro unat_of_nat_u64; simp)+
  then show "unat (md_start_address (fresh_md c i)) = slot_begin c i"
    "unat (max_address (fresh_md c i)) = slot_begin c i + slot_bytes c"
    by (simp_all add: fresh_md_def del: of_nat_add)
qed

text \<open>
  C26: the regions \<^verbatim>\<open>init_meta_data_block\<close> assigns to the slots of a well-formed configuration are
  aligned to blocks, pairwise disjoint and in order, behind the metadata table and before the
  end of the file system; none of the word arithmetic wraps.
\<close>

theorem slot_layout:
  assumes wf: "wf_config c" and ij: "i < j" "unat j < slots_of c"
  shows "\<exists>a b. init_meta_data_block c i = Some a \<and> init_meta_data_block c j = Some b
     \<and> unat (start_address c) + 512 * (1 + 2 * unat (slot_count c)) \<le> unat (md_start_address a)
     \<and> unat (max_address a) = unat (md_start_address a) + slot_bytes c
     \<and> unat (max_address a) \<le> unat (md_start_address b)
     \<and> unat (max_address b) = unat (md_start_address b) + slot_bytes c
     \<and> unat (max_address b) \<le> unat (end_address c)
     \<and> 512 dvd unat (md_start_address a) \<and> 512 dvd unat (md_start_address b) \<and> 512 dvd slot_bytes c"
proof -
  have i: "unat i < slots_of c" "unat i < unat j" using ij by (simp_all add: word_less_nat_alt)
  have "Suc (unat i) * slot_bytes c \<le> unat j * slot_bytes c" using i(2) by (intro mult_le_mono1) simp
  then have le: "slot_begin c (unat i) + slot_bytes c \<le> slot_begin c (unat j)"
    by (simp add: slot_begin_def mult.commute)
  have ds: "unat (start_address c) + 512 * (1 + 2 * unat (slot_count c)) \<le> slot_begin c (unat i)"
    by (simp add: slot_begin_def data_start_def slots_of_def)
  note b = fresh_md_bounds [OF wf i(1)] fresh_md_bounds [OF wf ij(2)]
  show ?thesis
    by (rule exI, rule exI, rule conjI [OF init_fresh [OF wf i(1)] conjI [OF init_fresh [OF wf ij(2)]]])
      (unfold b, use ds le slot_end [OF wf ij(2)] slot_begin_aligned [OF wf] in \<open>simp add: slot_bytes_def\<close>)
qed

theorem slot_layout_witness:
  "\<exists>a b. init_meta_data_block demo_config 0 = Some a \<and> init_meta_data_block demo_config 1 = Some b
     \<and> unat (max_address a) \<le> unat (md_start_address b) \<and> unat (max_address b) \<le> unat (end_address demo_config)"
  using slot_layout [of demo_config 0 1] by (auto simp: demo_layout)

text \<open>
  of two valid metadata blocks with consecutive revisions the newer one is picked, also where
  the revision byte wraps from 255 to 0; of one valid block, that one; of none, an error.
\<close>

theorem most_recent_picks_newer:
  assumes "revision b = revision a + 1"
  shows "most_recent_meta_data_block a True b True = (Result_Success, Some 1)
    \<and> most_recent_meta_data_block b True a True = (Result_Success, Some 0)
    \<and> most_recent_meta_data_block a True b False = (Result_Success, Some 0)
    \<and> most_recent_meta_data_block a False b True = (Result_Success, Some 1)
    \<and> most_recent_meta_data_block a False b False = (Result_Error_CorruptData, None)"
  using newer_idx_succ [of "revision a"] assms
  by (auto simp: most_recent_meta_data_block_def newer_idx_def split: if_splits)

theorem most_recent_picks_newer_witness:
  "most_recent_meta_data_block (zero_md\<lparr>revision := 255\<rparr>) True zero_md True = (Result_Success, Some 1)"
  using most_recent_picks_newer [of zero_md "zero_md\<lparr>revision := 255\<rparr>"] by (simp add: zero_md_def)

section \<open>A flush that is interrupted\<close>

text \<open>Two blocks that are as they were describe the version they described.\<close>

lemma committed_kept:
  assumes cm: "committed mm c i = Some (k, m)"
    and other: "disk_md mm' c i ((k + 1) mod 2) = disk_md mm c i ((k + 1) mod 2)"
    and old: "disk_md mm' c i k = disk_md mm c i k"
  shows "committed mm' c i = Some (k, m)"
proof -
  from committed_Some_disk(1) [OF cm] consider "k = 0" | "k = 1" by linarith
  then have "disk_md mm' c i 0 = disk_md mm c i 0 \<and> disk_md mm' c i 1 = disk_md mm c i 1"
    using other old by cases (simp_all add: numeral_2_eq_2)
  then show ?thesis using cm by (simp add: committed_def)
qed



section \<open>Locked and full slots\<close>

definition same_mount :: "'d slotfs \<Rightarrow> 'd slotfs \<Rightarrow> bool" where
  "same_mount s s' \<longleftrightarrow> config s' = config s \<and> lock_counters s' = lock_counters s \<and> block_device s' = block_device s"

lemma same_mount_trans: "same_mount s s' \<Longrightarrow> same_mount s' s'' \<Longrightarrow> same_mount s s''"
  by (simp add: same_mount_def)

lemma write_md_keeps: "write_meta_data_block s sl m k = Some (rc, s') \<Longrightarrow> same_mount s s'"
  by (auto simp: same_mount_def write_meta_data_block_def bd_write_def split: if_splits option.splits prod.splits bind_splits)

lemma read_md_keeps: "read_meta_data_block s sl m k = Some (rc, m', s') \<Longrightarrow> same_mount s s'"
  by (auto simp: same_mount_def read_meta_data_block_def bd_read_def split: if_splits option.splits prod.splits bind_splits)

lemma read_most_recent_keeps:
  assumes "read_most_recent s sl = Some (rc, idx, a, b, s')"
  shows "same_mount s s'"
proof -
  obtain r1 a1 s1 r2 b2 s2 where "read_meta_data_block s sl zero_md 0 = Some (r1, a1, s1)"
    "read_meta_data_block s1 sl zero_md 1 = Some (r2, b2, s2)" "s' = s2"
    using assms by (auto simp: read_most_recent_def split: prod.splits bind_splits)
  then show ?thesis using same_mount_trans [OF read_md_keeps read_md_keeps] by metis
qed

lemma open_finish_success:
  assumes "open_finish s1 sl m f1 = Some (rc, s', f)" "same_mount s s1"
  shows "\<exists>v. lock_counter s sl = Some v \<and> lock_counters s' = (lock_counters s)[unat sl := v + 1] \<and> config s' = config s"
  using assms by (auto simp: open_finish_def same_mount_def set_lock_counter_def lock_counter_def split: bind_splits if_splits)

lemma open_success:
  assumes o: "sfs_file_open s sl m f0 = Some (Result_Success, s', f)"
  shows "\<not> sl > slot_count (config s) \<and> config s' = config s
    \<and> (\<exists>v. lock_counter s sl = Some v \<and> lock_counters s' = (lock_counters s)[unat sl := v + 1])"
proof -
  have guard: "\<not> sfs_file_opened f0" "\<not> sl > slot_count (config s)"
    using o by (auto simp: sfs_file_open_def split: if_splits)
  have "\<exists>s1 f1. same_mount s s1 \<and> open_finish s1 sl m f1 = Some (Result_Success, s', f)"
  proof (cases "m = Mode_Read")
    case True
    obtain rc idx a b s1 where r: "read_most_recent s sl = Some (rc, idx, a, b, s1)"
      using o guard True by (auto simp: sfs_file_open_def split: bind_splits)
    moreover have "rc = Result_Success \<Longrightarrow> idx \<noteq> None"
      using r by (auto simp: read_most_recent_def most_recent_meta_data_block_def split: bind_splits prod.splits if_splits)
    ultimately show ?thesis
      using o guard True read_most_recent_keeps [OF r]
      by (auto simp: sfs_file_open_def Let_def split: option.splits if_splits)
  next
    case False
    then have w: "m = Mode_WriteCreate" using o guard by (auto simp: sfs_file_open_def split: if_splits)
    then show ?thesis
      using o guard
      by (auto simp: sfs_file_open_def Let_def split: bind_splits if_splits prod.splits
          dest!: write_md_keeps intro: same_mount_trans)
  qed
  then show ?thesis using open_finish_success guard by metis
qed

lemma byte_succ: "unat (v :: byte) + 1 < 256 \<Longrightarrow> unat (v + 1) = unat v + 1"
  by (simp add: unat_plus_if' )

lemma unat_eq_iff_u64: "unat (a :: u64) = unat b \<longleftrightarrow> a = b"
  by (rule word_unat_eq_iff [symmetric])

text \<open>No operation but opening and closing touches the lock counters.\<close>

lemma write_page_keeps: "write_page s f = Some (rc, s') \<Longrightarrow> same_mount s s'"
  by (auto simp: same_mount_def write_page_def bd_write_def split: if_splits option.splits prod.splits bind_splits)

lemma load_page_keeps: "load_page s f = Some (rc, s', f') \<Longrightarrow> same_mount s s'"
  by (auto simp: same_mount_def load_page_def bd_read_def split: if_splits option.splits prod.splits bind_splits)

lemma same_mount_refl [simp]: "same_mount s s"
  by (simp add: same_mount_def)

lemma flush_keeps:
  assumes "sfs_file_flush s f = Some (rc, s', f')"
  shows "same_mount s s'"
proof (cases "file_page f = None \<or> file_mode f \<noteq> Mode_WriteCreate")
  case True
  then show ?thesis using assms by (auto simp: sfs_file_flush_def split: option.splits)
next
  case False
  then obtain p where p: "file_page f = Some p" "file_mode f = Mode_WriteCreate" by auto
  obtain r1 s1 where w: "(if page_size p > 0 then write_page s f else Some (0, s)) = Some (r1, s1)"
    using assms p by (auto simp: sfs_file_flush_def split: bind_splits)
  then have s1: "same_mount s s1" by (auto split: if_splits intro: write_page_keeps)
  show ?thesis
  proof (cases "r1 = 0")
    case False
    then show ?thesis using assms p w s1 by (simp add: sfs_file_flush_def)
  next
    case True
    then obtain r2 idx a b s2 where r: "read_most_recent s1 (slot f) = Some (r2, idx, a, b, s2)"
      using assms p w by (auto simp: sfs_file_flush_def Let_def split: bind_splits)
    have s2: "same_mount s s2" by (rule same_mount_trans [OF s1 read_most_recent_keeps [OF r]])
    show ?thesis
      using assms p w True r s2 same_mount_trans [OF s2 write_md_keeps]
      by (auto simp: sfs_file_flush_def Let_def split: bind_splits option.splits)
  qed
qed

lemma write_step_keeps:
  assumes "write_step s f rest = Some (ret, s', f', n)"
  shows "same_mount s s'"
  using assms
  by (auto simp: write_step_def Let_def split: if_splits bind_splits
      dest!: write_page_keeps flush_keeps intro: same_mount_trans)

lemma write_loop_keeps:
  assumes ret: "write_loop s f rest w = Some y"
  shows "same_mount s (fst (snd y))"
proof (rule write_loop.raw_induct [where P = "\<lambda>s f rest w y. same_mount s (fst (snd y))", OF _ ret])
  fix loop :: "'a slotfs \<Rightarrow> sfs_file \<Rightarrow> byte list \<Rightarrow> nat \<Rightarrow> (result \<times> 'a slotfs \<times> sfs_file \<times> nat) option"
    and s f rest w y
  assume IH: "\<And>s f rest w y. loop s f rest w = Some y \<Longrightarrow> same_mount s (fst (snd y))"
    and eq: "(if rest = [] then Some (Result_Success, s, f, w)
      else do {
        (ret, s, f, n) \<leftarrow> write_step s f rest;
        (case ret of Some rc \<Rightarrow> Some (rc, s, f, w) | None \<Rightarrow> loop s f (drop n rest) (w + n))
      }) = Some y"
  show "same_mount s (fst (snd y))"
  proof (cases "rest = []")
    case True
    with eq show ?thesis by auto
  next
    case False
    with eq obtain ret s1 f1 n where st: "write_step s f rest = Some (ret, s1, f1, n)"
      and k: "(case ret of Some rc \<Rightarrow> Some (rc, s1, f1, w) | None \<Rightarrow> loop s1 f1 (drop n rest) (w + n)) = Some y"
      by (auto split: bind_splits)
    show ?thesis
      using k same_mount_trans [OF write_step_keeps [OF st] IH] write_step_keeps [OF st]
      by (auto split: option.splits)
  qed
qed

lemma read_step_keeps: "read_step s f n = Some (ret, s', f', bs) \<Longrightarrow> same_mount s s'"
  by (auto simp: read_step_def Let_def split: if_splits bind_splits dest!: load_page_keeps)

lemma read_loop_keeps:
  assumes ret: "read_loop s f n acc = Some y"
  shows "same_mount s (fst (snd y))"
proof (rule read_loop.raw_induct [where P = "\<lambda>s f n acc y. same_mount s (fst (snd y))", OF _ ret])
  fix loop :: "'a slotfs \<Rightarrow> sfs_file \<Rightarrow> nat \<Rightarrow> byte list \<Rightarrow> (result \<times> 'a slotfs \<times> sfs_file \<times> byte list) option"
    and s f n acc y
  assume IH: "\<And>s f n acc y. loop s f n acc = Some y \<Longrightarrow> same_mount s (fst (snd y))"
    and eq: "(if n = 0 then Some (Result_Success, s, f, acc)
      else do {
        (ret, s, f, bs) \<leftarrow> read_step s f n;
        (case ret of Some rc \<Rightarrow> Some (rc, s, f, acc) | None \<Rightarrow> loop s f (n - length bs) (acc @ bs))
      }) = Some y"
  show "same_mount s (fst (snd y))"
  proof (cases "n = 0")
    case True
    with eq show ?thesis by auto
  next
    case False
    with eq obtain ret s1 f1 bs where st: "read_step s f n = Some (ret, s1, f1, bs)"
      and k: "(case ret of Some rc \<Rightarrow> Some (rc, s1, f1, acc) | None \<Rightarrow> loop s1 f1 (n - length bs) (acc @ bs)) = Some y"
      by (auto split: bind_splits)
    show ?thesis
      using k same_mount_trans [OF read_step_keeps [OF st] IH] read_step_keeps [OF st]
      by (auto split: option.splits)
  qed
qed

lemma write_keeps: "sfs_file_write s f data = Some (rc, s', f', n) \<Longrightarrow> same_mount s s'"
  by (auto simp: sfs_file_write_def split: if_splits dest!: write_loop_keeps)

lemma read_keeps: "sfs_file_read s f n = Some (rc, s', f', bs) \<Longrightarrow> same_mount s s'"
  by (auto simp: sfs_file_read_def split: if_splits dest!: read_loop_keeps)

lemma allocate_keeps: "sfs_file_allocate s f n = Some (rc, s', f') \<Longrightarrow> same_mount s s'"
  by (auto simp: sfs_file_allocate_def split: if_splits option.splits dest!: flush_keeps)

text \<open>
  The calls a program can make on a mounted file system, each on a file object of its own
  choice (the objects belong to the caller), and a sequence of them.
\<close>

datatype file_op = Op_Open u64 mode sfs_file | Op_Seek sfs_file u64 | Op_Flush sfs_file
  | Op_Allocate sfs_file u64 | Op_Write sfs_file "byte list" | Op_Read sfs_file nat
  | Op_Exists u64 | Op_Close sfs_file

definition run_op :: "'d slotfs \<Rightarrow> file_op \<Rightarrow> 'd slotfs option" where
  "run_op s op = (case op of
     Op_Open sl m f \<Rightarrow> map_option (\<lambda>(_, s, _). s) (sfs_file_open s sl m f)
   | Op_Seek f pos \<Rightarrow> Some s
   | Op_Flush f \<Rightarrow> map_option (\<lambda>(_, s, _). s) (sfs_file_flush s f)
   | Op_Allocate f n \<Rightarrow> map_option (\<lambda>(_, s, _). s) (sfs_file_allocate s f n)
   | Op_Write f bs \<Rightarrow> map_option (\<lambda>(_, s, _). s) (sfs_file_write s f bs)
   | Op_Read f n \<Rightarrow> map_option (\<lambda>(_, s, _). s) (sfs_file_read s f n)
   | Op_Exists sl \<Rightarrow> map_option (\<lambda>(_, s). s) (sfs_file_exists s sl)
   | Op_Close f \<Rightarrow> map_option (\<lambda>(_, s, _). s) (sfs_file_close s f))"

primrec run_ops :: "'d slotfs \<Rightarrow> file_op list \<Rightarrow> 'd slotfs option" where
  "run_ops s [] = Some s"
| "run_ops s (op # ops) = do { s \<leftarrow> run_op s op; run_ops s ops }"

definition opens :: "u64 \<Rightarrow> file_op \<Rightarrow> bool" where
  "opens sl op = (case op of Op_Open sl' _ _ \<Rightarrow> sl' = sl | _ \<Rightarrow> False)"

definition closes :: "u64 \<Rightarrow> file_op \<Rightarrow> bool" where
  "closes sl op = (case op of Op_Close f \<Rightarrow> slot f = sl | _ \<Rightarrow> False)"

text \<open>An open that does not succeed leaves the counters as they are.\<close>

lemma open_keeps_or_counts:
  assumes "sfs_file_open s sl m f = Some (rc, s', f')"
  shows "same_mount s s' \<or> config s' = config s
    \<and> (\<exists>v. lock_counter s sl = Some v \<and> lock_counters s' = (lock_counters s)[unat sl := v + 1])"
proof (cases "rc = Result_Success")
  case True
  then show ?thesis using open_success assms by blast
next
  case False
  have fin: "open_finish s1 sl m f1 \<noteq> Some (rc, s', f')" for s1 f1
    using False by (auto simp: open_finish_def split: bind_splits)
  have "same_mount s s'"
    using assms fin
    by (auto simp: sfs_file_open_def Let_def split: bind_splits if_splits prod.splits option.splits
        dest!: write_md_keeps read_most_recent_keeps intro: same_mount_trans)
  then show ?thesis ..
qed

lemma close_keeps_others:
  assumes "sfs_file_close s f = Some (rc, s', f')" and "slot f \<noteq> sl"
  shows "config s' = config s \<and> lock_counter s' sl = lock_counter s sl"
proof -
  have sf: "same_mount s s1 \<and> slot f1 = slot f" if "sfs_file_flush s f = Some (r, s1, f1)" for r s1 f1
    using that flush_keeps [OF that]
    by (auto simp: sfs_file_flush_def Let_def split: bind_splits option.splits if_splits)
  have other: "unat (slot f) \<noteq> unat sl" using assms(2) by (metis unat_eq_iff_u64)
  show ?thesis
    using assms other
    by (auto simp: sfs_file_close_def lock_counter_def set_lock_counter_def split: bind_splits if_splits
        dest!: sf simp: same_mount_def)
qed

lemma run_op_counter:
  assumes r: "run_op s op = Some s'" and c: "\<not> closes sl op" and v: "lock_counter s sl = Some v"
  shows "config s' = config s \<and> (lock_counter s' sl = Some v \<or> opens sl op \<and> lock_counter s' sl = Some (v + 1))"
proof -
  have kept: ?thesis if "same_mount s s'"
    using that v by (auto simp: same_mount_def lock_counter_def split: if_splits)
  show ?thesis
  proof (cases op)
    case (Op_Open sl' m f)
    then obtain rc f' where o: "sfs_file_open s sl' m f = Some (rc, s', f')"
      using r by (auto simp: run_op_def)
    from open_keeps_or_counts [OF o] show ?thesis
    proof
      assume h: "config s' = config s
        \<and> (\<exists>w. lock_counter s sl' = Some w \<and> lock_counters s' = (lock_counters s)[unat sl' := w + 1])"
      then show ?thesis
      proof (cases "sl' = sl")
        case True
        with h v Op_Open show ?thesis by (auto simp: opens_def lock_counter_def split: if_splits)
      next
        case False
        then have "unat sl' \<noteq> unat sl" by (metis unat_eq_iff_u64)
        with h v show ?thesis by (auto simp: lock_counter_def split: if_splits)
      qed
    qed (rule kept)
  next
    case (Op_Close f)
    then show ?thesis using r c v close_keeps_others [of s f _ s' _ sl] by (auto simp: run_op_def closes_def)
  qed (use r kept in \<open>auto simp: run_op_def sfs_file_exists_def split: bind_splits
        dest!: flush_keeps allocate_keeps write_keeps read_keeps read_most_recent_keeps\<close>)
qed

lemma run_ops_counter:
  assumes "run_ops s ops = Some s'" "\<forall>op \<in> set ops. \<not> closes sl op" "lock_counter s sl = Some v"
    "unat v + length (filter (opens sl) ops) < 256"
  shows "config s' = config s \<and> (\<exists>w. lock_counter s' sl = Some w \<and> unat v \<le> unat w)"
  using assms
proof (induction ops arbitrary: s v)
  case (Cons op ops)
  obtain s1 where r: "run_op s op = Some s1" "run_ops s1 ops = Some s'"
    using Cons.prems(1) by (auto split: bind_splits)
  have c: "\<not> closes sl op" "\<forall>op \<in> set ops. \<not> closes sl op" using Cons.prems(2) by simp_all
  from run_op_counter [OF r(1) c(1) Cons.prems(3)] have cfg: "config s1 = config s"
    and cnt: "lock_counter s1 sl = Some v \<or> opens sl op \<and> lock_counter s1 sl = Some (v + 1)" by blast+
  from cnt show ?case
  proof
    assume l: "lock_counter s1 sl = Some v"
    have "unat v + length (filter (opens sl) ops) < 256" using Cons.prems(4) by (simp split: if_splits)
    from Cons.IH [OF r(2) c(2) l this] cfg show ?thesis by simp
  next
    assume l: "opens sl op \<and> lock_counter s1 sl = Some (v + 1)"
    have u: "unat (v + 1) = unat v + 1"
      using Cons.prems(4) l by (intro byte_succ) simp
    then have "unat (v + 1) + length (filter (opens sl) ops) < 256" using Cons.prems(4) l by simp
    from Cons.IH [OF r(2) c(2) conjunct2 [OF l] this] cfg u show ?thesis by auto
  qed
qed simp

text \<open>
  C27: from the moment a slot is opened, in either mode, until a file of that slot is closed, the
  slot cannot be opened for writing: whatever calls on whatever files come in between (further
  opens of this or other slots, reads, writes, flushes, closes of other slots' files), the
  attempt fails with \<^verbatim>\<open>Result_Error_Assert\<close> and changes neither the device nor the counters. The
  counter of a slot is a byte, so this is for fewer than 256 opens in all. Nothing is assumed
  of the device.
\<close>

theorem open_excludes_writers:
  assumes o: "sfs_file_open s sl m f0 = Some (Result_Success, s1, f)"
    and ops: "run_ops s1 ops = Some s2" and no_close: "\<forall>op \<in> set ops. \<not> closes sl op"
    and few: "lock_counter s sl = Some v" "unat v + 1 + length (filter (opens sl) ops) < 256"
    and c: "\<not> sfs_file_opened f1"
  shows "sfs_file_open s2 sl Mode_WriteCreate f1 = Some (Result_Error_Assert, s2, zero_file)"
proof -
  have v: "\<not> sl > slot_count (config s)" "config s1 = config s" "lock_counter s1 sl = Some (v + 1)"
    using open_success [OF o] few(1) by (auto simp: lock_counter_def split: if_splits)
  have u: "unat (v + 1) = unat v + 1" by (rule byte_succ) (use few(2) in simp)
  then have "unat (v + 1) + length (filter (opens sl) ops) < 256" using few(2) by simp
  from run_ops_counter [OF ops no_close v(3) this] obtain w where
    w: "config s2 = config s1" "lock_counter s2 sl = Some w" "unat (v + 1) \<le> unat w" by blast
  then have "w \<noteq> 0" using u by auto
  then show ?thesis using w v c by (simp add: sfs_file_open_def)
qed

theorem open_excludes_writers_witness:
  "\<exists>s1 f s2. sfs_file_open (fs_on (ram_device 6656) (\<lambda>_. 0) demo_config) 1 Mode_WriteCreate zero_file = Some (Result_Success, s1, f)
     \<and> run_ops s1 [Op_Exists 0, Op_Close zero_file] = Some s2
     \<and> sfs_file_open s2 1 Mode_WriteCreate zero_file = Some (Result_Error_Assert, s2, zero_file)"
proof -
  let ?s = "fs_on (ram_device 6656) (\<lambda>_. 0) demo_config"
  have cl: "\<not> sfs_file_opened zero_file" by (simp add: sfs_file_opened_def zero_file_def)
  have p: "fs_ready (ram_device 6656) 6656 ?s" "unat (1 :: u64) < slots_of (config ?s)" "2048 dvd slot_bytes (config ?s)"
    "lock_counter ?s 1 = Some 0"
    by (simp_all add: demo_layout fs_on_ready fs_on_lock)
  obtain d f where o: "sfs_file_open ?s 1 Mode_WriteCreate zero_file = Some (Result_Success, set_lock_counter (?s\<lparr>dev := d\<rparr>) 1 1, f)"
    by (rule ram.open_write_ok [OF p cl]) (rule that)
  let ?ops = "[Op_Exists 0, Op_Close zero_file]"
  have ex: "\<exists>s2. run_ops (set_lock_counter (?s\<lparr>dev := d\<rparr>) 1 1) ?ops = Some s2"
    by (simp add: run_op_def sfs_file_exists_def sfs_file_close_def cl read_most_recent_def read_meta_data_block_def
        bd_read_def set_lock_counter_def fs_on_def split: prod.splits)
  then obtain s2 where r: "run_ops (set_lock_counter (?s\<lparr>dev := d\<rparr>) 1 1) ?ops = Some s2" by blast
  have "\<forall>op \<in> set ?ops. \<not> closes 1 op" by (simp add: closes_def zero_file_def)
  from open_excludes_writers [OF o r this p(4) _ cl] o r show ?thesis by (auto simp: opens_def)
qed

text \<open>
  a write that does not fit into the slot is refused before anything happens: no byte is
  taken, the file and the device are as before. A write that fits is taken whole.
\<close>

theorem write_is_all_or_nothing:
  assumes dev: "reliable_device bd mem cap" and w: "writing mem bd cap s f L"
  shows "\<exists>s' f'. sfs_file_write s f data =
      (if length data \<le> slot_bytes (config s) - length L then Some (Result_Success, s', f', length data)
       else Some (Result_Error_Write, s, f, 0))
    \<and> (length data \<le> slot_bytes (config s) - length L \<longrightarrow> writing mem bd cap s' f' (L @ data))"
proof (cases "length data \<le> slot_bytes (config s) - length L")
  case True
  then have "length L + length data \<le> slot_bytes (config s)" using writingD(7) [OF w] by linarith
  from reliable_device.sfs_file_write_ok [OF dev w this] show ?thesis using True by metis
next
  case False
  then show ?thesis using sfs_file_write_full [OF w, of data] by simp
qed

theorem write_is_all_or_nothing_witness:
  "\<exists>s f. sfs_file_write s f (replicate 2049 0) = Some (Result_Error_Write, s, f, 0)
    \<and> writing (\<lambda>d. d) (ram_device 6656) 6656 s f []"
proof -
  let ?s = "fs_on (ram_device 6656) (\<lambda>_. 0) demo_config"
  have cl: "\<not> sfs_file_opened zero_file" by (simp add: sfs_file_opened_def zero_file_def)
  have p: "fs_ready (ram_device 6656) 6656 ?s" "unat (1 :: u64) < slots_of (config ?s)" "2048 dvd slot_bytes (config ?s)"
    "lock_counter ?s 1 = Some 0"
    by (simp_all add: demo_layout fs_on_ready fs_on_lock)
  obtain d f where w: "writing (\<lambda>d. d) (ram_device 6656) 6656 (?s\<lparr>dev := d\<rparr>) f []"
    by (rule ram.open_write_ok [OF p cl]) (rule that)
  have "slot_bytes (config (?s\<lparr>dev := d\<rparr>)) = 2048" by (simp add: demo_layout)
  then have "sfs_file_write (?s\<lparr>dev := d\<rparr>) f (replicate 2049 0) = Some (Result_Error_Write, ?s\<lparr>dev := d\<rparr>, f, 0)"
    using write_is_all_or_nothing [OF ram.reliable_device_axioms w, of "replicate 2049 0"] by simp
  with w show ?thesis by blast
qed

section \<open>Two defects\<close>

text \<open>
  C30: the revision byte of a file starts at 1 and is incremented by every page written and by
  the close. After 255 increments it is 0, which means no file: a session that fills 254
  pages reports success in every call, and the file cannot be opened afterwards.
\<close>

theorem revision_wrap_loses_file:
  assumes dev: "reliable_device bd mem cap" and rdy: "fs_ready bd cap s"
    and sl: "unat sl < slots_of (config s)" and al: "2048 dvd slot_bytes (config s)"
    and free: "lock_counter s sl = Some 0" and fit: "length (concat chs) \<le> slot_bytes (config s)"
    and rev: "(length (concat chs) div 2048) mod 256 = 254"
  shows "\<exists>s1 f1 s2 f2 s3 s4 f4. sfs_file_open s sl Mode_WriteCreate zero_file = Some (Result_Success, s1, f1)
    \<and> write_chunks s1 f1 chs = Some (Result_Success, s2, f2)
    \<and> sfs_file_close s2 f2 = Some (Result_Success, s3, zero_file)
    \<and> sfs_file_open s3 sl Mode_Read zero_file = Some (Result_Error_FileNotFound, s4, f4)"
proof -
  have cl: "\<not> sfs_file_opened zero_file" by (simp add: sfs_file_opened_def zero_file_def)
  have "256 dvd full_pages (concat chs) + 2" using rev by (simp only: dvd_256_iff)
  then obtain s1 f1 s2 f2 d where w: "sfs_file_open s sl Mode_WriteCreate zero_file = Some (Result_Success, s1, f1)"
    "write_chunks s1 f1 chs = Some (Result_Success, s2, f2)"
    "sfs_file_close s2 f2 = Some (Result_Success, set_lock_counter (s\<lparr>dev := d\<rparr>) sl 0, zero_file)"
    and st: "stored_file (mem d) (config s) (unat sl) = None" and cm: "committed (mem d) (config s) (unat sl) \<noteq> None"
    using reliable_device.write_session [OF dev rdy sl al free fit] by auto
  let ?s3 = "set_lock_counter (s\<lparr>dev := d\<rparr>) sl 0"
  have "fs_ready bd cap ?s3" "unat sl < slots_of (config ?s3)" "stored_file (mem (dev ?s3)) (config ?s3) (unat sl) = None"
    using rdy sl st by simp_all
  from readable_device.open_read_none [OF reliable_device.axioms(1) [OF dev] this(1,2) cl this(3)] cm
  obtain s4 f4 where "sfs_file_open ?s3 sl Mode_Read zero_file = Some (Result_Error_FileNotFound, s4, f4)"
    by (metis set_lock_simps(1,2) slotfs.select_convs(2,3) slotfs.update_convs(2) slotfs.surjective)
  with w show ?thesis by blast
qed

theorem revision_wrap_loses_file_witness:
  "\<exists>s1 f1 s2 f2 s3 s4 f4. sfs_file_open (fs_on (ram_device 525824) (\<lambda>_. 0) big_config) 0 Mode_WriteCreate zero_file = Some (Result_Success, s1, f1)
    \<and> write_chunks s1 f1 [replicate 520192 7] = Some (Result_Success, s2, f2)
    \<and> sfs_file_close s2 f2 = Some (Result_Success, s3, zero_file)
    \<and> sfs_file_open s3 0 Mode_Read zero_file = Some (Result_Error_FileNotFound, s4, f4)"
proof -
  let ?s = "fs_on (ram_device 525824) (\<lambda>_. 0) big_config" and ?L = "[replicate 520192 (7 :: byte)]"
  have p: "fs_ready (ram_device 525824) 525824 ?s" "unat (0 :: u64) < slots_of (config ?s)" "2048 dvd slot_bytes (config ?s)"
    "lock_counter ?s 0 = Some 0" "length (concat ?L) \<le> slot_bytes (config ?s)" "(length (concat ?L) div 2048) mod 256 = 254"
    by (simp_all add: big_layout fs_on_ready fs_on_lock)
  show ?thesis by (rule revision_wrap_loses_file [OF ram.reliable_device_axioms p])
qed

text \<open>
  the range check of \<^verbatim>\<open>sfs_file_open\<close> admits the slot number \<^verbatim>\<open>slot_count\<close>, one past the last
  slot. The metadata blocks of that slot number lie where the data of slot 0 begins, so opening
  it for writing reports success and overwrites the first blocks of the file in slot 0.
\<close>

lemma write_md_raw:
  assumes dev: "reliable_device bd mem cap" and bd: "block_device s = Some bd" and idx: "unat idx \<le> 1"
    and a: "meta_block_address (config s) sl idx = of_nat ma" and al: "512 dvd ma" and fit: "ma + 512 \<le> cap" "ma < 2 ^ 64"
  obtains d' where "write_meta_data_block s sl m idx = Some (Result_Success, s\<lparr>dev := d'\<rparr>)"
    "block_at (mem d') ma = md_image m" "\<And>x. x < ma \<or> ma + 512 \<le> x \<Longrightarrow> mem d' x = mem (dev s) x"
proof -
  have u: "unat (of_nat ma :: u64) = ma" by (rule unat_of_nat_u64 [OF fit(2)])
  have p: "512 dvd unat (of_nat ma :: u64)" "512 dvd length (md_image m)" "unat (of_nat ma :: u64) + length (md_image m) \<le> cap"
    using al fit(1) by (simp_all only: u) simp_all
  obtain d' where w: "dev_write bd (of_nat ma) (md_image m) (dev s) = (0, d')"
    and dat: "\<And>i. i < length (md_image m) \<Longrightarrow> mem d' (unat (of_nat ma :: u64) + i) = md_image m ! i"
    and fr: "\<And>x. \<not> in_range (of_nat ma) (length (md_image m)) x \<Longrightarrow> mem d' x = mem (dev s) x"
    by (rule reliable_device.write_reliable [OF dev p, of "dev s"]) (rule that)
  have i2: "\<not> 2 < idx" using idx by (simp add: word_less_nat_alt)
  show thesis
  proof (rule that)
    show "write_meta_data_block s sl m idx = Some (Result_Success, s\<lparr>dev := d'\<rparr>)"
      using bd w i2 by (simp add: write_meta_data_block_def bd_write_def md_image_def a)
    show "block_at (mem d') ma = md_image m" using dat by (intro block_at_eq) (simp_all add: u)
    show "mem d' x = mem (dev s) x" if "x < ma \<or> ma + 512 \<le> x" for x
      using that by (intro fr) (auto simp: in_range_def u)
  qed
qed

theorem slot_count_overwrites_slot_0:
  assumes dev: "reliable_device bd mem cap" and rdy: "fs_ready bd cap s"
    and n: "slots_of (config s) < 128" and sz: "1024 \<le> slot_bytes (config s)"
    and free: "lock_counter s (slot_count (config s)) = Some 0"
  shows "\<exists>s' f. sfs_file_open s (slot_count (config s)) Mode_WriteCreate zero_file = Some (Result_Success, s', f)
    \<and> block_at (mem (dev s')) (slot_begin (config s) 0) = md_image (md f)"
proof -
  let ?c = "config s" and ?N = "slot_count (config s)"
  note wf = fs_ready_wf [OF rdy]
  have N0: "0 < slots_of ?c" using wf by (simp add: wf_config_def)
  define ma where "ma = data_start ?c"
  have end_le: "ma + 1024 \<le> unat (end_address ?c)"
    using slot_end [OF wf N0] sz by (simp add: slot_begin_def ma_def)
  have cap: "ma + 1024 \<le> cap" using end_le rdy by (simp add: fs_ready_def)
  have small: "ma + 512 < 2 ^ 64" using end_le unat_u64_less [of "end_address ?c"] by (simp del: unat_u64_less)
  have al: "512 dvd ma" unfolding ma_def by (rule data_start_aligned [OF wf])
  have a: "meta_block_address ?c ?N 0 = of_nat ma" "meta_block_address ?c ?N 1 = of_nat (ma + 512)"
    by (simp_all add: meta_block_address_def ma_def data_start_def slots_of_def algebra_simps)
  obtain m0 where m0: "init_meta_data_block ?c ?N = Some m0"
  proof -
    have "?N \<noteq> 0" using N0 by (auto simp: slots_of_def)
    then show thesis using that by (simp add: init_meta_data_block_def Let_def)
  qed
  define m where "m = m0\<lparr>revision := 1\<rparr>"
  have bd: "block_device s = Some bd" using rdy by (simp add: fs_ready_def)
  obtain d1 where w1: "write_meta_data_block s ?N m 0 = Some (Result_Success, s\<lparr>dev := d1\<rparr>)"
    and b1: "block_at (mem d1) ma = md_image m"
    by (rule write_md_raw [OF dev bd _ a(1) al, of m]) (use cap small in simp_all)
  have a2: "meta_block_address (config (s\<lparr>dev := d1\<rparr>)) ?N 1 = of_nat (ma + 512)" and bd2: "block_device (s\<lparr>dev := d1\<rparr>) = Some bd"
    using a bd by simp_all
  obtain d2 where w2: "write_meta_data_block (s\<lparr>dev := d1\<rparr>) ?N m 1 = Some (Result_Success, s\<lparr>dev := d2\<rparr>)"
    and fr: "\<And>x. x < ma + 512 \<or> ma + 512 + 512 \<le> x \<Longrightarrow> mem d2 x = mem d1 x"
    by (rule write_md_raw [OF dev bd2 _ a2, of m]) (use cap small al in simp_all)
  have "block_at (mem d2) ma = md_image m"
    using b1 block_at_cong [of ma "mem d2" "mem d1"] fr by simp
  moreover have "\<not> sfs_file_opened zero_file" by (simp add: sfs_file_opened_def zero_file_def)
  ultimately show ?thesis
    using w1 w2 free m0 by (simp add: sfs_file_open_def open_finish_def m_def slot_begin_def ma_def)
qed

theorem slot_count_overwrites_slot_0_witness:
  "\<exists>s' f. sfs_file_open (fs_on (ram_device 6656) (\<lambda>_. 0) demo_config) 2 Mode_WriteCreate zero_file = Some (Result_Success, s', f)
    \<and> block_at (dev s') 2560 = md_image (md f)"
proof -
  let ?s = "fs_on (ram_device 6656) (\<lambda>_. 0) demo_config"
  have p: "fs_ready (ram_device 6656) 6656 ?s" "slots_of (config ?s) < 128" "1024 \<le> slot_bytes (config ?s)"
    "lock_counter ?s (slot_count (config ?s)) = Some 0"
    by (simp_all add: demo_layout fs_on_ready fs_on_lock, simp add: fs_on_lock demo_config_def)
  have "slot_count (config ?s) = 2" "slot_begin (config ?s) 0 = 2560"
    by (simp_all add: demo_config_def slot_begin_def, simp add: data_start_def slots_of_def)
  then show ?thesis using slot_count_overwrites_slot_0 [OF ram.reliable_device_axioms p] by simp
qed

end
