(* ===== verification/SequentialBuffer.thy ===== *)
theory SequentialBuffer
  imports Prelude "HOL-Library.Sublist"
begin

text \<open>
  The byte ring buffer of \<^verbatim>\<open>lib_util/sequential_buffer.h\<close>. The two template parameters are the
  lock, which serialises the operations and has no other effect (one step of the model is one
  locked operation), and the event flag, whose \<^verbatim>\<open>set\<close> and \<^verbatim>\<open>wait_for\<close> are parameters of the
  model. Pointers are offsets from \<^verbatim>\<open>m_data\<close>. A failed \<^verbatim>\<open>assert\<close> and a copy that would leave the
  array are \<open>None\<close>.
\<close>

section \<open>The event flag\<close>

record 'e event_flag =
  ev_set :: "'e \<Rightarrow> 'e"
  ev_wait_for :: "u32 \<Rightarrow> 'e \<Rightarrow> int \<times> 'e"

text \<open>A flag with a status and a clock that a waiter advances until the flag is set or time is up.\<close>

definition int_status :: "bool event_flag" where
  "int_status = \<lparr>ev_set = (\<lambda>_. True), ev_wait_for = (\<lambda>t e. (if e \<and> t \<noteq> 0 then 0 else -1, e))\<rparr>"

section \<open>The buffer\<close>

record 'e seq_buffer =
  sb_data :: "byte list"
  read_ptr :: nat
  write_ptr :: nat
  sb_free :: nat
  watermark_event :: 'e
  watermark_bytes :: nat

definition sb_clear :: "'e seq_buffer \<Rightarrow> 'e seq_buffer" where
  "sb_clear b = b\<lparr>read_ptr := 0, write_ptr := 0, sb_free := length (sb_data b)\<rparr>"

definition sb_new :: "nat \<Rightarrow> 'e \<Rightarrow> 'e seq_buffer" where
  "sb_new n e = sb_clear \<lparr>sb_data = replicate n 0, read_ptr = 0, write_ptr = 0, sb_free = 0,
     watermark_event = e, watermark_bytes = 1\<rparr>"

definition set_watermark :: "'e seq_buffer \<Rightarrow> nat \<Rightarrow> int \<times> 'e seq_buffer" where
  "set_watermark b n = (0, b\<lparr>watermark_bytes := n\<rparr>)"

definition sb_size :: "'e seq_buffer \<Rightarrow> nat option" where
  "sb_size b = (if length (sb_data b) \<ge> sb_free b then Some (length (sb_data b) - sb_free b) else None)"

text \<open>\<^verbatim>\<open>memcpy\<close> into the array.\<close>

definition sb_copy :: "'e seq_buffer \<Rightarrow> byte list \<Rightarrow> 'e seq_buffer option" where
  "sb_copy b bs = (if write_ptr b + length bs \<le> length (sb_data b)
     then Some (b\<lparr>sb_data := overwrite (write_ptr b) bs (sb_data b), write_ptr := write_ptr b + length bs\<rparr>) else None)"

text \<open>The copying part of a write: append up to the end and wrap, or fill the gap before the reader.\<close>

definition sb_put :: "'e seq_buffer \<Rightarrow> byte list \<Rightarrow> 'e seq_buffer option" where
  "sb_put b bs =
     (if write_ptr b \<ge> read_ptr b then do {
        let append_size = min (length bs) (length (sb_data b) - write_ptr b);
        b \<leftarrow> sb_copy b (take append_size bs);
        let b = (if write_ptr b = length (sb_data b) then b\<lparr>write_ptr := 0\<rparr> else b);
        let prepend_size = length bs - append_size;
        b \<leftarrow> (if prepend_size > 0 then sb_copy b (drop append_size bs) else Some b);
        Some (b\<lparr>sb_free := sb_free b - length bs\<rparr>)
      }
      else if write_ptr b + length bs \<le> read_ptr b then do {
        b \<leftarrow> sb_copy b bs;
        Some (b\<lparr>sb_free := sb_free b - length bs\<rparr>)
      }
      else None)"

definition sb_write :: "'e event_flag \<Rightarrow> 'e seq_buffer \<Rightarrow> byte list \<Rightarrow> (int \<times> 'e seq_buffer) option" where
  "sb_write ev b bs =
     (if length bs = 0 \<or> sb_free b < length bs then Some (-1, b\<lparr>watermark_event := ev_set ev (watermark_event b)\<rparr>)
      else do {
        b \<leftarrow> sb_put b bs;
        n \<leftarrow> sb_size b;
        Some (0, if n \<ge> watermark_bytes b then b\<lparr>watermark_event := ev_set ev (watermark_event b)\<rparr> else b)
      })"

definition sb_commit_read :: "'e seq_buffer \<Rightarrow> nat \<Rightarrow> (int \<times> 'e seq_buffer) option" where
  "sb_commit_read b n =
     (if read_ptr b + n \<le> length (sb_data b) then
        let r = read_ptr b + n in
        Some (0, b\<lparr>read_ptr := if r = length (sb_data b) then 0 else r, sb_free := sb_free b + n\<rparr>)
      else None)"

text \<open>
  The result is the return code and the pointer and size handed out; neither is set when the
  wait times out on an empty buffer.
\<close>

definition sb_request_read :: "'e event_flag \<Rightarrow> 'e seq_buffer \<Rightarrow> u32 \<Rightarrow> (int \<times> (nat \<times> nat) option \<times> 'e seq_buffer) option" where
  "sb_request_read ev b timeout_ms = do {
     let (rc, e) = (if timeout_ms > 0 then ev_wait_for ev timeout_ms (watermark_event b) else (0, watermark_event b));
     let b = b\<lparr>watermark_event := e\<rparr>;
     timed_out \<leftarrow> (if rc \<noteq> 0 then map_option (\<lambda>n. n = 0) (sb_size b) else Some False);
     if timed_out then Some (-1, None, b)
     else do {
       available \<leftarrow> (if read_ptr b < write_ptr b then Some (write_ptr b - read_ptr b)
                     else map_option (\<lambda>n. if n > 0 then length (sb_data b) - read_ptr b else 0) (sb_size b));
       Some (if available > 0 then 0 else -1, Some (read_ptr b, available), b)
     }
   }"

section \<open>Abstraction to a bounded queue of bytes\<close>

definition sb_inv :: "'e seq_buffer \<Rightarrow> bool" where
  "sb_inv b \<longleftrightarrow> 0 < length (sb_data b) \<and> sb_free b \<le> length (sb_data b)
     \<and> read_ptr b < length (sb_data b) \<and> write_ptr b < length (sb_data b)
     \<and> write_ptr b = (read_ptr b + (length (sb_data b) - sb_free b)) mod length (sb_data b)"

definition sb_contents :: "'e seq_buffer \<Rightarrow> byte list" where
  "sb_contents b = take (length (sb_data b) - sb_free b) (drop (read_ptr b) (sb_data b) @ take (read_ptr b) (sb_data b))"

lemma sb_new_inv: "0 < n \<Longrightarrow> sb_inv (sb_new n e) \<and> sb_contents (sb_new n e) = []"
  by (simp add: sb_inv_def sb_new_def sb_clear_def sb_contents_def)

lemma sb_clear_inv: "sb_inv b \<Longrightarrow> sb_inv (sb_clear b) \<and> sb_contents (sb_clear b) = []"
  by (simp add: sb_inv_def sb_clear_def sb_contents_def)

lemma length_sb_contents: "sb_inv b \<Longrightarrow> length (sb_contents b) = length (sb_data b) - sb_free b"
  by (auto simp: sb_inv_def sb_contents_def min_def)

lemma sb_size_contents: "sb_inv b \<Longrightarrow> sb_size b = Some (length (sb_contents b))"
  using length_sb_contents [of b] by (simp add: sb_size_def sb_inv_def)

text \<open>The two shapes of the buffer: one segment, or one that wraps.\<close>

lemma sb_shapes:
  assumes "sb_inv b"
  defines "n \<equiv> length (sb_data b) - sb_free b"
  shows "(read_ptr b + n < length (sb_data b) \<and> write_ptr b = read_ptr b + n
          \<and> sb_contents b = slice (read_ptr b) n (sb_data b))
       \<or> (length (sb_data b) \<le> read_ptr b + n \<and> write_ptr b = read_ptr b + n - length (sb_data b)
          \<and> write_ptr b \<le> read_ptr b \<and> sb_contents b = drop (read_ptr b) (sb_data b) @ take (write_ptr b) (sb_data b))"
proof -
  let ?c = "length (sb_data b)" and ?r = "read_ptr b"
  have i: "?r < ?c" "n \<le> ?c" "write_ptr b = (?r + n) mod ?c" "0 < ?c"
    using assms by (simp_all add: sb_inv_def n_def)
  show ?thesis
  proof (cases "?r + n < ?c")
    case True
    then show ?thesis using i by (simp add: sb_contents_def n_def [symmetric] slice_def)
  next
    case False
    then have w: "write_ptr b = ?r + n - ?c" "?r + n - ?c \<le> ?r" using i by (simp_all add: mod_if)
    then have "sb_contents b = drop ?r (sb_data b) @ take (?r + n - ?c) (sb_data b)"
    proof -
      have "n - (?c - ?r) = ?r + n - ?c" using i(1) by simp
      moreover have "?r + n - ?c \<le> ?r" using w(2) .
      ultimately show ?thesis
        using False by (simp add: sb_contents_def n_def [symmetric] min_absorb1)
    qed
    then show ?thesis using False w by simp
  qed
qed

section \<open>Each operation refines the queue operation\<close>

lemma sb_write_reject: "bs = [] \<or> sb_free b < length bs \<Longrightarrow>
    sb_write ev b bs = Some (-1, b\<lparr>watermark_event := ev_set ev (watermark_event b)\<rparr>)"
  by (auto simp: sb_write_def)

text \<open>What the copying part of a write does to pointers and contents.\<close>

definition sb_store :: "'e seq_buffer \<Rightarrow> byte list \<Rightarrow> 'e seq_buffer \<Rightarrow> bool" where
  "sb_store b bs b' \<longleftrightarrow> sb_inv b' \<and> sb_contents b' = sb_contents b @ bs \<and> watermark_event b' = watermark_event b
     \<and> watermark_bytes b' = watermark_bytes b \<and> length (sb_data b') = length (sb_data b)"

lemma sb_write_store:
  assumes inv: "sb_inv b" and bs: "bs \<noteq> []" "length bs \<le> sb_free b"
  shows "\<exists>b'. sb_store b bs b' \<and> sb_write ev b bs = Some (0,
     if length (sb_contents b') \<ge> watermark_bytes b then b'\<lparr>watermark_event := ev_set ev (watermark_event b)\<rparr> else b')"
proof -
  define c where "c = length (sb_data b)"
  define n where "n = c - sb_free b"
  define k where "k = length bs"
  define r where "r = read_ptr b"
  define w where "w = write_ptr b"
  let ?D = "sb_data b"
  have i: "0 < c" "n \<le> c" "r < c" "w < c" "n + k \<le> c" "sb_free b \<le> c" "0 < k" "w = (r + n) mod c" "sb_free b = c - n"
    using inv bs by (auto simp: sb_inv_def c_def n_def k_def r_def w_def)
  have step: "?thesis" if b': "sb_store b bs b'" and run: "sb_put b bs = Some b'" for b'
  proof -
    have "sb_size b' = Some (length (sb_contents b'))" "watermark_bytes b' = watermark_bytes b" "watermark_event b' = watermark_event b"
      using b' by (simp_all only: sb_store_def sb_size_contents)
    then show ?thesis using bs run by (intro exI [of _ b'] conjI b') (simp add: sb_write_def)
  qed
  note sh = sb_shapes [OF inv, folded c_def, folded n_def r_def w_def]
  show ?thesis
  proof (cases "r + n < c")
    case True
    then have one: "w = r + n" "sb_contents b = slice r n ?D" using sh by auto
    show ?thesis
    proof (cases "w + k < c")
      case lt: True
      define b' where "b' = b\<lparr>sb_data := overwrite w bs ?D, write_ptr := w + k, sb_free := sb_free b - k\<rparr>"
      have sl: "slice r (n + k) (overwrite w bs ?D) = slice r n ?D @ bs"
        using one i lt by (simp add: slice_def overwrite_def k_def c_def drop_take)
      show ?thesis
      proof (rule step [of b'])
        show "sb_store b bs b'"
          using one i lt sl unfolding sb_store_def sb_inv_def sb_contents_def
          by (simp add: b'_def c_def [symmetric] k_def [symmetric] r_def [symmetric] slice_def drop_take)
        show "sb_put b bs = Some b'"
          using one i bs lt unfolding sb_put_def sb_copy_def Let_def
          by (simp add: b'_def c_def [symmetric] k_def [symmetric] r_def [symmetric] w_def [symmetric])
      qed
    next
      case ge: False
      define a where "a = c - w"
      define D1 where "D1 = overwrite w (take a bs) ?D"
      define D2 where "D2 = overwrite 0 (drop a bs) D1"
      define b' where "b' = b\<lparr>sb_data := D2, write_ptr := k - a, sb_free := sb_free b - k\<rparr>"
      have a: "a \<le> k" "w + a = c" "k - a \<le> r" using ge i(1-7) one(1) unfolding a_def by linarith+
      have D1: "D1 = take w ?D @ take a bs" using a by (simp add: D1_def overwrite_def c_def k_def)
      have len1: "length D1 = c" using a one i by (simp add: D1 c_def k_def)
      have D2: "D2 = drop a bs @ drop (k - a) D1" by (simp add: D2_def overwrite_def k_def)
      have len2: "length D2 = c" using a i by (simp add: D2 len1 k_def)
      have "drop r D2 = drop r D1" using a by (simp add: D2 k_def)
      also have "\<dots> = slice r n ?D @ take a bs" using one i by (simp add: D1 slice_def drop_take c_def)
      finally have dr: "drop r D2 = slice r n ?D @ take a bs" .
      have tk: "take (k - a) D2 = drop a bs" by (simp add: D2 k_def)
      have nk: "c - (sb_free b - k) = n + k" "n + k - (c - r) = k - a" "c - r \<le> n + k"
        using i(1-7,9) a one(1) ge by linarith+
      have md: "(r + (n + k)) mod c = k - a"
      proof -
        have "r + (n + k) = (k - a) + c" using a one by linarith
        moreover have "k - a < c" using a i by linarith
        ultimately show ?thesis by (simp only: mod_add_self2 mod_less)
      qed
      show ?thesis
      proof (rule step [of b'])
        have inv': "sb_inv b'"
          using i a nk md by (simp add: sb_inv_def b'_def len2 r_def [symmetric] flip: length_greater_0_conv)
        have "sb_contents b' = take (n + k) (drop r D2 @ take r D2)"
          using nk(1) by (simp add: sb_contents_def b'_def len2 r_def [symmetric])
        also have "\<dots> = drop r D2 @ take (k - a) D2"
          using nk a i by (simp add: len2 min_absorb1)
        also have "\<dots> = sb_contents b @ bs" by (simp add: dr tk one(2))
        finally show "sb_store b bs b'"
          using inv' len2 by (simp add: sb_store_def b'_def c_def)
        have m: "min (length bs) (length ?D - write_ptr b) = a" using a i by (simp add: a_def w_def c_def k_def min_def)
        have cp: "sb_copy b (take a bs) = Some (b\<lparr>sb_data := D1, write_ptr := c\<rparr>)"
          using a by (simp add: sb_copy_def D1_def w_def c_def k_def)
        show "sb_put b bs = Some b'"
        proof (cases "k = a")
          case True
          then have "b' = b\<lparr>sb_data := D1, write_ptr := 0, sb_free := sb_free b - k\<rparr>"
            by (simp add: b'_def D2_def k_def)
          then show ?thesis
            using one i cp len1 True unfolding sb_put_def Let_def m by (simp add: k_def r_def w_def)
        next
          case False
          then have "sb_copy (b\<lparr>sb_data := D1, write_ptr := 0\<rparr>) (drop a bs) = Some (b\<lparr>sb_data := D2, write_ptr := k - a\<rparr>)"
            using a i by (simp add: sb_copy_def D2_def len1 k_def)
          then show ?thesis
            using one i cp len1 False a unfolding sb_put_def Let_def m by (simp add: b'_def k_def r_def w_def)
        qed
      qed
    qed
  next
    case False
    then have two: "w = r + n - c" "w \<le> r" "sb_contents b = drop r ?D @ take w ?D" using sh by auto
    have wk: "w + k \<le> r" using two i False by linarith
    define D2 where "D2 = overwrite w bs ?D"
    define b' where "b' = b\<lparr>sb_data := D2, write_ptr := w + k, sb_free := sb_free b - k\<rparr>"
    have D2: "D2 = take w ?D @ bs @ drop (w + k) ?D" by (simp add: D2_def overwrite_def k_def)
    have len2: "length D2 = c" using wk i by (simp add: D2 c_def k_def)
    have dr: "drop r D2 = drop r ?D" using wk i by (simp add: D2 c_def k_def)
    have tk: "take (w + k) D2 = take w ?D @ bs"
      unfolding D2_def k_def by (rule take_overwrite_end) (use i(4) in \<open>simp add: c_def\<close>)
    have nk: "c - (sb_free b - k) = n + k" "n + k - (c - r) = w + k" "c - r \<le> n + k"
      using i(1-7,9) two(1,2) False by linarith+
    have md: "(r + (n + k)) mod c = w + k"
    proof -
      have "r + (n + k) = (w + k) + c" using two False by linarith
      moreover have "w + k < c" using wk i by linarith
      ultimately show ?thesis by (simp only: mod_add_self2 mod_less)
    qed
    show ?thesis
    proof (rule step [of b'])
      have inv': "sb_inv b'"
        using i wk nk md by (simp add: sb_inv_def b'_def len2 r_def [symmetric] flip: length_greater_0_conv)
      have "sb_contents b' = take (n + k) (drop r D2 @ take r D2)"
        using nk(1) by (simp add: sb_contents_def b'_def len2 r_def [symmetric])
      also have "\<dots> = drop r D2 @ take (w + k) D2"
        using nk wk i by (simp add: len2 min_absorb1)
      also have "\<dots> = sb_contents b @ bs" by (simp only: dr tk two(3) append_assoc)
      finally show "sb_store b bs b'"
        using inv' len2 by (simp add: sb_store_def b'_def c_def)
      show "sb_put b bs = Some b'"
        using wk bs i unfolding sb_put_def sb_copy_def Let_def
        by (simp add: b'_def D2_def c_def [symmetric] k_def [symmetric] r_def [symmetric] w_def [symmetric])
    qed
  qed
qed

text \<open>The segment a reader can be handed: up to the writer or up to the end of the array.\<close>

definition sb_segment :: "'e seq_buffer \<Rightarrow> byte list" where
  "sb_segment b = slice (read_ptr b) (min (length (sb_contents b)) (length (sb_data b) - read_ptr b)) (sb_data b)"

lemma sb_segment_prefix:
  assumes inv: "sb_inv b"
  shows "sb_segment b = take (length (sb_data b) - read_ptr b) (sb_contents b)"
proof -
  let ?n = "length (sb_data b) - sb_free b" and ?X = "drop (read_ptr b) (sb_data b)"
  have "take (length (sb_data b) - read_ptr b) (sb_contents b) = take ?n (take (length ?X) (?X @ take (read_ptr b) (sb_data b)))"
    by (simp only: sb_contents_def take_take length_drop min.commute)
  also have "\<dots> = take (min ?n (length ?X)) ?X" by (simp add: min_def)
  finally show ?thesis by (simp add: sb_segment_def slice_def length_sb_contents [OF inv])
qed

lemma sb_request_read_now:
  assumes inv: "sb_inv b"
  shows "sb_request_read ev b 0 = Some (if sb_contents b = [] then -1 else 0, Some (read_ptr b, length (sb_segment b)), b)"
proof -
  let ?c = "length (sb_data b)" and ?n = "length (sb_data b) - sb_free b"
  have len: "length (sb_segment b) = min ?n (?c - read_ptr b)"
    using inv by (simp add: sb_segment_prefix length_sb_contents min.commute)
  have sz: "sb_size b = Some ?n" using sb_size_contents [OF inv] length_sb_contents [OF inv] by simp
  have e: "sb_contents b = [] \<longleftrightarrow> ?n = 0" using length_sb_contents [OF inv] by (metis length_0_conv)
  have r: "read_ptr b < ?c" using inv by (simp add: sb_inv_def)
  have b: "b\<lparr>watermark_event := watermark_event b\<rparr> = b" by simp
  show ?thesis
  proof (cases "read_ptr b + ?n < ?c")
    case True
    then have "write_ptr b = read_ptr b + ?n" using sb_shapes [OF inv] by auto
    then show ?thesis using sz e True len by (simp add: sb_request_read_def b; linarith?)
  next
    case False
    then have "write_ptr b \<le> read_ptr b" "0 < ?n" using sb_shapes [OF inv] r by auto
    then show ?thesis using sz e False len r by (simp add: sb_request_read_def b; linarith?)
  qed
qed

lemma sb_commit_read_ok:
  assumes inv: "sb_inv b" and k: "k \<le> length (sb_segment b)"
  shows "\<exists>b'. sb_commit_read b k = Some (0, b') \<and> sb_inv b' \<and> sb_contents b' = drop k (sb_contents b)
    \<and> sb_data b' = sb_data b \<and> watermark_event b' = watermark_event b \<and> watermark_bytes b' = watermark_bytes b"
proof -
  define c where "c = length (sb_data b)"
  define r where "r = read_ptr b"
  define n where "n = c - sb_free b"
  have i: "0 < c" "n \<le> c" "r < c" "sb_free b = c - n" "write_ptr b = (r + n) mod c" "write_ptr b < c"
    using inv by (auto simp: sb_inv_def c_def n_def r_def)
  have kb: "k \<le> n" "r + k \<le> c"
  proof -
    have "length (sb_segment b) = min n (c - r)"
      unfolding sb_segment_prefix [OF inv] length_take length_sb_contents [OF inv] c_def n_def r_def by (rule refl)
    then show "k \<le> n" "r + k \<le> c" using k i(3) by linarith+
  qed
  define r' where "r' = (if r + k = c then 0 else r + k)"
  define b' where "b' = b\<lparr>read_ptr := r', sb_free := c - n + k\<rparr>"
  have run: "sb_commit_read b k = Some (0, b')"
    using kb i by (simp add: sb_commit_read_def b'_def r'_def Let_def flip: c_def r_def)
  have nk: "c - (c - n + k) = n - k" using i kb by linarith
  have w: "(r' + (n - k)) mod c = (r + n) mod c"
  proof (cases "r + k = c")
    case True
    then have "r + n = (n - k) + c" using kb by linarith
    then have "(r + n) mod c = (n - k) mod c" by (simp only: mod_add_self2)
    then show ?thesis using True by (simp add: r'_def)
  next
    case False
    then show ?thesis using kb by (simp add: r'_def)
  qed
  have inv': "sb_inv b'"
  proof -
    have l: "length (sb_data b') = c" "sb_free b' = c - n + k" "read_ptr b' = r'" "write_ptr b' = write_ptr b"
      by (simp_all add: b'_def c_def)
    have "r' < c" using i(1) kb(2) by (simp add: r'_def)
    moreover have "c - n + k \<le> c" using kb(1) i(2) by linarith
    ultimately show ?thesis
      unfolding sb_inv_def l nk w using i(1,5,6) by (intro conjI)
  qed
  let ?D = "sb_data b"
  have "drop k (drop r ?D @ take r ?D) = drop (r + k) ?D @ take r ?D"
    using kb(2) i(3) by (simp add: c_def add.commute)
  then have old: "drop k (sb_contents b) = take (n - k) (drop (r + k) ?D @ take r ?D)"
    by (simp only: sb_contents_def drop_take c_def r_def n_def)
  have new: "sb_contents b' = take (n - k) (drop r' ?D @ take r' ?D)"
    using nk by (simp add: sb_contents_def b'_def c_def)
  have "sb_contents b' = drop k (sb_contents b)"
  proof (cases "r + k = c")
    case True
    then have "n - k \<le> r" using i(2) by linarith
    then show ?thesis unfolding old new using True by (simp add: r'_def c_def)
  next
    case False
    have "n - k - (c - (r + k)) \<le> r" using i(2) kb by linarith
    then show ?thesis unfolding old new using False by (simp add: r'_def c_def)
  qed
  then show ?thesis using run inv' by (intro exI [of _ b']) (simp add: b'_def)
qed

section \<open>The interface of a reader\<close>

text \<open>
  What a client that streams from the buffer relies on: a request hands out a non-empty prefix of
  the stored bytes if there are any and changes nothing a second request could see; a commit of
  at most that many bytes removes them.
\<close>

locale byte_source =
  fixes inv :: "'b \<Rightarrow> bool" and contents :: "'b \<Rightarrow> byte list"
    and request :: "'b \<Rightarrow> (int \<times> byte list \<times> 'b) option" and commit :: "'b \<Rightarrow> nat \<Rightarrow> (int \<times> 'b) option"
  assumes request_ok: "inv b \<Longrightarrow> \<exists>bs b'. request b = Some (if contents b = [] then -1 else 0, bs, b') \<and> inv b'
        \<and> contents b' = contents b \<and> prefix bs (contents b) \<and> (contents b \<noteq> [] \<longrightarrow> bs \<noteq> [])"
    and commit_ok: "inv b \<Longrightarrow> request b = Some (rc, bs, b') \<Longrightarrow> k \<le> length bs \<Longrightarrow>
        \<exists>b''. commit b' k = Some (0, b'') \<and> inv b'' \<and> contents b'' = drop k (contents b)"
begin

lemma transfer:
  assumes "inv b"
  obtains rc bs b1 b2 where "request b = Some (rc, bs, b1)" "commit b1 (min n (length bs)) = Some (0, b2)"
    "inv b2" "contents b = take n bs @ contents b2" "bs = [] \<longleftrightarrow> contents b = []"
proof -
  obtain bs b1 where r: "request b = Some (if contents b = [] then -1 else 0, bs, b1)" and p: "prefix bs (contents b)"
    and ne: "contents b \<noteq> [] \<longrightarrow> bs \<noteq> []"
    using request_ok [OF assms] by blast
  obtain b2 where c: "commit b1 (min n (length bs)) = Some (0, b2)" "inv b2" "contents b2 = drop (min n (length bs)) (contents b)"
    using commit_ok [OF assms r, of "min n (length bs)"] by auto
  have "take (min n (length bs)) (contents b) = take n bs"
    using p by (auto simp: prefix_def min_def)
  then have "contents b = take n bs @ contents b2"
    using c(3) append_take_drop_id [of "min n (length bs)" "contents b"] by simp
  moreover have "bs = [] \<longleftrightarrow> contents b = []" using p ne by (auto simp: prefix_def)
  ultimately show thesis by (rule that [OF r c(1,2)])
qed

end

text \<open>A request without waiting, and the bytes it hands out.\<close>

definition sb_peek :: "'e event_flag \<Rightarrow> 'e seq_buffer \<Rightarrow> (int \<times> byte list \<times> 'e seq_buffer) option" where
  "sb_peek ev b = map_option (\<lambda>(rc, p, b). (rc, (case p of None \<Rightarrow> [] | Some (a, n) \<Rightarrow> slice a n (sb_data b)), b))
     (sb_request_read ev b 0)"

lemma sb_peek_eq: "sb_inv b \<Longrightarrow> sb_peek ev b = Some (if sb_contents b = [] then -1 else 0, sb_segment b, b)"
  using sb_request_read_now [of b ev] by (simp add: sb_peek_def) (simp add: sb_segment_def sb_inv_def)

interpretation sb: byte_source sb_inv sb_contents "sb_peek ev" sb_commit_read for ev
proof unfold_locales
  fix b :: "'a seq_buffer" assume inv: "sb_inv b"
  then have r: "read_ptr b < length (sb_data b)" by (simp add: sb_inv_def)
  show "\<exists>bs b'. sb_peek ev b = Some (if sb_contents b = [] then -1 else 0, bs, b') \<and> sb_inv b'
        \<and> sb_contents b' = sb_contents b \<and> prefix bs (sb_contents b) \<and> (sb_contents b \<noteq> [] \<longrightarrow> bs \<noteq> [])"
    using inv r by (simp add: sb_peek_eq sb_segment_prefix take_is_prefix)
  fix rc bs b' k assume p: "sb_peek ev b = Some (rc, bs, b')" and k: "k \<le> length bs"
  show "\<exists>b''. sb_commit_read b' k = Some (0, b'') \<and> sb_inv b'' \<and> sb_contents b'' = drop k (sb_contents b)"
    using sb_commit_read_ok [OF inv, of k] p k by (auto simp: sb_peek_eq [OF inv])
qed

lemma sb_write_ok:
  assumes inv: "sb_inv b"
  shows "\<exists>b'. sb_write ev b bs =
      Some (if bs = [] \<or> length (sb_data b) < length (sb_contents b) + length bs then -1 else 0, b')
    \<and> sb_inv b' \<and> length (sb_data b') = length (sb_data b)
    \<and> sb_contents b' = (if bs = [] \<or> length (sb_data b) < length (sb_contents b) + length bs then sb_contents b
                         else sb_contents b @ bs)
    \<and> watermark_event b' = (if bs = [] \<or> length (sb_data b) < length (sb_contents b) + length bs
                               \<or> length (sb_contents b @ bs) \<ge> watermark_bytes b
                            then ev_set ev (watermark_event b) else watermark_event b)"
proof -
  have f: "sb_free b < length bs \<longleftrightarrow> length (sb_data b) < length (sb_contents b) + length bs"
    using inv length_sb_contents [OF inv] by (auto simp: sb_inv_def)
  have up: "sb_inv (b\<lparr>watermark_event := e\<rparr>) = sb_inv b \<and> sb_contents (b\<lparr>watermark_event := e\<rparr>) = sb_contents b"
    for b :: "'a seq_buffer" and e by (simp add: sb_inv_def sb_contents_def)
  show ?thesis
  proof (cases "bs = [] \<or> sb_free b < length bs")
    case True
    then show ?thesis using inv f up sb_write_reject [OF True, of ev] by auto
  next
    case False
    then obtain b' where "sb_store b bs b'" "sb_write ev b bs = Some (0,
       if length (sb_contents b') \<ge> watermark_bytes b then b'\<lparr>watermark_event := ev_set ev (watermark_event b)\<rparr> else b')"
      using sb_write_store [OF inv, of bs ev] by force
    then show ?thesis using False f up by (auto simp: sb_store_def)
  qed
qed

section \<open>Properties\<close>

text \<open>
  a write is all or nothing and never touches unread bytes: it is refused exactly when it is
  empty or does not fit, and otherwise appends its bytes, in both shapes of the ring. A refused
  write and one that reaches the watermark wake the readers.
\<close>

theorem sb_write_spec:
  assumes inv: "sb_inv b"
  shows "\<exists>b'. sb_write ev b bs =
      Some (if bs = [] \<or> length (sb_data b) < length (sb_contents b) + length bs then -1 else 0, b')
    \<and> sb_inv b' \<and> length (sb_data b') = length (sb_data b)
    \<and> sb_contents b' = (if bs = [] \<or> length (sb_data b) < length (sb_contents b) + length bs then sb_contents b
                         else sb_contents b @ bs)
    \<and> watermark_event b' = (if bs = [] \<or> length (sb_data b) < length (sb_contents b) + length bs
                               \<or> length (sb_contents b @ bs) \<ge> watermark_bytes b
                            then ev_set ev (watermark_event b) else watermark_event b)"
  by (rule sb_write_ok [OF inv])

theorem sb_write_spec_witness:
  "\<exists>b'. sb_write int_status (sb_new 4 False) [1, 2, 3] = Some (0, b') \<and> sb_contents b' = [1, 2, 3] \<and> watermark_event b'"
  using sb_write_spec [of "sb_new 4 False" int_status "[1, 2, 3]"] sb_new_inv [of 4 False]
  by (auto simp: sb_new_def sb_clear_def int_status_def)

text \<open>A trace of one producer and one consumer; the consumer may commit less than it was handed.\<close>

datatype sb_op = Op_Write "byte list" | Op_Read nat

fun sb_run :: "'e event_flag \<Rightarrow> 'e seq_buffer \<Rightarrow> sb_op list \<Rightarrow> ('e seq_buffer \<times> byte list \<times> byte list) option" where
  "sb_run ev b [] = Some (b, [], [])"
| "sb_run ev b (Op_Write bs # ops) = do {
     (rc, b) \<leftarrow> sb_write ev b bs;
     (b, accepted, delivered) \<leftarrow> sb_run ev b ops;
     Some (b, (if rc = 0 then bs else []) @ accepted, delivered)
   }"
| "sb_run ev b (Op_Read n # ops) = do {
     (rc, bs, b) \<leftarrow> sb_peek ev b;
     (_, b) \<leftarrow> sb_commit_read b (min n (length bs));
     (b, accepted, delivered) \<leftarrow> sb_run ev b ops;
     Some (b, accepted, take n bs @ delivered)
   }"

text \<open>
  C13: in every interleaving of writes and reads the buffer is a queue of bytes: no operation
  fails an assertion or leaves the array, and the bytes delivered followed by those still stored
  are exactly the bytes stored at first followed by those accepted, in order, none lost or
  duplicated.
\<close>

theorem sb_run_fifo:
  assumes "sb_inv b"
  shows "\<exists>b' accepted delivered. sb_run ev b ops = Some (b', accepted, delivered) \<and> sb_inv b'
    \<and> sb_contents b @ accepted = delivered @ sb_contents b'"
  using assms
proof (induction ops arbitrary: b)
  case Nil
  then show ?case by simp
next
  case (Cons op ops)
  show ?case
  proof (cases op)
    case (Op_Write bs)
    have "\<exists>rc b1. sb_write ev b bs = Some (rc, b1) \<and> sb_inv b1 \<and> sb_contents b1 = sb_contents b @ (if rc = 0 then bs else [])"
    proof -
      let ?R = "bs = [] \<or> length (sb_data b) < length (sb_contents b) + length bs"
      obtain b1 where "sb_write ev b bs = Some (if ?R then -1 else 0, b1)" "sb_inv b1"
        "sb_contents b1 = (if ?R then sb_contents b else sb_contents b @ bs)"
        using sb_write_ok [OF Cons.prems, of ev bs] by blast
      then show ?thesis by (cases ?R) simp_all
    qed
    then obtain rc b1 where w: "sb_write ev b bs = Some (rc, b1)" "sb_inv b1" "sb_contents b1 = sb_contents b @ (if rc = 0 then bs else [])"
      by blast
    show ?thesis using Cons.IH [OF w(2)] w Op_Write by auto
  next
    case (Op_Read n)
    obtain rc bs b1 b2 where t: "sb_peek ev b = Some (rc, bs, b1)" "sb_commit_read b1 (min n (length bs)) = Some (0, b2)"
      "sb_inv b2" "sb_contents b = take n bs @ sb_contents b2"
      using sb.transfer [OF Cons.prems] by metis
    show ?thesis using Cons.IH [OF t(3)] t Op_Read by auto
  qed
qed

theorem sb_run_fifo_witness:
  "\<exists>b' accepted delivered. sb_run int_status (sb_new 4 False) [Op_Write [1, 2, 3], Op_Read 2, Op_Write [4, 5, 6], Op_Read 9]
      = Some (b', accepted, delivered) \<and> accepted = delivered @ sb_contents b'"
  using sb_run_fifo [of "sb_new 4 False" int_status "[Op_Write [1, 2, 3], Op_Read 2, Op_Write [4, 5, 6], Op_Read 9]"]
    sb_new_inv [of 4 False] by auto

text \<open>
  \<^verbatim>\<open>commit_read\<close> only checks the end of the array. Committing more bytes than are stored
  returns success and leaves more free space than the array has, so the next \<^verbatim>\<open>size\<close> fails its
  assertion.
\<close>

theorem sb_commit_read_unchecked:
  assumes "sb_inv b" "length (sb_contents b) < k" "read_ptr b + k \<le> length (sb_data b)"
  shows "\<exists>b'. sb_commit_read b k = Some (0, b') \<and> sb_size b' = None"
  using assms length_sb_contents [OF assms(1)] by (simp add: sb_commit_read_def sb_size_def sb_inv_def Let_def)

theorem sb_commit_read_unchecked_witness:
  "\<exists>b'. sb_commit_read (sb_new 4 False) 1 = Some (0, b') \<and> sb_size b' = None"
  using sb_commit_read_unchecked [of "sb_new 4 False" 1] sb_new_inv [of 4 False] by (simp add: sb_new_def sb_clear_def)

end
