(* ===== verification/CommandQueue.thy ===== *)
theory CommandQueue
  imports Prelude
begin

text \<open>
  The command queue of \<^verbatim>\<open>lib_util/command_queue.h\<close>: closures executed on another thread, at once,
  after a delay or at an interval. The template parameters are parameters of the model: the
  queue type as a record of its two operations, the status flag as a boolean. So are the
  platform's clock \<^verbatim>\<open>nowMs\<close> and the closures, which may do anything to the program state,
  including to the queue itself. One step of the model is one call; the threads interleave
  between calls. \<open>None\<close> is an index outside the array of contexts or a loop that does not end.
\<close>

section \<open>The queue interface\<close>

record 'q queue_ops =
  q_put :: "nat \<Rightarrow> nat \<Rightarrow> 'q \<Rightarrow> int \<times> 'q"
  q_pop :: "nat \<Rightarrow> 'q \<Rightarrow> int \<times> nat \<times> 'q"

text \<open>
  The contract: a bounded first-in first-out queue. The second argument of \<open>q_put\<close> and the
  first of \<open>q_pop\<close> are timeouts, which only matter to other threads.
\<close>

locale bounded_queue =
  fixes qo :: "'q queue_ops" and qinv :: "'q \<Rightarrow> bool" and contents :: "'q \<Rightarrow> nat list" and cap :: nat
  assumes put_ok: "qinv q \<Longrightarrow> length (contents q) < cap \<Longrightarrow>
        \<exists>q'. q_put qo i t q = (0, q') \<and> qinv q' \<and> contents q' = contents q @ [i]"
    and pop_empty: "qinv q \<Longrightarrow> contents q = [] \<Longrightarrow> \<exists>rc i. rc \<noteq> 0 \<and> q_pop qo t q = (rc, i, q)"
    and pop_ok: "qinv q \<Longrightarrow> contents q = i # is \<Longrightarrow> \<exists>q'. q_pop qo t q = (0, i, q') \<and> qinv q' \<and> contents q' = is"

text \<open>The queue the repository's own tests instantiate the template with.\<close>

record test_queue =
  tq_queue :: "nat list"
  tq_size :: nat

definition tq_ops :: "test_queue queue_ops" where
  "tq_ops = \<lparr>
     q_put = (\<lambda>i _ q. if length (tq_queue q) < tq_size q then (0, q\<lparr>tq_queue := tq_queue q @ [i]\<rparr>) else (-1, q)),
     q_pop = (\<lambda>_ q. case tq_queue q of [] \<Rightarrow> (-1, 0, q) | i # is \<Rightarrow> (0, i, q\<lparr>tq_queue := is\<rparr>))\<rparr>"

interpretation tq: bounded_queue tq_ops "\<lambda>q. tq_size q = n" tq_queue n for n
  by unfold_locales (auto simp: tq_ops_def)

section \<open>State\<close>

record 'f func_context =
  ref_count :: int
  func :: 'f
  status :: bool
  cancelled :: int
  scheduled_ms :: u32
  cmd_id :: int
  interval_ms :: u32

record ('q, 'f, 'w) command_queue =
  commands_later :: 'q
  commands :: 'q
  func_contexts :: "'f func_context list"
  world :: 'w

definition new_context :: "'f \<Rightarrow> 'f func_context" where
  "new_context f = \<lparr>ref_count = 0, func = f, status = False, cancelled = 0, scheduled_ms = 0, cmd_id = -1, interval_ms = -1\<rparr>"

definition cq_new :: "'q \<Rightarrow> nat \<Rightarrow> 'f \<Rightarrow> 'w \<Rightarrow> ('q, 'f, 'w) command_queue" where
  "cq_new q n f w = \<lparr>commands_later = q, commands = q, func_contexts = replicate n (new_context f), world = w\<rparr>"

definition context_reset :: "'f func_context \<Rightarrow> 'f func_context" where
  "context_reset c = c\<lparr>status := False, scheduled_ms := 0, cmd_id := -1, interval_ms := -1, cancelled := 0\<rparr>"

definition inc_ref_count :: "'f func_context \<Rightarrow> 'f func_context" where
  "inc_ref_count c = c\<lparr>ref_count := ref_count c + 1\<rparr>"

definition dec_ref_count :: "'f func_context \<Rightarrow> 'f func_context" where
  "dec_ref_count c = c\<lparr>ref_count := ref_count c - 1\<rparr>"

text \<open>Updating the context with a given index.\<close>

definition upd_context :: "nat \<Rightarrow> ('f func_context \<Rightarrow> 'f func_context) \<Rightarrow> ('q, 'f, 'w) command_queue \<Rightarrow> ('q, 'f, 'w) command_queue" where
  "upd_context i g s = s\<lparr>func_contexts := (func_contexts s)[i := g (func_contexts s ! i)]\<rparr>"

text \<open>\<^verbatim>\<open>std::find_if\<close> on the array: the index of the first hit.\<close>

fun find_index :: "('a \<Rightarrow> bool) \<Rightarrow> 'a list \<Rightarrow> nat option" where
  "find_index P [] = None"
| "find_index P (x # xs) = (if P x then Some 0 else map_option Suc (find_index P xs))"

definition find_available_func_context :: "('q, 'f, 'w) command_queue \<Rightarrow> nat option" where
  "find_available_func_context s = find_index (\<lambda>c. ref_count c = 0) (func_contexts s)"

definition cq_cancel :: "int \<Rightarrow> ('q, 'f, 'w) command_queue \<Rightarrow> int \<times> ('q, 'f, 'w) command_queue" where
  "cq_cancel n s = (0, case find_index (\<lambda>c. cmd_id c = n \<and> ref_count c > 0) (func_contexts s) of None \<Rightarrow> s
     | Some i \<Rightarrow> upd_context i (\<lambda>c. c\<lparr>cancelled := 1\<rparr>) s)"

section \<open>Submitting\<close>

definition put_commands :: "'q queue_ops \<Rightarrow> nat \<Rightarrow> nat \<Rightarrow> ('q, 'f, 'w) command_queue \<Rightarrow> int \<times> ('q, 'f, 'w) command_queue" where
  "put_commands qo i t s = (case q_put qo i t (commands s) of (rc, q) \<Rightarrow> (rc, s\<lparr>commands := q\<rparr>))"

definition put_later :: "'q queue_ops \<Rightarrow> nat \<Rightarrow> nat \<Rightarrow> ('q, 'f, 'w) command_queue \<Rightarrow> int \<times> ('q, 'f, 'w) command_queue" where
  "put_later qo i t s = (case q_put qo i t (commands_later s) of (rc, q) \<Rightarrow> (rc, s\<lparr>commands_later := q\<rparr>))"

text \<open>A failed put gives the context back.\<close>

definition put_or_release :: "nat \<Rightarrow> int \<times> ('q, 'f, 'w) command_queue \<Rightarrow> int \<times> ('q, 'f, 'w) command_queue" where
  "put_or_release i r = (case r of (rc, s) \<Rightarrow> if rc \<noteq> 0 then (-1, upd_context i dec_ref_count s) else (0, s))"

definition execute_async :: "'q queue_ops \<Rightarrow> 'f \<Rightarrow> ('q, 'f, 'w) command_queue \<Rightarrow> int \<times> ('q, 'f, 'w) command_queue" where
  "execute_async qo f s = (case find_available_func_context s of None \<Rightarrow> (-1, s)
     | Some i \<Rightarrow> let s = upd_context i (\<lambda>c. inc_ref_count ((context_reset c)\<lparr>func := f, scheduled_ms := 0, status := False\<rparr>)) s
                 in put_or_release i (put_commands qo i 100 s))"

definition execute_async_later ::
  "'q queue_ops \<Rightarrow> ('w \<Rightarrow> u32 \<times> 'w) \<Rightarrow> 'f \<Rightarrow> u32 \<Rightarrow> int \<Rightarrow> ('q, 'f, 'w) command_queue \<Rightarrow> int \<times> ('q, 'f, 'w) command_queue" where
  "execute_async_later qo now_ms f delay_ms n s = (case find_available_func_context s of None \<Rightarrow> (-1, s)
     | Some i \<Rightarrow> let (t, w) = now_ms (world s);
                     s = upd_context i (\<lambda>c. inc_ref_count ((context_reset c)\<lparr>func := f, scheduled_ms := t + delay_ms,
                           status := False, cmd_id := n\<rparr>)) (s\<lparr>world := w\<rparr>)
                 in put_or_release i (put_later qo i 100 s))"

definition execute_async_interval ::
  "'q queue_ops \<Rightarrow> ('w \<Rightarrow> u32 \<times> 'w) \<Rightarrow> 'f \<Rightarrow> u32 \<Rightarrow> int \<Rightarrow> ('q, 'f, 'w) command_queue \<Rightarrow> int \<times> ('q, 'f, 'w) command_queue" where
  "execute_async_interval qo now_ms f interval n s = (case find_available_func_context s of None \<Rightarrow> (-1, s)
     | Some i \<Rightarrow> let (t, w) = now_ms (world s);
                     s = upd_context i (\<lambda>c. inc_ref_count ((context_reset c)\<lparr>func := f, scheduled_ms := t + interval,
                           status := False, cmd_id := n, interval_ms := interval\<rparr>)) (s\<lparr>world := w\<rparr>)
                 in put_or_release i (put_later qo i 100 s))"

section \<open>Processing\<close>

definition get_context :: "('q, 'f, 'w) command_queue \<Rightarrow> nat \<Rightarrow> 'f func_context option" where
  "get_context s i = (if i < length (func_contexts s) then Some (func_contexts s ! i) else None)"

text \<open>
  One pass over the delayed commands: the first one that is due moves to the other queue and
  ends the pass; the others re-enter at the back, until the first of them comes around again.
\<close>

partial_function (option) enqueue_loop ::
  "'q queue_ops \<Rightarrow> u32 \<Rightarrow> nat option \<Rightarrow> ('q, 'f, 'w) command_queue \<Rightarrow> ('q, 'f, 'w) command_queue option" where
  "enqueue_loop qo now start s = (case q_pop qo 0 (commands_later s) of (rc, i, q) \<Rightarrow>
     if rc \<noteq> 0 then Some (s\<lparr>commands_later := q\<rparr>)
     else do {
       c \<leftarrow> get_context s i;
       let s = s\<lparr>commands_later := q\<rparr>;
       if now \<ge> scheduled_ms c then Some (snd (put_or_release i (put_commands qo i 0 s)))
       else do {
         let s = snd (put_later qo i 0 s);
         if start = Some i then Some s
         else enqueue_loop qo now (if start = None then Some i else start) s
       }
     })"

definition enqueue_delayed_commands ::
  "'q queue_ops \<Rightarrow> ('w \<Rightarrow> u32 \<times> 'w) \<Rightarrow> ('q, 'f, 'w) command_queue \<Rightarrow> ('q, 'f, 'w) command_queue option" where
  "enqueue_delayed_commands qo now_ms s = (let (t, w) = now_ms (world s) in enqueue_loop qo t None (s\<lparr>world := w\<rparr>))"

definition cq_process ::
  "'q queue_ops \<Rightarrow> ('w \<Rightarrow> u32 \<times> 'w) \<Rightarrow> ('f \<Rightarrow> ('q, 'f, 'w) command_queue \<Rightarrow> ('q, 'f, 'w) command_queue)
     \<Rightarrow> nat \<Rightarrow> ('q, 'f, 'w) command_queue \<Rightarrow> ('q, 'f, 'w) command_queue option" where
  "cq_process qo now_ms call timeout s = do {
     s \<leftarrow> enqueue_delayed_commands qo now_ms s;
     (case q_pop qo timeout (commands s) of (rc, i, q) \<Rightarrow> do {
       let s = s\<lparr>commands := q\<rparr>;
       if rc \<noteq> 0 then Some s
       else do {
         c \<leftarrow> get_context s i;
         if cancelled c \<noteq> 0 then Some (upd_context i dec_ref_count s)
         else do {
           let s = call (func c) s;
           c \<leftarrow> get_context s i;
           if sint (interval_ms c) > 0 then do {
             let (t, w) = now_ms (world s);
             let s = upd_context i (\<lambda>c. c\<lparr>scheduled_ms := t + interval_ms c\<rparr>) (s\<lparr>world := w\<rparr>);
             Some (snd (put_or_release i (put_later qo i 100 s)))
           }
           else Some (upd_context i (\<lambda>c. dec_ref_count (c\<lparr>status := True\<rparr>)) s)
         }
       }
     })
   }"

section \<open>The ownership invariant\<close>

text \<open>
  Every context is in at most one place: waiting in one of the two queues, or being executed
  (the list \<open>R\<close>, innermost call first). Its reference count says which: 1 if it is somewhere,
  0 if it is free.
\<close>

definition owned :: "('q \<Rightarrow> nat list) \<Rightarrow> nat list \<Rightarrow> ('q, 'f, 'w) command_queue \<Rightarrow> nat list" where
  "owned contents R s = R @ contents (commands s) @ contents (commands_later s)"

definition cq_inv :: "('q \<Rightarrow> bool) \<Rightarrow> ('q \<Rightarrow> nat list) \<Rightarrow> nat \<Rightarrow> nat list \<Rightarrow> ('q, 'f, 'w) command_queue \<Rightarrow> bool" where
  "cq_inv qinv contents cap R s \<longleftrightarrow> qinv (commands s) \<and> qinv (commands_later s) \<and> length (func_contexts s) = cap
     \<and> distinct (owned contents R s) \<and> set (owned contents R s) \<subseteq> {..<cap}
     \<and> (\<forall>i < cap. ref_count (func_contexts s ! i) = (if i \<in> set (owned contents R s) then 1 else 0))"

lemma find_index_Some: "find_index P xs = Some i \<Longrightarrow> i < length xs \<and> P (xs ! i)"
  by (induction xs arbitrary: i) (auto split: if_splits)

lemma find_index_None: "find_index P xs = None \<longleftrightarrow> (\<forall>x \<in> set xs. \<not> P x)"
  by (induction xs) auto

lemma upd_context_simps [simp]:
  "commands (upd_context i g s) = commands s" "commands_later (upd_context i g s) = commands_later s"
  "world (upd_context i g s) = world s" "length (func_contexts (upd_context i g s)) = length (func_contexts s)"
  "owned contents R (upd_context i g s) = owned contents R s"
  by (simp_all add: upd_context_def owned_def)

lemma upd_context_nth: "j < length (func_contexts s) \<Longrightarrow>
    func_contexts (upd_context i g s) ! j = (if i = j then g (func_contexts s ! j) else func_contexts s ! j)"
  by (simp add: upd_context_def nth_list_update)

lemma cq_inv_world [simp]: "cq_inv qinv contents cap R (s\<lparr>world := w\<rparr>) = cq_inv qinv contents cap R s"
  by (simp add: cq_inv_def owned_def)

lemma cq_inv_upd_same:
  "cq_inv qinv contents cap R s \<Longrightarrow> (\<And>c. ref_count (g c) = ref_count c) \<Longrightarrow> cq_inv qinv contents cap R (upd_context i g s)"
  by (simp add: cq_inv_def upd_context_nth)

lemma cq_inv_take:
  assumes inv: "cq_inv qinv contents cap R s" and f: "find_available_func_context s = Some i"
    and g: "\<And>c. ref_count (g c) = ref_count c + 1"
  shows "cq_inv qinv contents cap (i # R) (upd_context i g s)" "i < cap" "i \<notin> set (owned contents R s)"
proof -
  have i: "i < cap" "ref_count (func_contexts s ! i) = 0"
    using f inv find_index_Some by (fastforce simp: find_available_func_context_def cq_inv_def)+
  then show "i < cap" by simp
  show n: "i \<notin> set (owned contents R s)" using inv i by (auto simp: cq_inv_def split: if_splits)
  show "cq_inv qinv contents cap (i # R) (upd_context i g s)"
    using inv i n g by (auto simp: cq_inv_def upd_context_nth owned_def)
qed

lemma cq_inv_release:
  assumes inv: "cq_inv qinv contents cap (i # R) s" and g: "\<And>c. ref_count (g c) = ref_count c - 1"
  shows "cq_inv qinv contents cap R (upd_context i g s)"
  using inv g by (auto simp: cq_inv_def upd_context_nth owned_def)

lemma cq_inv_room:
  assumes "cq_inv qinv contents cap (i # R) s"
  shows "length (contents (commands s)) < cap" "length (contents (commands_later s)) < cap"
proof -
  have "length (owned contents (i # R) s) = card (set (owned contents (i # R) s))"
    using assms by (metis cq_inv_def distinct_card)
  also have "\<dots> \<le> cap" using assms card_mono [of "{..<cap}"] by (simp add: cq_inv_def)
  finally show "length (contents (commands s)) < cap" "length (contents (commands_later s)) < cap"
    by (simp_all add: owned_def)
qed

lemma get_context_inv: "cq_inv qinv contents cap R s \<Longrightarrow> i < cap \<Longrightarrow> get_context s i = Some (func_contexts s ! i)"
  by (simp add: get_context_def cq_inv_def)

lemma find_available_iff:
  assumes inv: "cq_inv qinv contents cap R s"
  shows "find_available_func_context s = None \<longleftrightarrow> \<not> length (owned contents R s) < cap"
proof -
  let ?O = "owned contents R s"
  have len: "length ?O = card (set ?O)" and sub: "set ?O \<subseteq> {..<cap}"
    using inv by (simp_all add: cq_inv_def distinct_card)
  have "find_available_func_context s = None \<longleftrightarrow> (\<forall>i < cap. ref_count (func_contexts s ! i) \<noteq> 0)"
    using inv by (auto simp: find_available_func_context_def find_index_None all_set_conv_all_nth cq_inv_def)
  also have "\<dots> \<longleftrightarrow> {..<cap} \<subseteq> set ?O"
    using inv by (auto simp: cq_inv_def)
  also have "\<dots> \<longleftrightarrow> \<not> card (set ?O) < cap"
  proof
    assume "{..<cap} \<subseteq> set ?O"
    from card_mono [OF _ this] show "\<not> card (set ?O) < cap" by simp
  next
    assume "\<not> card (set ?O) < cap"
    then have "set ?O = {..<cap}" using sub card_mono [OF _ sub] by (intro card_subset_eq) auto
    then show "{..<cap} \<subseteq> set ?O" by simp
  qed
  finally show ?thesis by (simp add: len)
qed

context bounded_queue
begin

lemma put_commands_ok:
  assumes "cq_inv qinv contents cap (i # R) s"
  obtains s' where "put_or_release i (put_commands qo i t s) = (0, s')" "cq_inv qinv contents cap R s'"
    "contents (commands s') = contents (commands s) @ [i]" "commands_later s' = commands_later s"
    "func_contexts s' = func_contexts s" "world s' = world s"
proof -
  obtain q where q: "q_put qo i t (commands s) = (0, q)" "qinv q" "contents q = contents (commands s) @ [i]"
    using put_ok [of "commands s"] cq_inv_room(1) [OF assms] assms by (metis cq_inv_def)
  show thesis
    by (rule that [of "s\<lparr>commands := q\<rparr>"])
      (use q assms in \<open>auto simp: put_or_release_def put_commands_def cq_inv_def owned_def\<close>)
qed

lemma put_later_ok:
  assumes "cq_inv qinv contents cap (i # R) s"
  obtains s' where "put_later qo i t s = (0, s')" "put_or_release i (put_later qo i t s) = (0, s')" "cq_inv qinv contents cap R s'"
    "contents (commands_later s') = contents (commands_later s) @ [i]" "commands s' = commands s"
    "func_contexts s' = func_contexts s" "world s' = world s"
proof -
  obtain q where q: "q_put qo i t (commands_later s) = (0, q)" "qinv q" "contents q = contents (commands_later s) @ [i]"
    using put_ok [of "commands_later s"] cq_inv_room(2) [OF assms] assms by (metis cq_inv_def)
  show thesis
    by (rule that [of "s\<lparr>commands_later := q\<rparr>"])
      (use q assms in \<open>auto simp: put_or_release_def put_later_def cq_inv_def owned_def\<close>)
qed

lemma pop_commands_ok:
  assumes "cq_inv qinv contents cap R s" "contents (commands s) = i # is"
  obtains q where "q_pop qo t (commands s) = (0, i, q)" "contents q = is"
    "cq_inv qinv contents cap (i # R) (s\<lparr>commands := q\<rparr>)" "i < cap"
proof -
  obtain q where q: "q_pop qo t (commands s) = (0, i, q)" "qinv q" "contents q = is"
    using pop_ok [of "commands s"] assms by (metis cq_inv_def)
  show thesis
    by (rule that [OF q(1,3)]) (use q assms in \<open>auto simp: cq_inv_def owned_def\<close>)
qed

lemma pop_later_ok:
  assumes "cq_inv qinv contents cap R s" "contents (commands_later s) = i # is"
  obtains q where "q_pop qo t (commands_later s) = (0, i, q)" "contents q = is"
    "cq_inv qinv contents cap (i # R) (s\<lparr>commands_later := q\<rparr>)" "i < cap"
proof -
  obtain q where q: "q_pop qo t (commands_later s) = (0, i, q)" "qinv q" "contents q = is"
    using pop_ok [of "commands_later s"] assms by (metis cq_inv_def)
  show thesis
    by (rule that [OF q(1,3)]) (use q assms in \<open>auto simp: cq_inv_def owned_def\<close>)
qed

text \<open>A submission succeeds exactly when a context is free; a put never fails.\<close>

lemma execute_async_ok:
  assumes inv: "cq_inv qinv contents cap R s"
  shows "\<exists>s'. execute_async qo f s = (if length (owned contents R s) < cap then 0 else -1, s') \<and> cq_inv qinv contents cap R s'
    \<and> (if length (owned contents R s) < cap
       then \<exists>i. i < cap \<and> i \<notin> set (owned contents R s) \<and> contents (commands s') = contents (commands s) @ [i]
              \<and> commands_later s' = commands_later s \<and> world s' = world s
              \<and> func (func_contexts s' ! i) = f \<and> cancelled (func_contexts s' ! i) = 0 \<and> interval_ms (func_contexts s' ! i) = -1
              \<and> (\<forall>j < cap. j \<noteq> i \<longrightarrow> func_contexts s' ! j = func_contexts s ! j)
       else s' = s)"
proof (cases "find_available_func_context s")
  case None
  then show ?thesis using inv find_available_iff [OF inv] by (simp add: execute_async_def)
next
  case (Some i)
  define g where "g = (\<lambda>c. inc_ref_count ((context_reset c)\<lparr>func := f, scheduled_ms := 0, status := False\<rparr>))"
  have g: "ref_count (g c) = ref_count c + 1" for c by (simp add: g_def inc_ref_count_def context_reset_def)
  note t = cq_inv_take [OF inv Some, of g, OF g]
  obtain s' where p: "put_or_release i (put_commands qo i 100 (upd_context i g s)) = (0, s')" "cq_inv qinv contents cap R s'"
    "contents (commands s') = contents (commands (upd_context i g s)) @ [i]" "commands_later s' = commands_later (upd_context i g s)"
    "func_contexts s' = func_contexts (upd_context i g s)" "world s' = world (upd_context i g s)"
    by (rule put_commands_ok [OF t(1), of 100]) (rule that)
  have len: "length (func_contexts s) = cap" using inv by (simp add: cq_inv_def)
  have "execute_async qo f s = (0, s')" using Some p(1) by (simp add: execute_async_def g_def)
  moreover have "length (owned contents R s) < cap" using find_available_iff [OF inv] Some by simp
  ultimately show ?thesis
    using p(2-6) t(2,3) len
    by (intro exI [of _ s']) (auto simp: upd_context_nth g_def inc_ref_count_def context_reset_def)
qed

lemma execute_async_later_ok:
  assumes inv: "cq_inv qinv contents cap R s"
  shows "\<exists>s'. execute_async_later qo now_ms f d n s = (if length (owned contents R s) < cap then 0 else -1, s')
    \<and> cq_inv qinv contents cap R s'"
proof (cases "find_available_func_context s")
  case None
  then show ?thesis using inv find_available_iff [OF inv] by (simp add: execute_async_later_def)
next
  case (Some i)
  obtain t w where n: "now_ms (world s) = (t, w)" by (cases "now_ms (world s)")
  define g where "g = (\<lambda>c. inc_ref_count ((context_reset c)\<lparr>func := f, scheduled_ms := t + d, status := False, cmd_id := n\<rparr>))"
  have g: "ref_count (g c) = ref_count c + 1" for c by (simp add: g_def inc_ref_count_def context_reset_def)
  have invw: "cq_inv qinv contents cap R (s\<lparr>world := w\<rparr>)" and Sw: "find_available_func_context (s\<lparr>world := w\<rparr>) = Some i"
    using inv Some by (simp_all add: find_available_func_context_def)
  obtain s' where "put_or_release i (put_later qo i 100 (upd_context i g (s\<lparr>world := w\<rparr>))) = (0, s')" "cq_inv qinv contents cap R s'"
    by (rule put_later_ok [OF cq_inv_take(1) [OF invw Sw, of g, OF g], of 100]) (rule that)
  then show ?thesis using find_available_iff [OF inv] Some n
    by (simp add: execute_async_later_def g_def)
qed

lemma execute_async_interval_ok:
  assumes inv: "cq_inv qinv contents cap R s"
  shows "\<exists>s'. execute_async_interval qo now_ms f d n s = (if length (owned contents R s) < cap then 0 else -1, s')
    \<and> cq_inv qinv contents cap R s'"
proof (cases "find_available_func_context s")
  case None
  then show ?thesis using inv find_available_iff [OF inv] by (simp add: execute_async_interval_def)
next
  case (Some i)
  obtain t w where n: "now_ms (world s) = (t, w)" by (cases "now_ms (world s)")
  define g where "g = (\<lambda>c. inc_ref_count ((context_reset c)\<lparr>func := f, scheduled_ms := t + d, status := False, cmd_id := n, interval_ms := d\<rparr>))"
  have g: "ref_count (g c) = ref_count c + 1" for c by (simp add: g_def inc_ref_count_def context_reset_def)
  have invw: "cq_inv qinv contents cap R (s\<lparr>world := w\<rparr>)" and Sw: "find_available_func_context (s\<lparr>world := w\<rparr>) = Some i"
    using inv Some by (simp_all add: find_available_func_context_def)
  obtain s' where "put_or_release i (put_later qo i 100 (upd_context i g (s\<lparr>world := w\<rparr>))) = (0, s')" "cq_inv qinv contents cap R s'"
    by (rule put_later_ok [OF cq_inv_take(1) [OF invw Sw, of g, OF g], of 100]) (rule that)
  then show ?thesis using find_available_iff [OF inv] Some n
    by (simp add: execute_async_interval_def g_def)
qed

section \<open>The pass over the delayed commands\<close>

lemma enqueue_step:
  assumes "q_pop qo 0 (commands_later s) = (0, i, q)" "get_context s i = Some c"
  shows "enqueue_loop qo now start s =
    (if scheduled_ms c \<le> now then Some (snd (put_or_release i (put_commands qo i 0 (s\<lparr>commands_later := q\<rparr>))))
     else let s = snd (put_later qo i 0 (s\<lparr>commands_later := q\<rparr>)) in
          if start = Some i then Some s else enqueue_loop qo now (if start = None then Some i else start) s)"
  using assms by (subst enqueue_loop.simps) simp

lemma enqueue_loop_later:
  assumes "cq_inv qinv contents cap R s" "contents (commands_later s) = us @ h # vs" "now < scheduled_ms (func_contexts s ! h)"
  shows "\<exists>s'. enqueue_loop qo now (Some h) s = Some s' \<and> cq_inv qinv contents cap R s' \<and> func_contexts s' = func_contexts s \<and> world s' = world s
    \<and> (case dropWhile (\<lambda>i. now < scheduled_ms (func_contexts s ! i)) us of
         [] \<Rightarrow> contents (commands_later s') = vs @ us @ [h] \<and> contents (commands s') = contents (commands s)
       | d # b \<Rightarrow> contents (commands_later s') = b @ h # vs @ takeWhile (\<lambda>i. now < scheduled_ms (func_contexts s ! i)) us
               \<and> contents (commands s') = contents (commands s) @ [d])"
  using assms
proof (induction us arbitrary: s vs)
  case Nil
  obtain q where q: "q_pop qo 0 (commands_later s) = (0, h, q)" "contents q = vs"
    "cq_inv qinv contents cap (h # R) (s\<lparr>commands_later := q\<rparr>)" "h < cap"
    by (rule pop_later_ok [OF Nil.prems(1), of h vs 0]) (use Nil.prems in simp, rule that)
  obtain s' where p: "put_later qo h 0 (s\<lparr>commands_later := q\<rparr>) = (0, s')" "cq_inv qinv contents cap R s'"
    "contents (commands_later s') = contents q @ [h]" "commands s' = commands s"
    "func_contexts s' = func_contexts s" "world s' = world s"
    by (rule put_later_ok [OF q(3), of 0]) (rule that, assumption, simp_all)
  have "enqueue_loop qo now (Some h) s = Some s'"
    using p(1) linorder_not_le [THEN iffD2, OF Nil.prems(3)]
      unfolding enqueue_step [OF q(1) get_context_inv [OF Nil.prems(1) q(4)]] by (simp add: Let_def)
  then show ?case using p q(2) by simp
next
  case (Cons u us)
  obtain q where q: "q_pop qo 0 (commands_later s) = (0, u, q)" "contents q = us @ h # vs"
    "cq_inv qinv contents cap (u # R) (s\<lparr>commands_later := q\<rparr>)" "u < cap"
    by (rule pop_later_ok [OF Cons.prems(1), of u "us @ h # vs" 0]) (use Cons.prems in simp, rule that)
  note g = get_context_inv [OF Cons.prems(1) q(4)] and Q = q(1)
  show ?case
  proof (cases "now < scheduled_ms (func_contexts s ! u)")
    case True
    obtain s1 where p: "put_later qo u 0 (s\<lparr>commands_later := q\<rparr>) = (0, s1)" "cq_inv qinv contents cap R s1"
      "contents (commands_later s1) = contents q @ [u]" "commands s1 = commands s"
      "func_contexts s1 = func_contexts s" "world s1 = world s"
      by (rule put_later_ok [OF q(3), of 0]) (rule that, assumption, simp_all)
    have "u \<noteq> h" using Cons.prems(1,2) by (auto simp: cq_inv_def owned_def)
    then have step: "enqueue_loop qo now (Some h) s = enqueue_loop qo now (Some h) s1"
      using p(1) linorder_not_le [THEN iffD2, OF True] unfolding enqueue_step [OF Q g] by (simp add: Let_def)
    have c: "contents (commands_later s1) = us @ h # (vs @ [u])" using p(3) q(2) by simp
    show ?thesis
      unfolding step using Cons.IH [OF p(2) c] Cons.prems(3) p(4-6) True by (auto split: list.splits)
  next
    case False
    obtain s1 where p: "put_or_release u (put_commands qo u 0 (s\<lparr>commands_later := q\<rparr>)) = (0, s1)" "cq_inv qinv contents cap R s1"
      "contents (commands s1) = contents (commands s) @ [u]" "commands_later s1 = q"
      "func_contexts s1 = func_contexts s" "world s1 = world s"
      by (rule put_commands_ok [OF q(3), of 0]) (rule that, assumption, simp_all)
    have "enqueue_loop qo now (Some h) s = Some s1"
      using p(1) leI [OF False] unfolding enqueue_step [OF Q g] by simp
    then show ?thesis using p q(2) False by simp
  qed
qed

lemma enqueue_delayed_ok:
  assumes inv: "cq_inv qinv contents cap R s" and n: "now_ms (world s) = (t, w)"
  shows "\<exists>s'. enqueue_delayed_commands qo now_ms s = Some s' \<and> cq_inv qinv contents cap R s' \<and> func_contexts s' = func_contexts s \<and> world s' = w
    \<and> (case dropWhile (\<lambda>i. t < scheduled_ms (func_contexts s ! i)) (contents (commands_later s)) of
         [] \<Rightarrow> contents (commands_later s') = rotate1 (contents (commands_later s)) \<and> contents (commands s') = contents (commands s)
       | d # b \<Rightarrow> contents (commands_later s') = b @ takeWhile (\<lambda>i. t < scheduled_ms (func_contexts s ! i)) (contents (commands_later s))
               \<and> contents (commands s') = contents (commands s) @ [d])"
proof -
  let ?s = "s\<lparr>world := w\<rparr>"
  have e: "enqueue_delayed_commands qo now_ms s = enqueue_loop qo t None ?s" by (simp add: enqueue_delayed_commands_def n)
  have invw: "cq_inv qinv contents cap R ?s" using inv by simp
  show ?thesis
  proof (cases "contents (commands_later s)")
    case Nil
    obtain rc i where "rc \<noteq> 0" "q_pop qo 0 (commands_later s) = (rc, i, commands_later s)"
      using pop_empty [of "commands_later s" 0] Nil inv by (auto simp: cq_inv_def)
    then have "enqueue_loop qo t None ?s = Some ?s" by (simp add: enqueue_loop.simps)
    then show ?thesis unfolding e using inv Nil by simp
  next
    case (Cons u us)
    obtain q where q: "q_pop qo 0 (commands_later ?s) = (0, u, q)" "contents q = us"
      "cq_inv qinv contents cap (u # R) (?s\<lparr>commands_later := q\<rparr>)" "u < cap"
      by (rule pop_later_ok [OF invw, of u us 0]) (use Cons in simp, rule that)
    have g: "get_context ?s u = Some (func_contexts s ! u)" using get_context_inv [OF invw q(4)] by simp
    note Q = q(1)
    show ?thesis
    proof (cases "t < scheduled_ms (func_contexts s ! u)")
      case True
      obtain s1 where p: "put_later qo u 0 (?s\<lparr>commands_later := q\<rparr>) = (0, s1)" "cq_inv qinv contents cap R s1"
        "contents (commands_later s1) = contents q @ [u]" "commands s1 = commands s"
        "func_contexts s1 = func_contexts s" "world s1 = w"
        by (rule put_later_ok [OF q(3), of 0]) (rule that, assumption, simp_all)
      have step: "enqueue_loop qo t None ?s = enqueue_loop qo t (Some u) s1"
        using p(1) linorder_not_le [THEN iffD2, OF True] unfolding enqueue_step [OF Q g] by (simp add: Let_def)
      have c: "contents (commands_later s1) = us @ u # []" using p(3) q(2) by simp
      show ?thesis
        unfolding e step using enqueue_loop_later [OF p(2) c, of t] True p(4-6) Cons by (auto split: list.splits)
    next
      case False
      obtain s1 where p: "put_or_release u (put_commands qo u 0 (?s\<lparr>commands_later := q\<rparr>)) = (0, s1)" "cq_inv qinv contents cap R s1"
        "contents (commands s1) = contents (commands s) @ [u]" "commands_later s1 = q"
        "func_contexts s1 = func_contexts s" "world s1 = w"
        by (rule put_commands_ok [OF q(3), of 0]) (rule that, assumption, simp_all)
      have "enqueue_loop qo t None ?s = Some s1"
        using p(1) leI [OF False] unfolding enqueue_step [OF Q g] by simp
      then show ?thesis unfolding e using p q(2) False Cons by simp
    qed
  qed
qed

section \<open>Processing one command\<close>

lemma cq_process_head:
  assumes inv: "cq_inv qinv contents cap R s0" and e: "enqueue_delayed_commands qo now_ms s = Some s0"
    and i: "contents (commands s0) = i # is"
  obtains q where "cq_inv qinv contents cap (i # R) (s0\<lparr>commands := q\<rparr>)" "contents q = is" "i < cap"
    "cq_process qo now_ms call t s =
       (if cancelled (func_contexts s0 ! i) \<noteq> 0 then Some (upd_context i dec_ref_count (s0\<lparr>commands := q\<rparr>))
        else (let s1 = call (func (func_contexts s0 ! i)) (s0\<lparr>commands := q\<rparr>) in do {
          c \<leftarrow> get_context s1 i;
          if sint (interval_ms c) > 0 then do {
             let (t, w) = now_ms (world s1);
             let s = upd_context i (\<lambda>c. c\<lparr>scheduled_ms := t + interval_ms c\<rparr>) (s1\<lparr>world := w\<rparr>);
             Some (snd (put_or_release i (put_later qo i 100 s)))
           }
           else Some (upd_context i (\<lambda>c. dec_ref_count (c\<lparr>status := True\<rparr>)) s1)
        }))"
proof -
  obtain q where q: "q_pop qo t (commands s0) = (0, i, q)" "contents q = is"
    "cq_inv qinv contents cap (i # R) (s0\<lparr>commands := q\<rparr>)" "i < cap"
    by (rule pop_commands_ok [OF inv i, of t]) (rule that)
  have g: "get_context (s0\<lparr>commands := q\<rparr>) i = Some (func_contexts s0 ! i)"
    using get_context_inv [OF q(3,4)] by simp
  show thesis
    by (rule that [OF q(3,2,4)]) (use q(1) e g in \<open>simp add: cq_process_def Let_def\<close>)
qed

lemma cq_process_ok:
  assumes inv: "cq_inv qinv contents cap R s"
    and call: "\<And>f R s. cq_inv qinv contents cap R s \<Longrightarrow> cq_inv qinv contents cap R (call f s)"
  shows "\<exists>s'. cq_process qo now_ms call t s = Some s' \<and> cq_inv qinv contents cap R s'"
proof -
  obtain n w where n: "now_ms (world s) = (n, w)" by (cases "now_ms (world s)")
  obtain s0 where e: "enqueue_delayed_commands qo now_ms s = Some s0" and inv0: "cq_inv qinv contents cap R s0"
    using enqueue_delayed_ok [OF inv, of now_ms n w, OF n] by blast
  show ?thesis
  proof (cases "contents (commands s0)")
    case Nil
    obtain rc i where "rc \<noteq> 0" "q_pop qo t (commands s0) = (rc, i, commands s0)"
      using pop_empty [of "commands s0" t] Nil inv0 by (auto simp: cq_inv_def)
    then have "cq_process qo now_ms call t s = Some s0" by (simp add: cq_process_def e)
    then show ?thesis using inv0 by simp
  next
    case (Cons i "is")
    obtain q where q: "cq_inv qinv contents cap (i # R) (s0\<lparr>commands := q\<rparr>)" "i < cap"
      and p: "cq_process qo now_ms call t s =
       (if cancelled (func_contexts s0 ! i) \<noteq> 0 then Some (upd_context i dec_ref_count (s0\<lparr>commands := q\<rparr>))
        else (let s1 = call (func (func_contexts s0 ! i)) (s0\<lparr>commands := q\<rparr>) in do {
          c \<leftarrow> get_context s1 i;
          if sint (interval_ms c) > 0 then do {
             let (t, w) = now_ms (world s1);
             let s = upd_context i (\<lambda>c. c\<lparr>scheduled_ms := t + interval_ms c\<rparr>) (s1\<lparr>world := w\<rparr>);
             Some (snd (put_or_release i (put_later qo i 100 s)))
           }
           else Some (upd_context i (\<lambda>c. dec_ref_count (c\<lparr>status := True\<rparr>)) s1)
        }))"
      by (rule cq_process_head [OF inv0 e Cons, of call t]) (rule that)
    define s1 where "s1 = call (func (func_contexts s0 ! i)) (s0\<lparr>commands := q\<rparr>)"
    have i1: "cq_inv qinv contents cap (i # R) s1" unfolding s1_def by (rule call [OF q(1)])
    note g = get_context_inv [OF i1 q(2)]
    obtain n1 w1 where n1: "now_ms (world s1) = (n1, w1)" by (cases "now_ms (world s1)")
    have up: "cq_inv qinv contents cap (i # R) (upd_context i (\<lambda>c. c\<lparr>scheduled_ms := n1 + interval_ms c\<rparr>) (s1\<lparr>world := w1\<rparr>))"
      by (rule cq_inv_upd_same) (use i1 in simp_all)
    obtain s2 where pl: "put_or_release i (put_later qo i 100 (upd_context i (\<lambda>c. c\<lparr>scheduled_ms := n1 + interval_ms c\<rparr>) (s1\<lparr>world := w1\<rparr>))) = (0, s2)"
      and i2: "cq_inv qinv contents cap R s2"
      by (rule put_later_ok [OF up, of 100]) (rule that)
    have r1: "cq_inv qinv contents cap R (upd_context i (\<lambda>c. dec_ref_count (c\<lparr>status := True\<rparr>)) s1)"
      by (rule cq_inv_release [OF i1]) (simp add: dec_ref_count_def)
    have r2: "cq_inv qinv contents cap R (upd_context i dec_ref_count (s0\<lparr>commands := q\<rparr>))"
      by (rule cq_inv_release [OF q(1)]) (simp add: dec_ref_count_def)
    show ?thesis
      unfolding p s1_def [symmetric] using g n1 pl i2 r1 r2 by (simp add: Let_def)
  qed
qed

lemma cq_cancel_ok: "cq_inv qinv contents cap R s \<Longrightarrow> cq_inv qinv contents cap R (snd (cq_cancel n s))"
  by (auto simp: cq_cancel_def split: option.split intro: cq_inv_upd_same)

end

lemma cq_new_inv: "n = cap \<Longrightarrow> qinv q \<Longrightarrow> contents q = [] \<Longrightarrow> cq_inv qinv contents cap [] (cq_new q n f w)"
  by (simp add: cq_inv_def cq_new_def owned_def new_context_def)

section \<open>Properties\<close>

text \<open>A client of the queue: a sequence of calls, from any thread.\<close>

datatype 'f cq_op = Do_Async 'f | Do_Later 'f u32 int | Do_Interval 'f u32 int | Do_Cancel int | Do_Process nat

fun cq_run ::
  "'q queue_ops \<Rightarrow> ('w \<Rightarrow> u32 \<times> 'w) \<Rightarrow> ('f \<Rightarrow> ('q, 'f, 'w) command_queue \<Rightarrow> ('q, 'f, 'w) command_queue)
     \<Rightarrow> 'f cq_op list \<Rightarrow> ('q, 'f, 'w) command_queue \<Rightarrow> ('q, 'f, 'w) command_queue option" where
  "cq_run qo now_ms call [] s = Some s"
| "cq_run qo now_ms call (op # ops) s = do {
     s \<leftarrow> (case op of
         Do_Async f \<Rightarrow> Some (snd (execute_async qo f s))
       | Do_Later f d n \<Rightarrow> Some (snd (execute_async_later qo now_ms f d n s))
       | Do_Interval f d n \<Rightarrow> Some (snd (execute_async_interval qo now_ms f d n s))
       | Do_Cancel n \<Rightarrow> Some (snd (cq_cancel n s))
       | Do_Process t \<Rightarrow> cq_process qo now_ms call t s);
     cq_run qo now_ms call ops s
   }"

text \<open>Any sequence of calls keeps the invariant.\<close>

lemma cq_run_keeps:
  assumes "bounded_queue qo qinv contents cap"
    and "\<And>f R s. cq_inv qinv contents cap R s \<Longrightarrow> cq_inv qinv contents cap R (call f s)"
    and "cq_inv qinv contents cap R s"
  shows "\<exists>s'. cq_run qo now_ms call ops s = Some s' \<and> cq_inv qinv contents cap R s'"
  using assms(3)
proof (induction ops arbitrary: s)
  case Nil
  then show ?case by simp
next
  case (Cons op ops)
  have "\<exists>s1. (case op of
         Do_Async f \<Rightarrow> Some (snd (execute_async qo f s))
       | Do_Later f d n \<Rightarrow> Some (snd (execute_async_later qo now_ms f d n s))
       | Do_Interval f d n \<Rightarrow> Some (snd (execute_async_interval qo now_ms f d n s))
       | Do_Cancel n \<Rightarrow> Some (snd (cq_cancel n s))
       | Do_Process t \<Rightarrow> cq_process qo now_ms call t s) = Some s1 \<and> cq_inv qinv contents cap R s1"
    using bounded_queue.execute_async_ok [OF assms(1) Cons.prems] bounded_queue.execute_async_later_ok [OF assms(1) Cons.prems]
      bounded_queue.execute_async_interval_ok [OF assms(1) Cons.prems] bounded_queue.cq_cancel_ok [OF assms(1) Cons.prems]
      bounded_queue.cq_process_ok [OF assms(1) Cons.prems assms(2)]
    by (cases op) (simp_all, (metis snd_conv)+)
  then show ?case using Cons.IH by (auto simp: bind_eq_Some_conv)
qed

text \<open>
  A queue with a flag that is cleared by the first put that fails, and never set again. It
  behaves as the queue it is made of.
\<close>

definition watched :: "'q queue_ops \<Rightarrow> ('q \<times> bool) queue_ops" where
  "watched qo = \<lparr>
     q_put = (\<lambda>i t (q, ok). case q_put qo i t q of (rc, q') \<Rightarrow> (rc, (q', ok \<and> rc = 0))),
     q_pop = (\<lambda>t (q, ok). case q_pop qo t q of (rc, i, q') \<Rightarrow> (rc, i, (q', ok)))\<rparr>"

definition watched_inv :: "('q \<Rightarrow> bool) \<Rightarrow> 'q \<times> bool \<Rightarrow> bool" where
  "watched_inv qinv q \<longleftrightarrow> qinv (fst q) \<and> snd q"

lemma watched_bounded:
  assumes "bounded_queue qo qinv contents cap"
  shows "bounded_queue (watched qo) (watched_inv qinv) (contents \<circ> fst) cap"
proof unfold_locales
  fix q :: "'a \<times> bool" and i t "is"
  assume q: "watched_inv qinv q"
  then have i: "qinv (fst q)" and ok: "snd q" by (simp_all add: watched_inv_def)
  show "\<exists>q'. q_put (watched qo) i t q = (0, q') \<and> watched_inv qinv q' \<and> (contents \<circ> fst) q' = (contents \<circ> fst) q @ [i]"
    if "length ((contents \<circ> fst) q) < cap"
  proof -
    have "length (contents (fst q)) < cap" using that by simp
    from bounded_queue.put_ok [OF assms i this] obtain q1
      where "q_put qo i t (fst q) = (0, q1)" "qinv q1" "contents q1 = contents (fst q) @ [i]" by blast
    then show ?thesis using ok by (cases q) (simp add: watched_def watched_inv_def)
  qed
  show "\<exists>rc i. rc \<noteq> 0 \<and> q_pop (watched qo) t q = (rc, i, q)" if "(contents \<circ> fst) q = []"
  proof -
    have "contents (fst q) = []" using that by simp
    from bounded_queue.pop_empty [OF assms i this] obtain rc j
      where "rc \<noteq> 0" "q_pop qo t (fst q) = (rc, j, fst q)" by blast
    then show ?thesis by (cases q) (simp add: watched_def)
  qed
  show "\<exists>q'. q_pop (watched qo) t q = (0, i, q') \<and> watched_inv qinv q' \<and> (contents \<circ> fst) q' = is"
    if "(contents \<circ> fst) q = i # is"
  proof -
    have "contents (fst q) = i # is" using that by simp
    from bounded_queue.pop_ok [OF assms i this] obtain q1
      where "q_pop qo t (fst q) = (0, i, q1)" "qinv q1" "contents q1 = is" by blast
    then show ?thesis using ok by (cases q) (simp add: watched_def watched_inv_def)
  qed
qed

text \<open>
  C14: over any bounded queue with room for all contexts, any sequence of submissions, cancels and
  processing steps returns and keeps the ownership invariant: no context is ever in two places
  and a reference count is 1 exactly while its context is queued or being executed. No put of the
  sequence fails on the way: the queues record the first that does, and have recorded none. The
  closures may do anything that keeps the same, such as submitting further commands.
\<close>

theorem cq_run_invariant:
  assumes "bounded_queue qo qinv contents cap"
    and "\<And>f R s. cq_inv (watched_inv qinv) (contents \<circ> fst) cap R s \<Longrightarrow> cq_inv (watched_inv qinv) (contents \<circ> fst) cap R (call f s)"
    and "cq_inv (watched_inv qinv) (contents \<circ> fst) cap R s"
  shows "\<exists>s'. cq_run (watched qo) now_ms call ops s = Some s' \<and> cq_inv (watched_inv qinv) (contents \<circ> fst) cap R s'
    \<and> snd (commands s') \<and> snd (commands_later s')"
proof -
  obtain s' where "cq_run (watched qo) now_ms call ops s = Some s'" "cq_inv (watched_inv qinv) (contents \<circ> fst) cap R s'"
    using cq_run_keeps [where call = call, OF watched_bounded [OF assms(1)] assms(2) assms(3)] by blast
  then show ?thesis by (auto simp: cq_inv_def watched_inv_def)
qed

definition demo_call :: "nat \<Rightarrow> ('q, nat, nat) command_queue \<Rightarrow> ('q, nat, nat) command_queue" where
  "demo_call f s = s\<lparr>world := world s + f\<rparr>"

definition demo_queue :: "(test_queue, nat, nat) command_queue" where
  "demo_queue = cq_new \<lparr>tq_queue = [], tq_size = 2\<rparr> 2 0 0"

lemma demo_queue_inv: "cq_inv (\<lambda>q. tq_size q = 2) tq_queue 2 [] demo_queue"
  unfolding demo_queue_def by (rule cq_new_inv) simp_all

theorem cq_run_invariant_witness:
  "\<exists>s'. cq_run (watched tq_ops) (\<lambda>w. (0, w)) demo_call [Do_Later 5 0 7, Do_Async 1, Do_Async 2, Do_Process 0, Do_Cancel 7, Do_Process 0]
       (cq_new (\<lparr>tq_queue = [], tq_size = 2\<rparr>, True) 2 0 0) = Some s'
    \<and> snd (commands s') \<and> snd (commands_later s')"
proof -
  have i: "cq_inv (watched_inv (\<lambda>q. tq_size q = 2)) (tq_queue \<circ> fst) 2 [] (cq_new (\<lparr>tq_queue = [], tq_size = 2\<rparr>, True) 2 (0 :: nat) (0 :: nat))"
    by (rule cq_new_inv) (simp_all add: watched_inv_def)
  have c: "cq_inv (watched_inv (\<lambda>q. tq_size q = 2)) (tq_queue \<circ> fst) 2 R (demo_call f s)"
    if "cq_inv (watched_inv (\<lambda>q. tq_size q = 2)) (tq_queue \<circ> fst) 2 R s" for f R and s :: "(test_queue \<times> bool, nat, nat) command_queue"
    using that by (simp add: demo_call_def)
  show ?thesis using cq_run_invariant [where call = demo_call, OF tq.bounded_queue_axioms c i] by blast
qed

text \<open>
  a command is accepted exactly when fewer commands than contexts are queued or running, and
  an accepted one goes to the end of the queue in a context that was free; a refused one changes
  nothing.
\<close>

theorem execute_async_spec:
  assumes "bounded_queue qo qinv contents cap" and "cq_inv qinv contents cap R s"
  shows "\<exists>s'. execute_async qo f s = (if length (owned contents R s) < cap then 0 else -1, s') \<and> cq_inv qinv contents cap R s'
    \<and> (if length (owned contents R s) < cap
       then \<exists>i. i < cap \<and> i \<notin> set (owned contents R s) \<and> contents (commands s') = contents (commands s) @ [i]
              \<and> commands_later s' = commands_later s \<and> world s' = world s
              \<and> func (func_contexts s' ! i) = f \<and> cancelled (func_contexts s' ! i) = 0 \<and> interval_ms (func_contexts s' ! i) = -1
              \<and> (\<forall>j < cap. j \<noteq> i \<longrightarrow> func_contexts s' ! j = func_contexts s ! j)
       else s' = s)"
  by (rule bounded_queue.execute_async_ok [OF assms])

theorem execute_async_spec_witness: "\<exists>s'. execute_async tq_ops 5 demo_queue = (0, s') \<and> length (tq_queue (commands s')) = 1"
  using execute_async_spec [OF tq.bounded_queue_axioms demo_queue_inv, of 5]
  by (auto simp: demo_queue_def cq_new_def owned_def)

text \<open>
  the pass over the delayed commands always ends. It moves the first command that is due to
  the queue of commands to execute and rotates those before it to the back; when none is due,
  the order is rotated by one. No context changes.
\<close>

theorem enqueue_delayed_pass:
  assumes "bounded_queue qo qinv contents cap" and "cq_inv qinv contents cap R s" and "now_ms (world s) = (t, w)"
  shows "\<exists>s'. enqueue_delayed_commands qo now_ms s = Some s' \<and> cq_inv qinv contents cap R s' \<and> func_contexts s' = func_contexts s \<and> world s' = w
    \<and> (case dropWhile (\<lambda>i. t < scheduled_ms (func_contexts s ! i)) (contents (commands_later s)) of
         [] \<Rightarrow> contents (commands_later s') = rotate1 (contents (commands_later s)) \<and> contents (commands s') = contents (commands s)
       | d # b \<Rightarrow> contents (commands_later s') = b @ takeWhile (\<lambda>i. t < scheduled_ms (func_contexts s ! i)) (contents (commands_later s))
               \<and> contents (commands s') = contents (commands s) @ [d])"
  by (rule bounded_queue.enqueue_delayed_ok [where now_ms = now_ms, OF assms])

theorem enqueue_delayed_pass_witness:
  "\<exists>s'. enqueue_delayed_commands tq_ops (\<lambda>w. (0, w)) demo_queue = Some s' \<and> tq_queue (commands s') = []"
  using enqueue_delayed_pass [where now_ms = "\<lambda>w. (0, w)", OF tq.bounded_queue_axioms demo_queue_inv refl]
  by (auto simp: demo_queue_def cq_new_def)

text \<open>
  C20: processing takes the head of the queue. A cancelled command is not called and its context
  is freed; any other is called exactly once, and then its context is freed and the waiting
  thread woken, or, for an interval, the context goes to the end of the delayed commands.
\<close>

theorem cq_process_executes:
  assumes q: "bounded_queue qo qinv contents cap" and inv: "cq_inv qinv contents cap R s0"
    and e: "enqueue_delayed_commands qo now_ms s = Some s0" and i: "contents (commands s0) = i # is"
    and call: "\<And>f s. call f s = s\<lparr>world := eff f (world s)\<rparr>"
  shows "\<exists>s'. cq_process qo now_ms call t s = Some s' \<and> contents (commands s') = is
    \<and> (let c = func_contexts s0 ! i; c' = func_contexts s' ! i in
       if cancelled c \<noteq> 0 then world s' = world s0 \<and> ref_count c' = 0 \<and> commands_later s' = commands_later s0
       else if sint (interval_ms c) > 0 then
         world s' = snd (now_ms (eff (func c) (world s0))) \<and> contents (commands_later s') = contents (commands_later s0) @ [i]
         \<and> scheduled_ms c' = fst (now_ms (eff (func c) (world s0))) + interval_ms c
       else world s' = eff (func c) (world s0) \<and> ref_count c' = 0 \<and> status c' \<and> commands_later s' = commands_later s0)"
proof -
  obtain q' where q': "cq_inv qinv contents cap (i # R) (s0\<lparr>commands := q'\<rparr>)" "contents q' = is" "i < cap"
    and p: "cq_process qo now_ms call t s =
       (if cancelled (func_contexts s0 ! i) \<noteq> 0 then Some (upd_context i dec_ref_count (s0\<lparr>commands := q'\<rparr>))
        else (let s1 = call (func (func_contexts s0 ! i)) (s0\<lparr>commands := q'\<rparr>) in do {
          c \<leftarrow> get_context s1 i;
          if sint (interval_ms c) > 0 then do {
             let (t, w) = now_ms (world s1);
             let s = upd_context i (\<lambda>c. c\<lparr>scheduled_ms := t + interval_ms c\<rparr>) (s1\<lparr>world := w\<rparr>);
             Some (snd (put_or_release i (put_later qo i 100 s)))
           }
           else Some (upd_context i (\<lambda>c. dec_ref_count (c\<lparr>status := True\<rparr>)) s1)
        }))"
    by (rule bounded_queue.cq_process_head [OF q inv e i, of call t]) (rule that)
  have n: "i < length (func_contexts s0)" "ref_count (func_contexts s0 ! i) = 1"
    using q'(1,3) by (auto simp: cq_inv_def owned_def)
  define s1 where "s1 = s0\<lparr>commands := q', world := eff (func (func_contexts s0 ! i)) (world s0)\<rparr>"
  have i1: "cq_inv qinv contents cap (i # R) s1"
    using q'(1) by (simp add: s1_def cq_inv_def owned_def)
  obtain t1 w1 where t1: "now_ms (world s1) = (t1, w1)" by (cases "now_ms (world s1)")
  have up: "cq_inv qinv contents cap (i # R) (upd_context i (\<lambda>c. c\<lparr>scheduled_ms := t1 + interval_ms c\<rparr>) (s1\<lparr>world := w1\<rparr>))"
    by (rule cq_inv_upd_same) (use i1 in simp_all)
  obtain s2 where pl: "put_or_release i (put_later qo i 100 (upd_context i (\<lambda>c. c\<lparr>scheduled_ms := t1 + interval_ms c\<rparr>) (s1\<lparr>world := w1\<rparr>))) = (0, s2)"
    and s2: "contents (commands_later s2) = contents (commands_later s1) @ [i]" "commands s2 = q'" "world s2 = w1"
      "func_contexts s2 = func_contexts (upd_context i (\<lambda>c. c\<lparr>scheduled_ms := t1 + interval_ms c\<rparr>) (s1\<lparr>world := w1\<rparr>))"
    by (rule bounded_queue.put_later_ok [OF q up, of 100]) (rule that, assumption, simp_all add: s1_def)
  have g: "get_context s1 i = Some (func_contexts s0 ! i)" using n by (simp add: get_context_def s1_def)
  have c1: "call (func (func_contexts s0 ! i)) (s0\<lparr>commands := q'\<rparr>) = s1" by (simp add: call s1_def)
  have sn: "sint (interval_ms (func_contexts s0 ! i)) > 0 \<Longrightarrow> func_contexts s2 ! i = (func_contexts s0 ! i)\<lparr>scheduled_ms := t1 + interval_ms (func_contexts s0 ! i)\<rparr>"
    using n by (simp add: s2(4) upd_context_def s1_def)
  show ?thesis
    unfolding p c1 Let_def
    using g t1 pl s2 sn n q'(2) by (auto simp: upd_context_nth dec_ref_count_def s1_def)
qed

theorem cq_process_executes_witness:
  "\<exists>s s'. snd (execute_async tq_ops 5 demo_queue) = s \<and> cq_process tq_ops (\<lambda>w. (0, w)) demo_call 0 s = Some s' \<and> world s' = 5"
proof -
  obtain s i where s: "execute_async tq_ops 5 demo_queue = (0, s)" "cq_inv (\<lambda>q. tq_size q = 2) tq_queue 2 [] s"
    "tq_queue (commands s) = [i]" "commands_later s = commands_later demo_queue" "world s = 0" "func (func_contexts s ! i) = 5"
    "cancelled (func_contexts s ! i) = 0" "interval_ms (func_contexts s ! i) = -1"
    using tq.execute_async_ok [OF demo_queue_inv, of 5] by (auto simp: demo_queue_def cq_new_def owned_def)
  have l: "tq_queue (commands_later s) = []" by (simp add: s(4) demo_queue_def cq_new_def)
  obtain s0 where e: "enqueue_delayed_commands tq_ops (\<lambda>w. (0, w)) s = Some s0" "cq_inv (\<lambda>q. tq_size q = 2) tq_queue 2 [] s0"
    "func_contexts s0 = func_contexts s" "world s0 = 0" "tq_queue (commands s0) = [i]"
    using tq.enqueue_delayed_ok [where now_ms = "\<lambda>w. (0, w)", OF s(2) refl] l s(3,5) by auto
  show ?thesis
    using cq_process_executes [where eff = "\<lambda>f w. w + f" and call = demo_call, OF tq.bounded_queue_axioms e(2,1,5) demo_call_def, of 0] s e
    by (auto simp: Let_def)
qed

end
