(* ===== verification/HttpParser.thy ===== *)
theory HttpParser
  imports Prelude
begin

text \<open>
  The data of the HTTP parser, \<^verbatim>\<open>lib_http/http_parser.h\<close> and the head of \<^verbatim>\<open>http_parser.c\<close>: methods,
  errors, parser states, the parser record with its bit-fields at their width, the character
  tables and the state function of URLs. The build is the strict one (\<^verbatim>\<open>HTTP_PARSER_STRICT\<close> is 1,
  the header's default). Characters are bytes; the code's signed \<^verbatim>\<open>char\<close> is only compared
  with ASCII constants or cast to unsigned before it is used as an index.
\<close>

section \<open>Enumerations\<close>

datatype http_method =
    HTTP_DELETE | HTTP_GET | HTTP_HEAD | HTTP_POST | HTTP_PUT | HTTP_CONNECT | HTTP_OPTIONS | HTTP_TRACE
  | HTTP_COPY | HTTP_LOCK | HTTP_MKCOL | HTTP_MOVE | HTTP_PROPFIND | HTTP_PROPPATCH | HTTP_SEARCH | HTTP_UNLOCK
  | HTTP_BIND | HTTP_REBIND | HTTP_UNBIND | HTTP_ACL | HTTP_REPORT | HTTP_MKACTIVITY | HTTP_CHECKOUT | HTTP_MERGE
  | HTTP_MSEARCH | HTTP_NOTIFY | HTTP_SUBSCRIBE | HTTP_UNSUBSCRIBE | HTTP_PATCH | HTTP_PURGE | HTTP_MKCALENDAR
  | HTTP_LINK | HTTP_UNLINK

datatype http_parser_type = HTTP_REQUEST | HTTP_RESPONSE | HTTP_BOTH

datatype http_errno =
    HPE_OK | HPE_CB_message_begin | HPE_CB_url | HPE_CB_header_field | HPE_CB_header_value | HPE_CB_headers_complete
  | HPE_CB_body | HPE_CB_message_complete | HPE_CB_status | HPE_CB_chunk_header | HPE_CB_chunk_complete
  | HPE_INVALID_EOF_STATE | HPE_HEADER_OVERFLOW | HPE_CLOSED_CONNECTION | HPE_INVALID_VERSION | HPE_INVALID_STATUS
  | HPE_INVALID_METHOD | HPE_INVALID_URL | HPE_INVALID_HOST | HPE_INVALID_PORT | HPE_INVALID_PATH
  | HPE_INVALID_QUERY_STRING | HPE_INVALID_FRAGMENT | HPE_LF_EXPECTED | HPE_INVALID_HEADER_TOKEN
  | HPE_INVALID_CONTENT_LENGTH | HPE_INVALID_CHUNK_SIZE | HPE_INVALID_CONSTANT | HPE_INVALID_INTERNAL_STATE
  | HPE_STRICT | HPE_PAUSED | HPE_UNKNOWN

datatype state =
    s_dead | s_start_req_or_res | s_res_or_resp_H | s_start_res | s_res_H | s_res_HT | s_res_HTT | s_res_HTTP
  | s_res_first_http_major | s_res_http_major | s_res_first_http_minor | s_res_http_minor
  | s_res_first_status_code | s_res_status_code | s_res_status_start | s_res_status | s_res_line_almost_done
  | s_start_req | s_req_method | s_req_spaces_before_url | s_req_schema | s_req_schema_slash
  | s_req_schema_slash_slash | s_req_server_start | s_req_server | s_req_server_with_at | s_req_path
  | s_req_query_string_start | s_req_query_string | s_req_fragment_start | s_req_fragment
  | s_req_http_start | s_req_http_H | s_req_http_HT | s_req_http_HTT | s_req_http_HTTP
  | s_req_first_http_major | s_req_http_major | s_req_first_http_minor | s_req_http_minor | s_req_line_almost_done
  | s_header_field_start | s_header_field | s_header_value_discard_ws | s_header_value_discard_ws_almost_done
  | s_header_value_discard_lws | s_header_value_start | s_header_value | s_header_value_lws | s_header_almost_done
  | s_chunk_size_start | s_chunk_size | s_chunk_parameters | s_chunk_size_almost_done
  | s_headers_almost_done | s_headers_done
  | s_chunk_data | s_chunk_data_almost_done | s_chunk_data_done | s_body_identity | s_body_identity_eof | s_message_done

text \<open>\<^verbatim>\<open>PARSING_HEADER\<close>: the states up to \<open>s_headers_done\<close> in the order of the enumeration.\<close>

definition parsing_header :: "state \<Rightarrow> bool" where
  "parsing_header s \<longleftrightarrow> s \<notin> {s_chunk_data, s_chunk_data_almost_done, s_chunk_data_done, s_body_identity, s_body_identity_eof, s_message_done}"

datatype header_states =
    h_general | h_C | h_CO | h_CON
  | h_matching_connection | h_matching_proxy_connection | h_matching_content_length | h_matching_transfer_encoding | h_matching_upgrade
  | h_connection | h_content_length | h_transfer_encoding | h_upgrade
  | h_matching_transfer_encoding_chunked | h_matching_connection_token_start | h_matching_connection_keep_alive
  | h_matching_connection_close | h_matching_connection_upgrade | h_matching_connection_token
  | h_transfer_encoding_chunked | h_connection_keep_alive | h_connection_close | h_connection_upgrade

type_synonym flags = "7 word"

definition F_CHUNKED :: flags where "F_CHUNKED = 1"
definition F_CONNECTION_KEEP_ALIVE :: flags where "F_CONNECTION_KEEP_ALIVE = 2"
definition F_CONNECTION_CLOSE :: flags where "F_CONNECTION_CLOSE = 4"
definition F_CONNECTION_UPGRADE :: flags where "F_CONNECTION_UPGRADE = 8"
definition F_TRAILING :: flags where "F_TRAILING = 16"
definition F_UPGRADE :: flags where "F_UPGRADE = 32"
definition F_SKIPBODY :: flags where "F_SKIPBODY = 64"

lemmas flag_defs = F_CHUNKED_def F_CONNECTION_KEEP_ALIVE_def F_CONNECTION_CLOSE_def F_CONNECTION_UPGRADE_def
  F_TRAILING_def F_UPGRADE_def F_SKIPBODY_def

text \<open>The parser; \<open>pdata\<close> is the public pointer to the application's object.\<close>

record 'w http_parser =
  ptype :: http_parser_type
  flags :: flags
  state :: state
  header_state :: header_states
  index :: byte
  nread :: u32
  content_length :: u64
  http_major :: u16
  http_minor :: u16
  status_code :: u16
  meth :: http_method
  http_errno :: http_errno
  upgrade :: bool
  pdata :: 'w

definition ULLONG_MAX :: u64 where "ULLONG_MAX = -1"
definition HTTP_MAX_HEADER_SIZE :: u32 where "HTTP_MAX_HEADER_SIZE = 80 * 1024"

section \<open>Characters\<close>

abbreviation CR :: byte where "CR \<equiv> 13"
abbreviation LF :: byte where "LF \<equiv> 10"
abbreviation SP :: byte where "SP \<equiv> 32"
abbreviation TAB :: byte where "TAB \<equiv> 9"

definition LOWER :: "byte \<Rightarrow> byte" where "LOWER c = c OR 0x20"
definition IS_ALPHA :: "byte \<Rightarrow> bool" where "IS_ALPHA c \<longleftrightarrow> ch_of CHR ''a'' \<le> LOWER c \<and> LOWER c \<le> ch_of CHR ''z''"
definition IS_NUM :: "byte \<Rightarrow> bool" where "IS_NUM c \<longleftrightarrow> ch_of CHR ''0'' \<le> c \<and> c \<le> ch_of CHR ''9''"
definition IS_ALPHANUM :: "byte \<Rightarrow> bool" where "IS_ALPHANUM c \<longleftrightarrow> IS_ALPHA c \<or> IS_NUM c"
definition IS_HEX :: "byte \<Rightarrow> bool" where "IS_HEX c \<longleftrightarrow> IS_NUM c \<or> ch_of CHR ''a'' \<le> LOWER c \<and> LOWER c \<le> ch_of CHR ''f''"
definition IS_MARK :: "byte \<Rightarrow> bool" where
  "IS_MARK c \<longleftrightarrow> c \<in> set (ascii [CHR ''-'', CHR ''_'', CHR ''.'', CHR ''!'', CHR ''~'', CHR ''*'', CHR 0x27, CHR ''('', CHR '')''])"
definition IS_USERINFO_CHAR :: "byte \<Rightarrow> bool" where
  "IS_USERINFO_CHAR c \<longleftrightarrow> IS_ALPHANUM c \<or> IS_MARK c \<or> c \<in> set (ascii ''%;:&=+$,'')"
definition IS_HOST_CHAR :: "byte \<Rightarrow> bool" where
  "IS_HOST_CHAR c \<longleftrightarrow> IS_ALPHANUM c \<or> c = ch_of CHR ''.'' \<or> c = ch_of CHR ''-''"

text \<open>The entries of \<^verbatim>\<open>tokens\<close>; those from 128 on are the zeroes C fills the array up with.\<close>

definition tokens :: "byte list" where
  "tokens =
    [0,0,0,0,0,0,0,0, 0,0,0,0,0,0,0,0, 0,0,0,0,0,0,0,0, 0,0,0,0,0,0,0,0,
     0,33,0,35,36,37,38,39, 0,0,42,43,0,45,46,0, 48,49,50,51,52,53,54,55, 56,57,0,0,0,0,0,0,
     0,97,98,99,100,101,102,103, 104,105,106,107,108,109,110,111, 112,113,114,115,116,117,118,119, 120,121,122,0,0,0,94,95,
     96,97,98,99,100,101,102,103, 104,105,106,107,108,109,110,111, 112,113,114,115,116,117,118,119, 120,121,122,0,124,0,126,0]
    @ replicate 128 0"

definition TOKEN :: "byte \<Rightarrow> byte" where
  "TOKEN c = tokens ! unat c"

text \<open>\<^verbatim>\<open>normal_url_char\<close>, a bit set; the strict build leaves tab and form feed out.\<close>

definition normal_url_char :: "byte list" where
  "normal_url_char = [0, 0, 0, 0, 0xF6, 0xFF, 0xFF, 0x7F, 0xFF, 0xFF, 0xFF, 0xFF, 0xFF, 0xFF, 0xFF, 0x7F] @ replicate 16 0"

definition IS_URL_CHAR :: "byte \<Rightarrow> bool" where
  "IS_URL_CHAR c \<longleftrightarrow> normal_url_char ! unat (drop_bit 3 c) AND push_bit (unat (c AND 7)) 1 \<noteq> 0"

definition unhex_tab :: "int list" where
  "unhex_tab =
    replicate 48 (-1) @ [0,1,2,3,4,5,6,7,8,9,-1,-1,-1,-1,-1,-1]
    @ [-1,10,11,12,13,14,15,-1,-1,-1,-1,-1,-1,-1,-1,-1] @ replicate 16 (-1)
    @ [-1,10,11,12,13,14,15,-1,-1,-1,-1,-1,-1,-1,-1,-1] @ replicate 16 (-1)
    @ replicate 128 0"

definition unhex :: "byte \<Rightarrow> int" where
  "unhex c = unhex_tab ! unat c"

text \<open>A character of a string constant, with its terminating zero.\<close>

definition c_at :: "string \<Rightarrow> nat \<Rightarrow> byte" where
  "c_at s i = (if i < length s then of_char (s ! i) else 0)"

fun method_string :: "http_method \<Rightarrow> string" where
  "method_string HTTP_DELETE = ''DELETE''"
| "method_string HTTP_GET = ''GET''"
| "method_string HTTP_HEAD = ''HEAD''"
| "method_string HTTP_POST = ''POST''"
| "method_string HTTP_PUT = ''PUT''"
| "method_string HTTP_CONNECT = ''CONNECT''"
| "method_string HTTP_OPTIONS = ''OPTIONS''"
| "method_string HTTP_TRACE = ''TRACE''"
| "method_string HTTP_COPY = ''COPY''"
| "method_string HTTP_LOCK = ''LOCK''"
| "method_string HTTP_MKCOL = ''MKCOL''"
| "method_string HTTP_MOVE = ''MOVE''"
| "method_string HTTP_PROPFIND = ''PROPFIND''"
| "method_string HTTP_PROPPATCH = ''PROPPATCH''"
| "method_string HTTP_SEARCH = ''SEARCH''"
| "method_string HTTP_UNLOCK = ''UNLOCK''"
| "method_string HTTP_BIND = ''BIND''"
| "method_string HTTP_REBIND = ''REBIND''"
| "method_string HTTP_UNBIND = ''UNBIND''"
| "method_string HTTP_ACL = ''ACL''"
| "method_string HTTP_REPORT = ''REPORT''"
| "method_string HTTP_MKACTIVITY = ''MKACTIVITY''"
| "method_string HTTP_CHECKOUT = ''CHECKOUT''"
| "method_string HTTP_MERGE = ''MERGE''"
| "method_string HTTP_MSEARCH = ''M-SEARCH''"
| "method_string HTTP_NOTIFY = ''NOTIFY''"
| "method_string HTTP_SUBSCRIBE = ''SUBSCRIBE''"
| "method_string HTTP_UNSUBSCRIBE = ''UNSUBSCRIBE''"
| "method_string HTTP_PATCH = ''PATCH''"
| "method_string HTTP_PURGE = ''PURGE''"
| "method_string HTTP_MKCALENDAR = ''MKCALENDAR''"
| "method_string HTTP_LINK = ''LINK''"
| "method_string HTTP_UNLINK = ''UNLINK''"

section \<open>The state function of URLs\<close>

definition url_path_char :: "byte \<Rightarrow> state" where
  "url_path_char ch = (if IS_URL_CHAR ch then s_req_path else if ch = ch_of CHR ''?'' then s_req_query_string_start
     else if ch = ch_of CHR ''#'' then s_req_fragment_start else s_dead)"

definition url_server_char :: "byte \<Rightarrow> state" where
  "url_server_char ch = (if ch = ch_of CHR ''/'' then s_req_path else if ch = ch_of CHR ''?'' then s_req_query_string_start
     else if ch = ch_of CHR ''@'' then s_req_server_with_at
     else if IS_USERINFO_CHAR ch \<or> ch = ch_of CHR ''['' \<or> ch = ch_of CHR '']'' then s_req_server else s_dead)"

definition url_query_char :: "byte \<Rightarrow> state" where
  "url_query_char ch = (if IS_URL_CHAR ch then s_req_query_string else if ch = ch_of CHR ''?'' then s_req_query_string
     else if ch = ch_of CHR ''#'' then s_req_fragment_start else s_dead)"

definition parse_url_char :: "state \<Rightarrow> byte \<Rightarrow> state" where
  "parse_url_char s ch = (if ch = SP \<or> ch = CR \<or> ch = LF then s_dead
     else if ch = TAB \<or> ch = 12 then s_dead
     else case s of
       s_req_spaces_before_url \<Rightarrow> if ch = ch_of CHR ''/'' \<or> ch = ch_of CHR ''*'' then s_req_path
         else if IS_ALPHA ch then s_req_schema else s_dead
     | s_req_schema \<Rightarrow> if IS_ALPHA ch then s else if ch = ch_of CHR '':'' then s_req_schema_slash else s_dead
     | s_req_schema_slash \<Rightarrow> if ch = ch_of CHR ''/'' then s_req_schema_slash_slash else s_dead
     | s_req_schema_slash_slash \<Rightarrow> if ch = ch_of CHR ''/'' then s_req_server_start else s_dead
     | s_req_server_with_at \<Rightarrow> if ch = ch_of CHR ''@'' then s_dead else url_server_char ch
     | s_req_server_start \<Rightarrow> url_server_char ch
     | s_req_server \<Rightarrow> url_server_char ch
     | s_req_path \<Rightarrow> url_path_char ch
     | s_req_query_string_start \<Rightarrow> url_query_char ch
     | s_req_query_string \<Rightarrow> url_query_char ch
     | s_req_fragment_start \<Rightarrow> if IS_URL_CHAR ch then s_req_fragment else if ch = ch_of CHR ''?'' then s_req_fragment
         else if ch = ch_of CHR ''#'' then s else s_dead
     | s_req_fragment \<Rightarrow> if IS_URL_CHAR ch then s else if ch = ch_of CHR ''?'' \<or> ch = ch_of CHR ''#'' then s else s_dead
     | _ \<Rightarrow> s_dead)"

end
