(* ===== verification/HttpParserExec.thy ===== *)
theory HttpParserExec
  imports HttpParser
begin

text \<open>
  \<^verbatim>\<open>http_parser_execute\<close> of \<^verbatim>\<open>lib_http/http_parser.c\<close>, one definition per state of the parser (or
  per group of states that share a branch). \<open>local\<close> holds the local variables: positions are
  offsets into the buffer, the marks are one field indexed by the name the macros paste. A
  handler ends as the code does: at the end of the loop body (\<open>Break\<close>), at the label
  \<^verbatim>\<open>reexecute\<close>, at the label \<^verbatim>\<open>error\<close>, or by returning. \<open>Undefined\<close> is a read outside the method's
  name or a pointer before the buffer.
\<close>

section \<open>Callbacks\<close>

datatype data_field = For_url | For_status | For_header_field | For_header_value | For_body

type_synonym 'w http_cb = "'w http_parser \<Rightarrow> int \<times> 'w http_parser"
type_synonym 'w http_data_cb = "'w http_parser \<Rightarrow> byte list \<Rightarrow> int \<times> 'w http_parser"

record 'w http_parser_settings =
  on_message_begin :: "'w http_cb option"
  on_url :: "'w http_data_cb option"
  on_status :: "'w http_data_cb option"
  on_header_field :: "'w http_data_cb option"
  on_header_value :: "'w http_data_cb option"
  on_headers_complete :: "'w http_cb option"
  on_body :: "'w http_data_cb option"
  on_message_complete :: "'w http_cb option"
  on_chunk_header :: "'w http_cb option"
  on_chunk_complete :: "'w http_cb option"

definition http_parser_settings_init :: "'w http_parser_settings" where
  "http_parser_settings_init = \<lparr>on_message_begin = None, on_url = None, on_status = None, on_header_field = None, on_header_value = None,
     on_headers_complete = None, on_body = None, on_message_complete = None, on_chunk_header = None, on_chunk_complete = None\<rparr>"

fun on_data :: "data_field \<Rightarrow> 'w http_parser_settings \<Rightarrow> 'w http_data_cb option" where
  "on_data For_url S = on_url S"
| "on_data For_status S = on_status S"
| "on_data For_header_field S = on_header_field S"
| "on_data For_header_value S = on_header_value S"
| "on_data For_body S = on_body S"

fun HPE_CB :: "data_field \<Rightarrow> http_errno" where
  "HPE_CB For_url = HPE_CB_url"
| "HPE_CB For_status = HPE_CB_status"
| "HPE_CB For_header_field = HPE_CB_header_field"
| "HPE_CB For_header_value = HPE_CB_header_value"
| "HPE_CB For_body = HPE_CB_body"

section \<open>Local state and the macros\<close>

record 'w local =
  parser :: "'w http_parser"
  p_state :: state
  pos :: nat
  cur :: byte
  marks :: "data_field \<Rightarrow> nat option"

datatype 'w outcome = Break "'w local" | Reexecute "'w local" | Goto_error "'w local" | Return nat "'w local" | Undefined

definition upd_parser :: "('w http_parser \<Rightarrow> 'w http_parser) \<Rightarrow> 'w local \<Rightarrow> 'w local" where
  "upd_parser f l = l\<lparr>parser := f (parser l)\<rparr>"

definition update_state :: "state \<Rightarrow> 'w local \<Rightarrow> 'w local" where
  "update_state s l = l\<lparr>p_state := s\<rparr>"

definition fail_with :: "http_errno \<Rightarrow> 'w local \<Rightarrow> 'w outcome" where
  "fail_with e l = Goto_error (upd_parser (\<lambda>q. q\<lparr>http_errno := e\<rparr>) l)"

definition strict_check :: "bool \<Rightarrow> 'w local \<Rightarrow> 'w outcome \<Rightarrow> 'w outcome" where
  "strict_check c l k = (if c then fail_with HPE_STRICT l else k)"

definition count_header_size :: "nat \<Rightarrow> 'w local \<Rightarrow> ('w local \<Rightarrow> 'w outcome) \<Rightarrow> 'w outcome" where
  "count_header_size n l k = (let l = upd_parser (\<lambda>q. q\<lparr>nread := nread q + of_nat n\<rparr>) l
     in if nread (parser l) > HTTP_MAX_HEADER_SIZE then fail_with HPE_HEADER_OVERFLOW l else k l)"

definition mark_field :: "data_field \<Rightarrow> 'w local \<Rightarrow> 'w local" where
  "mark_field F l = (if marks l F = None then l\<lparr>marks := (marks l)(F := Some (pos l))\<rparr> else l)"

text \<open>The state is stored before the call and loaded after it; a callback may also pause.\<close>

definition callback_notify :: "'w http_cb option \<Rightarrow> http_errno \<Rightarrow> nat \<Rightarrow> 'w local \<Rightarrow> ('w local \<Rightarrow> 'w outcome) \<Rightarrow> 'w outcome" where
  "callback_notify cb e er l k = (case cb of None \<Rightarrow> k l
     | Some f \<Rightarrow> (case f ((parser l)\<lparr>state := p_state l\<rparr>) of (rc, q) \<Rightarrow>
         let q = (if rc \<noteq> 0 then q\<lparr>http_errno := e\<rparr> else q);
             l = l\<lparr>parser := q, p_state := state q\<rparr>
         in if http_errno q \<noteq> HPE_OK then Return er l else k l))"

definition callback_data :: "data_field \<Rightarrow> nat \<Rightarrow> nat \<Rightarrow> 'w http_parser_settings \<Rightarrow> byte list \<Rightarrow> 'w local
    \<Rightarrow> ('w local \<Rightarrow> 'w outcome) \<Rightarrow> 'w outcome" where
  "callback_data F n er S buf l k = (case marks l F of None \<Rightarrow> k l
     | Some m \<Rightarrow> (case on_data F S of None \<Rightarrow> k (l\<lparr>marks := (marks l)(F := None)\<rparr>)
       | Some f \<Rightarrow> (case f ((parser l)\<lparr>state := p_state l\<rparr>) (slice m (n - m) buf) of (rc, q) \<Rightarrow>
           let q = (if rc \<noteq> 0 then q\<lparr>http_errno := HPE_CB F\<rparr> else q);
               l = l\<lparr>parser := q, p_state := state q\<rparr>
           in if http_errno q \<noteq> HPE_OK then Return er l else k (l\<lparr>marks := (marks l)(F := None)\<rparr>))))"

definition http_message_needs_eof :: "'w http_parser \<Rightarrow> bool" where
  "http_message_needs_eof q = (if ptype q = HTTP_REQUEST then False
     else if status_code q div 100 = 1 \<or> status_code q = 204 \<or> status_code q = 304 \<or> flags q AND F_SKIPBODY \<noteq> 0 then False
     else if flags q AND F_CHUNKED \<noteq> 0 \<or> content_length q \<noteq> ULLONG_MAX then False else True)"

definition http_should_keep_alive :: "'w http_parser \<Rightarrow> bool" where
  "http_should_keep_alive q = (if http_major q > 0 \<and> http_minor q > 0 then
        if flags q AND F_CONNECTION_CLOSE \<noteq> 0 then False else \<not> http_message_needs_eof q
     else if flags q AND F_CONNECTION_KEEP_ALIVE = 0 then False else \<not> http_message_needs_eof q)"

definition start_state :: "'w http_parser \<Rightarrow> state" where
  "start_state q = (if ptype q = HTTP_REQUEST then s_start_req else s_start_res)"

definition new_message :: "'w http_parser \<Rightarrow> state" where
  "new_message q = (if http_should_keep_alive q then start_state q else s_dead)"

section \<open>Status line\<close>

definition at_dead :: "'w local \<Rightarrow> 'w outcome" where
  "at_dead l = (if cur l = CR \<or> cur l = LF then Break l else fail_with HPE_CLOSED_CONNECTION l)"

definition at_start_req_or_res :: "'w http_parser_settings \<Rightarrow> 'w local \<Rightarrow> 'w outcome" where
  "at_start_req_or_res S l = (if cur l = CR \<or> cur l = LF then Break l
     else let l = upd_parser (\<lambda>q. q\<lparr>flags := 0, content_length := ULLONG_MAX\<rparr>) l
     in if cur l = ch_of CHR ''H'' then
          callback_notify (on_message_begin S) HPE_CB_message_begin (pos l + 1) (update_state s_res_or_resp_H l) Break
        else Reexecute (update_state s_start_req (upd_parser (\<lambda>q. q\<lparr>ptype := HTTP_REQUEST\<rparr>) l)))"

definition at_res_or_resp_H :: "'w local \<Rightarrow> 'w outcome" where
  "at_res_or_resp_H l = (if cur l = ch_of CHR ''T'' then Break (update_state s_res_HT (upd_parser (\<lambda>q. q\<lparr>ptype := HTTP_RESPONSE\<rparr>) l))
     else if cur l \<noteq> ch_of CHR ''E'' then fail_with HPE_INVALID_CONSTANT l
     else Break (update_state s_req_method (upd_parser (\<lambda>q. q\<lparr>ptype := HTTP_REQUEST, meth := HTTP_HEAD, index := 2\<rparr>) l)))"

definition at_start_res :: "'w http_parser_settings \<Rightarrow> 'w local \<Rightarrow> 'w outcome" where
  "at_start_res S l = (let l = upd_parser (\<lambda>q. q\<lparr>flags := 0, content_length := ULLONG_MAX\<rparr>) l
     in if cur l = ch_of CHR ''H'' then
          callback_notify (on_message_begin S) HPE_CB_message_begin (pos l + 1) (update_state s_res_H l) Break
        else if cur l = CR \<or> cur l = LF then callback_notify (on_message_begin S) HPE_CB_message_begin (pos l + 1) l Break
        else fail_with HPE_INVALID_CONSTANT l)"

definition at_res_H :: "'w local \<Rightarrow> 'w outcome" where
  "at_res_H l = strict_check (cur l \<noteq> ch_of CHR ''T'') l (Break (update_state s_res_HT l))"
definition at_res_HT :: "'w local \<Rightarrow> 'w outcome" where
  "at_res_HT l = strict_check (cur l \<noteq> ch_of CHR ''T'') l (Break (update_state s_res_HTT l))"
definition at_res_HTT :: "'w local \<Rightarrow> 'w outcome" where
  "at_res_HTT l = strict_check (cur l \<noteq> ch_of CHR ''P'') l (Break (update_state s_res_HTTP l))"
definition at_res_HTTP :: "'w local \<Rightarrow> 'w outcome" where
  "at_res_HTTP l = strict_check (cur l \<noteq> ch_of CHR ''/'') l (Break (update_state s_res_first_http_major l))"

definition digit :: "byte \<Rightarrow> 'a::len word" where
  "digit c = ucast c - 48"

definition at_res_first_http_major :: "'w local \<Rightarrow> 'w outcome" where
  "at_res_first_http_major l = (if \<not> IS_NUM (cur l) then fail_with HPE_INVALID_VERSION l
     else Break (update_state s_res_http_major (upd_parser (\<lambda>q. q\<lparr>http_major := digit (cur l)\<rparr>) l)))"

definition at_res_http_major :: "'w local \<Rightarrow> 'w outcome" where
  "at_res_http_major l = (if cur l = ch_of CHR ''.'' then Break (update_state s_res_first_http_minor l)
     else if \<not> IS_NUM (cur l) then fail_with HPE_INVALID_VERSION l
     else let l = upd_parser (\<lambda>q. q\<lparr>http_major := http_major q * 10 + digit (cur l)\<rparr>) l
     in if http_major (parser l) > 999 then fail_with HPE_INVALID_VERSION l else Break l)"

definition at_res_first_http_minor :: "'w local \<Rightarrow> 'w outcome" where
  "at_res_first_http_minor l = (if \<not> IS_NUM (cur l) then fail_with HPE_INVALID_VERSION l
     else Break (update_state s_res_http_minor (upd_parser (\<lambda>q. q\<lparr>http_minor := digit (cur l)\<rparr>) l)))"

definition at_res_http_minor :: "'w local \<Rightarrow> 'w outcome" where
  "at_res_http_minor l = (if cur l = SP then Break (update_state s_res_first_status_code l)
     else if \<not> IS_NUM (cur l) then fail_with HPE_INVALID_VERSION l
     else let l = upd_parser (\<lambda>q. q\<lparr>http_minor := http_minor q * 10 + digit (cur l)\<rparr>) l
     in if http_minor (parser l) > 999 then fail_with HPE_INVALID_VERSION l else Break l)"

definition at_res_first_status_code :: "'w local \<Rightarrow> 'w outcome" where
  "at_res_first_status_code l = (if \<not> IS_NUM (cur l) then if cur l = SP then Break l else fail_with HPE_INVALID_STATUS l
     else Break (update_state s_res_status_code (upd_parser (\<lambda>q. q\<lparr>status_code := digit (cur l)\<rparr>) l)))"

definition at_res_status_code :: "'w local \<Rightarrow> 'w outcome" where
  "at_res_status_code l = (if \<not> IS_NUM (cur l) then
        if cur l = SP then Break (update_state s_res_status_start l)
        else if cur l = CR then Break (update_state s_res_line_almost_done l)
        else if cur l = LF then Break (update_state s_header_field_start l)
        else fail_with HPE_INVALID_STATUS l
     else let l = upd_parser (\<lambda>q. q\<lparr>status_code := status_code q * 10 + digit (cur l)\<rparr>) l
     in if status_code (parser l) > 999 then fail_with HPE_INVALID_STATUS l else Break l)"

definition at_res_status_start :: "'w local \<Rightarrow> 'w outcome" where
  "at_res_status_start l = (if cur l = CR then Break (update_state s_res_line_almost_done l)
     else if cur l = LF then Break (update_state s_header_field_start l)
     else Break (upd_parser (\<lambda>q. q\<lparr>index := 0\<rparr>) (update_state s_res_status (mark_field For_status l))))"

definition at_res_status :: "'w http_parser_settings \<Rightarrow> byte list \<Rightarrow> 'w local \<Rightarrow> 'w outcome" where
  "at_res_status S buf l = (if cur l = CR then
        callback_data For_status (pos l) (pos l + 1) S buf (update_state s_res_line_almost_done l) Break
     else if cur l = LF then callback_data For_status (pos l) (pos l + 1) S buf (update_state s_header_field_start l) Break
     else Break l)"

definition at_res_line_almost_done :: "'w local \<Rightarrow> 'w outcome" where
  "at_res_line_almost_done l = strict_check (cur l \<noteq> LF) l (Break (update_state s_header_field_start l))"

section \<open>Request line\<close>

text \<open>The first letter of a method selects the first method with it.\<close>

definition start_method :: "byte \<Rightarrow> http_method option" where
  "start_method ch = (if ch = ch_of CHR ''A'' then Some HTTP_ACL else if ch = ch_of CHR ''B'' then Some HTTP_BIND
     else if ch = ch_of CHR ''C'' then Some HTTP_CONNECT else if ch = ch_of CHR ''D'' then Some HTTP_DELETE
     else if ch = ch_of CHR ''G'' then Some HTTP_GET else if ch = ch_of CHR ''H'' then Some HTTP_HEAD
     else if ch = ch_of CHR ''L'' then Some HTTP_LOCK else if ch = ch_of CHR ''M'' then Some HTTP_MKCOL
     else if ch = ch_of CHR ''N'' then Some HTTP_NOTIFY else if ch = ch_of CHR ''O'' then Some HTTP_OPTIONS
     else if ch = ch_of CHR ''P'' then Some HTTP_POST else if ch = ch_of CHR ''R'' then Some HTTP_REPORT
     else if ch = ch_of CHR ''S'' then Some HTTP_SUBSCRIBE else if ch = ch_of CHR ''T'' then Some HTTP_TRACE
     else if ch = ch_of CHR ''U'' then Some HTTP_UNLOCK else None)"

definition at_start_req :: "'w http_parser_settings \<Rightarrow> 'w local \<Rightarrow> 'w outcome" where
  "at_start_req S l = (if cur l = CR \<or> cur l = LF then Break l
     else let l = upd_parser (\<lambda>q. q\<lparr>flags := 0, content_length := ULLONG_MAX\<rparr>) l
     in if \<not> IS_ALPHA (cur l) then fail_with HPE_INVALID_METHOD l
     else let l = upd_parser (\<lambda>q. q\<lparr>meth := HTTP_DELETE, index := 1\<rparr>) l
     in case start_method (cur l) of None \<Rightarrow> fail_with HPE_INVALID_METHOD l
        | Some m \<Rightarrow> callback_notify (on_message_begin S) HPE_CB_message_begin (pos l + 1)
            (update_state s_req_method (upd_parser (\<lambda>q. q\<lparr>meth := m\<rparr>) l)) Break)"

text \<open>
  The method a character that does not match leads to; \<open>None\<close> is an invalid method. At the
  second character the code only looks at methods that start with P or L, and takes any
  character for the others (lines 1045 to 1064).
\<close>

definition other_method :: "http_method \<Rightarrow> byte \<Rightarrow> byte \<Rightarrow> http_method option" where
  "other_method m i ch =
    (if m = HTTP_CONNECT then
       if i = 1 \<and> ch = ch_of CHR ''H'' then Some HTTP_CHECKOUT
       else if i = 2 \<and> ch = ch_of CHR ''P'' then Some HTTP_COPY else None
     else if m = HTTP_MKCOL then
       if i = 1 \<and> ch = ch_of CHR ''O'' then Some HTTP_MOVE
       else if i = 1 \<and> ch = ch_of CHR ''E'' then Some HTTP_MERGE
       else if i = 1 \<and> ch = ch_of CHR ''-'' then Some HTTP_MSEARCH
       else if i = 2 \<and> ch = ch_of CHR ''A'' then Some HTTP_MKACTIVITY
       else if i = 3 \<and> ch = ch_of CHR ''A'' then Some HTTP_MKCALENDAR else None
     else if m = HTTP_SUBSCRIBE then if i = 1 \<and> ch = ch_of CHR ''E'' then Some HTTP_SEARCH else None
     else if m = HTTP_REPORT then if i = 2 \<and> ch = ch_of CHR ''B'' then Some HTTP_REBIND else None
     else if i = 1 then
       if m = HTTP_POST then
         if ch = ch_of CHR ''R'' then Some HTTP_PROPFIND
         else if ch = ch_of CHR ''U'' then Some HTTP_PUT
         else if ch = ch_of CHR ''A'' then Some HTTP_PATCH else None
       else if m = HTTP_LOCK then if ch = ch_of CHR ''I'' then Some HTTP_LINK else None
       else Some m
     else if i = 2 then
       if m = HTTP_PUT then if ch = ch_of CHR ''R'' then Some HTTP_PURGE else None
       else if m = HTTP_UNLOCK then
         if ch = ch_of CHR ''S'' then Some HTTP_UNSUBSCRIBE
         else if ch = ch_of CHR ''B'' then Some HTTP_UNBIND else None
       else None
     else if i = 4 \<and> m = HTTP_PROPFIND \<and> ch = ch_of CHR ''P'' then Some HTTP_PROPPATCH
     else if i = 3 \<and> m = HTTP_UNLOCK \<and> ch = ch_of CHR ''I'' then Some HTTP_UNLINK
     else None)"

definition at_req_method :: "'w local \<Rightarrow> 'w outcome" where
  "at_req_method l = (if cur l = 0 then fail_with HPE_INVALID_METHOD l
     else let m = meth (parser l); i = index (parser l)
     in if length (method_string m) < unat i then Undefined
     else if cur l = SP \<and> c_at (method_string m) (unat i) = 0 then
       Break (upd_parser (\<lambda>q. q\<lparr>index := index q + 1\<rparr>) (update_state s_req_spaces_before_url l))
     else if cur l = c_at (method_string m) (unat i) then Break (upd_parser (\<lambda>q. q\<lparr>index := index q + 1\<rparr>) l)
     else case other_method m i (cur l) of None \<Rightarrow> fail_with HPE_INVALID_METHOD l
       | Some m' \<Rightarrow> Break (upd_parser (\<lambda>q. q\<lparr>meth := m', index := index q + 1\<rparr>) l))"

definition at_req_spaces_before_url :: "'w local \<Rightarrow> 'w outcome" where
  "at_req_spaces_before_url l = (if cur l = SP then Break l
     else let l = mark_field For_url l;
              l = (if meth (parser l) = HTTP_CONNECT then update_state s_req_server_start l else l);
              l = update_state (parse_url_char (p_state l) (cur l)) l
     in if p_state l = s_dead then fail_with HPE_INVALID_URL l else Break l)"

definition at_req_schema :: "'w local \<Rightarrow> 'w outcome" where
  "at_req_schema l = (if cur l = SP \<or> cur l = CR \<or> cur l = LF then fail_with HPE_INVALID_URL l
     else let l = update_state (parse_url_char (p_state l) (cur l)) l
     in if p_state l = s_dead then fail_with HPE_INVALID_URL l else Break l)"

definition at_req_url :: "'w http_parser_settings \<Rightarrow> byte list \<Rightarrow> 'w local \<Rightarrow> 'w outcome" where
  "at_req_url S buf l = (if cur l = SP then
        callback_data For_url (pos l) (pos l + 1) S buf (update_state s_req_http_start l) Break
     else if cur l = CR \<or> cur l = LF then
        callback_data For_url (pos l) (pos l + 1) S buf
          (update_state (if cur l = CR then s_req_line_almost_done else s_header_field_start)
             (upd_parser (\<lambda>q. q\<lparr>http_major := 0, http_minor := 9\<rparr>) l)) Break
     else let l = update_state (parse_url_char (p_state l) (cur l)) l
     in if p_state l = s_dead then fail_with HPE_INVALID_URL l else Break l)"

definition at_req_http_start :: "'w local \<Rightarrow> 'w outcome" where
  "at_req_http_start l = (if cur l = ch_of CHR ''H'' then Break (update_state s_req_http_H l)
     else if cur l = SP then Break l else fail_with HPE_INVALID_CONSTANT l)"

definition at_req_http_H :: "'w local \<Rightarrow> 'w outcome" where
  "at_req_http_H l = strict_check (cur l \<noteq> ch_of CHR ''T'') l (Break (update_state s_req_http_HT l))"
definition at_req_http_HT :: "'w local \<Rightarrow> 'w outcome" where
  "at_req_http_HT l = strict_check (cur l \<noteq> ch_of CHR ''T'') l (Break (update_state s_req_http_HTT l))"
definition at_req_http_HTT :: "'w local \<Rightarrow> 'w outcome" where
  "at_req_http_HTT l = strict_check (cur l \<noteq> ch_of CHR ''P'') l (Break (update_state s_req_http_HTTP l))"
definition at_req_http_HTTP :: "'w local \<Rightarrow> 'w outcome" where
  "at_req_http_HTTP l = strict_check (cur l \<noteq> ch_of CHR ''/'') l (Break (update_state s_req_first_http_major l))"

definition at_req_first_http_major :: "'w local \<Rightarrow> 'w outcome" where
  "at_req_first_http_major l = (if cur l < ch_of CHR ''1'' \<or> cur l > ch_of CHR ''9'' then fail_with HPE_INVALID_VERSION l
     else Break (update_state s_req_http_major (upd_parser (\<lambda>q. q\<lparr>http_major := digit (cur l)\<rparr>) l)))"

definition at_req_http_major :: "'w local \<Rightarrow> 'w outcome" where
  "at_req_http_major l = (if cur l = ch_of CHR ''.'' then Break (update_state s_req_first_http_minor l)
     else if \<not> IS_NUM (cur l) then fail_with HPE_INVALID_VERSION l
     else let l = upd_parser (\<lambda>q. q\<lparr>http_major := http_major q * 10 + digit (cur l)\<rparr>) l
     in if http_major (parser l) > 999 then fail_with HPE_INVALID_VERSION l else Break l)"

definition at_req_first_http_minor :: "'w local \<Rightarrow> 'w outcome" where
  "at_req_first_http_minor l = (if \<not> IS_NUM (cur l) then fail_with HPE_INVALID_VERSION l
     else Break (update_state s_req_http_minor (upd_parser (\<lambda>q. q\<lparr>http_minor := digit (cur l)\<rparr>) l)))"

definition at_req_http_minor :: "'w local \<Rightarrow> 'w outcome" where
  "at_req_http_minor l = (if cur l = CR then Break (update_state s_req_line_almost_done l)
     else if cur l = LF then Break (update_state s_header_field_start l)
     else if \<not> IS_NUM (cur l) then fail_with HPE_INVALID_VERSION l
     else let l = upd_parser (\<lambda>q. q\<lparr>http_minor := http_minor q * 10 + digit (cur l)\<rparr>) l
     in if http_minor (parser l) > 999 then fail_with HPE_INVALID_VERSION l else Break l)"

definition at_req_line_almost_done :: "'w local \<Rightarrow> 'w outcome" where
  "at_req_line_almost_done l = (if cur l \<noteq> LF then fail_with HPE_LF_EXPECTED l else Break (update_state s_header_field_start l))"

end
