(* ===== verification/HttpParserRun.thy ===== *)
theory HttpParserRun
  imports HttpParserExec
begin

text \<open>
  The second half of \<^verbatim>\<open>http_parser_execute\<close>: header fields and values with their matchers, the
  end of the headers, bodies and chunks; then the loop over the buffer, whose handlers may run
  several times on one byte, and the other operations on a parser.
\<close>

section \<open>Header fields\<close>

definition start_header_state :: "byte \<Rightarrow> header_states" where
  "start_header_state c = (if c = ch_of CHR ''c'' then h_C else if c = ch_of CHR ''p'' then h_matching_proxy_connection
     else if c = ch_of CHR ''t'' then h_matching_transfer_encoding else if c = ch_of CHR ''u'' then h_matching_upgrade
     else h_general)"

definition at_header_field_start :: "'w local \<Rightarrow> 'w outcome" where
  "at_header_field_start l = (if cur l = CR then Break (update_state s_headers_almost_done l)
     else if cur l = LF then Reexecute (update_state s_headers_almost_done l)
     else let c = TOKEN (cur l)
     in if c = 0 then fail_with HPE_INVALID_HEADER_TOKEN l
        else Break (upd_parser (\<lambda>q. q\<lparr>index := 0, header_state := start_header_state c\<rparr>)
               (update_state s_header_field (mark_field For_header_field l))))"

text \<open>
  The matchers compare one more character with a name: a mismatch leads to \<open>other\<close>, the last
  character to \<open>found\<close>.
\<close>

definition match_name :: "string \<Rightarrow> header_states \<Rightarrow> header_states \<Rightarrow> header_states \<Rightarrow> byte \<Rightarrow> byte \<Rightarrow> header_states" where
  "match_name name here found other i c = (if unat i > length name \<or> c \<noteq> c_at name (unat i) then other
     else if unat i = length name - 1 then found else here)"

definition header_field_char :: "byte \<Rightarrow> 'w http_parser \<Rightarrow> 'w http_parser" where
  "header_field_char ch q = (let c = TOKEN ch; i = index q + 1; h = header_state q in case h of
       h_general \<Rightarrow> q
     | h_C \<Rightarrow> q\<lparr>index := i, header_state := if c = ch_of CHR ''o'' then h_CO else h_general\<rparr>
     | h_CO \<Rightarrow> q\<lparr>index := i, header_state := if c = ch_of CHR ''n'' then h_CON else h_general\<rparr>
     | h_CON \<Rightarrow> q\<lparr>index := i, header_state := if c = ch_of CHR ''n'' then h_matching_connection
           else if c = ch_of CHR ''t'' then h_matching_content_length else h_general\<rparr>
     | h_matching_connection \<Rightarrow> q\<lparr>index := i, header_state := match_name ''connection'' h h_connection h_general i c\<rparr>
     | h_matching_proxy_connection \<Rightarrow> q\<lparr>index := i, header_state := match_name ''proxy-connection'' h h_connection h_general i c\<rparr>
     | h_matching_content_length \<Rightarrow> q\<lparr>index := i, header_state := match_name ''content-length'' h h_content_length h_general i c\<rparr>
     | h_matching_transfer_encoding \<Rightarrow> q\<lparr>index := i, header_state := match_name ''transfer-encoding'' h h_transfer_encoding h_general i c\<rparr>
     | h_matching_upgrade \<Rightarrow> q\<lparr>index := i, header_state := match_name ''upgrade'' h h_upgrade h_general i c\<rparr>
     | h_connection \<Rightarrow> if ch \<noteq> SP then q\<lparr>header_state := h_general\<rparr> else q
     | h_content_length \<Rightarrow> if ch \<noteq> SP then q\<lparr>header_state := h_general\<rparr> else q
     | h_transfer_encoding \<Rightarrow> if ch \<noteq> SP then q\<lparr>header_state := h_general\<rparr> else q
     | h_upgrade \<Rightarrow> if ch \<noteq> SP then q\<lparr>header_state := h_general\<rparr> else q
     | _ \<Rightarrow> q)"

text \<open>The inner loop on the rest of the buffer; it returns what is left.\<close>

fun header_field_loop :: "byte list \<Rightarrow> 'w http_parser \<Rightarrow> byte list \<times> 'w http_parser" where
  "header_field_loop [] q = ([], q)"
| "header_field_loop (ch # rest) q = (if TOKEN ch = 0 then (ch # rest, q) else header_field_loop rest (header_field_char ch q))"

definition at_header_field :: "'w http_parser_settings \<Rightarrow> byte list \<Rightarrow> 'w local \<Rightarrow> 'w outcome" where
  "at_header_field S buf l = (let start = pos l in case header_field_loop (drop start buf) (parser l) of (rest, q) \<Rightarrow>
     let p = length buf - length rest;
         l = l\<lparr>parser := q, pos := p, cur := (if rest = [] then last buf else hd rest)\<rparr>
     in count_header_size (p - start) l (\<lambda>l.
          if p = length buf then Break (l\<lparr>pos := p - 1\<rparr>)
          else if cur l = ch_of CHR '':'' then
            callback_data For_header_field p (p + 1) S buf (update_state s_header_value_discard_ws l) Break
          else fail_with HPE_INVALID_HEADER_TOKEN l))"

section \<open>Header values\<close>

definition at_header_value_start :: "'w local \<Rightarrow> 'w outcome" where
  "at_header_value_start l = (let l = upd_parser (\<lambda>q. q\<lparr>index := 0\<rparr>) (update_state s_header_value (mark_field For_header_value l));
       c = LOWER (cur l); to = (\<lambda>h. Break (upd_parser (\<lambda>q. q\<lparr>header_state := h\<rparr>) l)) in case header_state (parser l) of
       h_upgrade \<Rightarrow> Break (upd_parser (\<lambda>q. q\<lparr>flags := flags q OR F_UPGRADE, header_state := h_general\<rparr>) l)
     | h_transfer_encoding \<Rightarrow> to (if c = ch_of CHR ''c'' then h_matching_transfer_encoding_chunked else h_general)
     | h_content_length \<Rightarrow> if \<not> IS_NUM (cur l) then fail_with HPE_INVALID_CONTENT_LENGTH l
         else Break (upd_parser (\<lambda>q. q\<lparr>content_length := digit (cur l)\<rparr>) l)
     | h_connection \<Rightarrow> to (if c = ch_of CHR ''k'' then h_matching_connection_keep_alive
         else if c = ch_of CHR ''c'' then h_matching_connection_close
         else if c = ch_of CHR ''u'' then h_matching_connection_upgrade else h_matching_connection_token)
     | h_matching_connection_token_start \<Rightarrow> Break l
     | _ \<Rightarrow> to h_general)"

definition at_header_value_discard_ws :: "'w local \<Rightarrow> 'w outcome" where
  "at_header_value_discard_ws l = (if cur l = SP \<or> cur l = TAB then Break l
     else if cur l = CR then Break (update_state s_header_value_discard_ws_almost_done l)
     else if cur l = LF then Break (update_state s_header_value_discard_lws l)
     else at_header_value_start l)"

definition connection_flag :: "header_states \<Rightarrow> flags" where
  "connection_flag h = (case h of h_connection_keep_alive \<Rightarrow> F_CONNECTION_KEEP_ALIVE | h_connection_close \<Rightarrow> F_CONNECTION_CLOSE
     | h_connection_upgrade \<Rightarrow> F_CONNECTION_UPGRADE | _ \<Rightarrow> 0)"

text \<open>One character of a value in a state other than \<open>h_general\<close>; \<open>None\<close> is an invalid content length.\<close>

definition header_value_char :: "byte \<Rightarrow> header_states \<Rightarrow> 'w http_parser \<Rightarrow> (header_states \<times> 'w http_parser) option" where
  "header_value_char ch h q = (let c = LOWER ch; i = index q + 1 in case h of
       h_connection \<Rightarrow> Some (h, q)
     | h_transfer_encoding \<Rightarrow> Some (h, q)
     | h_content_length \<Rightarrow> if ch = SP then Some (h, q) else if \<not> IS_NUM ch then None
         else if (ULLONG_MAX - 10) div 10 < content_length q then None
         else Some (h, q\<lparr>content_length := content_length q * 10 + digit ch\<rparr>)
     | h_matching_transfer_encoding_chunked \<Rightarrow> Some (match_name ''chunked'' h h_transfer_encoding_chunked h_general i c, q\<lparr>index := i\<rparr>)
     | h_matching_connection_token_start \<Rightarrow> Some (if c = ch_of CHR ''k'' then h_matching_connection_keep_alive
         else if c = ch_of CHR ''c'' then h_matching_connection_close
         else if c = ch_of CHR ''u'' then h_matching_connection_upgrade
         else if TOKEN c \<noteq> 0 then h_matching_connection_token
         else if c = SP \<or> c = TAB then h else h_general, q)
     | h_matching_connection_keep_alive \<Rightarrow> Some (match_name ''keep-alive'' h h_connection_keep_alive h_matching_connection_token i c, q\<lparr>index := i\<rparr>)
     | h_matching_connection_close \<Rightarrow> Some (match_name ''close'' h h_connection_close h_matching_connection_token i c, q\<lparr>index := i\<rparr>)
     | h_matching_connection_upgrade \<Rightarrow> Some (match_name ''upgrade'' h h_connection_upgrade h_matching_connection_token i c, q\<lparr>index := i\<rparr>)
     | h_matching_connection_token \<Rightarrow> Some (if ch = ch_of CHR '','' then (h_matching_connection_token_start, q\<lparr>index := 0\<rparr>) else (h, q))
     | h_transfer_encoding_chunked \<Rightarrow> Some (if ch \<noteq> SP then h_general else h, q)
     | _ \<Rightarrow> if h \<in> {h_connection_keep_alive, h_connection_close, h_connection_upgrade} then
           Some (if ch = ch_of CHR '','' then (h_matching_connection_token_start, q\<lparr>flags := flags q OR connection_flag h, index := 0\<rparr>)
             else if ch \<noteq> SP then (h_matching_connection_token, q) else (h, q))
         else Some (h_general, q))"

text \<open>
  The inner loop; \<open>h_general\<close> looks for the end of the line with \<^verbatim>\<open>memchr\<close> in the next
  \<open>HTTP_MAX_HEADER_SIZE\<close> bytes and goes to the end of the buffer when there is none.
\<close>

definition skip_line :: "byte list \<Rightarrow> byte list" where
  "skip_line xs = (if CR \<in> set (take (unat HTTP_MAX_HEADER_SIZE) xs) \<or> LF \<in> set (take (unat HTTP_MAX_HEADER_SIZE) xs)
     then dropWhile (\<lambda>c. c \<noteq> CR \<and> c \<noteq> LF) xs else [])"

lemma length_skip_line: "ch \<noteq> CR \<Longrightarrow> ch \<noteq> LF \<Longrightarrow> length (skip_line (ch # rest)) < Suc (length rest)"
  by (auto simp: skip_line_def intro: le_imp_less_Suc length_dropWhile_le)

datatype value_end = VEnd | VCr | VLf | VInvalid

function (sequential) header_value_loop :: "byte list \<Rightarrow> header_states \<Rightarrow> 'w http_parser \<Rightarrow> value_end \<times> byte list \<times> header_states \<times> 'w http_parser" where
  "header_value_loop [] h q = (VEnd, [], h, q)"
| "header_value_loop (ch # rest) h q = (if ch = CR then (VCr, ch # rest, h, q)
     else if ch = LF then (VLf, ch # rest, h, q)
     else if h = h_general then header_value_loop (skip_line (ch # rest)) h q
     else case header_value_char ch h q of None \<Rightarrow> (VInvalid, ch # rest, h, q)
       | Some (h, q) \<Rightarrow> header_value_loop rest h q)"
  by pat_completeness auto

termination
  by (relation "measure (\<lambda>(xs, h, q). length xs)") (auto simp: length_skip_line)

definition at_header_value :: "'w http_parser_settings \<Rightarrow> byte list \<Rightarrow> 'w local \<Rightarrow> 'w outcome" where
  "at_header_value S buf l = (let start = pos l in case header_value_loop (drop start buf) (header_state (parser l)) (parser l) of (e, rest, h, q) \<Rightarrow>
     let p = length buf - length rest; set_h = upd_parser (\<lambda>q. q\<lparr>header_state := h\<rparr>);
         l = l\<lparr>parser := q, pos := p, cur := (if rest = [] then last buf else hd rest)\<rparr>
     in case e of
          VCr \<Rightarrow> callback_data For_header_value p (p + 1) S buf (set_h (update_state s_header_almost_done l)) (\<lambda>l.
                   count_header_size (p - start) (set_h l) Break)
        | VLf \<Rightarrow> count_header_size (p - start) (update_state s_header_almost_done l) (\<lambda>l.
                   callback_data For_header_value p p S buf (set_h l) Reexecute)
        | VInvalid \<Rightarrow> fail_with HPE_INVALID_CONTENT_LENGTH (set_h l)
        | VEnd \<Rightarrow> count_header_size (p - start) (set_h l) (\<lambda>l. Break (l\<lparr>pos := p - 1\<rparr>)))"

definition at_header_almost_done :: "'w local \<Rightarrow> 'w outcome" where
  "at_header_almost_done l = strict_check (cur l \<noteq> LF) l (Break (update_state s_header_value_lws l))"

definition value_flag :: "header_states \<Rightarrow> flags" where
  "value_flag h = (if h = h_transfer_encoding_chunked then F_CHUNKED else connection_flag h)"

definition at_header_value_lws :: "'w local \<Rightarrow> 'w outcome" where
  "at_header_value_lws l = (if cur l = SP \<or> cur l = TAB then Reexecute (update_state s_header_value_start l)
     else Reexecute (update_state s_header_field_start (upd_parser (\<lambda>q. q\<lparr>flags := flags q OR value_flag (header_state q)\<rparr>) l)))"

definition at_header_value_discard_ws_almost_done :: "'w local \<Rightarrow> 'w outcome" where
  "at_header_value_discard_ws_almost_done l = strict_check (cur l \<noteq> LF) l (Break (update_state s_header_value_discard_lws l))"

definition at_header_value_discard_lws :: "'w http_parser_settings \<Rightarrow> byte list \<Rightarrow> 'w local \<Rightarrow> 'w outcome" where
  "at_header_value_discard_lws S buf l = (if cur l = SP \<or> cur l = TAB then Break (update_state s_header_value_discard_ws l)
     else callback_data For_header_value (pos l) (pos l) S buf
       (update_state s_header_field_start (mark_field For_header_value (upd_parser (\<lambda>q. q\<lparr>flags := flags q OR value_flag (header_state q)\<rparr>) l))) Reexecute)"

section \<open>End of the headers\<close>

definition upgrade_requested :: "'w http_parser \<Rightarrow> bool" where
  "upgrade_requested q \<longleftrightarrow> flags q AND (F_UPGRADE OR F_CONNECTION_UPGRADE) = F_UPGRADE OR F_CONNECTION_UPGRADE \<or> meth q = HTTP_CONNECT"

text \<open>The callback at the end of the headers is called on the parser as it is: the state is not stored.\<close>

definition at_headers_almost_done :: "'w http_parser_settings \<Rightarrow> 'w local \<Rightarrow> 'w outcome" where
  "at_headers_almost_done S l = strict_check (cur l \<noteq> LF) l
     (if flags (parser l) AND F_TRAILING \<noteq> 0 then
        callback_notify (on_chunk_complete S) HPE_CB_chunk_complete (pos l) (update_state s_message_done l) Reexecute
      else
        let l = upd_parser (\<lambda>q. q\<lparr>upgrade := upgrade_requested q\<rparr>) (update_state s_headers_done l);
            leave = (\<lambda>l. Return (pos l) (upd_parser (\<lambda>q. q\<lparr>state := p_state l\<rparr>) l));
            check = (\<lambda>l. if http_errno (parser l) \<noteq> HPE_OK then leave l else Reexecute l)
        in case on_headers_complete S of None \<Rightarrow> check l
           | Some f \<Rightarrow> (case f (parser l) of (rc, q) \<Rightarrow> let l = l\<lparr>parser := q\<rparr> in
               if rc = 0 then check l
               else if rc = 1 then check (upd_parser (\<lambda>q. q\<lparr>flags := flags q OR F_SKIPBODY\<rparr>) l)
               else leave (upd_parser (\<lambda>q. q\<lparr>http_errno := HPE_CB_headers_complete\<rparr>) l)))"

definition has_body :: "'w http_parser \<Rightarrow> bool" where
  "has_body q \<longleftrightarrow> flags q AND F_CHUNKED \<noteq> 0 \<or> content_length q > 0 \<and> content_length q \<noteq> ULLONG_MAX"

definition leave_after :: "'w local \<Rightarrow> 'w outcome" where
  "leave_after l = Return (pos l + 1) (upd_parser (\<lambda>q. q\<lparr>state := p_state l\<rparr>) l)"

definition at_headers_done :: "'w http_parser_settings \<Rightarrow> 'w local \<Rightarrow> 'w outcome" where
  "at_headers_done S l = strict_check (cur l \<noteq> LF) l
     (let l = upd_parser (\<lambda>q. q\<lparr>nread := 0\<rparr>) l; q = parser l;
          complete = callback_notify (on_message_complete S) HPE_CB_message_complete (pos l + 1) (update_state (new_message q) l)
      in if upgrade q \<and> (meth q = HTTP_CONNECT \<or> flags q AND F_SKIPBODY \<noteq> 0 \<or> \<not> has_body q) then complete leave_after
         else if flags q AND F_SKIPBODY \<noteq> 0 then complete Break
         else if flags q AND F_CHUNKED \<noteq> 0 then Break (update_state s_chunk_size_start l)
         else if content_length q = 0 then complete Break
         else if content_length q \<noteq> ULLONG_MAX then Break (update_state s_body_identity l)
         else if \<not> http_message_needs_eof q then complete Break
         else Break (update_state s_body_identity_eof l))"

section \<open>Bodies\<close>

text \<open>Taking \<open>to_read\<close> bytes, up to the last of them: \<open>p += to_read - 1\<close>.\<close>

definition take_body :: "byte list \<Rightarrow> 'w local \<Rightarrow> ('w local \<Rightarrow> 'w outcome) \<Rightarrow> 'w outcome" where
  "take_body buf l k = (let to_read = min (content_length (parser l)) (of_nat (length buf - pos l)) in
     if pos l + unat to_read = 0 then Undefined
     else k (let l = mark_field For_body l
        in upd_parser (\<lambda>q. q\<lparr>content_length := content_length q - to_read\<rparr>) (l\<lparr>pos := pos l + unat to_read - 1\<rparr>)))"

definition at_body_identity :: "'w http_parser_settings \<Rightarrow> byte list \<Rightarrow> 'w local \<Rightarrow> 'w outcome" where
  "at_body_identity S buf l = take_body buf l (\<lambda>l.
     if content_length (parser l) = 0 then callback_data For_body (pos l + 1) (pos l) S buf (update_state s_message_done l) Reexecute
     else Break l)"

definition at_body_identity_eof :: "byte list \<Rightarrow> 'w local \<Rightarrow> 'w outcome" where
  "at_body_identity_eof buf l = Break ((mark_field For_body l)\<lparr>pos := length buf - 1\<rparr>)"

definition at_message_done :: "'w http_parser_settings \<Rightarrow> 'w local \<Rightarrow> 'w outcome" where
  "at_message_done S l = callback_notify (on_message_complete S) HPE_CB_message_complete (pos l + 1)
     (update_state (new_message (parser l)) l) (\<lambda>l. if upgrade (parser l) then leave_after l else Break l)"

definition at_chunk_size_start :: "'w local \<Rightarrow> 'w outcome" where
  "at_chunk_size_start l = (if unhex (cur l) = -1 then fail_with HPE_INVALID_CHUNK_SIZE l
     else Break (update_state s_chunk_size (upd_parser (\<lambda>q. q\<lparr>content_length := of_int (unhex (cur l))\<rparr>) l)))"

definition at_chunk_size :: "'w local \<Rightarrow> 'w outcome" where
  "at_chunk_size l = (if cur l = CR then Break (update_state s_chunk_size_almost_done l)
     else if unhex (cur l) = -1 then
       if cur l = ch_of CHR '';'' \<or> cur l = SP then Break (update_state s_chunk_parameters l)
       else fail_with HPE_INVALID_CHUNK_SIZE l
     else if (ULLONG_MAX - 16) div 16 < content_length (parser l) then fail_with HPE_INVALID_CONTENT_LENGTH l
     else Break (upd_parser (\<lambda>q. q\<lparr>content_length := content_length q * 16 + of_int (unhex (cur l))\<rparr>) l))"

definition at_chunk_parameters :: "'w local \<Rightarrow> 'w outcome" where
  "at_chunk_parameters l = (if cur l = CR then Break (update_state s_chunk_size_almost_done l) else Break l)"

definition at_chunk_size_almost_done :: "'w http_parser_settings \<Rightarrow> 'w local \<Rightarrow> 'w outcome" where
  "at_chunk_size_almost_done S l = strict_check (cur l \<noteq> LF) l
     (let l = upd_parser (\<lambda>q. q\<lparr>nread := 0\<rparr>) l;
          l = (if content_length (parser l) = 0 then update_state s_header_field_start (upd_parser (\<lambda>q. q\<lparr>flags := flags q OR F_TRAILING\<rparr>) l)
               else update_state s_chunk_data l)
      in callback_notify (on_chunk_header S) HPE_CB_chunk_header (pos l + 1) l Break)"

definition at_chunk_data :: "byte list \<Rightarrow> 'w local \<Rightarrow> 'w outcome" where
  "at_chunk_data buf l = take_body buf l (\<lambda>l.
     Break (if content_length (parser l) = 0 then update_state s_chunk_data_almost_done l else l))"

definition at_chunk_data_almost_done :: "'w http_parser_settings \<Rightarrow> byte list \<Rightarrow> 'w local \<Rightarrow> 'w outcome" where
  "at_chunk_data_almost_done S buf l = strict_check (cur l \<noteq> CR) l
     (callback_data For_body (pos l) (pos l + 1) S buf (update_state s_chunk_data_done l) Break)"

definition at_chunk_data_done :: "'w http_parser_settings \<Rightarrow> 'w local \<Rightarrow> 'w outcome" where
  "at_chunk_data_done S l = strict_check (cur l \<noteq> LF) l
     (callback_notify (on_chunk_complete S) HPE_CB_chunk_complete (pos l + 1)
        (update_state s_chunk_size_start (upd_parser (\<lambda>q. q\<lparr>nread := 0\<rparr>) l)) Break)"

section \<open>The loop\<close>

definition step :: "'w http_parser_settings \<Rightarrow> byte list \<Rightarrow> 'w local \<Rightarrow> 'w outcome" where
  "step S buf l = (case p_state l of
       s_dead \<Rightarrow> at_dead l
     | s_start_req_or_res \<Rightarrow> at_start_req_or_res S l
     | s_res_or_resp_H \<Rightarrow> at_res_or_resp_H l
     | s_start_res \<Rightarrow> at_start_res S l
     | s_res_H \<Rightarrow> at_res_H l
     | s_res_HT \<Rightarrow> at_res_HT l
     | s_res_HTT \<Rightarrow> at_res_HTT l
     | s_res_HTTP \<Rightarrow> at_res_HTTP l
     | s_res_first_http_major \<Rightarrow> at_res_first_http_major l
     | s_res_http_major \<Rightarrow> at_res_http_major l
     | s_res_first_http_minor \<Rightarrow> at_res_first_http_minor l
     | s_res_http_minor \<Rightarrow> at_res_http_minor l
     | s_res_first_status_code \<Rightarrow> at_res_first_status_code l
     | s_res_status_code \<Rightarrow> at_res_status_code l
     | s_res_status_start \<Rightarrow> at_res_status_start l
     | s_res_status \<Rightarrow> at_res_status S buf l
     | s_res_line_almost_done \<Rightarrow> at_res_line_almost_done l
     | s_start_req \<Rightarrow> at_start_req S l
     | s_req_method \<Rightarrow> at_req_method l
     | s_req_spaces_before_url \<Rightarrow> at_req_spaces_before_url l
     | s_req_schema \<Rightarrow> at_req_schema l
     | s_req_schema_slash \<Rightarrow> at_req_schema l
     | s_req_schema_slash_slash \<Rightarrow> at_req_schema l
     | s_req_server_start \<Rightarrow> at_req_schema l
     | s_req_server \<Rightarrow> at_req_url S buf l
     | s_req_server_with_at \<Rightarrow> at_req_url S buf l
     | s_req_path \<Rightarrow> at_req_url S buf l
     | s_req_query_string_start \<Rightarrow> at_req_url S buf l
     | s_req_query_string \<Rightarrow> at_req_url S buf l
     | s_req_fragment_start \<Rightarrow> at_req_url S buf l
     | s_req_fragment \<Rightarrow> at_req_url S buf l
     | s_req_http_start \<Rightarrow> at_req_http_start l
     | s_req_http_H \<Rightarrow> at_req_http_H l
     | s_req_http_HT \<Rightarrow> at_req_http_HT l
     | s_req_http_HTT \<Rightarrow> at_req_http_HTT l
     | s_req_http_HTTP \<Rightarrow> at_req_http_HTTP l
     | s_req_first_http_major \<Rightarrow> at_req_first_http_major l
     | s_req_http_major \<Rightarrow> at_req_http_major l
     | s_req_first_http_minor \<Rightarrow> at_req_first_http_minor l
     | s_req_http_minor \<Rightarrow> at_req_http_minor l
     | s_req_line_almost_done \<Rightarrow> at_req_line_almost_done l
     | s_header_field_start \<Rightarrow> at_header_field_start l
     | s_header_field \<Rightarrow> at_header_field S buf l
     | s_header_value_discard_ws \<Rightarrow> at_header_value_discard_ws l
     | s_header_value_discard_ws_almost_done \<Rightarrow> at_header_value_discard_ws_almost_done l
     | s_header_value_discard_lws \<Rightarrow> at_header_value_discard_lws S buf l
     | s_header_value_start \<Rightarrow> at_header_value_start l
     | s_header_value \<Rightarrow> at_header_value S buf l
     | s_header_value_lws \<Rightarrow> at_header_value_lws l
     | s_header_almost_done \<Rightarrow> at_header_almost_done l
     | s_chunk_size_start \<Rightarrow> at_chunk_size_start l
     | s_chunk_size \<Rightarrow> at_chunk_size l
     | s_chunk_parameters \<Rightarrow> at_chunk_parameters l
     | s_chunk_size_almost_done \<Rightarrow> at_chunk_size_almost_done S l
     | s_headers_almost_done \<Rightarrow> at_headers_almost_done S l
     | s_headers_done \<Rightarrow> at_headers_done S l
     | s_chunk_data \<Rightarrow> at_chunk_data buf l
     | s_chunk_data_almost_done \<Rightarrow> at_chunk_data_almost_done S buf l
     | s_chunk_data_done \<Rightarrow> at_chunk_data_done S l
     | s_body_identity \<Rightarrow> at_body_identity S buf l
     | s_body_identity_eof \<Rightarrow> at_body_identity_eof buf l
     | s_message_done \<Rightarrow> at_message_done S l)"

text \<open>The callbacks for the marks that are left, then \<^verbatim>\<open>RETURN(len)\<close>.\<close>

definition finish_marks :: "'w http_parser_settings \<Rightarrow> byte list \<Rightarrow> 'w local \<Rightarrow> 'w outcome" where
  "finish_marks S buf l = (let n = length buf in
     callback_data For_header_field n n S buf l (\<lambda>l.
     callback_data For_header_value n n S buf l (\<lambda>l.
     callback_data For_url n n S buf l (\<lambda>l.
     callback_data For_body n n S buf l (\<lambda>l.
     callback_data For_status n n S buf l (\<lambda>l.
     Return n (upd_parser (\<lambda>q. q\<lparr>state := p_state l\<rparr>) l)))))))"

text \<open>The head of the loop at position \<open>pos l\<close>: leaving it, or the next byte with its count.\<close>

definition next_byte :: "'w http_parser_settings \<Rightarrow> byte list \<Rightarrow> 'w local \<Rightarrow> 'w outcome" where
  "next_byte S buf l = (if pos l = length buf then finish_marks S buf l
     else let l = l\<lparr>cur := buf ! pos l\<rparr>
     in if parsing_header (p_state l) then count_header_size 1 l Reexecute else Reexecute l)"

partial_function (option) run :: "'w http_parser_settings \<Rightarrow> byte list \<Rightarrow> 'w outcome \<Rightarrow> (nat \<times> 'w http_parser) option" where
  "run S buf r = (case r of
       Reexecute l \<Rightarrow> run S buf (step S buf l)
     | Break l \<Rightarrow> run S buf (next_byte S buf (l\<lparr>pos := pos l + 1\<rparr>))
     | Goto_error l \<Rightarrow> Some (pos l, (parser l)\<lparr>http_errno := if http_errno (parser l) = HPE_OK then HPE_UNKNOWN else http_errno (parser l),
         state := p_state l\<rparr>)
     | Return n l \<Rightarrow> Some (n, parser l)
     | Undefined \<Rightarrow> None)"

declare run.simps [code]

definition start_marks :: "state \<Rightarrow> data_field \<Rightarrow> nat option" where
  "start_marks s = (\<lambda>_. None)(
     For_header_field := if s = s_header_field then Some 0 else None,
     For_header_value := if s = s_header_value then Some 0 else None,
     For_url := if s \<in> {s_req_path, s_req_schema, s_req_schema_slash, s_req_schema_slash_slash, s_req_server_start, s_req_server,
         s_req_server_with_at, s_req_query_string_start, s_req_query_string, s_req_fragment_start, s_req_fragment} then Some 0 else None,
     For_status := if s = s_res_status then Some 0 else None)"

definition init_local :: "'w http_parser \<Rightarrow> 'w local" where
  "init_local q = \<lparr>parser = q, p_state = state q, pos = 0, cur = 0, marks = start_marks (state q)\<rparr>"

text \<open>An empty buffer is the end of the stream.\<close>

definition at_eof :: "'w http_parser_settings \<Rightarrow> 'w http_parser \<Rightarrow> nat \<times> 'w http_parser" where
  "at_eof S q = (if state q = s_body_identity_eof then
       (case callback_notify (on_message_complete S) HPE_CB_message_complete 0 (init_local q) (Return 0) of
          Return n l \<Rightarrow> (n, parser l) | _ \<Rightarrow> (0, q))
     else if state q \<in> {s_dead, s_start_req_or_res, s_start_res, s_start_req} then (0, q)
     else (1, q\<lparr>http_errno := HPE_INVALID_EOF_STATE\<rparr>))"

definition http_parser_execute :: "'w http_parser_settings \<Rightarrow> byte list \<Rightarrow> 'w http_parser \<Rightarrow> (nat \<times> 'w http_parser) option" where
  "http_parser_execute S buf q = (if http_errno q \<noteq> HPE_OK then Some (0, q)
     else if buf = [] then Some (at_eof S q)
     else run S buf (next_byte S buf (init_local q)))"

section \<open>Other operations\<close>

definition http_parser_init :: "http_parser_type \<Rightarrow> 'w \<Rightarrow> 'w http_parser" where
  "http_parser_init t d = \<lparr>ptype = t, flags = 0,
     state = (if t = HTTP_REQUEST then s_start_req else if t = HTTP_RESPONSE then s_start_res else s_start_req_or_res),
     header_state = h_general, index = 0, nread = 0, content_length = 0, http_major = 0, http_minor = 0, status_code = 0,
     meth = HTTP_DELETE, http_errno = HPE_OK, upgrade = False, pdata = d\<rparr>"

definition http_parser_pause :: "bool \<Rightarrow> 'w http_parser \<Rightarrow> 'w http_parser" where
  "http_parser_pause paused q = (if http_errno q = HPE_OK \<or> http_errno q = HPE_PAUSED
     then q\<lparr>http_errno := if paused then HPE_PAUSED else HPE_OK\<rparr> else q)"

definition http_body_is_final :: "'w http_parser \<Rightarrow> bool" where
  "http_body_is_final q \<longleftrightarrow> state q = s_message_done"

end
