(* ===== verification/HttpParserSafe.thy ===== *)
theory HttpParserSafe
  imports HttpParserRun
begin

text \<open>
  The parser does not leave the defined behaviour, always returns and never reads past the
  buffer: an invariant on the local state that every handler keeps, and a measure that every
  re-execution decreases. The contract with the application is that its callbacks only change
  their own object.
\<close>

section \<open>The contract of the callbacks\<close>

definition notify_cbs :: "'w http_parser_settings \<Rightarrow> 'w http_cb option set" where
  "notify_cbs S = {on_message_begin S, on_headers_complete S, on_message_complete S, on_chunk_header S, on_chunk_complete S}"

locale passive_callbacks =
  fixes S :: "'w http_parser_settings"
  assumes notify_passive: "Some f \<in> notify_cbs S \<Longrightarrow> \<exists>w. snd (f q) = q\<lparr>pdata := w\<rparr>"
    and data_passive: "on_data F S = Some g \<Longrightarrow> \<exists>w. snd (g q d) = q\<lparr>pdata := w\<rparr>"

section \<open>The invariant\<close>

definition url_states :: "state set" where
  "url_states = {s_req_path, s_req_schema, s_req_schema_slash, s_req_schema_slash_slash, s_req_server_start, s_req_server,
     s_req_server_with_at, s_req_query_string_start, s_req_query_string, s_req_fragment_start, s_req_fragment}"

text \<open>The states a mark may be set in; at most one mark is set in any state.\<close>

fun mark_states :: "data_field \<Rightarrow> state set" where
  "mark_states For_url = url_states"
| "mark_states For_status = {s_res_status}"
| "mark_states For_header_field = {s_header_field}"
| "mark_states For_header_value = {s_header_value}"
| "mark_states For_body = {s_body_identity, s_body_identity_eof, s_chunk_data, s_chunk_data_almost_done}"

definition parser_inv :: "state \<Rightarrow> 'w http_parser \<Rightarrow> bool" where
  "parser_inv s q \<longleftrightarrow> (s = s_req_method \<longrightarrow> unat (index q) \<le> length (method_string (meth q)))
     \<and> (s = s_body_identity \<or> s = s_chunk_data \<longrightarrow> content_length q \<noteq> 0)"

definition marks_inv :: "'w local \<Rightarrow> bool" where
  "marks_inv l \<longleftrightarrow> (\<forall>F. marks l F \<noteq> None \<longrightarrow> p_state l \<in> mark_states F) \<and> (\<forall>F. start_marks (p_state l) F \<noteq> None \<longrightarrow> marks l F \<noteq> None)
     \<and> (\<forall>F m. marks l F = Some m \<longrightarrow> m \<le> pos l)"

definition local_inv :: "'w local \<Rightarrow> bool" where
  "local_inv l \<longleftrightarrow> marks_inv l \<and> parser_inv (p_state l) (parser l) \<and> http_errno (parser l) = HPE_OK"

text \<open>How many times a state may still be left by re-executing on the same byte.\<close>

definition rank :: "state \<Rightarrow> nat" where
  "rank s = (if s \<in> {s_header_value_lws, s_header_value_discard_lws} then 4 else if s = s_header_field_start then 3
     else if s = s_headers_almost_done then 2
     else if s \<in> {s_start_req_or_res, s_header_value, s_headers_done, s_body_identity} then 1 else 0)"

fun good :: "nat \<Rightarrow> 'w local \<Rightarrow> 'w outcome \<Rightarrow> bool" where
  "good n l (Break l') \<longleftrightarrow> local_inv l' \<and> pos l \<le> pos l' \<and> pos l' < n"
| "good n l (Reexecute l') \<longleftrightarrow> local_inv l' \<and> pos l \<le> pos l' \<and> pos l' < n \<and> rank (p_state l') < rank (p_state l)"
| "good n l (Goto_error l') \<longleftrightarrow> pos l' \<le> n \<and> http_errno (parser l') \<noteq> HPE_OK"
| "good n l (Return m l') \<longleftrightarrow> m \<le> n \<and> (http_errno (parser l') = HPE_OK \<longrightarrow> upgrade (parser l') \<and> parser_inv (state (parser l')) (parser l'))"
| "good n l Undefined \<longleftrightarrow> False"

definition done_ok :: "nat \<Rightarrow> nat \<times> 'w http_parser \<Rightarrow> bool" where
  "done_ok n r \<longleftrightarrow> (case r of (m, q) \<Rightarrow> m \<le> n
     \<and> (http_errno q = HPE_OK \<longrightarrow> (m = n \<or> upgrade q) \<and> parser_inv (state q) q))"

definition finish_ok :: "nat \<Rightarrow> 'w outcome \<Rightarrow> bool" where
  "finish_ok n r \<longleftrightarrow> (\<exists>l'. r = Return n l' \<and> done_ok n (n, parser l'))"

definition finish_inv :: "'w local \<Rightarrow> bool" where
  "finish_inv l \<longleftrightarrow> http_errno (parser l) = HPE_OK \<and> parser_inv (p_state l) (parser l)"

lemma all_data_field: "(\<forall>F. P F) \<longleftrightarrow> P For_url \<and> P For_status \<and> P For_header_field \<and> P For_header_value \<and> P For_body"
  by (metis data_field.exhaust)

lemmas inv_defs = local_inv_def marks_inv_def parser_inv_def all_data_field

named_theorems handler_defs \<open>the handlers and macros\<close>

lemmas [handler_defs] = upd_parser_def update_state_def fail_with_def strict_check_def Let_def

lemma good_fail: "pos l' \<le> n \<Longrightarrow> e \<noteq> HPE_OK \<Longrightarrow> good n l (fail_with e l')"
  by (simp add: fail_with_def upd_parser_def)

lemma good_count:
  "pos l' \<le> n \<Longrightarrow> (\<And>l2. l2 = l'\<lparr>parser := (parser l')\<lparr>nread := nread (parser l') + of_nat k\<rparr>\<rparr> \<Longrightarrow> good n l (f l2)) \<Longrightarrow>
     good n l (count_header_size k l' f)"
  by (simp add: count_header_size_def Let_def fail_with_def upd_parser_def)

context passive_callbacks
begin

lemma good_notify:
  assumes "cb \<in> notify_cbs S" "m \<le> n" "e \<noteq> HPE_OK" "http_errno (parser l') = HPE_OK" "good n l (k l')"
    and "\<And>w. good n l (k (l'\<lparr>parser := (parser l')\<lparr>state := p_state l', pdata := w\<rparr>\<rparr>))"
  shows "good n l (callback_notify cb e m l' k)"
proof (cases cb)
  case (Some f)
  obtain rc q where f: "f ((parser l')\<lparr>state := p_state l'\<rparr>) = (rc, q)" by fastforce
  obtain w where q: "q = (parser l')\<lparr>state := p_state l', pdata := w\<rparr>"
    using notify_passive [of f "(parser l')\<lparr>state := p_state l'\<rparr>"] assms(1) Some f by auto
  have "l'\<lparr>parser := q, p_state := p_state l'\<rparr> = l'\<lparr>parser := q\<rparr>" by simp
  then show ?thesis using assms(2-4) assms(6) [of w] by (simp add: callback_notify_def Some f Let_def q)
qed (simp add: callback_notify_def assms)

lemma good_data:
  assumes "m \<le> n" "http_errno (parser l') = HPE_OK" "marks l' F = None \<Longrightarrow> good n l (k l')"
    and "good n l (k (l'\<lparr>marks := (marks l')(F := None)\<rparr>))"
    and "\<And>w. good n l (k (l'\<lparr>parser := (parser l')\<lparr>state := p_state l', pdata := w\<rparr>, marks := (marks l')(F := None)\<rparr>))"
  shows "good n l (callback_data F e m S buf l' k)"
proof (cases "marks l' F")
  case (Some j)
  show ?thesis
  proof (cases "on_data F S")
    case g: (Some g)
    obtain rc q where f: "g ((parser l')\<lparr>state := p_state l'\<rparr>) (slice j (e - j) buf) = (rc, q)" by fastforce
    obtain w where q: "q = (parser l')\<lparr>state := p_state l', pdata := w\<rparr>"
      using data_passive [OF g, of "(parser l')\<lparr>state := p_state l'\<rparr>" "slice j (e - j) buf"] f by auto
    have "HPE_CB F \<noteq> HPE_OK" by (cases F) simp_all
    then show ?thesis using assms(1,2) assms(5) [of w] by (simp add: callback_data_def Some g f Let_def q)
  qed (use assms Some in \<open>simp add: callback_data_def\<close>)
qed (simp add: callback_data_def assms)


lemmas step_simps = handler_defs inv_defs rank_def url_states_def start_marks_def

lemma good_dead: "local_inv l \<Longrightarrow> pos l < n \<Longrightarrow> p_state l = s_dead \<Longrightarrow> good n l (at_dead l)"
  by (auto simp: at_dead_def step_simps mark_field_def)

lemma good_res_or_resp_H: "local_inv l \<Longrightarrow> pos l < n \<Longrightarrow> p_state l = s_res_or_resp_H \<Longrightarrow> good n l (at_res_or_resp_H l)"
  by (auto simp: at_res_or_resp_H_def step_simps mark_field_def)

lemma good_res_H: "local_inv l \<Longrightarrow> pos l < n \<Longrightarrow> p_state l = s_res_H \<Longrightarrow> good n l (at_res_H l)"
  by (auto simp: at_res_H_def step_simps mark_field_def)

lemma good_res_HT: "local_inv l \<Longrightarrow> pos l < n \<Longrightarrow> p_state l = s_res_HT \<Longrightarrow> good n l (at_res_HT l)"
  by (auto simp: at_res_HT_def step_simps mark_field_def)

lemma good_res_HTT: "local_inv l \<Longrightarrow> pos l < n \<Longrightarrow> p_state l = s_res_HTT \<Longrightarrow> good n l (at_res_HTT l)"
  by (auto simp: at_res_HTT_def step_simps mark_field_def)

lemma good_res_HTTP: "local_inv l \<Longrightarrow> pos l < n \<Longrightarrow> p_state l = s_res_HTTP \<Longrightarrow> good n l (at_res_HTTP l)"
  by (auto simp: at_res_HTTP_def step_simps mark_field_def)

lemma good_res_first_http_major: "local_inv l \<Longrightarrow> pos l < n \<Longrightarrow> p_state l = s_res_first_http_major \<Longrightarrow> good n l (at_res_first_http_major l)"
  by (auto simp: at_res_first_http_major_def step_simps mark_field_def)

lemma good_res_http_major: "local_inv l \<Longrightarrow> pos l < n \<Longrightarrow> p_state l = s_res_http_major \<Longrightarrow> good n l (at_res_http_major l)"
  by (auto simp: at_res_http_major_def step_simps mark_field_def)

lemma good_res_first_http_minor: "local_inv l \<Longrightarrow> pos l < n \<Longrightarrow> p_state l = s_res_first_http_minor \<Longrightarrow> good n l (at_res_first_http_minor l)"
  by (auto simp: at_res_first_http_minor_def step_simps mark_field_def)

lemma good_res_http_minor: "local_inv l \<Longrightarrow> pos l < n \<Longrightarrow> p_state l = s_res_http_minor \<Longrightarrow> good n l (at_res_http_minor l)"
  by (auto simp: at_res_http_minor_def step_simps mark_field_def)

lemma good_res_first_status_code: "local_inv l \<Longrightarrow> pos l < n \<Longrightarrow> p_state l = s_res_first_status_code \<Longrightarrow> good n l (at_res_first_status_code l)"
  by (auto simp: at_res_first_status_code_def step_simps mark_field_def)

lemma good_res_status_code: "local_inv l \<Longrightarrow> pos l < n \<Longrightarrow> p_state l = s_res_status_code \<Longrightarrow> good n l (at_res_status_code l)"
  by (auto simp: at_res_status_code_def step_simps mark_field_def)

lemma good_res_status_start: "local_inv l \<Longrightarrow> pos l < n \<Longrightarrow> p_state l = s_res_status_start \<Longrightarrow> good n l (at_res_status_start l)"
  by (auto simp: at_res_status_start_def step_simps mark_field_def)

lemma good_res_line_almost_done: "local_inv l \<Longrightarrow> pos l < n \<Longrightarrow> p_state l = s_res_line_almost_done \<Longrightarrow> good n l (at_res_line_almost_done l)"
  by (auto simp: at_res_line_almost_done_def step_simps mark_field_def)

lemma good_req_http_start: "local_inv l \<Longrightarrow> pos l < n \<Longrightarrow> p_state l = s_req_http_start \<Longrightarrow> good n l (at_req_http_start l)"
  by (auto simp: at_req_http_start_def step_simps mark_field_def)

lemma good_req_http_H: "local_inv l \<Longrightarrow> pos l < n \<Longrightarrow> p_state l = s_req_http_H \<Longrightarrow> good n l (at_req_http_H l)"
  by (auto simp: at_req_http_H_def step_simps mark_field_def)

lemma good_req_http_HT: "local_inv l \<Longrightarrow> pos l < n \<Longrightarrow> p_state l = s_req_http_HT \<Longrightarrow> good n l (at_req_http_HT l)"
  by (auto simp: at_req_http_HT_def step_simps mark_field_def)

lemma good_req_http_HTT: "local_inv l \<Longrightarrow> pos l < n \<Longrightarrow> p_state l = s_req_http_HTT \<Longrightarrow> good n l (at_req_http_HTT l)"
  by (auto simp: at_req_http_HTT_def step_simps mark_field_def)

lemma good_req_http_HTTP: "local_inv l \<Longrightarrow> pos l < n \<Longrightarrow> p_state l = s_req_http_HTTP \<Longrightarrow> good n l (at_req_http_HTTP l)"
  by (auto simp: at_req_http_HTTP_def step_simps mark_field_def)

lemma good_req_first_http_major: "local_inv l \<Longrightarrow> pos l < n \<Longrightarrow> p_state l = s_req_first_http_major \<Longrightarrow> good n l (at_req_first_http_major l)"
  by (auto simp: at_req_first_http_major_def step_simps mark_field_def)

lemma good_req_http_major: "local_inv l \<Longrightarrow> pos l < n \<Longrightarrow> p_state l = s_req_http_major \<Longrightarrow> good n l (at_req_http_major l)"
  by (auto simp: at_req_http_major_def step_simps mark_field_def)

lemma good_req_first_http_minor: "local_inv l \<Longrightarrow> pos l < n \<Longrightarrow> p_state l = s_req_first_http_minor \<Longrightarrow> good n l (at_req_first_http_minor l)"
  by (auto simp: at_req_first_http_minor_def step_simps mark_field_def)

lemma good_req_http_minor: "local_inv l \<Longrightarrow> pos l < n \<Longrightarrow> p_state l = s_req_http_minor \<Longrightarrow> good n l (at_req_http_minor l)"
  by (auto simp: at_req_http_minor_def step_simps mark_field_def)

lemma good_req_line_almost_done: "local_inv l \<Longrightarrow> pos l < n \<Longrightarrow> p_state l = s_req_line_almost_done \<Longrightarrow> good n l (at_req_line_almost_done l)"
  by (auto simp: at_req_line_almost_done_def step_simps mark_field_def)

lemma good_header_field_start: "local_inv l \<Longrightarrow> pos l < n \<Longrightarrow> p_state l = s_header_field_start \<Longrightarrow> good n l (at_header_field_start l)"
  by (auto simp: at_header_field_start_def step_simps mark_field_def)

lemma good_header_value_lws: "local_inv l \<Longrightarrow> pos l < n \<Longrightarrow> p_state l = s_header_value_lws \<Longrightarrow> good n l (at_header_value_lws l)"
  by (auto simp: at_header_value_lws_def step_simps mark_field_def)

lemma good_header_almost_done: "local_inv l \<Longrightarrow> pos l < n \<Longrightarrow> p_state l = s_header_almost_done \<Longrightarrow> good n l (at_header_almost_done l)"
  by (auto simp: at_header_almost_done_def step_simps mark_field_def)

lemma good_header_value_discard_ws_almost_done: "local_inv l \<Longrightarrow> pos l < n \<Longrightarrow> p_state l = s_header_value_discard_ws_almost_done \<Longrightarrow> good n l (at_header_value_discard_ws_almost_done l)"
  by (auto simp: at_header_value_discard_ws_almost_done_def step_simps mark_field_def)

lemma good_chunk_size_start: "local_inv l \<Longrightarrow> pos l < n \<Longrightarrow> p_state l = s_chunk_size_start \<Longrightarrow> good n l (at_chunk_size_start l)"
  by (auto simp: at_chunk_size_start_def step_simps mark_field_def)

lemma good_chunk_size: "local_inv l \<Longrightarrow> pos l < n \<Longrightarrow> p_state l = s_chunk_size \<Longrightarrow> good n l (at_chunk_size l)"
  by (auto simp: at_chunk_size_def step_simps mark_field_def)

lemma good_chunk_parameters: "local_inv l \<Longrightarrow> pos l < n \<Longrightarrow> p_state l = s_chunk_parameters \<Longrightarrow> good n l (at_chunk_parameters l)"
  by (auto simp: at_chunk_parameters_def step_simps mark_field_def)


lemma url_part_states:
  "url_server_char ch = s_dead \<or> url_server_char ch \<in> url_states" "url_path_char ch = s_dead \<or> url_path_char ch \<in> url_states"
  "url_query_char ch = s_dead \<or> url_query_char ch \<in> url_states"
  by (simp_all add: url_server_char_def url_path_char_def url_query_char_def url_states_def)

lemma parse_url_char_states: "parse_url_char s ch = s_dead \<or> parse_url_char s ch \<in> url_states"
proof (cases "ch = SP \<or> ch = CR \<or> ch = LF \<or> ch = TAB \<or> ch = 12")
  case False
  then show ?thesis
    using url_part_states [of ch] by (cases s) (simp_all add: parse_url_char_def url_states_def)
qed (auto simp: parse_url_char_def)

lemma local_inv_url:
  "s \<in> url_states \<Longrightarrow> local_inv (l\<lparr>p_state := s\<rparr>) \<longleftrightarrow> marks l For_url \<noteq> None \<and> (\<forall>m. marks l For_url = Some m \<longrightarrow> m \<le> pos l)
     \<and> marks l For_status = None \<and> marks l For_header_field = None \<and> marks l For_header_value = None \<and> marks l For_body = None
     \<and> http_errno (parser l) = HPE_OK"
  by (auto simp: inv_defs url_states_def start_marks_def)

lemma good_url_char:
  assumes "marks l' For_url \<noteq> None" "\<And>m. marks l' For_url = Some m \<Longrightarrow> m \<le> pos l'"
     "marks l' For_status = None" "marks l' For_header_field = None" "marks l' For_header_value = None" "marks l' For_body = None"
     "http_errno (parser l') = HPE_OK" "pos l \<le> pos l'" "pos l' < n"
  shows "good n l (let l = update_state (parse_url_char s ch) l' in if p_state l = s_dead then fail_with HPE_INVALID_URL l else Break l)"
  using assms parse_url_char_states [of s ch] by (auto simp: update_state_def Let_def good_fail local_inv_url)

lemma local_inv_marks_url:
  assumes "local_inv l" "p_state l \<in> url_states"
  shows "marks l For_url \<noteq> None" "\<And>m. marks l For_url = Some m \<Longrightarrow> m \<le> pos l"
     "marks l For_status = None" "marks l For_header_field = None" "marks l For_header_value = None" "marks l For_body = None"
     "http_errno (parser l) = HPE_OK"
  using assms local_inv_url [of "p_state l" l] by auto

lemma good_req_spaces_before_url:
  assumes "local_inv l" "pos l < n" "p_state l = s_req_spaces_before_url"
  shows "good n l (at_req_spaces_before_url l)"
proof (cases "cur l = SP")
  case False
  define l' where "l' = (if meth (parser l) = HTTP_CONNECT then update_state s_req_server_start (mark_field For_url l) else mark_field For_url l)"
  have eqs: "parser (mark_field For_url l) = parser l" "cur l' = cur l" "cur (mark_field For_url l) = cur l"
    by (simp_all add: l'_def mark_field_def update_state_def)
  have "good n l (let la = update_state (parse_url_char (p_state l') (cur l)) l' in if p_state la = s_dead then fail_with HPE_INVALID_URL la else Break la)"
    by (rule good_url_char) (use assms in \<open>auto simp: l'_def mark_field_def update_state_def inv_defs url_states_def split: if_splits\<close>)
  then show ?thesis unfolding at_req_spaces_before_url_def if_not_P [OF False] Let_def eqs(1) l'_def [symmetric] eqs(2,3) .
qed (use assms in \<open>simp add: at_req_spaces_before_url_def\<close>)

lemma good_req_schema:
  assumes "local_inv l" "pos l < n" "p_state l \<in> url_states"
  shows "good n l (at_req_schema l)"
proof (cases "cur l = SP \<or> cur l = CR \<or> cur l = LF")
  case False
  then show ?thesis unfolding at_req_schema_def if_not_P [OF False]
    by (intro good_url_char) (use assms local_inv_marks_url [OF assms(1,3)] in auto)
qed (use assms in \<open>auto simp: at_req_schema_def good_fail\<close>)

lemma good_req_url:
  assumes "local_inv l" "pos l < n" "p_state l \<in> url_states"
  shows "good n l (at_req_url S buf l)"
proof -
  note m = local_inv_marks_url [OF assms(1,3)]
  show ?thesis
  proof (cases "cur l = SP \<or> cur l = CR \<or> cur l = LF")
    case False
    then have "\<not> cur l = SP" "\<not> (cur l = CR \<or> cur l = LF)" by simp_all
    then show ?thesis unfolding at_req_url_def if_not_P [OF \<open>\<not> cur l = SP\<close>] if_not_P [OF \<open>\<not> (cur l = CR \<or> cur l = LF)\<close>]
      by (intro good_url_char) (use assms m in auto)
  next
    case True
    then show ?thesis unfolding at_req_url_def
      using assms(2) m by (auto intro!: good_data simp: handler_defs inv_defs start_marks_def)
  qed
qed

lemma start_method_length: "start_method ch = Some m \<Longrightarrow> 3 \<le> length (method_string m)"
  by (cases m) simp_all

lemma other_method_length: "other_method m i ch = Some m' \<Longrightarrow> unat i + 1 \<le> length (method_string m')"
  unfolding other_method_def by (cases m; auto split: if_splits)

lemma good_req_method:
  assumes "local_inv l" "pos l < n" "p_state l = s_req_method"
  shows "good n l (at_req_method l)"
proof -
  let ?m = "meth (parser l)" and ?i = "index (parser l)"
  have i: "unat ?i \<le> length (method_string ?m)" "length (method_string ?m) \<le> 11"
    using assms by (simp_all add: inv_defs) (cases ?m; simp)
  have s: "unat (?i + 1) = unat ?i + 1" using i by (simp add: unat_word_ariths)
  consider "cur l = 0" | "cur l \<noteq> 0" "cur l = SP" "c_at (method_string ?m) (unat ?i) = 0"
    | "cur l \<noteq> 0" "\<not> (cur l = SP \<and> c_at (method_string ?m) (unat ?i) = 0)" "cur l = c_at (method_string ?m) (unat ?i)"
    | "cur l \<noteq> 0" "\<not> (cur l = SP \<and> c_at (method_string ?m) (unat ?i) = 0)" "cur l \<noteq> c_at (method_string ?m) (unat ?i)" by blast
  then show ?thesis
  proof cases
    case 3
    then have "unat ?i < length (method_string ?m)" by (auto simp: c_at_def split: if_splits)
    then show ?thesis using 3 assms i s by (auto simp: at_req_method_def step_simps)
  next
    case 4
    then show ?thesis using assms i s by (auto simp: at_req_method_def step_simps dest: other_method_length split: option.splits)
  qed (use assms i in \<open>auto simp: at_req_method_def step_simps\<close>)
qed

lemma marks_clear: "local_inv l \<Longrightarrow> p_state l \<notin> mark_states F \<Longrightarrow> marks l F = None"
  unfolding local_inv_def marks_inv_def by blast

lemma good_header_value_start:
  assumes "local_inv l" "pos l < n" "p_state l = s_header_value_start \<or> p_state l = s_header_value_discard_ws"
  shows "good n l (at_header_value_start l)"
proof -
  have m: "marks l F = None" for F
    by (rule marks_clear [OF assms(1)]) (use assms(3) in \<open>cases F; auto simp: url_states_def\<close>)
  have e: "http_errno (parser l) = HPE_OK" using assms(1) by (simp add: inv_defs)
  define l' where "l' = upd_parser (\<lambda>q. q\<lparr>index := 0\<rparr>) (update_state s_header_value (mark_field For_header_value l))"
  have b: "good n l (Break (upd_parser f l'))" if "\<And>q. http_errno (f q) = http_errno q" for f
    using that by (simp add: l'_def handler_defs inv_defs start_marks_def mark_field_def m e assms(2))
  have b0: "good n l (Break l')"
    by (simp add: l'_def handler_defs inv_defs start_marks_def mark_field_def m e assms(2))
  have f: "good n l (fail_with e l')" if "e \<noteq> HPE_OK" for e
    using that assms(2) by (auto simp: l'_def upd_parser_def update_state_def mark_field_def intro!: good_fail)
  show ?thesis
    unfolding at_header_value_start_def Let_def l'_def [symmetric]
    by (cases "header_state (parser l')") (simp_all add: b b0 f del: good.simps)
qed

lemma good_header_value_discard_ws:
  assumes "local_inv l" "pos l < n" "p_state l = s_header_value_discard_ws"
  shows "good n l (at_header_value_discard_ws l)"
  using assms good_header_value_start [of l n] by (auto simp: at_header_value_discard_ws_def step_simps)

lemma good_body_identity_eof:
  assumes "local_inv l" "pos l < length buf" "p_state l = s_body_identity_eof"
  shows "good (length buf) l (at_body_identity_eof buf l)"
  using assms by (auto simp: at_body_identity_eof_def step_simps mark_field_def)

lemma take_body_pos:
  assumes "pos l < length buf" "length buf < 2 ^ 64" "c \<noteq> (0 :: u64)"
  shows "0 < unat (min c (of_nat (length buf - pos l)))" "unat (min c (of_nat (length buf - pos l))) \<le> length buf - pos l"
proof -
  have u: "unat (of_nat (length buf - pos l) :: u64) = length buf - pos l"
    by (rule unat_of_nat_u64) (use assms in linarith)
  show "unat (min c (of_nat (length buf - pos l))) \<le> length buf - pos l"
    by (metis min.cobounded2 u word_le_nat_alt)
  have "(of_nat (length buf - pos l) :: u64) \<noteq> 0" using u assms(1) by (metis diff_is_0_eq linorder_not_le unat_0)
  then show "0 < unat (min c (of_nat (length buf - pos l)))" using assms(3) by (simp add: min_def unat_gt_0)
qed

lemma good_chunk_data:
  assumes "local_inv l" "pos l < length buf" "length buf < 2 ^ 64" "p_state l = s_chunk_data"
  shows "good (length buf) l (at_chunk_data buf l)"
proof -
  have "content_length (parser l) \<noteq> 0" using assms by (simp add: inv_defs)
  note take_body_pos [OF assms(2,3) this]
  then show ?thesis using assms
    by (auto simp: at_chunk_data_def take_body_def step_simps mark_field_def)
qed


lemma good_start_req_or_res:
  assumes "local_inv l" "pos l < n" "p_state l = s_start_req_or_res"
  shows "good n l (at_start_req_or_res S l)"
  unfolding at_start_req_or_res_def using assms
  by (auto simp: step_simps notify_cbs_def intro!: good_notify)

lemma good_start_res:
  assumes "local_inv l" "pos l < n" "p_state l = s_start_res"
  shows "good n l (at_start_res S l)"
  unfolding at_start_res_def using assms
  by (auto simp: step_simps notify_cbs_def intro!: good_notify)

lemma good_chunk_size_almost_done:
  assumes "local_inv l" "pos l < n" "p_state l = s_chunk_size_almost_done"
  shows "good n l (at_chunk_size_almost_done S l)"
  unfolding at_chunk_size_almost_done_def using assms
  by (auto simp: step_simps notify_cbs_def intro!: good_notify)

lemma good_chunk_data_done:
  assumes "local_inv l" "pos l < n" "p_state l = s_chunk_data_done"
  shows "good n l (at_chunk_data_done S l)"
  unfolding at_chunk_data_done_def using assms
  by (auto simp: step_simps notify_cbs_def intro!: good_notify)

lemma good_start_req:
  assumes "local_inv l" "pos l < n" "p_state l = s_start_req"
  shows "good n l (at_start_req S l)"
  unfolding at_start_req_def using assms
  by (auto simp: step_simps notify_cbs_def intro!: good_notify split: option.splits dest: start_method_length)

lemma good_res_status:
  assumes "local_inv l" "pos l < n" "p_state l = s_res_status"
  shows "good n l (at_res_status S buf l)"
  unfolding at_res_status_def using assms
  by (auto simp: step_simps intro!: good_data)

lemma good_header_value_discard_lws:
  assumes "local_inv l" "pos l < n" "p_state l = s_header_value_discard_lws"
  shows "good n l (at_header_value_discard_lws S buf l)"
  unfolding at_header_value_discard_lws_def using assms
  by (auto simp: step_simps mark_field_def intro!: good_data)

lemma good_chunk_data_almost_done:
  assumes "local_inv l" "pos l < n" "p_state l = s_chunk_data_almost_done"
  shows "good n l (at_chunk_data_almost_done S buf l)"
  unfolding at_chunk_data_almost_done_def using assms
  by (auto simp: step_simps intro!: good_data)

lemma good_body_identity:
  assumes "local_inv l" "pos l < length buf" "length buf < 2 ^ 64" "p_state l = s_body_identity"
  shows "good (length buf) l (at_body_identity S buf l)"
proof -
  have "content_length (parser l) \<noteq> 0" using assms by (simp add: inv_defs)
  note take_body_pos [OF assms(2,3) this]
  then show ?thesis using assms
    by (auto simp: at_body_identity_def take_body_def step_simps mark_field_def intro!: good_data)
qed

lemma header_field_char_frame: "header_field_char ch q = q\<lparr>index := index (header_field_char ch q), header_state := header_state (header_field_char ch q)\<rparr>"
  by (cases "header_state q") (simp_all add: header_field_char_def Let_def)

lemma header_field_loop_frame:
  "header_field_loop xs q = (rest, q') \<Longrightarrow> length rest \<le> length xs \<and> q' = q\<lparr>index := index q', header_state := header_state q'\<rparr>"
proof (induction xs q rule: header_field_loop.induct)
  case (2 ch xs q)
  show ?case
  proof (cases "TOKEN ch = 0")
    case False
    have q: "q' = (header_field_char ch q)\<lparr>index := index q', header_state := header_state q'\<rparr>" "length rest \<le> length xs"
      using 2 False by simp_all
    have "q' = q\<lparr>index := index q', header_state := header_state q'\<rparr>"
      by (subst q(1), subst header_field_char_frame) simp
    then show ?thesis using q(2) by simp
  qed (use 2 in auto)
qed simp

lemma header_value_char_frame:
  "header_value_char ch h q = Some (h', q') \<Longrightarrow> q' = q\<lparr>index := index q', flags := flags q', content_length := content_length q'\<rparr>"
  by (cases h) (auto simp: header_value_char_def Let_def split: if_splits)

lemma length_skip_line_le: "length (skip_line xs) \<le> length xs"
  by (auto simp: skip_line_def length_dropWhile_le)

lemma header_value_loop_frame:
  "header_value_loop xs h q = (e, rest, h', q') \<Longrightarrow> length rest \<le> length xs \<and> (e = VEnd \<longleftrightarrow> rest = [])
     \<and> (e = VCr \<longrightarrow> hd rest = CR) \<and> (e = VLf \<longrightarrow> hd rest = LF)
     \<and> q' = q\<lparr>index := index q', flags := flags q', content_length := content_length q'\<rparr>"
proof (induction xs h q rule: header_value_loop.induct)
  case (2 ch xs h q)
  consider "ch = CR" | "ch = LF" | "ch \<noteq> CR" "ch \<noteq> LF" "h = h_general" | "ch \<noteq> CR" "ch \<noteq> LF" "h \<noteq> h_general" by blast
  then show ?case
  proof cases
    case 3
    then show ?thesis using 2 length_skip_line_le [of "ch # xs"] by force
  next
    case 4
    show ?thesis
    proof (cases "header_value_char ch h q")
      case (Some a)
      obtain h1 q1 where a: "a = (h1, q1)" by fastforce
      have r: "header_value_loop xs h1 q1 = (e, rest, h', q')" using 2(3) 4 Some a by simp
      have q1: "q1 = q\<lparr>index := index q1, flags := flags q1, content_length := content_length q1\<rparr>"
        using header_value_char_frame Some a by blast
      note IH = 2(2) [OF 4(1-3) Some a [symmetric] r]
      have "q' = q\<lparr>index := index q', flags := flags q', content_length := content_length q'\<rparr>"
        by (subst (1) conjunct2 [OF conjunct2 [OF conjunct2 [OF conjunct2 [OF IH]]]], subst q1) simp
      then show ?thesis using IH by simp
    qed (use 2 4 in auto)
  qed (use 2 in auto)
qed auto

lemma start_marks_states: "start_marks s F \<noteq> None \<Longrightarrow> s \<in> mark_states F"
  by (cases F) (auto simp: start_marks_def url_states_def split: if_splits)

lemma local_inv_plain:
  assumes "\<And>F. p_state l \<notin> mark_states F" "p_state l \<noteq> s_req_method" "\<And>F. marks l F = None" "http_errno (parser l) = HPE_OK"
  shows "local_inv l"
proof -
  have "start_marks (p_state l) F = None" for F using start_marks_states [of "p_state l" F] assms(1) by blast
  then have "marks_inv l" using assms(3) by (simp add: marks_inv_def)
  moreover have "parser_inv (p_state l) (parser l)" using assms(1) [of For_body] assms(2) by (auto simp: parser_inv_def)
  ultimately show ?thesis using assms(4) by (simp add: local_inv_def)
qed

lemma new_message_cases: "new_message q = s_start_req \<or> new_message q = s_start_res \<or> new_message q = s_dead"
  by (simp add: new_message_def start_state_def)

lemma new_message_plain: "new_message q \<notin> mark_states F" "new_message q \<noteq> s_req_method" "new_message q \<noteq> s_body_identity" "new_message q \<noteq> s_chunk_data"
  using new_message_cases [of q] by (cases F; auto simp: url_states_def)+

lemma good_complete:
  assumes "\<And>F. marks l' F = None" "http_errno (parser l') = HPE_OK" "pos l \<le> pos l'" "pos l' < n"
    and k: "k = Break \<or> upgrade (parser l') \<and> k = leave_after \<or> k = (\<lambda>l. if upgrade (parser l) then leave_after l else Break l)"
  shows "good n l (callback_notify (on_message_complete S) HPE_CB_message_complete (pos l' + 1) (update_state (new_message q) l') k)"
proof (rule good_notify)
  show "http_errno (parser (update_state (new_message q) l')) = HPE_OK" using assms(2) by (simp add: update_state_def)
  have g: "good n l (k l2)" if "p_state l2 = new_message q" "\<And>F. marks l2 F = None" "http_errno (parser l2) = HPE_OK" "pos l2 = pos l'"
      "upgrade (parser l2) = upgrade (parser l')" for l2
  proof -
    have "local_inv l2" by (rule local_inv_plain) (use that new_message_plain in simp_all)
    moreover have "parser_inv (new_message q) p" for p using new_message_plain [of q] by (simp add: parser_inv_def)
    ultimately show ?thesis using k that assms(3,4) by (auto simp: leave_after_def upd_parser_def)
  qed
  show "good n l (k (update_state (new_message q) l'))" by (rule g) (simp_all add: update_state_def assms)
  show "good n l (k ((update_state (new_message q) l')\<lparr>parser := (parser (update_state (new_message q) l'))
      \<lparr>state := p_state (update_state (new_message q) l'), pdata := w\<rparr>\<rparr>))" for w
    by (rule g) (simp_all add: update_state_def assms)
qed (use assms in \<open>simp_all add: notify_cbs_def\<close>)

lemma good_message_done:
  assumes "local_inv l" "pos l < n" "p_state l = s_message_done"
  shows "good n l (at_message_done S l)"
proof -
  have m: "marks l F = None" for F
    by (rule marks_clear [OF assms(1)]) (use assms(3) in \<open>cases F; auto simp: url_states_def\<close>)
  show ?thesis unfolding at_message_done_def
    by (rule good_complete) (use assms m in \<open>simp_all add: local_inv_def\<close>)
qed

lemma good_headers_done:
  assumes "local_inv l" "pos l < n" "p_state l = s_headers_done"
  shows "good n l (at_headers_done S l)"
proof -
  have m: "marks l F = None" for F
    by (rule marks_clear [OF assms(1)]) (use assms(3) in \<open>cases F; auto simp: url_states_def\<close>)
  define l' where "l' = upd_parser (\<lambda>q. q\<lparr>nread := 0\<rparr>) l"
  have l': "\<And>F. marks l' F = None" "http_errno (parser l') = HPE_OK" "pos l' = pos l"
    using m assms(1) by (simp_all add: l'_def upd_parser_def local_inv_def)
  note c = good_complete [of l' l n, unfolded l'(3), OF l'(1,2) order_refl assms(2)]
  have b: "good n l (Break (update_state s l'))" if "\<not> parsing_header s \<or> s = s_chunk_size_start" "s = s_body_identity \<longrightarrow> content_length (parser l') \<noteq> 0"
      "s \<noteq> s_chunk_data" for s
    using that l' assms(2) by (auto simp: update_state_def inv_defs parsing_header_def start_marks_def url_states_def)
  have f: "pos l < n \<and> good n l (fail_with HPE_STRICT l)" using assms(2) by (simp add: good_fail)
  show ?thesis
    unfolding at_headers_done_def strict_check_def Let_def l'_def [symmetric] l'(3)
    using c [where q = "parser l'" and k = Break] c [where q = "parser l'" and k = leave_after] f
    by (auto simp: b parsing_header_def simp del: good.simps)
qed

lemma good_headers_almost_done:
  assumes "local_inv l" "pos l < n" "p_state l = s_headers_almost_done"
  shows "good n l (at_headers_almost_done S l)"
proof (cases "cur l \<noteq> LF")
  case False
  have m: "marks l F = None" for F
    by (rule marks_clear [OF assms(1)]) (use assms(3) in \<open>cases F; auto simp: url_states_def\<close>)
  have e: "http_errno (parser l) = HPE_OK" using assms(1) by (simp add: local_inv_def)
  show ?thesis
  proof (cases "flags (parser l) AND F_TRAILING \<noteq> 0")
    case True
    then show ?thesis using False assms(2,3) m e unfolding at_headers_almost_done_def
      by (auto simp: step_simps notify_cbs_def intro!: good_notify)
  next
    case F: False
    define l' where "l' = upd_parser (\<lambda>q. q\<lparr>upgrade := upgrade_requested q\<rparr>) (update_state s_headers_done l)"
    define leave where "leave = (\<lambda>l :: 'w local. Return (pos l) (upd_parser (\<lambda>q. q\<lparr>state := p_state l\<rparr>) l))"
    define check where "check = (\<lambda>l. if http_errno (parser l) \<noteq> HPE_OK then leave l else Reexecute l)"
    have l': "\<And>F. marks l' F = None" "http_errno (parser l') = HPE_OK" "pos l' = pos l" "p_state l' = s_headers_done"
      using m e by (simp_all add: l'_def upd_parser_def update_state_def)
    have ck: "good n l (check l2)" if "marks l2 = marks l'" "http_errno (parser l2) = HPE_OK" "p_state l2 = s_headers_done" "pos l2 = pos l" for l2
    proof -
      have "local_inv l2" using that l'(1) by (simp add: inv_defs start_marks_def url_states_def)
      then show ?thesis using that assms(2,3) by (simp add: check_def rank_def)
    qed
    show ?thesis
    proof (cases "on_headers_complete S")
      case None
      then show ?thesis using False F ck [of l'] l'
        by (simp add: at_headers_almost_done_def strict_check_def Let_def leave_def check_def l'_def [symmetric])
    next
      case (Some f)
      obtain rc q where f: "f (parser l') = (rc, q)" by fastforce
      obtain w where q: "q = (parser l')\<lparr>pdata := w\<rparr>" using notify_passive [of f "parser l'"] Some f by (auto simp: notify_cbs_def)
      have eq: "at_headers_almost_done S l = (if rc = 0 then check (l'\<lparr>parser := q\<rparr>)
          else if rc = 1 then check (upd_parser (\<lambda>q. q\<lparr>flags := flags q OR F_SKIPBODY\<rparr>) (l'\<lparr>parser := q\<rparr>))
          else leave (upd_parser (\<lambda>q. q\<lparr>http_errno := HPE_CB_headers_complete\<rparr>) (l'\<lparr>parser := q\<rparr>)))"
        using False F Some f by (simp add: at_headers_almost_done_def strict_check_def Let_def leave_def check_def l'_def)
      show ?thesis
        unfolding eq using l' assms(2) by (auto simp: q leave_def upd_parser_def simp del: good.simps(1,2) intro!: ck)
    qed
  qed
qed (use assms in \<open>simp add: at_headers_almost_done_def strict_check_def good_fail\<close>)

lemma good_header_field:
  assumes "local_inv l" "pos l < length buf" "p_state l = s_header_field"
  shows "good (length buf) l (at_header_field S buf l)"
proof -
  obtain rest q where r: "header_field_loop (drop (pos l) buf) (parser l) = (rest, q)" by fastforce
  have le: "length rest \<le> length buf - pos l" and q: "q = (parser l)\<lparr>index := index q, header_state := header_state q\<rparr>"
    using header_field_loop_frame [OF r] by simp_all
  have e: "http_errno q = HPE_OK" by (subst q) (use assms in \<open>simp add: local_inv_def\<close>)
  define p where "p = length buf - length rest"
  have p: "pos l \<le> p" "p \<le> length buf" using le assms(2) by (simp_all add: p_def)
  define l' where "l' = l\<lparr>parser := q, pos := p, cur := (if rest = [] then last buf else hd rest)\<rparr>"
  have m: "marks_inv l" using assms(1) by (simp add: local_inv_def)
  show ?thesis
    unfolding at_header_field_def Let_def r prod.case p_def [symmetric] l'_def [symmetric]
  proof (rule good_count, goal_cases)
    case (2 l2)
    have l2: "pos l2 = p" "marks l2 = marks l" "p_state l2 = s_header_field" "http_errno (parser l2) = HPE_OK"
      using assms(3) e by (simp_all add: 2 l'_def)
    consider "p = length buf" | "p \<noteq> length buf" "cur l2 = ch_of CHR '':''" | "p \<noteq> length buf" "cur l2 \<noteq> ch_of CHR '':''" by blast
    then show ?case
    proof cases
      case 1
      have "local_inv (l2\<lparr>pos := p - 1\<rparr>)"
        using l2 m assms(2,3) 1 by (auto simp: inv_defs start_marks_def url_states_def dest!: less_imp_Suc_add)
      moreover have "pos l \<le> p - 1" "p - 1 < length buf" using 1 assms(2) by linarith+
      ultimately show ?thesis using 1 by simp
    next
      case 2
      then show ?thesis using l2 p m assms(3)
        by (auto intro!: good_data simp: update_state_def inv_defs start_marks_def url_states_def)
    next
      case 3
      then show ?thesis using l2 p by (simp add: good_fail)
    qed
  qed (use p in \<open>simp add: l'_def\<close>)
qed

lemma good_header_value:
  assumes "local_inv l" "pos l < length buf" "p_state l = s_header_value"
  shows "good (length buf) l (at_header_value S buf l)"
proof -
  obtain e rest h q where r: "header_value_loop (drop (pos l) buf) (header_state (parser l)) (parser l) = (e, rest, h, q)"
    by (metis prod_cases4)
  note fr = header_value_loop_frame [OF r]
  have le: "length rest \<le> length buf - pos l" and q: "q = (parser l)\<lparr>index := index q, flags := flags q, content_length := content_length q\<rparr>"
    and ev: "e = VEnd \<longleftrightarrow> rest = []"
    using fr by simp_all
  have ok: "http_errno q = HPE_OK" by (subst q) (use assms in \<open>simp add: local_inv_def\<close>)
  define p where "p = length buf - length rest"
  have p: "pos l \<le> p" "p \<le> length buf" "e \<noteq> VEnd \<Longrightarrow> p < length buf" "e = VEnd \<Longrightarrow> p = length buf"
    using le assms(2) ev length_greater_0_conv [of rest] unfolding p_def by linarith+
  define l' where "l' = l\<lparr>parser := q, pos := p, cur := (if rest = [] then last buf else hd rest)\<rparr>"
  have m: "marks l For_url = None" "marks l For_status = None" "marks l For_header_field = None" "marks l For_body = None"
    "\<And>j. marks l For_header_value = Some j \<Longrightarrow> j \<le> pos l" "\<exists>j. marks l For_header_value = Some j"
    using assms(1,3) by (auto simp: inv_defs url_states_def start_marks_def)
  show ?thesis
  proof (cases e)
    case VEnd
    then show ?thesis
      unfolding at_header_value_def Let_def r prod.case p_def [symmetric] l'_def [symmetric]
      using p ok m assms(2,3)
      by (auto simp: upd_parser_def l'_def inv_defs url_states_def start_marks_def dest!: less_imp_Suc_add intro!: good_count)
  next
    case VCr
    then show ?thesis
      unfolding at_header_value_def Let_def r prod.case p_def [symmetric] l'_def [symmetric]
      using p ok m assms(2,3)
      by (auto simp: upd_parser_def update_state_def l'_def inv_defs url_states_def start_marks_def intro!: good_data good_count)
  next
    case VLf
    then show ?thesis
      unfolding at_header_value_def Let_def r prod.case p_def [symmetric] l'_def [symmetric]
      using p ok m assms(2,3)
      by (auto simp: upd_parser_def update_state_def l'_def inv_defs url_states_def start_marks_def rank_def intro!: good_data good_count)
  next
    case VInvalid
    then show ?thesis
      unfolding at_header_value_def Let_def r prod.case p_def [symmetric] l'_def [symmetric]
      using p by (simp add: good_fail upd_parser_def l'_def)
  qed
qed

lemmas good_handlers = good_dead good_start_req_or_res good_res_or_resp_H good_start_res good_res_H good_res_HT good_res_HTT good_res_HTTP
  good_res_first_http_major good_res_http_major good_res_first_http_minor good_res_http_minor good_res_first_status_code
  good_res_status_code good_res_status_start good_res_status good_res_line_almost_done good_start_req good_req_method
  good_req_spaces_before_url good_req_schema good_req_url good_req_http_start good_req_http_H good_req_http_HT good_req_http_HTT
  good_req_http_HTTP good_req_first_http_major good_req_http_major good_req_first_http_minor good_req_http_minor
  good_req_line_almost_done good_header_field_start good_header_field good_header_value_discard_ws
  good_header_value_discard_ws_almost_done good_header_value_discard_lws good_header_value_start good_header_value
  good_header_value_lws good_header_almost_done good_chunk_size_start good_chunk_size good_chunk_parameters
  good_chunk_size_almost_done good_headers_almost_done good_headers_done good_chunk_data good_chunk_data_almost_done
  good_chunk_data_done good_body_identity good_body_identity_eof good_message_done

lemma step_good:
  assumes "local_inv l" "pos l < length buf" "length buf < 2 ^ 64"
  shows "good (length buf) l (step S buf l)"
  by (cases "p_state l") (simp_all add: step_def good_handlers good_chunk_data [OF _ _ assms(3)] good_body_identity [OF _ _ assms(3)]
      assms(1,2) url_states_def)


section \<open>Running to the end\<close>

lemma data_step:
  assumes "http_errno (parser l) = HPE_OK"
  shows "(\<exists>l'. callback_data F e m S buf l k = Return m l' \<and> http_errno (parser l') \<noteq> HPE_OK)
     \<or> (\<exists>s w. callback_data F e m S buf l k = k (l\<lparr>parser := (parser l)\<lparr>state := s, pdata := w\<rparr>, marks := (marks l)(F := None)\<rparr>))"
proof (cases "marks l F")
  case None
  then have "callback_data F e m S buf l k = k (l\<lparr>parser := (parser l)\<lparr>state := state (parser l), pdata := pdata (parser l)\<rparr>, marks := (marks l)(F := None)\<rparr>)"
    by (simp add: callback_data_def fun_upd_idem)
  then show ?thesis by blast
next
  case (Some j)
  show ?thesis
  proof (cases "on_data F S")
    case None
    then have "callback_data F e m S buf l k = k (l\<lparr>parser := (parser l)\<lparr>state := state (parser l), pdata := pdata (parser l)\<rparr>, marks := (marks l)(F := None)\<rparr>)"
      by (simp add: callback_data_def Some)
    then show ?thesis by blast
  next
    case g: (Some g)
    obtain rc q where f: "g ((parser l)\<lparr>state := p_state l\<rparr>) (slice j (e - j) buf) = (rc, q)" by fastforce
    obtain w where q: "q = (parser l)\<lparr>state := p_state l, pdata := w\<rparr>"
      using data_passive [OF g, of "(parser l)\<lparr>state := p_state l\<rparr>" "slice j (e - j) buf"] f by auto
    have "HPE_CB F \<noteq> HPE_OK" by (cases F) simp_all
    moreover have "l\<lparr>parser := q, p_state := p_state l\<rparr> = l\<lparr>parser := q\<rparr>" by simp
    ultimately show ?thesis using assms by (cases "rc = 0") (auto simp: callback_data_def Some g f q Let_def)
  qed
qed

lemma finish_step:
  assumes "finish_inv l" "\<And>l. finish_inv l \<Longrightarrow> finish_ok n (k l)"
  shows "finish_ok n (callback_data F e n S buf l k)"
proof -
  have "http_errno (parser l) = HPE_OK" using assms(1) by (simp add: finish_inv_def)
  from data_step [OF this, of F e n buf k] show ?thesis
  proof (elim disjE exE conjE)
    fix s w assume k: "callback_data F e n S buf l k = k (l\<lparr>parser := (parser l)\<lparr>state := s, pdata := w\<rparr>, marks := (marks l)(F := None)\<rparr>)"
    show ?thesis unfolding k by (rule assms(2)) (use assms(1) in \<open>simp add: finish_inv_def parser_inv_def\<close>)
  qed (auto simp: finish_ok_def done_ok_def)
qed

lemma finish_marks_ok: "finish_inv l \<Longrightarrow> finish_ok (length buf) (finish_marks S buf l)"
  unfolding finish_marks_def Let_def
  by (intro finish_step) (simp_all add: finish_inv_def finish_ok_def done_ok_def upd_parser_def parser_inv_def)

lemma run_Reexecute: "run S buf (Reexecute l) = run S buf (step S buf l)"
  and run_Break: "run S buf (Break l) = run S buf (next_byte S buf (l\<lparr>pos := pos l + 1\<rparr>))"
  and run_Return: "run S buf (Return n l) = Some (n, parser l)"
  and run_Goto_error: "run S buf (Goto_error l) = Some (pos l, (parser l)\<lparr>http_errno := if http_errno (parser l) = HPE_OK then HPE_UNKNOWN else http_errno (parser l),
         state := p_state l\<rparr>)"
  by (subst run.simps; simp)+

lemma local_inv_nread: "local_inv (l\<lparr>cur := c, parser := (parser l)\<lparr>nread := n\<rparr>\<rparr>) = local_inv l" "local_inv (l\<lparr>cur := c\<rparr>) = local_inv l"
  by (simp_all add: local_inv_def marks_inv_def parser_inv_def)

lemma local_inv_pos: "local_inv l \<Longrightarrow> pos l \<le> p \<Longrightarrow> local_inv (l\<lparr>pos := p\<rparr>)"
  by (force simp: local_inv_def marks_inv_def)

lemma next_byte_ok:
  assumes "local_inv l" "pos l \<le> length buf"
  shows "finish_ok (length buf) (next_byte S buf l)
    \<or> (\<exists>l'. next_byte S buf l = Goto_error l' \<and> http_errno (parser l') \<noteq> HPE_OK \<and> pos l' \<le> length buf)
    \<or> (\<exists>l'. next_byte S buf l = Reexecute l' \<and> local_inv l' \<and> pos l' = pos l \<and> pos l < length buf)"
proof (cases "pos l = length buf")
  case True
  then show ?thesis using assms finish_marks_ok [of l buf] by (simp add: next_byte_def local_inv_def finish_inv_def)
next
  case False
  then show ?thesis using assms
    by (simp add: next_byte_def Let_def count_header_size_def fail_with_def upd_parser_def local_inv_nread)
qed

lemma rank_le: "rank s \<le> 4"
  by (simp add: rank_def)

lemma run_ok:
  assumes "length buf < 2 ^ 64"
  shows "local_inv l \<Longrightarrow> pos l < length buf \<Longrightarrow> \<exists>r. run S buf (Reexecute l) = Some r \<and> done_ok (length buf) r"
proof (induction "5 * (length buf - pos l) + rank (p_state l)" arbitrary: l rule: less_induct)
  case less
  have g: "good (length buf) l (step S buf l)" by (rule step_good [OF less.prems assms])
  show ?case
  proof (cases "step S buf l")
    case (Break l')
    let ?l = "l'\<lparr>pos := pos l' + 1\<rparr>"
    have l': "local_inv ?l" "pos ?l \<le> length buf" "pos l < pos ?l"
      using g Break local_inv_pos [of l' "pos l' + 1"] by simp_all
    have nb: "run S buf (Reexecute l) = run S buf (next_byte S buf ?l)"
      by (simp add: run_Reexecute Break run_Break)
    show ?thesis
      using next_byte_ok [OF l'(1,2)]
    proof (elim disjE exE conjE)
      fix l2 assume l2: "next_byte S buf ?l = Reexecute l2" "local_inv l2" "pos l2 = pos ?l" "pos ?l < length buf"
      have "5 * (length buf - pos l2) + rank (p_state l2) < 5 * (length buf - pos l) + rank (p_state l)"
        using l2(3,4) l'(3) rank_le [of "p_state l2"] by linarith
      then show ?thesis using less.hyps [of l2] l2 nb by simp
    qed (auto simp: nb run_Return run_Goto_error done_ok_def finish_ok_def)
  next
    case (Reexecute l')
    have l': "local_inv l'" "pos l' < length buf" "pos l \<le> pos l'" "rank (p_state l') < rank (p_state l)"
      using g Reexecute by simp_all
    have "5 * (length buf - pos l') + rank (p_state l') < 5 * (length buf - pos l) + rank (p_state l)"
      using l'(3,4) diff_le_mono2 [OF l'(3), of "length buf"] by linarith
    then show ?thesis using less.hyps [OF _ l'(1,2)] by (simp add: run_Reexecute Reexecute)
  qed (use g in \<open>auto simp: run_Reexecute run_Return run_Goto_error done_ok_def\<close>)
qed

lemma init_local_inv: "http_errno q = HPE_OK \<Longrightarrow> parser_inv (state q) q \<Longrightarrow> local_inv (init_local q)"
  using start_marks_states [of "state q"]
  by (auto simp: init_local_def local_inv_def marks_inv_def start_marks_def)

lemma http_parser_execute_ok:
  assumes "http_errno q = HPE_OK" "parser_inv (state q) q" "buf \<noteq> []" "length buf < 2 ^ 64"
  shows "\<exists>r. http_parser_execute S buf q = Some r \<and> done_ok (length buf) r"
proof -
  have e: "http_parser_execute S buf q = run S buf (next_byte S buf (init_local q))"
    using assms by (simp add: http_parser_execute_def)
  have z: "pos (init_local q) = 0" by (simp add: init_local_def)
  show ?thesis
    using next_byte_ok [OF init_local_inv [OF assms(1,2)], of buf, unfolded z, OF le0]
  proof (elim disjE exE conjE)
    fix l2 assume "next_byte S buf (init_local q) = Reexecute l2" "local_inv l2" "pos l2 = 0" "0 < length buf"
    then show ?thesis using run_ok [OF assms(4), of l2] e by simp
  qed (auto simp: e run_Return run_Goto_error done_ok_def finish_ok_def)
qed

end

section \<open>The parser returns\<close>

lemma parser_inv_init: "parser_inv (state (http_parser_init t d)) (http_parser_init t d)"
  by (simp add: parser_inv_def http_parser_init_def)

text \<open>
  C10: on any buffer the parser returns, without reading outside the buffer or the method's name,
  and reports at most the bytes it was given (1 at an unexpected end of stream). Without an error
  it has consumed the whole buffer, or stopped at an upgrade, and the next call is safe again.
\<close>

theorem http_parser_execute_safe:
  assumes "passive_callbacks S" "http_errno q = HPE_OK" "parser_inv (state q) q" "length buf < 2 ^ 64"
  shows "\<exists>n q'. http_parser_execute S buf q = Some (n, q') \<and> n \<le> max 1 (length buf)
     \<and> (buf \<noteq> [] \<and> http_errno q' = HPE_OK \<longrightarrow> (n = length buf \<or> upgrade q') \<and> parser_inv (state q') q')"
proof (cases "buf = []")
  case True
  have "fst (at_eof S q) \<le> 1"
    by (auto simp: at_eof_def callback_notify_def Let_def split: outcome.splits option.splits prod.splits if_splits)
  then show ?thesis using True assms(2) by (cases "at_eof S q") (simp add: http_parser_execute_def)
next
  case False
  then show ?thesis
    using passive_callbacks.http_parser_execute_ok [OF assms(1-3) False assms(4)] by (auto simp: done_ok_def)
qed

lemma passive_settings_init: "passive_callbacks (http_parser_settings_init :: 'w http_parser_settings)"
proof
  fix F g and q :: "'w http_parser" and d assume "on_data F (http_parser_settings_init :: 'w http_parser_settings) = Some g"
  then show "\<exists>w. snd (g q d) = q\<lparr>pdata := w\<rparr>" by (cases F) (simp_all add: http_parser_settings_init_def)
qed (simp add: notify_cbs_def http_parser_settings_init_def)

theorem http_parser_execute_safe_witness:
  "\<exists>n q'. http_parser_execute http_parser_settings_init (ascii ''GET / '') (http_parser_init HTTP_REQUEST ()) = Some (n, q') \<and> n \<le> 6"
  using http_parser_execute_safe [OF passive_settings_init, of "http_parser_init HTTP_REQUEST ()" "ascii ''GET / ''"]
    parser_inv_init [of HTTP_REQUEST "()"]
  by (auto simp: http_parser_init_def ascii_def)

end
