(* ===== verification/HttpParserSplit.thy ===== *)
theory HttpParserSplit
  imports HttpParserSafe
begin

text \<open>
  How the input is cut into buffers does not matter. The two runs that are compared, one on a
  buffer and one on the rest of it after a first part was delivered, go in lockstep; they differ
  in positions, in the text already delivered for a pending mark and in \<open>nread\<close>, which counts
  bytes of a header field or value twice where a buffer ends. The contract with the application is
  that data callbacks append.
\<close>

section \<open>The contract of the callbacks\<close>

locale streaming_callbacks =
  fixes S :: "'w http_parser_settings" and emit :: "data_field \<Rightarrow> byte list \<Rightarrow> 'w \<Rightarrow> 'w"
  assumes notify_law: "Some f \<in> notify_cbs S \<Longrightarrow> \<exists>rc g. \<forall>q. f q = (rc (pdata q), q\<lparr>pdata := g (pdata q)\<rparr>)"
    and data_law: "on_data F S = Some g \<Longrightarrow> g q d = (0, q\<lparr>pdata := emit F d (pdata q)\<rparr>)"
    and no_data: "on_data F S = None \<Longrightarrow> emit F d w = w"
    and emit_append: "emit F (d @ e) w = emit F e (emit F d w)"

sublocale streaming_callbacks \<subseteq> passive_callbacks S
proof
  fix f and q :: "'w http_parser" assume "Some f \<in> notify_cbs S"
  then show "\<exists>w. snd (f q) = q\<lparr>pdata := w\<rparr>" using notify_law by force
next
  fix F g and q :: "'w http_parser" and d assume "on_data F S = Some g"
  then show "\<exists>w. snd (g q d) = q\<lparr>pdata := w\<rparr>" by (auto simp: data_law)
qed

section \<open>The relation between the runs\<close>

definition marking :: "state \<Rightarrow> bool" where
  "marking s \<longleftrightarrow> s \<in> url_states \<union> {s_res_status, s_header_field, s_header_value, s_body_identity, s_body_identity_eof,
     s_chunk_data, s_chunk_data_almost_done}"

text \<open>Two parsers that agree but for the count, the stored state and the application's object.\<close>

definition same_core :: "'w http_parser \<Rightarrow> 'w http_parser \<Rightarrow> bool" where
  "same_core q q' \<longleftrightarrow> ptype q' = ptype q \<and> flags q' = flags q \<and> header_state q' = header_state q \<and> index q' = index q
     \<and> content_length q' = content_length q \<and> http_major q' = http_major q \<and> http_minor q' = http_minor q
     \<and> status_code q' = status_code q \<and> meth q' = meth q \<and> http_errno q' = http_errno q \<and> upgrade q' = upgrade q"

definition same_parser :: "'w http_parser \<Rightarrow> 'w http_parser \<Rightarrow> bool" where
  "same_parser q q' \<longleftrightarrow> same_core q q' \<and> state q' = state q \<and> pdata q' = pdata q"

definition shift_marks :: "nat \<Rightarrow> (data_field \<Rightarrow> nat option) \<Rightarrow> data_field \<Rightarrow> nat option" where
  "shift_marks k M F = map_option (\<lambda>m. m - k) (M F)"

definition pending :: "(data_field \<Rightarrow> byte list \<Rightarrow> 'w \<Rightarrow> 'w) \<Rightarrow> byte list \<Rightarrow> (data_field \<Rightarrow> nat option) \<Rightarrow> 'w \<Rightarrow> 'w \<Rightarrow> bool" where
  "pending emit pre M w w' \<longleftrightarrow> (\<forall>F m. M F = Some m \<and> m < length pre \<longrightarrow> w' = emit F (drop m pre) w)
     \<and> ((\<nexists>F m. M F = Some m \<and> m < length pre) \<longrightarrow> w' = w)"

definition rel :: "(data_field \<Rightarrow> byte list \<Rightarrow> 'w \<Rightarrow> 'w) \<Rightarrow> byte list \<Rightarrow> 'w local \<Rightarrow> 'w local \<Rightarrow> bool" where
  "rel emit pre l l' \<longleftrightarrow> pos l = length pre + pos l' \<and> cur l' = cur l \<and> p_state l' = p_state l
     \<and> marks l' = shift_marks (length pre) (marks l) \<and> same_core (parser l) (parser l')
     \<and> pending emit pre (marks l) (pdata (parser l)) (pdata (parser l'))"

definition overflow :: "'w outcome \<Rightarrow> bool" where
  "overflow r \<longleftrightarrow> (\<exists>l. r = Goto_error l \<and> http_errno (parser l) = HPE_HEADER_OVERFLOW)"

text \<open>Related ways to end a handler; after an error only the error and the position count.\<close>

fun outcome_rel :: "(data_field \<Rightarrow> byte list \<Rightarrow> 'w \<Rightarrow> 'w) \<Rightarrow> byte list \<Rightarrow> 'w outcome \<Rightarrow> 'w outcome \<Rightarrow> bool" where
  "outcome_rel emit pre (Break l) (Break l') \<longleftrightarrow> rel emit pre l l'"
| "outcome_rel emit pre (Reexecute l) (Reexecute l') \<longleftrightarrow> rel emit pre l l'"
| "outcome_rel emit pre (Goto_error l) (Goto_error l') \<longleftrightarrow> pos l = length pre + pos l' \<and> http_errno (parser l') = http_errno (parser l)"
| "outcome_rel emit pre (Return n l) (Return n' l') \<longleftrightarrow> n = length pre + n' \<and> http_errno (parser l') = http_errno (parser l)
     \<and> (http_errno (parser l) = HPE_OK \<longrightarrow> same_parser (parser l) (parser l'))"
| "outcome_rel emit pre r r' \<longleftrightarrow> r = Undefined \<and> r' = Undefined"

definition orel :: "(data_field \<Rightarrow> byte list \<Rightarrow> 'w \<Rightarrow> 'w) \<Rightarrow> byte list \<Rightarrow> 'w outcome \<Rightarrow> 'w outcome \<Rightarrow> bool" where
  "orel emit pre r r' \<longleftrightarrow> overflow r \<or> overflow r' \<or> outcome_rel emit pre r r'"

lemma orel_simps [simp]:
  "orel emit pre (Break l) (Break l') \<longleftrightarrow> rel emit pre l l'"
  "orel emit pre (Reexecute l) (Reexecute l') \<longleftrightarrow> rel emit pre l l'"
  "pos l = length pre + pos l' \<Longrightarrow> orel emit pre (fail_with e l) (fail_with e l')"
  "orel emit pre Undefined Undefined"
  by (simp_all add: orel_def overflow_def fail_with_def upd_parser_def)

lemma orel_if: "(c \<Longrightarrow> orel emit pre a a') \<Longrightarrow> (\<not> c \<Longrightarrow> orel emit pre b b') \<Longrightarrow> orel emit pre (if c then a else b) (if c then a' else b')"
  by simp

lemma shift_marks_None [simp]: "shift_marks k M F = None \<longleftrightarrow> M F = None"
  by (simp add: shift_marks_def)

lemma shift_marks_upd [simp]: "(shift_marks k M)(F := map_option (\<lambda>m. m - k) x) = shift_marks k (M(F := x))"
  by (auto simp: shift_marks_def)

lemma shift_marks_clear [simp]: "(shift_marks k M)(F := None) = shift_marks k (M(F := None))"
  by (auto simp: shift_marks_def)

lemma shift_marks_set [simp]: "p = k + p' \<Longrightarrow> (shift_marks k M)(F \<mapsto> p') = shift_marks k (M(F \<mapsto> p))"
  by (auto simp: shift_marks_def)

lemma pending_set: "M F = None \<Longrightarrow> length pre \<le> p \<Longrightarrow> pending emit pre (M(F \<mapsto> p)) w w' = pending emit pre M w w'"
proof -
  assume "M F = None" "length pre \<le> p"
  then have "((M(F \<mapsto> p)) G = Some m \<and> m < length pre) = (M G = Some m \<and> m < length pre)" for G m by auto
  then show ?thesis unfolding pending_def by presburger
qed

lemma rel_simps:
  assumes "rel emit pre l l'"
  shows "cur l' = cur l" "p_state l' = p_state l" "marks l' = shift_marks (length pre) (marks l)" "pos l = length pre + pos l'"
    "ptype (parser l') = ptype (parser l)" "flags (parser l') = flags (parser l)" "header_state (parser l') = header_state (parser l)"
    "index (parser l') = index (parser l)" "content_length (parser l') = content_length (parser l)"
    "http_major (parser l') = http_major (parser l)" "http_minor (parser l') = http_minor (parser l)"
    "status_code (parser l') = status_code (parser l)" "meth (parser l') = meth (parser l)"
    "http_errno (parser l') = http_errno (parser l)" "upgrade (parser l') = upgrade (parser l)"
  using assms by (simp_all add: rel_def same_core_def)

lemma rel_update_state [simp]: "rel emit pre l l' \<Longrightarrow> rel emit pre (update_state s l) (update_state s l')"
  by (simp add: rel_def update_state_def)

lemma rel_upd_parser:
  assumes "rel emit pre l l'" "\<And>q q'. same_core q q' \<Longrightarrow> same_core (f q) (f q')" "\<And>q. pdata (f q) = pdata q"
  shows "rel emit pre (upd_parser f l) (upd_parser f l')"
  using assms by (simp add: rel_def upd_parser_def)

lemma rel_mark_field [simp]: "rel emit pre l l' \<Longrightarrow> rel emit pre (mark_field F l) (mark_field F l')"
  by (auto simp: rel_def mark_field_def pending_set)

lemmas rel_defs = handler_defs orel_def overflow_def rel_def same_core_def

lemma rel_dead: "rel emit pre l l' \<Longrightarrow> orel emit pre (at_dead l) (at_dead l')"
  by (auto simp: at_dead_def rel_defs)

lemma rel_res_or_resp_H: "rel emit pre l l' \<Longrightarrow> orel emit pre (at_res_or_resp_H l) (at_res_or_resp_H l')"
  by (auto simp: at_res_or_resp_H_def rel_defs)

lemma rel_res_H: "rel emit pre l l' \<Longrightarrow> orel emit pre (at_res_H l) (at_res_H l')"
  by (auto simp: at_res_H_def rel_defs)

lemma rel_res_HT: "rel emit pre l l' \<Longrightarrow> orel emit pre (at_res_HT l) (at_res_HT l')"
  by (auto simp: at_res_HT_def rel_defs)

lemma rel_res_HTT: "rel emit pre l l' \<Longrightarrow> orel emit pre (at_res_HTT l) (at_res_HTT l')"
  by (auto simp: at_res_HTT_def rel_defs)

lemma rel_res_HTTP: "rel emit pre l l' \<Longrightarrow> orel emit pre (at_res_HTTP l) (at_res_HTTP l')"
  by (auto simp: at_res_HTTP_def rel_defs)

lemma rel_res_first_http_major: "rel emit pre l l' \<Longrightarrow> orel emit pre (at_res_first_http_major l) (at_res_first_http_major l')"
  by (auto simp: at_res_first_http_major_def rel_defs)

lemma rel_res_http_major: "rel emit pre l l' \<Longrightarrow> orel emit pre (at_res_http_major l) (at_res_http_major l')"
  by (auto simp: at_res_http_major_def rel_defs)

lemma rel_res_first_http_minor: "rel emit pre l l' \<Longrightarrow> orel emit pre (at_res_first_http_minor l) (at_res_first_http_minor l')"
  by (auto simp: at_res_first_http_minor_def rel_defs)

lemma rel_res_http_minor: "rel emit pre l l' \<Longrightarrow> orel emit pre (at_res_http_minor l) (at_res_http_minor l')"
  by (auto simp: at_res_http_minor_def rel_defs)

lemma rel_res_first_status_code: "rel emit pre l l' \<Longrightarrow> orel emit pre (at_res_first_status_code l) (at_res_first_status_code l')"
  by (auto simp: at_res_first_status_code_def rel_defs)

lemma rel_res_status_code: "rel emit pre l l' \<Longrightarrow> orel emit pre (at_res_status_code l) (at_res_status_code l')"
  by (auto simp: at_res_status_code_def rel_defs)

lemma rel_res_line_almost_done: "rel emit pre l l' \<Longrightarrow> orel emit pre (at_res_line_almost_done l) (at_res_line_almost_done l')"
  by (auto simp: at_res_line_almost_done_def rel_defs)

lemma rel_req_http_start: "rel emit pre l l' \<Longrightarrow> orel emit pre (at_req_http_start l) (at_req_http_start l')"
  by (auto simp: at_req_http_start_def rel_defs)

lemma rel_req_http_H: "rel emit pre l l' \<Longrightarrow> orel emit pre (at_req_http_H l) (at_req_http_H l')"
  by (auto simp: at_req_http_H_def rel_defs)

lemma rel_req_http_HT: "rel emit pre l l' \<Longrightarrow> orel emit pre (at_req_http_HT l) (at_req_http_HT l')"
  by (auto simp: at_req_http_HT_def rel_defs)

lemma rel_req_http_HTT: "rel emit pre l l' \<Longrightarrow> orel emit pre (at_req_http_HTT l) (at_req_http_HTT l')"
  by (auto simp: at_req_http_HTT_def rel_defs)

lemma rel_req_http_HTTP: "rel emit pre l l' \<Longrightarrow> orel emit pre (at_req_http_HTTP l) (at_req_http_HTTP l')"
  by (auto simp: at_req_http_HTTP_def rel_defs)

lemma rel_req_first_http_major: "rel emit pre l l' \<Longrightarrow> orel emit pre (at_req_first_http_major l) (at_req_first_http_major l')"
  by (auto simp: at_req_first_http_major_def rel_defs)

lemma rel_req_http_major: "rel emit pre l l' \<Longrightarrow> orel emit pre (at_req_http_major l) (at_req_http_major l')"
  by (auto simp: at_req_http_major_def rel_defs)

lemma rel_req_first_http_minor: "rel emit pre l l' \<Longrightarrow> orel emit pre (at_req_first_http_minor l) (at_req_first_http_minor l')"
  by (auto simp: at_req_first_http_minor_def rel_defs)

lemma rel_req_http_minor: "rel emit pre l l' \<Longrightarrow> orel emit pre (at_req_http_minor l) (at_req_http_minor l')"
  by (auto simp: at_req_http_minor_def rel_defs)

lemma rel_req_line_almost_done: "rel emit pre l l' \<Longrightarrow> orel emit pre (at_req_line_almost_done l) (at_req_line_almost_done l')"
  by (auto simp: at_req_line_almost_done_def rel_defs)

lemma rel_header_value_lws: "rel emit pre l l' \<Longrightarrow> orel emit pre (at_header_value_lws l) (at_header_value_lws l')"
  by (auto simp: at_header_value_lws_def rel_defs)

lemma rel_header_almost_done: "rel emit pre l l' \<Longrightarrow> orel emit pre (at_header_almost_done l) (at_header_almost_done l')"
  by (auto simp: at_header_almost_done_def rel_defs)

lemma rel_header_value_discard_ws_almost_done: "rel emit pre l l' \<Longrightarrow> orel emit pre (at_header_value_discard_ws_almost_done l) (at_header_value_discard_ws_almost_done l')"
  by (auto simp: at_header_value_discard_ws_almost_done_def rel_defs)

lemma rel_chunk_size_start: "rel emit pre l l' \<Longrightarrow> orel emit pre (at_chunk_size_start l) (at_chunk_size_start l')"
  by (auto simp: at_chunk_size_start_def rel_defs)

lemma rel_chunk_size: "rel emit pre l l' \<Longrightarrow> orel emit pre (at_chunk_size l) (at_chunk_size l')"
  by (auto simp: at_chunk_size_def rel_defs)

lemma rel_chunk_parameters: "rel emit pre l l' \<Longrightarrow> orel emit pre (at_chunk_parameters l) (at_chunk_parameters l')"
  by (auto simp: at_chunk_parameters_def rel_defs)

lemma rel_req_schema: "rel emit pre l l' \<Longrightarrow> orel emit pre (at_req_schema l) (at_req_schema l')"
  by (auto simp: at_req_schema_def rel_defs)

lemma rel_req_method: "rel emit pre l l' \<Longrightarrow> orel emit pre (at_req_method l) (at_req_method l')"
  by (cases "other_method (meth (parser l)) (index (parser l)) (cur l)")
    (auto simp: at_req_method_def rel_defs)

lemma rel_res_status_start: "rel emit pre l l' \<Longrightarrow> orel emit pre (at_res_status_start l) (at_res_status_start l')"
  using rel_simps [of emit pre l l']
  by (auto simp: at_res_status_start_def intro!: rel_upd_parser) (auto simp: same_core_def)

lemma rel_header_field_start: "rel emit pre l l' \<Longrightarrow> orel emit pre (at_header_field_start l) (at_header_field_start l')"
  using rel_simps [of emit pre l l']
  by (auto simp: at_header_field_start_def Let_def intro!: rel_upd_parser) (auto simp: same_core_def)

lemma rel_header_value_start: 
  assumes "rel emit pre l l'"
  shows "orel emit pre (at_header_value_start l) (at_header_value_start l')"
proof -
  define g where "g = (\<lambda>l :: 'a local. upd_parser (\<lambda>q. q\<lparr>index := 0\<rparr>) (update_state s_header_value (mark_field For_header_value l)))"
  have gx: "upd_parser (\<lambda>q. q\<lparr>index := 0\<rparr>) (update_state s_header_value (mark_field For_header_value l)) = g l" for l :: "'a local"
    by (simp add: g_def)
  have r: "rel emit pre (g l) (g l')"
    unfolding g_def by (intro rel_upd_parser rel_update_state rel_mark_field assms) (auto simp: same_core_def)
  note s = rel_simps [OF r]
  have u: "orel emit pre (Break (upd_parser f (g l))) (Break (upd_parser f (g l')))"
    if "\<And>q q'. same_core q q' \<Longrightarrow> same_core (f q) (f q')" "\<And>q. pdata (f q) = pdata q" for f
    using rel_upd_parser [OF r that] by simp
  have v: "orel emit pre (Break (upd_parser (header_state_update (\<lambda>_. h)) (g l))) (Break (upd_parser (header_state_update (\<lambda>_. h)) (g l')))"
    "orel emit pre (Break (upd_parser (content_length_update (\<lambda>_. n)) (g l))) (Break (upd_parser (content_length_update (\<lambda>_. n)) (g l')))"
    "orel emit pre (Break (upd_parser (\<lambda>q. q\<lparr>flags := flags q OR x, header_state := h\<rparr>) (g l)))
      (Break (upd_parser (\<lambda>q. q\<lparr>flags := flags q OR x, header_state := h\<rparr>) (g l')))" for h n x
    by (rule u; simp add: same_core_def)+
  have b: "orel emit pre (Break (g l)) (Break (g l'))" using r by simp
  have f: "orel emit pre (fail_with e (g l)) (fail_with e (g l'))" for e by (rule orel_simps(3)) (simp add: s)
  have c: "header_state (parser (g l')) = header_state (parser (g l))" "cur (g l') = cur (g l)" by (simp_all add: s)
  show ?thesis
    unfolding at_header_value_start_def gx Let_def c
    by (cases "header_state (parser (g l))") (simp_all add: v b f del: orel_simps)
qed

lemma rel_header_value_discard_ws:
  assumes "rel emit pre l l'"
  shows "orel emit pre (at_header_value_discard_ws l) (at_header_value_discard_ws l')"
  using assms rel_header_value_start [OF assms] by (auto simp: at_header_value_discard_ws_def rel_simps [OF assms])

lemma rel_req_spaces_before_url:
  assumes "rel emit pre l l'"
  shows "orel emit pre (at_req_spaces_before_url l) (at_req_spaces_before_url l')"
proof (cases "cur l = SP")
  case False
  define g where "g = (\<lambda>l :: 'a local. let l = mark_field For_url l;
              l = (if meth (parser l) = HTTP_CONNECT then update_state s_req_server_start l else l) in update_state (parse_url_char (p_state l) (cur l)) l)"
  have m: "rel emit pre (mark_field For_url l) (mark_field For_url l')" by (rule rel_mark_field [OF assms])
  have r: "rel emit pre (g l) (g l')"
    using m rel_update_state [OF m] by (simp add: g_def Let_def rel_simps [OF m] rel_simps [OF rel_update_state [OF m]])
  have "at_req_spaces_before_url l = (if p_state (g l) = s_dead then fail_with HPE_INVALID_URL (g l) else Break (g l))"
      if "cur l \<noteq> SP" for l :: "'a local"
    using that by (simp add: at_req_spaces_before_url_def g_def Let_def mark_field_def update_state_def)
  then show ?thesis using False r by (simp add: rel_simps [OF assms] rel_simps [OF r])
qed (use assms in \<open>simp add: at_req_spaces_before_url_def rel_simps [OF assms]\<close>)

lemma same_core_field_char: "same_core q q' \<Longrightarrow> same_core (header_field_char c q) (header_field_char c q')"
  by (cases "header_state q") (simp_all add: header_field_char_def same_core_def Let_def)

lemma same_core_field_loop:
  "same_core q q' \<Longrightarrow> \<exists>r'. header_field_loop xs q' = (fst (header_field_loop xs q), r') \<and> same_core (snd (header_field_loop xs q)) r'"
  by (induction xs arbitrary: q q') (simp_all add: same_core_field_char)

lemma same_core_value_char:
  "same_core q q' \<Longrightarrow> header_value_char c h q = None \<Longrightarrow> header_value_char c h q' = None"
  "same_core q q' \<Longrightarrow> header_value_char c h q = Some (h1, q1) \<Longrightarrow> \<exists>q1'. header_value_char c h q' = Some (h1, q1') \<and> same_core q1 q1'"
  by (cases h; auto simp: header_value_char_def same_core_def Let_def split: if_splits)+

lemma same_core_value_loop:
  "same_core q q' \<Longrightarrow> header_value_loop xs h q = (e, rest, h1, q1) \<Longrightarrow> \<exists>q1'. header_value_loop xs h q' = (e, rest, h1, q1') \<and> same_core q1 q1'"
proof (induction xs h q arbitrary: q' rule: header_value_loop.induct)
  case (2 ch xs h q)
  consider "ch = CR" | "ch = LF" | "ch \<noteq> CR" "ch \<noteq> LF" "h = h_general" | "ch \<noteq> CR" "ch \<noteq> LF" "h \<noteq> h_general" by blast
  then show ?case
  proof cases
    case 3
    then show ?thesis using 2 by simp
  next
    case 4
    show ?thesis
    proof (cases "header_value_char ch h q")
      case None
      then show ?thesis using 2(3,4) 4 same_core_value_char(1) [OF 2(3) None] by auto
    next
      case (Some a)
      obtain h2 q2 where a: "a = (h2, q2)" by fastforce
      obtain q2' where q2': "header_value_char ch h q' = Some (h2, q2')" "same_core q2 q2'"
        using same_core_value_char(2) [OF 2(3)] Some a by blast
      have r: "header_value_loop xs h2 q2 = (e, rest, h1, q1)" using 2(4) 4 Some a by simp
      show ?thesis using 2(2) [OF 4(1-3) Some a [symmetric] q2'(2) r] q2'(1) 4 by simp
    qed
  qed (use 2 in auto)
qed auto

text \<open>The handlers with an inner loop, split after the loop.\<close>

definition header_field_tail :: "'w http_parser_settings \<Rightarrow> byte list \<Rightarrow> nat \<Rightarrow> 'w local \<Rightarrow> 'w outcome" where
  "header_field_tail S buf k l = count_header_size k l (\<lambda>l2. if pos l = length buf then Break (l2\<lparr>pos := pos l - 1\<rparr>)
     else if cur l2 = ch_of CHR '':'' then
       callback_data For_header_field (pos l) (pos l + 1) S buf (update_state s_header_value_discard_ws l2) Break
     else fail_with HPE_INVALID_HEADER_TOKEN l2)"

lemma at_header_field_eq:
  "header_field_loop (drop (pos l) buf) (parser l) = (rest, q) \<Longrightarrow> at_header_field S buf l = header_field_tail S buf (length buf - length rest - pos l)
     (l\<lparr>parser := q, pos := length buf - length rest, cur := (if rest = [] then last buf else hd rest)\<rparr>)"
  by (simp add: at_header_field_def header_field_tail_def Let_def cong: if_cong)

definition header_value_tail :: "'w http_parser_settings \<Rightarrow> byte list \<Rightarrow> nat \<Rightarrow> value_end \<Rightarrow> header_states \<Rightarrow> 'w local \<Rightarrow> 'w outcome" where
  "header_value_tail S buf k e h l = (let set_h = upd_parser (\<lambda>q. q\<lparr>header_state := h\<rparr>); p = pos l in
     case e of
          VCr \<Rightarrow> callback_data For_header_value p (p + 1) S buf (set_h (update_state s_header_almost_done l)) (\<lambda>l.
                   count_header_size k (set_h l) Break)
        | VLf \<Rightarrow> count_header_size k (update_state s_header_almost_done l) (\<lambda>l.
                   callback_data For_header_value p p S buf (set_h l) Reexecute)
        | VInvalid \<Rightarrow> fail_with HPE_INVALID_CONTENT_LENGTH (set_h l)
        | VEnd \<Rightarrow> count_header_size k (set_h l) (\<lambda>l. Break (l\<lparr>pos := p - 1\<rparr>)))"

lemma at_header_value_eq:
  "header_value_loop (drop (pos l) buf) (header_state (parser l)) (parser l) = (e, rest, h, q) \<Longrightarrow> at_header_value S buf l =
     header_value_tail S buf (length buf - length rest - pos l) e h
       (l\<lparr>parser := q, pos := length buf - length rest, cur := (if rest = [] then last buf else hd rest)\<rparr>)"
  by (cases e) (simp_all add: at_header_value_def header_value_tail_def Let_def)

context streaming_callbacks
begin

lemma data_eq:
  assumes "http_errno (parser l) = HPE_OK"
  shows "\<exists>s. callback_data F e m S buf l k = (case marks l F of None \<Rightarrow> k l
     | Some j \<Rightarrow> k (l\<lparr>parser := (parser l)\<lparr>state := s, pdata := emit F (slice j (e - j) buf) (pdata (parser l))\<rparr>, marks := (marks l)(F := None)\<rparr>))"
proof (cases "marks l F")
  case (Some j)
  show ?thesis
  proof (cases "on_data F S")
    case None
    then show ?thesis
      by (intro exI [of _ "state (parser l)"]) (simp add: callback_data_def Some no_data)
  next
    case g: (Some g)
    have "l\<lparr>parser := q, p_state := p_state l\<rparr> = l\<lparr>parser := q\<rparr>" for q by simp
    then show ?thesis
      by (intro exI [of _ "p_state l"]) (simp add: callback_data_def Some g data_law [OF g] Let_def assms)
  qed
qed (simp add: callback_data_def)

lemma slice_append_pre:
  "length pre \<le> j \<Longrightarrow> slice j n (pre @ ys) = slice (j - length pre) n ys"
  "j \<le> length pre \<Longrightarrow> slice j (length pre + e - j) (pre @ ys) = drop j pre @ take e ys"
  by (simp_all add: slice_def)

lemma rel_clear:
  assumes "rel emit pre l l'" "\<And>G. G \<noteq> F \<Longrightarrow> marks l G = None" "marks l F = Some j" "j \<le> length pre + e'"
  shows "rel emit pre (l\<lparr>parser := (parser l)\<lparr>state := s, pdata := emit F (slice j (length pre + e' - j) (pre @ ys)) (pdata (parser l))\<rparr>, marks := (marks l)(F := None)\<rparr>)
     (l'\<lparr>parser := (parser l')\<lparr>state := s', pdata := emit F (slice (j - length pre) (e' - (j - length pre)) ys) (pdata (parser l'))\<rparr>, marks := (marks l')(F := None)\<rparr>)"
proof -
  have none: "((marks l)(F := None)) G = None" for G using assms(2) by (cases "G = F") auto
  have p: "pending emit pre (marks l) (pdata (parser l)) (pdata (parser l'))" using assms(1) by (simp add: rel_def)
  have "emit F (slice (j - length pre) (e' - (j - length pre)) ys) (pdata (parser l')) = emit F (slice j (length pre + e' - j) (pre @ ys)) (pdata (parser l))"
  proof (cases "j < length pre")
    case True
    then have "pdata (parser l') = emit F (drop j pre) (pdata (parser l))" using p assms(3) by (auto simp: pending_def)
    then show ?thesis using True by (simp add: slice_append_pre(2) emit_append [symmetric] slice_def)
  next
    case False
    have "\<nexists>G m. marks l G = Some m \<and> m < length pre"
      using False assms(2,3) by (metis option.distinct(1) option.inject)
    then have "pdata (parser l') = pdata (parser l)" using p by (auto simp: pending_def)
    moreover have "e' - (j - length pre) = length pre + e' - j" using False by linarith
    ultimately show ?thesis using False by (simp add: slice_append_pre(1))
  qed
  then show ?thesis
    using assms(1) none by (simp add: rel_def same_core_def pending_def)
qed

lemma rel_data:
  assumes r: "rel emit pre l l'" and o: "http_errno (parser l) = HPE_OK" and only: "\<And>G. G \<noteq> F \<Longrightarrow> marks l G = None"
    and le: "\<And>j. marks l F = Some j \<Longrightarrow> j \<le> e" and e: "e = length pre + e'"
    and k: "\<And>l2 l2'. rel emit pre l2 l2' \<Longrightarrow> p_state l2 = p_state l \<Longrightarrow> http_errno (parser l2) = HPE_OK \<Longrightarrow> marks l2 = (marks l)(F := None) \<Longrightarrow> orel emit pre (k l2) (k' l2')"
  shows "orel emit pre (callback_data F e m S (pre @ ys) l k) (callback_data F e' m' S ys l' k')"
proof -
  have o': "http_errno (parser l') = HPE_OK" using o rel_simps [OF r] by simp
  obtain s s' where
    d: "callback_data F e m S (pre @ ys) l k = (case marks l F of None \<Rightarrow> k l
     | Some j \<Rightarrow> k (l\<lparr>parser := (parser l)\<lparr>state := s, pdata := emit F (slice j (e - j) (pre @ ys)) (pdata (parser l))\<rparr>, marks := (marks l)(F := None)\<rparr>))"
    and d': "callback_data F e' m' S ys l' k' = (case marks l' F of None \<Rightarrow> k' l'
     | Some j \<Rightarrow> k' (l'\<lparr>parser := (parser l')\<lparr>state := s', pdata := emit F (slice j (e' - j) ys) (pdata (parser l'))\<rparr>, marks := (marks l')(F := None)\<rparr>))"
    using data_eq [OF o] data_eq [OF o'] by meson
  show ?thesis
  proof (cases "marks l F")
    case None
    then have "marks l' F = None" by (simp add: rel_simps [OF r])
    then show ?thesis unfolding d d' using None k [OF r] o by (simp add: fun_upd_idem)
  next
    case (Some j)
    then have "marks l' F = Some (j - length pre)" by (simp add: rel_simps [OF r] shift_marks_def)
    then show ?thesis
      unfolding d d' using k [OF rel_clear [OF r only Some, where e' = e' and s = s and s' = s' and ys = ys]] le [OF Some] o by (simp add: Some e)
  qed
qed

lemma rel_notify:
  assumes cb: "cb \<in> notify_cbs S" and r: "rel emit pre l l'" and o: "http_errno (parser l) = HPE_OK" and none: "\<And>G. marks l G = None"
    and m: "m = length pre + m'" and e: "e \<noteq> HPE_OK"
    and k: "\<And>l2 l2'. rel emit pre l2 l2' \<Longrightarrow> p_state l2 = p_state l \<Longrightarrow> marks l2 = marks l \<Longrightarrow> same_core (parser l) (parser l2) \<Longrightarrow> pos l2 = pos l \<Longrightarrow> orel emit pre (k l2) (k' l2')"
  shows "orel emit pre (callback_notify cb e m l k) (callback_notify cb e m' l' k')"
proof (cases cb)
  case None
  then show ?thesis using k [OF r] by (simp add: callback_notify_def same_core_def)
next
  case (Some f)
  obtain rc g where f: "\<And>q. f q = (rc (pdata q), q\<lparr>pdata := g (pdata q)\<rparr>)" using notify_law cb Some by metis
  have pd: "pdata (parser l') = pdata (parser l)" using r none by (simp add: rel_def pending_def)
  have st: "l\<lparr>parser := q, p_state := p_state l\<rparr> = l\<lparr>parser := q\<rparr>" for l :: "'w local" and q by simp
  note s = rel_simps [OF r]
  have st': "l'\<lparr>parser := q, p_state := p_state l\<rparr> = l'\<lparr>parser := q\<rparr>" for q by (simp add: s(2) [symmetric])
  show ?thesis
  proof (cases "rc (pdata (parser l)) = 0")
    case True
    have "rel emit pre (l\<lparr>parser := (parser l)\<lparr>state := p_state l, pdata := g (pdata (parser l))\<rparr>\<rparr>)
        (l'\<lparr>parser := (parser l')\<lparr>state := p_state l, pdata := g (pdata (parser l))\<rparr>\<rparr>)"
      using r none by (simp add: rel_def same_core_def pending_def)
    from k [OF this] show ?thesis using True o
      by (simp add: callback_notify_def Some f Let_def pd st st' s same_core_def)
  next
    case False
    then show ?thesis using o e m by (simp add: callback_notify_def Some f Let_def pd s orel_def)
  qed
qed


lemma rel_count:
  assumes "rel emit pre l l'"
    and "\<And>n n'. rel emit pre (l\<lparr>parser := (parser l)\<lparr>nread := n\<rparr>\<rparr>) (l'\<lparr>parser := (parser l')\<lparr>nread := n'\<rparr>\<rparr>) \<Longrightarrow>
        orel emit pre (f (l\<lparr>parser := (parser l)\<lparr>nread := n\<rparr>\<rparr>)) (f' (l'\<lparr>parser := (parser l')\<lparr>nread := n'\<rparr>\<rparr>))"
  shows "orel emit pre (count_header_size k l f) (count_header_size k' l' f')"
proof -
  have "rel emit pre (l\<lparr>parser := (parser l)\<lparr>nread := n\<rparr>\<rparr>) (l'\<lparr>parser := (parser l')\<lparr>nread := n'\<rparr>\<rparr>)" for n n'
    using assms(1) by (simp add: rel_def same_core_def)
  from assms(2) [OF this] show ?thesis
    by (simp add: count_header_size_def upd_parser_def fail_with_def Let_def) (simp add: orel_def overflow_def)
qed

lemma clear_marks: "local_inv l \<Longrightarrow> \<not> marking (p_state l) \<Longrightarrow> marks l G = None"
  by (rule marks_clear, assumption, cases G) (auto simp: marking_def)

lemma rel_chunk_size_almost_done:
  assumes "rel emit pre l l'" "local_inv l" "p_state l = s_chunk_size_almost_done"
  shows "orel emit pre (at_chunk_size_almost_done S l) (at_chunk_size_almost_done S l')"
proof -
  have m: "marks l G = None" for G using clear_marks [OF assms(2)] assms(3) by (simp add: marking_def url_states_def)
  define g where "g = (\<lambda>l :: 'w local. let l = upd_parser (\<lambda>q. q\<lparr>nread := 0\<rparr>) l in
          if content_length (parser l) = 0 then update_state s_header_field_start (upd_parser (\<lambda>q. q\<lparr>flags := flags q OR F_TRAILING\<rparr>) l)
               else update_state s_chunk_data l)"
  have r: "rel emit pre (g l) (g l')" using assms(1) by (auto simp: g_def rel_defs)
  have g: "marks (g l) = marks l" "http_errno (parser (g l)) = http_errno (parser l)" by (simp_all add: g_def handler_defs)
  have e: "at_chunk_size_almost_done S l = strict_check (cur l \<noteq> LF) l (callback_notify (on_chunk_header S) HPE_CB_chunk_header (pos (g l) + 1) (g l) Break)"
    for l :: "'w local" by (simp add: at_chunk_size_almost_done_def g_def Let_def)
  have "orel emit pre (callback_notify (on_chunk_header S) HPE_CB_chunk_header (pos (g l) + 1) (g l) Break)
      (callback_notify (on_chunk_header S) HPE_CB_chunk_header (pos (g l') + 1) (g l') Break)"
    by (rule rel_notify [OF _ r]) (use m assms(2) rel_simps [OF r] in \<open>simp_all add: g notify_cbs_def local_inv_def\<close>)
  then show ?thesis by (simp add: e strict_check_def rel_simps [OF assms(1)])
qed

lemma rel_chunk_data_done:
  assumes "rel emit pre l l'" "local_inv l" "p_state l = s_chunk_data_done"
  shows "orel emit pre (at_chunk_data_done S l) (at_chunk_data_done S l')"
proof -
  have m: "marks l G = None" for G using clear_marks [OF assms(2)] assms(3) by (simp add: marking_def url_states_def)
  let ?g = "\<lambda>l :: 'w local. update_state s_chunk_size_start (upd_parser (\<lambda>q. q\<lparr>nread := 0\<rparr>) l)"
  have r: "rel emit pre (?g l) (?g l')" using assms(1) by (auto simp: rel_defs)
  have "orel emit pre (callback_notify (on_chunk_complete S) HPE_CB_chunk_complete (pos l + 1) (?g l) Break)
      (callback_notify (on_chunk_complete S) HPE_CB_chunk_complete (pos l' + 1) (?g l') Break)"
    by (rule rel_notify [OF _ r]) (use m assms(2) rel_simps [OF assms(1)] in \<open>simp_all add: handler_defs notify_cbs_def local_inv_def\<close>)
  then show ?thesis by (simp add: at_chunk_data_done_def strict_check_def rel_simps [OF assms(1)])
qed

lemma rel_begin:
  assumes "rel emit pre l l'" "local_inv l" "\<not> marking (p_state l)"
    and "\<And>q q'. same_core q q' \<Longrightarrow> same_core (f q) (f q')" "\<And>q. pdata (f q) = pdata q" "\<And>q. http_errno (f q) = http_errno q"
  shows "orel emit pre (callback_notify (on_message_begin S) HPE_CB_message_begin (pos l + 1) (update_state s (upd_parser f l)) Break)
      (callback_notify (on_message_begin S) HPE_CB_message_begin (pos l' + 1) (update_state s (upd_parser f l')) Break)"
  by (rule rel_notify [OF _ rel_update_state [OF rel_upd_parser [OF assms(1,4,5)]]])
    (use clear_marks [OF assms(2,3)] assms(2) rel_simps [OF assms(1)] in \<open>simp_all add: handler_defs notify_cbs_def local_inv_def assms(6)\<close>)

lemma upd_upd: "upd_parser f (upd_parser g l) = upd_parser (\<lambda>q. f (g q)) l"
  by (simp add: upd_parser_def)

lemma upd_parser_sel [simp]: "cur (upd_parser f l) = cur l" "pos (upd_parser f l) = pos l" "p_state (upd_parser f l) = p_state l"
    "marks (upd_parser f l) = marks l" "parser (upd_parser f l) = f (parser l)"
  by (simp_all add: upd_parser_def)

lemma update_state_sel [simp]: "cur (update_state s l) = cur l" "pos (update_state s l) = pos l" "p_state (update_state s l) = s"
    "marks (update_state s l) = marks l" "parser (update_state s l) = parser l"
  by (simp_all add: update_state_def)

lemma rel_start_req_or_res:
  assumes "rel emit pre l l'" "local_inv l" "p_state l = s_start_req_or_res"
  shows "orel emit pre (at_start_req_or_res S l) (at_start_req_or_res S l')"
proof -
  have "orel emit pre (callback_notify (on_message_begin S) HPE_CB_message_begin (pos l + 1)
        (update_state s_res_or_resp_H (upd_parser (\<lambda>q. q\<lparr>flags := 0, content_length := ULLONG_MAX\<rparr>) l)) Break)
      (callback_notify (on_message_begin S) HPE_CB_message_begin (pos l' + 1)
        (update_state s_res_or_resp_H (upd_parser (\<lambda>q. q\<lparr>flags := 0, content_length := ULLONG_MAX\<rparr>) l')) Break)"
    by (rule rel_begin [OF assms(1,2)]) (simp_all add: same_core_def assms(3) marking_def url_states_def)
  moreover have "rel emit pre (update_state s_start_req (upd_parser (\<lambda>q. q\<lparr>ptype := HTTP_REQUEST\<rparr>) (upd_parser (\<lambda>q. q\<lparr>flags := 0, content_length := ULLONG_MAX\<rparr>) l)))
     (update_state s_start_req (upd_parser (\<lambda>q. q\<lparr>ptype := HTTP_REQUEST\<rparr>) (upd_parser (\<lambda>q. q\<lparr>flags := 0, content_length := ULLONG_MAX\<rparr>) l')))"
    by (intro rel_update_state rel_upd_parser assms(1)) (simp_all add: same_core_def)
  ultimately show ?thesis using assms(1)
    by (simp add: at_start_req_or_res_def Let_def rel_simps(1) [OF assms(1)])
qed

lemma rel_start_res:
  assumes "rel emit pre l l'" "local_inv l" "p_state l = s_start_res"
  shows "orel emit pre (at_start_res S l) (at_start_res S l')"
proof -
  let ?u = "upd_parser (\<lambda>q :: 'w http_parser. q\<lparr>flags := 0, content_length := ULLONG_MAX\<rparr>)"
  have b: "orel emit pre (callback_notify (on_message_begin S) HPE_CB_message_begin (pos l + 1) (update_state s (?u l)) Break)
      (callback_notify (on_message_begin S) HPE_CB_message_begin (pos l' + 1) (update_state s (?u l')) Break)" for s
    by (rule rel_begin [OF assms(1,2)]) (simp_all add: same_core_def assms(3) marking_def url_states_def)
  have s: "update_state s_start_res (?u l) = ?u l" "update_state s_start_res (?u l') = ?u l'"
    using assms(3) rel_simps(2) [OF assms(1)] by (simp_all add: update_state_def upd_parser_def)
  have f: "orel emit pre (fail_with HPE_INVALID_CONSTANT (?u l)) (fail_with HPE_INVALID_CONSTANT (?u l'))"
    by (rule orel_simps(3)) (simp add: rel_simps [OF assms(1)])
  show ?thesis using b [of s_res_H] b [of s_start_res] f
    by (simp add: at_start_res_def Let_def rel_simps(1) [OF assms(1)] s)
qed

lemma rel_start_req:
  assumes "rel emit pre l l'" "local_inv l" "p_state l = s_start_req"
  shows "orel emit pre (at_start_req S l) (at_start_req S l')"
proof (cases "start_method (cur l)")
  case None
  then show ?thesis using assms(1)
    by (simp add: at_start_req_def Let_def rel_simps(1) [OF assms(1)] rel_simps(4) [OF assms(1)])
next
  case (Some m)
  have "orel emit pre (callback_notify (on_message_begin S) HPE_CB_message_begin (pos l + 1)
        (update_state s_req_method (upd_parser (\<lambda>q. q\<lparr>flags := 0, content_length := ULLONG_MAX, index := 1, meth := m\<rparr>) l)) Break)
      (callback_notify (on_message_begin S) HPE_CB_message_begin (pos l' + 1)
        (update_state s_req_method (upd_parser (\<lambda>q. q\<lparr>flags := 0, content_length := ULLONG_MAX, index := 1, meth := m\<rparr>) l')) Break)"
    by (rule rel_begin [OF assms(1,2)]) (simp_all add: same_core_def assms(3) marking_def url_states_def)
  then show ?thesis using assms(1)
    by (simp add: at_start_req_def Let_def rel_simps(1) [OF assms(1)] rel_simps(4) [OF assms(1)] Some upd_upd)
qed

lemma same_core_functions:
  assumes "same_core q q'"
  shows "new_message q' = new_message q" "has_body q' = has_body q" "http_message_needs_eof q' = http_message_needs_eof q"
    "upgrade_requested q' = upgrade_requested q"
  using assms by (simp_all add: same_core_def new_message_def has_body_def http_message_needs_eof_def upgrade_requested_def
      http_should_keep_alive_def start_state_def)

lemma rel_leave:
  assumes "rel emit pre l l'" "\<And>G. marks l G = None" "http_errno (parser l) = HPE_OK"
  shows "orel emit pre (leave_after l) (leave_after l')"
  using assms by (simp add: leave_after_def orel_def rel_def same_parser_def same_core_def pending_def)

lemma rel_message_done:
  assumes "rel emit pre l l'" "local_inv l" "p_state l = s_message_done"
  shows "orel emit pre (at_message_done S l) (at_message_done S l')"
proof -
  have m: "marks l G = None" for G using clear_marks [OF assms(2)] assms(3) by (simp add: marking_def url_states_def)
  have c: "same_core (parser l) (parser l')" using assms(1) by (simp add: rel_def)
  show ?thesis
    unfolding at_message_done_def same_core_functions [OF c]
  proof (rule rel_notify [OF _ rel_update_state [OF assms(1)]], goal_cases)
    case (6 l2 l2')
    then have "http_errno (parser l2) = HPE_OK" "marks l2 G = None" for G
      using m assms(2) by (simp_all add: local_inv_def same_core_def)
    then show ?case using 6 rel_leave [OF 6(1)] by (simp add: rel_simps [OF 6(1)])
  qed (use m assms(2) rel_simps [OF assms(1)] in \<open>simp_all add: notify_cbs_def local_inv_def\<close>)
qed

lemma rel_headers_done:
  assumes "rel emit pre l l'" "local_inv l" "p_state l = s_headers_done"
  shows "orel emit pre (at_headers_done S l) (at_headers_done S l')"
proof -
  have m: "marks l G = None" for G using clear_marks [OF assms(2)] assms(3) by (simp add: marking_def url_states_def)
  let ?g = "upd_parser (\<lambda>q :: 'w http_parser. q\<lparr>nread := 0\<rparr>)"
  have r: "rel emit pre (?g l) (?g l')" by (rule rel_upd_parser [OF assms(1)]) (simp_all add: same_core_def)
  have c: "same_core (parser (?g l)) (parser (?g l'))" using r unfolding rel_def by blast
  have n: "orel emit pre (callback_notify (on_message_complete S) HPE_CB_message_complete (pos (?g l) + 1) (update_state s (?g l)) k)
      (callback_notify (on_message_complete S) HPE_CB_message_complete (pos (?g l') + 1) (update_state s (?g l')) k)"
    if k: "k = Break \<or> k = leave_after" for s k
  proof (rule rel_notify [OF _ rel_update_state [OF r]], goal_cases)
    case (6 l2 l2')
    then have "http_errno (parser l2) = HPE_OK" "marks l2 G = None" for G
      using m assms(2) by (simp_all add: local_inv_def same_core_def)
    then show ?case using 6 rel_leave [OF 6(1)] k by auto
  qed (use m assms(2) rel_simps [OF assms(1)] in \<open>simp_all add: notify_cbs_def local_inv_def\<close>)
  have b: "orel emit pre (Break (update_state s (?g l))) (Break (update_state s (?g l')))" for s using r by simp
  have f: "orel emit pre (fail_with HPE_STRICT l) (fail_with HPE_STRICT l')" by (simp add: rel_simps [OF assms(1)])
  show ?thesis
    unfolding at_headers_done_def strict_check_def Let_def same_core_functions [OF c] rel_simps(1) [OF assms(1)]
      rel_simps(4-) [OF r] upd_parser_sel(2)
    by (intro orel_if n [of Break, OF disjI1 [OF refl], unfolded upd_parser_sel(2)]
      n [of leave_after, OF disjI2 [OF refl], unfolded upd_parser_sel(2)] b f)
qed


lemma rel_headers_almost_done:
  assumes "rel emit pre l l'" "local_inv l" "p_state l = s_headers_almost_done"
  shows "orel emit pre (at_headers_almost_done S l) (at_headers_almost_done S l')"
proof -
  have m: "marks l G = None" for G using clear_marks [OF assms(2)] assms(3) by (simp add: marking_def url_states_def)
  have o: "http_errno (parser l) = HPE_OK" using assms(2) by (simp add: local_inv_def)
  let ?leave = "\<lambda>l :: 'w local. Return (pos l) (upd_parser (\<lambda>q. q\<lparr>state := p_state l\<rparr>) l)"
  let ?check = "\<lambda>l. if http_errno (parser l) \<noteq> HPE_OK then ?leave l else Reexecute l"
  define g where "g = (\<lambda>l :: 'w local. upd_parser (\<lambda>q. q\<lparr>upgrade := upgrade_requested q\<rparr>) (update_state s_headers_done l))"
  have gx: "upd_parser (\<lambda>q. q\<lparr>upgrade := upgrade_requested q\<rparr>) (update_state s_headers_done l) = g l" for l :: "'w local"
    by (simp add: g_def)
  have r: "rel emit pre (g l) (g l')" unfolding g_def
    by (intro rel_upd_parser rel_update_state assms(1)) (auto simp: same_core_def upgrade_requested_def)
  have n: "orel emit pre (callback_notify (on_chunk_complete S) HPE_CB_chunk_complete (pos l) (update_state s_message_done l) Reexecute)
      (callback_notify (on_chunk_complete S) HPE_CB_chunk_complete (pos l') (update_state s_message_done l') Reexecute)"
    by (rule rel_notify [OF _ rel_update_state [OF assms(1)]])
      (use m o rel_simps [OF assms(1)] in \<open>simp_all add: notify_cbs_def\<close>)
  have leave: "orel emit pre (?leave l2) (?leave l2')" if "rel emit pre l2 l2'" "\<And>G. marks l2 G = None" for l2 l2'
    using that by (simp add: orel_def rel_def same_parser_def same_core_def pending_def)
  have check: "orel emit pre (?check l2) (?check l2')" if "rel emit pre l2 l2'" "\<And>G. marks l2 G = None" for l2 l2'
    unfolding rel_simps(14) [OF that(1)] by (rule orel_if [OF leave [OF that]]) (use that(1) in simp)
  have gm: "marks (g l) G = None" for G by (simp add: g_def m)
  have rest: "orel emit pre (case on_headers_complete S of None \<Rightarrow> ?check (g l)
           | Some f \<Rightarrow> (case f (parser (g l)) of (rc, q) \<Rightarrow> let l = (g l)\<lparr>parser := q\<rparr> in
               if rc = 0 then ?check l else if rc = 1 then ?check (upd_parser (\<lambda>q. q\<lparr>flags := flags q OR F_SKIPBODY\<rparr>) l)
               else ?leave (upd_parser (\<lambda>q. q\<lparr>http_errno := HPE_CB_headers_complete\<rparr>) l)))
      (case on_headers_complete S of None \<Rightarrow> ?check (g l')
           | Some f \<Rightarrow> (case f (parser (g l')) of (rc, q) \<Rightarrow> let l = (g l')\<lparr>parser := q\<rparr> in
               if rc = 0 then ?check l else if rc = 1 then ?check (upd_parser (\<lambda>q. q\<lparr>flags := flags q OR F_SKIPBODY\<rparr>) l)
               else ?leave (upd_parser (\<lambda>q. q\<lparr>http_errno := HPE_CB_headers_complete\<rparr>) l)))"
  proof (cases "on_headers_complete S")
    case None
    then show ?thesis using check [OF r gm] by simp
  next
    case (Some f)
    obtain rc h where f: "\<And>q. f q = (rc (pdata q), q\<lparr>pdata := h (pdata q)\<rparr>)"
      using notify_law [of f] Some by (auto simp: notify_cbs_def)
    have pd: "pdata (parser (g l')) = pdata (parser (g l))" using r gm by (simp add: rel_def pending_def)
    let ?l = "(g l)\<lparr>parser := (parser (g l))\<lparr>pdata := h (pdata (parser (g l)))\<rparr>\<rparr>"
      and ?l' = "(g l')\<lparr>parser := (parser (g l'))\<lparr>pdata := h (pdata (parser (g l)))\<rparr>\<rparr>"
    have r2: "rel emit pre ?l ?l'" using r gm by (simp add: rel_def same_core_def pending_def)
    have r3: "rel emit pre (upd_parser (\<lambda>q. q\<lparr>flags := flags q OR F_SKIPBODY\<rparr>) ?l) (upd_parser (\<lambda>q. q\<lparr>flags := flags q OR F_SKIPBODY\<rparr>) ?l')"
      "rel emit pre (upd_parser (\<lambda>q. q\<lparr>http_errno := HPE_CB_headers_complete\<rparr>) ?l) (upd_parser (\<lambda>q. q\<lparr>http_errno := HPE_CB_headers_complete\<rparr>) ?l')"
      by (rule rel_upd_parser [OF r2]; simp add: same_core_def)+
    show ?thesis
      unfolding Some option.case f prod.case Let_def pd
      by (intro orel_if check leave r2 r3) (simp_all add: gm)
  qed
  have f: "orel emit pre (fail_with HPE_STRICT l) (fail_with HPE_STRICT l')" by (simp add: rel_simps [OF assms(1)])
  show ?thesis
    unfolding at_headers_almost_done_def strict_check_def rel_simps(1,6) [OF assms(1)] gx Let_def
    by (intro orel_if n f rest [unfolded Let_def])
qed

lemma local_inv_only: "local_inv l \<Longrightarrow> p_state l \<in> mark_states F \<Longrightarrow> G \<noteq> F \<Longrightarrow> marks l G = None"
  by (rule marks_clear, assumption, cases F; cases G) (auto simp: url_states_def)

lemma local_inv_le: "local_inv l \<Longrightarrow> marks l F = Some m \<Longrightarrow> m \<le> pos l"
  by (simp add: local_inv_def marks_inv_def)

lemma rel_data_Break:
  assumes "rel emit pre l l'" "local_inv l" "p_state l \<in> mark_states F"
    "\<And>q q'. same_core q q' \<Longrightarrow> same_core (f q) (f q')" "\<And>q. pdata (f q) = pdata q" "\<And>q. http_errno (f q) = http_errno q"
  shows "orel emit pre (callback_data F (pos l) (pos l + 1) S (pre @ ys) (update_state s (upd_parser f l)) Break)
     (callback_data F (pos l') (pos l' + 1) S ys (update_state s (upd_parser f l')) Break)"
  by (rule rel_data [OF rel_update_state [OF rel_upd_parser [OF assms(1,4,5)]]])
    (use local_inv_only [OF assms(2,3)] local_inv_le [OF assms(2)] assms(2,6) rel_simps [OF assms(1)] in \<open>simp_all add: local_inv_def\<close>)

lemma upd_parser_id: "upd_parser (\<lambda>q. q) l = l"
  by (simp add: upd_parser_def)

lemma rel_res_status:
  assumes "rel emit pre l l'" "local_inv l" "p_state l = s_res_status"
  shows "orel emit pre (at_res_status S (pre @ ys) l) (at_res_status S ys l')"
  using rel_data_Break [OF assms(1,2), of For_status "\<lambda>q. q", unfolded upd_parser_id] assms(1,3)
  by (simp add: at_res_status_def rel_simps(1) [OF assms(1)])

lemma rel_req_url:
  assumes "rel emit pre l l'" "local_inv l" "p_state l \<in> url_states"
  shows "orel emit pre (at_req_url S (pre @ ys) l) (at_req_url S ys l')"
proof -
  have u: "p_state l \<in> mark_states For_url" using assms(3) by simp
  have d: "orel emit pre (let l = update_state (parse_url_char (p_state l) (cur l)) l in if p_state l = s_dead then fail_with HPE_INVALID_URL l else Break l)
    (let l = update_state (parse_url_char (p_state l') (cur l')) l' in if p_state l = s_dead then fail_with HPE_INVALID_URL l else Break l)"
    using assms(1) by (simp add: Let_def rel_simps [OF assms(1)])
  show ?thesis
    unfolding at_req_url_def rel_simps(1,2) [OF assms(1)]
    by (intro orel_if rel_data_Break [OF assms(1,2) u] rel_data_Break [OF assms(1,2) u, of "\<lambda>q. q", unfolded upd_parser_id]
        d [unfolded rel_simps(1,2) [OF assms(1)]]) (simp_all add: same_core_def)
qed

lemma rel_header_value_discard_lws:
  assumes "rel emit pre l l'" "local_inv l" "p_state l = s_header_value_discard_lws"
  shows "orel emit pre (at_header_value_discard_lws S (pre @ ys) l) (at_header_value_discard_lws S ys l')"
proof -
  have m: "marks l G = None" for G using clear_marks [OF assms(2)] assms(3) by (simp add: marking_def url_states_def)
  let ?g = "\<lambda>l :: 'w local. update_state s_header_field_start (mark_field For_header_value (upd_parser (\<lambda>q. q\<lparr>flags := flags q OR value_flag (header_state q)\<rparr>) l))"
  have r: "rel emit pre (?g l) (?g l')"
    by (intro rel_update_state rel_mark_field rel_upd_parser assms(1)) (simp_all add: same_core_def)
  have p: "pos (?g l) = pos l" "pos (?g l') = pos l'" by (simp_all add: mark_field_def)
  have "orel emit pre (callback_data For_header_value (pos l) (pos l) S (pre @ ys) (?g l) Reexecute)
      (callback_data For_header_value (pos l') (pos l') S ys (?g l') Reexecute)"
    by (rule rel_data [OF r]) (use m assms(2) rel_simps [OF assms(1)] in \<open>auto simp: mark_field_def local_inv_def split: if_splits\<close>)
  then show ?thesis using assms(1) by (simp add: at_header_value_discard_lws_def rel_simps(1) [OF assms(1)])
qed

lemma rel_chunk_data_almost_done:
  assumes "rel emit pre l l'" "local_inv l" "p_state l = s_chunk_data_almost_done"
  shows "orel emit pre (at_chunk_data_almost_done S (pre @ ys) l) (at_chunk_data_almost_done S ys l')"
proof -
  have "orel emit pre (fail_with HPE_STRICT l) (fail_with HPE_STRICT l')" by (simp add: rel_simps [OF assms(1)])
  then show ?thesis
    using rel_data_Break [OF assms(1,2), of For_body "\<lambda>q. q" ys s_chunk_data_done, unfolded upd_parser_id] assms(3)
    by (simp add: at_chunk_data_almost_done_def strict_check_def rel_simps(1) [OF assms(1)])
qed


lemma rel_header_field_tail:
  assumes r: "rel emit pre l l'" and o: "http_errno (parser l) = HPE_OK" and only: "\<And>G. G \<noteq> For_header_field \<Longrightarrow> marks l G = None"
    and le: "\<And>j. marks l For_header_field = Some j \<Longrightarrow> j \<le> pos l" and ys: "ys \<noteq> []"
  shows "orel emit pre (header_field_tail S (pre @ ys) k l) (header_field_tail S ys k' l')"
  unfolding header_field_tail_def
proof (rule rel_count [OF r], goal_cases)
  case (1 n n')
  let ?l = "l\<lparr>parser := (parser l)\<lparr>nread := n\<rparr>\<rparr>" and ?l' = "l'\<lparr>parser := (parser l')\<lparr>nread := n'\<rparr>\<rparr>"
  have c: "(pos l = length (pre @ ys)) = (pos l' = length ys)" by (simp add: rel_simps(4) [OF r])
  have b: "orel emit pre (Break (?l\<lparr>pos := pos l - 1\<rparr>)) (Break (?l'\<lparr>pos := pos l' - 1\<rparr>))" if "pos l' = length ys"
    using 1 ys that by (simp add: rel_def) (metis add_diff_assoc length_greater_0_conv less_eq_Suc_le One_nat_def)
  have d: "orel emit pre (callback_data For_header_field (pos l) (pos l + 1) S (pre @ ys) (update_state s_header_value_discard_ws ?l) Break)
      (callback_data For_header_field (pos l') (pos l' + 1) S ys (update_state s_header_value_discard_ws ?l') Break)"
    by (rule rel_data [OF rel_update_state [OF 1]]) (use o only le rel_simps [OF r] in simp_all)
  have f: "orel emit pre (fail_with HPE_INVALID_HEADER_TOKEN ?l) (fail_with HPE_INVALID_HEADER_TOKEN ?l')"
    by (rule orel_simps(3)) (simp add: rel_simps(4) [OF r])
  show ?case unfolding c rel_simps(1) [OF 1] by (intro orel_if b d f)
qed

lemma rel_after_loop:
  assumes "rel emit pre l l'" "same_core q q'" "pdata q = pdata (parser l)" "pdata q' = pdata (parser l')" "length rest \<le> length ys" "ys \<noteq> []"
  shows "rel emit pre (l\<lparr>parser := q, pos := length (pre @ ys) - length rest, cur := (if rest = [] then last (pre @ ys) else hd rest)\<rparr>)
     (l'\<lparr>parser := q', pos := length ys - length rest, cur := (if rest = [] then last ys else hd rest)\<rparr>)"
  using assms by (simp add: rel_def)

lemma rel_header_field:
  assumes "rel emit pre l l'" "local_inv l" "p_state l = s_header_field" "pos l' < length ys"
  shows "orel emit pre (at_header_field S (pre @ ys) l) (at_header_field S ys l')"
proof -
  note s = rel_simps [OF assms(1)]
  obtain rest q where L: "header_field_loop (drop (pos l') ys) (parser l) = (rest, q)" by fastforce
  then have L1: "header_field_loop (drop (pos l) (pre @ ys)) (parser l) = (rest, q)" by (simp add: s)
  obtain q' where L': "header_field_loop (drop (pos l') ys) (parser l') = (rest, q')" "same_core q q'"
    using same_core_field_loop [of "parser l" "parser l'" "drop (pos l') ys"] assms(1) L by (auto simp: rel_def)
  have fr: "length rest \<le> length ys - pos l'" "q = (parser l)\<lparr>index := index q, header_state := header_state q\<rparr>"
      "q' = (parser l')\<lparr>index := index q', header_state := header_state q'\<rparr>"
    using header_field_loop_frame [OF L] header_field_loop_frame [OF L'(1)] by simp_all
  have pd: "pdata q = pdata (parser l)" "http_errno q = http_errno (parser l)" by (subst fr(2), simp)+
  have pd': "pdata q' = pdata (parser l')" by (subst fr(3), simp)
  show ?thesis
    unfolding at_header_field_eq [OF L1] at_header_field_eq [OF L'(1)]
  proof (rule rel_header_field_tail [OF rel_after_loop [OF assms(1) L'(2) pd(1) pd']])
    fix j assume "marks (l\<lparr>parser := q, pos := length (pre @ ys) - length rest, cur := if rest = [] then last (pre @ ys) else hd rest\<rparr>) For_header_field = Some j"
    then have "j \<le> pos l" using local_inv_le [OF assms(2), of For_header_field j] by simp
    then show "j \<le> pos (l\<lparr>parser := q, pos := length (pre @ ys) - length rest, cur := if rest = [] then last (pre @ ys) else hd rest\<rparr>)"
      using fr(1) assms(4) s(4) by simp
  qed (use fr(1) assms(4) local_inv_only [OF assms(2), of For_header_field] assms(2,3) pd(2)
      in \<open>auto simp: local_inv_def\<close>)
qed

lemma rel_count_any:
  assumes "\<And>n n'. orel emit pre (f (l\<lparr>parser := (parser l)\<lparr>nread := n\<rparr>\<rparr>)) (f' (l'\<lparr>parser := (parser l')\<lparr>nread := n'\<rparr>\<rparr>))"
  shows "orel emit pre (count_header_size k l f) (count_header_size k' l' f')"
  using assms by (simp add: count_header_size_def upd_parser_def fail_with_def Let_def) (simp add: orel_def overflow_def)

lemma rel_header_value_tail:
  assumes r: "rel emit pre (upd_parser (\<lambda>q. q\<lparr>header_state := h\<rparr>) l) (upd_parser (\<lambda>q. q\<lparr>header_state := h\<rparr>) l')"
    and o: "http_errno (parser l) = HPE_OK" and only: "\<And>G. G \<noteq> For_header_value \<Longrightarrow> marks l G = None"
    and le: "\<And>j. marks l For_header_value = Some j \<Longrightarrow> j \<le> pos l" and p: "0 < pos l' \<or> e \<noteq> VEnd"
  shows "orel emit pre (header_value_tail S (pre @ ys) k e h l) (header_value_tail S ys k' e h l')"
proof -
  let ?set_h = "upd_parser (\<lambda>q. q\<lparr>header_state := h\<rparr>) :: 'w local \<Rightarrow> 'w local"
  have sh: "rel emit pre (?set_h l2) (?set_h l2')" if "rel emit pre l2 l2'" for l2 l2'
    by (rule rel_upd_parser [OF that]) (simp_all add: same_core_def)
  have s: "pos l = length pre + pos l'" using rel_simps(4) [OF r] by simp
  show ?thesis
  proof (cases e)
    case VEnd
    show ?thesis unfolding header_value_tail_def Let_def VEnd value_end.case
    proof (rule rel_count [OF r], goal_cases)
      case (1 n n')
      then show ?case using p VEnd s by (simp add: rel_def)
    qed
  next
    case VCr
    have r2: "rel emit pre (?set_h (update_state s_header_almost_done l)) (?set_h (update_state s_header_almost_done l'))"
      using r by (simp add: rel_def same_core_def update_state_def upd_parser_def)
    show ?thesis unfolding header_value_tail_def Let_def VCr value_end.case
    proof (rule rel_data [OF r2], goal_cases)
      case (5 l2 l2')
      show ?case by (rule rel_count [OF sh [OF 5(1)]]) simp
    qed (use o only le s in simp_all)
  next
    case VLf
    show ?thesis unfolding header_value_tail_def Let_def VLf value_end.case
    proof (rule rel_count_any, goal_cases)
      case (1 n n')
      have "rel emit pre (?set_h ((update_state s_header_almost_done l)\<lparr>parser := (parser (update_state s_header_almost_done l))\<lparr>nread := n\<rparr>\<rparr>))
          (?set_h ((update_state s_header_almost_done l')\<lparr>parser := (parser (update_state s_header_almost_done l'))\<lparr>nread := n'\<rparr>\<rparr>))"
        using r by (simp add: rel_def same_core_def update_state_def upd_parser_def)
      then show ?case by (rule rel_data) (use o only le s in simp_all)
    qed
  next
    case VInvalid
    then show ?thesis using s by (simp add: header_value_tail_def)
  qed
qed

lemma rel_set_h: "rel emit pre l l' \<Longrightarrow> rel emit pre (upd_parser (\<lambda>q. q\<lparr>header_state := h\<rparr>) l) (upd_parser (\<lambda>q. q\<lparr>header_state := h\<rparr>) l')"
  by (rule rel_upd_parser) (simp_all add: same_core_def)

lemma rel_header_value:
  assumes "rel emit pre l l'" "local_inv l" "p_state l = s_header_value" "pos l' < length ys"
  shows "orel emit pre (at_header_value S (pre @ ys) l) (at_header_value S ys l')"
proof -
  note s = rel_simps [OF assms(1)]
  obtain e rest h q where L: "header_value_loop (drop (pos l') ys) (header_state (parser l)) (parser l) = (e, rest, h, q)"
    by (metis prod_cases4)
  then have L1: "header_value_loop (drop (pos l) (pre @ ys)) (header_state (parser l)) (parser l) = (e, rest, h, q)" by (simp add: s)
  obtain q' where L': "header_value_loop (drop (pos l') ys) (header_state (parser l')) (parser l') = (e, rest, h, q')" "same_core q q'"
    using same_core_value_loop [OF _ L, of "parser l'"] assms(1) s(7) by (auto simp: rel_def)
  note fr = header_value_loop_frame [OF L] header_value_loop_frame [OF L'(1)]
  have q: "q = (parser l)\<lparr>index := index q, flags := flags q, content_length := content_length q\<rparr>"
      "q' = (parser l')\<lparr>index := index q', flags := flags q', content_length := content_length q'\<rparr>" and le: "length rest \<le> length ys - pos l'"
    using fr by simp_all
  have pd: "pdata q = pdata (parser l)" "http_errno q = http_errno (parser l)" by (subst q(1), simp)+
  have pd': "pdata q' = pdata (parser l')" by (subst q(2), simp)
  show ?thesis
    unfolding at_header_value_eq [OF L1] at_header_value_eq [OF L'(1)]
  proof (rule rel_header_value_tail [OF rel_set_h [OF rel_after_loop [OF assms(1) L'(2) pd(1) pd']]])
    fix j assume "marks (l\<lparr>parser := q, pos := length (pre @ ys) - length rest, cur := if rest = [] then last (pre @ ys) else hd rest\<rparr>) For_header_value = Some j"
    then have "j \<le> pos l" using local_inv_le [OF assms(2), of For_header_value j] by simp
    then show "j \<le> pos (l\<lparr>parser := q, pos := length (pre @ ys) - length rest, cur := if rest = [] then last (pre @ ys) else hd rest\<rparr>)"
      using le assms(4) s(4) by simp
  next
    show "0 < pos (l'\<lparr>parser := q', pos := length ys - length rest, cur := if rest = [] then last ys else hd rest\<rparr>) \<or> e \<noteq> VEnd"
      using fr assms(4) by auto
  qed (use le assms(4) local_inv_only [OF assms(2), of For_header_value] assms(2,3) pd(2)
      in \<open>auto simp: local_inv_def\<close>)
qed

end

end
