(* ===== verification/HttpParserCut.thy ===== *)
theory HttpParserCut
  imports HttpParserSplit
begin

text \<open>
  The lockstep continued (the handlers of bodies, the step, the loop, the end of the buffer), and
  the step at which the first part of a buffer ends: the handlers that loop over the buffer are cut
  there, and the handler called on the rest finishes their work.
\<close>

section \<open>Bodies\<close>

text \<open>A body mark is set again by the handler when a buffer starts inside a body.\<close>

definition rel0 :: "(data_field \<Rightarrow> byte list \<Rightarrow> 'w \<Rightarrow> 'w) \<Rightarrow> byte list \<Rightarrow> 'w local \<Rightarrow> 'w local \<Rightarrow> bool" where
  "rel0 emit pre l l' \<longleftrightarrow> rel emit pre l l' \<or> (marks l' For_body = None \<and> pos l' = 0 \<and> p_state l' \<in> mark_states For_body
     \<and> (\<exists>m. marks l For_body = Some m \<and> m < length pre) \<and> rel emit pre l (mark_field For_body l'))"

lemma mark_field_sel [simp]: "cur (mark_field F l) = cur l" "pos (mark_field F l) = pos l" "p_state (mark_field F l) = p_state l"
    "parser (mark_field F l) = parser l" "mark_field F (mark_field F l) = mark_field F l" "marks (mark_field F l) F \<noteq> None"
  by (simp_all add: mark_field_def)

lemma take_body_mark: "take_body buf (mark_field For_body l) k = take_body buf l k"
  unfolding take_body_def mark_field_sel Let_def ..

text \<open>The results of two related calls.\<close>

definition result_rel :: "byte list \<Rightarrow> nat \<times> 'w http_parser \<Rightarrow> nat \<times> 'w http_parser \<Rightarrow> bool" where
  "result_rel pre r r' \<longleftrightarrow> (case r of (n, q) \<Rightarrow> case r' of (n', q') \<Rightarrow>
     http_errno q = HPE_HEADER_OVERFLOW \<or> http_errno q' = HPE_HEADER_OVERFLOW
     \<or> n = length pre + n' \<and> http_errno q' = http_errno q \<and> (http_errno q = HPE_OK \<longrightarrow> same_parser q q'))"

definition runs_rel :: "byte list \<Rightarrow> (nat \<times> 'w http_parser) option \<Rightarrow> (nat \<times> 'w http_parser) option \<Rightarrow> bool" where
  "runs_rel pre x y \<longleftrightarrow> (\<exists>r r'. x = Some r \<and> y = Some r' \<and> result_rel pre r r')"

text \<open>
  The step on a buffer, against the step on its first part: the same, or the part ends inside a
  loop and the step on the rest finishes it. The current byte of the two runs may then differ
  (\<open>with_cur\<close>), which only the end of a message, where it is not read, can see.
\<close>

fun with_cur :: "byte \<Rightarrow> 'w outcome \<Rightarrow> 'w outcome" where
  "with_cur c (Break l) = Break (l\<lparr>cur := c\<rparr>)"
| "with_cur c (Reexecute l) = Reexecute (l\<lparr>cur := c\<rparr>)"
| "with_cur c r = r"

definition crosses :: "(data_field \<Rightarrow> byte list \<Rightarrow> 'w \<Rightarrow> 'w) \<Rightarrow> byte list \<Rightarrow> state \<Rightarrow> ('w local \<Rightarrow> 'w outcome) \<Rightarrow> 'w outcome \<Rightarrow> 'w outcome \<Rightarrow> bool" where
  "crosses emit xs s f R r \<longleftrightarrow> R = r \<or> overflow r \<or> (\<exists>l1. r = Break l1 \<and> pos l1 = length xs - 1 \<and> p_state l1 = s
     \<and> (\<forall>c l2. rel0 emit xs (l1\<lparr>pos := length xs, cur := c\<rparr>) l2 \<longrightarrow> pos l2 = 0 \<longrightarrow>
        orel emit xs R (f l2) \<or> (\<exists>c'. orel emit xs (with_cur c' R) (f l2) \<and> (\<forall>l. R = Reexecute l \<longrightarrow> p_state l = s_message_done))))"

lemma value_char_state:
  "header_value_char c h (q\<lparr>header_state := z\<rparr>) = map_option (\<lambda>(h, q). (h, q\<lparr>header_state := z\<rparr>)) (header_value_char c h q)"
  by (cases h) (simp_all add: header_value_char_def Let_def)

lemma value_loop_state:
  "header_value_loop xs h (q\<lparr>header_state := z\<rparr>) = (case header_value_loop xs h q of (e, r, h1, q1) \<Rightarrow> (e, r, h1, q1\<lparr>header_state := z\<rparr>))"
proof (induction xs h q rule: header_value_loop.induct)
  case (2 ch xs h q)
  consider "ch = CR" | "ch = LF" | "ch \<noteq> CR" "ch \<noteq> LF" "h = h_general" | "ch \<noteq> CR" "ch \<noteq> LF" "h \<noteq> h_general" by blast
  then show ?case
  proof cases
    case 4
    show ?thesis
    proof (cases "header_value_char ch h q")
      case (Some a)
      obtain h1 q1 where a: "a = (h1, q1)" by fastforce
      show ?thesis using 2(2) [OF 4 Some a [symmetric]] 4 Some a by (simp add: value_char_state)
    qed (use 4 in \<open>simp add: value_char_state\<close>)
  qed (use 2 in simp_all)
qed simp

context streaming_callbacks
begin

lemma rel_take_body:
  assumes r: "rel emit pre l l'" and c: "content_length (parser l) \<noteq> 0" and p: "pos l' < length ys" and len: "length (pre @ ys) < 2 ^ 64"
    and k: "\<And>l2 l2'. rel emit pre l2 l2' \<Longrightarrow> marks l2 = marks (mark_field For_body l) \<Longrightarrow> pos l \<le> pos l2 \<Longrightarrow> http_errno (parser l2) = http_errno (parser l) \<Longrightarrow> orel emit pre (k l2) (k' l2')"
  shows "orel emit pre (take_body (pre @ ys) l k) (take_body ys l' k')"
proof -
  note s = rel_simps [OF r]
  let ?t = "min (content_length (parser l)) (of_nat (length ys - pos l'))"
  have d: "length (pre @ ys) - pos l = length ys - pos l'" by (simp add: s(4))
  have t: "0 < unat ?t" using take_body_pos(1) [of l' ys] p len c by simp
  let ?g = "\<lambda>l :: 'w local. upd_parser (\<lambda>q. q\<lparr>content_length := content_length q - ?t\<rparr>) ((mark_field For_body l)\<lparr>pos := pos l + unat ?t - 1\<rparr>)"
  have "rel emit pre ((mark_field For_body l)\<lparr>pos := pos l + unat ?t - 1\<rparr>) ((mark_field For_body l')\<lparr>pos := pos l' + unat ?t - 1\<rparr>)"
    using rel_mark_field [OF r, of For_body] t s(4) by (simp add: rel_def)
  then have "rel emit pre (?g l) (?g l')" by (rule rel_upd_parser) (simp_all add: same_core_def)
  moreover have "pos l \<le> pos (?g l)" using t by simp
  ultimately have "orel emit pre (k (?g l)) (k' (?g l'))" by (intro k) simp_all
  moreover have "take_body (pre @ ys) l k = k (?g l)" "take_body ys l' k' = k' (?g l')"
    using t by (simp_all add: take_body_def d s(9) del: length_append) (simp_all add: Let_def)
  ultimately show ?thesis by simp
qed

lemma rel_body_identity:
  assumes "rel emit pre l l'" "local_inv l" "p_state l = s_body_identity" "pos l' < length ys" "length (pre @ ys) < 2 ^ 64"
  shows "orel emit pre (at_body_identity S (pre @ ys) l) (at_body_identity S ys l')"
  unfolding at_body_identity_def
proof (rule rel_take_body [OF assms(1)], goal_cases)
  case (4 l2 l2')
  have only: "marks l2 G = None" if "G \<noteq> For_body" for G
    using local_inv_only [OF assms(2), of For_body G] that assms(3) 4(2) by (simp add: mark_field_def)
  have le: "j \<le> pos l2" if "marks l2 For_body = Some j" for j
    using that local_inv_le [OF assms(2), of For_body j] 4(2,3) by (auto simp: mark_field_def split: if_splits)
  have "orel emit pre (callback_data For_body (pos l2 + 1) (pos l2) S (pre @ ys) (update_state s_message_done l2) Reexecute)
     (callback_data For_body (pos l2' + 1) (pos l2') S ys (update_state s_message_done l2') Reexecute)"
    by (rule rel_data [OF rel_update_state [OF 4(1)]])
      (use only le 4(4) assms(2) rel_simps(4) [OF 4(1)] in \<open>auto simp: local_inv_def dest: le_SucI\<close>)
  then show ?case using 4(1) by (simp add: rel_simps(9) [OF 4(1)])
qed (use assms in \<open>simp_all add: inv_defs\<close>)

lemma rel_chunk_data:
  assumes "rel emit pre l l'" "local_inv l" "p_state l = s_chunk_data" "pos l' < length ys" "length (pre @ ys) < 2 ^ 64"
  shows "orel emit pre (at_chunk_data (pre @ ys) l) (at_chunk_data ys l')"
  unfolding at_chunk_data_def
proof (rule rel_take_body [OF assms(1)], goal_cases)
  case (4 l2 l2')
  then show ?case by (simp add: rel_simps(9) [OF 4(1)])
qed (use assms in \<open>simp_all add: inv_defs\<close>)

lemma rel_body_identity_eof:
  assumes "rel emit pre l l'" "pos l' < length ys"
  shows "orel emit pre (at_body_identity_eof (pre @ ys) l) (at_body_identity_eof ys l')"
  using rel_mark_field [OF assms(1), of For_body] assms(2) by (simp add: at_body_identity_eof_def rel_def)

lemmas rel_handlers = rel_dead rel_start_req_or_res rel_res_or_resp_H rel_start_res rel_res_H rel_res_HT rel_res_HTT rel_res_HTTP
  rel_res_first_http_major rel_res_http_major rel_res_first_http_minor rel_res_http_minor rel_res_first_status_code
  rel_res_status_code rel_res_status_start rel_res_status rel_res_line_almost_done rel_start_req rel_req_method
  rel_req_spaces_before_url rel_req_schema rel_req_url rel_req_http_start rel_req_http_H rel_req_http_HT rel_req_http_HTT
  rel_req_http_HTTP rel_req_first_http_major rel_req_http_major rel_req_first_http_minor rel_req_http_minor
  rel_req_line_almost_done rel_header_field_start rel_header_field rel_header_value_discard_ws
  rel_header_value_discard_ws_almost_done rel_header_value_discard_lws rel_header_value_start rel_header_value
  rel_header_value_lws rel_header_almost_done rel_chunk_size_start rel_chunk_size rel_chunk_parameters
  rel_chunk_size_almost_done rel_headers_almost_done rel_headers_done rel_chunk_data_almost_done
  rel_chunk_data_done rel_body_identity_eof rel_message_done

lemma rel_step:
  assumes "rel emit pre l l'" "local_inv l" "pos l' < length ys" "length (pre @ ys) < 2 ^ 64"
  shows "orel emit pre (step S (pre @ ys) l) (step S ys l')"
  unfolding step_def rel_simps(2) [OF assms(1)]
  by (cases "p_state l") (simp_all add: rel_handlers rel_chunk_data [OF _ _ _ _ assms(4)] rel_body_identity [OF _ _ _ _ assms(4)]
      assms(1-3) url_states_def)

lemma step_mark_body: "p_state l \<in> {s_body_identity, s_body_identity_eof, s_chunk_data} \<Longrightarrow> step S buf (mark_field For_body l) = step S buf l"
  by (auto simp: step_def at_body_identity_def at_body_identity_eof_def at_chunk_data_def take_body_mark)

lemma rel0_step:
  assumes "rel0 emit pre l l'" "local_inv l" "pos l' < length ys" "length (pre @ ys) < 2 ^ 64"
  shows "orel emit pre (step S (pre @ ys) l) (step S ys l')"
proof (cases "rel emit pre l l'")
  case True
  then show ?thesis by (rule rel_step [OF _ assms(2-4)])
next
  case False
  then obtain m where z: "marks l' For_body = None" "pos l' = 0" "p_state l' \<in> mark_states For_body" "marks l For_body = Some m" "m < length pre"
    and r: "rel emit pre l (mark_field For_body l')"
    using assms(1) by (auto simp: rel0_def)
  show ?thesis
  proof (cases "p_state l' = s_chunk_data_almost_done")
    case False
    then have "step S ys (mark_field For_body l') = step S ys l'" using z(3) by (intro step_mark_body) auto
    then show ?thesis using rel_step [OF r assms(2) _ assms(4)] assms(3) by simp
  next
    case True
    note s = rel_simps [OF r]
    have p: "p_state l = s_chunk_data_almost_done" "pos l = length pre" using True s(2,4) z(2) by simp_all
    have o: "http_errno (parser (update_state s_chunk_data_done l)) = HPE_OK" using assms(2) by (simp add: local_inv_def)
    have only: "marks l G = None" if "G \<noteq> For_body" for G
      using local_inv_only [OF assms(2), of For_body G] that p by simp
    then have nm: "((marks l)(For_body := None)) G = None" for G by simp
    have ml: "marks l' = (\<lambda>_. None)"
    proof
      fix G show "marks l' G = None" using s(3) only z(1) by (cases "G = For_body") (auto simp: mark_field_def fun_eq_iff split: if_splits)
    qed
    obtain t where d: "callback_data For_body (pos l) (pos l + 1) S (pre @ ys) (update_state s_chunk_data_done l) Break
        = Break ((update_state s_chunk_data_done l)\<lparr>parser := (parser l)\<lparr>state := t, pdata := emit For_body (slice m (pos l - m) (pre @ ys)) (pdata (parser l))\<rparr>,
            marks := (marks l)(For_body := None)\<rparr>)"
      using data_eq [OF o, of For_body "pos l" "pos l + 1" "pre @ ys" Break] z(4) by auto
    have "slice m (pos l - m) (pre @ ys) = drop m pre" using z(5) p(2) by (simp add: slice_def)
    moreover have "pdata (parser l') = emit For_body (drop m pre) (pdata (parser l))"
      using r z(4,5) by (simp add: rel_def pending_def)
    ultimately have "rel emit pre ((update_state s_chunk_data_done l)\<lparr>parser := (parser l)\<lparr>state := t, pdata := emit For_body (slice m (pos l - m) (pre @ ys)) (pdata (parser l))\<rparr>,
            marks := (marks l)(For_body := None)\<rparr>) (update_state s_chunk_data_done l')"
      using r p z(2) nm ml by (simp add: rel_def same_core_def pending_def shift_marks_def fun_eq_iff)
    then have "orel emit pre (callback_data For_body (pos l) (pos l + 1) S (pre @ ys) (update_state s_chunk_data_done l) Break)
        (callback_data For_body (pos l') (pos l' + 1) S ys (update_state s_chunk_data_done l') Break)"
      unfolding d using z(1) by (simp add: callback_data_def)
    moreover have "cur l' = cur l" "orel emit pre (fail_with HPE_STRICT l) (fail_with HPE_STRICT l')" using s(1,4) by simp_all
    ultimately show ?thesis using p True by (simp add: step_def at_chunk_data_almost_done_def strict_check_def)
  qed
qed


section \<open>The end of a buffer\<close>

definition finish_pre :: "nat \<Rightarrow> 'w local \<Rightarrow> bool" where
  "finish_pre n l \<longleftrightarrow> http_errno (parser l) = HPE_OK \<and> (\<exists>F. \<forall>G. G \<noteq> F \<longrightarrow> marks l G = None) \<and> (\<forall>G j. marks l G = Some j \<longrightarrow> j \<le> n)"

lemma rel_finish_field:
  assumes r: "rel emit pre l l'" and p: "finish_pre (length (pre @ ys)) l"
    and k: "\<And>l2 l2'. rel emit pre l2 l2' \<Longrightarrow> finish_pre (length (pre @ ys)) l2 \<Longrightarrow> marks l2 = (marks l)(F := None) \<Longrightarrow> orel emit pre (k l2) (k' l2')"
  shows "orel emit pre (callback_data F (length (pre @ ys)) (length (pre @ ys)) S (pre @ ys) l k) (callback_data F (length ys) (length ys) S ys l' k')"
proof (cases "marks l F")
  case None
  then have "marks l' F = None" by (simp add: rel_simps [OF r])
  moreover have "marks l = (marks l)(F := None)" using None by (simp add: fun_upd_idem)
  ultimately show ?thesis using None k [OF r p] by (simp add: callback_data_def)
next
  case (Some j)
  then have only: "marks l G = None" if "G \<noteq> F" for G
    using p that by (metis finish_pre_def option.distinct(1))
  show ?thesis
  proof (rule rel_data [OF r _ only], goal_cases)
    case (5 l2 l2')
    have "finish_pre (length (pre @ ys)) l2" using 5 only by (auto simp: finish_pre_def)
    then show ?case using 5 k by blast
  qed (use p Some in \<open>auto simp: finish_pre_def\<close>)
qed

lemma rel_finish_marks:
  assumes r: "rel emit pre l l'" and p: "finish_pre (length (pre @ ys)) l"
  shows "orel emit pre (finish_marks S (pre @ ys) l) (finish_marks S ys l')"
proof -
  have last: "orel emit pre (Return (length (pre @ ys)) (upd_parser (\<lambda>q. q\<lparr>state := p_state l2\<rparr>) l2)) (Return (length ys) (upd_parser (\<lambda>q. q\<lparr>state := p_state l2'\<rparr>) l2'))"
    if "rel emit pre l2 l2'" "\<forall>F. marks l2 F = None" for l2 l2'
    using that by (simp add: orel_def rel_def same_parser_def same_core_def pending_def)
  show ?thesis
    unfolding finish_marks_def Let_def
    by (rule rel_finish_field [OF r p], (rule rel_finish_field, assumption, assumption)+, rule last, assumption) (simp add: all_data_field)
qed

lemma local_inv_finish_pre: "local_inv l \<Longrightarrow> pos l \<le> n \<Longrightarrow> finish_pre n l"
proof -
  assume a: "local_inv l" "pos l \<le> n"
  have "\<exists>F. \<forall>G. G \<noteq> F \<longrightarrow> marks l G = None"
  proof (cases "\<exists>F. p_state l \<in> mark_states F")
    case True
    then show ?thesis using local_inv_only [OF a(1)] by blast
  next
    case False
    then show ?thesis using marks_clear [OF a(1)] by blast
  qed
  then show ?thesis using a local_inv_le [OF a(1)] by (fastforce simp: finish_pre_def local_inv_def)
qed

lemma rel_next_byte:
  assumes "rel emit pre l l'" "local_inv l" "pos l' \<le> length ys"
  shows "orel emit pre (next_byte S (pre @ ys) l) (next_byte S ys l')"
proof (cases "pos l' = length ys")
  case True
  then show ?thesis
    using rel_finish_marks [OF assms(1) local_inv_finish_pre [OF assms(2)], of ys] rel_simps(4) [OF assms(1)] by (simp add: next_byte_def)
next
  case False
  then have p: "pos l \<noteq> length (pre @ ys)" "pos l' \<noteq> length ys" "(pre @ ys) ! pos l = ys ! pos l'"
    using rel_simps(4) [OF assms(1)] by simp_all
  have r: "rel emit pre (l\<lparr>cur := c\<rparr>) (l'\<lparr>cur := c\<rparr>)" for c using assms(1) by (simp add: rel_def)
  show ?thesis
    unfolding next_byte_def if_not_P [OF p(1)] if_not_P [OF p(2)] Let_def p(3)
    by (simp add: rel_simps(2) [OF assms(1)] r) (auto intro: rel_count [OF r])
qed

lemma run_outcome:
  assumes "good (length buf) l r" "length buf < 2 ^ 64"
  shows "\<exists>x. run S buf r = Some x"
proof (cases r)
  case (Break l')
  then have l': "local_inv (l'\<lparr>pos := pos l' + 1\<rparr>)" "pos (l'\<lparr>pos := pos l' + 1\<rparr>) \<le> length buf"
    using assms local_inv_pos [of l' "pos l' + 1"] by auto
  have "\<exists>x. run S buf (next_byte S buf (l'\<lparr>pos := pos l' + 1\<rparr>)) = Some x"
    using next_byte_ok [OF l']
  proof (elim disjE exE conjE)
    fix l2 assume "next_byte S buf (l'\<lparr>pos := pos l' + 1\<rparr>) = Reexecute l2" "local_inv l2" "pos l2 = pos (l'\<lparr>pos := pos l' + 1\<rparr>)"
      "pos (l'\<lparr>pos := pos l' + 1\<rparr>) < length buf"
    then show ?thesis using run_ok [OF assms(2), of l2] by auto
  qed (auto simp: run_Return run_Goto_error finish_ok_def)
  then show ?thesis by (simp add: Break run_Break)
next
  case (Reexecute l')
  then show ?thesis using assms run_ok [OF assms(2), of l'] by auto
qed (use assms in \<open>auto simp: run_Return run_Goto_error\<close>)

lemma overflow_result: "overflow r \<Longrightarrow> \<exists>n q. run S buf r = Some (n, q) \<and> http_errno q = HPE_HEADER_OVERFLOW"
  by (auto simp: overflow_def run_Goto_error)

text \<open>Related outcomes lead to related results, when the relation continues at the next step.\<close>

lemma runs_rel_orel:
  assumes o: "orel emit pre r r'" and x: "run S buf r = Some x" and y: "run S buf' r' = Some y"
    and b: "\<And>l l'. r = Break l \<Longrightarrow> r' = Break l' \<Longrightarrow> rel emit pre l l' \<Longrightarrow> runs_rel pre (Some x) (Some y)"
    and e: "\<And>l l'. r = Reexecute l \<Longrightarrow> r' = Reexecute l' \<Longrightarrow> rel emit pre l l' \<Longrightarrow> runs_rel pre (Some x) (Some y)"
  shows "runs_rel pre (Some x) (Some y)"
proof -
  have ov: "overflow r \<Longrightarrow> runs_rel pre (Some x) (Some y)" "overflow r' \<Longrightarrow> runs_rel pre (Some x) (Some y)"
    using overflow_result [of r buf] overflow_result [of r' buf'] x y by (auto simp: runs_rel_def result_rel_def split: prod.splits)
  show ?thesis
  proof (cases "overflow r \<or> overflow r'")
    case False
    then have "outcome_rel emit pre r r'" using o by (simp add: orel_def)
    then show ?thesis
    proof (cases r)
      case (Break l)
      then show ?thesis using \<open>outcome_rel emit pre r r'\<close> b by (cases r') auto
    next
      case (Reexecute l)
      then show ?thesis using \<open>outcome_rel emit pre r r'\<close> e by (cases r') auto
    next
      case (Goto_error l)
      then show ?thesis using \<open>outcome_rel emit pre r r'\<close> x y
        by (cases r') (auto simp: run_Goto_error runs_rel_def result_rel_def)
    next
      case (Return n l)
      then show ?thesis using \<open>outcome_rel emit pre r r'\<close> x y
        by (cases r') (auto simp: run_Return runs_rel_def result_rel_def)
    next
      case Undefined
      then show ?thesis using x by (simp add: run.simps)
    qed
  qed (use ov in blast)
qed


lemma run_rel:
  assumes "length (pre @ ys) < 2 ^ 64"
  shows "local_inv l \<Longrightarrow> local_inv l' \<Longrightarrow> pos l' < length ys \<Longrightarrow> rel0 emit pre l l' \<Longrightarrow>
     runs_rel pre (run S (pre @ ys) (Reexecute l)) (run S ys (Reexecute l'))"
proof (induction "5 * (length (pre @ ys) - pos l) + rank (p_state l)" arbitrary: l l' rule: less_induct)
  case less
  have len: "length ys < 2 ^ 64" using assms by simp
  have "pos l = length pre + pos l'" using less.prems(4) by (auto simp: rel0_def dest: rel_simps(4))
  then have p: "pos l < length (pre @ ys)" using less.prems(3) by simp
  have g: "good (length (pre @ ys)) l (step S (pre @ ys) l)" by (rule step_good [OF less.prems(1) p assms])
  have g': "good (length ys) l' (step S ys l')" by (rule step_good [OF less.prems(2,3) len])
  obtain x y where x: "run S (pre @ ys) (step S (pre @ ys) l) = Some x" and y: "run S ys (step S ys l') = Some y"
    using run_outcome [OF g assms] run_outcome [OF g' len] by blast
  have "runs_rel pre (Some x) (Some y)"
  proof (rule runs_rel_orel [OF rel0_step [OF less.prems(4,1,3) assms] x y])
    fix l2 l2' assume s: "step S (pre @ ys) l = Reexecute l2" "step S ys l' = Reexecute l2'" and r: "rel emit pre l2 l2'"
    have g2: "local_inv l2" "pos l \<le> pos l2" "rank (p_state l2) < rank (p_state l)" "local_inv l2'" "pos l2' < length ys"
      using g g' s by simp_all
    have "5 * (length (pre @ ys) - pos l2) + rank (p_state l2) < 5 * (length (pre @ ys) - pos l) + rank (p_state l)"
      using g2(3) diff_le_mono2 [OF g2(2), of "length (pre @ ys)"] by linarith
    moreover have "rel0 emit pre l2 l2'" using r by (simp add: rel0_def)
    ultimately show "runs_rel pre (Some x) (Some y)" using less.hyps [OF _ g2(1,4,5)] x y s by simp
  next
    fix l2 l2' assume s: "step S (pre @ ys) l = Break l2" "step S ys l' = Break l2'" and r: "rel emit pre l2 l2'"
    have g2: "local_inv l2" "pos l \<le> pos l2" "pos l2 < length (pre @ ys)" "local_inv l2'" "pos l2' < length ys"
      using g g' s by simp_all
    let ?n = "l2\<lparr>pos := pos l2 + 1\<rparr>" and ?n' = "l2'\<lparr>pos := pos l2' + 1\<rparr>"
    have n: "local_inv ?n" "local_inv ?n'" "pos ?n' \<le> length ys" "pos ?n \<le> length (pre @ ys)" "rel emit pre ?n ?n'"
      using g2 r local_inv_pos [OF g2(1), of "pos l2 + 1"] local_inv_pos [OF g2(4), of "pos l2' + 1"] by (simp_all add: rel_def)
    have xy: "run S (pre @ ys) (next_byte S (pre @ ys) ?n) = Some x" "run S ys (next_byte S ys ?n') = Some y"
      using x y s by (simp_all add: run_Break)
    show "runs_rel pre (Some x) (Some y)"
    proof (rule runs_rel_orel [OF rel_next_byte [OF n(5,1,3)] xy])
      fix l3 l3' assume s3: "next_byte S (pre @ ys) ?n = Reexecute l3" "next_byte S ys ?n' = Reexecute l3'" and r3: "rel emit pre l3 l3'"
      have l3: "local_inv l3 \<and> pos l3 = pos l2 + 1 \<and> pos l3 < length (pre @ ys)" "local_inv l3' \<and> pos l3' < length ys"
        using next_byte_ok [OF n(1,4)] next_byte_ok [OF n(2,3)] s3 by (auto simp: finish_ok_def)
      have "5 * (length (pre @ ys) - pos l3) + rank (p_state l3) < 5 * (length (pre @ ys) - pos l) + rank (p_state l)"
        using l3(1) g2(2) rank_le [of "p_state l3"] by linarith
      moreover have "rel0 emit pre l3 l3'" using r3 by (simp add: rel0_def)
      ultimately show "runs_rel pre (Some x) (Some y)" using less.hyps [of l3 l3'] l3 xy s3 by simp
    next
      fix l3 l3' assume "next_byte S (pre @ ys) ?n = Break l3"
      then show "runs_rel pre (Some x) (Some y)" using next_byte_ok [OF n(1,4)] by (auto simp: finish_ok_def)
    qed
  qed
  then show ?case using x y by (simp add: run_Reexecute)
qed

section \<open>Cutting a buffer\<close>

lemma data_None: "marks l F = None \<Longrightarrow> callback_data F e m S buf l k = k l"
  by (simp add: callback_data_def)

lemma data_Some:
  assumes "http_errno (parser l) = HPE_OK" "marks l F = Some j"
  shows "callback_data F e m S buf l k = k (l\<lparr>parser := (parser l)\<lparr>state := (if on_data F S = None then state (parser l) else p_state l),
     pdata := emit F (slice j (e - j) buf) (pdata (parser l))\<rparr>, marks := (marks l)(F := None)\<rparr>)"
proof (cases "on_data F S")
  case None
  then show ?thesis by (simp add: callback_data_def assms no_data)
next
  case g: (Some g)
  have "l\<lparr>parser := q, p_state := p_state l\<rparr> = l\<lparr>parser := q\<rparr>" for q by simp
  then show ?thesis by (simp add: callback_data_def assms g data_law [OF g] Let_def)
qed

lemma finish_marks_eq:
  assumes "finish_pre (length xs) l"
  shows "\<exists>w. finish_marks S xs l = Return (length xs) (l\<lparr>parser := (parser l)\<lparr>state := p_state l, pdata := w\<rparr>, marks := (\<lambda>_. None)\<rparr>)
     \<and> (\<forall>F j. marks l F = Some j \<longrightarrow> w = emit F (drop j xs) (pdata (parser l))) \<and> ((\<forall>F. marks l F = None) \<longrightarrow> w = pdata (parser l))"
proof (cases "\<forall>F. marks l F = None")
  case True
  then have "marks l = (\<lambda>_. None)" by auto
  then have "finish_marks S xs l = Return (length xs) (l\<lparr>parser := (parser l)\<lparr>state := p_state l, pdata := pdata (parser l)\<rparr>, marks := (\<lambda>_. None)\<rparr>)"
    by (simp add: finish_marks_def Let_def data_None upd_parser_def)
  then show ?thesis using True by auto
next
  case False
  then obtain F j where j: "marks l F = Some j" by auto
  then have n: "marks l G = None" if "G \<noteq> F" for G using assms that by (metis finish_pre_def option.distinct(1))
  have o: "http_errno (parser l) = HPE_OK" using assms by (simp add: finish_pre_def)
  have m: "(marks l)(F := None) = (\<lambda>_. None)" using n by auto
  have sl: "slice j (length xs - j) xs = drop j xs" by (simp add: slice_def)
  have "finish_marks S xs l = Return (length xs) (l\<lparr>parser := (parser l)\<lparr>state := p_state l, pdata := emit F (drop j xs) (pdata (parser l))\<rparr>, marks := (\<lambda>_. None)\<rparr>)"
    unfolding finish_marks_def Let_def
    by (cases F) (use j n m in \<open>simp_all add: data_None data_Some [OF o] sl upd_parser_def\<close>)
  moreover have "w = emit F (drop j xs) (pdata (parser l))" if "marks l G = Some i" "w = emit F (drop j xs) (pdata (parser l))" for G i w using that by simp
  moreover have "G = F \<and> i = j" if "marks l G = Some i" for G i using that n j by (cases "G = F") auto
  ultimately show ?thesis using False by blast
qed

lemma start_marks_of: "s \<in> mark_states F \<Longrightarrow> F \<noteq> For_body \<Longrightarrow> start_marks s F = Some 0" "start_marks s For_body = None"
  by (cases F; auto simp: start_marks_def url_states_def)+

lemma cut_finish:
  assumes "local_inv l" "pos l = length xs" "\<And>F j. marks l F = Some j \<Longrightarrow> j < length xs"
  shows "\<exists>l3. finish_marks S xs l = Return (length xs) l3 \<and> rel0 emit xs (l\<lparr>cur := 0\<rparr>) (init_local (parser l3)) \<and> local_inv (init_local (parser l3))
     \<and> http_errno (parser l3) = HPE_OK"
proof -
  obtain w where f: "finish_marks S xs l = Return (length xs) (l\<lparr>parser := (parser l)\<lparr>state := p_state l, pdata := w\<rparr>, marks := (\<lambda>_. None)\<rparr>)"
    and w: "\<And>F j. marks l F = Some j \<Longrightarrow> w = emit F (drop j xs) (pdata (parser l))" "(\<forall>F. marks l F = None) \<Longrightarrow> w = pdata (parser l)"
    using finish_marks_eq [OF local_inv_finish_pre [OF assms(1)], of xs] assms(2) by auto
  let ?q = "(parser l)\<lparr>state := p_state l, pdata := w\<rparr>"
  have iv: "local_inv (init_local ?q)"
    by (rule init_local_inv) (use assms(1) in \<open>simp_all add: local_inv_def parser_inv_def\<close>)
  have pend: "pending emit xs (marks l) (pdata (parser l)) w" using w assms(3) by (auto simp: pending_def)
  have mk: "start_marks (p_state l) F = shift_marks (length xs) (marks l) F" if "F \<noteq> For_body" for F
  proof (cases "marks l F")
    case None
    then show ?thesis using assms(1) by (auto simp: shift_marks_def local_inv_def marks_inv_def)
  next
    case (Some j)
    then have "p_state l \<in> mark_states F" using assms(1) by (auto simp: local_inv_def marks_inv_def)
    then show ?thesis using Some assms(3) [OF Some] start_marks_of(1) [OF _ that] by (simp add: shift_marks_def)
  qed
  have "rel0 emit xs (l\<lparr>cur := 0\<rparr>) (init_local ?q)"
  proof (cases "marks l For_body")
    case None
    have "start_marks (p_state l) F = shift_marks (length xs) (marks l) F" for F
      by (cases "F = For_body") (use mk None start_marks_of(2) in \<open>simp_all add: shift_marks_def\<close>)
    then have "start_marks (p_state l) = shift_marks (length xs) (marks l)" by (rule ext)
    then show ?thesis using assms(2) pend by (simp add: rel0_def rel_def init_local_def same_core_def)
  next
    case (Some j)
    then have ps: "p_state l \<in> mark_states For_body" using assms(1) by (auto simp: local_inv_def marks_inv_def)
    have "(start_marks (p_state l))(For_body \<mapsto> 0) = shift_marks (length xs) (marks l)"
      using mk Some assms(3) [OF Some] by (auto simp: shift_marks_def fun_eq_iff)
    then have "rel emit xs (l\<lparr>cur := 0\<rparr>) (mark_field For_body (init_local ?q))"
      using assms(2) pend start_marks_of(2) by (simp add: rel_def init_local_def same_core_def mark_field_def)
    then show ?thesis using Some assms(3) [OF Some] ps start_marks_of(2) by (simp add: rel0_def init_local_def)
  qed
  then show ?thesis using f iv assms(1) by (simp add: local_inv_def)
qed


text \<open>A handler that ends inside the first part does not see the rest.\<close>

definition loop_states :: "state set" where
  "loop_states = {s_header_field, s_header_value, s_body_identity, s_body_identity_eof, s_chunk_data}"

lemma callback_data_prefix: "e \<le> length xs \<Longrightarrow> callback_data F e m S (xs @ ys) l k = callback_data F e m S xs l k"
proof -
  assume "e \<le> length xs"
  then have "slice j (e - j) (xs @ ys) = slice j (e - j) xs" for j by (cases "j \<le> e") (simp_all add: slice_def)
  then show ?thesis by (cases "marks l F"; cases "on_data F S") (simp_all add: callback_data_def)
qed

lemma step_prefix:
  "pos l < length xs \<Longrightarrow> p_state l \<notin> loop_states \<Longrightarrow> step S (xs @ ys) l = step S xs l"
  by (cases "p_state l") (simp_all add: step_def loop_states_def at_res_status_def at_req_url_def at_header_value_discard_lws_def
      at_chunk_data_almost_done_def callback_data_prefix)

lemma header_field_loop_append:
  "header_field_loop (as @ ys) q = (case header_field_loop as q of (rest, q1) \<Rightarrow> if rest = [] then header_field_loop ys q1 else (rest @ ys, q1))"
  by (induction as q rule: header_field_loop.induct) simp_all

lemma skip_line_append:
  assumes "length (as @ ys) \<le> unat HTTP_MAX_HEADER_SIZE"
  shows "skip_line (as @ ys) = (if skip_line as = [] then skip_line ys else skip_line as @ ys)"
proof -
  have s: "skip_line xs = dropWhile (\<lambda>c. c \<noteq> CR \<and> c \<noteq> LF) xs" if "length xs \<le> unat HTTP_MAX_HEADER_SIZE" for xs
    using that by (auto simp: skip_line_def intro!: sym [OF dropWhile_eq_Nil_conv [THEN iffD2]])
  show ?thesis
    using assms s [of "as @ ys"] s [of as] s [of ys] by (auto simp: dropWhile_append dropWhile_eq_Nil_conv)
qed

lemma header_value_loop_append:
  "length (as @ ys) \<le> unat HTTP_MAX_HEADER_SIZE \<Longrightarrow>
   header_value_loop (as @ ys) h q = (case header_value_loop as h q of (e, rest, h1, q1) \<Rightarrow>
      if e = VEnd then header_value_loop ys h1 q1 else (e, rest @ ys, h1, q1))"
proof (induction as h q rule: header_value_loop.induct)
  case (2 ch as h q)
  consider "ch = CR" | "ch = LF" | "ch \<noteq> CR" "ch \<noteq> LF" "h = h_general" | "ch \<noteq> CR" "ch \<noteq> LF" "h \<noteq> h_general" by blast
  then show ?case
  proof cases
    case 3
    have l: "length (skip_line (ch # as)) \<le> length (ch # as)" by (rule length_skip_line_le)
    have IH: "header_value_loop (skip_line (ch # as) @ ys) h q = (case header_value_loop (skip_line (ch # as)) h q of (e, rest, h1, q1) \<Rightarrow>
      if e = VEnd then header_value_loop ys h1 q1 else (e, rest @ ys, h1, q1))"
      using 2(1) [OF 3] 2(3) l by simp
    have sk: "skip_line ((ch # as) @ ys) = (if skip_line (ch # as) = [] then skip_line ys else skip_line (ch # as) @ ys)"
      by (rule skip_line_append [OF 2(3)])
    have g: "header_value_loop (skip_line ys) h_general q = header_value_loop ys h_general q"
    proof (cases ys)
      case (Cons y ys')
      show ?thesis
      proof (cases "y = CR \<or> y = LF")
        case True
        then have "skip_line ys = ys" using Cons 2(3) by (auto simp: skip_line_def take_Cons')
        then show ?thesis by simp
      qed (simp add: Cons)
    qed (simp add: skip_line_def)
    have "header_value_loop ((ch # as) @ ys) h q = header_value_loop (skip_line ((ch # as) @ ys)) h q" using 3 by simp
    also have "\<dots> = (case header_value_loop (ch # as) h q of (e, rest, h1, q1) \<Rightarrow> if e = VEnd then header_value_loop ys h1 q1 else (e, rest @ ys, h1, q1))"
      unfolding sk using IH g 3 by simp
    finally show ?thesis .
  next
    case 4
    show ?thesis
    proof (cases "header_value_char ch h q")
      case (Some a)
      obtain h1 q1 where a: "a = (h1, q1)" by fastforce
      show ?thesis using 2(2) [OF 4 Some a [symmetric]] 2(3) 4 Some a by simp
    qed (use 4 in simp)
  qed simp_all
qed simp


lemma count_cases:
  "overflow (count_header_size k l f) \<or> count_header_size k l f = f (l\<lparr>parser := (parser l)\<lparr>nread := nread (parser l) + of_nat k\<rparr>\<rparr>)"
  by (auto simp: count_header_size_def fail_with_def upd_parser_def Let_def overflow_def)

lemma rel0_rel: "rel0 emit pre l l' \<Longrightarrow> p_state l \<notin> mark_states For_body \<Longrightarrow> rel emit pre l l'"
  by (auto simp: rel0_def rel_def)

lemma cross_header_field:
  assumes "local_inv l" "pos l < length xs" "p_state l = s_header_field" "ys \<noteq> []"
  shows "crosses emit xs s_header_field (at_header_field S ys) (at_header_field S (xs @ ys) l) (at_header_field S xs l)"
proof -
  obtain rest q where L: "header_field_loop (drop (pos l) xs) (parser l) = (rest, q)" by fastforce
  have d: "drop (pos l) (xs @ ys) = drop (pos l) xs @ ys" using assms(2) by simp
  have le: "length rest \<le> length xs - pos l" and q: "q = (parser l)\<lparr>index := index q, header_state := header_state q\<rparr>"
    using header_field_loop_frame [OF L] by simp_all
  note e = at_header_field_eq [OF L, where S = S]
  show ?thesis
  proof (cases "rest = []")
    case False
    then have L2: "header_field_loop (drop (pos l) (xs @ ys)) (parser l) = (rest @ ys, q)"
      unfolding d header_field_loop_append by (simp add: L)
    let ?l = "l\<lparr>parser := q, pos := length xs - length rest, cur := hd rest\<rparr>"
    have p: "length xs - length rest < length xs"
      using False le assms(2) length_greater_0_conv [of rest] by linarith
    then have p': "length xs - length rest \<noteq> length xs" "length xs - length rest \<noteq> length xs + length ys" by linarith+
    have "header_field_tail S (xs @ ys) k ?l = header_field_tail S xs k ?l" for k
      unfolding header_field_tail_def using p p' by (simp add: callback_data_prefix cong: if_cong)
    then have "at_header_field S (xs @ ys) l = at_header_field S xs l"
      unfolding e at_header_field_eq [OF L2] using False by simp
    then show ?thesis by (simp add: crosses_def)
  next
    case True
    let ?L = "l\<lparr>parser := q, pos := length xs, cur := last xs\<rparr>"
    let ?k = "length xs - pos l"
    let ?l1 = "(?L\<lparr>parser := q\<lparr>nread := nread q + of_nat ?k\<rparr>\<rparr>)\<lparr>pos := length xs - 1\<rparr>"
    have small: "overflow (at_header_field S xs l) \<or> at_header_field S xs l = Break ?l1"
      using count_cases [of ?k ?L "\<lambda>l2. Break (l2\<lparr>pos := length xs - 1\<rparr>)"] True by (simp add: e header_field_tail_def)
    obtain rest' q2 where M: "header_field_loop ys q = (rest', q2)" by fastforce
    then have L2: "header_field_loop (drop (pos l) (xs @ ys)) (parser l) = (rest', q2)"
      unfolding d header_field_loop_append by (simp add: L True)
    have fr2: "length rest' \<le> length ys" and q2: "q2 = q\<lparr>index := index q2, header_state := header_state q2\<rparr>"
      using header_field_loop_frame [OF M] by simp_all
    have "orel emit xs (at_header_field S (xs @ ys) l) (at_header_field S ys l2)"
      if r0: "rel0 emit xs (?l1\<lparr>pos := length xs, cur := c\<rparr>) l2" and z: "pos l2 = 0" for c l2
    proof -
      have r: "rel emit xs (?l1\<lparr>pos := length xs, cur := c\<rparr>) l2" by (rule rel0_rel [OF r0]) (simp add: assms(3))
      have sc: "same_core q (parser l2)" using r by (simp add: rel_def same_core_def)
      obtain q2' where M': "header_field_loop (drop (pos l2) ys) (parser l2) = (rest', q2')" "same_core q2 q2'"
        using same_core_field_loop [OF sc, of ys] M z by auto
      have q2': "q2' = (parser l2)\<lparr>index := index q2', header_state := header_state q2'\<rparr>"
        using header_field_loop_frame [OF M'(1)] by simp
      have pd: "pdata q2 = pdata q" "pdata q2' = pdata (parser l2)" by (subst q2, simp) (subst q2', simp)
      have o: "http_errno q2 = HPE_OK" by (subst q2, simp, subst q, use assms(1) in \<open>simp add: local_inv_def\<close>)
      have pd1: "pdata q2 = pdata (parser (?l1\<lparr>pos := length xs, cur := c\<rparr>))" by (simp add: pd(1))
      have "rel emit xs (l\<lparr>parser := q2, pos := length (xs @ ys) - length rest', cur := (if rest' = [] then last (xs @ ys) else hd rest')\<rparr>)
          (l2\<lparr>parser := q2', pos := length ys - length rest', cur := (if rest' = [] then last ys else hd rest')\<rparr>)"
        using rel_after_loop [OF r M'(2) pd1 pd(2) fr2 assms(4)] by simp
      then show ?thesis
        unfolding at_header_field_eq [OF L2] at_header_field_eq [OF M'(1)]
      proof (rule rel_header_field_tail)
        fix j assume "marks (l\<lparr>parser := q2, pos := length (xs @ ys) - length rest', cur := if rest' = [] then last (xs @ ys) else hd rest'\<rparr>) For_header_field = Some j"
        then have "j \<le> pos l" using local_inv_le [OF assms(1), of For_header_field j] by simp
        then show "j \<le> pos (l\<lparr>parser := q2, pos := length (xs @ ys) - length rest', cur := if rest' = [] then last (xs @ ys) else hd rest'\<rparr>)"
          using fr2 assms(2) by simp
      qed (use o local_inv_only [OF assms(1), of For_header_field] assms(3,4) in auto)
    qed
    then show ?thesis using small assms(3) by (auto simp: crosses_def)
  qed
qed


lemma cross_header_value:
  assumes "local_inv l" "pos l < length xs" "p_state l = s_header_value" "ys \<noteq> []" "length (xs @ ys) \<le> unat HTTP_MAX_HEADER_SIZE"
  shows "crosses emit xs s_header_value (at_header_value S ys) (at_header_value S (xs @ ys) l) (at_header_value S xs l)"
proof -
  obtain e rest h q where L: "header_value_loop (drop (pos l) xs) (header_state (parser l)) (parser l) = (e, rest, h, q)" by (metis prod_cases4)
  have d: "drop (pos l) (xs @ ys) = drop (pos l) xs @ ys" using assms(2) by simp
  have len: "length (drop (pos l) xs @ ys) \<le> unat HTTP_MAX_HEADER_SIZE" using assms(5) by simp
  note fr = header_value_loop_frame [OF L]
  have le: "length rest \<le> length xs - pos l" and ev: "e = VEnd \<longleftrightarrow> rest = []"
    and q: "q = (parser l)\<lparr>index := index q, flags := flags q, content_length := content_length q\<rparr>"
    using fr by simp_all
  note eq = at_header_value_eq [OF L, where S = S]
  show ?thesis
  proof (cases "e = VEnd")
    case False
    then have L2: "header_value_loop (drop (pos l) (xs @ ys)) (header_state (parser l)) (parser l) = (e, rest @ ys, h, q)"
      unfolding d header_value_loop_append [OF len] by (simp add: L)
    let ?l = "l\<lparr>parser := q, pos := length xs - length rest, cur := hd rest\<rparr>"
    have ne: "rest \<noteq> []" using False ev by simp
    have p: "length xs - length rest < length xs"
      using ne le assms(2) length_greater_0_conv [of rest] by linarith
    have "header_value_tail S (xs @ ys) k e h ?l = header_value_tail S xs k e h ?l" for k
      unfolding header_value_tail_def Let_def using p False by (cases e) (simp_all add: callback_data_prefix)
    then have "at_header_value S (xs @ ys) l = at_header_value S xs l"
      unfolding eq at_header_value_eq [OF L2] using ne by simp
    then show ?thesis by (simp add: crosses_def)
  next
    case True
    then have rest: "rest = []" using ev by simp
    let ?L = "upd_parser (\<lambda>q. q\<lparr>header_state := h\<rparr>) (l\<lparr>parser := q, pos := length xs, cur := last xs\<rparr>)"
    let ?k = "length xs - pos l"
    let ?l1 = "(?L\<lparr>parser := (parser ?L)\<lparr>nread := nread (parser ?L) + of_nat ?k\<rparr>\<rparr>)\<lparr>pos := length xs - 1\<rparr>"
    have small: "overflow (at_header_value S xs l) \<or> at_header_value S xs l = Break ?l1"
      using count_cases [of ?k ?L "\<lambda>l2. Break (l2\<lparr>pos := length xs - 1\<rparr>)"] True rest by (simp add: eq header_value_tail_def Let_def)
    obtain e2 rest' h2 q2 where M: "header_value_loop ys h q = (e2, rest', h2, q2)" by (metis prod_cases4)
    then have L2: "header_value_loop (drop (pos l) (xs @ ys)) (header_state (parser l)) (parser l) = (e2, rest', h2, q2)"
      unfolding d header_value_loop_append [OF len] by (simp add: L True)
    note fr2 = header_value_loop_frame [OF M]
    have le2: "length rest' \<le> length ys" and q2: "q2 = q\<lparr>index := index q2, flags := flags q2, content_length := content_length q2\<rparr>"
      using fr2 by simp_all
    have "orel emit xs (at_header_value S (xs @ ys) l) (at_header_value S ys l2)"
      if r0: "rel0 emit xs (?l1\<lparr>pos := length xs, cur := c\<rparr>) l2" and z: "pos l2 = 0" for c l2
    proof -
      have r: "rel emit xs (?l1\<lparr>pos := length xs, cur := c\<rparr>) l2" by (rule rel0_rel [OF r0]) (simp add: assms(3))
      have sc: "same_core (q\<lparr>header_state := h\<rparr>) (parser l2)" using r by (simp add: rel_def same_core_def)
      have hs: "header_state (parser l2) = h" using sc by (simp add: same_core_def)
      have M1: "header_value_loop ys h (q\<lparr>header_state := h\<rparr>) = (e2, rest', h2, q2\<lparr>header_state := h\<rparr>)"
        by (simp add: value_loop_state M)
      obtain q2' where M': "header_value_loop (drop (pos l2) ys) (header_state (parser l2)) (parser l2) = (e2, rest', h2, q2')"
          and "same_core (q2\<lparr>header_state := h\<rparr>) q2'"
        using same_core_value_loop [OF sc M1] z hs by auto
      then have sc2: "same_core (q2\<lparr>header_state := h2\<rparr>) (q2'\<lparr>header_state := h2\<rparr>)" by (simp add: same_core_def)
      have q2': "q2' = (parser l2)\<lparr>index := index q2', flags := flags q2', content_length := content_length q2'\<rparr>"
        using header_value_loop_frame [OF M'] by simp
      have pd: "pdata q2 = pdata q" "pdata q2' = pdata (parser l2)" by (subst q2, simp) (subst q2', simp)
      have o: "http_errno q2 = HPE_OK" by (subst q2, simp, subst q, use assms(1) in \<open>simp add: local_inv_def\<close>)
      let ?M = "l\<lparr>parser := q2, pos := length (xs @ ys) - length rest', cur := (if rest' = [] then last (xs @ ys) else hd rest')\<rparr>"
        and ?M' = "l2\<lparr>parser := q2', pos := length ys - length rest', cur := (if rest' = [] then last ys else hd rest')\<rparr>"
      have "rel emit xs (upd_parser (\<lambda>q. q\<lparr>header_state := h2\<rparr>) ?M) (upd_parser (\<lambda>q. q\<lparr>header_state := h2\<rparr>) ?M')"
        using rel_after_loop [OF r sc2 _ _ le2 assms(4)] pd by (simp add: rel_def upd_parser_def)
      then show ?thesis
        unfolding at_header_value_eq [OF L2] at_header_value_eq [OF M']
      proof (rule rel_header_value_tail)
        fix j assume "marks ?M For_header_value = Some j"
        then have "j \<le> pos l" using local_inv_le [OF assms(1), of For_header_value j] by simp
        then show "j \<le> pos ?M" using le2 assms(2) by simp
      next
        show "0 < pos ?M' \<or> e2 \<noteq> VEnd" using fr2 assms(4) by auto
      qed (use o local_inv_only [OF assms(1), of For_header_value] assms(3,4) in auto)
    qed
    then show ?thesis using small assms(3) by (auto simp: crosses_def)
  qed
qed


lemma take_body_small:
  assumes "pos l < length xs" "length (xs @ ys) < 2 ^ 64" "unat c \<le> length xs - pos l"
  shows "min c (of_nat (length (xs @ ys) - pos l)) = (c :: u64)" "min c (of_nat (length xs - pos l)) = c"
proof -
  have u: "unat (of_nat (length (xs @ ys) - pos l) :: u64) = length (xs @ ys) - pos l" "unat (of_nat (length xs - pos l) :: u64) = length xs - pos l"
    by (rule unat_of_nat_u64, use assms in simp)+
  show "min c (of_nat (length (xs @ ys) - pos l)) = c"
    by (rule min_absorb1) (use u(1) assms in \<open>simp add: word_le_nat_alt\<close>)
  show "min c (of_nat (length xs - pos l)) = c" using u(2) assms(3) by (simp add: min_def word_le_nat_alt)
qed

lemma take_body_large:
  assumes p: "pos l < length xs" and len: "length (xs @ ys) < 2 ^ 64" and c: "length xs - pos l < unat (c :: u64)"
  defines "t \<equiv> min c (of_nat (length xs - pos l))" and "t' \<equiv> min (c - min c (of_nat (length xs - pos l))) (of_nat (length ys))"
    and "T \<equiv> min c (of_nat (length (xs @ ys) - pos l))"
  shows "unat t = length xs - pos l" "c - t \<noteq> 0" "unat T = unat t + unat t'" "c - T = c - t - t'" "unat t' \<le> length ys"
proof -
  let ?a = "length xs - pos l" and ?b = "length ys"
  have "length (xs @ ys) - pos l = ?a + ?b" using p by simp
  then have u: "unat (of_nat (length (xs @ ys) - pos l) :: u64) = ?a + ?b"
    by (metis diff_le_self le_less_trans len unat_of_nat_u64)
  have u': "unat (of_nat ?a :: u64) = ?a" "unat (of_nat ?b :: u64) = ?b"
    by (rule unat_of_nat_u64, use assms(1,2) in simp)+
  have t: "t = of_nat ?a" using u'(1) c by (simp add: t_def min_def word_le_nat_alt)
  then show ut: "unat t = ?a" using u'(1) by simp
  have ct: "unat (c - t) = unat c - ?a" using ut c by (simp add: unat_sub word_le_nat_alt)
  then show "c - t \<noteq> 0" using c by (metis unat_0 diff_is_0_eq linorder_not_le)
  have t': "unat t' = min (unat c - ?a) ?b"
    using ct u'(2) unfolding t'_def t_def [symmetric] by (simp add: min_def word_le_nat_alt)
  then show "unat t' \<le> ?b" by simp
  have T: "unat T = min (unat c) (?a + ?b)" using u by (simp add: T_def min_def word_le_nat_alt)
  show uT: "unat T = unat t + unat t'" using T t' ut c by linarith
  have "T = t + t'"
    using uT unsigned_less [of T, where 'a = nat] by (simp add: word_unat_eq_iff unat_add_lem [THEN iffD1])
  then show "c - T = c - t - t'" by (simp add: algebra_simps)
qed


lemma take_body_eq:
  "0 < unat (min (content_length (parser l)) (of_nat (length buf - pos l))) \<Longrightarrow> take_body buf l k =
     k (upd_parser (\<lambda>q. q\<lparr>content_length := content_length q - min (content_length (parser l)) (of_nat (length buf - pos l))\<rparr>)
       ((mark_field For_body l)\<lparr>pos := pos l + unat (min (content_length (parser l)) (of_nat (length buf - pos l))) - 1\<rparr>))"
  unfolding take_body_def by (simp add: Let_def)

text \<open>Both handlers that take a body of a given length, with what they do after it.\<close>

lemma end_of_two: "T = t + t' \<Longrightarrow> t = n - p \<Longrightarrow> 0 < t' \<Longrightarrow> p < n \<Longrightarrow> p + T - 1 = n + (t' - 1)" for T :: nat
  by linarith

lemma rel_replace:
  "rel emit pre l l' \<Longrightarrow> marks L = marks l \<Longrightarrow> marks L' = marks l' \<Longrightarrow> cur L' = cur L \<Longrightarrow> p_state L = p_state l \<Longrightarrow> p_state L' = p_state l' \<Longrightarrow>
     pos L = length pre + pos L' \<Longrightarrow> same_core (parser L) (parser L') \<Longrightarrow> pdata (parser L) = pdata (parser l) \<Longrightarrow> pdata (parser L') = pdata (parser l') \<Longrightarrow>
     rel emit pre L L'"
  by (simp add: rel_def)

lemma rel0_marked:
  assumes "rel0 emit pre l l'" "marks l For_body \<noteq> None"
  shows "rel emit pre l (mark_field For_body l')"
proof (cases "rel emit pre l l'")
  case True
  then have "marks l' For_body \<noteq> None" using assms(2) by (simp add: rel_simps(3))
  then have "mark_field For_body l' = l'" by (auto simp: mark_field_def)
  then show ?thesis using True by simp
qed (use assms in \<open>auto simp: rel0_def\<close>)

lemma cross_take_body:
  assumes l: "local_inv l" "pos l < length xs" "p_state l = s_body_identity \<or> p_state l = s_chunk_data" "ys \<noteq> []"
    and len: "length (xs @ ys) < 2 ^ 64"
    and kd: "\<And>l. content_length (parser l) \<noteq> 0 \<Longrightarrow> k xs l = Break l"
    and kp: "\<And>l. pos l < length xs \<Longrightarrow> k (xs @ ys) l = k xs l"
    and kc: "\<And>l c. http_errno (parser l) = HPE_OK \<Longrightarrow> k (xs @ ys) (l\<lparr>cur := c\<rparr>) = with_cur c (k (xs @ ys) l)"
    and km: "\<And>l l2. http_errno (parser l) = HPE_OK \<Longrightarrow> k (xs @ ys) l = Reexecute l2 \<Longrightarrow> p_state l2 = s_message_done"
    and kr: "\<And>l2 l2'. rel emit xs l2 l2' \<Longrightarrow> http_errno (parser l2) = HPE_OK \<Longrightarrow> (\<And>G. G \<noteq> For_body \<Longrightarrow> marks l2 G = None) \<Longrightarrow>
        (\<And>j. marks l2 For_body = Some j \<Longrightarrow> j \<le> pos l2) \<Longrightarrow> orel emit xs (k (xs @ ys) l2) (k ys l2')"
  shows "crosses emit xs (p_state l) (\<lambda>l. take_body ys l (k ys)) (take_body (xs @ ys) l (k (xs @ ys))) (take_body xs l (k xs))"
proof -
  let ?c = "content_length (parser l)"
  have c0: "?c \<noteq> 0" using l(1,3) by (auto simp: local_inv_def parser_inv_def)
  have lx: "length xs < 2 ^ 64" using len by simp
  have ok: "http_errno (parser l) = HPE_OK" using l(1) by (simp add: local_inv_def)
  note pos = take_body_pos [OF l(2) lx c0]
  have posL: "0 < unat (min ?c (of_nat (length (xs @ ys) - pos l)))" by (rule take_body_pos(1) [OF _ len c0]) (use l(2) in simp)
  show ?thesis
  proof (cases "unat ?c \<le> length xs - pos l")
    case True
    note m = take_body_small [OF l(2) len True]
    have p: "pos l + unat ?c - 1 < length xs" using True l(2) by linarith
    let ?M = "upd_parser (\<lambda>q. q\<lparr>content_length := content_length q - ?c\<rparr>) ((mark_field For_body l)\<lparr>pos := pos l + unat ?c - 1\<rparr>)"
    have "take_body (xs @ ys) l (k (xs @ ys)) = k (xs @ ys) ?M" by (subst take_body_eq [OF posL]) (simp only: m(1))
    moreover have "take_body xs l (k xs) = k xs ?M" by (subst take_body_eq [OF pos(1)]) (simp only: m(2))
    moreover have "k (xs @ ys) ?M = k xs ?M" by (rule kp) (use p in simp)
    ultimately have "take_body (xs @ ys) l (k (xs @ ys)) = take_body xs l (k xs)" by (simp only:)
    then show ?thesis by (simp add: crosses_def)
  next
    case False
    then have c: "length xs - pos l < unat ?c" by simp
    note B = take_body_large [OF l(2) len c]
    let ?t = "min ?c (of_nat (length xs - pos l))"
    let ?l1 = "upd_parser (\<lambda>q. q\<lparr>content_length := content_length q - ?t\<rparr>) ((mark_field For_body l)\<lparr>pos := length xs - 1\<rparr>)"
    have pt: "pos l + unat ?t - 1 = length xs - 1" using B(1) l(2) by linarith
    have "take_body xs l (k xs) = k xs ?l1" using take_body_eq [of l xs "k xs"] pos(1) unfolding pt by simp
    also have "k xs ?l1 = Break ?l1" by (rule kd) (use B(2) in simp)
    finally have small: "take_body xs l (k xs) = Break ?l1" .
    have cross: "\<exists>c'. orel emit xs (with_cur c' (take_body (xs @ ys) l (k (xs @ ys)))) (take_body ys l2 (k ys))
        \<and> (\<forall>l3. take_body (xs @ ys) l (k (xs @ ys)) = Reexecute l3 \<longrightarrow> p_state l3 = s_message_done)"
      if r0: "rel0 emit xs (?l1\<lparr>pos := length xs, cur := ch\<rparr>) l2" and z: "pos l2 = 0" for ch l2
    proof -
      let ?lx = "?l1\<lparr>pos := length xs, cur := ch\<rparr>"
      have r: "rel emit xs ?lx (mark_field For_body l2)" by (rule rel0_marked [OF r0]) simp
      let ?t' = "min (content_length (parser l2)) (of_nat (length ys - pos l2))" and ?T = "min ?c (of_nat (length (xs @ ys) - pos l))"
      have cl: "content_length (parser l2) = ?c - ?t" using rel_simps(9) [OF r] by simp
      have t': "0 < unat ?t'" by (rule take_body_pos(1)) (use z l(4) len B(2) cl in simp_all)
      have eqt: "?t' = min (?c - ?t) (of_nat (length ys))" using cl z by simp
      have T: "unat ?T = unat ?t + unat ?t'" "?c - ?T = ?c - ?t - ?t'" using B(3,4) unfolding eqt by blast+
      let ?L = "upd_parser (\<lambda>q. q\<lparr>content_length := content_length q - ?T\<rparr>) ((mark_field For_body l)\<lparr>pos := pos l + unat ?T - 1\<rparr>)"
      let ?L' = "upd_parser (\<lambda>q. q\<lparr>content_length := content_length q - ?t'\<rparr>) ((mark_field For_body l2)\<lparr>pos := pos l2 + unat ?t' - 1\<rparr>)"
      have e: "take_body (xs @ ys) l (k (xs @ ys)) = k (xs @ ys) ?L" "take_body ys l2 (k ys) = k ys ?L'"
        by (rule take_body_eq [OF posL]) (rule take_body_eq [OF t'])
      have p: "pos l + unat ?T - 1 = length xs + (unat ?t' - 1)" by (rule end_of_two [OF T(1) B(1) t' l(2)])
      have T2: "content_length (parser ?L) = content_length (parser ?L')" using T(2) cl by simp
      have sc: "same_core (parser ?lx) (parser l2)" using r unfolding rel_def mark_field_sel by blast
      have rL: "rel emit xs (?L\<lparr>cur := ch\<rparr>) ?L'"
      proof (rule rel_replace [OF r])
        show "same_core (parser (?L\<lparr>cur := ch\<rparr>)) (parser ?L')" using sc T2 unfolding same_core_def by simp
        show "cur ?L' = cur (?L\<lparr>cur := ch\<rparr>)" using rel_simps(1) [OF r] by simp
        show "pos (?L\<lparr>cur := ch\<rparr>) = length xs + pos ?L'" using p z by simp
      qed simp_all
      have m: "marks ?L = marks (mark_field For_body l)" "http_errno (parser ?L) = HPE_OK" using ok by simp_all
      have only: "marks ?L G = None" if "G \<noteq> For_body" for G
        using local_inv_only [OF l(1), of For_body G] that l(3) unfolding m by (auto simp: mark_field_def)
      have le: "j \<le> pos ?L" if "marks ?L For_body = Some j" for j
      proof -
        have "j \<le> pos l" using that local_inv_le [OF l(1), of For_body j] unfolding m by (auto simp: mark_field_def split: if_splits)
        then show ?thesis using p l(2) by simp
      qed
      have "orel emit xs (k (xs @ ys) (?L\<lparr>cur := ch\<rparr>)) (k ys ?L')"
        by (rule kr [OF rL]) (use only le m in simp_all)
      then show ?thesis unfolding e kc [OF m(2)] using km [OF m(2)] by blast
    qed
    show ?thesis
      unfolding crosses_def small by (intro disjI2 exI [of _ ?l1]) (use cross in auto)
  qed
qed

lemma cross_body_identity:
  assumes "local_inv l" "pos l < length xs" "p_state l = s_body_identity" "ys \<noteq> []" "length (xs @ ys) < 2 ^ 64"
  shows "crosses emit xs s_body_identity (at_body_identity S ys) (at_body_identity S (xs @ ys) l) (at_body_identity S xs l)"
proof -
  let ?k = "\<lambda>buf l. if content_length (parser l) = 0 then callback_data For_body (pos l + 1) (pos l) S buf (update_state s_message_done l) Reexecute else Break l"
  have d: "callback_data For_body (pos l + 1) (pos l) S buf (update_state s_message_done l) Reexecute = Reexecute (case marks l For_body of None \<Rightarrow> update_state s_message_done l
     | Some j \<Rightarrow> (update_state s_message_done l)\<lparr>parser := (parser l)\<lparr>state := (if on_data For_body S = None then state (parser l) else s_message_done),
     pdata := emit For_body (slice j (pos l + 1 - j) buf) (pdata (parser l))\<rparr>, marks := (marks l)(For_body := None)\<rparr>)"
    if "http_errno (parser l) = HPE_OK" for l :: "'w local" and buf
    using data_Some [of "update_state s_message_done l" For_body _ "pos l + 1" "pos l" buf Reexecute] that
    by (cases "marks l For_body") (simp_all add: data_None)
  have "crosses emit xs (p_state l) (\<lambda>l. take_body ys l (?k ys)) (take_body (xs @ ys) l (?k (xs @ ys))) (take_body xs l (?k xs))"
  proof (rule cross_take_body [OF assms(1,2) disjI1 [OF assms(3)] assms(4,5)], goal_cases)
    case (2 l)
    then show ?case by (simp add: callback_data_prefix)
  next
    case (3 l c)
    then show ?case using d [of l "xs @ ys"] d [of "l\<lparr>cur := c\<rparr>" "xs @ ys"]
      by (cases "marks l For_body") (simp_all add: update_state_def)
  next
    case (4 l l2)
    then show ?case using d [of l "xs @ ys"] by (cases "marks l For_body") (auto split: if_splits)
  next
    case (5 l2 l2')
    have "orel emit xs (callback_data For_body (pos l2 + 1) (pos l2) S (xs @ ys) (update_state s_message_done l2) Reexecute)
     (callback_data For_body (pos l2' + 1) (pos l2') S ys (update_state s_message_done l2') Reexecute)"
      by (rule rel_data [OF rel_update_state [OF 5(1)]])
        (use 5(2-4) rel_simps(4) [OF 5(1)] in \<open>auto dest: le_SucI\<close>)
    then show ?case using 5(1) by (simp add: rel_simps(9) [OF 5(1)])
  qed simp
  then show ?thesis by (simp add: at_body_identity_def [abs_def] assms(3))
qed

lemma cross_chunk_data:
  assumes "local_inv l" "pos l < length xs" "p_state l = s_chunk_data" "ys \<noteq> []" "length (xs @ ys) < 2 ^ 64"
  shows "crosses emit xs s_chunk_data (at_chunk_data ys) (at_chunk_data (xs @ ys) l) (at_chunk_data xs l)"
proof -
  let ?k = "\<lambda>buf :: byte list. \<lambda>l. Break (if content_length (parser l) = 0 then update_state s_chunk_data_almost_done l else l)"
  have "crosses emit xs (p_state l) (\<lambda>l. take_body ys l (?k ys)) (take_body (xs @ ys) l (?k (xs @ ys))) (take_body xs l (?k xs))"
  proof (rule cross_take_body [OF assms(1,2) disjI2 [OF assms(3)] assms(4,5)], goal_cases)
    case (5 l2 l2')
    then show ?case by (simp add: rel_simps(9) [OF 5(1)])
  qed (simp_all add: update_state_def)
  then show ?thesis by (simp add: at_chunk_data_def [abs_def] assms(3))
qed

lemma cross_body_identity_eof:
  assumes "local_inv l" "pos l < length xs" "p_state l = s_body_identity_eof" "ys \<noteq> []"
  shows "crosses emit xs s_body_identity_eof (at_body_identity_eof ys) (at_body_identity_eof (xs @ ys) l) (at_body_identity_eof xs l)"
proof -
  have "orel emit xs (with_cur c (at_body_identity_eof (xs @ ys) l)) (at_body_identity_eof ys l2)"
    if r0: "rel0 emit xs ((mark_field For_body l)\<lparr>pos := length xs, cur := c\<rparr>) l2" for c l2
  proof -
    have r: "rel emit xs ((mark_field For_body l)\<lparr>pos := length xs, cur := c\<rparr>) (mark_field For_body l2)"
      by (rule rel0_marked [OF r0]) simp
    have "rel emit xs ((mark_field For_body l)\<lparr>pos := length (xs @ ys) - 1, cur := c\<rparr>) ((mark_field For_body l2)\<lparr>pos := length ys - 1\<rparr>)"
      by (rule rel_replace [OF r]) (use assms(4) rel_simps [OF r] r in \<open>simp_all add: rel_def Suc_le_eq\<close>)
    then show ?thesis by (simp add: at_body_identity_eof_def)
  qed
  then show ?thesis by (auto simp: crosses_def at_body_identity_eof_def assms(3))
qed

lemma crosses_cong: "crosses emit xs s f R r \<Longrightarrow> (\<And>l. p_state l = s \<Longrightarrow> f l = g l) \<Longrightarrow> crosses emit xs s g R r"
proof -
  assume a: "crosses emit xs s f R r" "\<And>l. p_state l = s \<Longrightarrow> f l = g l"
  have "p_state l2 = s" if "rel0 emit xs (l1\<lparr>pos := n, cur := c\<rparr>) l2" "p_state l1 = s" for l1 l2 :: "'w local" and n c
    using that by (auto simp: rel0_def dest!: rel_simps(2))
  then show ?thesis using a unfolding crosses_def by metis
qed

lemma cross_step:
  assumes "local_inv l" "pos l < length xs" "ys \<noteq> []" "length (xs @ ys) \<le> unat HTTP_MAX_HEADER_SIZE"
  shows "crosses emit xs (p_state l) (step S ys) (step S (xs @ ys) l) (step S xs l)"
proof (cases "p_state l \<in> loop_states")
  case True
  have len: "length (xs @ ys) < 2 ^ 64" using assms(4) by (simp add: HTTP_MAX_HEADER_SIZE_def)
  have st: "step S (xs @ ys) l = f (xs @ ys) l \<and> step S xs l = f xs l \<and> crosses emit xs s (f ys) (f (xs @ ys) l) (f xs l) \<Longrightarrow>
      (\<And>l. p_state l = s \<Longrightarrow> f ys l = step S ys l) \<Longrightarrow> crosses emit xs s (step S ys) (step S (xs @ ys) l) (step S xs l)" for f s
    by (metis crosses_cong)
  from True consider "p_state l = s_header_field" | "p_state l = s_header_value" | "p_state l = s_body_identity" | "p_state l = s_chunk_data" | "p_state l = s_body_identity_eof"
    by (auto simp: loop_states_def)
  then show ?thesis
  proof cases
    case 1
    then show ?thesis using st [of "at_header_field S" s_header_field] cross_header_field [OF assms(1,2) 1 assms(3)] by (simp add: step_def)
  next
    case 2
    then show ?thesis using st [of "at_header_value S" s_header_value] cross_header_value [OF assms(1,2) 2 assms(3,4)] by (simp add: step_def)
  next
    case 3
    then show ?thesis using st [of "at_body_identity S" s_body_identity] cross_body_identity [OF assms(1,2) 3 assms(3) len] by (simp add: step_def)
  next
    case 4
    then show ?thesis using st [of at_chunk_data s_chunk_data] cross_chunk_data [OF assms(1,2) 4 assms(3) len] by (simp add: step_def)
  next
    case 5
    then show ?thesis using st [of at_body_identity_eof s_body_identity_eof] cross_body_identity_eof [OF assms(1,2) 5 assms(3)] by (simp add: step_def)
  qed
qed (simp add: crosses_def step_prefix [OF assms(2)])

end

end
