(* ===== verification/HttpParserChunks.thy ===== *)
theory HttpParserChunks
  imports HttpParserCut
begin

text \<open>
  The result of the parser does not depend on where the input is cut into buffers, as long as the
  headers stay in the limit and no protocol upgrade is reported.
\<close>

section \<open>Related outcomes, related results\<close>

lemma runs_rel_overflow:
  "x = Some (n, q) \<Longrightarrow> y = Some (n', q') \<Longrightarrow> http_errno q = HPE_HEADER_OVERFLOW \<or> http_errno q' = HPE_HEADER_OVERFLOW \<Longrightarrow> runs_rel pre x y"
  by (auto simp: runs_rel_def result_rel_def)

lemma mark_body_states: "s \<in> mark_states For_body \<Longrightarrow> \<not> parsing_header s"
  by (auto simp: parsing_header_def)

lemma rel0_p_state: "rel0 emit pre l l' \<Longrightarrow> p_state l' = p_state l \<and> pos l = length pre + pos l' \<and> cur l' = cur l"
  by (auto simp: rel0_def dest: rel_simps(1,2,4))

lemma rel0_cur: "rel0 emit pre (l\<lparr>cur := c\<rparr>) l' \<Longrightarrow> rel0 emit pre (l\<lparr>cur := d\<rparr>) (l'\<lparr>cur := d\<rparr>)"
  by (auto simp: rel0_def rel_def mark_field_def)

lemma rel0_nread:
  assumes "rel0 emit pre l l'"
  shows "rel0 emit pre l (l'\<lparr>parser := (parser l')\<lparr>nread := n\<rparr>\<rparr>)"
proof -
  have r: "rel emit pre l (x\<lparr>parser := (parser x)\<lparr>nread := n\<rparr>\<rparr>) = rel emit pre l x" for x by (simp add: rel_def same_core_def)
  have m: "mark_field For_body (l'\<lparr>parser := (parser l')\<lparr>nread := n\<rparr>\<rparr>) = (mark_field For_body l')\<lparr>parser := (parser (mark_field For_body l'))\<lparr>nread := n\<rparr>\<rparr>"
    by (simp add: mark_field_def)
  show ?thesis using assms unfolding rel0_def m r by simp
qed

context streaming_callbacks
begin

lemma next_runs:
  assumes r: "rel emit pre l l'" and n: "local_inv l" "local_inv l'" "pos l' \<le> length ys" and len: "length (pre @ ys) < 2 ^ 64"
  shows "runs_rel pre (run S (pre @ ys) (next_byte S (pre @ ys) l)) (run S ys (next_byte S ys l'))"
proof -
  have p: "pos l \<le> length (pre @ ys)" using n(3) rel_simps(4) [OF r] by simp
  note ok = next_byte_ok [OF n(1) p] next_byte_ok [OF n(2,3)]
  have ex: "\<exists>x. run S buf (next_byte S buf l2) = Some x" if "length buf < 2 ^ 64" "local_inv l2" "pos l2 \<le> length buf" for buf l2
    using next_byte_ok [OF that(2,3)] by (elim disjE exE conjE) (auto simp: run_Return run_Goto_error finish_ok_def dest!: run_ok [OF that(1)])
  obtain x y where xy: "run S (pre @ ys) (next_byte S (pre @ ys) l) = Some x" "run S ys (next_byte S ys l') = Some y"
    using ex [OF len n(1) p] ex [of ys l'] len n by auto
  have "runs_rel pre (Some x) (Some y)"
  proof (rule runs_rel_orel [OF rel_next_byte [OF r n(1,3)] xy], goal_cases)
    case (1 l3 l3')
    then show ?case using ok(1) by (auto simp: finish_ok_def)
  next
    case (2 l3 l3')
    have "rel0 emit pre l3 l3'" using 2 by (simp add: rel0_def)
    moreover have "local_inv l3" "local_inv l3'" "pos l3' < length ys" using ok 2 by (auto simp: finish_ok_def)
    ultimately show ?case using run_rel [OF len, of l3 l3'] xy 2 by simp
  qed
  then show ?thesis using xy by simp
qed

lemma orel_runs:
  assumes o: "orel emit pre r r'" and g: "good (length (pre @ ys)) l r" "good (length ys) l' r'" and len: "length (pre @ ys) < 2 ^ 64"
  shows "runs_rel pre (run S (pre @ ys) r) (run S ys r')"
proof -
  have len': "length ys < 2 ^ 64" using len by simp
  obtain x y where xy: "run S (pre @ ys) r = Some x" "run S ys r' = Some y"
    using run_outcome [OF g(1) len] run_outcome [OF g(2) len'] by blast
  have "runs_rel pre (Some x) (Some y)"
  proof (rule runs_rel_orel [OF o xy], goal_cases)
    case (1 l2 l2')
    have n: "local_inv (l2\<lparr>pos := pos l2 + 1\<rparr>)" "local_inv (l2'\<lparr>pos := pos l2' + 1\<rparr>)" "pos (l2'\<lparr>pos := pos l2' + 1\<rparr>) \<le> length ys"
        "rel emit pre (l2\<lparr>pos := pos l2 + 1\<rparr>) (l2'\<lparr>pos := pos l2' + 1\<rparr>)"
      using g 1 local_inv_pos [of l2 "pos l2 + 1"] local_inv_pos [of l2' "pos l2' + 1"] by (simp_all add: rel_def)
    then show ?case using next_runs [OF n(4,1-3) len] xy 1 by (simp add: run_Break)
  next
    case (2 l2 l2')
    then show ?case using run_rel [OF len, of l2 l2'] g xy by (simp add: rel0_def)
  qed
  then show ?thesis using xy by simp
qed

lemma next_byte_cur: "pos l \<noteq> length buf \<Longrightarrow> next_byte S buf (l\<lparr>cur := c\<rparr>) = next_byte S buf l"
  by (simp add: next_byte_def Let_def)

lemma next_runs0:
  assumes r: "rel0 emit pre (l\<lparr>cur := c\<rparr>) l'" and n: "local_inv l" "local_inv l'" "pos l' < length ys" and len: "length (pre @ ys) < 2 ^ 64"
  shows "runs_rel pre (run S (pre @ ys) (next_byte S (pre @ ys) l)) (run S ys (next_byte S ys l'))"
proof -
  note s = rel0_p_state [OF r]
  have p: "pos l \<noteq> length (pre @ ys)" "pos l' \<noteq> length ys" using n(3) s by simp_all
  show ?thesis
  proof (cases "rel emit pre (l\<lparr>cur := c\<rparr>) l'")
    case True
    have "local_inv (l\<lparr>cur := c\<rparr>)" using n(1) by (simp add: local_inv_nread)
    then show ?thesis using next_runs [OF True _ n(2) _ len] n(3) next_byte_cur [OF p(1), of c] by simp
  next
    case False
    then have "p_state l' \<in> mark_states For_body" using r by (simp add: rel0_def)
    then have h: "\<not> parsing_header (p_state l')" by (rule mark_body_states)
    let ?d = "ys ! pos l'"
    have e: "(pre @ ys) ! pos l = ?d" using s by simp
    have "next_byte S (pre @ ys) l = Reexecute (l\<lparr>cur := ?d\<rparr>)" "next_byte S ys l' = Reexecute (l'\<lparr>cur := ?d\<rparr>)"
      using p h s by (simp_all add: next_byte_def Let_def e)
    moreover have "runs_rel pre (run S (pre @ ys) (Reexecute (l\<lparr>cur := ?d\<rparr>))) (run S ys (Reexecute (l'\<lparr>cur := ?d\<rparr>)))"
      by (rule run_rel [OF len]) (use n rel0_cur [OF r] in \<open>simp_all add: local_inv_nread\<close>)
    ultimately show ?thesis by simp
  qed
qed

text \<open>Where the current byte does not matter.\<close>

lemma finish_cur:
  "finish_pre (length buf) l \<Longrightarrow> run S buf (finish_marks S buf (l\<lparr>cur := c\<rparr>)) = run S buf (finish_marks S buf l)"
proof -
  assume a: "finish_pre (length buf) l"
  then have b: "finish_pre (length buf) (l\<lparr>cur := c\<rparr>)" by (simp add: finish_pre_def)
  show ?thesis
    using finish_marks_eq [OF a] finish_marks_eq [OF b] by (cases "\<forall>F. marks l F = None") (auto simp: run_Return)
qed

lemma run_break_cur:
  assumes "local_inv l" "pos l < length buf"
  shows "run S buf (Break (l\<lparr>cur := c\<rparr>)) = run S buf (Break l)"
proof -
  let ?n = "l\<lparr>pos := pos l + 1\<rparr>"
  have "run S buf (Break (l\<lparr>cur := c\<rparr>)) = run S buf (next_byte S buf ((l\<lparr>cur := c\<rparr>)\<lparr>pos := pos l + 1\<rparr>))"
    by (simp add: run_Break)
  also have "(l\<lparr>cur := c\<rparr>)\<lparr>pos := pos l + 1\<rparr> = ?n\<lparr>cur := c\<rparr>" by simp
  also have "run S buf (next_byte S buf (?n\<lparr>cur := c\<rparr>)) = run S buf (next_byte S buf ?n)"
  proof (cases "pos ?n = length buf")
    case True
    have "run S buf (finish_marks S buf (?n\<lparr>cur := c\<rparr>)) = run S buf (finish_marks S buf ?n)"
      by (rule finish_cur [OF local_inv_finish_pre]) (use local_inv_pos [OF assms(1)] True in simp_all)
    then show ?thesis using True by (simp add: next_byte_def)
  qed (rule arg_cong [of _ _ "run S buf"], rule next_byte_cur)
  finally show ?thesis by (simp only: run_Break)
qed

lemma run_done_cur:
  assumes "local_inv l" "p_state l = s_message_done" "pos l < length buf" "length buf < 2 ^ 64"
  shows "run S buf (Reexecute (l\<lparr>cur := c\<rparr>)) = run S buf (Reexecute l)"
proof -
  have g: "good (length buf) l (step S buf l)" by (rule step_good [OF assms(1,3,4)])
  have b: "run S buf (if upgrade (parser m) then leave_after (m\<lparr>cur := c\<rparr>) else Break (m\<lparr>cur := c\<rparr>)) = run S buf (if upgrade (parser m) then leave_after m else Break m)"
    if "step S buf l = (if upgrade (parser m) then leave_after m else Break m)" for m
    using run_break_cur [of m buf c] g that by (cases "upgrade (parser m)") (simp_all add: leave_after_def run_Return upd_parser_def)
  show ?thesis
  proof (cases "on_message_complete S")
    case None
    let ?u = "\<lambda>l. l\<lparr>p_state := new_message (parser l)\<rparr>"
    have m: "at_message_done S l' = (if upgrade (parser (?u l')) then leave_after (?u l') else Break (?u l'))" for l'
      by (simp add: at_message_done_def callback_notify_def None update_state_def)
    have c: "?u (l\<lparr>cur := c\<rparr>) = (?u l)\<lparr>cur := c\<rparr>" by simp
    have "run S buf (at_message_done S (l\<lparr>cur := c\<rparr>)) = run S buf (at_message_done S l)"
      using b [of "?u l"] assms(2) unfolding m [of "l\<lparr>cur := c\<rparr>"] m [of l] c by (simp add: step_def m)
    then show ?thesis using assms(2) by (simp add: run_Reexecute step_def)
  next
    case (Some f)
    then obtain rc h where f: "\<And>q. f q = (rc (pdata q), q\<lparr>pdata := h (pdata q)\<rparr>)" using notify_law [of f] by (auto simp: notify_cbs_def)
    let ?m = "\<lambda>l. l\<lparr>parser := (parser l)\<lparr>state := new_message (parser l), pdata := h (pdata (parser l))\<rparr>, p_state := new_message (parser l)\<rparr>"
    have m: "at_message_done S l' = (if rc (pdata (parser l')) \<noteq> 0 then Return (pos l' + 1) (upd_parser (\<lambda>q. q\<lparr>http_errno := HPE_CB_message_complete\<rparr>) (?m l'))
      else if upgrade (parser (?m l')) then leave_after (?m l') else Break (?m l'))" if "http_errno (parser l') = HPE_OK" for l'
      using that by (simp add: at_message_done_def callback_notify_def Some f Let_def update_state_def upd_parser_def)
    have o: "http_errno (parser l) = HPE_OK" "http_errno (parser (l\<lparr>cur := c\<rparr>)) = HPE_OK" using assms(1) by (simp_all add: local_inv_def)
    have c: "?m (l\<lparr>cur := c\<rparr>) = (?m l)\<lparr>cur := c\<rparr>" by simp
    have "run S buf (at_message_done S (l\<lparr>cur := c\<rparr>)) = run S buf (at_message_done S l)"
    proof (cases "rc (pdata (parser l)) = 0")
      case True
      then show ?thesis using b [of "?m l"] m [OF o(1)] m [OF o(2)] assms(2) unfolding c by (simp add: step_def)
    qed (simp add: m o run_Return upd_parser_def)
    then show ?thesis using assms(2) by (simp add: run_Reexecute step_def)
  qed
qed

lemma run_with_cur:
  assumes "good (length buf) l r" "\<forall>l2. r = Reexecute l2 \<longrightarrow> p_state l2 = s_message_done" "length buf < 2 ^ 64"
  shows "run S buf (with_cur c r) = run S buf r"
  using assms by (cases r) (simp_all add: run_break_cur run_done_cur)

lemma good_with_cur: "good n l (with_cur c r) = good n l r"
  by (cases r) (simp_all add: local_inv_nread)

section \<open>A buffer in two parts\<close>

definition cut_ok :: "byte list \<Rightarrow> byte list \<Rightarrow> (nat \<times> 'w http_parser) option \<Rightarrow> (nat \<times> 'w http_parser) option \<Rightarrow> bool" where
  "cut_ok xs ys X Y \<longleftrightarrow> (\<exists>n q. X = Some (n, q) \<and> (http_errno q = HPE_HEADER_OVERFLOW
     \<or> (http_errno q \<noteq> HPE_OK \<or> upgrade q) \<and> Y = X
     \<or> http_errno q = HPE_OK \<and> n = length xs \<and> parser_inv (state q) q \<and> runs_rel xs Y (http_parser_execute S ys q)))"

lemma cut_end:
  assumes l: "local_inv l" "pos l = length xs" "\<And>F j. marks l F = Some j \<Longrightarrow> j < length xs" and ys: "ys \<noteq> []"
    and Y: "\<And>l2 c. rel0 emit xs (l\<lparr>cur := c\<rparr>) l2 \<Longrightarrow> local_inv l2 \<Longrightarrow> pos l2 = 0 \<Longrightarrow> runs_rel xs Y (run S ys (next_byte S ys l2))"
  shows "cut_ok xs ys (run S xs (next_byte S xs l)) Y"
proof -
  obtain l3 where f: "finish_marks S xs l = Return (length xs) l3" "rel0 emit xs (l\<lparr>cur := 0\<rparr>) (init_local (parser l3))"
    "local_inv (init_local (parser l3))" "http_errno (parser l3) = HPE_OK"
    using cut_finish [OF l(1,2)] l(3) by blast
  have "runs_rel xs Y (http_parser_execute S ys (parser l3))"
    using Y [OF f(2,3)] f(4) ys by (simp add: http_parser_execute_def init_local_def)
  moreover have "run S xs (next_byte S xs l) = Some (length xs, parser l3)"
    using l(2) f(1) by (simp add: next_byte_def run_Return)
  moreover have "parser_inv (state (parser l3)) (parser l3)" using f(3) by (simp add: local_inv_def init_local_def)
  ultimately show ?thesis using f(4) by (simp add: cut_ok_def)
qed

lemma cut_next:
  assumes l: "local_inv l" "pos l \<le> length xs" "\<And>F j. marks l F = Some j \<Longrightarrow> j < length xs" and ys: "ys \<noteq> []"
    and len: "length (xs @ ys) < 2 ^ 64"
    and e: "\<And>l2. local_inv l2 \<Longrightarrow> pos l2 = pos l \<Longrightarrow> pos l2 < length xs \<Longrightarrow> cut_ok xs ys (run S xs (Reexecute l2)) (run S (xs @ ys) (Reexecute l2))"
  shows "cut_ok xs ys (run S xs (next_byte S xs l)) (run S (xs @ ys) (next_byte S (xs @ ys) l))"
proof (cases "pos l = length xs")
  case True
  show ?thesis
    by (rule cut_end [OF l(1) True l(3) ys]) (use next_runs0 [OF _ l(1) _ _ len] ys in auto)
next
  case False
  then have p: "pos l < length xs" using l(2) by simp
  then have eq: "next_byte S (xs @ ys) l = next_byte S xs l" by (simp add: next_byte_def Let_def nth_append)
  show ?thesis
    using next_byte_ok [OF l(1,2)] p
  proof (elim disjE exE conjE)
    fix l2 assume "next_byte S xs l = Reexecute l2" "local_inv l2" "pos l2 = pos l"
    then show ?thesis using e [of l2] p eq by simp
  next
    fix l2 assume "next_byte S xs l = Goto_error l2" "http_errno (parser l2) \<noteq> HPE_OK"
    then show ?thesis using eq by (simp add: cut_ok_def run_Goto_error)
  next
    assume "finish_ok (length xs) (next_byte S xs l)"
    moreover have "next_byte S xs l \<noteq> Return n l2" for n l2
      using p by (simp add: next_byte_def Let_def count_header_size_def fail_with_def)
    ultimately show ?thesis by (auto simp: finish_ok_def)
  qed
qed

lemma cut_crossing:
  assumes l: "local_inv l" "pos l < length xs" and ys: "ys \<noteq> []" and len: "length (xs @ ys) < 2 ^ 64"
    and s: "step S xs l = Break l1" "pos l1 = length xs - 1" "p_state l1 = p_state l"
    and x: "\<And>c l2. rel0 emit xs (l1\<lparr>pos := length xs, cur := c\<rparr>) l2 \<Longrightarrow> pos l2 = 0 \<Longrightarrow> orel emit xs (step S (xs @ ys) l) (step S ys l2)
       \<or> (\<exists>c'. orel emit xs (with_cur c' (step S (xs @ ys) l)) (step S ys l2) \<and> (\<forall>l3. step S (xs @ ys) l = Reexecute l3 \<longrightarrow> p_state l3 = s_message_done))"
  shows "cut_ok xs ys (run S xs (Break l1)) (run S (xs @ ys) (step S (xs @ ys) l))"
proof -
  have g1: "local_inv l1" using step_good [OF l] len s(1) by simp
  let ?n = "l1\<lparr>pos := pos l1 + 1\<rparr>" and ?R = "step S (xs @ ys) l"
  have pn: "pos ?n = length xs" using s(2) l(2) by simp
  have n: "local_inv ?n" by (rule local_inv_pos [OF g1]) simp
  have mk: "j < length xs" if "marks ?n F = Some j" for F j
    using local_inv_le [OF g1, of F j] that s(2) l(2) by simp
  have G: "good (length (xs @ ys)) l ?R" by (rule step_good [OF l(1) _ len]) (use l(2) in simp)
  have one: "runs_rel xs (run S (xs @ ys) ?R) (run S ys (Reexecute l2))"
    if r: "rel0 emit xs (l1\<lparr>pos := length xs, cur := c\<rparr>) l2" "local_inv l2" "pos l2 = 0" for c l2
  proof -
    have g2: "good (length ys) l2 (step S ys l2)" by (rule step_good) (use that ys len in simp_all)
    have "runs_rel xs (run S (xs @ ys) ?R) (run S ys (step S ys l2))"
      using x [OF r(1,3)]
    proof (elim disjE exE conjE)
      assume "orel emit xs ?R (step S ys l2)"
      then show ?thesis by (rule orel_runs [OF _ G g2 len])
    next
      fix c' assume "orel emit xs (with_cur c' ?R) (step S ys l2)" and d: "\<forall>l3. ?R = Reexecute l3 \<longrightarrow> p_state l3 = s_message_done"
      then have "runs_rel xs (run S (xs @ ys) (with_cur c' ?R)) (run S ys (step S ys l2))"
        by (intro orel_runs [OF _ _ g2 len, where l = l]) (use G in \<open>simp_all add: good_with_cur\<close>)
      then show ?thesis by (simp only: run_with_cur [OF G d len])
    qed
    then show ?thesis by (simp add: run_Reexecute)
  qed
  obtain y where y: "run S (xs @ ys) ?R = Some y" using run_outcome [OF G len] by blast
  have "cut_ok xs ys (run S xs (next_byte S xs ?n)) (run S (xs @ ys) ?R)"
  proof (rule cut_end [OF n pn mk ys], assumption)
    fix l2 c assume r: "rel0 emit xs (?n\<lparr>cur := c\<rparr>) l2" "local_inv l2" "pos l2 = 0"
    let ?d = "ys ! 0"
    have r': "rel0 emit xs (l1\<lparr>pos := length xs, cur := ?d\<rparr>) (l2\<lparr>cur := ?d\<rparr>)" using rel0_cur [OF r(1)] pn by simp
    have p2: "pos l2 \<noteq> length ys" using r(3) ys by simp
    show "runs_rel xs (run S (xs @ ys) ?R) (run S ys (next_byte S ys l2))"
    proof (cases "parsing_header (p_state l2)")
      case False
      then show ?thesis using one [OF r'] r(2,3) p2 by (simp add: next_byte_def Let_def local_inv_nread)
    next
      case True
      let ?m = "l2\<lparr>cur := ?d, parser := (parser l2)\<lparr>nread := nread (parser l2) + 1\<rparr>\<rparr>"
      have nb: "next_byte S ys l2 = (if nread (parser l2) + 1 > HTTP_MAX_HEADER_SIZE then fail_with HPE_HEADER_OVERFLOW ?m else Reexecute ?m)"
        using True p2 r(3) by (simp add: next_byte_def Let_def count_header_size_def upd_parser_def)
      have "rel0 emit xs (l1\<lparr>pos := length xs, cur := ?d\<rparr>) ?m"
        using rel0_nread [OF r', of "nread (parser l2) + 1"] by simp
      then have "runs_rel xs (run S (xs @ ys) ?R) (run S ys (Reexecute ?m))"
        by (rule one) (use r(2,3) in \<open>simp_all add: local_inv_nread\<close>)
      moreover have "runs_rel xs (run S (xs @ ys) ?R) (run S ys (fail_with HPE_HEADER_OVERFLOW ?m))"
        using y by (cases y) (simp add: fail_with_def upd_parser_def run_Goto_error runs_rel_overflow)
      ultimately show ?thesis using nb by simp
    qed
  qed
  then show ?thesis by (simp add: run_Break)
qed

lemma cut_run:
  assumes ys: "ys \<noteq> []" and len: "length (xs @ ys) \<le> unat HTTP_MAX_HEADER_SIZE"
  shows "local_inv l \<Longrightarrow> pos l < length xs \<Longrightarrow> cut_ok xs ys (run S xs (Reexecute l)) (run S (xs @ ys) (Reexecute l))"
proof (induction "5 * (length xs - pos l) + rank (p_state l)" arbitrary: l rule: less_induct)
  case less
  have l64: "length (xs @ ys) < 2 ^ 64" using len by (simp add: HTTP_MAX_HEADER_SIZE_def)
  have g: "good (length xs) l (step S xs l)" by (rule step_good [OF less.prems]) (use l64 in simp)
  have brk: "cut_ok xs ys (run S xs (Break l2)) (run S (xs @ ys) (Break l2))" if "step S xs l = Break l2" for l2
  proof -
    have l2: "local_inv l2" "pos l \<le> pos l2" "pos l2 < length xs" using g that by simp_all
    let ?n = "l2\<lparr>pos := pos l2 + 1\<rparr>"
    have "cut_ok xs ys (run S xs (next_byte S xs ?n)) (run S (xs @ ys) (next_byte S (xs @ ys) ?n))"
    proof (rule cut_next [OF _ _ _ ys l64])
      show "local_inv ?n" by (rule local_inv_pos [OF l2(1)]) simp
      show "j < length xs" if "marks ?n F = Some j" for F j using local_inv_le [OF l2(1), of F j] l2(3) that by simp
      show "cut_ok xs ys (run S xs (Reexecute l3)) (run S (xs @ ys) (Reexecute l3))"
        if "local_inv l3" "pos l3 = pos ?n" "pos l3 < length xs" for l3
      proof (rule less.hyps [OF _ that(1,3)])
        show "5 * (length xs - pos l3) + rank (p_state l3) < 5 * (length xs - pos l) + rank (p_state l)"
          using l2(2) that(2,3) rank_le [of "p_state l3"] by simp
      qed
    qed (use l2 in simp)
    then show ?thesis by (simp add: run_Break)
  qed
  have same: "cut_ok xs ys (run S xs (step S xs l)) (run S (xs @ ys) (step S xs l))"
  proof (cases "step S xs l")
    case (Reexecute l2)
    have l2: "local_inv l2" "pos l \<le> pos l2" "pos l2 < length xs" "rank (p_state l2) < rank (p_state l)" using g Reexecute by simp_all
    have "5 * (length xs - pos l2) + rank (p_state l2) < 5 * (length xs - pos l) + rank (p_state l)"
      using l2(4) diff_le_mono2 [OF l2(2), of "length xs"] by linarith
    then show ?thesis using less.hyps [OF _ l2(1,3)] Reexecute by simp
  qed (use brk g in \<open>auto simp: cut_ok_def run_Return run_Goto_error\<close>)
  have "cut_ok xs ys (run S xs (step S xs l)) (run S (xs @ ys) (step S (xs @ ys) l))"
    using cross_step [OF less.prems ys len] unfolding crosses_def
  proof (elim disjE exE conjE)
    assume "overflow (step S xs l)"
    then show ?thesis using overflow_result [of "step S xs l" xs] by (auto simp: cut_ok_def)
  next
    fix l1 assume s: "step S xs l = Break l1" "pos l1 = length xs - 1" "p_state l1 = p_state l"
      and x: "\<forall>c l2. rel0 emit xs (l1\<lparr>pos := length xs, cur := c\<rparr>) l2 \<longrightarrow> pos l2 = 0 \<longrightarrow> orel emit xs (step S (xs @ ys) l) (step S ys l2)
       \<or> (\<exists>c'. orel emit xs (with_cur c' (step S (xs @ ys) l)) (step S ys l2) \<and> (\<forall>l3. step S (xs @ ys) l = Reexecute l3 \<longrightarrow> p_state l3 = s_message_done))"
    show ?thesis unfolding s(1) by (rule cut_crossing [OF less.prems ys l64 s]) (use x in blast)
  qed (use same in simp)
  then show ?case by (simp add: run_Reexecute)
qed

lemmas execute_returns = http_parser_execute_ok

lemma execute_cut:
  assumes "http_errno q = HPE_OK" "parser_inv (state q) q" "xs \<noteq> []" "ys \<noteq> []" "length (xs @ ys) \<le> unat HTTP_MAX_HEADER_SIZE"
  shows "cut_ok xs ys (http_parser_execute S xs q) (http_parser_execute S (xs @ ys) q)"
proof -
  have l64: "length (xs @ ys) < 2 ^ 64" using assms(5) by (simp add: HTTP_MAX_HEADER_SIZE_def)
  have "cut_ok xs ys (run S xs (next_byte S xs (init_local q))) (run S (xs @ ys) (next_byte S (xs @ ys) (init_local q)))"
  proof (rule cut_next [OF init_local_inv [OF assms(1,2)] _ _ assms(4) l64])
    show "j < length xs" if "marks (init_local q) F = Some j" for F j
      using that assms(3) by (auto simp: init_local_def start_marks_def split: if_splits)
    show "cut_ok xs ys (run S xs (Reexecute l2)) (run S (xs @ ys) (Reexecute l2))" if "local_inv l2" "pos l2 < length xs" for l2
      by (rule cut_run [OF assms(4,5) that])
  qed (simp add: init_local_def)
  then show ?thesis using assms by (simp add: http_parser_execute_def)
qed

end

section \<open>Where the input is cut does not matter\<close>

text \<open>
  C2: a buffer given in two calls has the effect of one call on the whole. When the first part ends
  in an error the whole ends in the same one at the same place; otherwise the second call goes on
  where the first stopped, and the two ways end at the same position with the same error, or with
  the same parser, which agrees in everything but the header count \<open>nread\<close>, and the same object of
  the application. Left out are a header overflow, whose count does depend on the cut, and a stop at
  a protocol upgrade, after which the rest is not HTTP.
\<close>

theorem http_parser_execute_chunks:
  assumes "streaming_callbacks S emit" "http_errno q = HPE_OK" "parser_inv (state q) q" "xs \<noteq> []" "ys \<noteq> []"
    and "length (xs @ ys) \<le> unat HTTP_MAX_HEADER_SIZE"
  shows "\<exists>n q1 N Q. http_parser_execute S xs q = Some (n, q1) \<and> http_parser_execute S (xs @ ys) q = Some (N, Q) \<and>
     (http_errno q1 \<noteq> HPE_HEADER_OVERFLOW \<and> http_errno Q \<noteq> HPE_HEADER_OVERFLOW \<longrightarrow>
       (http_errno q1 \<noteq> HPE_OK \<or> upgrade q1) \<and> N = n \<and> Q = q1
       \<or> http_errno q1 = HPE_OK \<and> n = length xs \<and> parser_inv (state q1) q1
         \<and> (\<exists>n2 q2. http_parser_execute S ys q1 = Some (n2, q2) \<and> (http_errno q2 \<noteq> HPE_HEADER_OVERFLOW \<longrightarrow>
              N = n + n2 \<and> http_errno q2 = http_errno Q \<and> (http_errno Q = HPE_OK \<longrightarrow> same_parser Q q2))))"
proof -
  have l64: "length (xs @ ys) < 2 ^ 64" using assms(6) by (simp add: HTTP_MAX_HEADER_SIZE_def)
  have c: "streaming_callbacks.cut_ok S xs ys (http_parser_execute S xs q) (http_parser_execute S (xs @ ys) q)"
    by (rule streaming_callbacks.execute_cut [OF assms])
  obtain N Q where Q: "http_parser_execute S (xs @ ys) q = Some (N, Q)"
    using streaming_callbacks.execute_returns [OF assms(1-3) _ l64] assms(4) by auto
  show ?thesis
    using c Q unfolding streaming_callbacks.cut_ok_def [OF assms(1)]
    by (elim exE conjE disjE) (auto simp: runs_rel_def result_rel_def)
qed

lemma streaming_settings_init: "streaming_callbacks (http_parser_settings_init :: 'w http_parser_settings) (\<lambda>F d w. w)"
proof
  fix F g and q :: "'w http_parser" and d assume "on_data F (http_parser_settings_init :: 'w http_parser_settings) = Some g"
  then show "g q d = (0, q\<lparr>pdata := pdata q\<rparr>)" by (cases F) (simp_all add: http_parser_settings_init_def)
qed (simp_all add: notify_cbs_def http_parser_settings_init_def)

theorem http_parser_execute_chunks_witness:
  "\<exists>n q1 N Q. http_parser_execute http_parser_settings_init (ascii ''GET /a'') (http_parser_init HTTP_REQUEST ()) = Some (n, q1)
     \<and> http_parser_execute http_parser_settings_init (ascii ''GET /ab'') (http_parser_init HTTP_REQUEST ()) = Some (N, Q)"
  using http_parser_execute_chunks [OF streaming_settings_init, of "http_parser_init HTTP_REQUEST ()" "ascii ''GET /a''" "ascii ''b''"]
    parser_inv_init [of HTTP_REQUEST "()"]
  by (auto simp: http_parser_init_def ascii_def HTTP_MAX_HEADER_SIZE_def)

end
