(* ===== verification/HttpParserFrame.thy ===== *)
theory HttpParserFrame
  imports HttpParserChunks
begin

text \<open>
  Two more invariants of the parser. The header count grows by at most two for each byte, so a
  message of at most half the limit cannot overflow it, however it is cut. And the application is
  called in order: a piece of a header value comes only after a header name. The contract with the
  application is that its callbacks keep its object fine under this order.
\<close>

section \<open>The contract of the callbacks\<close>

definition value_states :: "state set" where
  "value_states = {s_header_value_discard_ws, s_header_value_discard_ws_almost_done, s_header_value_discard_lws, s_header_value_start,
     s_header_value, s_header_value_lws, s_header_almost_done}"

lemma value_states_simps [simp]:
  shows
    "s_header_value_discard_ws \<in> value_states" "s_header_value_discard_ws_almost_done \<in> value_states"
    "s_header_value_discard_lws \<in> value_states" "s_header_value_start \<in> value_states" "s_header_value \<in> value_states"
    "s_header_value_lws \<in> value_states" "s_header_almost_done \<in> value_states" "s_dead \<notin> value_states"
    "s_start_req_or_res \<notin> value_states" "s_res_or_resp_H \<notin> value_states" "s_start_res \<notin> value_states"
    "s_res_H \<notin> value_states" "s_res_HT \<notin> value_states" "s_res_HTT \<notin> value_states" "s_res_HTTP \<notin> value_states"
    "s_res_first_http_major \<notin> value_states" "s_res_http_major \<notin> value_states" "s_res_first_http_minor \<notin> value_states"
    "s_res_http_minor \<notin> value_states" "s_res_first_status_code \<notin> value_states" "s_res_status_code \<notin> value_states"
    "s_res_status_start \<notin> value_states" "s_res_status \<notin> value_states" "s_res_line_almost_done \<notin> value_states"
    "s_start_req \<notin> value_states" "s_req_method \<notin> value_states" "s_req_spaces_before_url \<notin> value_states"
    "s_req_schema \<notin> value_states" "s_req_schema_slash \<notin> value_states" "s_req_schema_slash_slash \<notin> value_states"
    "s_req_server_start \<notin> value_states" "s_req_server \<notin> value_states" "s_req_server_with_at \<notin> value_states"
    "s_req_path \<notin> value_states" "s_req_query_string_start \<notin> value_states" "s_req_query_string \<notin> value_states"
    "s_req_fragment_start \<notin> value_states" "s_req_fragment \<notin> value_states" "s_req_http_start \<notin> value_states"
    "s_req_http_H \<notin> value_states" "s_req_http_HT \<notin> value_states" "s_req_http_HTT \<notin> value_states"
    "s_req_http_HTTP \<notin> value_states" "s_req_first_http_major \<notin> value_states" "s_req_http_major \<notin> value_states"
    "s_req_first_http_minor \<notin> value_states" "s_req_http_minor \<notin> value_states" "s_req_line_almost_done \<notin> value_states"
    "s_header_field_start \<notin> value_states" "s_header_field \<notin> value_states" "s_chunk_size_start \<notin> value_states"
    "s_chunk_size \<notin> value_states" "s_chunk_parameters \<notin> value_states" "s_chunk_size_almost_done \<notin> value_states"
    "s_headers_almost_done \<notin> value_states" "s_headers_done \<notin> value_states" "s_chunk_data \<notin> value_states"
    "s_chunk_data_almost_done \<notin> value_states" "s_chunk_data_done \<notin> value_states" "s_body_identity \<notin> value_states"
    "s_body_identity_eof \<notin> value_states" "s_message_done \<notin> value_states"
  by (simp_all add: value_states_def)

locale ordered_callbacks = passive_callbacks S for S :: "'w http_parser_settings" +
  fixes fine named :: "'w \<Rightarrow> bool"
  assumes notify_fine: "Some f \<in> notify_cbs S \<Longrightarrow> fine (pdata q) \<Longrightarrow> fine (pdata (snd (f q))) \<and> (named (pdata q) \<longrightarrow> named (pdata (snd (f q))))"
    and data_fine: "on_data F S = Some g \<Longrightarrow> fine (pdata q) \<Longrightarrow> (F = For_header_value \<Longrightarrow> named (pdata q)) \<Longrightarrow>
      fine (pdata (snd (g q d))) \<and> (F = For_header_field \<or> named (pdata q) \<longrightarrow> named (pdata (snd (g q d))))"
    and no_field: "on_data For_header_field S = None \<Longrightarrow> fine w \<Longrightarrow> named w"
begin

definition app :: "state \<Rightarrow> 'w \<Rightarrow> bool" where
  "app s w \<longleftrightarrow> fine w \<and> (s \<in> value_states \<longrightarrow> named w)"

text \<open>\<open>b\<close> is the count at the start of the buffer of \<open>n\<close> bytes.\<close>

fun keeps :: "nat \<Rightarrow> nat \<Rightarrow> 'w outcome \<Rightarrow> bool" where
  "keeps b n (Break l) \<longleftrightarrow> app (p_state l) (pdata (parser l)) \<and> unat (nread (parser l)) \<le> b + 2 * pos l + 2"
| "keeps b n (Reexecute l) \<longleftrightarrow> app (p_state l) (pdata (parser l)) \<and> unat (nread (parser l)) \<le> b + 2 * pos l + 1"
| "keeps b n (Goto_error l) \<longleftrightarrow> fine (pdata (parser l)) \<and> (http_errno (parser l) = HPE_HEADER_OVERFLOW \<longrightarrow> unat HTTP_MAX_HEADER_SIZE < b + 2 * n)"
| "keeps b n (Return m l) \<longleftrightarrow> fine (pdata (parser l)) \<and> http_errno (parser l) \<noteq> HPE_HEADER_OVERFLOW \<and> unat (nread (parser l)) \<le> b + 2 * n
     \<and> (http_errno (parser l) = HPE_OK \<longrightarrow> app (state (parser l)) (pdata (parser l)))"
| "keeps b n Undefined \<longleftrightarrow> True"

definition entry :: "nat \<Rightarrow> nat \<Rightarrow> 'w local \<Rightarrow> bool" where
  "entry b n l \<longleftrightarrow> local_inv l \<and> pos l < n \<and> app (p_state l) (pdata (parser l)) \<and> unat (nread (parser l)) \<le> b + 2 * pos l + 1"

lemma entryD: "entry b n l \<Longrightarrow> local_inv l \<and> http_errno (parser l) = HPE_OK \<and> pos l < n \<and> fine (pdata (parser l))
    \<and> (p_state l \<in> value_states \<longrightarrow> named (pdata (parser l))) \<and> unat (nread (parser l)) \<le> b + 2 * pos l + 1"
  by (simp add: entry_def app_def local_inv_def)

lemma keeps_fail: "fine (pdata (parser l)) \<Longrightarrow> e \<noteq> HPE_HEADER_OVERFLOW \<Longrightarrow> keeps b n (fail_with e l)"
  by (simp add: fail_with_def upd_parser_def)

lemma keeps_notify:
  assumes "cb \<in> notify_cbs S" "e \<noteq> HPE_HEADER_OVERFLOW" "e \<noteq> HPE_OK" "http_errno (parser l) = HPE_OK" "fine (pdata (parser l))"
    and "unat (nread (parser l)) \<le> b + 2 * n" "keeps b n (k l)"
    and k: "\<And>w. fine w \<Longrightarrow> (named (pdata (parser l)) \<Longrightarrow> named w) \<Longrightarrow> keeps b n (k (l\<lparr>parser := (parser l)\<lparr>state := p_state l, pdata := w\<rparr>\<rparr>))"
  shows "keeps b n (callback_notify cb e m l k)"
proof (cases cb)
  case (Some f)
  obtain rc q where f: "f ((parser l)\<lparr>state := p_state l\<rparr>) = (rc, q)" by fastforce
  obtain w where q: "q = (parser l)\<lparr>state := p_state l, pdata := w\<rparr>"
    using notify_passive [of f "(parser l)\<lparr>state := p_state l\<rparr>"] assms(1) Some f by auto
  have w: "fine w" "named (pdata (parser l)) \<longrightarrow> named w"
    using notify_fine [of f "(parser l)\<lparr>state := p_state l\<rparr>"] assms(1,5) Some f q by auto
  have "l\<lparr>parser := q, p_state := p_state l\<rparr> = l\<lparr>parser := q\<rparr>" by simp
  then show ?thesis using assms(2-4,6) k [of w] w by (cases "rc = 0") (auto simp: callback_notify_def Some f Let_def q)
qed (simp add: callback_notify_def assms)

lemma keeps_data:
  assumes "http_errno (parser l) = HPE_OK" "fine (pdata (parser l))" "marks l F \<noteq> None \<Longrightarrow> F = For_header_value \<Longrightarrow> named (pdata (parser l))"
    and "unat (nread (parser l)) \<le> b + 2 * n" "marks l F = None \<Longrightarrow> keeps b n (k l)"
    and "marks l F \<noteq> None \<Longrightarrow> (F = For_header_field \<Longrightarrow> named (pdata (parser l))) \<Longrightarrow> keeps b n (k (l\<lparr>marks := (marks l)(F := None)\<rparr>))"
    and k: "\<And>w. marks l F \<noteq> None \<Longrightarrow> fine w \<Longrightarrow> (F = For_header_field \<or> named (pdata (parser l)) \<Longrightarrow> named w) \<Longrightarrow>
        keeps b n (k (l\<lparr>parser := (parser l)\<lparr>state := p_state l, pdata := w\<rparr>, marks := (marks l)(F := None)\<rparr>))"
  shows "keeps b n (callback_data F e m S buf l k)"
proof (cases "marks l F")
  case (Some j)
  show ?thesis
  proof (cases "on_data F S")
    case g: (Some g)
    obtain rc q where f: "g ((parser l)\<lparr>state := p_state l\<rparr>) (slice j (e - j) buf) = (rc, q)" by fastforce
    obtain w where q: "q = (parser l)\<lparr>state := p_state l, pdata := w\<rparr>"
      using data_passive [OF g, of "(parser l)\<lparr>state := p_state l\<rparr>" "slice j (e - j) buf"] f by auto
    have w: "fine w" "F = For_header_field \<or> named (pdata (parser l)) \<longrightarrow> named w"
      using data_fine [OF g, of "(parser l)\<lparr>state := p_state l\<rparr>" "slice j (e - j) buf"] assms(2,3) Some f q by auto
    have "HPE_CB F \<noteq> HPE_HEADER_OVERFLOW" "HPE_CB F \<noteq> HPE_OK" by (cases F; simp)+
    moreover have "l\<lparr>parser := q, p_state := p_state l\<rparr> = l\<lparr>parser := q\<rparr>" by simp
    ultimately show ?thesis using assms(1,4) k [of w] w Some by (cases "rc = 0") (auto simp: callback_data_def g f Let_def q)
  next
    case None
    then have "F = For_header_field \<Longrightarrow> named (pdata (parser l))" using no_field assms(2) by simp
    then have "keeps b n (k (l\<lparr>marks := (marks l)(F := None)\<rparr>))" using assms(6) Some by simp
    then show ?thesis using None Some by (simp add: callback_data_def)
  qed
qed (simp add: callback_data_def assms)

lemma keeps_count:
  assumes "fine (pdata (parser l))" "unat (nread (parser l)) + k \<le> b + 2 * n"
    and "\<And>l2. l2 = l\<lparr>parser := (parser l)\<lparr>nread := nread (parser l) + of_nat k\<rparr>\<rparr> \<Longrightarrow> unat (nread (parser l2)) \<le> unat (nread (parser l)) + k \<Longrightarrow> keeps b n (f l2)"
  shows "keeps b n (count_header_size k l f)"
proof -
  have "unat (nread (parser l) + of_nat k) \<le> unat (nread (parser l)) + k"
    by (metis of_nat_add of_nat_unat ucast_id unat_of_nat mod_less_eq_dividend)
  then show ?thesis using assms
    by (auto simp: count_header_size_def Let_def fail_with_def upd_parser_def word_less_nat_alt)
qed

lemmas frame_simps = handler_defs app_def mark_field_def

lemma keeps_status_line:
  assumes "entry b n l"
  shows "keeps b n (at_dead l)" "keeps b n (at_res_or_resp_H l)" "keeps b n (at_res_H l)" "keeps b n (at_res_HT l)" "keeps b n (at_res_HTT l)"
    "keeps b n (at_res_HTTP l)" "keeps b n (at_res_first_http_major l)" "keeps b n (at_res_http_major l)" "keeps b n (at_res_first_http_minor l)"
    "keeps b n (at_res_http_minor l)" "keeps b n (at_res_first_status_code l)" "keeps b n (at_res_status_code l)"
    "keeps b n (at_res_status_start l)" "keeps b n (at_res_line_almost_done l)"
  using entryD [OF assms]
  by (auto simp: at_dead_def at_res_or_resp_H_def at_res_H_def at_res_HT_def at_res_HTT_def at_res_HTTP_def at_res_first_http_major_def
      at_res_http_major_def at_res_first_http_minor_def at_res_http_minor_def at_res_first_status_code_def at_res_status_code_def
      at_res_status_start_def at_res_line_almost_done_def frame_simps)

lemma keeps_request_line:
  assumes "entry b n l"
  shows "keeps b n (at_req_http_start l)" "keeps b n (at_req_http_H l)" "keeps b n (at_req_http_HT l)" "keeps b n (at_req_http_HTT l)"
    "keeps b n (at_req_http_HTTP l)" "keeps b n (at_req_first_http_major l)" "keeps b n (at_req_http_major l)"
    "keeps b n (at_req_first_http_minor l)" "keeps b n (at_req_http_minor l)" "keeps b n (at_req_line_almost_done l)" "keeps b n (at_req_method l)"
  using entryD [OF assms]
  by (auto simp: at_req_http_start_def at_req_http_H_def at_req_http_HT_def at_req_http_HTT_def at_req_http_HTTP_def
      at_req_first_http_major_def at_req_http_major_def at_req_first_http_minor_def at_req_http_minor_def at_req_line_almost_done_def
      at_req_method_def frame_simps split: option.splits)

lemma url_states_not_value: "s \<in> url_states \<Longrightarrow> s \<notin> value_states"
  by (auto simp: url_states_def value_states_def)

lemma keeps_url_char:
  assumes "fine (pdata (parser l))" "unat (nread (parser l)) \<le> b + 2 * pos l + 2"
  shows "keeps b n (let l = update_state (parse_url_char s ch) l in if p_state l = s_dead then fail_with HPE_INVALID_URL l else Break l)"
  using assms parse_url_char_states [of s ch] by (auto simp: update_state_def Let_def keeps_fail app_def url_states_not_value)

lemma keeps_url:
  assumes "entry b n l"
  shows "keeps b n (at_req_spaces_before_url l)" "keeps b n (at_req_schema l)" "keeps b n (at_req_url S buf l)"
proof -
  note e = entryD [OF assms]
  show "keeps b n (at_req_spaces_before_url l)"
  proof (cases "cur l = SP")
    case False
    define l' where "l' = (if meth (parser l) = HTTP_CONNECT then update_state s_req_server_start (mark_field For_url l) else mark_field For_url l)"
    have eqs: "parser (mark_field For_url l) = parser l" "cur l' = cur l" "cur (mark_field For_url l) = cur l" "parser l' = parser l" "pos l' = pos l"
      by (simp_all add: l'_def mark_field_def update_state_def)
    have "keeps b n (let la = update_state (parse_url_char (p_state l') (cur l)) l' in if p_state la = s_dead then fail_with HPE_INVALID_URL la else Break la)"
      by (rule keeps_url_char) (use e eqs in auto)
    then show ?thesis unfolding at_req_spaces_before_url_def if_not_P [OF False] Let_def eqs(1) l'_def [symmetric] eqs(2,3) .
  qed (use e in \<open>simp add: at_req_spaces_before_url_def app_def\<close>)
  show "keeps b n (at_req_schema l)"
  proof (cases "cur l = SP \<or> cur l = CR \<or> cur l = LF")
    case False
    then show ?thesis unfolding at_req_schema_def if_not_P [OF False] by (intro keeps_url_char) (use e in auto)
  qed (use e in \<open>auto simp: at_req_schema_def keeps_fail\<close>)
  show "keeps b n (at_req_url S buf l)"
  proof (cases "cur l = SP \<or> cur l = CR \<or> cur l = LF")
    case False
    then have "\<not> cur l = SP" "\<not> (cur l = CR \<or> cur l = LF)" by simp_all
    then show ?thesis unfolding at_req_url_def if_not_P [OF \<open>\<not> cur l = SP\<close>] if_not_P [OF \<open>\<not> (cur l = CR \<or> cur l = LF)\<close>]
      by (intro keeps_url_char) (use e in auto)
  next
    case True
    then show ?thesis unfolding at_req_url_def
      using e by (auto intro!: keeps_data simp: frame_simps)
  qed
qed

lemma keeps_starts:
  assumes "entry b n l"
  shows "keeps b n (at_start_req_or_res S l)" "keeps b n (at_start_res S l)" "keeps b n (at_start_req S l)" "keeps b n (at_res_status S buf l)"
proof -
  note e = entryD [OF assms]
  show "keeps b n (at_start_req_or_res S l)" "keeps b n (at_start_res S l)"
    unfolding at_start_req_or_res_def at_start_res_def using e by (auto simp: frame_simps notify_cbs_def intro!: keeps_notify)
  show "keeps b n (at_start_req S l)"
    unfolding at_start_req_def using e by (auto simp: frame_simps notify_cbs_def intro!: keeps_notify split: option.splits)
  show "keeps b n (at_res_status S buf l)"
    unfolding at_res_status_def using e by (auto simp: frame_simps intro!: keeps_data)
qed

lemma keeps_header_plain:
  assumes "entry b n l"
  shows "keeps b n (at_header_field_start l)" "p_state l \<in> value_states \<Longrightarrow> keeps b n (at_header_almost_done l)"
    "p_state l \<in> value_states \<Longrightarrow> keeps b n (at_header_value_lws l)"
    "p_state l \<in> value_states \<Longrightarrow> keeps b n (at_header_value_discard_ws_almost_done l)"
    "p_state l \<in> value_states \<Longrightarrow> keeps b n (at_header_value_discard_lws S buf l)"
  using entryD [OF assms]
  by (auto simp: at_header_field_start_def at_header_almost_done_def at_header_value_lws_def at_header_value_discard_ws_almost_done_def
      at_header_value_discard_lws_def frame_simps intro!: keeps_data)

lemma keeps_header_value_start:
  assumes "entry b n l" "p_state l \<in> value_states"
  shows "keeps b n (at_header_value_start l)"
proof -
  note e = entryD [OF assms(1)]
  define l' where "l' = upd_parser (\<lambda>q. q\<lparr>index := 0\<rparr>) (update_state s_header_value (mark_field For_header_value l))"
  have b: "keeps b n (Break (upd_parser f l'))" if "\<And>q. pdata (f q) = pdata q" "\<And>q. nread (f q) = nread q" for f
    using that e assms(2) by (simp add: l'_def handler_defs mark_field_def app_def)
  have b0: "keeps b n (Break l')"
    using e assms(2) by (simp add: l'_def handler_defs mark_field_def app_def)
  have f: "keeps b n (fail_with er l')" if "er \<noteq> HPE_HEADER_OVERFLOW" for er
    using that e by (auto simp: l'_def upd_parser_def update_state_def mark_field_def intro!: keeps_fail)
  show ?thesis
    unfolding at_header_value_start_def Let_def l'_def [symmetric]
    by (cases "header_state (parser l')") (simp_all add: b b0 f del: keeps.simps)
qed

lemma keeps_header_value_discard_ws:
  assumes "entry b n l" "p_state l \<in> value_states"
  shows "keeps b n (at_header_value_discard_ws l)"
  using entryD [OF assms(1)] assms(2) keeps_header_value_start [OF assms] by (auto simp: at_header_value_discard_ws_def handler_defs app_def)

lemma keeps_chunks:
  assumes "entry b n l"
  shows "keeps b n (at_chunk_size_start l)" "keeps b n (at_chunk_size l)" "keeps b n (at_chunk_parameters l)"
    "keeps b n (at_chunk_size_almost_done S l)" "keeps b n (at_chunk_data_done S l)" "keeps b n (at_chunk_data_almost_done S buf l)"
  using entryD [OF assms]
  by (auto simp: at_chunk_size_start_def at_chunk_size_def at_chunk_parameters_def at_chunk_size_almost_done_def at_chunk_data_done_def
      at_chunk_data_almost_done_def frame_simps notify_cbs_def intro!: keeps_notify keeps_data)

lemma new_message_not_value: "new_message q \<notin> value_states"
  using new_message_cases [of q] by (auto simp: value_states_def)

lemma keeps_complete:
  assumes "http_errno (parser l) = HPE_OK" "fine (pdata (parser l))" "unat (nread (parser l)) \<le> b + 2 * pos l + 1" "pos l < n"
    and k: "k = Break \<or> k = leave_after \<or> k = (\<lambda>l. if upgrade (parser l) then leave_after l else Break l)"
  shows "keeps b n (callback_notify (on_message_complete S) HPE_CB_message_complete m (update_state (new_message q) l) k)"
  using k assms(1-4)
  by (intro keeps_notify) (auto simp: notify_cbs_def update_state_def app_def new_message_not_value leave_after_def upd_parser_def)

lemma keeps_ends:
  assumes "entry b n l"
  shows "keeps b n (at_message_done S l)" "keeps b n (at_headers_done S l)"
proof -
  note e = entryD [OF assms]
  show "keeps b n (at_message_done S l)" unfolding at_message_done_def by (rule keeps_complete) (use e in auto)
  define l' where "l' = upd_parser (\<lambda>q. q\<lparr>nread := 0\<rparr>) l"
  have l': "http_errno (parser l') = HPE_OK" "fine (pdata (parser l'))" "unat (nread (parser l')) \<le> b + 2 * pos l' + 1" "pos l' < n"
    using e by (simp_all add: l'_def upd_parser_def)
  have c: "keeps b n (callback_notify (on_message_complete S) HPE_CB_message_complete m (update_state (new_message q) l') Break)"
    "keeps b n (callback_notify (on_message_complete S) HPE_CB_message_complete m (update_state (new_message q) l') leave_after)" for m q
    by (rule keeps_complete [OF l']; simp)+
  have b: "keeps b n (Break (update_state s l'))" if "s \<notin> value_states" for s
    using that l' by (simp add: update_state_def app_def)
  show "keeps b n (at_headers_done S l)"
    unfolding at_headers_done_def strict_check_def Let_def l'_def [symmetric] using e
    by (auto simp: b c keeps_fail simp del: keeps.simps)
qed

lemma keeps_headers_almost_done:
  assumes "entry b n l"
  shows "keeps b n (at_headers_almost_done S l)"
proof -
  note e = entryD [OF assms]
  define l' where "l' = upd_parser (\<lambda>q. q\<lparr>upgrade := upgrade_requested q\<rparr>) (update_state s_headers_done l)"
  define leave where "leave = (\<lambda>l :: 'w local. Return (pos l) (upd_parser (\<lambda>q. q\<lparr>state := p_state l\<rparr>) l))"
  define check where "check = (\<lambda>l. if http_errno (parser l) \<noteq> HPE_OK then leave l else Reexecute l)"
  have l': "http_errno (parser l') = HPE_OK" "fine (pdata (parser l'))" "unat (nread (parser l')) \<le> b + 2 * pos l' + 1" "pos l' < n" "p_state l' = s_headers_done"
    using e by (simp_all add: l'_def upd_parser_def update_state_def)
  have ck: "keeps b n (check l2)" if "http_errno (parser l2) = HPE_OK" "fine (pdata (parser l2))" "nread (parser l2) = nread (parser l')" "pos l2 = pos l'"
      "p_state l2 = s_headers_done" for l2
    using that l' by (simp add: check_def app_def)
  have lv: "keeps b n (leave l2)" if "http_errno (parser l2) = HPE_CB_headers_complete" "fine (pdata (parser l2))" "nread (parser l2) = nread (parser l')"
      "pos l2 = pos l'" for l2
    using that l' by (simp add: leave_def upd_parser_def)
  have t: "keeps b n (callback_notify (on_chunk_complete S) HPE_CB_chunk_complete (pos l) (update_state s_message_done l) Reexecute)"
    by (rule keeps_notify) (use e in \<open>auto simp: notify_cbs_def update_state_def app_def\<close>)
  show ?thesis
  proof (cases "cur l = LF \<and> flags (parser l) AND F_TRAILING = 0")
    case True
    show ?thesis
    proof (cases "on_headers_complete S")
      case None
      then show ?thesis using True ck [of l'] l'
        by (simp add: at_headers_almost_done_def strict_check_def Let_def leave_def check_def l'_def [symmetric])
    next
      case (Some f)
      obtain rc q where f: "f (parser l') = (rc, q)" by fastforce
      obtain w where q: "q = (parser l')\<lparr>pdata := w\<rparr>" using notify_passive [of f "parser l'"] Some f by (auto simp: notify_cbs_def)
      have w: "fine w" using notify_fine [of f "parser l'"] Some f q l'(2) by (auto simp: notify_cbs_def)
      have eq: "at_headers_almost_done S l = (if rc = 0 then check (l'\<lparr>parser := q\<rparr>)
          else if rc = 1 then check (upd_parser (\<lambda>q. q\<lparr>flags := flags q OR F_SKIPBODY\<rparr>) (l'\<lparr>parser := q\<rparr>))
          else leave (upd_parser (\<lambda>q. q\<lparr>http_errno := HPE_CB_headers_complete\<rparr>) (l'\<lparr>parser := q\<rparr>)))"
        using True Some f by (simp add: at_headers_almost_done_def strict_check_def Let_def leave_def check_def l'_def)
      show ?thesis unfolding eq using l' w by (auto simp: q upd_parser_def simp del: keeps.simps intro!: ck lv)
    qed
  qed (use e t in \<open>auto simp: at_headers_almost_done_def strict_check_def Let_def keeps_fail\<close>)
qed

lemma keeps_bodies:
  assumes "entry b (length buf) l" "length buf < 2 ^ 64"
  shows "p_state l = s_body_identity \<Longrightarrow> keeps b (length buf) (at_body_identity S buf l)" "keeps b (length buf) (at_body_identity_eof buf l)"
    "p_state l = s_chunk_data \<Longrightarrow> keeps b (length buf) (at_chunk_data buf l)"
proof -
  note e = entryD [OF assms(1)]
  have tb: "keeps b (length buf) (take_body buf l k)" if c: "content_length (parser l) \<noteq> 0"
    and k: "\<And>l2. fine (pdata (parser l2)) \<Longrightarrow> http_errno (parser l2) = HPE_OK \<Longrightarrow> p_state l2 = p_state l \<Longrightarrow> nread (parser l2) = nread (parser l) \<Longrightarrow> pos l \<le> pos l2 \<Longrightarrow> pos l2 < length buf
       \<Longrightarrow> keeps b (length buf) (k l2)" for k
  proof -
    have p: "0 < unat (min (content_length (parser l)) (of_nat (length buf - pos l)))"
        "unat (min (content_length (parser l)) (of_nat (length buf - pos l))) \<le> length buf - pos l"
      using take_body_pos [OF _ assms(2) c] e by blast+
    show ?thesis unfolding take_body_def Let_def
      by (subst if_not_P) (use p e in \<open>auto simp: mark_field_def upd_parser_def intro!: k\<close>)
  qed
  show "keeps b (length buf) (at_body_identity_eof buf l)"
    using e by (auto simp: at_body_identity_eof_def mark_field_def app_def)
  show "keeps b (length buf) (at_body_identity S buf l)" if "p_state l = s_body_identity"
    unfolding at_body_identity_def
    by (rule tb, use e that in \<open>simp add: inv_defs\<close>) (use e that in \<open>auto simp: update_state_def app_def intro!: keeps_data\<close>)
  show "keeps b (length buf) (at_chunk_data buf l)" if "p_state l = s_chunk_data"
    unfolding at_chunk_data_def
    by (rule tb, use e that in \<open>simp add: inv_defs\<close>) (use e that in \<open>auto simp: update_state_def app_def\<close>)
qed

lemma keeps_header_field:
  assumes "entry b (length buf) l" "p_state l = s_header_field"
  shows "keeps b (length buf) (at_header_field S buf l)"
proof -
  note e = entryD [OF assms(1)]
  obtain rest q where r: "header_field_loop (drop (pos l) buf) (parser l) = (rest, q)" by fastforce
  have le: "length rest \<le> length buf - pos l" and q: "q = (parser l)\<lparr>index := index q, header_state := header_state q\<rparr>"
    using header_field_loop_frame [OF r] by simp_all
  have qe: "http_errno q = HPE_OK" "pdata q = pdata (parser l)" "nread q = nread (parser l)" by (subst q, use e in simp)+
  define p where "p = length buf - length rest"
  have p: "pos l \<le> p" "p \<le> length buf" using le e unfolding p_def by linarith+
  define l' where "l' = l\<lparr>parser := q, pos := p, cur := (if rest = [] then last buf else hd rest)\<rparr>"
  show ?thesis
    unfolding at_header_field_def Let_def r prod.case p_def [symmetric] l'_def [symmetric]
  proof (rule keeps_count, goal_cases)
    case (3 l2)
    have n: "unat (nread (parser l2)) \<le> b + pos l + p + 1" using 3(2) e p by (simp add: l'_def qe) linarith
    have l2: "pos l2 = p" "p_state l2 = s_header_field" "http_errno (parser l2) = HPE_OK" "fine (pdata (parser l2))" "marks l2 = marks l"
      using e assms(2) by (simp_all add: 3(1) l'_def qe)
    consider "p = length buf" | "p \<noteq> length buf" "cur l2 = ch_of CHR '':''" | "p \<noteq> length buf" "cur l2 \<noteq> ch_of CHR '':''" by blast
    then show ?case
    proof cases
      case 1
      moreover have "unat (nread (parser l2)) \<le> b + 2 * (p - 1) + 2" using n 1 e by linarith
      ultimately show ?thesis using l2 by (simp add: app_def)
    next
      case 2
      have "marks l For_header_field \<noteq> None" using e assms(2) by (auto simp: inv_defs start_marks_def)
      then show ?thesis using 2 l2 n p by (auto simp: update_state_def app_def intro!: keeps_data)
    next
      case c: 3
      then show ?thesis using l2 by (simp add: keeps_fail)
    qed
  next
    case 2
    have "unat (nread (parser l)) + (p - pos l) \<le> b + 2 * length buf" using e p by linarith
    then show ?case by (simp add: l'_def qe)
  qed (use e in \<open>simp add: l'_def qe\<close>)
qed

lemma keeps_header_value:
  assumes "entry b (length buf) l" "p_state l = s_header_value"
  shows "keeps b (length buf) (at_header_value S buf l)"
proof -
  note e = entryD [OF assms(1)]
  obtain ve rest h q where r: "header_value_loop (drop (pos l) buf) (header_state (parser l)) (parser l) = (ve, rest, h, q)"
    by (metis prod_cases4)
  note fr = header_value_loop_frame [OF r]
  have le: "length rest \<le> length buf - pos l" and q: "q = (parser l)\<lparr>index := index q, flags := flags q, content_length := content_length q\<rparr>"
    and ev: "ve = VEnd \<longleftrightarrow> rest = []"
    using fr by simp_all
  have qe: "http_errno q = HPE_OK" "pdata q = pdata (parser l)" "nread q = nread (parser l)" by (subst q, use e in simp)+
  define p where "p = length buf - length rest"
  have p: "pos l \<le> p" "p \<le> length buf" "ve \<noteq> VEnd \<Longrightarrow> p < length buf" "ve = VEnd \<Longrightarrow> p = length buf"
    using le e ev length_greater_0_conv [of rest] unfolding p_def by linarith+
  define l' where "l' = l\<lparr>parser := q, pos := p, cur := (if rest = [] then last buf else hd rest)\<rparr>"
  have l': "pos l' = p" "fine (pdata q)" "named (pdata q)" "parser l' = q" using e assms(2) by (simp_all add: l'_def qe)
  show ?thesis
  proof (cases ve)
    case VEnd
    then show ?thesis
      unfolding at_header_value_def Let_def r prod.case p_def [symmetric] l'_def [symmetric]
      using p l' qe e by (auto simp: upd_parser_def app_def intro!: keeps_count)
  next
    case VCr
    then show ?thesis
      unfolding at_header_value_def Let_def r prod.case p_def [symmetric] l'_def [symmetric]
      using p l' qe e by (auto simp: upd_parser_def update_state_def app_def intro!: keeps_data keeps_count)
  next
    case VLf
    then show ?thesis
      unfolding at_header_value_def Let_def r prod.case p_def [symmetric] l'_def [symmetric]
      using p l' qe e by (auto simp: upd_parser_def update_state_def app_def intro!: keeps_data keeps_count)
  next
    case VInvalid
    then show ?thesis
      unfolding at_header_value_def Let_def r prod.case p_def [symmetric] l'_def [symmetric]
      using l' by (simp add: keeps_fail upd_parser_def)
  qed
qed

lemma step_keeps:
  assumes "entry b (length buf) l" "length buf < 2 ^ 64"
  shows "keeps b (length buf) (step S buf l)"
  by (cases "p_state l")
    (simp_all add: step_def keeps_status_line keeps_request_line keeps_url keeps_starts keeps_header_plain keeps_header_value_start
      keeps_header_value_discard_ws keeps_chunks keeps_ends keeps_headers_almost_done keeps_bodies [OF assms] keeps_header_field keeps_header_value assms)

section \<open>Running to the end\<close>

lemma finish_marks_keeps:
  assumes "marks_inv l" "http_errno (parser l) = HPE_OK" "app (p_state l) (pdata (parser l))" "unat (nread (parser l)) \<le> b + 2 * n"
  shows "keeps b n (finish_marks S buf l)"
proof -
  define R where "R = (\<lambda>k :: 'w local \<Rightarrow> 'w outcome. \<forall>l. http_errno (parser l) = HPE_OK \<longrightarrow> fine (pdata (parser l)) \<longrightarrow> (p_state l \<in> value_states \<longrightarrow> named (pdata (parser l)))
     \<longrightarrow> unat (nread (parser l)) \<le> b + 2 * n \<longrightarrow> (marks l For_header_value \<noteq> None \<longrightarrow> p_state l = s_header_value) \<longrightarrow> keeps b n (k l))"
  have d: "R (\<lambda>l. callback_data F e m S buf l k)" if "R k" for F e m k
    using that by (auto simp: R_def intro!: keeps_data)
  have "R (\<lambda>l. Return (length buf) (upd_parser (\<lambda>q. q\<lparr>state := p_state l\<rparr>) l))"
    by (simp add: R_def upd_parser_def app_def)
  then have "R (finish_marks S buf)" unfolding finish_marks_def Let_def by (intro d)
  moreover have "marks l For_header_value \<noteq> None \<longrightarrow> p_state l = s_header_value" using assms(1) by (auto simp: marks_inv_def)
  ultimately show ?thesis using assms(2-4) by (simp add: R_def app_def)
qed

definition result_ok :: "nat \<Rightarrow> nat \<Rightarrow> 'w http_parser \<Rightarrow> bool" where
  "result_ok b n q \<longleftrightarrow> fine (pdata q) \<and> (http_errno q = HPE_OK \<longrightarrow> app (state q) (pdata q) \<and> unat (nread q) \<le> b + 2 * n)
     \<and> (http_errno q = HPE_HEADER_OVERFLOW \<longrightarrow> unat HTTP_MAX_HEADER_SIZE < b + 2 * n)"

lemma next_byte_keeps:
  assumes "local_inv l" "pos l \<le> length buf" "app (p_state l) (pdata (parser l))" "unat (nread (parser l)) \<le> b + 2 * pos l"
  shows "(\<exists>l'. next_byte S buf l = Reexecute l' \<and> entry b (length buf) l' \<and> pos l' = pos l)
    \<or> (\<exists>r. run S buf (next_byte S buf l) = Some r \<and> result_ok b (length buf) (snd r))"
proof (cases "pos l = length buf")
  case True
  then have "next_byte S buf l = finish_marks S buf l" by (simp add: next_byte_def)
  moreover have "keeps b (length buf) (finish_marks S buf l)"
    by (rule finish_marks_keeps) (use assms True in \<open>simp_all add: local_inv_def\<close>)
  moreover obtain l' where "finish_marks S buf l = Return (length buf) l'"
    using finish_marks_ok [of l buf] assms(1) by (auto simp: finish_ok_def local_inv_def finish_inv_def)
  ultimately show ?thesis by (auto simp: run_Return result_ok_def)
next
  case False
  let ?l = "l\<lparr>cur := buf ! pos l\<rparr>"
  show ?thesis
  proof (cases "parsing_header (p_state l)")
    case True
    have "keeps b (length buf) (count_header_size 1 ?l Reexecute)"
      by (rule keeps_count) (use assms False in \<open>auto simp: app_def\<close>)
    then show ?thesis using False True assms
      by (auto simp: next_byte_def Let_def count_header_size_def fail_with_def upd_parser_def entry_def local_inv_nread run_Goto_error result_ok_def
          split: if_splits)
  next
    case p: False
    then show ?thesis using False assms by (simp add: next_byte_def Let_def entry_def local_inv_nread)
  qed
qed

lemma run_keeps:
  assumes "length buf < 2 ^ 64"
  shows "entry b (length buf) l \<Longrightarrow> \<exists>r. run S buf (Reexecute l) = Some r \<and> result_ok b (length buf) (snd r)"
proof (induction "5 * (length buf - pos l) + rank (p_state l)" arbitrary: l rule: less_induct)
  case less
  have inv: "local_inv l" "pos l < length buf" using less.prems by (simp_all add: entry_def)
  have g: "good (length buf) l (step S buf l)" by (rule step_good [OF inv assms])
  have k: "keeps b (length buf) (step S buf l)" by (rule step_keeps [OF less.prems assms])
  show ?case
  proof (cases "step S buf l")
    case (Break l')
    let ?l = "l'\<lparr>pos := pos l' + 1\<rparr>"
    have l': "local_inv ?l" "pos ?l \<le> length buf" "pos l < pos ?l" "app (p_state ?l) (pdata (parser ?l))" "unat (nread (parser ?l)) \<le> b + 2 * pos ?l"
      using g k Break local_inv_pos [of l' "pos l' + 1"] by simp_all
    have nb: "run S buf (Reexecute l) = run S buf (next_byte S buf ?l)"
      by (simp add: run_Reexecute Break run_Break)
    show ?thesis
      using next_byte_keeps [OF l'(1,2,4,5)]
    proof (elim disjE exE conjE)
      fix l2 assume l2: "next_byte S buf ?l = Reexecute l2" "entry b (length buf) l2" "pos l2 = pos ?l"
      have "5 * (length buf - pos l2) + rank (p_state l2) < 5 * (length buf - pos l) + rank (p_state l)"
        using l2(2,3) l'(3) rank_le [of "p_state l2"] unfolding entry_def by linarith
      then show ?thesis using less.hyps [of l2] l2 nb by simp
    qed (auto simp: nb)
  next
    case (Reexecute l')
    have l': "entry b (length buf) l'" "pos l \<le> pos l'" "rank (p_state l') < rank (p_state l)"
      using g k Reexecute by (simp_all add: entry_def)
    have "5 * (length buf - pos l') + rank (p_state l') < 5 * (length buf - pos l) + rank (p_state l)"
      using l'(2,3) diff_le_mono2 [OF l'(2), of "length buf"] by linarith
    then show ?thesis using less.hyps [OF _ l'(1)] by (simp add: run_Reexecute Reexecute)
  qed (use g k in \<open>auto simp: run_Reexecute run_Return run_Goto_error result_ok_def\<close>)
qed

lemma execute_keeps:
  assumes "http_errno q = HPE_OK" "parser_inv (state q) q" "app (state q) (pdata q)" "buf \<noteq> []" "length buf < 2 ^ 64"
  shows "\<exists>m q'. http_parser_execute S buf q = Some (m, q') \<and> result_ok (unat (nread q)) (length buf) q' \<and> done_ok (length buf) (m, q')"
proof -
  have e: "http_parser_execute S buf q = run S buf (next_byte S buf (init_local q))"
    using assms by (simp add: http_parser_execute_def)
  have z: "pos (init_local q) = 0" "parser (init_local q) = q" "p_state (init_local q) = state q" by (simp_all add: init_local_def)
  have "\<exists>r. http_parser_execute S buf q = Some r \<and> result_ok (unat (nread q)) (length buf) (snd r)"
    using next_byte_keeps [OF init_local_inv [OF assms(1,2)], of buf "unat (nread q)", unfolded z, OF le0 assms(3)] run_keeps [OF assms(5)]
    by (auto simp: e)
  moreover have "\<exists>r. http_parser_execute S buf q = Some r \<and> done_ok (length buf) r"
    by (rule http_parser_execute_ok [OF assms(1,2,4,5)])
  ultimately show ?thesis by (metis option.inject prod.collapse)
qed

end

end
