(* ===== verification/HttpUrl.thy ===== *)
theory HttpUrl
  imports HttpParser
begin

text \<open>
  \<^verbatim>\<open>http_parser_parse_url\<close> and \<^verbatim>\<open>http_parse_host\<close> of \<^verbatim>\<open>lib_http/http_parser.c\<close>: a URL is cut into
  fields, each an offset and a length of 16 bits. The result structure is returned updated, also
  where the code returns an error. The buffer is a C string: \<^verbatim>\<open>strtoul\<close> reads it to its end, the
  parser only \<open>n\<close> bytes of it.
\<close>

section \<open>The result structure\<close>

datatype http_parser_url_fields = UF_SCHEMA | UF_HOST | UF_PORT | UF_PATH | UF_QUERY | UF_FRAGMENT | UF_USERINFO

fun uf_num :: "http_parser_url_fields \<Rightarrow> nat" where
  "uf_num UF_SCHEMA = 0"
| "uf_num UF_HOST = 1"
| "uf_num UF_PORT = 2"
| "uf_num UF_PATH = 3"
| "uf_num UF_QUERY = 4"
| "uf_num UF_FRAGMENT = 5"
| "uf_num UF_USERINFO = 6"

record url_field =
  foff :: u16
  flen :: u16

record http_parser_url =
  field_set :: u16
  port :: u16
  field_data :: "http_parser_url_fields \<Rightarrow> url_field"

definition http_parser_url_init :: http_parser_url where
  "http_parser_url_init = \<lparr>field_set = 0, port = 0, field_data = (\<lambda>_. \<lparr>foff = 0, flen = 0\<rparr>)\<rparr>"

definition uf_mask :: "http_parser_url_fields \<Rightarrow> u16" where
  "uf_mask f = push_bit (uf_num f) 1"

definition has_field :: "http_parser_url \<Rightarrow> http_parser_url_fields \<Rightarrow> bool" where
  "has_field u f \<longleftrightarrow> field_set u AND uf_mask f \<noteq> 0"

definition set_field :: "http_parser_url_fields \<Rightarrow> http_parser_url \<Rightarrow> http_parser_url" where
  "set_field f u = u\<lparr>field_set := field_set u OR uf_mask f\<rparr>"

definition upd_field :: "http_parser_url_fields \<Rightarrow> (url_field \<Rightarrow> url_field) \<Rightarrow> http_parser_url \<Rightarrow> http_parser_url" where
  "upd_field f g u = u\<lparr>field_data := (field_data u)(f := g (field_data u f))\<rparr>"

definition longer :: "url_field \<Rightarrow> url_field" where
  "longer x = x\<lparr>flen := flen x + 1\<rparr>"

section \<open>The host\<close>

datatype http_host_state = s_http_host_dead | s_http_userinfo_start | s_http_userinfo | s_http_host_start | s_http_host_v6_start
  | s_http_host | s_http_host_v6 | s_http_host_v6_end | s_http_host_v6_zone_start | s_http_host_v6_zone
  | s_http_host_port_start | s_http_host_port

definition http_parse_host_char :: "http_host_state \<Rightarrow> byte \<Rightarrow> http_host_state" where
  "http_parse_host_char s ch = (
     let end_char = (if ch = ch_of CHR '':'' then s_http_host_port_start else s_http_host_dead);
         zone_char = (if IS_ALPHANUM ch \<or> ch \<in> set (ascii ''%.-_~'') then s_http_host_v6_zone else s_http_host_dead);
         v6_char = (if IS_HEX ch \<or> ch = ch_of CHR '':'' \<or> ch = ch_of CHR ''.'' then s_http_host_v6
           else if s = s_http_host_v6 \<and> ch = ch_of CHR ''%'' then s_http_host_v6_zone_start else s_http_host_dead);
         userinfo_char = (if ch = ch_of CHR ''@'' then s_http_host_start else if IS_USERINFO_CHAR ch then s_http_userinfo else s_http_host_dead);
         port_char = (if IS_NUM ch then s_http_host_port else s_http_host_dead)
     in case s of
       s_http_userinfo \<Rightarrow> userinfo_char
     | s_http_userinfo_start \<Rightarrow> userinfo_char
     | s_http_host_start \<Rightarrow> if ch = ch_of CHR ''['' then s_http_host_v6_start else if IS_HOST_CHAR ch then s_http_host else s_http_host_dead
     | s_http_host \<Rightarrow> if IS_HOST_CHAR ch then s_http_host else end_char
     | s_http_host_v6_end \<Rightarrow> end_char
     | s_http_host_v6 \<Rightarrow> if ch = ch_of CHR '']'' then s_http_host_v6_end else v6_char
     | s_http_host_v6_start \<Rightarrow> v6_char
     | s_http_host_v6_zone \<Rightarrow> if ch = ch_of CHR '']'' then s_http_host_v6_end else zone_char
     | s_http_host_v6_zone_start \<Rightarrow> zone_char
     | s_http_host_port \<Rightarrow> port_char
     | s_http_host_port_start \<Rightarrow> port_char
     | s_http_host_dead \<Rightarrow> s_http_host_dead)"

text \<open>What a character at offset \<open>i\<close> adds to the fields, from the old state \<open>s\<close> to the new one.\<close>

definition host_field :: "nat \<Rightarrow> http_host_state \<Rightarrow> http_host_state \<Rightarrow> http_parser_url \<Rightarrow> http_parser_url" where
  "host_field i s new_s u = (
     let start = (\<lambda>u f. if s = new_s then u else set_field f (upd_field f (\<lambda>_. \<lparr>foff = of_nat i, flen = 0\<rparr>) u));
         begin_host = (\<lambda>u. if s = new_s then u else upd_field UF_HOST (\<lambda>x. x\<lparr>foff := of_nat i\<rparr>) u)
     in case new_s of
       s_http_host \<Rightarrow> upd_field UF_HOST longer (begin_host u)
     | s_http_host_v6 \<Rightarrow> upd_field UF_HOST longer (begin_host u)
     | s_http_host_v6_zone_start \<Rightarrow> upd_field UF_HOST longer u
     | s_http_host_v6_zone \<Rightarrow> upd_field UF_HOST longer u
     | s_http_host_port \<Rightarrow> upd_field UF_PORT longer (start u UF_PORT)
     | s_http_userinfo \<Rightarrow> upd_field UF_USERINFO longer (start u UF_USERINFO)
     | _ \<Rightarrow> u)"

fun host_loop :: "nat \<Rightarrow> byte list \<Rightarrow> http_host_state \<Rightarrow> http_parser_url \<Rightarrow> http_host_state \<times> http_parser_url" where
  "host_loop i [] s u = (s, u)"
| "host_loop i (ch # rest) s u = (let new_s = http_parse_host_char s ch in
     if new_s = s_http_host_dead then (s_http_host_dead, u) else host_loop (i + 1) rest new_s (host_field i s new_s u))"

definition host_end_ok :: "http_host_state \<Rightarrow> bool" where
  "host_end_ok s \<longleftrightarrow> s \<in> {s_http_host, s_http_host_v6_end, s_http_host_port}"

definition http_parse_host :: "byte list \<Rightarrow> http_parser_url \<Rightarrow> bool \<Rightarrow> int \<times> http_parser_url" where
  "http_parse_host buf u found_at = (
     let i = unat (foff (field_data u UF_HOST)); buflen = i + unat (flen (field_data u UF_HOST));
         u = upd_field UF_HOST (\<lambda>x. x\<lparr>flen := 0\<rparr>) u
     in case host_loop i (drop i (take buflen buf)) (if found_at then s_http_userinfo_start else s_http_host_start) u of
          (s, u) \<Rightarrow> (if host_end_ok s then 0 else 1, u))"

section \<open>The URL\<close>

datatype url_field_step = Dead | Delimiter | In_field http_parser_url_fields | Unexpected

definition url_field_of :: "state \<Rightarrow> url_field_step" where
  "url_field_of s = (case s of
       s_dead \<Rightarrow> Dead
     | s_req_schema_slash \<Rightarrow> Delimiter
     | s_req_schema_slash_slash \<Rightarrow> Delimiter
     | s_req_server_start \<Rightarrow> Delimiter
     | s_req_query_string_start \<Rightarrow> Delimiter
     | s_req_fragment_start \<Rightarrow> Delimiter
     | s_req_schema \<Rightarrow> In_field UF_SCHEMA
     | s_req_server_with_at \<Rightarrow> In_field UF_HOST
     | s_req_server \<Rightarrow> In_field UF_HOST
     | s_req_path \<Rightarrow> In_field UF_PATH
     | s_req_query_string \<Rightarrow> In_field UF_QUERY
     | s_req_fragment \<Rightarrow> In_field UF_FRAGMENT
     | _ \<Rightarrow> Unexpected)"

text \<open>The loop over the characters; \<open>old_uf\<close> is \<open>None\<close> for \<^verbatim>\<open>UF_MAX\<close>.\<close>

definition url_char_field :: "nat \<Rightarrow> http_parser_url_fields \<Rightarrow> http_parser_url_fields option \<Rightarrow> http_parser_url \<Rightarrow> http_parser_url" where
  "url_char_field i uf old_uf u = (if old_uf = Some uf then upd_field uf longer u
     else set_field uf (upd_field uf (\<lambda>_. \<lparr>foff = of_nat i, flen = 1\<rparr>) u))"

fun url_loop :: "nat \<Rightarrow> byte list \<Rightarrow> state \<Rightarrow> http_parser_url_fields option \<Rightarrow> bool \<Rightarrow> http_parser_url \<Rightarrow> bool \<times> bool \<times> http_parser_url" where
  "url_loop i [] s old_uf found_at u = (True, found_at, u)"
| "url_loop i (ch # rest) s old_uf found_at u = (let s = parse_url_char s ch in
     case url_field_of s of
       Delimiter \<Rightarrow> url_loop (i + 1) rest s old_uf found_at u
     | In_field uf \<Rightarrow> url_loop (i + 1) rest s (Some uf) (found_at \<or> s = s_req_server_with_at) (url_char_field i uf old_uf u)
     | _ \<Rightarrow> (False, found_at, u))"

text \<open>\<^verbatim>\<open>strtoul\<close> in base 10 with a 64-bit \<^verbatim>\<open>unsigned long\<close>.\<close>

definition strtoul :: "byte list \<Rightarrow> u64" where
  "strtoul xs = (
     let xs = dropWhile (\<lambda>c. c = SP \<or> TAB \<le> c \<and> c \<le> CR) xs;
         neg = (xs \<noteq> [] \<and> hd xs = ch_of CHR ''-'');
         xs = (if xs \<noteq> [] \<and> (hd xs = ch_of CHR ''-'' \<or> hd xs = ch_of CHR ''+'') then tl xs else xs);
         v = foldl (\<lambda>v c. 10 * v + (uint c - 48)) 0 (takeWhile IS_NUM xs)
     in if v \<ge> 0x10000000000000000 then -1 else if neg then - of_int v else of_int v)"

definition http_parser_parse_url :: "byte list \<Rightarrow> nat \<Rightarrow> bool \<Rightarrow> http_parser_url \<Rightarrow> int \<times> http_parser_url" where
  "http_parser_parse_url buf n is_connect u = (
     case url_loop 0 (take n buf) (if is_connect then s_req_server_start else s_req_spaces_before_url) None False (u\<lparr>port := 0, field_set := 0\<rparr>) of
       (ok, found_at, u) \<Rightarrow>
         if \<not> ok then (1, u)
         else if has_field u UF_SCHEMA \<and> \<not> has_field u UF_HOST then (1, u)
         else case (if has_field u UF_HOST then http_parse_host buf u found_at else (0, u)) of
           (rc, u) \<Rightarrow>
             if rc \<noteq> 0 then (1, u)
             else if is_connect \<and> field_set u \<noteq> uf_mask UF_HOST OR uf_mask UF_PORT then (1, u)
             else if has_field u UF_PORT then
               let v = strtoul (drop (unat (foff (field_data u UF_PORT))) buf)
               in if v > 0xffff then (1, u) else (0, u\<lparr>port := ucast v\<rparr>)
             else (0, u))"


section \<open>Fields\<close>

lemma has_field_bit: "has_field u f \<longleftrightarrow> bit (field_set u) (uf_num f)"
  by (simp add: has_field_def uf_mask_def bit_iff_and_push_bit_not_eq_0)

lemma uf_num_inj: "uf_num f = uf_num g \<longleftrightarrow> f = g"
  by (cases f; cases g) simp_all

lemma uf_num_less: "uf_num f < 16"
  by (cases f) simp_all

lemma has_field_simps [simp]:
  "has_field (set_field f u) g \<longleftrightarrow> f = g \<or> has_field u g"
  "has_field (upd_field f h u) g = has_field u g"
  "has_field (u\<lparr>port := v\<rparr>) g = has_field u g"
  "\<not> has_field (u\<lparr>field_set := 0\<rparr>) g"
  using uf_num_less [of g]
  by (auto simp: has_field_bit set_field_def upd_field_def uf_mask_def bit_or_iff bit_push_bit_iff bit_exp_iff uf_num_inj [symmetric])

lemma field_data_simps [simp]:
  "field_data (set_field f u) = field_data u"
  "field_data (upd_field f h u) g = (if f = g then h (field_data u f) else field_data u g)"
  by (simp_all add: set_field_def upd_field_def)

definition span_end :: "http_parser_url \<Rightarrow> http_parser_url_fields \<Rightarrow> nat" where
  "span_end u f = unat (foff (field_data u f)) + unat (flen (field_data u f))"

text \<open>Every field of \<open>F\<close> that is set lies before offset \<open>n\<close>.\<close>

definition spans :: "http_parser_url_fields set \<Rightarrow> nat \<Rightarrow> http_parser_url \<Rightarrow> bool" where
  "spans F n u \<longleftrightarrow> (\<forall>f\<in>F. has_field u f \<longrightarrow> span_end u f \<le> n)"

lemma spans_mono: "spans F n u \<Longrightarrow> n \<le> m \<Longrightarrow> spans F m u"
  by (auto simp: spans_def)

definition host_fields :: "http_parser_url_fields set" where
  "host_fields = {UF_HOST, UF_PORT, UF_USERINFO}"

text \<open>Offsets and lengths are stored modulo \<open>2 ^ 16\<close>, which never makes them larger.\<close>

lemma unat_longer: "unat (flen (longer x)) \<le> unat (flen x) + 1"
  by (simp add: longer_def unat_word_ariths)

lemma unat_offset: "unat (of_nat i :: u16) \<le> i"
  by (simp add: unat_of_nat)

lemma span_longer:
  assumes "span_end u f \<le> i"
  shows "span_end (upd_field f longer u) f \<le> i + 1"
  using assms unat_longer [of "field_data u f"] by (simp add: span_end_def) (simp add: longer_def)

lemma spans_longer:
  assumes "spans F i u" "has_field u f"
  shows "spans F (i + 1) (upd_field f longer u)"
  using assms span_longer [of u f i] by (auto simp: spans_def) (auto simp: span_end_def intro: le_SucI)

lemma spans_start:
  assumes "spans F i u" "unat l \<le> 1"
  shows "spans F (i + 1) (set_field f (upd_field f (\<lambda>_. \<lparr>foff = of_nat i, flen = l\<rparr>) u))"
proof -
  have "unat (of_nat i :: u16) + unat l \<le> Suc i" using unat_offset [of i] assms(2) by simp
  then show ?thesis using assms by (auto simp: spans_def span_end_def intro: le_SucI)
qed

lemma url_field_not_host: "url_field_of s \<noteq> In_field UF_PORT" "url_field_of s \<noteq> In_field UF_USERINFO"
  by (cases s; simp add: url_field_of_def)+

lemma url_loop_spans:
  "spans UNIV i u \<Longrightarrow> (\<forall>f. old_uf = Some f \<longrightarrow> has_field u f) \<Longrightarrow> url_loop i cs s old_uf fa u = (ok, fa', u') \<Longrightarrow>
     spans UNIV (i + length cs) u' \<and> (f \<in> {UF_PORT, UF_USERINFO} \<longrightarrow> has_field u' f = has_field u f)"
proof (induction i cs s old_uf fa u rule: url_loop.induct)
  case (2 i ch rest s old_uf fa u)
  show ?case
  proof (cases "url_field_of (parse_url_char s ch)")
    case Delimiter
    then show ?thesis using 2(1) [OF refl Delimiter] 2(3-) spans_mono [OF 2(3), of "i + 1"] by simp
  next
    case (In_field uf)
    have "spans UNIV (i + 1) (url_char_field i uf old_uf u)"
      using 2(3-) spans_longer [of UNIV i u uf] spans_start [of UNIV i u 1 uf] by (auto simp: url_char_field_def)
    moreover have "has_field (url_char_field i uf old_uf u) uf" using 2(4) by (auto simp: url_char_field_def)
    moreover have "f \<in> {UF_PORT, UF_USERINFO} \<longrightarrow> has_field (url_char_field i uf old_uf u) f = has_field u f"
      using In_field url_field_not_host [of "parse_url_char s ch"] by (auto simp: url_char_field_def)
    ultimately show ?thesis using 2(2) [OF refl In_field] 2(3-) In_field by (simp add: Let_def)
  qed (use 2 spans_mono [OF 2(3), of "i + length (ch # rest)"] in \<open>auto split: prod.splits\<close>)
qed simp

text \<open>The host's fields grow inside the old host.\<close>

definition host_inv :: "nat \<Rightarrow> http_host_state \<Rightarrow> http_parser_url \<Rightarrow> bool" where
  "host_inv i s u \<longleftrightarrow> spans host_fields i u \<and> has_field u UF_HOST \<and> (s = s_http_host_port \<longrightarrow> has_field u UF_PORT)
     \<and> (s = s_http_userinfo \<longrightarrow> has_field u UF_USERINFO)
     \<and> (s \<in> {s_http_userinfo_start, s_http_userinfo, s_http_host_start, s_http_host_v6_start} \<longrightarrow> flen (field_data u UF_HOST) = 0)"

lemma host_char_cases:
  assumes "http_parse_host_char s ch = t" "t \<noteq> s_http_host_dead"
  shows "s \<noteq> t \<and> t = s_http_host \<longrightarrow> s = s_http_host_start"
    "s \<noteq> t \<and> t = s_http_host_v6 \<longrightarrow> s = s_http_host_v6_start"
    "t \<in> {s_http_userinfo_start, s_http_userinfo, s_http_host_start, s_http_host_v6_start} \<longrightarrow>
       s \<in> {s_http_userinfo_start, s_http_userinfo, s_http_host_start, s_http_host_v6_start}"
  using assms by (cases s; auto simp: http_parse_host_char_def Let_def split: if_splits)+

lemma spans_host_start:
  assumes "spans F i u" "flen (field_data u UF_HOST) = 0"
  shows "spans F (i + 1) (upd_field UF_HOST longer (upd_field UF_HOST (\<lambda>x. x\<lparr>foff := of_nat i\<rparr>) u))"
  using assms unat_offset [of i] by (auto simp: spans_def span_end_def longer_def intro: le_SucI)

lemma spans_extend:
  assumes "spans F i u"
  shows "spans F (i + 1) (upd_field f longer (set_field f (upd_field f (\<lambda>_. \<lparr>foff = of_nat i, flen = 0\<rparr>) u)))"
  using assms unat_offset [of i] by (auto simp: spans_def span_end_def longer_def intro: le_SucI)

lemma host_field_inv:
  assumes "host_inv i s u" "http_parse_host_char s ch = t" "t \<noteq> s_http_host_dead"
  shows "host_inv (i + 1) t (host_field i s t u)"
proof -
  have sp: "spans host_fields i u" "has_field u UF_HOST" using assms(1) by (simp_all add: host_inv_def)
  have sp1: "spans host_fields (i + 1) u" using sp(1) by (rule spans_mono) simp
  note c = host_char_cases [OF assms(2,3)]
  note grow = spans_longer [OF sp(1) sp(2)]
  show ?thesis
  proof (cases t)
    case s_http_host
    then show ?thesis using c(1) sp assms(1) grow spans_host_start [OF sp(1)]
      by (cases "s = t") (auto simp: host_inv_def host_field_def Let_def)
  next
    case s_http_host_v6
    then show ?thesis using c(2) sp assms(1) grow spans_host_start [OF sp(1)]
      by (cases "s = t") (auto simp: host_inv_def host_field_def Let_def)
  next
    case s_http_host_port
    then show ?thesis using sp assms(1) spans_longer [OF sp(1), of UF_PORT] spans_extend [OF sp(1), of UF_PORT]
      by (cases "s = t") (auto simp: host_inv_def host_field_def Let_def)
  next
    case s_http_userinfo
    then show ?thesis using c(3) sp assms(1) spans_longer [OF sp(1), of UF_USERINFO] spans_extend [OF sp(1), of UF_USERINFO]
      by (cases "s = t") (auto simp: host_inv_def host_field_def Let_def)
  qed (use c(3) sp sp1 grow assms in \<open>auto simp: host_inv_def host_field_def\<close>)
qed

lemma host_field_frame: "f \<notin> host_fields \<Longrightarrow> has_field (host_field i s t u) f = has_field u f \<and> field_data (host_field i s t u) f = field_data u f"
  by (cases t) (auto simp: host_field_def host_fields_def Let_def)

lemma host_loop_spans:
  "host_inv i s u \<Longrightarrow> host_loop i cs s u = (s', u') \<Longrightarrow>
     spans host_fields (i + length cs) u' \<and> has_field u' UF_HOST
     \<and> (f \<notin> host_fields \<longrightarrow> has_field u' f = has_field u f \<and> field_data u' f = field_data u f)"
proof (induction i cs s u rule: host_loop.induct)
  case (1 i s u)
  then show ?case by (simp add: host_inv_def)
next
  case (2 i ch rest s u)
  show ?case
  proof (cases "http_parse_host_char s ch = s_http_host_dead")
    case True
    then show ?thesis using 2(2,3) spans_mono [of host_fields i u "i + length (ch # rest)"] by (simp add: host_inv_def)
  next
    case False
    then show ?thesis using 2(1) [OF refl False host_field_inv [OF 2(2) refl False]] 2(3) False host_field_frame [of f i s "http_parse_host_char s ch" u] by (simp add: Let_def)
  qed
qed

lemma parse_host_spans:
  assumes "http_parse_host buf u fa = (rc, u')" "spans UNIV n u" "has_field u UF_HOST" "\<not> has_field u UF_PORT" "\<not> has_field u UF_USERINFO"
  shows "spans UNIV n u'"
proof -
  let ?i = "unat (foff (field_data u UF_HOST))" and ?m = "span_end u UF_HOST"
  let ?u = "upd_field UF_HOST (\<lambda>x. x\<lparr>flen := 0\<rparr>) u"
  let ?cs = "drop ?i (take ?m buf)" and ?s = "if fa then s_http_userinfo_start else s_http_host_start"
  obtain s where l: "host_loop ?i ?cs ?s ?u = (s, u')"
    using assms(1) by (auto simp: http_parse_host_def Let_def span_end_def split: prod.splits)
  have m: "?m \<le> n" using assms(2,3) by (simp add: spans_def)
  have im: "?i + length ?cs \<le> ?m" by (simp add: span_end_def)
  have inv: "host_inv ?i ?s ?u" using assms(3-5) by (simp add: host_inv_def spans_def host_fields_def span_end_def)
  have loop: "spans host_fields (?i + length ?cs) u' \<and> (f \<notin> host_fields \<longrightarrow> has_field u' f = has_field ?u f \<and> field_data u' f = field_data ?u f)" for f
    using host_loop_spans [OF inv l, of f] by simp
  have sp: "spans host_fields n u'" by (rule spans_mono [OF conjunct1 [OF loop]]) (use im m in linarith)
  have "span_end u' f \<le> n" if "has_field u' f" for f
  proof (cases "f \<in> host_fields")
    case True
    then show ?thesis using sp that by (simp add: spans_def)
  next
    case False
    then have "has_field u f" "field_data u' f = field_data u f" using loop [of f] that by (auto simp: host_fields_def)
    then show ?thesis using assms(2) by (simp add: spans_def span_end_def)
  qed
  then show ?thesis by (simp add: spans_def)
qed

lemma parse_url_spans:
  assumes "http_parser_parse_url buf n is_connect u = (rc, u')" "n \<le> length buf"
  shows "spans UNIV n u'"
proof -
  obtain ok fa u1 where l: "url_loop 0 (take n buf) (if is_connect then s_req_server_start else s_req_spaces_before_url) None False (u\<lparr>port := 0, field_set := 0\<rparr>) = (ok, fa, u1)"
    using prod_cases3 by blast
  have z: "spans UNIV 0 (u\<lparr>port := 0, field_set := 0\<rparr>)" "\<not> has_field (u\<lparr>port := 0, field_set := 0\<rparr>) g" for g
    by (simp_all add: spans_def has_field_def)
  have u1: "spans UNIV n u1" "\<not> has_field u1 UF_PORT" "\<not> has_field u1 UF_USERINFO"
    using url_loop_spans [OF z(1) _ l] assms(2) z(2) by auto
  obtain rc2 u2 where h: "(if has_field u1 UF_HOST then http_parse_host buf u1 fa else (0, u1)) = (rc2, u2)" by fastforce
  have u2: "spans UNIV n u2" using h u1 parse_host_spans [OF _ u1(1) _ u1(2,3)] by (auto split: if_splits)
  then show ?thesis
    using assms(1) l h u1(1) u2 by (auto simp: http_parser_parse_url_def Let_def spans_def span_end_def split: if_splits)
qed

text \<open>A field that is not set keeps what the structure held before.\<close>

lemma url_loop_unset:
  "url_loop i cs s old_uf fa u = (ok, fa', u') \<Longrightarrow> (\<forall>f. old_uf = Some f \<longrightarrow> has_field u f) \<Longrightarrow> \<not> has_field u' f \<Longrightarrow>
     \<not> has_field u f \<and> field_data u' f = field_data u f"
proof (induction i cs s old_uf fa u rule: url_loop.induct)
  case (2 i ch rest s old_uf fa u)
  show ?case
  proof (cases "url_field_of (parse_url_char s ch)")
    case Delimiter
    then show ?thesis using 2(1) [OF refl Delimiter] 2(3-) by simp
  next
    case (In_field uf)
    have "\<forall>g. Some uf = Some g \<longrightarrow> has_field (url_char_field i uf old_uf u) g" using 2(4) by (auto simp: url_char_field_def)
    then have "\<not> has_field (url_char_field i uf old_uf u) f \<and> field_data u' f = field_data (url_char_field i uf old_uf u) f"
      using 2(2) [OF refl In_field] 2(3,5) In_field by (simp add: Let_def)
    then show ?thesis using 2(4) by (auto simp: url_char_field_def split: if_splits)
  qed (use 2 in \<open>auto\<close>)
qed simp

lemma host_loop_frame:
  "host_loop i cs s u = (s', u') \<Longrightarrow> f \<notin> host_fields \<Longrightarrow> has_field u' f = has_field u f \<and> field_data u' f = field_data u f"
  by (induction i cs s u rule: host_loop.induct) (auto simp: Let_def host_field_frame split: if_splits)

lemma parse_url_unset:
  assumes "http_parser_parse_url buf n is_connect u = (rc, u')" "f \<notin> host_fields" "\<not> has_field u' f"
  shows "field_data u' f = field_data u f"
proof -
  let ?u0 = "u\<lparr>port := 0, field_set := 0\<rparr>"
  obtain ok fa u1 where l: "url_loop 0 (take n buf) (if is_connect then s_req_server_start else s_req_spaces_before_url) None False ?u0 = (ok, fa, u1)"
    using prod_cases3 by blast
  obtain rc2 u2 where h: "(if has_field u1 UF_HOST then http_parse_host buf u1 fa else (0, u1)) = (rc2, u2)" by fastforce
  have h2: "has_field u2 f = has_field u1 f \<and> field_data u2 f = field_data u1 f"
    using h assms(2) host_loop_frame [of _ _ _ "upd_field UF_HOST (\<lambda>x. x\<lparr>flen := 0\<rparr>) u1" _ u2 f]
    by (auto simp: http_parse_host_def Let_def host_fields_def split: if_splits prod.splits)
  have "has_field u' f = has_field u1 f \<and> field_data u' f = field_data u1 f"
    using assms(1) l h h2 by (auto simp: http_parser_parse_url_def Let_def has_field_def split: if_splits)
  then show ?thesis using url_loop_unset [OF l] assms(3) by simp
qed

text \<open>
  C19: every field \<^verbatim>\<open>http_parser_parse_url\<close> reports, also before an error, lies inside the URL,
  although offsets and lengths have 16 bits only and the URL may be longer.
\<close>

theorem parse_url_fields_inside:
  assumes "http_parser_parse_url buf n is_connect u = (rc, u')" "n \<le> length buf" "has_field u' f"
  shows "unat (foff (field_data u' f)) + unat (flen (field_data u' f)) \<le> n"
  using parse_url_spans [OF assms(1,2)] assms(3) by (simp add: spans_def span_end_def)

theorem parse_url_fields_inside_witness:
  "\<exists>u'. http_parser_parse_url (ascii ''http://u@h:80/p?q#f'') 19 False http_parser_url_init = (0, u') \<and>
     unat (foff (field_data u' UF_PORT)) + unat (flen (field_data u' UF_PORT)) \<le> 19"
proof -
  have e: "case http_parser_parse_url (ascii ''http://u@h:80/p?q#f'') 19 False http_parser_url_init of (rc, u') \<Rightarrow> rc = 0 \<and> has_field u' UF_PORT" by code_simp
  then obtain u' where u': "http_parser_parse_url (ascii ''http://u@h:80/p?q#f'') 19 False http_parser_url_init = (0, u')" "has_field u' UF_PORT"
    by (auto split: prod.splits)
  show ?thesis using parse_url_fields_inside [OF u'(1) _ u'(2)] u'(1) by (simp add: ascii_def)
qed

section \<open>Request targets\<close>

lemma url_loop_stay:
  assumes "\<forall>c\<in>set cs. parse_url_char s c = s" "url_field_of s = In_field f" "s \<noteq> s_req_server_with_at"
  shows "url_loop i (cs @ rest) s (Some f) fa u = url_loop (i + length cs) rest s (Some f) fa (((upd_field f longer) ^^ length cs) u)"
  using assms(1)
proof (induction cs arbitrary: i u)
  case (Cons c cs)
  have "((upd_field f longer) ^^ length cs) (upd_field f longer u) = upd_field f longer (((upd_field f longer) ^^ length cs) u)"
    by (simp add: funpow_swap1)
  then show ?case using Cons assms(2,3) by (simp add: Let_def url_char_field_def)
qed simp

lemma longer_pow:
  "field_data (((upd_field f longer) ^^ k) u) g = (if g = f then (field_data u f)\<lparr>flen := flen (field_data u f) + of_nat k\<rparr> else field_data u g)"
  "has_field (((upd_field f longer) ^^ k) u) g = has_field u g"
  by (induction k) (auto simp: longer_def algebra_simps)

lemma url_char_separators: "IS_URL_CHAR c \<Longrightarrow> c \<notin> {SP, CR, LF, TAB, 12}"
  by (auto simp: IS_URL_CHAR_def normal_url_char_def)

lemma path_char: "IS_URL_CHAR c \<Longrightarrow> parse_url_char s_req_path c = s_req_path"
  using url_char_separators [of c] by (auto simp: parse_url_char_def url_path_char_def)

lemma query_char: "IS_URL_CHAR c \<or> c = ch_of CHR ''?'' \<Longrightarrow> s = s_req_query_string \<or> s = s_req_query_string_start \<Longrightarrow> parse_url_char s c = s_req_query_string"
  using url_char_separators [of c] by (auto simp: parse_url_char_def url_query_char_def)

definition field_text :: "byte list \<Rightarrow> http_parser_url \<Rightarrow> http_parser_url_fields \<Rightarrow> byte list" where
  "field_text buf u f = slice (unat (foff (field_data u f))) (unat (flen (field_data u f))) buf"

text \<open>
  C15: a request target made of a path and an optional query is taken apart into exactly these two.
\<close>

theorem parse_url_target:
  assumes "\<forall>c\<in>set p. IS_URL_CHAR c" "\<forall>c\<in>set q. IS_URL_CHAR c \<or> c = ch_of CHR ''?''"
    and t: "target = ch_of CHR ''/'' # p @ (if q = [] then [] else ch_of CHR ''?'' # q)" and "length target < 2 ^ 16"
  shows "\<exists>u'. http_parser_parse_url target (length target) False u = (0, u') \<and> (\<forall>f. has_field u' f \<longleftrightarrow> f = UF_PATH \<or> f = UF_QUERY \<and> q \<noteq> [])
     \<and> field_text target u' UF_PATH = ch_of CHR ''/'' # p \<and> (q \<noteq> [] \<longrightarrow> field_text target u' UF_QUERY = q)"
proof -
  let ?u = "u\<lparr>port := 0, field_set := 0\<rparr>"
  let ?u1 = "((upd_field UF_PATH longer) ^^ length p) (url_char_field 0 UF_PATH None ?u)"
  have none: "\<not> has_field ?u f" for f by (simp add: has_field_def)
  have path: "url_loop 0 (ch_of CHR ''/'' # p @ rest) s_req_spaces_before_url None False ?u = url_loop (Suc (length p)) rest s_req_path (Some UF_PATH) False ?u1" for rest
    using url_loop_stay [of p s_req_path UF_PATH] path_char assms(1) by (simp add: parse_url_char_def Let_def url_field_of_def)
  have lp: "Suc (length p) < 2 ^ 16" using assms(4) unfolding t by simp
  have "unat (of_nat (Suc (length p)) :: u16) = Suc (length p)" by (rule of_nat_inverse [OF refl]) (use lp in simp)
  then have one: "unat (1 + of_nat (length p) :: u16) = Suc (length p)" by (simp only: of_nat_Suc)
  show ?thesis
  proof (cases q)
    case Nil
    have "url_loop 0 target s_req_spaces_before_url None False ?u = (True, False, ?u1)" using path [of "[]"] t Nil by simp
    then have "http_parser_parse_url target (length target) False u = (0, ?u1)"
      by (simp add: http_parser_parse_url_def longer_pow url_char_field_def none)
    moreover have "field_text target ?u1 UF_PATH = ch_of CHR ''/'' # p"
      using t Nil one by (simp add: field_text_def longer_pow url_char_field_def slice_def)
    ultimately show ?thesis using Nil by (auto simp: longer_pow url_char_field_def none)
  next
    case (Cons c cs)
    let ?u2 = "((upd_field UF_QUERY longer) ^^ length cs) (url_char_field (Suc (Suc (length p))) UF_QUERY (Some UF_PATH) ?u1)"
    have c: "parse_url_char s_req_query_string_start c = s_req_query_string" "\<forall>d\<in>set cs. parse_url_char s_req_query_string d = s_req_query_string"
      using assms(2) Cons query_char by auto
    have d: "parse_url_char s_req_path 63 = s_req_query_string_start"
      by (simp add: parse_url_char_def url_path_char_def IS_URL_CHAR_def normal_url_char_def)
    have query: "url_loop i (63 # c # cs) s_req_path (Some UF_PATH) False v
        = (True, False, ((upd_field UF_QUERY longer) ^^ length cs) (url_char_field (Suc i) UF_QUERY (Some UF_PATH) v))" for i v
      using url_loop_stay [OF c(2), of UF_QUERY _ "[]"] by (simp add: c(1) d Let_def url_field_of_def)
    have "url_loop 0 target s_req_spaces_before_url None False ?u = (True, False, ?u2)"
      using path [of "63 # c # cs"] unfolding query using t Cons by simp
    then have "http_parser_parse_url target (length target) False u = (0, ?u2)"
      by (simp add: http_parser_parse_url_def longer_pow url_char_field_def none)
    moreover have "field_text target ?u2 UF_PATH = ch_of CHR ''/'' # p"
      using t Cons one by (simp add: field_text_def longer_pow url_char_field_def slice_def)
    moreover have l2: "Suc (Suc (length p) + Suc (length cs)) \<le> 2 ^ 16" using assms(4) unfolding t Cons by simp
    have "unat (of_nat (Suc (Suc (length p))) :: u16) = Suc (Suc (length p))" "unat (of_nat (Suc (length cs)) :: u16) = Suc (length cs)"
      by (rule of_nat_inverse [OF refl], use l2 in simp)+
    then have w: "unat (1 + (1 + of_nat (length p)) :: u16) = Suc (Suc (length p))" "unat (1 + of_nat (length cs) :: u16) = Suc (length cs)"
      by (simp_all only: of_nat_Suc)
    have "field_text target ?u2 UF_QUERY = q"
      using t Cons w by (simp add: field_text_def longer_pow url_char_field_def slice_def)
    ultimately show ?thesis using Cons by (auto simp: longer_pow url_char_field_def none)
  qed
qed

theorem parse_url_target_witness:
  "\<exists>u'. http_parser_parse_url (ascii ''/ab?x=1'') (length (ascii ''/ab?x=1'')) False http_parser_url_init = (0, u') \<and> field_text (ascii ''/ab?x=1'') u' UF_PATH = ascii ''/ab''
     \<and> field_text (ascii ''/ab?x=1'') u' UF_QUERY = ascii ''x=1''"
proof -
  have "\<forall>c\<in>set (ascii ''ab''). IS_URL_CHAR c" "\<forall>c\<in>set (ascii ''x=1''). IS_URL_CHAR c \<or> c = ch_of CHR ''?''"
    by code_simp+
  moreover have "ascii ''/ab?x=1'' = ch_of CHR ''/'' # ascii ''ab'' @ (if ascii ''x=1'' = [] then [] else ch_of CHR ''?'' # ascii ''x=1'')" by code_simp
  ultimately show ?thesis
    using parse_url_target [of "ascii ''ab''" "ascii ''x=1''" "ascii ''/ab?x=1''" http_parser_url_init]
    by (auto simp: ascii_def)
qed

text \<open>
  Lengths are kept in 16 bits: of a path of 64 KiB or more, which the header limit of 80 KiB
  admits, only the length modulo 64 KiB is reported, so the path is cut.
\<close>

theorem parse_url_length_wraps:
  assumes "\<forall>c\<in>set p. IS_URL_CHAR c" "target = ch_of CHR ''/'' # p" "length target = 2 ^ 16 + k" "k < 2 ^ 16"
  shows "\<exists>u'. http_parser_parse_url target (length target) False u = (0, u') \<and> field_text target u' UF_PATH = take k target"
proof -
  let ?u = "u\<lparr>port := 0, field_set := 0\<rparr>"
  let ?u1 = "((upd_field UF_PATH longer) ^^ length p) (url_char_field 0 UF_PATH None ?u)"
  have none: "\<not> has_field ?u f" for f by (simp add: has_field_def)
  have "url_loop 0 target s_req_spaces_before_url None False ?u = (True, False, ?u1)"
    using url_loop_stay [of p s_req_path UF_PATH _ "[]"] path_char assms(1,2) by (simp add: parse_url_char_def Let_def url_field_of_def)
  then have "http_parser_parse_url target (length target) False u = (0, ?u1)"
    by (simp add: http_parser_parse_url_def longer_pow url_char_field_def none)
  moreover have "unat (of_nat (Suc (length p)) :: u16) = k"
    using assms(2-4) unat_of_nat [of "Suc (length p)", where 'a = 16] by simp
  then have "unat (1 + of_nat (length p) :: u16) = k" by (simp only: of_nat_Suc)
  then have "field_text target ?u1 UF_PATH = take k target"
    by (simp add: field_text_def longer_pow url_char_field_def slice_def)
  ultimately show ?thesis by blast
qed

theorem parse_url_length_wraps_witness:
  "\<exists>u'. http_parser_parse_url (47 # replicate 65537 97) (length (47 # replicate 65537 (97 :: byte))) False http_parser_url_init = (0, u')
     \<and> field_text (47 # replicate 65537 97) u' UF_PATH = take 2 (47 # replicate 65537 97)"
proof -
  have "IS_URL_CHAR 97" by code_simp
  then have "\<forall>c\<in>set (replicate 65537 (97 :: byte)). IS_URL_CHAR c" by (simp only: set_replicate_conv_if) simp
  moreover have "length (47 # replicate 65537 (97 :: byte)) = 2 ^ 16 + 2" by (simp only: length_replicate list.size) simp
  ultimately show ?thesis
    using parse_url_length_wraps [OF _ refl, of "replicate 65537 97" 2 http_parser_url_init] by (simp del: length_replicate)
qed

end
