(* ===== verification/HttpRequest.thy ===== *)
theory HttpRequest
  imports HttpParserChunks HttpUrl
begin

text \<open>
  \<^verbatim>\<open>lib_http/http_request.cpp\<close>: a request is built by the callbacks of the HTTP parser, its URL is
  split into a path and query parameters when the headers are complete, and a handler is looked up
  for it in the table of routes. The object holds the parser and the parser a pointer to the object;
  here the object is the parser, whose \<open>pdata\<close> holds the other members. \<open>None\<close> for these is the
  undefined behaviour of the callbacks (\<^verbatim>\<open>back()\<close> of an empty vector, a slice outside the URL).
\<close>

section \<open>Requests\<close>

datatype http_result = HttpResult_Complete | HttpResult_Incomplete | HttpResult_Error | HttpResult_Timedout | HttpResult_Undefined

type_synonym key_value_pair = "byte list \<times> byte list"

record request_data =
  m_query_parameters :: "key_value_pair list"
  m_header_fields :: "key_value_pair list"
  m_body :: "byte list"
  m_path :: "byte list"
  m_url :: "byte list"
  m_state :: http_result
  m_remote_ip :: u32

type_synonym http_request = "request_data option http_parser"

definition empty_request :: request_data where
  "empty_request = \<lparr>m_query_parameters = [], m_header_fields = [], m_body = [], m_path = [], m_url = [],
     m_state = HttpResult_Incomplete, m_remote_ip = 0\<rparr>"

section \<open>Callbacks\<close>

definition on_header_field_cb :: "byte list \<Rightarrow> request_data \<Rightarrow> request_data option" where
  "on_header_field_cb d req = Some (
     if m_header_fields req = [] \<or> snd (last (m_header_fields req)) \<noteq> []
     then req\<lparr>m_header_fields := m_header_fields req @ [(d, [])]\<rparr>
     else req\<lparr>m_header_fields := butlast (m_header_fields req) @ [(fst (last (m_header_fields req)) @ d, [])]\<rparr>)"

definition on_header_value_cb :: "byte list \<Rightarrow> request_data \<Rightarrow> request_data option" where
  "on_header_value_cb d req = (if m_header_fields req = [] then None
     else Some (req\<lparr>m_header_fields := butlast (m_header_fields req) @ [(fst (last (m_header_fields req)), snd (last (m_header_fields req)) @ d)]\<rparr>))"

definition on_url_cb :: "byte list \<Rightarrow> request_data \<Rightarrow> request_data option" where
  "on_url_cb d req = Some (req\<lparr>m_url := m_url req @ d\<rparr>)"

definition on_body_cb :: "byte list \<Rightarrow> request_data \<Rightarrow> request_data option" where
  "on_body_cb d req = Some (req\<lparr>m_body := m_body req @ d\<rparr>)"

text \<open>The escapes are decoded in place; the result never overtakes what is left to read.\<close>

definition hex_digit :: "byte \<Rightarrow> byte" where
  "hex_digit c = c - (if c \<le> ch_of CHR ''9'' then ch_of CHR ''0'' else (if c \<le> ch_of CHR ''F'' then ch_of CHR ''A'' else ch_of CHR ''a'') - 10)"

fun decode_uri_escape_sequences :: "byte list \<Rightarrow> byte list" where
  "decode_uri_escape_sequences (c # a # b # rest) = (if c = ch_of CHR ''%'' \<and> IS_HEX a \<and> IS_HEX b
     then (16 * hex_digit a + hex_digit b) # decode_uri_escape_sequences rest
     else c # decode_uri_escape_sequences (a # b # rest))"
| "decode_uri_escape_sequences (c # rest) = c # decode_uri_escape_sequences rest"
| "decode_uri_escape_sequences [] = []"

text \<open>The loop over the query: the text since \<^verbatim>\<open>fieldCursor\<close>, \<^verbatim>\<open>kv.first\<close>, and the parameters so far.\<close>

fun query_loop :: "byte list \<Rightarrow> byte list \<Rightarrow> byte list \<Rightarrow> key_value_pair list \<Rightarrow> key_value_pair list" where
  "query_loop [] seg key ps = ps @ [(decode_uri_escape_sequences key, decode_uri_escape_sequences seg)]"
| "query_loop (c # rest) seg key ps =
     (if c = ch_of CHR ''='' then query_loop rest [] seg ps
      else if c = ch_of CHR ''&'' then
        query_loop rest [] (decode_uri_escape_sequences key) (ps @ [(decode_uri_escape_sequences key, decode_uri_escape_sequences seg)])
      else query_loop rest (seg @ [c]) key ps)"

definition url_slice :: "byte list \<Rightarrow> http_parser_url \<Rightarrow> http_parser_url_fields \<Rightarrow> byte list option" where
  "url_slice url u f = (if unat (foff (field_data u f)) + unat (flen (field_data u f)) \<le> length url then Some (field_text url u f) else None)"

definition on_headers_complete_cb :: "request_data \<Rightarrow> request_data option" where
  "on_headers_complete_cb req = (case http_parser_parse_url (m_url req) (length (m_url req)) False http_parser_url_init of (rc, u) \<Rightarrow>
     do {
       path \<leftarrow> url_slice (m_url req) u UF_PATH;
       let req = req\<lparr>m_path := path\<rparr>;
       if rc = 0 \<and> has_field u UF_QUERY then do {
         query \<leftarrow> url_slice (m_url req) u UF_QUERY;
         Some (req\<lparr>m_query_parameters := query_loop query [] [] (m_query_parameters req)\<rparr>)
       } else Some req
     })"

definition on_message_complete_cb :: "request_data \<Rightarrow> request_data option" where
  "on_message_complete_cb req = Some (req\<lparr>m_state := HttpResult_Complete\<rparr>)"

definition notify_request :: "(request_data \<Rightarrow> request_data option) \<Rightarrow> request_data option http_cb" where
  "notify_request f q = (0, q\<lparr>pdata := Option.bind (pdata q) f\<rparr>)"

definition data_request :: "(byte list \<Rightarrow> request_data \<Rightarrow> request_data option) \<Rightarrow> request_data option http_data_cb" where
  "data_request f q d = (0, q\<lparr>pdata := Option.bind (pdata q) (f d)\<rparr>)"

definition request_settings :: "request_data option http_parser_settings" where
  "request_settings = http_parser_settings_init\<lparr>on_url := Some (data_request on_url_cb), on_header_field := Some (data_request on_header_field_cb),
     on_header_value := Some (data_request on_header_value_cb), on_body := Some (data_request on_body_cb),
     on_headers_complete := Some (notify_request on_headers_complete_cb), on_message_complete := Some (notify_request on_message_complete_cb)\<rparr>"

section \<open>Operations\<close>

definition new_request :: http_request where
  "new_request = http_parser_init HTTP_REQUEST (Some empty_request)"

definition set_remote_ip :: "u32 \<Rightarrow> http_request \<Rightarrow> http_request" where
  "set_remote_ip ip r = r\<lparr>pdata := map_option (m_remote_ip_update (\<lambda>_. ip)) (pdata r)\<rparr>"

definition read_from :: "byte list \<Rightarrow> http_request \<Rightarrow> (http_result \<times> http_request) option" where
  "read_from data r = do {
     req \<leftarrow> pdata r;
     if m_state req \<noteq> HttpResult_Incomplete then Some (m_state req, r)
     else do {
       (nparsed, r) \<leftarrow> http_parser_execute request_settings data r;
       req \<leftarrow> pdata r;
       Some (if nparsed \<noteq> length data then HttpResult_Error else m_state req, r)
     }
   }"

definition c_str :: "byte list \<Rightarrow> byte list" where
  "c_str s = takeWhile (\<lambda>c. c \<noteq> 0) s"

fun find_pair :: "byte list \<Rightarrow> key_value_pair list \<Rightarrow> byte list option" where
  "find_pair name [] = None"
| "find_pair name (kv # kvs) = (if c_str (fst kv) = name then Some (snd kv) else find_pair name kvs)"

definition query_param :: "byte list \<Rightarrow> request_data \<Rightarrow> byte list option" where
  "query_param name req = find_pair name (m_query_parameters req)"

definition header_field :: "byte list \<Rightarrow> request_data \<Rightarrow> byte list option" where
  "header_field name req = find_pair name (m_header_fields req)"

section \<open>Routes\<close>

datatype tls_match = TLS_MATCH_NONE | TLS_MATCH_ONLY | TLS_MATCH_BOTH

record method_path =
  mp_method :: int
  mp_path :: "byte list"
  mp_tls :: tls_match

definition mp_less :: "method_path \<Rightarrow> method_path \<Rightarrow> bool" where
  "mp_less l r \<longleftrightarrow> mp_method l < mp_method r \<or> mp_method l = mp_method r \<and> ord_class.lexordp (mp_path l) (mp_path r)"

text \<open>The characters at the first mismatch; past the end of a string its terminating zero is read.\<close>

fun mismatch :: "byte list \<Rightarrow> byte list \<Rightarrow> byte \<times> byte" where
  "mismatch (a # as) (b # bs) = (if a = b then mismatch as bs else (a, b))"
| "mismatch as bs = (case as of [] \<Rightarrow> 0 | a # _ \<Rightarrow> a, case bs of [] \<Rightarrow> 0 | b # _ \<Rightarrow> b)"

definition route_matches :: "int \<Rightarrow> byte list \<Rightarrow> bool \<Rightarrow> method_path \<Rightarrow> bool" where
  "route_matches mth path is_tls mp =
     (if mp_tls mp = TLS_MATCH_NONE \<and> is_tls \<or> mp_tls mp = TLS_MATCH_ONLY \<and> \<not> is_tls then False
      else if length (mp_path mp) > length path \<or> mp_method mp \<noteq> mth then False
      else case mismatch (mp_path mp) path of (a, b) \<Rightarrow> a = b \<or> a = ch_of CHR ''*'')"

fun find_http_handler :: "(method_path \<times> 'h) list \<Rightarrow> int \<Rightarrow> byte list \<Rightarrow> bool \<Rightarrow> 'h option" where
  "find_http_handler [] mth path is_tls = None"
| "find_http_handler ((mp, h) # routes) mth path is_tls =
     (if route_matches mth path is_tls mp then Some h else find_http_handler routes mth path is_tls)"

text \<open>\<^verbatim>\<open>std::map::insert\<close>: in the order of the keys; an equivalent key is kept.\<close>

fun add_route :: "method_path \<Rightarrow> 'h \<Rightarrow> (method_path \<times> 'h) list \<Rightarrow> (method_path \<times> 'h) list" where
  "add_route mp h [] = [(mp, h)]"
| "add_route mp h ((mp', h') # routes) = (if mp_less mp mp' then (mp, h) # (mp', h') # routes
     else if mp_less mp' mp then (mp', h') # add_route mp h routes else (mp', h') # routes)"

section \<open>The callbacks as a streaming client of the parser\<close>

definition request_emit :: "data_field \<Rightarrow> byte list \<Rightarrow> request_data option \<Rightarrow> request_data option" where
  "request_emit F d w = (case F of For_url \<Rightarrow> Option.bind w (on_url_cb d) | For_status \<Rightarrow> w
     | For_header_field \<Rightarrow> Option.bind w (on_header_field_cb d) | For_header_value \<Rightarrow> Option.bind w (on_header_value_cb d)
     | For_body \<Rightarrow> Option.bind w (on_body_cb d))"

lemmas request_callback_defs = on_url_cb_def on_header_field_cb_def on_header_value_cb_def on_body_cb_def

interpretation request: streaming_callbacks request_settings request_emit
proof
  fix f :: "request_data option http_cb" assume "Some f \<in> notify_cbs request_settings"
  then have "\<exists>h. f = notify_request h" by (auto simp: notify_cbs_def request_settings_def http_parser_settings_init_def)
  then show "\<exists>rc g. \<forall>q. f q = (rc (pdata q), q\<lparr>pdata := g (pdata q)\<rparr>)"
    by (elim exE) (intro exI [of _ "\<lambda>_. 0"], auto simp: notify_request_def fun_eq_iff)
next
  fix F g q d assume "on_data F request_settings = Some g"
  then show "g q d = (0, q\<lparr>pdata := request_emit F d (pdata q)\<rparr>)"
    by (cases F) (auto simp: request_settings_def http_parser_settings_init_def data_request_def request_emit_def)
next
  fix F w and d :: "byte list" assume "on_data F request_settings = None"
  then show "request_emit F d w = w"
    by (cases F) (auto simp: request_settings_def http_parser_settings_init_def request_emit_def)
next
  fix F d e w
  show "request_emit F (d @ e) w = request_emit F e (request_emit F d w)"
    by (cases F; cases w) (auto simp: request_emit_def request_callback_defs)
qed

text \<open>Between two calls the parser has no error and is in a state it can go on from.\<close>

definition reading :: "http_request \<Rightarrow> bool" where
  "reading r \<longleftrightarrow> http_errno r = HPE_OK \<and> parser_inv (state r) r"

lemma reading_new: "reading new_request"
  using parser_inv_init [of HTTP_REQUEST "Some empty_request"] by (simp add: reading_def new_request_def) (simp add: http_parser_init_def)

lemma read_from_cut:
  assumes "reading r" "xs \<noteq> []" "ys \<noteq> []" "length (xs @ ys) \<le> unat HTTP_MAX_HEADER_SIZE"
    and "read_from xs r = Some (HttpResult_Incomplete, r1)" "http_errno r1 = HPE_OK" "\<not> upgrade r1"
    and "read_from ys r1 = Some (res2, r2)" "http_errno r2 \<noteq> HPE_HEADER_OVERFLOW"
    and "read_from (xs @ ys) r = Some (res, R)" "http_errno R \<noteq> HPE_HEADER_OVERFLOW"
  shows "reading r1 \<and> http_errno R = http_errno r2 \<and> (http_errno R = HPE_OK \<longrightarrow> res = res2 \<and> same_parser R r2)"
proof -
  obtain req n where r: "pdata r = Some req" "m_state req = HttpResult_Incomplete" "http_parser_execute request_settings xs r = Some (n, r1)"
    and n: "n = length xs" and r1: "pdata r1 \<noteq> None" "m_state (the (pdata r1)) = HttpResult_Incomplete"
    using assms(5) by (auto simp: read_from_def bind_eq_Some_conv split: if_splits)
  obtain n2 where y: "http_parser_execute request_settings ys r1 = Some (n2, r2)" "res2 = (if n2 \<noteq> length ys then HttpResult_Error else m_state (the (pdata r2)))"
    using assms(8) r1 by (auto simp: read_from_def bind_eq_Some_conv split: if_splits)
  obtain N where w: "http_parser_execute request_settings (xs @ ys) r = Some (N, R)" "res = (if N \<noteq> length (xs @ ys) then HttpResult_Error else m_state (the (pdata R)))"
    using assms(10) r(1,2) by (auto simp: read_from_def bind_eq_Some_conv split: if_splits)
  have "request.cut_ok xs ys (http_parser_execute request_settings xs r) (http_parser_execute request_settings (xs @ ys) r)"
    by (rule request.execute_cut) (use assms(1-4) in \<open>simp_all add: reading_def\<close>)
  then have "parser_inv (state r1) r1" "result_rel xs (N, R) (n2, r2)"
    using r(3) w(1) y(1) assms(6,7) by (auto simp: request.cut_ok_def runs_rel_def)
  then show ?thesis
    using assms(6,9,11) n y(2) w(2) by (auto simp: result_rel_def reading_def same_parser_def)
qed

text \<open>
  C12: a request read in two parts is the request read in one, when the first part does not
  complete it: same result and same members, or an error in both. As for the parser, a header
  overflow and an upgrade are left out.
\<close>

theorem read_from_parts:
  assumes "reading r" "xs \<noteq> []" "ys \<noteq> []" "length (xs @ ys) \<le> unat HTTP_MAX_HEADER_SIZE"
    and "read_from xs r = Some (HttpResult_Incomplete, r1)" "http_errno r1 = HPE_OK" "\<not> upgrade r1"
    and "read_from ys r1 = Some (res2, r2)" "http_errno r2 \<noteq> HPE_HEADER_OVERFLOW"
    and "read_from (xs @ ys) r = Some (res, R)" "http_errno R \<noteq> HPE_HEADER_OVERFLOW"
  shows "reading r1 \<and> http_errno R = http_errno r2 \<and> (http_errno R = HPE_OK \<longrightarrow> res = res2 \<and> same_parser R r2)"
  by (rule read_from_cut [OF assms])

theorem read_from_parts_witness:
  "\<exists>r1 r2 R. read_from (ascii ''GET /a?'') new_request = Some (HttpResult_Incomplete, r1) \<and> read_from (ascii ''b=1 HT'') r1 = Some (HttpResult_Incomplete, r2)
     \<and> read_from (ascii ''GET /a?'' @ ascii ''b=1 HT'') new_request = Some (HttpResult_Incomplete, R) \<and> same_parser R r2"
proof -
  let ?xs = "ascii ''GET /a?''" and ?ys = "ascii ''b=1 HT''"
  have "case read_from ?xs new_request of None \<Rightarrow> False | Some (a, r1) \<Rightarrow> a = HttpResult_Incomplete \<and> http_errno r1 = HPE_OK \<and> \<not> upgrade r1
      \<and> (case read_from ?ys r1 of None \<Rightarrow> False | Some (b, r2) \<Rightarrow> b = HttpResult_Incomplete \<and> http_errno r2 = HPE_OK)"
    by code_simp
  then obtain r1 r2 where r: "read_from ?xs new_request = Some (HttpResult_Incomplete, r1)" "http_errno r1 = HPE_OK" "\<not> upgrade r1"
      "read_from ?ys r1 = Some (HttpResult_Incomplete, r2)" "http_errno r2 = HPE_OK"
    by (auto split: option.splits)
  have "case read_from (?xs @ ?ys) new_request of None \<Rightarrow> False | Some (c, R) \<Rightarrow> c = HttpResult_Incomplete \<and> http_errno R = HPE_OK" by code_simp
  then obtain R where R: "read_from (?xs @ ?ys) new_request = Some (HttpResult_Incomplete, R)" "http_errno R = HPE_OK"
    by (auto split: option.splits)
  have "?xs \<noteq> []" "?ys \<noteq> []" "length (?xs @ ?ys) \<le> unat HTTP_MAX_HEADER_SIZE"
    by (simp_all add: ascii_def HTTP_MAX_HEADER_SIZE_def)
  then have "same_parser R r2" using read_from_parts [OF reading_new _ _ _ r(1-4) _ R(1)] r(5) R(2) by simp
  then show ?thesis using r R by blast
qed

section \<open>Queries\<close>

text \<open>Percent encoding of everything but letters and digits, and its query strings.\<close>

definition hex_char :: "byte \<Rightarrow> byte" where
  "hex_char v = (if v < 10 then v + ch_of CHR ''0'' else v - 10 + ch_of CHR ''A'')"

definition encode_char :: "byte \<Rightarrow> byte list" where
  "encode_char c = (if IS_ALPHANUM c then [c] else [ch_of CHR ''%'', hex_char (c div 16), hex_char (c mod 16)])"

definition encode_uri :: "byte list \<Rightarrow> byte list" where
  "encode_uri s = concat (map encode_char s)"

lemma hex_char_digit: "v < 16 \<Longrightarrow> IS_HEX (hex_char v) \<and> hex_digit (hex_char v) = v"
proof -
  assume "v < 16"
  then have "unat v \<in> set [0..<16]" by (simp add: word_less_nat_alt)
  moreover have "\<forall>n\<in>set [0..<16]. IS_HEX (hex_char (of_nat n)) \<and> hex_digit (hex_char (of_nat n)) = of_nat n" by code_simp
  ultimately have "IS_HEX (hex_char (of_nat (unat v))) \<and> hex_digit (hex_char (of_nat (unat v))) = of_nat (unat v)" by blast
  then show ?thesis by simp
qed

lemma nibbles: "(c :: byte) div 16 < 16" "(c :: byte) mod 16 < 16"
proof -
  have "unat (c div 16) < 16" "unat (c mod 16) < 16"
    using unsigned_less [of c, where 'a = nat] by (simp_all add: unat_div unat_mod less_mult_imp_div_less)
  then show "c div 16 < 16" "c mod 16 < 16" by (simp_all add: word_less_nat_alt)
qed

lemma escape_char:
  "IS_HEX (hex_char (c div 16)) \<and> IS_HEX (hex_char (c mod 16)) \<and> 16 * hex_digit (hex_char (c div 16)) + hex_digit (hex_char (c mod 16)) = c"
  using hex_char_digit nibbles [of c] by (simp add: mult_div_mod_eq)

lemma alphanum_plain: "IS_ALPHANUM c \<Longrightarrow> c \<notin> {ch_of CHR ''%'', ch_of CHR ''='', ch_of CHR ''&''}"
  by (auto simp: IS_ALPHANUM_def IS_ALPHA_def IS_NUM_def LOWER_def)

lemma decode_plain: "c \<noteq> ch_of CHR ''%'' \<Longrightarrow> decode_uri_escape_sequences (c # s) = c # decode_uri_escape_sequences s"
  by (cases s; cases "tl s") auto

lemma decode_encode_char: "decode_uri_escape_sequences (encode_char c @ s) = c # decode_uri_escape_sequences s"
  using escape_char [of c] alphanum_plain [of c] by (cases "IS_ALPHANUM c") (auto simp: encode_char_def decode_plain)

lemma decode_encode: "decode_uri_escape_sequences (encode_uri s) = s"
  by (induction s) (simp_all add: encode_uri_def decode_encode_char)

lemma hex_char_alphanum: "v < 16 \<Longrightarrow> IS_ALPHANUM (hex_char v)"
proof -
  assume "v < 16"
  then have "unat v \<in> set [0..<16]" by (simp add: word_less_nat_alt)
  moreover have "\<forall>n\<in>set [0..<16]. IS_ALPHANUM (hex_char (of_nat n))" by code_simp
  ultimately have "IS_ALPHANUM (hex_char (of_nat (unat v)))" by blast
  then show ?thesis by simp
qed

lemma encode_uri_chars: "c \<in> set (encode_uri s) \<Longrightarrow> IS_ALPHANUM c \<or> c = ch_of CHR ''%''"
proof (induction s)
  case (Cons d s)
  show ?case using Cons hex_char_alphanum nibbles [of d] by (auto simp: encode_uri_def encode_char_def split: if_splits)
qed (simp add: encode_uri_def)

fun encode_query :: "key_value_pair list \<Rightarrow> byte list" where
  "encode_query [] = []"
| "encode_query [(k, v)] = encode_uri k @ ch_of CHR ''='' # encode_uri v"
| "encode_query ((k, v) # kv # kvs) = encode_uri k @ ch_of CHR ''='' # encode_uri v @ ch_of CHR ''&'' # encode_query (kv # kvs)"

lemma query_loop_text:
  assumes "\<forall>c\<in>set s. c \<noteq> ch_of CHR ''='' \<and> c \<noteq> ch_of CHR ''&''"
  shows "query_loop (s @ rest) seg key ps = query_loop rest (seg @ s) key ps"
  using assms by (induction s arbitrary: seg) auto

lemma query_loop_encoded: "query_loop (encode_uri s @ rest) seg key ps = query_loop rest (seg @ encode_uri s) key ps"
  by (rule query_loop_text) (auto dest!: encode_uri_chars alphanum_plain)

text \<open>
  C16: a query string of encoded keys and values is parsed to these parameters, in order.
\<close>

theorem query_roundtrip:
  assumes "kvs \<noteq> []"
  shows "query_loop (encode_query kvs) [] key ps = ps @ kvs"
  using assms
proof (induction kvs arbitrary: key ps rule: encode_query.induct)
  case (2 k v)
  show ?case using query_loop_encoded [of v "[]"] by (simp add: query_loop_encoded decode_encode)
next
  case (3 k v kv kvs)
  then show ?case by (simp add: query_loop_encoded decode_encode)
qed simp

theorem query_roundtrip_witness:
  "query_loop (encode_query [(ascii ''a b'', ascii ''1'')]) [] [] [] = [(ascii ''a b'', ascii ''1'')]"
  using query_roundtrip [of "[(ascii ''a b'', ascii ''1'')]" "[]" "[]"] by simp

text \<open>
  A parameter without an equals sign does not get an empty value: it is stored under the key of
  the parameter before it.
\<close>

theorem query_missing_value:
  "query_loop (encode_uri k @ ch_of CHR ''='' # encode_uri v @ ch_of CHR ''&'' # encode_uri w) [] [] [] = [(k, v), (decode_uri_escape_sequences k, w)]"
  using query_loop_encoded [of w "[]"] by (simp add: query_loop_encoded decode_encode)

section \<open>Looking up a route\<close>

text \<open>A route accepts its own path and, from a wildcard on, every path that is at least as long.\<close>

definition accepts :: "int \<Rightarrow> byte list \<Rightarrow> bool \<Rightarrow> method_path \<Rightarrow> bool" where
  "accepts mth path is_tls mp \<longleftrightarrow> mp_method mp = mth \<and> (mp_tls mp = TLS_MATCH_NONE \<longrightarrow> \<not> is_tls) \<and> (mp_tls mp = TLS_MATCH_ONLY \<longrightarrow> is_tls)
     \<and> (mp_path mp = path \<or> length (mp_path mp) \<le> length path \<and>
          (\<exists>pre rest c path'. mp_path mp = pre @ ch_of CHR ''*'' # rest \<and> path = pre @ c # path' \<and> c \<noteq> ch_of CHR ''*''))"

lemma mismatch_accepts:
  assumes "w \<noteq> 0" "length as \<le> length bs" "0 \<notin> set bs"
  shows "(case mismatch as bs of (a, b) \<Rightarrow> a = b \<or> a = w) \<longleftrightarrow>
     as = bs \<or> (\<exists>pre rest c bs'. as = pre @ w # rest \<and> bs = pre @ c # bs' \<and> c \<noteq> w)" (is "_ = (_ \<or> ?Q as bs)")
  using assms(2,3)
proof (induction as bs rule: mismatch.induct)
  case (1 a as b bs)
  have "?Q (a # as) (b # bs) \<longleftrightarrow> a = w \<and> b \<noteq> w \<or> a = b \<and> ?Q as bs"
  proof
    assume "?Q (a # as) (b # bs)"
    then obtain pre rest c bs' where q: "a # as = pre @ w # rest" "b # bs = pre @ c # bs'" "c \<noteq> w" by blast
    then show "a = w \<and> b \<noteq> w \<or> a = b \<and> ?Q as bs" by (cases pre) auto
  next
    assume "a = w \<and> b \<noteq> w \<or> a = b \<and> ?Q as bs"
    then show "?Q (a # as) (b # bs)"
    proof
      assume "a = w \<and> b \<noteq> w"
      then show ?thesis by - (rule exI [of _ "[]"], rule exI [of _ as], rule exI [of _ b], rule exI [of _ bs], simp)
    next
      assume "a = b \<and> ?Q as bs"
      then obtain pre rest c bs' where "a = b" "as = pre @ w # rest" "bs = pre @ c # bs'" "c \<noteq> w" by blast
      then show ?thesis by - (rule exI [of _ "b # pre"], rule exI [of _ rest], rule exI [of _ c], rule exI [of _ bs'], simp)
    qed
  qed
  then show ?case using 1 by (cases "a = b") auto
qed (use assms(1) in \<open>auto split: list.splits\<close>)

lemma route_matches_accepts: "0 \<notin> set path \<Longrightarrow> route_matches mth path is_tls mp = accepts mth path is_tls mp"
  using mismatch_accepts [of "ch_of CHR ''*''" "mp_path mp" path]
  by (cases "length (mp_path mp) \<le> length path"; cases "mp_tls mp") (auto simp: route_matches_def accepts_def)

text \<open>
  C18: the handler that is looked up is the one of the first route, in the order of the table, that
  accepts the request.
\<close>

theorem find_http_handler_first:
  assumes "0 \<notin> set path"
  shows "find_http_handler routes mth path is_tls = map_option snd (List.find (\<lambda>(mp, h). accepts mth path is_tls mp) routes)"
  by (induction routes) (auto simp: route_matches_accepts [OF assms])

theorem find_http_handler_first_witness:
  "find_http_handler [(\<lparr>mp_method = 1, mp_path = ascii ''/a*'', mp_tls = TLS_MATCH_BOTH\<rparr>, 7 :: nat)] 1 (ascii ''/abc'') False = Some 7"
proof -
  have "0 \<notin> set (ascii ''/abc'')" by (simp add: ascii_def)
  then show ?thesis
    unfolding find_http_handler_first [OF \<open>0 \<notin> set (ascii ''/abc'')\<close>]
    by (simp add: accepts_def ascii_def) (intro exI [of _ "[47, 97]"], simp)
qed

text \<open>
  the order of the table is not the order of specificity: a wildcard route comes before the
  routes with the same prefix and a further character above the asterisk, which includes all
  letters, digits and the slash, and so it takes their requests whatever the order they were added in.
\<close>

theorem wildcard_shadows:
  assumes "c > ch_of CHR ''*''" "0 \<notin> set (pre @ c # path)"
    and w: "w = \<lparr>mp_method = mth, mp_path = pre @ [ch_of CHR ''*''], mp_tls = TLS_MATCH_BOTH\<rparr>"
    and s: "s = \<lparr>mp_method = mth, mp_path = pre @ c # path, mp_tls = TLS_MATCH_BOTH\<rparr>"
  shows "find_http_handler (add_route s hs (add_route w hw [])) mth (pre @ c # path) is_tls = Some hw
     \<and> find_http_handler (add_route w hw (add_route s hs [])) mth (pre @ c # path) is_tls = Some hw"
proof -
  have "ord_class.lexordp (pre @ [ch_of CHR ''*'']) (pre @ c # path)" using assms(1) by (induction pre) (auto intro: ord_class.lexordp.intros)
  moreover have "\<not> ord_class.lexordp (pre @ c # path) (pre @ [ch_of CHR ''*''])" using assms(1) by (induction pre) auto
  ultimately have o: "mp_less w s" "\<not> mp_less s w" by (simp_all add: mp_less_def w s)
  have "\<exists>pre' rest d path'. pre @ [ch_of CHR ''*''] = pre' @ ch_of CHR ''*'' # rest \<and> pre @ c # path = pre' @ d # path' \<and> d \<noteq> ch_of CHR ''*''"
    using assms(1) by - (rule exI [of _ pre], rule exI [of _ "[]"], rule exI [of _ c], rule exI [of _ path], simp)
  then have "route_matches mth (pre @ c # path) is_tls w"
    using route_matches_accepts [OF assms(2)] by (simp add: accepts_def w)
  then show ?thesis using o by simp
qed

theorem wildcard_shadows_witness:
  "find_http_handler (add_route \<lparr>mp_method = 1, mp_path = ascii ''/api'', mp_tls = TLS_MATCH_BOTH\<rparr> (2 :: nat)
     (add_route \<lparr>mp_method = 1, mp_path = ascii ''/*'', mp_tls = TLS_MATCH_BOTH\<rparr> 1 [])) 1 (ascii ''/api'') False = Some 1"
  using wildcard_shadows [of 97 "[47]" "ascii ''pi''" "\<lparr>mp_method = 1, mp_path = ascii ''/*'', mp_tls = TLS_MATCH_BOTH\<rparr>" 1
      "\<lparr>mp_method = 1, mp_path = ascii ''/api'', mp_tls = TLS_MATCH_BOTH\<rparr>" "2 :: nat" 1 False]
  by (simp add: ascii_def)

end
