(* ===== verification/HttpRequestSafe.thy ===== *)
theory HttpRequestSafe
  imports HttpRequest HttpParserFrame
begin

text \<open>
  The callbacks of a request never leave their arrays, whatever bytes arrive and however they are
  cut: the parser delivers a piece of a header value only after a header name, and a field of the
  URL, set or not, is inside the URL. So a request can be read to its end, and a request of at most
  half the header limit never overflows it.
\<close>

section \<open>The callbacks stay inside their arrays\<close>

lemma url_slice_defined:
  assumes "http_parser_parse_url url (length url) False http_parser_url_init = (rc, u)" "f \<notin> host_fields"
  shows "url_slice url u f \<noteq> None"
proof (cases "has_field u f")
  case True
  then show ?thesis using parse_url_spans [OF assms(1)] by (simp add: url_slice_def spans_def span_end_def)
next
  case False
  then show ?thesis using parse_url_unset [OF assms] by (simp add: url_slice_def http_parser_url_init_def)
qed

definition has_request :: "request_data option \<Rightarrow> bool" where
  "has_request w \<longleftrightarrow> w \<noteq> None"

definition has_header :: "request_data option \<Rightarrow> bool" where
  "has_header w \<longleftrightarrow> (case w of None \<Rightarrow> False | Some req \<Rightarrow> m_header_fields req \<noteq> [])"

lemma on_headers_complete_defined:
  "\<exists>req'. on_headers_complete_cb req = Some req' \<and> m_header_fields req' = m_header_fields req"
proof -
  obtain rc u where u: "http_parser_parse_url (m_url req) (length (m_url req)) False http_parser_url_init = (rc, u)" by fastforce
  have "url_slice (m_url req) u UF_PATH \<noteq> None" "url_slice (m_url req) u UF_QUERY \<noteq> None"
    using url_slice_defined [OF u] by (simp_all add: host_fields_def)
  then show ?thesis by (auto simp: on_headers_complete_cb_def u Let_def)
qed

interpretation safe_request: ordered_callbacks request_settings has_request has_header
proof
  fix f :: "request_data option http_cb" and q :: http_request
  assume f: "Some f \<in> notify_cbs request_settings" and q: "has_request (pdata q)"
  obtain req where req: "pdata q = Some req" using q by (auto simp: has_request_def)
  have "f = notify_request on_headers_complete_cb \<or> f = notify_request on_message_complete_cb"
    using f by (auto simp: notify_cbs_def request_settings_def http_parser_settings_init_def)
  then show "has_request (pdata (snd (f q))) \<and> (has_header (pdata q) \<longrightarrow> has_header (pdata (snd (f q))))"
    using on_headers_complete_defined [of req]
    by (auto simp: notify_request_def req has_request_def has_header_def on_message_complete_cb_def)
next
  fix F g and q :: http_request and d
  assume g: "on_data F request_settings = Some g" and q: "has_request (pdata q)" and n: "F = For_header_value \<Longrightarrow> has_header (pdata q)"
  obtain req where req: "pdata q = Some req" using q by (auto simp: has_request_def)
  show "has_request (pdata (snd (g q d))) \<and> (F = For_header_field \<or> has_header (pdata q) \<longrightarrow> has_header (pdata (snd (g q d))))"
    using g n by (cases F) (auto simp: request_settings_def http_parser_settings_init_def data_request_def request_callback_defs
        has_request_def has_header_def req)
next
  fix w assume "on_data For_header_field request_settings = None"
  then show "has_header w" by (simp add: request_settings_def http_parser_settings_init_def)
qed

section \<open>Reading is safe\<close>

definition request_inv :: "http_request \<Rightarrow> bool" where
  "request_inv r \<longleftrightarrow> has_request (pdata r) \<and> (http_errno r = HPE_OK \<longrightarrow> parser_inv (state r) r \<and> (state r \<in> value_states \<longrightarrow> has_header (pdata r)))"

lemma request_inv_new: "request_inv new_request"
  using reading_new by (simp add: request_inv_def reading_def) (simp add: new_request_def http_parser_init_def has_request_def)

lemma at_eof_inv:
  assumes "request_inv r" "http_errno r = HPE_OK"
  shows "request_inv (snd (at_eof request_settings r))"
proof -
  obtain req where req: "pdata r = Some req" using assms(1) by (auto simp: request_inv_def has_request_def)
  show ?thesis using assms
    by (cases "state r") (auto simp: at_eof_def callback_notify_def request_settings_def http_parser_settings_init_def notify_request_def
        on_message_complete_cb_def request_inv_def has_request_def has_header_def parser_inv_def req Let_def init_local_def)
qed

lemma execute_request:
  assumes "request_inv r" "length data < 2 ^ 64"
  shows "\<exists>n r'. http_parser_execute request_settings data r = Some (n, r') \<and> request_inv r'"
proof -
  have "\<exists>n r'. http_parser_execute request_settings data r = Some (n, r') \<and> request_inv r'" if ok: "http_errno r = HPE_OK" "data \<noteq> []"
  proof -
    have "parser_inv (state r) r" "safe_request.app (state r) (pdata r)"
      using assms(1) ok(1) by (simp_all add: request_inv_def safe_request.app_def)
    then obtain n r' where "http_parser_execute request_settings data r = Some (n, r')"
        "safe_request.result_ok (unat (nread r)) (length data) r'" "done_ok (length data) (n, r')"
      using safe_request.execute_keeps [OF ok(1) _ _ ok(2) assms(2)] by blast
    then show ?thesis
      by (intro exI [of _ n] exI [of _ r']) (simp add: safe_request.result_ok_def done_ok_def request_inv_def safe_request.app_def)
  qed
  then show ?thesis using assms(1) at_eof_inv [OF assms(1)] by (cases "at_eof request_settings r") (auto simp: http_parser_execute_def)
qed

lemma read_from_inv:
  assumes "request_inv r" "length data < 2 ^ 64"
  shows "\<exists>res r'. read_from data r = Some (res, r') \<and> request_inv r'"
proof -
  obtain n r' where "http_parser_execute request_settings data r = Some (n, r')" "request_inv r'"
    using execute_request [OF assms] by blast
  then show ?thesis using assms(1) by (auto simp: read_from_def request_inv_def has_request_def)
qed

fun read_pieces :: "byte list list \<Rightarrow> http_request \<Rightarrow> (http_result list \<times> http_request) option" where
  "read_pieces [] r = Some ([], r)"
| "read_pieces (d # ds) r = do {
     (res, r) \<leftarrow> read_from d r;
     (ress, r) \<leftarrow> read_pieces ds r;
     Some (res # ress, r)
   }"

text \<open>
  C9: whatever bytes arrive from the network, in whatever pieces, empty ones and pieces after an
  error or the end included, every piece gets an answer and no callback leaves its array: neither
  the last header, which a header value is appended to, nor the URL, which path and query are cut from.
\<close>

theorem read_from_defined:
  assumes "\<forall>d\<in>set ds. length d < 2 ^ 64"
  shows "\<exists>ress r. read_pieces ds new_request = Some (ress, r) \<and> length ress = length ds \<and> pdata r \<noteq> None"
proof -
  have "\<exists>ress r'. read_pieces ds r = Some (ress, r') \<and> length ress = length ds \<and> request_inv r'" if "request_inv r" for r
    using that assms
  proof (induction ds arbitrary: r)
    case (Cons d ds)
    then obtain res r1 where "read_from d r = Some (res, r1)" "request_inv r1" using read_from_inv [of r d] by auto
    then show ?case using Cons.IH [of r1] Cons.prems(2) by auto
  qed simp
  then show ?thesis using request_inv_new by (fastforce simp: request_inv_def has_request_def)
qed

theorem read_from_defined_witness:
  "\<exists>ress r. read_pieces [ascii ''GET / HTTP/1.1'', [], ascii ''x''] new_request = Some (ress, r) \<and> length ress = 3"
  using read_from_defined [of "[ascii ''GET / HTTP/1.1'', [], ascii ''x'']"] by (auto simp: ascii_def)

end
