(* ===== verification/EventTrace.thy ===== *)
theory EventTrace
  imports Prelude
begin

text \<open>
  \<^verbatim>\<open>lib_lw_event_trace/lw_event_trace.cpp\<close>: events with their time stamps are collected in a vector
  that is reserved in advance and printed as JSON. The mutex makes an operation atomic; thread id
  and clock of the platform are arguments. \<open>None\<close> is a text that does not fit the 128 bytes it
  is printed to.
\<close>

record trace_event =
  te_timestamp :: "55 word"
  te_thread_id :: byte
  te_phase :: "1 word"
  te_category :: "byte list"
  te_name :: "byte list"

text \<open>The nearest double of an integer below 2 to the 55, ties to even; \<^verbatim>\<open>%.0f\<close> prints it exactly.\<close>

definition to_double :: "nat \<Rightarrow> nat" where
  "to_double n = (if n < 2 ^ 53 then n
     else let u = (if n < 2 ^ 54 then 2 else 4); q = n div u; r = n mod u
          in u * (if 2 * r > u \<or> 2 * r = u \<and> odd q then q + 1 else q))"

definition event_text :: "trace_event \<Rightarrow> byte list" where
  \<open>event_text evt = ascii ''{"cat": "'' @ te_category evt @ ascii ''", "pid":1, "tid": '' @ dec_nat (to_double (unat (te_thread_id evt)))
     @ ascii '', "ts": '' @ dec_nat (to_double (unat (te_timestamp evt))) @ ascii '', "ph":"'' @ ascii (if te_phase evt = 0 then ''B'' else ''E'')
     @ ascii ''", "name": "'' @ te_name evt @ ascii ''", "args":{}},''\<close>

definition to_json :: "trace_event \<Rightarrow> byte list option" where
  "to_json evt = (if length (event_text evt) < 128 then Some (event_text evt) else None)"

section \<open>The logger\<close>

record lw_event_trace_logger =
  lg_events :: "trace_event list"
  lg_capacity :: nat
  lg_enabled :: bool

definition new_logger :: lw_event_trace_logger where
  "new_logger = \<lparr>lg_events = [], lg_capacity = 0, lg_enabled = False\<rparr>"

definition sizeof_trace_event :: nat where "sizeof_trace_event = 24"

definition enable_trace :: "nat \<Rightarrow> lw_event_trace_logger \<Rightarrow> lw_event_trace_logger" where
  "enable_trace reserved_bytes s =
     s\<lparr>lg_events := [], lg_capacity := max (lg_capacity s) (reserved_bytes div sizeof_trace_event), lg_enabled := True\<rparr>"

definition disable_trace :: "lw_event_trace_logger \<Rightarrow> lw_event_trace_logger" where
  "disable_trace s = s\<lparr>lg_enabled := False\<rparr>"

text \<open>\<^verbatim>\<open>push_back\<close>: a full vector is moved to one of twice the size.\<close>

definition push_event :: "trace_event \<Rightarrow> lw_event_trace_logger \<Rightarrow> lw_event_trace_logger" where
  "push_event e s = s\<lparr>lg_events := lg_events s @ [e],
     lg_capacity := if length (lg_events s) = lg_capacity s then max 1 (2 * lg_capacity s) else lg_capacity s\<rparr>"

text \<open>The capacity minus one is unsigned.\<close>

definition add_event_trace :: "byte list \<Rightarrow> byte list \<Rightarrow> u32 \<Rightarrow> u64 \<Rightarrow> byte \<Rightarrow> lw_event_trace_logger \<Rightarrow> lw_event_trace_logger" where
  "add_event_trace category name thread_id timestamp phase s =
     (if \<not> lg_enabled s then s
      else let evt = \<lparr>te_timestamp = ucast timestamp, te_thread_id = ucast (thread_id mod 255), te_phase = (if phase = of_char CHR ''B'' then 0 else 1),
             te_category = category, te_name = name\<rparr>
        in if (of_nat (length (lg_events s)) :: u64) < of_nat (lg_capacity s) - 1 then push_event evt s else s)"

definition scoped_event :: "byte list \<Rightarrow> byte list \<Rightarrow> u32 \<times> u64 \<Rightarrow> (lw_event_trace_logger \<Rightarrow> lw_event_trace_logger) \<Rightarrow> u32 \<times> u64 \<Rightarrow> lw_event_trace_logger \<Rightarrow> lw_event_trace_logger" where
  "scoped_event category name enter body leave s =
     add_event_trace category name (fst leave) (snd leave) (of_char CHR ''E'')
       (body (add_event_trace category name (fst enter) (snd enter) (of_char CHR ''B'') s))"

text \<open>Recording never moves the vector, once any room is reserved; the last place stays free.\<close>

lemma add_event_trace_room:
  assumes "0 < lg_capacity s" "lg_capacity s < 2 ^ 64" "length (lg_events s) < lg_capacity s"
  shows "lg_capacity (add_event_trace c n th ts ph s) = lg_capacity s \<and> length (lg_events (add_event_trace c n th ts ph s)) < lg_capacity s"
proof -
  have *: "(of_nat (lg_capacity s) :: u64) - 1 = of_nat (lg_capacity s - 1)"
    using assms(1) by (simp add: of_nat_diff)
  have "(of_nat (length (lg_events s)) :: u64) < of_nat (lg_capacity s) - 1 \<longleftrightarrow> length (lg_events s) < lg_capacity s - 1"
    unfolding * word_less_nat_alt using assms by (simp add: unat_of_nat_u64 del: of_nat_diff)
  then show ?thesis using assms by (auto simp: add_event_trace_def push_event_def Let_def)
qed

lemma event_text_not_empty: "event_text e \<noteq> []"
  by (simp add: event_text_def ascii_def)

lemma last_event_text: "last (event_text e) = of_char CHR '',''"
  by (simp add: event_text_def ascii_def)

end
