(* ===== verification/HttpPayload.thy ===== *)
theory HttpPayload
  imports HttpRequest SequentialBuffer EventTrace
begin

text \<open>
  The payloads of \<^verbatim>\<open>lib_http/http_payload.h\<close>, \<^verbatim>\<open>http_payload.cpp\<close>, \<^verbatim>\<open>http_payload_file.h\<close> and
  \<^verbatim>\<open>http_payload_trace_event.h\<close>: the subclasses of \<^verbatim>\<open>Payload\<close> are the constructors of a type, its
  virtual functions are defined by cases. A pointer and a size handed out are the bytes there.
  The file, the buffer's event flag and the functions that open the file are parameters, the text a
  \<^verbatim>\<open>PayloadJson\<close> points to does not change. \<open>None\<close> is a pointer behind the data.
\<close>

section \<open>Conversions\<close>

text \<open>A size is printed as the \<^verbatim>\<open>int\<close> it is converted to.\<close>

definition int_of_size :: "u64 \<Rightarrow> int" where
  "int_of_size n = sint (ucast n :: u32)"

definition strtol :: "byte list \<Rightarrow> nat" where
  "strtol s = min (2 ^ 63 - 1) (foldl (\<lambda>n c. 10 * n + unat (c - ch_of CHR ''0'')) 0 (takeWhile IS_NUM s))"

text \<open>
  The state of the loop is the position and the two positions found. The result is \<open>None\<close> inside
  for a range that is refused; outside, for the character at -1 that is read of an empty text.
\<close>

fun range_loop :: "nat \<Rightarrow> int \<Rightarrow> int \<Rightarrow> byte list \<Rightarrow> (int \<times> int) option" where
  "range_loop i pos_s pos_dash [] = Some (pos_s, pos_dash)"
| "range_loop i pos_s pos_dash (c # s) =
     (if i < length (ascii ''bytes='') then (if c \<noteq> ascii ''bytes='' ! i then None else range_loop (i + 1) pos_s pos_dash s)
      else range_loop (i + 1) (if pos_s < 0 then int i else pos_s) (if c = ch_of CHR ''-'' then int i else pos_dash) s)"

definition parse_range_header :: "byte list \<Rightarrow> nat option option" where
  "parse_range_header str = (case range_loop 0 (-1) (-1) str of None \<Rightarrow> Some None
     | Some (pos_s, pos_dash) \<Rightarrow>
         if int (length str) > pos_dash + 1 then Some None
         else if pos_s < 0 then None
         else if IS_NUM (str ! nat pos_s) then Some (Some (strtol (slice (nat pos_s) (nat (pos_dash - pos_s)) str)))
         else Some None)"

section \<open>Payloads\<close>

record text_payload =
  tx_text :: "byte list"
  tx_pos :: nat

record test_payload =
  ts_size :: u64
  ts_size_pos :: u64

record ('e, 'f) file_payload =
  pf_buffer :: "'e seq_buffer"
  pf_file :: 'f
  pf_transferred_bytes :: nat

record trace_payload =
  tp_events :: "trace_event list"
  tp_cur_event_json :: "byte list"
  tp_cursor :: nat
  tp_event_index :: nat

datatype ('e, 'f) payload = PayloadEmpty | PayloadJson text_payload | PayloadBlob text_payload | PayloadTest test_payload
  | PayloadFile "('e, 'f) file_payload" | PayloadTraceEvent trace_payload

text \<open>The file type of \<^verbatim>\<open>PayloadFile\<close>: its size, and the event flag of its buffer.\<close>

record ('e, 'f) file_io =
  io_flag :: "'e event_flag"
  io_size :: "'f \<Rightarrow> nat"

definition new_json :: "byte list \<Rightarrow> ('e, 'f) payload" where
  "new_json txt = PayloadJson \<lparr>tx_text = txt, tx_pos = 0\<rparr>"

definition new_blob :: "byte list \<Rightarrow> ('e, 'f) payload" where
  "new_blob data = PayloadBlob \<lparr>tx_text = data, tx_pos = 0\<rparr>"

definition new_test :: "u64 \<Rightarrow> ('e, 'f) payload" where
  "new_test n = PayloadTest \<lparr>ts_size = n, ts_size_pos = 0\<rparr>"

definition new_file :: "('f \<times> 'e seq_buffer \<Rightarrow> 'f \<times> 'e seq_buffer) \<Rightarrow> 'f \<Rightarrow> 'e \<Rightarrow> ('e, 'f) payload" where
  "new_file open_io f e = (case open_io (f, sb_new (512 * 4) e) of (f, b) \<Rightarrow>
     PayloadFile \<lparr>pf_buffer = b, pf_file = f, pf_transferred_bytes = 0\<rparr>)"

definition new_trace_payload :: "trace_event list \<Rightarrow> ('e, 'f) payload" where
  "new_trace_payload es = PayloadTraceEvent \<lparr>tp_events = es, tp_cur_event_json = [], tp_cursor = 0, tp_event_index = 0\<rparr>"

text \<open>The sum is accumulated in an \<^verbatim>\<open>int\<close>.\<close>

fun trace_json_size :: "u32 \<Rightarrow> trace_event list \<Rightarrow> u32 option" where
  "trace_json_size a [] = Some a"
| "trace_json_size a (e # es) = do { t \<leftarrow> to_json e; trace_json_size (ucast (of_nat (length t) + (scast a :: u64))) es }"

definition json_size :: "text_payload \<Rightarrow> u64" where
  "json_size p = of_int (int_of_size (of_nat (length (tx_text p))))"

definition blob_size :: "text_payload \<Rightarrow> u64" where
  "blob_size p = of_nat (length (tx_text p))"

definition test_size :: "test_payload \<Rightarrow> u64" where
  "test_size p = ts_size p"

definition file_size_of :: "('e, 'f) file_io \<Rightarrow> ('e, 'f) file_payload \<Rightarrow> u64" where
  "file_size_of io p = of_nat (io_size io (pf_file p))"

definition trace_size :: "trace_payload \<Rightarrow> u64 option" where
  "trace_size p = do { n \<leftarrow> trace_json_size 0 (tp_events p); Some (scast n + 1) }"

fun payload_size :: "('e, 'f) file_io \<Rightarrow> ('e, 'f) payload \<Rightarrow> u64 option" where
  "payload_size io PayloadEmpty = Some 0"
| "payload_size io (PayloadJson p) = Some (json_size p)"
| "payload_size io (PayloadBlob p) = Some (blob_size p)"
| "payload_size io (PayloadTest p) = Some (test_size p)"
| "payload_size io (PayloadFile p) = Some (file_size_of io p)"
| "payload_size io (PayloadTraceEvent p) = trace_size p"

text \<open>The header fields, written by the constructors from the size at that time.\<close>

definition content_length_field :: "u64 \<Rightarrow> key_value_pair" where
  "content_length_field n = (ascii ''Content-Length'', dec_int (int_of_size n))"

definition content_type_field :: "string \<Rightarrow> key_value_pair" where
  "content_type_field t = (ascii ''Content-Type'', ascii t)"

definition connection_close_field :: key_value_pair where
  "connection_close_field = (ascii ''Connection'', ascii ''close'')"

definition empty_headers :: "key_value_pair list" where
  "empty_headers = [(ascii ''Content-Length'', ascii ''0''), connection_close_field]"

definition json_headers :: "text_payload \<Rightarrow> key_value_pair list" where
  "json_headers p = [content_length_field (json_size p), content_type_field ''application/json'', connection_close_field]"

definition blob_headers :: "text_payload \<Rightarrow> key_value_pair list" where
  "blob_headers p = [content_type_field ''application/octet-stream'', content_length_field (blob_size p), connection_close_field]"

definition test_headers :: "test_payload \<Rightarrow> key_value_pair list" where
  "test_headers p = [content_length_field (ts_size p), content_type_field ''application/octet-stream'', connection_close_field]"

definition trace_headers :: "trace_payload \<Rightarrow> key_value_pair list option" where
  "trace_headers p = map_option (\<lambda>n. [content_type_field ''application/json'', content_length_field n, connection_close_field]) (trace_size p)"

fun payload_header_fields :: "('e, 'f) file_io \<Rightarrow> ('e, 'f) payload \<Rightarrow> key_value_pair list option" where
  "payload_header_fields io PayloadEmpty = Some empty_headers"
| "payload_header_fields io (PayloadJson p) = Some (json_headers p)"
| "payload_header_fields io (PayloadBlob p) = Some (blob_headers p)"
| "payload_header_fields io (PayloadTest p) = Some (test_headers p)"
| "payload_header_fields io (PayloadFile p) = Some []"
| "payload_header_fields io (PayloadTraceEvent p) = trace_headers p"

text \<open>Reading: what is handed out next.\<close>

definition from_pos :: "nat \<Rightarrow> byte list \<Rightarrow> byte list option" where
  "from_pos n t = (if n \<le> length t then Some (drop n t) else None)"

definition json_get_read_ptr :: "text_payload \<Rightarrow> (int \<times> byte list) option" where
  "json_get_read_ptr p = map_option (Pair 0) (from_pos (tx_pos p) (tx_text p))"

definition blob_get_read_ptr :: "text_payload \<Rightarrow> (int \<times> byte list) option" where
  "blob_get_read_ptr p = map_option (Pair 0) (from_pos (tx_pos p) (tx_text p))"

definition test_get_read_ptr :: "test_payload \<Rightarrow> int \<times> byte list" where
  "test_get_read_ptr p = (0, replicate (min (unat (ts_size p - ts_size_pos p)) 1024) 0xAC)"

definition file_get_read_ptr :: "('e, 'f) file_io \<Rightarrow> ('e, 'f) file_payload \<Rightarrow> (int \<times> byte list \<times> ('e, 'f) file_payload) option" where
  "file_get_read_ptr io p = map_option (\<lambda>(rc, d, b). (rc, d, p\<lparr>pf_buffer := b\<rparr>)) (sb_peek (io_flag io) (pf_buffer p))"

text \<open>The next event is printed when the text of the last one is used up.\<close>

definition next_event_json :: "trace_payload \<Rightarrow> trace_payload option" where
  "next_event_json p = (if tp_cursor p = length (tp_cur_event_json p) \<and> tp_event_index p < length (tp_events p)
     then do {
       t \<leftarrow> to_json (tp_events p ! tp_event_index p);
       let t = (if tp_event_index p = 0 then ascii ''['' @ t else t);
       let t = (if tp_event_index p = length (tp_events p) - 1 then t[length t - 1 := ch_of CHR '']''] else t);
       Some (p\<lparr>tp_cur_event_json := t, tp_cursor := 0, tp_event_index := tp_event_index p + 1\<rparr>)
     }
     else Some p)"

definition trace_get_read_ptr :: "trace_payload \<Rightarrow> (int \<times> byte list \<times> trace_payload) option" where
  "trace_get_read_ptr p = do { p \<leftarrow> next_event_json p; map_option (\<lambda>d. (0, d, p)) (from_pos (tp_cursor p) (tp_cur_event_json p)) }"

fun payload_get_read_ptr :: "('e, 'f) file_io \<Rightarrow> ('e, 'f) payload \<Rightarrow> (int \<times> byte list \<times> ('e, 'f) payload) option" where
  "payload_get_read_ptr io PayloadEmpty = Some (0, [], PayloadEmpty)"
| "payload_get_read_ptr io (PayloadJson p) = map_option (\<lambda>(rc, d). (rc, d, PayloadJson p)) (json_get_read_ptr p)"
| "payload_get_read_ptr io (PayloadBlob p) = map_option (\<lambda>(rc, d). (rc, d, PayloadBlob p)) (blob_get_read_ptr p)"
| "payload_get_read_ptr io (PayloadTest p) = Some (case test_get_read_ptr p of (rc, d) \<Rightarrow> (rc, d, PayloadTest p))"
| "payload_get_read_ptr io (PayloadFile p) = map_option (\<lambda>(rc, d, p). (rc, d, PayloadFile p)) (file_get_read_ptr io p)"
| "payload_get_read_ptr io (PayloadTraceEvent p) = map_option (\<lambda>(rc, d, p). (rc, d, PayloadTraceEvent p)) (trace_get_read_ptr p)"

text \<open>Committing: how far it was read.\<close>

definition complete_if :: "bool \<Rightarrow> http_result" where
  "complete_if b = (if b then HttpResult_Complete else HttpResult_Incomplete)"

definition json_commit_read :: "nat \<Rightarrow> text_payload \<Rightarrow> http_result \<times> text_payload" where
  "json_commit_read n p = (complete_if (tx_pos p + n = length (tx_text p)), p\<lparr>tx_pos := tx_pos p + n\<rparr>)"

definition blob_commit_read :: "nat \<Rightarrow> text_payload \<Rightarrow> http_result \<times> text_payload" where
  "blob_commit_read n p = (complete_if (tx_pos p + n = length (tx_text p)), p\<lparr>tx_pos := tx_pos p + n\<rparr>)"

definition test_commit_read :: "nat \<Rightarrow> test_payload \<Rightarrow> http_result \<times> test_payload" where
  "test_commit_read n p = (complete_if (ts_size_pos p + of_nat n = ts_size p), p\<lparr>ts_size_pos := ts_size_pos p + of_nat n\<rparr>)"

definition file_commit_read :: "('e, 'f) file_io \<Rightarrow> nat \<Rightarrow> ('e, 'f) file_payload \<Rightarrow> (http_result \<times> ('e, 'f) file_payload) option" where
  "file_commit_read io n p = do { (rc, b) \<leftarrow> sb_commit_read (pf_buffer p) n;
     let p = p\<lparr>pf_buffer := b, pf_transferred_bytes := pf_transferred_bytes p + n\<rparr>;
     Some (complete_if (io_size io (pf_file p) = pf_transferred_bytes p), p) }"

definition trace_commit_read :: "nat \<Rightarrow> trace_payload \<Rightarrow> http_result \<times> trace_payload" where
  "trace_commit_read n p = (let p = p\<lparr>tp_cursor := tp_cursor p + n\<rparr> in
     (complete_if (tp_cursor p = length (tp_cur_event_json p) \<and> tp_event_index p \<ge> length (tp_events p)), p))"

fun payload_commit_read :: "('e, 'f) file_io \<Rightarrow> nat \<Rightarrow> ('e, 'f) payload \<Rightarrow> (http_result \<times> ('e, 'f) payload) option" where
  "payload_commit_read io n PayloadEmpty = Some (HttpResult_Complete, PayloadEmpty)"
| "payload_commit_read io n (PayloadJson p) = Some (map_prod id PayloadJson (json_commit_read n p))"
| "payload_commit_read io n (PayloadBlob p) = Some (map_prod id PayloadBlob (blob_commit_read n p))"
| "payload_commit_read io n (PayloadTest p) = Some (map_prod id PayloadTest (test_commit_read n p))"
| "payload_commit_read io n (PayloadFile p) = map_option (map_prod id PayloadFile) (file_commit_read io n p)"
| "payload_commit_read io n (PayloadTraceEvent p) = Some (map_prod id PayloadTraceEvent (trace_commit_read n p))"

lemmas payload_part_defs [simp] = json_size_def blob_size_def test_size_def file_size_of_def trace_size_def json_headers_def blob_headers_def
  test_headers_def trace_headers_def json_get_read_ptr_def blob_get_read_ptr_def test_get_read_ptr_def file_get_read_ptr_def
  trace_get_read_ptr_def json_commit_read_def blob_commit_read_def test_commit_read_def file_commit_read_def trace_commit_read_def

section \<open>The interface of a reader\<close>

text \<open>
  What the server relies on: the data handed out is what comes next, handing it out again changes
  nothing, a commit moves on by as many bytes, and complete is reported only at the end. A source
  that is ready always has the next data at hand, and reports complete at the end.
\<close>

locale payload_stream =
  fixes inv :: "'p \<Rightarrow> bool" and rest :: "'p \<Rightarrow> byte list"
    and get :: "'p \<Rightarrow> (int \<times> byte list \<times> 'p) option" and commit :: "nat \<Rightarrow> 'p \<Rightarrow> (http_result \<times> 'p) option"
  assumes get_ok: "inv p \<Longrightarrow> \<exists>rc bs p'. get p = Some (rc, bs, p') \<and> inv p' \<and> rest p' = rest p \<and> prefix bs (rest p)"
    and commit_ok: "inv p \<Longrightarrow> get p = Some (0, bs, p') \<Longrightarrow> 0 < k \<Longrightarrow> k \<le> length bs \<Longrightarrow>
      \<exists>r p''. commit k p' = Some (r, p'') \<and> inv p'' \<and> rest p'' = drop k (rest p) \<and> (r = HttpResult_Incomplete \<or> r = HttpResult_Complete \<and> rest p'' = [])"

locale ready_stream = payload_stream +
  assumes get_ready: "inv p \<Longrightarrow> rest p \<noteq> [] \<Longrightarrow> \<exists>bs p'. get p = Some (0, bs, p') \<and> bs \<noteq> []"
    and commit_last: "inv p \<Longrightarrow> get p = Some (0, bs, p') \<Longrightarrow> 0 < k \<Longrightarrow> k \<le> length bs \<Longrightarrow> k = length (rest p) \<Longrightarrow>
      \<exists>p''. commit k p' = Some (HttpResult_Complete, p'')"

section \<open>The payloads provide it\<close>

definition event_json :: "trace_event list \<Rightarrow> nat \<Rightarrow> byte list" where
  "event_json es i = (let t = (if i = 0 then ascii ''['' else []) @ event_text (es ! i)
     in if i = length es - 1 then t[length t - 1 := ch_of CHR '']''] else t)"

definition trace_rest :: "trace_event list \<Rightarrow> nat \<Rightarrow> byte list" where
  "trace_rest es i = concat (map (event_json es) [i..<length es])"

definition trace_left :: "trace_payload \<Rightarrow> byte list" where
  "trace_left p = drop (tp_cursor p) (tp_cur_event_json p) @ trace_rest (tp_events p) (tp_event_index p)"

definition trace_ok :: "trace_payload \<Rightarrow> bool" where
  "trace_ok p \<longleftrightarrow> tp_cursor p \<le> length (tp_cur_event_json p) \<and> tp_event_index p \<le> length (tp_events p)
     \<and> (\<forall>e\<in>set (tp_events p). length (event_text e) < 128)"

definition file_ok :: "('e, 'f) file_io \<Rightarrow> ('f \<Rightarrow> byte list) \<Rightarrow> ('e, 'f) file_payload \<Rightarrow> bool" where
  "file_ok io unread p \<longleftrightarrow> sb_inv (pf_buffer p)
     \<and> io_size io (pf_file p) = pf_transferred_bytes p + length (sb_contents (pf_buffer p)) + length (unread (pf_file p))"

text \<open>\<open>unread\<close> is what the file has not yet put into the buffer.\<close>

fun payload_inv :: "('e, 'f) file_io \<Rightarrow> ('f \<Rightarrow> byte list) \<Rightarrow> ('e, 'f) payload \<Rightarrow> bool" where
  "payload_inv io unread PayloadEmpty \<longleftrightarrow> True"
| "payload_inv io unread (PayloadJson p) \<longleftrightarrow> tx_pos p \<le> length (tx_text p)"
| "payload_inv io unread (PayloadBlob p) \<longleftrightarrow> tx_pos p \<le> length (tx_text p)"
| "payload_inv io unread (PayloadTest p) \<longleftrightarrow> ts_size_pos p \<le> ts_size p"
| "payload_inv io unread (PayloadFile p) \<longleftrightarrow> file_ok io unread p"
| "payload_inv io unread (PayloadTraceEvent p) \<longleftrightarrow> trace_ok p"

fun payload_rest :: "('f \<Rightarrow> byte list) \<Rightarrow> ('e, 'f) payload \<Rightarrow> byte list" where
  "payload_rest unread PayloadEmpty = []"
| "payload_rest unread (PayloadJson p) = drop (tx_pos p) (tx_text p)"
| "payload_rest unread (PayloadBlob p) = drop (tx_pos p) (tx_text p)"
| "payload_rest unread (PayloadTest p) = replicate (unat (ts_size p - ts_size_pos p)) 0xAC"
| "payload_rest unread (PayloadFile p) = sb_contents (pf_buffer p) @ unread (pf_file p)"
| "payload_rest unread (PayloadTraceEvent p) = trace_left p"

definition is_file :: "('e, 'f) payload \<Rightarrow> bool" where
  "is_file p \<longleftrightarrow> (case p of PayloadFile _ \<Rightarrow> True | _ \<Rightarrow> False)"

lemma event_json_not_empty: "event_json es i \<noteq> []"
  using event_text_not_empty [of "es ! i"] by (auto simp: event_json_def Let_def)

lemma trace_rest_step: "i < length es \<Longrightarrow> trace_rest es i = event_json es i @ trace_rest es (i + 1)"
  by (simp add: trace_rest_def upt_conv_Cons)

lemma trace_rest_empty: "trace_rest es i = [] \<longleftrightarrow> length es \<le> i"
proof (cases "i < length es")
  case True
  then show ?thesis using event_json_not_empty by (simp add: trace_rest_step)
qed (simp add: trace_rest_def)

lemma next_event_json_ok:
  assumes "trace_ok p"
  obtains p' where "next_event_json p = Some p'" "trace_ok p'" "tp_events p' = tp_events p"
    "trace_left p' = trace_left p"
    "tp_cursor p' = length (tp_cur_event_json p') \<Longrightarrow> tp_event_index p' = length (tp_events p)"
proof (cases "tp_cursor p = length (tp_cur_event_json p) \<and> tp_event_index p < length (tp_events p)")
  case True
  let ?p = "p\<lparr>tp_cur_event_json := event_json (tp_events p) (tp_event_index p), tp_cursor := 0, tp_event_index := tp_event_index p + 1\<rparr>"
  have "to_json (tp_events p ! tp_event_index p) = Some (event_text (tp_events p ! tp_event_index p))"
    using assms True by (simp add: trace_ok_def to_json_def)
  then have "next_event_json p = Some ?p"
    using True by (simp add: next_event_json_def event_json_def Let_def)
  then show ?thesis using True assms event_json_not_empty
    by (intro that [of ?p]) (auto simp: trace_ok_def trace_rest_step trace_left_def)
next
  case False
  then show ?thesis using assms by (intro that [of p]) (auto simp: next_event_json_def trace_ok_def)
qed

lemma test_payload_left: "a \<le> (b :: u64) \<Longrightarrow> unat (b - a) = unat b - unat a"
  by (simp add: unat_sub)

lemma payload_get_ok:
  assumes "payload_inv io u p"
  shows "\<exists>rc bs p'. payload_get_read_ptr io p = Some (rc, bs, p') \<and> payload_inv io u p' \<and> payload_rest u p' = payload_rest u p
    \<and> prefix bs (payload_rest u p) \<and> is_file p' = is_file p \<and> (\<not> is_file p \<longrightarrow> rc = 0 \<and> (bs = [] \<longleftrightarrow> payload_rest u p = []))"
proof (cases p)
  case (PayloadTest t)
  let ?n = "unat (ts_size t - ts_size_pos t)"
  have "prefix (replicate (min ?n 1024) 0xAC) (replicate ?n (0xAC :: byte))"
    using take_is_prefix [of 1024 "replicate ?n (0xAC :: byte)"] by (simp add: min.commute)
  moreover have "min ?n 1024 = 0 \<longleftrightarrow> ?n = 0" by (simp add: min_def)
  ultimately show ?thesis using PayloadTest assms by (simp add: is_file_def)
next
  case (PayloadFile f)
  then obtain bs b where "sb_peek (io_flag io) (pf_buffer f) = Some (if sb_contents (pf_buffer f) = [] then -1 else 0, bs, b)"
      "sb_inv b" "sb_contents b = sb_contents (pf_buffer f)" "prefix bs (sb_contents (pf_buffer f))"
    using assms sb.request_ok [of "pf_buffer f" "io_flag io"] by (auto simp: file_ok_def)
  then show ?thesis using PayloadFile assms by (simp add: file_ok_def is_file_def)
next
  case (PayloadTraceEvent t)
  then obtain t' where t': "next_event_json t = Some t'" "trace_ok t'" "tp_events t' = tp_events t"
      "trace_left t' = trace_left t"
      "tp_cursor t' = length (tp_cur_event_json t') \<Longrightarrow> tp_event_index t' = length (tp_events t)"
    using assms next_event_json_ok [of t] by auto
  then have "payload_get_read_ptr io p = Some (0, drop (tp_cursor t') (tp_cur_event_json t'), PayloadTraceEvent t')"
    using PayloadTraceEvent by (simp add: from_pos_def trace_ok_def)
  moreover have "drop (tp_cursor t') (tp_cur_event_json t') = [] \<longleftrightarrow> trace_left t' = []"
    using t'(2,3,5) by (auto simp: trace_ok_def trace_left_def trace_rest_empty)
  moreover have "prefix (drop (tp_cursor t') (tp_cur_event_json t')) (trace_left t')"
    by (simp add: trace_left_def)
  ultimately show ?thesis using PayloadTraceEvent t'(2,4) by (simp add: is_file_def del: drop_eq_Nil)
qed (use assms in \<open>auto simp: from_pos_def is_file_def\<close>)

lemma test_payload_commit:
  fixes size pos :: u64
  assumes "pos \<le> size" "k \<le> unat (size - pos)"
  shows "pos + of_nat k \<le> size" "unat (size - (pos + of_nat k)) = unat (size - pos) - k" "pos + of_nat k = size \<longleftrightarrow> k = unat (size - pos)"
proof -
  have d: "unat (size - pos) = unat size - unat pos" using assms(1) by (rule test_payload_left)
  have "k < 2 ^ 64" using le_less_trans [OF assms(2) unat_u64_less] by simp
  then have k: "unat (of_nat k :: u64) = k" by (rule unat_of_nat_u64)
  have "unat pos + k \<le> unat size" using assms d by (simp add: word_le_nat_alt)
  then have u: "unat (pos + of_nat k) = unat pos + k"
    using k le_less_trans [OF _ unat_u64_less] by (simp add: unat_word_ariths)
  show "pos + of_nat k \<le> size" "pos + of_nat k = size \<longleftrightarrow> k = unat (size - pos)"
    using u d \<open>unat pos + k \<le> unat size\<close> by (auto simp: word_le_nat_alt word_unat_eq_iff)
  then show "unat (size - (pos + of_nat k)) = unat (size - pos) - k"
    using u d by (simp add: test_payload_left)
qed

lemma payload_commit_ok:
  assumes "payload_inv io u p" "payload_get_read_ptr io p = Some (0, bs, p')" "0 < k" "k \<le> length bs"
  shows "\<exists>p''. payload_commit_read io k p' = Some (complete_if (k = length (payload_rest u p)), p'') \<and> payload_inv io u p''
    \<and> payload_rest u p'' = drop k (payload_rest u p) \<and> is_file p'' = is_file p"
proof (cases p)
  case (PayloadTest t)
  then have "k \<le> unat (ts_size t - ts_size_pos t)" "ts_size_pos t \<le> ts_size t" "p' = p" using assms by auto
  then show ?thesis using PayloadTest test_payload_commit [of "ts_size_pos t" "ts_size t" k] by (simp add: is_file_def)
next
  case (PayloadFile f)
  then obtain b where b: "sb_peek (io_flag io) (pf_buffer f) = Some (0, bs, b)" "p' = PayloadFile (f\<lparr>pf_buffer := b\<rparr>)" "sb_inv (pf_buffer f)"
    using assms by (auto simp: file_ok_def)
  obtain b'' where "sb_commit_read b k = Some (0, b'')" "sb_inv b''" "sb_contents b'' = drop k (sb_contents (pf_buffer f))"
    using sb.commit_ok [OF b(3,1) assms(4)] by blast
  moreover have "k \<le> length (sb_contents (pf_buffer f))"
    using sb.request_ok [OF b(3), of "io_flag io"] b(1) assms(4) by (auto dest!: prefix_length_le)
  ultimately show ?thesis using PayloadFile assms(1) b(2) by (auto simp: file_ok_def is_file_def complete_if_def)
next
  case (PayloadTraceEvent t)
  then obtain t' where t': "next_event_json t = Some t'" "trace_ok t'" "tp_events t' = tp_events t"
      "trace_left t' = trace_left t"
    using assms next_event_json_ok [of t] by auto
  then have p': "p' = PayloadTraceEvent t'" "bs = drop (tp_cursor t') (tp_cur_event_json t')"
    using PayloadTraceEvent assms(2) by (auto simp: from_pos_def trace_ok_def split: if_splits)
  have r: "payload_rest u p = bs @ trace_rest (tp_events t) (tp_event_index t')"
    using t'(3,4) p'(2) PayloadTraceEvent by (simp add: trace_left_def)
  have "length bs = length (tp_cur_event_json t') - tp_cursor t'" "tp_cursor t' \<le> length (tp_cur_event_json t')"
    using p'(2) t'(2) by (simp_all add: trace_ok_def)
  then have "k = length (payload_rest u p) \<longleftrightarrow> tp_cursor t' + k = length (tp_cur_event_json t') \<and> length (tp_events t) \<le> tp_event_index t'"
    using assms(4) by (cases "trace_rest (tp_events t) (tp_event_index t')") (auto simp: r simp flip: trace_rest_empty)
  then show ?thesis using p' t'(2,3) assms(4) \<open>length bs = _\<close> \<open>tp_cursor t' \<le> _\<close> r
    by (simp add: is_file_def trace_ok_def PayloadTraceEvent trace_left_def add.commute del: payload_rest.simps)
      (simp add: trace_left_def)
qed (use assms in \<open>auto simp: from_pos_def is_file_def complete_if_def add.commute split: if_splits\<close>)

interpretation payload: payload_stream "payload_inv io unread" "payload_rest unread" "payload_get_read_ptr io" "payload_commit_read io" for io unread
proof
  fix p :: "('a, 'b) payload" assume inv: "payload_inv io unread p"
  then show "\<exists>rc bs p'. payload_get_read_ptr io p = Some (rc, bs, p') \<and> payload_inv io unread p' \<and> payload_rest unread p' = payload_rest unread p \<and> prefix bs (payload_rest unread p)"
    using payload_get_ok by blast
  fix bs p' k assume "payload_get_read_ptr io p = Some (0, bs, p')" "0 < k" "k \<le> length bs"
  then obtain p'' where "payload_commit_read io k p' = Some (complete_if (k = length (payload_rest unread p)), p'')" "payload_inv io unread p''"
      "payload_rest unread p'' = drop k (payload_rest unread p)"
    using payload_commit_ok [OF inv] by blast
  then show "\<exists>r p''. payload_commit_read io k p' = Some (r, p'') \<and> payload_inv io unread p'' \<and> payload_rest unread p'' = drop k (payload_rest unread p)
      \<and> (r = HttpResult_Incomplete \<or> r = HttpResult_Complete \<and> payload_rest unread p'' = [])"
    by (auto simp: complete_if_def)
qed

text \<open>All but files, whose data comes from another thread, are ready.\<close>

interpretation ready_payload: ready_stream "\<lambda>p. payload_inv io unread p \<and> \<not> is_file p" "payload_rest unread" "payload_get_read_ptr io" "payload_commit_read io" for io unread
proof
  fix p :: "('a, 'b) payload" assume inv: "payload_inv io unread p \<and> \<not> is_file p"
  then obtain bs p' where get: "payload_get_read_ptr io p = Some (0, bs, p')" "payload_inv io unread p'" "payload_rest unread p' = payload_rest unread p"
      "prefix bs (payload_rest unread p)" "\<not> is_file p'" "bs = [] \<longleftrightarrow> payload_rest unread p = []"
    using payload_get_ok [of io unread p] by blast
  then show "\<exists>rc bs p'. payload_get_read_ptr io p = Some (rc, bs, p') \<and> (payload_inv io unread p' \<and> \<not> is_file p')
      \<and> payload_rest unread p' = payload_rest unread p \<and> prefix bs (payload_rest unread p)"
    by blast
  show "\<exists>bs p'. payload_get_read_ptr io p = Some (0, bs, p') \<and> bs \<noteq> []" if "payload_rest unread p \<noteq> []"
    using get(1,6) that by blast
  fix bs p' k assume "payload_get_read_ptr io p = Some (0, bs, p')" "0 < k" "k \<le> length bs"
  then obtain p'' where c: "payload_commit_read io k p' = Some (complete_if (k = length (payload_rest unread p)), p'')" "payload_inv io unread p''"
      "payload_rest unread p'' = drop k (payload_rest unread p)" "is_file p'' = is_file p"
    using payload_commit_ok [of io unread p] inv by blast
  then show "\<exists>r p''. payload_commit_read io k p' = Some (r, p'') \<and> (payload_inv io unread p'' \<and> \<not> is_file p'') \<and> payload_rest unread p'' = drop k (payload_rest unread p)
      \<and> (r = HttpResult_Incomplete \<or> r = HttpResult_Complete \<and> payload_rest unread p'' = [])"
    using inv by (auto simp: complete_if_def)
  show "\<exists>p''. payload_commit_read io k p' = Some (HttpResult_Complete, p'')" if "k = length (payload_rest unread p)"
    using c(1) that by (simp add: complete_if_def)
qed

text \<open>The other thread puts bytes of the file into the buffer: what is left to send stays.\<close>

lemma file_produced:
  assumes "payload_inv io unread (PayloadFile p)" "sb_write (io_flag io) (pf_buffer p) bs = Some (0, b)"
    and "unread (pf_file p) = bs @ unread f" "io_size io f = io_size io (pf_file p)"
  shows "payload_inv io unread (PayloadFile (p\<lparr>pf_buffer := b, pf_file := f\<rparr>))
    \<and> payload_rest unread (PayloadFile (p\<lparr>pf_buffer := b, pf_file := f\<rparr>)) = payload_rest unread (PayloadFile p)"
proof -
  have inv: "sb_inv (pf_buffer p)" using assms(1) by (simp add: file_ok_def)
  have "sb_inv b \<and> sb_contents b = sb_contents (pf_buffer p) @ bs"
    using sb_write_ok [OF inv, of "io_flag io" bs] assms(2) by (auto split: if_splits)
  then show ?thesis using assms by (simp add: file_ok_def)
qed

lemma new_trace_rest: "payload_rest u (new_trace_payload es :: ('e, 'f) payload) = trace_rest es 0"
  by (simp add: new_trace_payload_def trace_left_def)

section \<open>Sizes\<close>

text \<open>
  The trace is sent as a JSON list whose size is the one announced, unless there are no events:
  then one byte is announced and none sent.
\<close>

lemma trace_json_size_sum:
  "\<forall>e\<in>set es. length (event_text e) < 128 \<Longrightarrow> trace_json_size a es = Some (a + of_nat (sum_list (map (length \<circ> event_text) es)))"
proof (induction es arbitrary: a)
  case (Cons e es)
  have u: "ucast ((scast a :: u64) + of_nat n) = (a + of_nat n :: u32)" for n
  proof -
    have t: "take_bit 32 (i + j :: int) = take_bit 32 (take_bit 64 i + take_bit 64 j)" for i j :: int
      using take_bit_add [of 32 i j] take_bit_add [of 32 "take_bit 64 i" "take_bit 64 j"] by simp
    have "ucast (x + y) = (ucast x + ucast y :: u32)" for x y :: u64
      by transfer (use t in simp)
    moreover have "ucast (scast a :: u64) = a" by transfer (simp add: take_bit_signed_take_bit)
    moreover have "ucast (of_nat n :: u64) = (of_nat n :: u32)" by transfer simp
    ultimately show ?thesis by simp
  qed
  then show ?case using Cons
    by (simp add: to_json_def add.commute [of "of_nat (length (event_text e))" "scast a"] u add.assoc)
qed simp

lemma length_event_json: "length (event_json es i) = (if i = 0 then 1 else 0) + length (event_text (es ! i))"
  by (simp add: event_json_def Let_def ascii_def del: list_update.simps)

lemma length_trace_rest:
  "es \<noteq> [] \<Longrightarrow> length (trace_rest es 0) = sum_list (map (length \<circ> event_text) es) + 1"
proof -
  assume "es \<noteq> []"
  have "length (trace_rest es 0) = (\<Sum>i\<leftarrow>[0..<length es]. (if i = 0 then 1 else 0) + length (event_text (es ! i)))"
    by (simp add: trace_rest_def length_concat comp_def length_event_json)
  also have "\<dots> = (\<Sum>i\<leftarrow>[0..<length es]. if i = 0 then 1 else 0) + (\<Sum>i\<leftarrow>[0..<length es]. length (event_text (es ! i)))"
    by (simp add: sum_list_addf)
  also have "(\<Sum>i\<leftarrow>[0..<length es]. if i = 0 then 1 else (0::nat)) = 1"
  proof -
    have "map (\<lambda>i. if i = 0 then 1 else (0::nat)) [1..<length es] = map (\<lambda>i. 0) [1..<length es]" by (rule map_cong) auto
    then show ?thesis using \<open>es \<noteq> []\<close> by (simp add: upt_conv_Cons)
  qed
  also have "map (\<lambda>i. length (event_text (es ! i))) [0..<length es] = map (length \<circ> event_text) es"
    by (rule nth_equalityI) simp_all
  finally show ?thesis by simp
qed

section \<open>Ranges\<close>

lemma range_head:
  defines "B \<equiv> ascii ''bytes=''"
  assumes "i \<le> 6"
  shows "range_loop i ps pd s = (if prefix s (drop i B) then Some (ps, pd)
     else if prefix (drop i B) s then range_loop 6 ps pd (drop (6 - i) s) else None)"
  using assms(2)
proof (induction s arbitrary: i)
  case (Cons c s)
  have len: "length B = 6" by (simp add: B_def ascii_def)
  show ?case
  proof (cases "i < 6")
    case True
    then have "drop i B = B ! i # drop (Suc i) B" using len by (simp add: Cons_nth_drop_Suc)
    moreover have "6 - i = Suc (6 - Suc i)" using True by simp
    ultimately show ?thesis using Cons.IH [of "Suc i"] True len by (simp add: B_def)
  next
    case False
    then show ?thesis using Cons.prems len by simp
  qed
qed simp

lemma range_tail:
  assumes "6 \<le> i" "pd < int i"
  shows "\<exists>pd'. range_loop i ps pd s = Some (if s = [] \<or> ps \<ge> 0 then ps else int i, pd') \<and> pd' < int (i + length s)
     \<and> (s \<noteq> [] \<longrightarrow> (pd' = int (i + length s) - 1 \<longleftrightarrow> last s = ch_of CHR ''-'')) \<and> (s = [] \<longrightarrow> pd' = pd)"
  using assms
proof (induction s arbitrary: i ps pd)
  case (Cons c s)
  have len: "length (ascii ''bytes='') = 6" by (simp add: ascii_def)
  define ps1 pd1 where "ps1 = (if ps < 0 then int i else ps)" and "pd1 = (if c = ch_of CHR ''-'' then int i else pd)"
  have "0 \<le> ps1" "pd1 < int (Suc i)" using Cons.prems by (simp_all add: ps1_def pd1_def)
  then obtain pd' where "range_loop (Suc i) ps1 pd1 s = Some (ps1, pd')" "pd' < int (Suc i + length s)"
     "s \<noteq> [] \<longrightarrow> (pd' = int (Suc i + length s) - 1 \<longleftrightarrow> last s = ch_of CHR ''-'')" "s = [] \<longrightarrow> pd' = pd1"
    using Cons.IH [of "Suc i" pd1 ps1] Cons.prems(1) by auto
  then show ?case using Cons.prems len by (intro exI [of _ pd']) (auto simp: ps1_def pd1_def)
qed simp

lemma dec_nat_digits: "dec_nat n \<noteq> [] \<and> (\<forall>c\<in>set (dec_nat n). IS_NUM c)"
  using dec_nat_decimal [of n] by (simp add: IS_NUM_def)

lemma strtol_digits:
  assumes "n < 2 ^ 63"
  shows "strtol (dec_nat n) = n"
proof -
  have "takeWhile IS_NUM (dec_nat n) = dec_nat n" using dec_nat_digits by (simp add: takeWhile_eq_all_conv)
  then show ?thesis unfolding strtol_def using assms digits_value [of n] by (simp only: min_def) simp
qed

lemma range_prefix:
  "range_loop 0 (-1) (-1) s = (if prefix s (ascii ''bytes='') then Some (-1, -1)
     else if prefix (ascii ''bytes='') s then range_loop 6 (-1) (-1) (drop 6 s) else None)"
  using range_head [of 0 "-1" "-1" s] by simp

lemma range_text:
  assumes "t \<noteq> []"
  shows "(\<exists>s. s \<noteq> [] \<and> IS_NUM (hd s) \<and> t = s @ ascii ''-'' \<and> Q s) \<longleftrightarrow> last t = ch_of CHR ''-'' \<and> IS_NUM (hd t) \<and> Q (butlast t)"
proof
  assume "\<exists>s. s \<noteq> [] \<and> IS_NUM (hd s) \<and> t = s @ ascii ''-'' \<and> Q s"
  then show "last t = ch_of CHR ''-'' \<and> IS_NUM (hd t) \<and> Q (butlast t)" by (auto simp: ascii_def)
next
  assume a: "last t = ch_of CHR ''-'' \<and> IS_NUM (hd t) \<and> Q (butlast t)"
  then have b: "t = butlast t @ ascii ''-''" using assms append_butlast_last_id [of t] by (simp add: ascii_def)
  moreover have "butlast t \<noteq> []"
  proof
    assume "butlast t = []"
    then have "hd t = ch_of CHR ''-''" using b by (simp add: ascii_def)
    then show False using a by (simp add: IS_NUM_def)
  qed
  moreover have "hd (butlast t) = hd t" using b \<open>butlast t \<noteq> []\<close> hd_append2 by metis
  ultimately show "\<exists>s. s \<noteq> [] \<and> IS_NUM (hd s) \<and> t = s @ ascii ''-'' \<and> Q s" using a by metis
qed

text \<open>
  a range header is taken exactly if it is an open range of bytes, with the number at its start
  as the position; only of an empty text is a character read that is not there.
\<close>

theorem parse_range_header_spec:
  "(parse_range_header str = None \<longleftrightarrow> str = [])
   \<and> (parse_range_header str = Some (Some n) \<longleftrightarrow> (\<exists>s. s \<noteq> [] \<and> IS_NUM (hd s) \<and> str = ascii ''bytes='' @ s @ ascii ''-'' \<and> n = strtol s))"
proof (cases "prefix (ascii ''bytes='') str \<and> str \<noteq> ascii ''bytes=''")
  case True
  then obtain t where t: "str = ascii ''bytes='' @ t" "t \<noteq> []" by (auto simp: prefix_def)
  have l: "length (ascii ''bytes='') = 6" by (simp add: ascii_def)
  have "\<not> prefix str (ascii ''bytes='')" using t prefix_length_le [of str "ascii ''bytes=''"] by auto
  then obtain pd where pd: "range_loop 0 (-1) (-1) str = Some (6, pd)" "pd < int (length str)"
      "pd = int (length str) - 1 \<longleftrightarrow> last t = ch_of CHR ''-''"
    using range_tail [of 6 "-1" "-1" t] t l by (auto simp: range_prefix)
  have s: "str ! 6 = hd t" "str \<noteq> []" "int (length str) = 6 + int (length t)" using t l by (auto simp: nth_append hd_conv_nth)
  have "parse_range_header str = Some (if last t = ch_of CHR ''-'' \<and> IS_NUM (hd t) then Some (strtol (butlast t)) else None)"
  proof (cases "last t = ch_of CHR ''-''")
    case True
    then have "pd = 5 + int (length t)" using pd s by simp
    moreover have "nat (int (length t) - 1) = length t - 1" by arith
    then have "slice 6 (nat (int (length t) - 1)) str = butlast t"
      using t l by (simp add: slice_def butlast_conv_take)
    ultimately show ?thesis using True pd(1) s by (simp add: parse_range_header_def)
  next
    case False
    then have "pd + 1 < int (length str)" using pd by simp
    then show ?thesis using False pd(1) by (simp add: parse_range_header_def)
  qed
  then show ?thesis using range_text [OF t(2), of "\<lambda>s. n = strtol s"] s(2) by (auto simp: t(1))
next
  case False
  then have "\<not> (\<exists>s. s \<noteq> [] \<and> IS_NUM (hd s) \<and> str = ascii ''bytes='' @ s @ ascii ''-'' \<and> n = strtol s)" by auto
  then show ?thesis using False by (auto simp: parse_range_header_def range_prefix)
qed


text \<open>The length that is announced is the number of bytes that follow, below 2 GiB.\<close>

lemma sint_of_nat_small: "n < 2 ^ 31 \<Longrightarrow> sint (of_nat n :: u32) = int n"
  by (simp add: signed_of_nat signed_take_bit_int_eq_self)

lemma int_of_size_small: "n < 2 ^ 31 \<Longrightarrow> int_of_size (of_nat n) = int n"
proof -
  assume n: "n < 2 ^ 31"
  have "ucast (of_nat n :: u64) = (of_nat n :: u32)" by transfer simp
  then show ?thesis using sint_of_nat_small [OF n] by (simp add: int_of_size_def)
qed

lemma announced_length:
  assumes "p \<in> {new_json t, new_blob t, new_test (of_nat n), new_trace_payload es}" "es \<noteq> []" "\<forall>e\<in>set es. length (event_text e) < 128" "n < 2 ^ 31"
    and "length (payload_rest u p) < 2 ^ 31"
  shows "\<exists>hs. payload_header_fields io p = Some hs \<and> (ascii ''Content-Length'', dec_nat (length (payload_rest u p))) \<in> set hs"
proof -
  have c: "content_length_field (of_nat k) = (ascii ''Content-Length'', dec_nat k)" if "k < 2 ^ 31" for k
    using int_of_size_small [OF that] by (simp add: content_length_field_def dec_int_def)
  have "\<exists>hs. payload_header_fields io p = Some hs \<and> content_length_field (of_nat (length (payload_rest u p))) \<in> set hs"
    using assms(1)
  proof (elim insertE emptyE)
    assume p: "p = new_trace_payload es"
    let ?n = "sum_list (map (length \<circ> event_text) es)"
    have n: "length (payload_rest u p) = ?n + 1" using length_trace_rest [OF assms(2)] by (simp add: p new_trace_rest)
    then have "(scast (of_nat ?n :: u32) :: u64) + 1 = of_nat (?n + 1)"
      using assms(5) sint_of_nat_small [of ?n] by (simp add: scast_eq add.commute)
    then show ?thesis using n p trace_json_size_sum [OF assms(3), of 0] by (simp add: new_trace_payload_def add.commute)
  qed (use assms(4,5) in \<open>auto simp: new_json_def new_blob_def new_test_def int_of_size_small unat_of_nat_u64\<close>)
  then show ?thesis using c [OF assms(5)] by simp
qed

end
