(* ===== verification/HttpResponse.thy ===== *)
theory HttpResponse
  imports HttpPayload
begin

text \<open>
  \<^verbatim>\<open>lib_http/http_response.cpp\<close> with the status codes of \<^verbatim>\<open>http_utils.cpp\<close>: a response hands out its
  header, printed when it is first asked for, and then its payload. A response whose payload is not
  empty is again a source that the interface of payloads describes.
\<close>

section \<open>Status codes\<close>

definition status_codes :: "int \<Rightarrow> byte list option" where
  "status_codes = map_option ascii \<circ> map_of [(200, ''OK''), (201, ''Created''), (204, ''No Content''), (206, ''Partial Content''), (301, ''Moved Permanently''),
     (400, ''Bad Request''), (401, ''Unauthorized''), (403, ''Forbidden''), (404, ''Not Found''), (413, ''Request Entity Too Large''),
     (415, ''Unsupported Media Type''), (500, ''Internal Server Error''), (501, ''Not Implemented''), (503, ''Service Unavailable''), (408, ''Request Timeout'')]"

section \<open>Responses\<close>

record ('e, 'f) http_response =
  rs_status_code :: int
  rs_payload :: "('e, 'f) payload"
  rs_header :: "byte list"
  rs_header_fields :: "key_value_pair list"
  rs_header_pos :: nat

definition CRLF :: "byte list" where "CRLF = [CR, LF]"

definition set_payload :: "('e, 'f) file_io \<Rightarrow> ('e, 'f) payload \<Rightarrow> ('e, 'f) http_response \<Rightarrow> ('e, 'f) http_response option" where
  "set_payload io p r = map_option (\<lambda>hs. r\<lparr>rs_header_fields := hs, rs_payload := p\<rparr>) (payload_header_fields io p)"

definition add_header_field :: "key_value_pair \<Rightarrow> ('e, 'f) http_response \<Rightarrow> ('e, 'f) http_response" where
  "add_header_field kv r = r\<lparr>rs_header_fields := rs_header_fields r @ [kv]\<rparr>"

definition set_status_code :: "int \<Rightarrow> ('e, 'f) http_response \<Rightarrow> ('e, 'f) http_response" where
  "set_status_code status r = r\<lparr>rs_status_code := status\<rparr>"

definition new_response :: "('e, 'f) file_io \<Rightarrow> ('e, 'f) http_response" where
  "new_response io = the (set_payload io PayloadEmpty
     \<lparr>rs_status_code = 0, rs_payload = PayloadEmpty, rs_header = [], rs_header_fields = [], rs_header_pos = 0\<rparr>)"

definition build_header_string :: "('e, 'f) http_response \<Rightarrow> byte list option" where
  "build_header_string r = map_option (\<lambda>reason. ascii ''HTTP/1.1 '' @ dec_int (rs_status_code r) @ ascii '' '' @ reason @ CRLF
       @ concat (map (\<lambda>(k, v). k @ ascii '': '' @ v @ CRLF) (rs_header_fields r)) @ CRLF)
     (status_codes (rs_status_code r))"

definition response_get_read_ptr :: "('e, 'f) file_io \<Rightarrow> ('e, 'f) http_response \<Rightarrow> (int \<times> byte list \<times> ('e, 'f) http_response) option" where
  "response_get_read_ptr io r =
     (case if rs_header r = [] then map_option (\<lambda>h. r\<lparr>rs_header := h, rs_header_pos := 0\<rparr>) (build_header_string r) else Some r of
        None \<Rightarrow> Some (-1, [], r)
      | Some r \<Rightarrow> if rs_header_pos r < length (rs_header r) then Some (0, drop (rs_header_pos r) (rs_header r), r)
          else map_option (\<lambda>(rc, d, p). (rc, d, r\<lparr>rs_payload := p\<rparr>)) (payload_get_read_ptr io (rs_payload r)))"

definition response_commit_read :: "('e, 'f) file_io \<Rightarrow> nat \<Rightarrow> ('e, 'f) http_response \<Rightarrow> (http_result \<times> ('e, 'f) http_response) option" where
  "response_commit_read io n r =
     (if rs_header_pos r = length (rs_header r) then map_option (\<lambda>(rc, p). (rc, r\<lparr>rs_payload := p\<rparr>)) (payload_commit_read io n (rs_payload r))
      else Some (HttpResult_Incomplete, r\<lparr>rs_header_pos := rs_header_pos r + n\<rparr>))"

section \<open>What is left of a response\<close>

text \<open>Of a response without a header, whose status code is not in the table, nothing can be read.\<close>

definition no_header :: "('e, 'f) http_response \<Rightarrow> bool" where
  "no_header r \<longleftrightarrow> rs_header r = [] \<and> build_header_string r = None"

definition response_rest :: "('f \<Rightarrow> byte list) \<Rightarrow> ('e, 'f) http_response \<Rightarrow> byte list" where
  "response_rest unread r =
     (if rs_header r = [] then (case build_header_string r of None \<Rightarrow> [] | Some h \<Rightarrow> h @ payload_rest unread (rs_payload r))
      else drop (rs_header_pos r) (rs_header r) @ payload_rest unread (rs_payload r))"

definition response_inv :: "('e, 'f) file_io \<Rightarrow> ('f \<Rightarrow> byte list) \<Rightarrow> ('e, 'f) http_response \<Rightarrow> bool" where
  "response_inv io unread r \<longleftrightarrow> payload_inv io unread (rs_payload r) \<and> rs_header_pos r \<le> length (rs_header r)"

lemma header_not_empty: "build_header_string r = Some h \<Longrightarrow> h \<noteq> []"
  by (auto simp: build_header_string_def ascii_def)

definition in_header :: "('e, 'f) http_response \<Rightarrow> bool" where
  "in_header r \<longleftrightarrow> rs_header r = [] \<or> rs_header_pos r < length (rs_header r)"

lemma response_get_none:
  assumes "no_header r"
  shows "response_get_read_ptr io r = Some (-1, [], r) \<and> response_rest u r = []"
  using assms by (simp add: no_header_def response_get_read_ptr_def response_rest_def)

lemma response_get_header:
  assumes "response_inv io u r" "in_header r" "\<not> no_header r"
  obtains r' where "response_get_read_ptr io r = Some (0, drop (rs_header_pos r') (rs_header r'), r')" "response_inv io u r'"
    "response_rest u r' = response_rest u r" "rs_payload r' = rs_payload r" "rs_header_pos r' < length (rs_header r')"
proof (cases "rs_header r = []")
  case True
  then obtain h where h: "build_header_string r = Some h" "h \<noteq> []"
    using assms(3) header_not_empty by (auto simp: no_header_def)
  then show ?thesis using assms True
    by (intro that [of "r\<lparr>rs_header := h, rs_header_pos := 0\<rparr>"]) (auto simp: response_get_read_ptr_def response_inv_def response_rest_def)
next
  case False
  then show ?thesis using assms by (intro that [of r]) (auto simp: response_get_read_ptr_def in_header_def)
qed

lemma response_get_payload:
  assumes "response_inv io u r" "\<not> in_header r"
  obtains rc bs p' where "response_get_read_ptr io r = Some (rc, bs, r\<lparr>rs_payload := p'\<rparr>)" "payload_get_read_ptr io (rs_payload r) = Some (rc, bs, p')"
    "payload_inv io u p'" "payload_rest u p' = payload_rest u (rs_payload r)" "prefix bs (payload_rest u (rs_payload r))"
    "is_file p' = is_file (rs_payload r)" "\<not> is_file p' \<Longrightarrow> rc = 0 \<and> (bs = [] \<longleftrightarrow> payload_rest u (rs_payload r) = [])"
proof -
  obtain rc bs p' where p': "payload_get_read_ptr io (rs_payload r) = Some (rc, bs, p')" "payload_inv io u p'" "payload_rest u p' = payload_rest u (rs_payload r)"
    "prefix bs (payload_rest u (rs_payload r))" "is_file p' = is_file (rs_payload r)"
    "\<not> is_file (rs_payload r) \<longrightarrow> rc = 0 \<and> (bs = [] \<longleftrightarrow> payload_rest u (rs_payload r) = [])"
    using payload_get_ok [of io u "rs_payload r"] assms(1) by (auto simp: response_inv_def)
  show thesis
    by (rule that [of rc bs p']) (use p' assms(2) in \<open>auto simp: response_get_read_ptr_def in_header_def\<close>)
qed

lemma response_rest_payload: "response_inv io u r \<Longrightarrow> \<not> in_header r \<Longrightarrow> response_rest u r = payload_rest u (rs_payload r)"
  by (auto simp: response_rest_def in_header_def response_inv_def)

lemma response_get_ok:
  assumes "response_inv io u r"
  shows "\<exists>rc bs r'. response_get_read_ptr io r = Some (rc, bs, r') \<and> response_inv io u r' \<and> response_rest u r' = response_rest u r
    \<and> prefix bs (response_rest u r) \<and> is_file (rs_payload r') = is_file (rs_payload r)
    \<and> payload_rest u (rs_payload r') = payload_rest u (rs_payload r) \<and> (in_header r' \<longleftrightarrow> in_header r)
    \<and> (\<not> is_file (rs_payload r) \<and> \<not> no_header r \<longrightarrow> rc = 0 \<and> (bs = [] \<longleftrightarrow> response_rest u r = []))"
proof (cases "in_header r")
  case h: True
  show ?thesis
  proof (cases "no_header r")
    case True
    then show ?thesis using response_get_none [of r io u] assms by simp
  next
    case False
  then obtain r' where r': "response_get_read_ptr io r = Some (0, drop (rs_header_pos r') (rs_header r'), r')" "response_inv io u r'"
    "response_rest u r' = response_rest u r" "rs_payload r' = rs_payload r" "rs_header_pos r' < length (rs_header r')"
    using response_get_header [OF assms h] by blast
  have "rs_header r' \<noteq> []" using r'(5) by auto
  then have "response_rest u r = drop (rs_header_pos r') (rs_header r') @ payload_rest u (rs_payload r)"
    unfolding r'(3) [symmetric] r'(4) [symmetric] by (simp add: response_rest_def)
  then show ?thesis using r' h by (simp add: in_header_def)
  qed
next
  case False
  then obtain rc bs p' where p': "response_get_read_ptr io r = Some (rc, bs, r\<lparr>rs_payload := p'\<rparr>)"
    "payload_inv io u p'" "payload_rest u p' = payload_rest u (rs_payload r)" "prefix bs (payload_rest u (rs_payload r))"
    "is_file p' = is_file (rs_payload r)" "\<not> is_file p' \<Longrightarrow> rc = 0 \<and> (bs = [] \<longleftrightarrow> payload_rest u (rs_payload r) = [])"
    using response_get_payload [OF assms] by metis
  then show ?thesis using False assms response_rest_payload [OF assms False]
    by (auto simp: response_inv_def response_rest_def in_header_def)
qed

lemma response_commit_ok:
  assumes "response_inv io u r" "response_get_read_ptr io r = Some (0, bs, r')" "0 < k" "k \<le> length bs"
  shows "\<exists>rc r''. response_commit_read io k r' = Some (rc, r'') \<and> response_inv io u r'' \<and> response_rest u r'' = drop k (response_rest u r)
    \<and> is_file (rs_payload r'') = is_file (rs_payload r) \<and> rs_header r'' \<noteq> []
    \<and> (if in_header r then rc = HttpResult_Incomplete \<and> payload_rest u (rs_payload r'') = payload_rest u (rs_payload r)
       else \<not> in_header r'' \<and> rc = complete_if (k = length (response_rest u r)))"
proof (cases "in_header r")
  case True
  have "\<not> no_header r" using response_get_none [of r io u] assms(2) by auto
  then obtain r1 where r': "response_get_read_ptr io r = Some (0, drop (rs_header_pos r1) (rs_header r1), r1)" "response_inv io u r1"
    "response_rest u r1 = response_rest u r" "rs_payload r1 = rs_payload r" "rs_header_pos r1 < length (rs_header r1)"
    using response_get_header [OF assms(1) True] by blast
  have "rs_header r1 \<noteq> []" using r'(5) by auto
  then have "response_rest u r = drop (rs_header_pos r1) (rs_header r1) @ payload_rest u (rs_payload r)"
    unfolding r'(3) [symmetric] r'(4) [symmetric] by (simp add: response_rest_def)
  then show ?thesis using r' True assms(2-4) \<open>rs_header r1 \<noteq> []\<close>
    by (auto simp: response_commit_read_def response_inv_def response_rest_def add.commute)
next
  case False
  then obtain p' where p': "r' = r\<lparr>rs_payload := p'\<rparr>" "payload_get_read_ptr io (rs_payload r) = Some (0, bs, p')"
    using response_get_payload [OF assms(1)] assms(2) by (metis Pair_inject option.inject)
  moreover obtain p'' where "payload_commit_read io k p' = Some (complete_if (k = length (payload_rest u (rs_payload r))), p'')" "payload_inv io u p''"
     "payload_rest u p'' = drop k (payload_rest u (rs_payload r))" "is_file p'' = is_file (rs_payload r)"
    using payload_commit_ok [OF _ p'(2) assms(3,4), of u] assms(1) by (auto simp: response_inv_def)
  ultimately show ?thesis using False assms(1) response_rest_payload [OF assms(1) False]
    by (auto simp: response_commit_read_def response_inv_def response_rest_def in_header_def)
qed

interpretation response: payload_stream "response_inv io unread" "response_rest unread" "response_get_read_ptr io" "response_commit_read io" for io unread
proof
  fix r :: "('a, 'b) http_response" assume inv: "response_inv io unread r"
  then show "\<exists>rc bs r'. response_get_read_ptr io r = Some (rc, bs, r') \<and> response_inv io unread r' \<and> response_rest unread r' = response_rest unread r
      \<and> prefix bs (response_rest unread r)"
    using response_get_ok by blast
  fix bs r' k assume "response_get_read_ptr io r = Some (0, bs, r')" "0 < k" "k \<le> length bs"
  then show "\<exists>rc r''. response_commit_read io k r' = Some (rc, r'') \<and> response_inv io unread r'' \<and> response_rest unread r'' = drop k (response_rest unread r)
      \<and> (rc = HttpResult_Incomplete \<or> rc = HttpResult_Complete \<and> response_rest unread r'' = [])"
    using response_commit_ok [OF inv, of bs r' k] by (auto simp: complete_if_def split: if_splits)
qed

text \<open>The end is reported by the payload only, so a response is ready if its payload is not empty.\<close>

definition response_ready :: "('e, 'f) file_io \<Rightarrow> ('f \<Rightarrow> byte list) \<Rightarrow> ('e, 'f) http_response \<Rightarrow> bool" where
  "response_ready io u r \<longleftrightarrow> response_inv io u r \<and> \<not> is_file (rs_payload r) \<and> (in_header r \<longrightarrow> payload_rest u (rs_payload r) \<noteq> [])"

lemma response_ready_get:
  assumes "response_ready io u r"
  shows "\<exists>rc bs r'. response_get_read_ptr io r = Some (rc, bs, r') \<and> response_ready io u r' \<and> response_rest u r' = response_rest u r
    \<and> prefix bs (response_rest u r) \<and> (response_rest u r \<noteq> [] \<longrightarrow> rc = 0 \<and> bs \<noteq> [])"
proof (cases "no_header r")
  case True
  then show ?thesis using response_get_none [of r io u] assms by simp
next
  case False
  then obtain rc bs r' where "response_get_read_ptr io r = Some (rc, bs, r')" "response_inv io u r'" "response_rest u r' = response_rest u r"
      "prefix bs (response_rest u r)" "is_file (rs_payload r') = is_file (rs_payload r)" "payload_rest u (rs_payload r') = payload_rest u (rs_payload r)"
      "in_header r' = in_header r" "rc = 0" "bs = [] \<longleftrightarrow> response_rest u r = []"
    using response_get_ok [of io u r] assms by (auto simp: response_ready_def)
  then show ?thesis using assms by (simp add: response_ready_def)
qed

interpretation ready_response: ready_stream "response_ready io unread" "response_rest unread" "response_get_read_ptr io" "response_commit_read io" for io unread
proof
  fix r :: "('a, 'b) http_response" assume inv: "response_ready io unread r"
  show "\<exists>rc bs r'. response_get_read_ptr io r = Some (rc, bs, r') \<and> response_ready io unread r'
      \<and> response_rest unread r' = response_rest unread r \<and> prefix bs (response_rest unread r)"
    using response_ready_get [OF inv] by blast
  show "\<exists>bs r'. response_get_read_ptr io r = Some (0, bs, r') \<and> bs \<noteq> []" if "response_rest unread r \<noteq> []"
    using response_ready_get [OF inv] that by blast
  fix bs r' k assume g: "response_get_read_ptr io r = Some (0, bs, r')" "0 < k" "k \<le> length bs"
  have "response_inv io unread r" using inv by (simp add: response_ready_def)
  then obtain rc r'' where c: "response_commit_read io k r' = Some (rc, r'')" "response_inv io unread r''" "response_rest unread r'' = drop k (response_rest unread r)"
      "is_file (rs_payload r'') = is_file (rs_payload r)" "rs_header r'' \<noteq> []"
      "if in_header r then rc = HttpResult_Incomplete \<and> payload_rest unread (rs_payload r'') = payload_rest unread (rs_payload r)
       else \<not> in_header r'' \<and> rc = complete_if (k = length (response_rest unread r))"
    using response_commit_ok [OF _ g] by blast
  then show "\<exists>rc r''. response_commit_read io k r' = Some (rc, r'') \<and> response_ready io unread r'' \<and> response_rest unread r'' = drop k (response_rest unread r)
      \<and> (rc = HttpResult_Incomplete \<or> rc = HttpResult_Complete \<and> response_rest unread r'' = [])"
    using inv by (auto simp: complete_if_def response_ready_def split: if_splits)
  show "\<exists>r''. response_commit_read io k r' = Some (HttpResult_Complete, r'')" if "k = length (response_rest unread r)"
  proof -
    have "payload_rest unread (rs_payload r'') = []" using c(3,5) that by (simp add: response_rest_def)
    then have "\<not> in_header r" using c(6) inv by (auto simp: response_ready_def)
    then show ?thesis using c(1,6) that by (simp add: complete_if_def)
  qed
qed

end
