(* ===== verification/HttpServer.thy ===== *)
theory HttpServer
  imports HttpResponse
begin

text \<open>
  \<^verbatim>\<open>lib_http/http_server.cpp\<close>: what the thread of the server does with its connections. The network is
  given per connection and round: the packets that arrived, the space in a new packet, the outcome
  of sending. Each operation also returns the bytes that were sent. The handlers of the application
  see of a request what its accessors show. TLS, which encrypts packets, and the start and the end of
  the thread are left to the vendor's library.
\<close>

section \<open>Network\<close>

text \<open>\<open>WICED_ERROR\<close> stands for every code that is neither success nor a reason to try again.\<close>

datatype wiced_result = WICED_SUCCESS | WICED_TIMEOUT | WICED_WOULD_BLOCK | WICED_ERROR

record net_round =
  nr_received :: "byte list list"
  nr_dangling_rc :: wiced_result
  nr_packet_size :: "u16 option"
  nr_send_rc :: wiced_result

record ('e, 'f) tcp_connection =
  tc_socket :: nat
  tc_ip_address :: u32
  tc_port :: u16
  tc_tls_context :: bool
  tc_dangling_packet :: "byte list option"
  tc_active :: bool
  tc_response :: "('e, 'f) http_response option"
  tc_request :: "http_request option"

section \<open>Requests\<close>

fun read_packets :: "byte list list \<Rightarrow> http_result \<Rightarrow> http_request \<Rightarrow> (http_result \<times> http_request) option" where
  "read_packets [] http_res req = Some (http_res, req)"
| "read_packets (p # ps) http_res req = do {
     (http_res, req) \<leftarrow> read_from p req;
     if http_res \<noteq> HttpResult_Incomplete then Some (http_res, req) else read_packets ps http_res req
   }"

definition read_http_request_from_socket :: "byte list list \<Rightarrow> http_request \<Rightarrow> (http_result \<times> http_request) option" where
  "read_http_request_from_socket ps req = read_packets ps HttpResult_Undefined req"

fun method_number :: "http_method \<Rightarrow> int" where
  "method_number HTTP_DELETE = 0"
| "method_number HTTP_GET = 1" | "method_number HTTP_HEAD = 2" | "method_number HTTP_POST = 3" | "method_number HTTP_PUT = 4"
| "method_number HTTP_CONNECT = 5" | "method_number HTTP_OPTIONS = 6" | "method_number HTTP_TRACE = 7" | "method_number HTTP_COPY = 8"
| "method_number HTTP_LOCK = 9" | "method_number HTTP_MKCOL = 10" | "method_number HTTP_MOVE = 11" | "method_number HTTP_PROPFIND = 12"
| "method_number HTTP_PROPPATCH = 13" | "method_number HTTP_SEARCH = 14" | "method_number HTTP_UNLOCK = 15" | "method_number HTTP_BIND = 16"
| "method_number HTTP_REBIND = 17" | "method_number HTTP_UNBIND = 18" | "method_number HTTP_ACL = 19" | "method_number HTTP_REPORT = 20"
| "method_number HTTP_MKACTIVITY = 21" | "method_number HTTP_CHECKOUT = 22" | "method_number HTTP_MERGE = 23" | "method_number HTTP_MSEARCH = 24"
| "method_number HTTP_NOTIFY = 25" | "method_number HTTP_SUBSCRIBE = 26" | "method_number HTTP_UNSUBSCRIBE = 27" | "method_number HTTP_PATCH = 28"
| "method_number HTTP_PURGE = 29" | "method_number HTTP_MKCALENDAR = 30" | "method_number HTTP_LINK = 31" | "method_number HTTP_UNLINK = 32"

type_synonym ('h, 'e, 'f) handlers = "'h \<Rightarrow> http_method \<times> request_data \<Rightarrow> ('e, 'f) http_response \<Rightarrow> ('e, 'f) http_response"

definition answer_request :: "('e, 'f) file_io \<Rightarrow> (method_path \<times> 'h) list \<Rightarrow> ('h, 'e, 'f) handlers \<Rightarrow> http_request \<Rightarrow> ('e, 'f) tcp_connection \<Rightarrow> ('e, 'f) tcp_connection option" where
  "answer_request io routes handle req tc = do {
     d \<leftarrow> pdata req;
     let response = (case find_http_handler routes (method_number (meth req)) (m_path d) (tc_tls_context tc) of
         Some h \<Rightarrow> handle h (meth req, d) (new_response io)
       | None \<Rightarrow> set_status_code 404 (new_response io));
     Some (tc\<lparr>tc_response := Some response, tc_request := None\<rparr>)
   }"

definition serve_request :: "('e, 'f) file_io \<Rightarrow> (method_path \<times> 'h) list \<Rightarrow> ('h, 'e, 'f) handlers \<Rightarrow> byte list list \<Rightarrow> ('e, 'f) tcp_connection \<Rightarrow> ('e, 'f) tcp_connection option" where
  "serve_request io routes handle ps tc =
     (case tc_request tc of None \<Rightarrow> Some tc
      | Some req \<Rightarrow> do {
          (http_res, req) \<leftarrow> read_http_request_from_socket ps req;
          if http_res = HttpResult_Complete then answer_request io routes handle req tc
          else if http_res = HttpResult_Error then Some (tc\<lparr>tc_request := None, tc_response := Some (set_status_code 400 (new_response io))\<rparr>)
          else Some (tc\<lparr>tc_request := Some req\<rparr>)
        })"

section \<open>Responses\<close>

text \<open>
  The loop that fills a packet: the room left in it, the bytes in it, and the status of the last
  commit. It ends because a source that has data hands out at least one byte.
\<close>

function fill_packet :: "('r \<Rightarrow> (int \<times> byte list \<times> 'r) option) \<Rightarrow> (nat \<Rightarrow> 'r \<Rightarrow> (http_result \<times> 'r) option) \<Rightarrow> nat \<Rightarrow> byte list \<Rightarrow> http_result \<Rightarrow> 'r
    \<Rightarrow> (byte list \<times> http_result \<times> 'r) option" where
  "fill_packet get commit room packet status r = (case get r of None \<Rightarrow> None
     | Some (rc, d, r) \<Rightarrow>
         if rc = 0 \<and> d \<noteq> [] \<and> room > 0 then
           let n = min (length d) room
           in case commit n r of None \<Rightarrow> None
              | Some (status, r) \<Rightarrow> fill_packet get commit (room - n) (packet @ take n d) status r
         else Some (packet, status, r))"
  by pat_completeness auto
termination by (relation "measure (\<lambda>(get, commit, room, _). room)") auto

declare fill_packet.simps [simp del]

definition send_dangling_packet :: "wiced_result \<Rightarrow> ('e, 'f) tcp_connection \<Rightarrow> byte list \<times> ('e, 'f) tcp_connection" where
  "send_dangling_packet rc tc = (case tc_dangling_packet tc of
       Some packet \<Rightarrow> if rc = WICED_SUCCESS then (packet, tc\<lparr>tc_dangling_packet := None\<rparr>) else ([], tc)
     | None \<Rightarrow> ([], tc))"

definition write_http_response_to_socket :: "('e, 'f) file_io \<Rightarrow> u16 option \<Rightarrow> wiced_result \<Rightarrow> ('e, 'f) tcp_connection \<Rightarrow> ('e, 'f) http_response
    \<Rightarrow> (http_result \<times> byte list \<times> ('e, 'f) tcp_connection \<times> ('e, 'f) http_response) option" where
  "write_http_response_to_socket io packet_size send_rc tc response = (case packet_size of
     None \<Rightarrow> Some (HttpResult_Incomplete, [], tc, response)
   | Some space \<Rightarrow> do {
       (packet, status, response) \<leftarrow> fill_packet (response_get_read_ptr io) (response_commit_read io) (unat space) [] HttpResult_Incomplete response;
       Some (if packet = [] then (status, [], tc, response)
             else if send_rc = WICED_SUCCESS then (status, packet, tc, response)
             else if send_rc = WICED_ERROR then (HttpResult_Error, [], tc, response)
             else (HttpResult_Incomplete, [], tc\<lparr>tc_dangling_packet := Some packet\<rparr>, response))
     })"

definition respond :: "('e, 'f) file_io \<Rightarrow> net_round \<Rightarrow> ('e, 'f) tcp_connection \<Rightarrow> (byte list \<times> ('e, 'f) tcp_connection) option" where
  "respond io i tc = (case tc_response tc of None \<Rightarrow> Some ([], tc)
     | Some response \<Rightarrow>
         let (sent1, tc) = send_dangling_packet (nr_dangling_rc i) tc in
         if tc_dangling_packet tc \<noteq> None then Some (sent1, tc)
         else do {
           (http_res, sent2, tc, response) \<leftarrow> write_http_response_to_socket io (nr_packet_size i) (nr_send_rc i) tc response;
           Some (sent1 @ sent2, if http_res \<noteq> HttpResult_Incomplete then tc\<lparr>tc_response := None, tc_active := False\<rparr>
                                else tc\<lparr>tc_response := Some response\<rparr>)
         })"

section \<open>The thread\<close>

definition begin_request :: "('e, 'f) tcp_connection \<Rightarrow> ('e, 'f) tcp_connection" where
  "begin_request tc = (if tc_request tc = None \<and> tc_response tc = None
     then tc\<lparr>tc_request := Some (set_remote_ip (tc_ip_address tc) new_request)\<rparr> else tc)"

definition connection_round :: "('e, 'f) file_io \<Rightarrow> (method_path \<times> 'h) list \<Rightarrow> ('h, 'e, 'f) handlers \<Rightarrow> net_round \<Rightarrow> ('e, 'f) tcp_connection
    \<Rightarrow> (byte list \<times> ('e, 'f) tcp_connection) option" where
  "connection_round io routes handle i tc = do {
     tc \<leftarrow> serve_request io routes handle (nr_received i) (begin_request tc);
     respond io i tc
   }"

record ('h, 'e, 'f) http_server =
  sv_routes :: "(method_path \<times> 'h) list"
  sv_connected_sockets :: "('e, 'f) tcp_connection list"
  sv_num_connected_sockets :: int

definition WICED_WAIT_FOREVER :: u32 where "WICED_WAIT_FOREVER = -1"

definition queue_timeout :: "('h, 'e, 'f) http_server \<Rightarrow> u32" where
  "queue_timeout s = (if \<exists>tc\<in>set (sv_connected_sockets s). tc_active tc then 1 else WICED_WAIT_FOREVER)"

fun serve_sockets :: "('e, 'f) file_io \<Rightarrow> (method_path \<times> 'h) list \<Rightarrow> ('h, 'e, 'f) handlers \<Rightarrow> (nat \<Rightarrow> net_round) \<Rightarrow> ('e, 'f) tcp_connection list
    \<Rightarrow> ((nat \<times> byte list) list \<times> ('e, 'f) tcp_connection list) option" where
  "serve_sockets io routes handle net [] = Some ([], [])"
| "serve_sockets io routes handle net (tc # tcs) = do {
     (sent, tc) \<leftarrow> connection_round io routes handle (net (tc_socket tc)) tc;
     (rest, tcs) \<leftarrow> serve_sockets io routes handle net tcs;
     Some ((tc_socket tc, sent) # rest, tc # tcs)
   }"

definition client_connected :: "bool \<Rightarrow> nat \<Rightarrow> u32 \<Rightarrow> u16 \<Rightarrow> ('h, 'e, 'f) http_server \<Rightarrow> ('h, 'e, 'f) http_server" where
  "client_connected use_tls socket ipaddr from_port s =
     s\<lparr>sv_connected_sockets := sv_connected_sockets s @ [\<lparr>tc_socket = socket, tc_ip_address = ipaddr, tc_port = from_port, tc_tls_context = use_tls,
         tc_dangling_packet = None, tc_active = False, tc_response = None, tc_request = None\<rparr>],
       sv_num_connected_sockets := sv_num_connected_sockets s + 1\<rparr>"

text \<open>\<^verbatim>\<open>find_if\<close> takes the first connection with the socket.\<close>

fun mark_active :: "nat \<Rightarrow> ('e, 'f) tcp_connection list \<Rightarrow> ('e, 'f) tcp_connection list" where
  "mark_active socket [] = []"
| "mark_active socket (tc # tcs) = (if tc_socket tc = socket then tc\<lparr>tc_active := True\<rparr> # tcs else tc # mark_active socket tcs)"

definition client_data_received :: "nat \<Rightarrow> ('h, 'e, 'f) http_server \<Rightarrow> ('h, 'e, 'f) http_server" where
  "client_data_received socket s = s\<lparr>sv_connected_sockets := mark_active socket (sv_connected_sockets s)\<rparr>"

fun erase_socket :: "nat \<Rightarrow> ('e, 'f) tcp_connection list \<Rightarrow> ('e, 'f) tcp_connection list" where
  "erase_socket socket [] = []"
| "erase_socket socket (tc # tcs) = (if tc_socket tc = socket then tcs else tc # erase_socket socket tcs)"

definition client_disconnected :: "nat \<Rightarrow> ('h, 'e, 'f) http_server \<Rightarrow> ('h, 'e, 'f) http_server" where
  "client_disconnected socket s = (if \<exists>tc\<in>set (sv_connected_sockets s). tc_socket tc = socket
     then s\<lparr>sv_connected_sockets := erase_socket socket (sv_connected_sockets s), sv_num_connected_sockets := sv_num_connected_sockets s - 1\<rparr>
     else s)"

text \<open>One turn of the thread: the commands in its queue, then every connection.\<close>

definition serve :: "('e, 'f) file_io \<Rightarrow> ('h, 'e, 'f) handlers \<Rightarrow> (('h, 'e, 'f) http_server \<Rightarrow> ('h, 'e, 'f) http_server) list \<Rightarrow> (nat \<Rightarrow> net_round)
    \<Rightarrow> ('h, 'e, 'f) http_server \<Rightarrow> ((nat \<times> byte list) list \<times> ('h, 'e, 'f) http_server) option" where
  "serve io handle commands net s = do {
     let s = fold (\<lambda>c s. c s) commands s;
     (sent, tcs) \<leftarrow> serve_sockets io (sv_routes s) handle net (sv_connected_sockets s);
     Some (sent, s\<lparr>sv_connected_sockets := tcs\<rparr>)
   }"

section \<open>Filling a packet from a source\<close>

context payload_stream
begin

lemma fill_packet_ok:
  assumes "inv r" "status = HttpResult_Incomplete \<or> rest r = []"
  shows "\<exists>d status' r'. fill_packet get commit room packet status r = Some (packet @ d, status', r') \<and> inv r' \<and> rest r = d @ rest r'
    \<and> length d \<le> room \<and> (d = [] \<longrightarrow> status' = status) \<and> (d \<noteq> [] \<longrightarrow> status' = HttpResult_Incomplete \<or> status' = HttpResult_Complete \<and> rest r' = [])"
  using assms
proof (induction room arbitrary: packet status r rule: less_induct)
  case (less room)
  obtain rc d r1 where g: "get r = Some (rc, d, r1)" "inv r1" "rest r1 = rest r" "prefix d (rest r)"
    using get_ok [OF less.prems(1)] by blast
  show ?case
  proof (cases "rc = 0 \<and> d \<noteq> [] \<and> room > 0")
    case True
    let ?n = "min (length d) room"
    have n: "0 < ?n" "?n \<le> length d" "room - ?n < room" using True by auto
    obtain st r2 where c: "commit ?n r1 = Some (st, r2)" "inv r2" "rest r2 = drop ?n (rest r)"
        "st = HttpResult_Incomplete \<or> st = HttpResult_Complete \<and> rest r2 = []"
      using commit_ok [OF less.prems(1) _ n(1,2)] g(1) True by blast
    have t: "rest r = take room d @ rest r2"
      using g(4) c(3) append_take_drop_id [of ?n "rest r"] by (auto simp: prefix_def min_def)
    obtain d' st' r' where i: "fill_packet get commit (room - ?n) (packet @ take ?n d) st r2 = Some ((packet @ take ?n d) @ d', st', r')" "inv r'"
        "rest r2 = d' @ rest r'" "length d' \<le> room - ?n" "d' = [] \<longrightarrow> st' = st"
        "d' \<noteq> [] \<longrightarrow> st' = HttpResult_Incomplete \<or> st' = HttpResult_Complete \<and> rest r' = []"
      using less.IH [OF n(3) c(2), of st "packet @ take ?n d"] c(4) by blast
    have tk: "take ?n d = take room d" by (simp add: min_def)
    have "fill_packet get commit room packet status r = Some (packet @ take room d @ d', st', r')"
      using g(1) True c(1) i(1) by (subst fill_packet.simps) (simp add: Let_def tk)
    moreover have "take room d \<noteq> []" using True by simp
    ultimately show ?thesis using i(2-6) c(4) t n(2)
      by (intro exI [of _ "take room d @ d'"] exI [of _ st'] exI [of _ r']) (auto simp: min_def split: if_splits)
  next
    case False
    then have "fill_packet get commit room packet status r = Some (packet @ [], status, r1)"
      using g(1) by (subst fill_packet.simps) auto
    then show ?thesis using g less.prems by (intro exI [of _ "[]"] exI [of _ status] exI [of _ r1]) simp
  qed
qed

end

context ready_stream
begin

lemma fill_packet_ready:
  assumes "inv r"
  shows "\<exists>status' r'. fill_packet get commit room packet status r = Some (packet @ take room (rest r), status', r') \<and> inv r' \<and> rest r' = drop room (rest r)
    \<and> (0 < room \<and> rest r \<noteq> [] \<and> length (rest r) \<le> room \<longrightarrow> status' = HttpResult_Complete)"
  using assms
proof (induction room arbitrary: packet status r rule: less_induct)
  case (less room)
  obtain rc d r1 where g: "get r = Some (rc, d, r1)" "inv r1" "rest r1 = rest r" "prefix d (rest r)"
    using get_ok [OF less.prems(1)] by blast
  show ?case
  proof (cases "rest r \<noteq> [] \<and> room > 0")
    case True
    then have d: "rc = 0" "d \<noteq> []" using get_ready [OF less.prems] g(1) by auto
    let ?n = "min (length d) room"
    have n: "0 < ?n" "?n \<le> length d" "room - ?n < room" using d True by auto
    obtain st r2 where c: "commit ?n r1 = Some (st, r2)" "inv r2" "rest r2 = drop ?n (rest r)"
      using commit_ok [OF less.prems(1) _ n(1,2)] g(1) d by blast
    have t: "take ?n d = take ?n (rest r)" using g(4) by (auto simp: prefix_def)
    obtain st' r' where i: "fill_packet get commit (room - ?n) (packet @ take ?n d) st r2 = Some ((packet @ take ?n d) @ take (room - ?n) (rest r2), st', r')" "inv r'"
        "rest r' = drop (room - ?n) (rest r2)" "0 < room - ?n \<and> rest r2 \<noteq> [] \<and> length (rest r2) \<le> room - ?n \<longrightarrow> st' = HttpResult_Complete"
      using less.IH [OF n(3) c(2), of "packet @ take ?n d" st] by blast
    have "fill_packet get commit room packet status r = Some (packet @ take room (rest r), st', r')"
      using g(1) d True c(1) i(1) n(2) by (subst fill_packet.simps) (simp add: Let_def t c(3) take_add [symmetric])
    moreover have "st' = HttpResult_Complete" if "length (rest r) \<le> room"
    proof (cases "?n = length (rest r)")
      case True
      then have "st = HttpResult_Complete"
        using commit_last [OF less.prems _ n(1,2) True] g(1) d(1) c(1) by auto
      moreover have "rest r2 = []" using c(3) True by simp
      ultimately show ?thesis using i(1) fill_packet_ok [OF c(2), of st "room - ?n" "packet @ take ?n d"] by auto
    next
      case False
      then show ?thesis using i(4) c(3) that prefix_length_le [OF g(4)] by (auto simp: min_def split: if_splits)
    qed
    ultimately show ?thesis using i(2,3) c(3) by auto
  next
    case False
    then have "fill_packet get commit room packet status r = Some (packet @ [], status, r1)"
      using g(1,4) by (subst fill_packet.simps) auto
    then show ?thesis using g False by auto
  qed
qed

end

text \<open>A source that never reports its end.\<close>

locale silent_stream = payload_stream +
  assumes commit_silent: "inv p \<Longrightarrow> get p = Some (0, bs, p') \<Longrightarrow> 0 < k \<Longrightarrow> k \<le> length bs \<Longrightarrow> \<exists>p''. commit k p' = Some (HttpResult_Incomplete, p'')"
begin

lemma fill_packet_silent:
  assumes "inv r"
  shows "\<exists>d r'. fill_packet get commit room packet HttpResult_Incomplete r = Some (packet @ d, HttpResult_Incomplete, r') \<and> inv r' \<and> rest r = d @ rest r'"
  using assms
proof (induction room arbitrary: packet r rule: less_induct)
  case (less room)
  obtain rc d r1 where g: "get r = Some (rc, d, r1)" "inv r1" "rest r1 = rest r" "prefix d (rest r)"
    using get_ok [OF less.prems(1)] by blast
  show ?case
  proof (cases "rc = 0 \<and> d \<noteq> [] \<and> room > 0")
    case True
    let ?n = "min (length d) room"
    have n: "0 < ?n" "?n \<le> length d" "room - ?n < room" using True by auto
    obtain r2 where c: "commit ?n r1 = Some (HttpResult_Incomplete, r2)" "inv r2" "rest r2 = drop ?n (rest r)"
      using commit_ok [OF less.prems(1) _ n(1,2)] commit_silent [OF less.prems(1) _ n(1,2)] g(1) True by fastforce
    obtain d' r' where i: "fill_packet get commit (room - ?n) (packet @ take ?n d) HttpResult_Incomplete r2 = Some ((packet @ take ?n d) @ d', HttpResult_Incomplete, r')"
        "inv r'" "rest r2 = d' @ rest r'"
      using less.IH [OF n(3) c(2), of "packet @ take ?n d"] by blast
    have "rest r = (take ?n d @ d') @ rest r'" using g(4) c(3) i(3) append_take_drop_id [of ?n "rest r"] by (auto simp: prefix_def)
    moreover have "fill_packet get commit room packet HttpResult_Incomplete r = Some (packet @ take ?n d @ d', HttpResult_Incomplete, r')"
      using g(1) True c(1) i(1) by (subst fill_packet.simps) (simp add: Let_def)
    ultimately show ?thesis using i(2) by blast
  next
    case False
    then have "fill_packet get commit room packet HttpResult_Incomplete r = Some (packet @ [], HttpResult_Incomplete, r1)"
      using g(1) by (subst fill_packet.simps) auto
    then show ?thesis using g by (intro exI [of _ "[]"] exI [of _ r1]) simp
  qed
qed

end

text \<open>A response with nothing behind its header, or without a header, is such a source.\<close>

definition response_silent :: "('e, 'f) file_io \<Rightarrow> ('f \<Rightarrow> byte list) \<Rightarrow> ('e, 'f) http_response \<Rightarrow> bool" where
  "response_silent io u r \<longleftrightarrow> response_inv io u r \<and> (no_header r \<or> payload_rest u (rs_payload r) = [])"

lemma silent_get:
  assumes "response_silent io u r" "response_get_read_ptr io r = Some (0, bs, r')" "0 < k" "k \<le> length bs"
  shows "in_header r \<and> payload_rest u (rs_payload r) = []"
proof -
  have n: "\<not> no_header r" using response_get_none [of r io u] assms(2) by auto
  have inv: "response_inv io u r" using assms(1) by (simp add: response_silent_def)
  have "bs = []" if "\<not> in_header r"
    using response_get_ok [OF inv] response_rest_payload [OF inv that] assms(1,2) n by (auto simp: response_silent_def)
  then show ?thesis using assms n by (cases "in_header r") (auto simp: response_silent_def)
qed

interpretation silent_response: silent_stream "response_silent io unread" "response_rest unread" "response_get_read_ptr io" "response_commit_read io" for io unread
proof
  fix r :: "('a, 'b) http_response" assume s: "response_silent io unread r"
  then have inv: "response_inv io unread r" by (simp add: response_silent_def)
  show "\<exists>rc bs r'. response_get_read_ptr io r = Some (rc, bs, r') \<and> response_silent io unread r'
      \<and> response_rest unread r' = response_rest unread r \<and> prefix bs (response_rest unread r)"
  proof (cases "no_header r")
    case True
    then show ?thesis using response_get_none [of r io unread] s by simp
  next
    case False
    then show ?thesis using response_get_ok [OF inv] s by (fastforce simp: response_silent_def)
  qed
  fix bs r' k assume g: "response_get_read_ptr io r = Some (0, bs, r')" "0 < k" "k \<le> length bs"
  note c = response_commit_ok [OF inv g] silent_get [OF s g]
  then show "\<exists>rc r''. response_commit_read io k r' = Some (rc, r'') \<and> response_silent io unread r'' \<and> response_rest unread r'' = drop k (response_rest unread r)
      \<and> (rc = HttpResult_Incomplete \<or> rc = HttpResult_Complete \<and> response_rest unread r'' = [])"
    by (auto simp: response_silent_def)
  show "\<exists>r''. response_commit_read io k r' = Some (HttpResult_Incomplete, r'')" using c by auto
qed

end
