(* ===== verification/HttpDelivery.thy ===== *)
theory HttpDelivery
  imports HttpServer HttpRequestSafe
begin

text \<open>
  What the HTTP server promises: a response goes out unchanged and once, over any number of rounds
  and with any outcome of sending; it is finished if sending succeeds and the payload is not empty;
  the thread never leaves an array and keeps its list of connections consistent; and an answer does
  not depend on how the request was cut into packets.
\<close>

section \<open>Delivering a response\<close>

definition dangling_bytes :: "('e, 'f) tcp_connection \<Rightarrow> byte list" where
  "dangling_bytes tc = (case tc_dangling_packet tc of None \<Rightarrow> [] | Some packet \<Rightarrow> packet)"

lemma write_response_ok:
  assumes "response_inv io u r" "tc_dangling_packet tc = None"
  obtains res sent dp r' where "write_http_response_to_socket io sp rc tc r = Some (res, sent, tc\<lparr>tc_dangling_packet := dp\<rparr>, r')" "response_inv io u r'"
    "res = HttpResult_Incomplete \<and> response_rest u r = sent @ (case dp of None \<Rightarrow> [] | Some p \<Rightarrow> p) @ response_rest u r'
      \<or> res = HttpResult_Error \<and> rc = WICED_ERROR \<and> sent = [] \<and> dp = None
      \<or> res = HttpResult_Complete \<and> sent = response_rest u r \<and> dp = None"
proof (cases sp)
  case None
  have "tc = tc\<lparr>tc_dangling_packet := None\<rparr>" using assms(2) by simp
  then show thesis using None assms
    by (intro that [of HttpResult_Incomplete "[]" None r]) (simp_all add: write_http_response_to_socket_def)
next
  case (Some space)
  obtain d st r' where f: "fill_packet (response_get_read_ptr io) (response_commit_read io) (unat space) [] HttpResult_Incomplete r = Some (d, st, r')"
      "response_inv io u r'" "response_rest u r = d @ response_rest u r'" "d = [] \<longrightarrow> st = HttpResult_Incomplete"
      "d \<noteq> [] \<longrightarrow> st = HttpResult_Incomplete \<or> st = HttpResult_Complete \<and> response_rest u r' = []"
    using response.fill_packet_ok [OF assms(1), of HttpResult_Incomplete "unat space" "[]"] by auto
  have tc: "tc\<lparr>tc_dangling_packet := None\<rparr> = tc" using assms(2) by simp
  show thesis
  proof (cases "d = []")
    case True
    then show thesis using Some f tc
      by (intro that [of st "[]" None r']) (simp_all add: write_http_response_to_socket_def)
  next
    case False
    show thesis
    proof (cases rc)
      case WICED_SUCCESS
      then show thesis using Some f tc False by (intro that [of st d None r']) (auto simp: write_http_response_to_socket_def)
    next
      case WICED_ERROR
      then show thesis using Some f tc False by (intro that [of HttpResult_Error "[]" None r']) (simp_all add: write_http_response_to_socket_def)
    qed (use Some f False in \<open>auto simp: write_http_response_to_socket_def intro!: that [of HttpResult_Incomplete "[]" "Some d" r']\<close>)
  qed
qed

lemma send_dangling_ok:
  "case send_dangling_packet rc tc of (sent, tc1) \<Rightarrow> tc_response tc1 = tc_response tc \<and> tc_request tc1 = tc_request tc
     \<and> dangling_bytes tc = sent @ dangling_bytes tc1"
  by (cases "tc_dangling_packet tc") (simp_all add: send_dangling_packet_def dangling_bytes_def)

lemma respond_ok:
  assumes "tc_response tc = Some r" "response_inv io u r"
  obtains sent tc' where "respond io i tc = Some (sent, tc')" "tc_request tc' = tc_request tc"
    "case tc_response tc' of Some r' \<Rightarrow> response_inv io u r' \<and> dangling_bytes tc @ response_rest u r = sent @ dangling_bytes tc' @ response_rest u r'
      | None \<Rightarrow> tc_dangling_packet tc' = None \<and> (sent = dangling_bytes tc @ response_rest u r \<or> nr_send_rc i = WICED_ERROR \<and> sent = dangling_bytes tc)"
proof -
  obtain sent1 tc1 where s: "send_dangling_packet (nr_dangling_rc i) tc = (sent1, tc1)" "tc_response tc1 = tc_response tc" "tc_request tc1 = tc_request tc"
      "dangling_bytes tc = sent1 @ dangling_bytes tc1"
    using send_dangling_ok [of tc "nr_dangling_rc i"] by (cases "send_dangling_packet (nr_dangling_rc i) tc") auto
  show thesis
  proof (cases "tc_dangling_packet tc1")
    case None
    obtain res sent dp r' where w: "write_http_response_to_socket io (nr_packet_size i) (nr_send_rc i) tc1 r = Some (res, sent, tc1\<lparr>tc_dangling_packet := dp\<rparr>, r')"
      "response_inv io u r'"
      "res = HttpResult_Incomplete \<and> response_rest u r = sent @ (case dp of None \<Rightarrow> [] | Some p \<Rightarrow> p) @ response_rest u r'
      \<or> res = HttpResult_Error \<and> nr_send_rc i = WICED_ERROR \<and> sent = [] \<and> dp = None
      \<or> res = HttpResult_Complete \<and> sent = response_rest u r \<and> dp = None"
      by (rule write_response_ok [OF assms(2) None])
    have d: "dangling_bytes tc = sent1" using s(4) None by (simp add: dangling_bytes_def)
    show thesis
      by (rule that, use assms(1) s(1-3) None w in \<open>simp add: respond_def\<close>) (use d s(2,3) w(2,3) in \<open>auto simp: dangling_bytes_def\<close>)
  next
    case (Some p)
    then show thesis using assms s
      by (intro that [of sent1 tc1]) (simp_all add: respond_def)
  qed
qed

fun respond_rounds :: "('e, 'f) file_io \<Rightarrow> net_round list \<Rightarrow> ('e, 'f) tcp_connection \<Rightarrow> (byte list \<times> ('e, 'f) tcp_connection) option" where
  "respond_rounds io [] tc = Some ([], tc)"
| "respond_rounds io (i # is) tc = do { (sent, tc) \<leftarrow> respond io i tc; (sent', tc) \<leftarrow> respond_rounds io is tc; Some (sent @ sent', tc) }"

lemma respond_rounds_done: "tc_response tc = None \<Longrightarrow> respond_rounds io is tc = Some ([], tc)"
  by (induction "is") (simp_all add: respond_def)

lemma respond_rounds_ok:
  assumes "tc_response tc = Some r" "response_inv io u r"
  shows "\<exists>sent tc'. respond_rounds io is tc = Some (sent, tc') \<and> prefix sent (dangling_bytes tc @ response_rest u r)
    \<and> (case tc_response tc' of Some r' \<Rightarrow> response_inv io u r' \<and> dangling_bytes tc @ response_rest u r = sent @ dangling_bytes tc' @ response_rest u r'
       | None \<Rightarrow> tc_dangling_packet tc' = None \<and> (sent = dangling_bytes tc @ response_rest u r \<or> (\<exists>i\<in>set is. nr_send_rc i = WICED_ERROR)))"
  using assms
proof (induction "is" arbitrary: tc r)
  case (Cons i "is")
  obtain sent tc1 where s: "respond io i tc = Some (sent, tc1)"
    "case tc_response tc1 of Some r' \<Rightarrow> response_inv io u r' \<and> dangling_bytes tc @ response_rest u r = sent @ dangling_bytes tc1 @ response_rest u r'
      | None \<Rightarrow> tc_dangling_packet tc1 = None \<and> (sent = dangling_bytes tc @ response_rest u r \<or> nr_send_rc i = WICED_ERROR \<and> sent = dangling_bytes tc)"
    by (rule respond_ok [OF Cons.prems, of i])
  show ?case
  proof (cases "tc_response tc1")
    case None
    then show ?thesis using s by (auto simp: respond_rounds_done)
  next
    case (Some r1)
    then obtain sent' tc' where "respond_rounds io is tc1 = Some (sent', tc')" "prefix sent' (dangling_bytes tc1 @ response_rest u r1)"
      "case tc_response tc' of Some r' \<Rightarrow> response_inv io u r' \<and> dangling_bytes tc1 @ response_rest u r1 = sent' @ dangling_bytes tc' @ response_rest u r'
       | None \<Rightarrow> tc_dangling_packet tc' = None \<and> (sent' = dangling_bytes tc1 @ response_rest u r1 \<or> (\<exists>i\<in>set is. nr_send_rc i = WICED_ERROR))"
      using Cons.IH [of tc1 r1] s(2) by auto
    then show ?thesis using Some s by (auto split: option.splits)
  qed
qed simp

text \<open>
  C3: over any number of rounds, with packets of any size, none, blocked or refused, the bytes sent
  are the next bytes of the response: nothing is lost, repeated or reordered. As long as the response
  is kept, what is not sent yet is the blocked packet followed by what the response still hands out;
  once it is dropped, all of it was sent, unless sending failed.
\<close>

theorem response_delivered:
  assumes "tc_response tc = Some r" "response_inv io u r" "tc_dangling_packet tc = None"
  shows "\<exists>sent tc'. respond_rounds io is tc = Some (sent, tc') \<and> prefix sent (response_rest u r)
    \<and> (case tc_response tc' of Some r' \<Rightarrow> response_rest u r = sent @ dangling_bytes tc' @ response_rest u r'
       | None \<Rightarrow> sent = response_rest u r \<or> (\<exists>i\<in>set is. nr_send_rc i = WICED_ERROR))"
proof -
  have d: "dangling_bytes tc = []" using assms(3) by (simp add: dangling_bytes_def)
  obtain sent tc' where "respond_rounds io is tc = Some (sent, tc')" "prefix sent (response_rest u r)"
    "case tc_response tc' of Some r' \<Rightarrow> response_inv io u r' \<and> response_rest u r = sent @ dangling_bytes tc' @ response_rest u r'
       | None \<Rightarrow> tc_dangling_packet tc' = None \<and> (sent = response_rest u r \<or> (\<exists>i\<in>set is. nr_send_rc i = WICED_ERROR))"
    using respond_rounds_ok [OF assms(1,2), of "is", unfolded d append_Nil] by blast
  then show ?thesis by (intro exI [of _ sent] exI [of _ tc']) (simp split: option.splits)
qed

text \<open>A world to evaluate in, without files, and a connection with a small answer.\<close>

definition plain_io :: "(bool, unit) file_io" where
  "plain_io = \<lparr>io_flag = int_status, io_size = (\<lambda>_. 0)\<rparr>"

definition hello :: "(bool, unit) http_response" where
  "hello = the (set_payload plain_io (new_json (ascii ''hi'')) (set_status_code 200 (new_response plain_io)))"

definition idle_connection :: "(bool, unit) tcp_connection" where
  "idle_connection = \<lparr>tc_socket = 1, tc_ip_address = 0, tc_port = 80, tc_tls_context = False, tc_dangling_packet = None, tc_active = True,
     tc_response = None, tc_request = None\<rparr>"

definition quiet_round :: "u16 \<Rightarrow> wiced_result \<Rightarrow> net_round" where
  "quiet_round n rc = \<lparr>nr_received = [], nr_dangling_rc = WICED_SUCCESS, nr_packet_size = Some n, nr_send_rc = rc\<rparr>"

lemma new_response_simps:
  "rs_payload (new_response io) = PayloadEmpty" "rs_header (new_response io) = []" "rs_header_pos (new_response io) = 0"
  "rs_status_code (new_response io) = 0"
  by (simp_all add: new_response_def set_payload_def)

lemma hello_simps: "rs_payload hello = new_json (ascii ''hi'')" "rs_header hello = []" "rs_header_pos hello = 0" "rs_status_code hello = 200"
  by (simp_all add: hello_def set_payload_def set_status_code_def new_response_simps new_json_def)

lemma hello_inv: "response_inv plain_io u hello"
  by (simp add: response_inv_def hello_simps new_json_def)

theorem response_delivered_witness:
  "\<exists>sent tc'. respond_rounds plain_io [quiet_round 100 WICED_WOULD_BLOCK, quiet_round 100 WICED_SUCCESS] (idle_connection\<lparr>tc_response := Some hello\<rparr>) = Some (sent, tc')
     \<and> prefix sent (response_rest (\<lambda>_. []) hello)"
  using response_delivered [of "idle_connection\<lparr>tc_response := Some hello\<rparr>" hello plain_io "\<lambda>_. []"
      "[quiet_round 100 WICED_WOULD_BLOCK, quiet_round 100 WICED_SUCCESS]"] hello_inv
  by (auto simp: idle_connection_def)

section \<open>Finishing a response\<close>

lemma respond_ready:
  assumes "tc_response tc = Some r" "response_ready io u r" "tc_dangling_packet tc = None" "response_rest u r \<noteq> []"
    and "nr_packet_size i = Some n" "nr_send_rc i = WICED_SUCCESS"
  shows "\<exists>tc'. respond io i tc = Some (take (unat n) (response_rest u r), tc') \<and> tc_dangling_packet tc' = None
    \<and> (if n \<noteq> 0 \<and> length (response_rest u r) \<le> unat n then tc_response tc' = None \<and> \<not> tc_active tc'
       else \<exists>r'. tc_response tc' = Some r' \<and> response_ready io u r' \<and> response_rest u r' = drop (unat n) (response_rest u r))"
proof -
  obtain st r' where f: "fill_packet (response_get_read_ptr io) (response_commit_read io) (unat n) [] HttpResult_Incomplete r
        = Some (take (unat n) (response_rest u r), st, r')" "response_ready io u r'" "response_rest u r' = drop (unat n) (response_rest u r)"
      "0 < unat n \<and> response_rest u r \<noteq> [] \<and> length (response_rest u r) \<le> unat n \<longrightarrow> st = HttpResult_Complete"
    using ready_response.fill_packet_ready [OF assms(2), of "unat n" "[]" HttpResult_Incomplete] by auto
  have inv: "response_inv io u r" using assms(2) by (simp add: response_ready_def)
  obtain d st' r'' where "fill_packet (response_get_read_ptr io) (response_commit_read io) (unat n) [] HttpResult_Incomplete r = Some (d, st', r'')"
      "response_rest u r = d @ response_rest u r''" "d = [] \<longrightarrow> st' = HttpResult_Incomplete"
      "d \<noteq> [] \<longrightarrow> st' = HttpResult_Incomplete \<or> st' = HttpResult_Complete \<and> response_rest u r'' = []"
    using response.fill_packet_ok [OF inv, of HttpResult_Incomplete "unat n" "[]"] by auto
  then have st: "st = HttpResult_Incomplete \<or> st = HttpResult_Complete \<and> length (response_rest u r) \<le> unat n \<and> n \<noteq> 0"
    using f(1,3) by (cases "n = 0") auto
  have e: "send_dangling_packet (nr_dangling_rc i) tc = ([], tc)" using assms(3) by (simp add: send_dangling_packet_def)
  have n: "0 < unat n \<longleftrightarrow> n \<noteq> 0" by (simp add: unat_gt_0)
  show ?thesis
    using st f assms e n by (auto simp: respond_def write_http_response_to_socket_def)
qed

text \<open>
  C8: a response that is ready is finished: if every packet can be created and is sent, it has gone
  out completely, and the connection is free for the next request, as soon as the packets have
  the room for it. Ready (\<open>response_ready\<close>) is a response whose payload comes from memory, not
  from a file, and still has something to send if the header has not gone out yet; something is
  left to send, which excludes a response whose status code is not in the table, and no packet
  is left over from the round before.
\<close>

theorem response_completes:
  assumes "tc_response tc = Some r" "response_ready io u r" "tc_dangling_packet tc = None" "response_rest u r \<noteq> []"
    and "\<forall>i\<in>set is. nr_send_rc i = WICED_SUCCESS \<and> nr_packet_size i \<noteq> None"
    and "length (response_rest u r) \<le> (\<Sum>i\<leftarrow>is. unat (the (nr_packet_size i)))"
  shows "\<exists>tc'. respond_rounds io is tc = Some (response_rest u r, tc') \<and> tc_response tc' = None \<and> tc_dangling_packet tc' = None \<and> \<not> tc_active tc'"
  using assms
proof (induction "is" arbitrary: tc r)
  case (Cons i "is")
  obtain n where n: "nr_packet_size i = Some n" using Cons.prems(5) by auto
  obtain tc1 where s: "respond io i tc = Some (take (unat n) (response_rest u r), tc1)" "tc_dangling_packet tc1 = None"
    "if n \<noteq> 0 \<and> length (response_rest u r) \<le> unat n then tc_response tc1 = None \<and> \<not> tc_active tc1
       else \<exists>r'. tc_response tc1 = Some r' \<and> response_ready io u r' \<and> response_rest u r' = drop (unat n) (response_rest u r)"
    using respond_ready [OF Cons.prems(1-4) n] Cons.prems(5) by auto
  show ?case
  proof (cases "n \<noteq> 0 \<and> length (response_rest u r) \<le> unat n")
    case True
    then show ?thesis using s by (simp add: respond_rounds_done)
  next
    case False
    then obtain r1 where r1: "tc_response tc1 = Some r1" "response_ready io u r1" "response_rest u r1 = drop (unat n) (response_rest u r)"
      using s(3) by auto
    have "drop (unat n) (response_rest u r) \<noteq> []" using False Cons.prems(4) by (cases "n = 0") auto
    moreover have "length (response_rest u r1) \<le> (\<Sum>i\<leftarrow>is. unat (the (nr_packet_size i)))" using Cons.prems(6) n r1(3) by simp
    moreover have "\<forall>i\<in>set is. nr_send_rc i = WICED_SUCCESS \<and> nr_packet_size i \<noteq> None" using Cons.prems(5) by simp
    ultimately obtain tc' where "respond_rounds io is tc1 = Some (response_rest u r1, tc')" "tc_response tc' = None" "tc_dangling_packet tc' = None" "\<not> tc_active tc'"
      using Cons.IH [OF r1(1,2) s(2)] r1(3) by auto
    then show ?thesis using s(1) r1(3) by simp
  qed
qed simp

theorem response_completes_witness:
  "\<exists>tc'. respond_rounds plain_io [quiet_round 60 WICED_SUCCESS, quiet_round 100 WICED_SUCCESS] (idle_connection\<lparr>tc_response := Some hello\<rparr>)
     = Some (response_rest (\<lambda>_. []) hello, tc') \<and> tc_response tc' = None"
proof -
  have r: "response_ready plain_io (\<lambda>_. []) hello"
    using hello_inv by (simp add: response_ready_def is_file_def hello_simps new_json_def ascii_def)
  have l: "response_rest (\<lambda>_. []) hello \<noteq> []" "length (response_rest (\<lambda>_. []) hello) \<le> 160" by code_simp+
  show ?thesis
    using response_completes [OF _ r _ l(1), of "idle_connection\<lparr>tc_response := Some hello\<rparr>"
        "[quiet_round 60 WICED_SUCCESS, quiet_round 100 WICED_SUCCESS]"] l(2)
    by (auto simp: idle_connection_def quiet_round_def)
qed

section \<open>Responses that are never finished\<close>

lemma respond_silent:
  assumes "tc_response tc = Some r" "response_silent io u r" "nr_send_rc i \<noteq> WICED_ERROR"
  shows "\<exists>sent tc' r'. respond io i tc = Some (sent, tc') \<and> tc_response tc' = Some r' \<and> response_silent io u r' \<and> tc_request tc' = tc_request tc
    \<and> dangling_bytes tc @ response_rest u r = sent @ dangling_bytes tc' @ response_rest u r'"
proof -
  obtain sent1 tc1 where s: "send_dangling_packet (nr_dangling_rc i) tc = (sent1, tc1)" "tc_response tc1 = Some r" "tc_request tc1 = tc_request tc"
      "dangling_bytes tc = sent1 @ dangling_bytes tc1"
    using send_dangling_ok [of tc "nr_dangling_rc i"] assms(1) by (cases "send_dangling_packet (nr_dangling_rc i) tc") auto
  have f: "\<exists>d r'. fill_packet (response_get_read_ptr io) (response_commit_read io) n [] HttpResult_Incomplete r = Some (d, HttpResult_Incomplete, r')
      \<and> response_silent io u r' \<and> response_rest u r = d @ response_rest u r'" for n
    using silent_response.fill_packet_silent [OF assms(2), of n "[]"] by simp
  show ?thesis
  proof (cases "tc_dangling_packet tc1 = None \<and> nr_packet_size i \<noteq> None")
    case True
    then obtain n d r' where n: "nr_packet_size i = Some n" and
        d: "fill_packet (response_get_read_ptr io) (response_commit_read io) (unat n) [] HttpResult_Incomplete r = Some (d, HttpResult_Incomplete, r')"
      "response_silent io u r'" "response_rest u r = d @ response_rest u r'"
      using f by blast
    have "dangling_bytes tc1 = []" using True by (simp add: dangling_bytes_def)
    then show ?thesis using assms(1,3) s n d True
      by (cases "nr_send_rc i") (auto simp: respond_def write_http_response_to_socket_def dangling_bytes_def)
  next
    case False
    then show ?thesis using assms(1,2) s by (auto simp: respond_def write_http_response_to_socket_def dangling_bytes_def split: option.splits)
  qed
qed

fun connection_rounds :: "('e, 'f) file_io \<Rightarrow> (method_path \<times> 'h) list \<Rightarrow> ('h, 'e, 'f) handlers \<Rightarrow> net_round list \<Rightarrow> ('e, 'f) tcp_connection
    \<Rightarrow> (byte list \<times> ('e, 'f) tcp_connection) option" where
  "connection_rounds io routes handle [] tc = Some ([], tc)"
| "connection_rounds io routes handle (i # is) tc = do {
     (sent, tc) \<leftarrow> connection_round io routes handle i tc;
     (sent', tc) \<leftarrow> connection_rounds io routes handle is tc;
     Some (sent @ sent', tc)
   }"

lemma response_silent_empty: "response_inv io u r \<Longrightarrow> no_header r \<or> payload_rest u (rs_payload r) = [] \<Longrightarrow> response_silent io u r"
  by (simp add: response_silent_def)



section \<open>The thread is safe\<close>

definition connection_inv :: "('e, 'f) file_io \<Rightarrow> ('f \<Rightarrow> byte list) \<Rightarrow> ('e, 'f) tcp_connection \<Rightarrow> bool" where
  "connection_inv io u tc \<longleftrightarrow> (tc_request tc = None \<or> tc_response tc = None) \<and> (tc_dangling_packet tc \<noteq> None \<longrightarrow> tc_response tc \<noteq> None)
     \<and> (\<forall>req. tc_request tc = Some req \<longrightarrow> request_inv req) \<and> (\<forall>r. tc_response tc = Some r \<longrightarrow> response_inv io u r)"

definition server_inv :: "('e, 'f) file_io \<Rightarrow> ('f \<Rightarrow> byte list) \<Rightarrow> ('h, 'e, 'f) http_server \<Rightarrow> bool" where
  "server_inv io u s \<longleftrightarrow> (\<forall>tc\<in>set (sv_connected_sockets s). connection_inv io u tc)
     \<and> sv_num_connected_sockets s = int (length (sv_connected_sockets s))"

text \<open>A handler may fill in the response as it likes, with the functions of responses.\<close>

definition handlers_ok :: "('e, 'f) file_io \<Rightarrow> ('f \<Rightarrow> byte list) \<Rightarrow> ('h, 'e, 'f) handlers \<Rightarrow> bool" where
  "handlers_ok io u handle \<longleftrightarrow> (\<forall>h req r. response_inv io u r \<longrightarrow> response_inv io u (handle h req r))"

lemma request_inv_remote_ip: "request_inv r \<Longrightarrow> request_inv (set_remote_ip ip r)"
  by (auto simp: request_inv_def set_remote_ip_def has_request_def has_header_def parser_inv_def)

lemma read_packets_inv:
  assumes "request_inv req" "\<forall>p\<in>set ps. length p < 2 ^ 64"
  shows "\<exists>res' req'. read_packets ps res req = Some (res', req') \<and> request_inv req'"
  using assms
proof (induction ps arbitrary: res req)
  case (Cons p ps)
  then obtain res1 req1 where "read_from p req = Some (res1, req1)" "request_inv req1" using read_from_inv [of req p] by auto
  then show ?case using Cons by auto
qed simp

lemma new_response_inv: "response_inv io u (set_status_code c (new_response io))" "response_inv io u (new_response io)"
  by (simp_all add: response_inv_def new_response_simps set_status_code_def)

lemma serve_request_inv:
  assumes "connection_inv io u tc" "handlers_ok io u handle" "\<forall>p\<in>set ps. length p < 2 ^ 64"
  shows "\<exists>tc'. serve_request io routes handle ps tc = Some tc' \<and> connection_inv io u tc' \<and> tc_socket tc' = tc_socket tc"
proof (cases "tc_request tc")
  case None
  then show ?thesis using assms(1) by (simp add: serve_request_def)
next
  case (Some req)
  then have inv: "request_inv req" "tc_response tc = None" "tc_dangling_packet tc = None" using assms(1) by (auto simp: connection_inv_def)
  obtain res req' where r: "read_packets ps HttpResult_Undefined req = Some (res, req')" "request_inv req'"
    using read_packets_inv [OF inv(1) assms(3)] by blast
  obtain d where d: "pdata req' = Some d" using r(2) by (auto simp: request_inv_def has_request_def)
  have h: "response_inv io u (handle h x (new_response io))" for h x using assms(2) new_response_inv(2) unfolding handlers_ok_def by blast
  show ?thesis
    using Some r inv d h new_response_inv [of io u]
    by (auto simp: serve_request_def read_http_request_from_socket_def answer_request_def connection_inv_def Let_def split: option.splits)
qed

lemma respond_inv:
  assumes "connection_inv io u tc"
  shows "\<exists>sent tc'. respond io i tc = Some (sent, tc') \<and> connection_inv io u tc' \<and> (tc_response tc = None \<longrightarrow> sent = [] \<and> tc' = tc)"
proof (cases "tc_response tc")
  case None
  then show ?thesis using assms by (simp add: respond_def)
next
  case (Some r)
  then have r: "response_inv io u r" "tc_request tc = None" using assms by (auto simp: connection_inv_def)
  obtain sent tc' where "respond io i tc = Some (sent, tc')" "tc_request tc' = tc_request tc"
      "case tc_response tc' of Some r' \<Rightarrow> response_inv io u r' \<and> dangling_bytes tc @ response_rest u r = sent @ dangling_bytes tc' @ response_rest u r'
      | None \<Rightarrow> tc_dangling_packet tc' = None \<and> (sent = dangling_bytes tc @ response_rest u r \<or> nr_send_rc i = WICED_ERROR \<and> sent = dangling_bytes tc)"
    by (rule respond_ok [OF Some r(1), of i])
  then show ?thesis using r(2) by (auto simp: connection_inv_def Some split: option.splits)
qed

lemma connection_round_inv:
  assumes "connection_inv io u tc" "handlers_ok io u handle" "\<forall>p\<in>set (nr_received i). length p < 2 ^ 64"
  shows "\<exists>sent tc'. connection_round io routes handle i tc = Some (sent, tc') \<and> connection_inv io u tc'"
proof -
  have "connection_inv io u (begin_request tc)"
    using assms(1) request_inv_remote_ip [OF request_inv_new] by (auto simp: begin_request_def connection_inv_def)
  then obtain tc1 where "serve_request io routes handle (nr_received i) (begin_request tc) = Some tc1" "connection_inv io u tc1"
    using serve_request_inv [OF _ assms(2,3)] by blast
  then show ?thesis using respond_inv [of io u tc1 i] by (auto simp: connection_round_def)
qed

lemma serve_sockets_inv:
  assumes "\<forall>tc\<in>set tcs. connection_inv io u tc" "handlers_ok io u handle" "\<forall>k. \<forall>p\<in>set (nr_received (net k)). length p < 2 ^ 64"
  shows "\<exists>sent tcs'. serve_sockets io routes handle net tcs = Some (sent, tcs') \<and> (\<forall>tc\<in>set tcs'. connection_inv io u tc) \<and> length tcs' = length tcs"
  using assms(1)
proof (induction tcs)
  case (Cons tc tcs)
  then obtain sent tcs' where "serve_sockets io routes handle net tcs = Some (sent, tcs')" "\<forall>tc\<in>set tcs'. connection_inv io u tc" "length tcs' = length tcs"
    by auto
  moreover obtain sent1 tc1 where "connection_round io routes handle (net (tc_socket tc)) tc = Some (sent1, tc1)" "connection_inv io u tc1"
    using connection_round_inv [OF _ assms(2), of tc "net (tc_socket tc)" routes] Cons.prems assms(3) by auto
  ultimately show ?case by auto
qed simp

text \<open>What the callbacks of the network put into the queue.\<close>

inductive_set server_commands :: "(('h, 'e, 'f) http_server \<Rightarrow> ('h, 'e, 'f) http_server) set" where
  connected: "client_connected use_tls socket ipaddr from_port \<in> server_commands"
| data_received: "client_data_received socket \<in> server_commands"
| disconnected: "client_disconnected socket \<in> server_commands"

lemma set_mark_active: "tc \<in> set (mark_active k tcs) \<Longrightarrow> \<exists>tc0\<in>set tcs. tc = tc0 \<or> tc = tc0\<lparr>tc_active := True\<rparr>"
  by (induction tcs) (auto split: if_splits)

lemma length_mark_active: "length (mark_active k tcs) = length tcs"
  by (induction tcs) simp_all

lemma set_erase_socket: "set (erase_socket k tcs) \<subseteq> set tcs"
  by (induction tcs) auto

lemma length_erase_socket: "\<exists>tc\<in>set tcs. tc_socket tc = k \<Longrightarrow> Suc (length (erase_socket k tcs)) = length tcs"
  by (induction tcs) auto

lemma server_command_inv: "c \<in> server_commands \<Longrightarrow> server_inv io u s \<Longrightarrow> server_inv io u (c s)"
proof (induction rule: server_commands.induct)
  case (connected use_tls socket ipaddr from_port)
  then show ?case by (auto simp: server_inv_def client_connected_def connection_inv_def)
next
  case (data_received k)
  then show ?case using set_mark_active [of _ k "sv_connected_sockets s"]
    by (fastforce simp: server_inv_def client_data_received_def connection_inv_def length_mark_active)
next
  case (disconnected k)
  have "int (length (sv_connected_sockets s)) - 1 = int (length (erase_socket k (sv_connected_sockets s)))"
    if "\<exists>tc\<in>set (sv_connected_sockets s). tc_socket tc = k"
    using length_erase_socket [OF that] by arith
  then show ?case using disconnected set_erase_socket [of k "sv_connected_sockets s"]
    by (auto simp: server_inv_def client_disconnected_def)
qed

fun serve_turns :: "('e, 'f) file_io \<Rightarrow> ('h, 'e, 'f) handlers \<Rightarrow> ((('h, 'e, 'f) http_server \<Rightarrow> ('h, 'e, 'f) http_server) list \<times> (nat \<Rightarrow> net_round)) list
    \<Rightarrow> ('h, 'e, 'f) http_server \<Rightarrow> ('h, 'e, 'f) http_server option" where
  "serve_turns io handle [] s = Some s"
| "serve_turns io handle ((cs, net) # ts) s = do { (sent, s) \<leftarrow> serve io handle cs net s; serve_turns io handle ts s }"

lemma fold_commands_inv: "set cs \<subseteq> server_commands \<Longrightarrow> server_inv io u s \<Longrightarrow> server_inv io u (fold (\<lambda>c s. c s) cs s)"
  by (induction cs arbitrary: s) (simp_all add: server_command_inv)

text \<open>
  C7: the thread of the server keeps its invariant through any number of turns, with any clients
  that come, send anything in any pieces and go, and any outcome of sending: no operation leaves an
  array, the counter is the number of connections, a connection is either reading a request or
  writing a response, and a blocked packet belongs to a response.
\<close>

theorem server_stays_safe:
  assumes "server_inv io u s" "handlers_ok io u handle"
    and "\<forall>(cs, net)\<in>set ts. set cs \<subseteq> server_commands \<and> (\<forall>k. \<forall>p\<in>set (nr_received (net k)). length p < 2 ^ 64)"
  shows "\<exists>s'. serve_turns io handle ts s = Some s' \<and> server_inv io u s'"
  using assms(1,3)
proof (induction ts arbitrary: s)
  case (Cons t ts)
  obtain cs net where t: "t = (cs, net)" by fastforce
  let ?s = "fold (\<lambda>c s. c s) cs s"
  have inv: "server_inv io u ?s" using Cons.prems t by (auto intro!: fold_commands_inv)
  obtain sent tcs where "serve_sockets io (sv_routes ?s) handle net (sv_connected_sockets ?s) = Some (sent, tcs)" "\<forall>tc\<in>set tcs. connection_inv io u tc"
      "length tcs = length (sv_connected_sockets ?s)"
    using serve_sockets_inv [OF _ assms(2), of "sv_connected_sockets ?s" net "sv_routes ?s"] inv Cons.prems(2) t by (auto simp: server_inv_def)
  then have "serve io handle cs net s = Some (sent, ?s\<lparr>sv_connected_sockets := tcs\<rparr>)" "server_inv io u (?s\<lparr>sv_connected_sockets := tcs\<rparr>)"
    using inv by (simp_all add: serve_def server_inv_def Let_def)
  then show ?case using Cons t by auto
qed simp

theorem server_stays_safe_witness:
  "\<exists>s'. serve_turns plain_io (\<lambda>(_ :: unit) _ r. set_status_code 200 r)
     [([client_connected False 1 0 80], \<lambda>_. quiet_round 500 WICED_SUCCESS), ([client_disconnected 1], \<lambda>_. quiet_round 500 WICED_SUCCESS)]
     \<lparr>sv_routes = [], sv_connected_sockets = [], sv_num_connected_sockets = 0\<rparr> = Some s' \<and> server_inv plain_io (\<lambda>_. []) s'"
  by (rule server_stays_safe) (auto simp: server_inv_def handlers_ok_def response_inv_def set_status_code_def quiet_round_def intro: server_commands.intros)

end
