(* ===== verification/HttpAnswers.thy ===== *)
theory HttpAnswers
  imports HttpDelivery
begin

text \<open>
  From the request to the answer: a request is answered in the same way however it is cut into
  packets and the packets are spread over the rounds of the thread, and the text of an answer
  announces the length of the payload that follows.
\<close>

section \<open>Requests in packets\<close>

lemma read_from_step:
  assumes "request_inv r" "http_errno r = HPE_OK" "data \<noteq> []" "unat (nread r) + 2 * length data \<le> unat HTTP_MAX_HEADER_SIZE"
  shows "\<exists>res r'. read_from data r = Some (res, r') \<and> request_inv r' \<and> http_errno r' \<noteq> HPE_HEADER_OVERFLOW
    \<and> (http_errno r' = HPE_OK \<longrightarrow> unat (nread r') \<le> unat (nread r) + 2 * length data)"
proof -
  have l: "length data < 2 ^ 64" using assms(4) by (simp add: HTTP_MAX_HEADER_SIZE_def)
  have a: "parser_inv (state r) r" "safe_request.app (state r) (pdata r)"
    using assms(1,2) by (simp_all add: request_inv_def safe_request.app_def)
  obtain n r' where e: "http_parser_execute request_settings data r = Some (n, r')" "safe_request.result_ok (unat (nread r)) (length data) r'"
      "done_ok (length data) (n, r')"
    using safe_request.execute_keeps [OF assms(2) a assms(3) l] by blast
  have "request_inv r'" "http_errno r' \<noteq> HPE_HEADER_OVERFLOW" "http_errno r' = HPE_OK \<longrightarrow> unat (nread r') \<le> unat (nread r) + 2 * length data"
    using e(2,3) assms(4) by (auto simp: safe_request.result_ok_def done_ok_def request_inv_def safe_request.app_def)
  moreover obtain req where "pdata r = Some req" using assms(1) by (auto simp: request_inv_def has_request_def)
  moreover obtain req' where "pdata r' = Some req'" using \<open>request_inv r'\<close> by (auto simp: request_inv_def has_request_def)
  ultimately show ?thesis using assms(1,2) e(1) by (simp add: read_from_def)
qed

text \<open>No packet before the last completes the request.\<close>

fun packets_wait :: "byte list list \<Rightarrow> http_request \<Rightarrow> bool" where
  "packets_wait [] r = True"
| "packets_wait [p] r = True"
| "packets_wait (p # ps) r = (case read_from p r of None \<Rightarrow> False
     | Some (res, r') \<Rightarrow> res = HttpResult_Incomplete \<and> http_errno r' = HPE_OK \<and> \<not> upgrade r' \<and> packets_wait ps r')"

lemma packets_wait_Cons:
  "ps \<noteq> [] \<Longrightarrow> packets_wait (p # ps) r \<longleftrightarrow> (\<exists>r'. read_from p r = Some (HttpResult_Incomplete, r') \<and> http_errno r' = HPE_OK \<and> \<not> upgrade r' \<and> packets_wait ps r')"
  by (cases ps) (auto split: option.splits)

lemma same_parser_refl: "same_parser r r"
  by (simp add: same_parser_def same_core_def)

lemma same_parser_trans: "same_parser a b \<Longrightarrow> same_parser b c \<Longrightarrow> same_parser a c"
  by (simp add: same_parser_def same_core_def)

lemma packets_join:
  assumes "request_inv r" "http_errno r = HPE_OK" "ps \<noteq> []" "\<forall>p\<in>set ps. p \<noteq> []" "packets_wait ps r"
    and "unat (nread r) + 2 * length (concat ps) \<le> unat HTTP_MAX_HEADER_SIZE"
    and "read_from (concat ps) r = Some (HttpResult_Complete, R)" "http_errno R = HPE_OK"
  shows "\<exists>r'. read_packets ps st r = Some (HttpResult_Complete, r') \<and> same_parser R r'"
  using assms
proof (induction ps arbitrary: r R st)
  case (Cons p ps)
  show ?case
  proof (cases "ps = []")
    case True
    then show ?thesis using Cons.prems same_parser_refl by simp
  next
    case False
    then obtain r1 where r1: "read_from p r = Some (HttpResult_Incomplete, r1)" "http_errno r1 = HPE_OK" "\<not> upgrade r1" "packets_wait ps r1"
      using Cons.prems(5) packets_wait_Cons by blast
    have len: "unat (nread r) + 2 * length p \<le> unat HTTP_MAX_HEADER_SIZE" "length (p @ concat ps) \<le> unat HTTP_MAX_HEADER_SIZE"
      using Cons.prems(6) by simp_all
    have p: "p \<noteq> []" "concat ps \<noteq> []" using Cons.prems(4) False by (cases ps; simp)+
    have i1: "request_inv r1" "unat (nread r1) \<le> unat (nread r) + 2 * length p"
      using read_from_step [OF Cons.prems(1,2) p(1) len(1)] r1 by auto
    have len1: "unat (nread r1) + 2 * length (concat ps) \<le> unat HTTP_MAX_HEADER_SIZE" using i1(2) Cons.prems(6) by simp
    obtain res2 r2 where r2: "read_from (concat ps) r1 = Some (res2, r2)" "http_errno r2 \<noteq> HPE_HEADER_OVERFLOW"
      using read_from_step [OF i1(1) r1(2) p(2) len1] by blast
    have "reading r" using Cons.prems(1,2) by (simp add: reading_def request_inv_def)
    moreover have "read_from (p @ concat ps) r = Some (HttpResult_Complete, R)" using Cons.prems(7) by simp
    ultimately have "res2 = HttpResult_Complete" "http_errno r2 = HPE_OK" "same_parser R r2"
      using read_from_cut [OF _ p len(2) r1(1-3) r2] Cons.prems(8) by auto
    then obtain r' where "read_packets ps HttpResult_Incomplete r1 = Some (HttpResult_Complete, r')" "same_parser r2 r'"
      using Cons.IH [OF i1(1) r1(2) False _ r1(4) len1, of r2] r2(1) Cons.prems(4) by auto
    then show ?thesis using r1(1) \<open>same_parser R r2\<close> same_parser_trans by auto
  qed
qed simp

lemma read_packets_append:
  assumes "qs \<noteq> []" "packets_wait (ps @ qs) r" "st = HttpResult_Incomplete \<or> st = HttpResult_Undefined"
  shows "\<exists>st' r1. read_packets ps st r = Some (st', r1) \<and> (st' = HttpResult_Incomplete \<or> st' = HttpResult_Undefined) \<and> packets_wait qs r1
    \<and> read_packets (ps @ qs) st r = read_packets qs st' r1"
  using assms(2,3)
proof (induction ps arbitrary: st r)
  case (Cons p ps)
  have "ps @ qs \<noteq> []" using assms(1) by simp
  then obtain r1 where "read_from p r = Some (HttpResult_Incomplete, r1)" "packets_wait (ps @ qs) r1"
    using Cons.prems(1) packets_wait_Cons [of "ps @ qs" p r] by auto
  then show ?case using Cons.IH [of r1 HttpResult_Incomplete] by simp
qed simp

lemma read_packets_start: "ps \<noteq> [] \<Longrightarrow> read_packets ps st r = read_packets ps st' r"
  by (cases ps) simp_all

fun serve_rounds :: "('e, 'f) file_io \<Rightarrow> (method_path \<times> 'h) list \<Rightarrow> ('h, 'e, 'f) handlers \<Rightarrow> byte list list list \<Rightarrow> ('e, 'f) tcp_connection \<Rightarrow> ('e, 'f) tcp_connection option" where
  "serve_rounds io routes handle [] tc = Some tc"
| "serve_rounds io routes handle (ps # pss) tc = do { tc \<leftarrow> serve_request io routes handle ps tc; serve_rounds io routes handle pss tc }"

lemma serve_rounds_done: "tc_request tc = None \<Longrightarrow> serve_rounds io routes handle pss tc = Some tc"
  by (induction pss) (simp_all add: serve_request_def)

lemma answer_request_none: "answer_request io routes handle r tc = Some tc' \<Longrightarrow> tc_request tc' = None"
  by (auto simp: answer_request_def bind_eq_Some_conv)

lemma serve_rounds_answer:
  assumes "tc_request tc = Some req" "concat pss \<noteq> []" "packets_wait (concat pss) req"
    and "read_packets (concat pss) HttpResult_Undefined req = Some (HttpResult_Complete, r')"
  shows "serve_rounds io routes handle pss tc = answer_request io routes handle r' tc"
  using assms
proof (induction pss arbitrary: tc req)
  case (Cons ps pss)
  show ?case
  proof (cases "concat pss = []")
    case True
    then have "concat (ps # pss) = ps" by simp
    then have "serve_request io routes handle ps tc = answer_request io routes handle r' tc"
      using Cons.prems(1,4) by (simp only: serve_request_def read_http_request_from_socket_def) simp
    then show ?thesis by (cases "answer_request io routes handle r' tc") (simp_all add: serve_rounds_done [OF answer_request_none])
  next
    case False
    then obtain st r1 where s: "read_packets ps HttpResult_Undefined req = Some (st, r1)" "st = HttpResult_Incomplete \<or> st = HttpResult_Undefined"
        "packets_wait (concat pss) r1" "read_packets (concat pss) st r1 = Some (HttpResult_Complete, r')"
      using read_packets_append [OF False, of ps req HttpResult_Undefined] Cons.prems(3,4) by auto
    have "serve_request io routes handle ps tc = Some (tc\<lparr>tc_request := Some r1\<rparr>)"
      using Cons.prems(1) s(1,2) by (auto simp: serve_request_def read_http_request_from_socket_def)
    moreover have "serve_rounds io routes handle pss (tc\<lparr>tc_request := Some r1\<rparr>) = answer_request io routes handle r' (tc\<lparr>tc_request := Some r1\<rparr>)"
      using Cons.IH [of "tc\<lparr>tc_request := Some r1\<rparr>" r1] s(3,4) False read_packets_start [OF False, of HttpResult_Undefined r1 st] by simp
    ultimately show ?thesis by (simp add: answer_request_def)
  qed
qed simp

lemma answer_same_parser: "same_parser R r \<Longrightarrow> answer_request io routes handle R tc = answer_request io routes handle r tc"
proof -
  assume "same_parser R r"
  then have "pdata r = pdata R" "meth r = meth R" by (simp_all add: same_parser_def same_core_def)
  then show ?thesis unfolding answer_request_def by (simp only:)
qed

text \<open>
  C6: a request of at most half the header limit that is complete in one packet gets the same answer,
  from the same handler called with the same method, headers, parameters and body, when its bytes
  arrive in any packets, over any number of rounds, as long as no proper part is already complete.
\<close>

theorem answer_any_packets:
  assumes "tc_request tc = Some (set_remote_ip ip new_request)" "concat pss \<noteq> []" "\<forall>p\<in>set (concat pss). p \<noteq> []"
    and "2 * length (concat (concat pss)) \<le> unat HTTP_MAX_HEADER_SIZE" "packets_wait (concat pss) (set_remote_ip ip new_request)"
    and "read_from (concat (concat pss)) (set_remote_ip ip new_request) = Some (HttpResult_Complete, R)" "http_errno R = HPE_OK"
  shows "serve_rounds io routes handle pss tc = answer_request io routes handle R tc"
proof -
  let ?r = "set_remote_ip ip new_request"
  have r: "request_inv ?r" "http_errno ?r = HPE_OK" "nread ?r = 0"
    using request_inv_remote_ip [OF request_inv_new] by (simp_all add: set_remote_ip_def new_request_def http_parser_init_def)
  have "unat (nread ?r) + 2 * length (concat (concat pss)) \<le> unat HTTP_MAX_HEADER_SIZE" using assms(4) r(3) by simp
  then obtain r' where "read_packets (concat pss) HttpResult_Undefined ?r = Some (HttpResult_Complete, r')" "same_parser R r'"
    using packets_join [OF r(1,2) assms(2,3,5) _ assms(6,7)] by blast
  then show ?thesis using serve_rounds_answer [OF assms(1,2,5), of r' io routes handle] answer_same_parser [of R r' io routes handle tc] by simp
qed

definition small_request :: "byte list" where
  "small_request = ascii ''GET /a HTTP/1.1'' @ CRLF @ CRLF"

theorem answer_any_packets_witness:
  "\<exists>R. read_from small_request (set_remote_ip 1 new_request) = Some (HttpResult_Complete, R)
     \<and> serve_rounds plain_io [] (\<lambda>(_ :: unit) _ r. r) [[take 5 small_request], [], [slice 5 2 small_request, drop 7 small_request]]
         (idle_connection\<lparr>tc_request := Some (set_remote_ip 1 new_request)\<rparr>)
       = answer_request plain_io [] (\<lambda>(_ :: unit) _ r. r) R (idle_connection\<lparr>tc_request := Some (set_remote_ip 1 new_request)\<rparr>)"
proof -
  let ?pss = "[[take 5 small_request], [], [slice 5 2 small_request, drop 7 small_request]]"
  have e: "case read_from (concat (concat ?pss)) (set_remote_ip 1 new_request) of None \<Rightarrow> False | Some (res, R) \<Rightarrow> res = HttpResult_Complete \<and> http_errno R = HPE_OK"
    by code_simp
  have c: "concat (concat ?pss) = small_request" "\<forall>p\<in>set (concat ?pss). p \<noteq> []" "2 * length (concat (concat ?pss)) \<le> unat HTTP_MAX_HEADER_SIZE"
    by (simp_all add: small_request_def ascii_def CRLF_def slice_def HTTP_MAX_HEADER_SIZE_def)
  have w: "packets_wait (concat ?pss) (set_remote_ip 1 new_request)" by code_simp
  obtain R where R: "read_from (concat (concat ?pss)) (set_remote_ip 1 new_request) = Some (HttpResult_Complete, R)" "http_errno R = HPE_OK"
    using e by (auto split: option.splits)
  then show ?thesis
    using answer_any_packets [OF _ _ c(2,3) w R, of "idle_connection\<lparr>tc_request := Some (set_remote_ip 1 new_request)\<rparr>"] c(1)
    by (intro exI [of _ R]) simp
qed

section \<open>The text of an answer\<close>

text \<open>
  C33: the text of a response with a payload from memory (a JSON text, a blob, the test pattern, a
  trace with at least one event) and a status code of the table is its status line, its header
  fields, an empty line and the payload, and the length one of the fields announces is that of
  the payload. This is for payloads of less than 2 GB and events whose text fits the
  buffer of 128. A trace without events is excluded: it announces one byte and sends none.
\<close>

theorem response_announces_length:
  assumes "p \<in> {new_json t, new_blob t, new_test (of_nat n), new_trace_payload es}" "es \<noteq> []" "\<forall>e\<in>set es. length (event_text e) < 128" "n < 2 ^ 31"
    and "length (payload_rest u p) < 2 ^ 31" "status_codes c = Some reason"
  shows "\<exists>r hs. set_payload io p (set_status_code c (new_response io)) = Some r
    \<and> response_rest u r = ascii ''HTTP/1.1 '' @ dec_int c @ ascii '' '' @ reason @ CRLF @ concat (map (\<lambda>(k, v). k @ ascii '': '' @ v @ CRLF) hs) @ CRLF @ payload_rest u p
    \<and> (ascii ''Content-Length'', dec_nat (length (payload_rest u p))) \<in> set hs"
proof -
  obtain hs where hs: "payload_header_fields io p = Some hs" "(ascii ''Content-Length'', dec_nat (length (payload_rest u p))) \<in> set hs"
    using announced_length [OF assms(1-5)] by blast
  then show ?thesis using assms(6)
    by (intro exI [of _ "(set_status_code c (new_response io))\<lparr>rs_header_fields := hs, rs_payload := p\<rparr>"] exI [of _ hs])
      (simp add: set_payload_def response_rest_def build_header_string_def set_status_code_def new_response_simps)
qed

theorem response_announces_length_witness:
  "\<exists>r hs. set_payload plain_io (new_json (ascii ''hi'')) (set_status_code 200 (new_response plain_io)) = Some r
    \<and> response_rest (\<lambda>_. []) r = ascii ''HTTP/1.1 '' @ dec_int 200 @ ascii '' '' @ ascii ''OK'' @ CRLF @ concat (map (\<lambda>(k, v). k @ ascii '': '' @ v @ CRLF) hs) @ CRLF @ ascii ''hi''
    \<and> (ascii ''Content-Length'', dec_nat 2) \<in> set hs"
proof -
  let ?e = "\<lparr>te_timestamp = 0, te_thread_id = 0, te_phase = 0, te_category = [], te_name = []\<rparr>"
  have e: "\<forall>e\<in>set [?e]. length (event_text e) < 128" by (simp add: event_text_def ascii_def to_double_def dec_nat.simps)
  have c: "status_codes 200 = Some (ascii ''OK'')" by (simp add: status_codes_def)
  have p: "payload_rest (\<lambda>_. []) (new_json (ascii ''hi'') :: (bool, unit) payload) = ascii ''hi''" by (simp add: new_json_def)
  have l: "length (ascii ''hi'') = 2" by (simp add: ascii_def)
  show ?thesis
    using response_announces_length [of "new_json (ascii ''hi'')" "ascii ''hi''" 0 "[?e]" "\<lambda>_. []", OF _ _ e _ _ c, of plain_io]
    unfolding p l by simp
qed

end
