(* ===== verification/Md5.thy ===== *)
theory Md5
  imports Prelude
begin

text \<open>
  \<^verbatim>\<open>lib_util/md5.c\<close>: the MD5 digest of data that comes in pieces. A context keeps the four words,
  the bytes of an unfinished block and the length, 29 bits of it in \<^verbatim>\<open>lo\<close> and the rest in \<^verbatim>\<open>hi\<close>. The model
  follows the portable macros, which keep the words of the block in the context. It equals the
  reference of RFC 1321, one step at a time on the padded message. \<open>None\<close> reads behind the data.
\<close>

section \<open>The context\<close>

record md5_context =
  m5_lo :: u32
  m5_hi :: u32
  m5_a :: u32
  m5_b :: u32
  m5_c :: u32
  m5_d :: u32
  m5_buffer :: "byte list"
  m5_block :: "u32 list"

type_synonym md5_state = "u32 \<times> u32 \<times> u32 \<times> u32"

section \<open>The transformation\<close>

definition md5_F :: "u32 \<Rightarrow> u32 \<Rightarrow> u32 \<Rightarrow> u32" where "md5_F x y z = z XOR (x AND (y XOR z))"

definition md5_G :: "u32 \<Rightarrow> u32 \<Rightarrow> u32 \<Rightarrow> u32" where "md5_G x y z = y XOR (z AND (x XOR y))"

definition md5_H :: "u32 \<Rightarrow> u32 \<Rightarrow> u32 \<Rightarrow> u32" where "md5_H x y z = (x XOR y) XOR z"

definition md5_H2 :: "u32 \<Rightarrow> u32 \<Rightarrow> u32 \<Rightarrow> u32" where "md5_H2 x y z = x XOR (y XOR z)"

definition md5_I :: "u32 \<Rightarrow> u32 \<Rightarrow> u32 \<Rightarrow> u32" where "md5_I x y z = y XOR (x OR NOT z)"

definition STEP :: "(u32 \<Rightarrow> u32 \<Rightarrow> u32 \<Rightarrow> u32) \<Rightarrow> u32 \<Rightarrow> u32 \<Rightarrow> u32 \<Rightarrow> u32 \<Rightarrow> u32 \<Rightarrow> u32 \<Rightarrow> nat \<Rightarrow> u32" where
  "STEP f a b c d x t s = (let a = a + (f b c d + x + t); a = push_bit s a OR drop_bit (32 - s) (a AND 0xffffffff) in a + b)"

definition SET :: "byte list \<Rightarrow> nat \<Rightarrow> u32" where
  "SET ptr n = ucast (ptr ! (n * 4)) OR push_bit 8 (ucast (ptr ! (n * 4 + 1))) OR push_bit 16 (ucast (ptr ! (n * 4 + 2)))
     OR push_bit 24 (ucast (ptr ! (n * 4 + 3)))"

text \<open>Four steps, one for each of \<open>a\<close>, \<open>d\<close>, \<open>c\<close> and \<open>b\<close>: the index of the word and the constant of each.\<close>

definition four_steps :: "(u32 \<Rightarrow> u32 \<Rightarrow> u32 \<Rightarrow> u32) \<Rightarrow> (u32 \<Rightarrow> u32 \<Rightarrow> u32 \<Rightarrow> u32) \<Rightarrow> u32 list \<Rightarrow> nat \<Rightarrow> nat \<Rightarrow> nat \<Rightarrow> nat
    \<Rightarrow> nat \<times> u32 \<times> nat \<times> u32 \<times> nat \<times> u32 \<times> nat \<times> u32 \<Rightarrow> md5_state \<Rightarrow> md5_state" where
  "four_steps f g x s0 s1 s2 s3 = (\<lambda>(i0, t0, i1, t1, i2, t2, i3, t3) (a, b, c, d).
     let a = STEP f a b c d (x ! i0) t0 s0;
         d = STEP g d a b c (x ! i1) t1 s1;
         c = STEP f c d a b (x ! i2) t2 s2;
         b = STEP g b c d a (x ! i3) t3 s3
     in (a, b, c, d))"

definition round1 :: "u32 list \<Rightarrow> md5_state \<Rightarrow> md5_state" where
  "round1 x = fold (four_steps md5_F md5_F x 7 12 17 22)
     [(0, 0xd76aa478, 1, 0xe8c7b756, 2, 0x242070db, 3, 0xc1bdceee),
      (4, 0xf57c0faf, 5, 0x4787c62a, 6, 0xa8304613, 7, 0xfd469501),
      (8, 0x698098d8, 9, 0x8b44f7af, 10, 0xffff5bb1, 11, 0x895cd7be),
      (12, 0x6b901122, 13, 0xfd987193, 14, 0xa679438e, 15, 0x49b40821)]"

definition round2 :: "u32 list \<Rightarrow> md5_state \<Rightarrow> md5_state" where
  "round2 x = fold (four_steps md5_G md5_G x 5 9 14 20)
     [(1, 0xf61e2562, 6, 0xc040b340, 11, 0x265e5a51, 0, 0xe9b6c7aa),
      (5, 0xd62f105d, 10, 0x02441453, 15, 0xd8a1e681, 4, 0xe7d3fbc8),
      (9, 0x21e1cde6, 14, 0xc33707d6, 3, 0xf4d50d87, 8, 0x455a14ed),
      (13, 0xa9e3e905, 2, 0xfcefa3f8, 7, 0x676f02d9, 12, 0x8d2a4c8a)]"

definition round3 :: "u32 list \<Rightarrow> md5_state \<Rightarrow> md5_state" where
  "round3 x = fold (four_steps md5_H md5_H2 x 4 11 16 23)
     [(5, 0xfffa3942, 8, 0x8771f681, 11, 0x6d9d6122, 14, 0xfde5380c),
      (1, 0xa4beea44, 4, 0x4bdecfa9, 7, 0xf6bb4b60, 10, 0xbebfbc70),
      (13, 0x289b7ec6, 0, 0xeaa127fa, 3, 0xd4ef3085, 6, 0x04881d05),
      (9, 0xd9d4d039, 12, 0xe6db99e5, 15, 0x1fa27cf8, 2, 0xc4ac5665)]"

definition round4 :: "u32 list \<Rightarrow> md5_state \<Rightarrow> md5_state" where
  "round4 x = fold (four_steps md5_I md5_I x 6 10 15 21)
     [(0, 0xf4292244, 7, 0x432aff97, 14, 0xab9423a7, 5, 0xfc93a039),
      (12, 0x655b59c3, 3, 0x8f0ccc92, 10, 0xffeff47d, 1, 0x85845dd1),
      (8, 0x6fa87e4f, 15, 0xfe2ce6e0, 6, 0xa3014314, 13, 0x4e0811a1),
      (4, 0xf7537e82, 11, 0xbd3af235, 2, 0x2ad7d2bb, 9, 0xeb86d391)]"

definition md5_block_body :: "byte list \<Rightarrow> md5_context \<Rightarrow> md5_context" where
  "md5_block_body ptr ctx = (let x = map (SET ptr) [0..<16] in
     case round4 x (round3 x (round2 x (round1 x (m5_a ctx, m5_b ctx, m5_c ctx, m5_d ctx)))) of (a, b, c, d) \<Rightarrow>
       ctx\<lparr>m5_a := a + m5_a ctx, m5_b := b + m5_b ctx, m5_c := c + m5_c ctx, m5_d := d + m5_d ctx, m5_block := x\<rparr>)"

function md5_body :: "byte list \<Rightarrow> nat \<Rightarrow> md5_context \<Rightarrow> (byte list \<times> md5_context) option" where
  "md5_body ptr n ctx = (if n < 64 \<or> length ptr < 64 then None
     else let ctx = md5_block_body ptr ctx
          in if n = 64 then Some (drop 64 ptr, ctx) else md5_body (drop 64 ptr) (n - 64) ctx)"
  by pat_completeness auto
termination by (relation "measure (\<lambda>(ptr, n, ctx). n)") auto

declare md5_body.simps [simp del]

section \<open>Operations\<close>

definition md5_init :: "md5_context \<Rightarrow> md5_context" where
  "md5_init ctx = ctx\<lparr>m5_a := 0x67452301, m5_b := 0xefcdab89, m5_c := 0x98badcfe, m5_d := 0x10325476, m5_lo := 0, m5_hi := 0\<rparr>"

text \<open>The new length: \<^verbatim>\<open>lo\<close> keeps 29 bits of the number of bytes.\<close>

definition count_length :: "u64 \<Rightarrow> md5_context \<Rightarrow> md5_context" where
  "count_length n ctx = (let saved_lo = m5_lo ctx;
       ctx = ctx\<lparr>m5_lo := ucast ((ucast saved_lo + n) AND 0x1fffffff)\<rparr>;
       ctx = (if m5_lo ctx < saved_lo then ctx\<lparr>m5_hi := m5_hi ctx + 1\<rparr> else ctx)
     in ctx\<lparr>m5_hi := m5_hi ctx + ucast (drop_bit 29 n)\<rparr>)"

definition md5_whole_blocks :: "byte list \<Rightarrow> md5_context \<Rightarrow> md5_context option" where
  "md5_whole_blocks data ctx = do {
     let size = length data;
     (rest, ctx) \<leftarrow> (if size \<ge> 64 then md5_body data (size - size mod 64) ctx else Some (data, ctx));
     Some (ctx\<lparr>m5_buffer := overwrite 0 rest (m5_buffer ctx)\<rparr>)
   }"

definition md5_update :: "byte list \<Rightarrow> md5_context \<Rightarrow> md5_context option" where
  "md5_update data ctx = (let used = unat (m5_lo ctx AND 0x3f); ctx = count_length (of_nat (length data)) ctx in
     if used \<noteq> 0 then
       let available = 64 - used in
       if length data < available then Some (ctx\<lparr>m5_buffer := overwrite used data (m5_buffer ctx)\<rparr>)
       else do {
         let ctx = ctx\<lparr>m5_buffer := overwrite used (take available data) (m5_buffer ctx)\<rparr>;
         (_, ctx) \<leftarrow> md5_body (m5_buffer ctx) 64 ctx;
         md5_whole_blocks (drop available data) ctx
       }
     else md5_whole_blocks data ctx)"

definition OUT :: "u32 \<Rightarrow> byte list" where
  "OUT src = [ucast src, ucast (drop_bit 8 src), ucast (drop_bit 16 src), ucast (drop_bit 24 src)]"

definition zero_context :: md5_context where
  "zero_context = \<lparr>m5_lo = 0, m5_hi = 0, m5_a = 0, m5_b = 0, m5_c = 0, m5_d = 0, m5_buffer = replicate 64 0, m5_block = replicate 16 0\<rparr>"

definition md5_final :: "md5_context \<Rightarrow> (byte list \<times> md5_context) option" where
  "md5_final ctx = do {
     let used = unat (m5_lo ctx AND 0x3f);
     let ctx = ctx\<lparr>m5_buffer := overwrite used [0x80] (m5_buffer ctx)\<rparr>;
     let used = used + 1;
     let available = 64 - used;
     (used, available, ctx) \<leftarrow> (if available < 8
       then do {
         (_, ctx) \<leftarrow> md5_body (overwrite used (replicate available 0) (m5_buffer ctx)) 64
            (ctx\<lparr>m5_buffer := overwrite used (replicate available 0) (m5_buffer ctx)\<rparr>);
         Some (0, 64, ctx)
       }
       else Some (used, available, ctx));
     let ctx = ctx\<lparr>m5_buffer := overwrite used (replicate (available - 8) 0) (m5_buffer ctx)\<rparr>;
     let ctx = ctx\<lparr>m5_lo := push_bit 3 (m5_lo ctx)\<rparr>;
     let ctx = ctx\<lparr>m5_buffer := overwrite 60 (OUT (m5_hi ctx)) (overwrite 56 (OUT (m5_lo ctx)) (m5_buffer ctx))\<rparr>;
     (_, ctx) \<leftarrow> md5_body (m5_buffer ctx) 64 ctx;
     Some (OUT (m5_a ctx) @ OUT (m5_b ctx) @ OUT (m5_c ctx) @ OUT (m5_d ctx), zero_context)
   }"

section \<open>The reference\<close>

text \<open>RFC 1321: the padded message, the table of constants, and one step of 64.\<close>

definition rfc_f :: "nat \<Rightarrow> u32 \<Rightarrow> u32 \<Rightarrow> u32 \<Rightarrow> u32" where
  "rfc_f i x y z = (if i < 16 then (x AND y) OR (NOT x AND z) else if i < 32 then (x AND z) OR (y AND NOT z)
     else if i < 48 then x XOR y XOR z else y XOR (x OR NOT z))"

definition rfc_k :: "nat \<Rightarrow> nat" where
  "rfc_k i = (if i < 16 then i else if i < 32 then (5 * i + 1) mod 16 else if i < 48 then (3 * i + 5) mod 16 else 7 * i mod 16)"

definition rfc_s :: "nat \<Rightarrow> nat" where
  "rfc_s i = [[7, 12, 17, 22], [5, 9, 14, 20], [4, 11, 16, 23], [6, 10, 15, 21]] ! (i div 16) ! (i mod 4)"

definition rfc_T :: "u32 list" where
  "rfc_T = [0xd76aa478, 0xe8c7b756, 0x242070db, 0xc1bdceee, 0xf57c0faf, 0x4787c62a, 0xa8304613, 0xfd469501,
   0x698098d8, 0x8b44f7af, 0xffff5bb1, 0x895cd7be, 0x6b901122, 0xfd987193, 0xa679438e, 0x49b40821,
   0xf61e2562, 0xc040b340, 0x265e5a51, 0xe9b6c7aa, 0xd62f105d, 0x02441453, 0xd8a1e681, 0xe7d3fbc8,
   0x21e1cde6, 0xc33707d6, 0xf4d50d87, 0x455a14ed, 0xa9e3e905, 0xfcefa3f8, 0x676f02d9, 0x8d2a4c8a,
   0xfffa3942, 0x8771f681, 0x6d9d6122, 0xfde5380c, 0xa4beea44, 0x4bdecfa9, 0xf6bb4b60, 0xbebfbc70,
   0x289b7ec6, 0xeaa127fa, 0xd4ef3085, 0x04881d05, 0xd9d4d039, 0xe6db99e5, 0x1fa27cf8, 0xc4ac5665,
   0xf4292244, 0x432aff97, 0xab9423a7, 0xfc93a039, 0x655b59c3, 0x8f0ccc92, 0xffeff47d, 0x85845dd1,
   0x6fa87e4f, 0xfe2ce6e0, 0xa3014314, 0x4e0811a1, 0xf7537e82, 0xbd3af235, 0x2ad7d2bb, 0xeb86d391]"

definition rfc_step :: "u32 list \<Rightarrow> nat \<Rightarrow> md5_state \<Rightarrow> md5_state" where
  "rfc_step x i = (\<lambda>(a, b, c, d). (d, b + word_rotl (rfc_s i) (a + rfc_f i b c d + x ! rfc_k i + rfc_T ! i), b, c))"

definition rfc_block :: "byte list \<Rightarrow> md5_state \<Rightarrow> md5_state" where
  "rfc_block bs = (\<lambda>(a, b, c, d). case fold (rfc_step (map (\<lambda>n. le_word (slice (4 * n) 4 bs)) [0..<16])) [0..<64] (a, b, c, d) of
     (a', b', c', d') \<Rightarrow> (a + a', b + b', c + c', d + d'))"

definition rfc_blocks :: "byte list \<Rightarrow> md5_state \<Rightarrow> md5_state" where
  "rfc_blocks bs = fold (\<lambda>i. rfc_block (slice (64 * i) 64 bs)) [0..<length bs div 64]"

definition rfc_pad :: "byte list \<Rightarrow> byte list" where
  "rfc_pad msg = msg @ 0x80 # replicate ((119 - length msg mod 64) mod 64) 0 @ le_bytes 8 (of_nat (8 * length msg) :: u64)"

definition rfc_md5 :: "byte list \<Rightarrow> byte list" where
  "rfc_md5 msg = (case rfc_blocks (rfc_pad msg) (0x67452301, 0xefcdab89, 0x98badcfe, 0x10325476) of
     (a, b, c, d) \<Rightarrow> le_bytes 4 a @ le_bytes 4 b @ le_bytes 4 c @ le_bytes 4 d)"

section \<open>One block\<close>

lemma md5_functions:
  "md5_F x y z = (x AND y) OR (NOT x AND z)" "md5_G x y z = (x AND z) OR (y AND NOT z)" "md5_H x y z = x XOR y XOR z" "md5_H2 x y z = x XOR y XOR z"
  by (rule bit_word_eqI; auto simp: md5_F_def md5_G_def md5_H_def md5_H2_def bit_simps)+

lemma rotate: "0 < s \<Longrightarrow> s < 32 \<Longrightarrow> push_bit s a OR drop_bit (32 - s) (a AND 0xffffffff) = word_rotl s (a :: u32)"
proof -
  assume s: "0 < s" "s < 32"
  have "(0xffffffff :: u32) = -1" by simp
  then have m: "a AND 0xffffffff = a" by (simp only: and.right_neutral)
  have "bit (push_bit s a OR drop_bit (32 - s) a) n = bit (word_rotl s a) n" if n: "n < 32" for n
  proof (cases "s \<le> n")
    case True
    then have nb: "\<not> bit a (32 - s + n)" using s bit_imp_le_length [of a "32 - s + n"] by auto
    have e: "n + 32 - s = (n - s) + 32" using True by simp
    have "(n + 32 - s) mod 32 = n - s" unfolding e using n by simp
    then show ?thesis using s n True nb by (simp add: bit_word_rotl_iff bit_or_iff bit_push_bit_iff bit_drop_bit_eq)
  next
    case False
    then have e: "32 - s + n = n + 32 - s" using s by simp
    show ?thesis using s n False by (simp add: e bit_word_rotl_iff bit_or_iff bit_push_bit_iff bit_drop_bit_eq)
  qed
  then show ?thesis unfolding m by (intro bit_word_eqI) simp
qed

lemma STEP_rfc: "0 < s \<Longrightarrow> s < 32 \<Longrightarrow> STEP f a b c d x t s = b + word_rotl s (a + f b c d + x + t)"
  unfolding STEP_def Let_def by (simp only: rotate) (simp only: ac_simps)

lemma four_steps_rfc:
  assumes "rfc_f i = f" "rfc_f (i + 1) = g" "rfc_f (i + 2) = f" "rfc_f (i + 3) = g"
    and "rfc_k i = i0" "rfc_k (i + 1) = i1" "rfc_k (i + 2) = i2" "rfc_k (i + 3) = i3"
    and "rfc_T ! i = t0" "rfc_T ! (i + 1) = t1" "rfc_T ! (i + 2) = t2" "rfc_T ! (i + 3) = t3"
    and "rfc_s i = s0" "rfc_s (i + 1) = s1" "rfc_s (i + 2) = s2" "rfc_s (i + 3) = s3"
    and "0 < s0 \<and> s0 < 32" "0 < s1 \<and> s1 < 32" "0 < s2 \<and> s2 < 32" "0 < s3 \<and> s3 < 32"
  shows "four_steps f g x s0 s1 s2 s3 (i0, t0, i1, t1, i2, t2, i3, t3) st = fold (rfc_step x) [i, i + 1, i + 2, i + 3] st"
  using assms(17-20)
  by (cases st) (simp add: four_steps_def rfc_step_def assms(1-16) [simplified] STEP_rfc Let_def)

lemma rfc_f_round: "i < 16 \<Longrightarrow> rfc_f i = md5_F" "16 \<le> i \<Longrightarrow> i < 32 \<Longrightarrow> rfc_f i = md5_G" "32 \<le> i \<Longrightarrow> i < 48 \<Longrightarrow> rfc_f i = md5_H"
    "48 \<le> i \<Longrightarrow> rfc_f i = md5_I" "md5_H2 = md5_H"
  by (simp_all add: rfc_f_def fun_eq_iff md5_functions md5_I_def)

definition upto4 :: "nat \<Rightarrow> nat list" where
  "upto4 i = [i, i + 1, i + 2, i + 3]"

lemma upt_16: "[i..<i + 16] = upto4 i @ upto4 (i + 4) @ upto4 (i + 8) @ upto4 (i + 12)"
  by (simp add: upto4_def upt_rec)

lemma quads:
  "four_steps md5_F md5_F x 7 12 17 22 (0, 0xd76aa478, 1, 0xe8c7b756, 2, 0x242070db, 3, 0xc1bdceee) st = fold (rfc_step x) (upto4 0) st"
  "four_steps md5_F md5_F x 7 12 17 22 (4, 0xf57c0faf, 5, 0x4787c62a, 6, 0xa8304613, 7, 0xfd469501) st = fold (rfc_step x) (upto4 4) st"
  "four_steps md5_F md5_F x 7 12 17 22 (8, 0x698098d8, 9, 0x8b44f7af, 10, 0xffff5bb1, 11, 0x895cd7be) st = fold (rfc_step x) (upto4 8) st"
  "four_steps md5_F md5_F x 7 12 17 22 (12, 0x6b901122, 13, 0xfd987193, 14, 0xa679438e, 15, 0x49b40821) st = fold (rfc_step x) (upto4 12) st"
  "four_steps md5_G md5_G x 5 9 14 20 (1, 0xf61e2562, 6, 0xc040b340, 11, 0x265e5a51, 0, 0xe9b6c7aa) st = fold (rfc_step x) (upto4 16) st"
  "four_steps md5_G md5_G x 5 9 14 20 (5, 0xd62f105d, 10, 0x02441453, 15, 0xd8a1e681, 4, 0xe7d3fbc8) st = fold (rfc_step x) (upto4 20) st"
  "four_steps md5_G md5_G x 5 9 14 20 (9, 0x21e1cde6, 14, 0xc33707d6, 3, 0xf4d50d87, 8, 0x455a14ed) st = fold (rfc_step x) (upto4 24) st"
  "four_steps md5_G md5_G x 5 9 14 20 (13, 0xa9e3e905, 2, 0xfcefa3f8, 7, 0x676f02d9, 12, 0x8d2a4c8a) st = fold (rfc_step x) (upto4 28) st"
  "four_steps md5_H md5_H2 x 4 11 16 23 (5, 0xfffa3942, 8, 0x8771f681, 11, 0x6d9d6122, 14, 0xfde5380c) st = fold (rfc_step x) (upto4 32) st"
  "four_steps md5_H md5_H2 x 4 11 16 23 (1, 0xa4beea44, 4, 0x4bdecfa9, 7, 0xf6bb4b60, 10, 0xbebfbc70) st = fold (rfc_step x) (upto4 36) st"
  "four_steps md5_H md5_H2 x 4 11 16 23 (13, 0x289b7ec6, 0, 0xeaa127fa, 3, 0xd4ef3085, 6, 0x04881d05) st = fold (rfc_step x) (upto4 40) st"
  "four_steps md5_H md5_H2 x 4 11 16 23 (9, 0xd9d4d039, 12, 0xe6db99e5, 15, 0x1fa27cf8, 2, 0xc4ac5665) st = fold (rfc_step x) (upto4 44) st"
  "four_steps md5_I md5_I x 6 10 15 21 (0, 0xf4292244, 7, 0x432aff97, 14, 0xab9423a7, 5, 0xfc93a039) st = fold (rfc_step x) (upto4 48) st"
  "four_steps md5_I md5_I x 6 10 15 21 (12, 0x655b59c3, 3, 0x8f0ccc92, 10, 0xffeff47d, 1, 0x85845dd1) st = fold (rfc_step x) (upto4 52) st"
  "four_steps md5_I md5_I x 6 10 15 21 (8, 0x6fa87e4f, 15, 0xfe2ce6e0, 6, 0xa3014314, 13, 0x4e0811a1) st = fold (rfc_step x) (upto4 56) st"
  "four_steps md5_I md5_I x 6 10 15 21 (4, 0xf7537e82, 11, 0xbd3af235, 2, 0x2ad7d2bb, 9, 0xeb86d391) st = fold (rfc_step x) (upto4 60) st"
  unfolding upto4_def by (rule four_steps_rfc; simp add: rfc_f_round rfc_k_def rfc_s_def rfc_T_def)+

lemma rounds_rfc:
  "round1 x st = fold (rfc_step x) [0..<16] st" "round2 x st = fold (rfc_step x) [16..<32] st"
  "round3 x st = fold (rfc_step x) [32..<48] st" "round4 x st = fold (rfc_step x) [48..<64] st"
proof -
  have "round1 x st = fold (rfc_step x) (upto4 0 @ upto4 (0 + 4) @ upto4 (0 + 8) @ upto4 (0 + 12)) st"
    "round2 x st = fold (rfc_step x) (upto4 16 @ upto4 (16 + 4) @ upto4 (16 + 8) @ upto4 (16 + 12)) st"
    "round3 x st = fold (rfc_step x) (upto4 32 @ upto4 (32 + 4) @ upto4 (32 + 8) @ upto4 (32 + 12)) st"
    "round4 x st = fold (rfc_step x) (upto4 48 @ upto4 (48 + 4) @ upto4 (48 + 8) @ upto4 (48 + 12)) st"
    by (simp_all only: round1_def round2_def round3_def round4_def quads fold_simps fold_append o_apply arith_simps add_0)
  then show "round1 x st = fold (rfc_step x) [0..<16] st" "round2 x st = fold (rfc_step x) [16..<32] st"
    "round3 x st = fold (rfc_step x) [32..<48] st" "round4 x st = fold (rfc_step x) [48..<64] st"
    unfolding upt_16 [symmetric] by (simp_all only: arith_simps add_0)
qed

lemma SET_le_word: "4 * n + 4 \<le> length ptr \<Longrightarrow> SET ptr n = le_word (slice (4 * n) 4 ptr)"
proof -
  assume n: "4 * n + 4 \<le> length ptr"
  have "take 4 (drop (4 * n) ptr) = [ptr ! (4 * n), ptr ! (4 * n + 1), ptr ! (4 * n + 2), ptr ! (4 * n + 3)]"
    using n by (intro nth_equalityI) (auto simp: less_Suc_eq numeral_eq_Suc nth_Cons')
  then show ?thesis
    by (simp add: SET_def slice_def mult.commute [of n] push_bit_or push_bit_push_bit or.assoc)
qed

definition m5_state :: "md5_context \<Rightarrow> md5_state" where
  "m5_state ctx = (m5_a ctx, m5_b ctx, m5_c ctx, m5_d ctx)"

definition set_m5 :: "md5_state \<Rightarrow> md5_context \<Rightarrow> md5_context" where
  "set_m5 st ctx = (case st of (a, b, c, d) \<Rightarrow> ctx\<lparr>m5_a := a, m5_b := b, m5_c := c, m5_d := d\<rparr>)"

lemma md5_block_body_ok:
  assumes "64 \<le> length ptr"
  shows "\<exists>x. md5_block_body ptr ctx = (set_m5 (rfc_block (take 64 ptr) (m5_state ctx)) ctx)\<lparr>m5_block := x\<rparr>"
proof -
  let ?x = "map (SET ptr) [0..<16]"
  have x: "?x = map (\<lambda>n. le_word (slice (4 * n) 4 (take 64 ptr))) [0..<16]"
    using assms by (intro map_cong) (auto simp: SET_le_word slice_def drop_take min_def)
  have "[0..<64] = [0..<16] @ [16..<32] @ [32..<48] @ [48..<64 :: nat]"
    by (simp only: upt_add_eq_append [symmetric] flip: append_assoc) (simp add: upt_rec)
  then have "round4 ?x (round3 ?x (round2 ?x (round1 ?x st))) = fold (rfc_step ?x) [0..<64] st" for st
    by (simp only: rounds_rfc fold_append o_apply)
  then show ?thesis unfolding x
    by (auto simp: md5_block_body_def Let_def x rfc_block_def m5_state_def set_m5_def add.commute split: prod.splits)
qed

section \<open>Data in pieces\<close>

lemma rfc_blocks_append:
  assumes "length xs mod 64 = 0"
  shows "rfc_blocks (xs @ ys) st = rfc_blocks ys (rfc_blocks xs st)"
proof -
  obtain m where m: "length xs = 64 * m" using assms by (auto simp: mod_eq_0_iff_dvd dvd_def)
  let ?n = "length ys div 64"
  have "fold (\<lambda>i. rfc_block (slice (64 * i) 64 (xs @ ys))) [0..<m] st = fold (\<lambda>i. rfc_block (slice (64 * i) 64 xs)) [0..<m] st" for st
    using m by (intro fold_cong) (auto simp: slice_def)
  moreover have "fold (\<lambda>i. rfc_block (slice (64 * i) 64 (xs @ ys))) (map ((+) m) [0..<?n]) st = fold (\<lambda>i. rfc_block (slice (64 * i) 64 ys)) [0..<?n] st" for st
    using m by (simp add: fold_map comp_def slice_def)
  moreover have "[m..<m + ?n] = map ((+) m) [0..<?n]" by (rule nth_equalityI) simp_all
  then have "[0..<m + ?n] = [0..<m] @ map ((+) m) [0..<?n]" using upt_add_eq_append [of 0 m ?n] by simp
  moreover have "length (xs @ ys) div 64 = m + ?n" using m by simp
  ultimately show ?thesis using m by (simp add: rfc_blocks_def)
qed

lemma rfc_blocks_one: "length xs = 64 \<Longrightarrow> rfc_blocks xs = rfc_block xs"
  by (rule ext) (simp add: rfc_blocks_def slice_def)

lemma rfc_blocks_Nil [simp]: "rfc_blocks [] st = st"
  by (simp add: rfc_blocks_def)

text \<open>A context with given words that differs from another in nothing but these and the copy of the block.\<close>

definition moved :: "md5_state \<Rightarrow> md5_context \<Rightarrow> md5_context \<Rightarrow> bool" where
  "moved st ctx ctx' \<longleftrightarrow> m5_state ctx' = st \<and> m5_buffer ctx' = m5_buffer ctx \<and> m5_lo ctx' = m5_lo ctx \<and> m5_hi ctx' = m5_hi ctx"

lemma md5_body_ok:
  assumes "n mod 64 = 0" "0 < n" "n \<le> length ptr"
  shows "\<exists>ctx'. md5_body ptr n ctx = Some (drop n ptr, ctx') \<and> moved (rfc_blocks (take n ptr) (m5_state ctx)) ctx ctx'"
  using assms
proof (induction n arbitrary: ptr ctx rule: less_induct)
  case (less n)
  have n: "64 \<le> n" using less.prems(1,2) by (cases "n < 64") auto
  obtain x where x: "md5_block_body ptr ctx = (set_m5 (rfc_block (take 64 ptr) (m5_state ctx)) ctx)\<lparr>m5_block := x\<rparr>"
    using md5_block_body_ok n less.prems(3) by fastforce
  then have m: "moved (rfc_block (take 64 ptr) (m5_state ctx)) ctx (md5_block_body ptr ctx)"
    by (auto simp: moved_def set_m5_def m5_state_def split: prod.splits)
  have one: "rfc_blocks (take 64 ptr) = rfc_block (take 64 ptr)" using n less.prems(3) by (simp add: rfc_blocks_one)
  show ?case
  proof (cases "n = 64")
    case True
    then show ?thesis using n less.prems(3) m one by (subst md5_body.simps) (simp add: Let_def)
  next
    case False
    have f: "n - 64 < n" "(n - 64) mod 64 = 0" "0 < n - 64" "n - 64 \<le> length (drop 64 ptr)"
      using less.prems n False by (auto simp: le_mod_geq)
    obtain ctx' where c: "md5_body (drop 64 ptr) (n - 64) (md5_block_body ptr ctx) = Some (drop (n - 64) (drop 64 ptr), ctx')"
        "moved (rfc_blocks (take (n - 64) (drop 64 ptr)) (m5_state (md5_block_body ptr ctx))) (md5_block_body ptr ctx) ctx'"
      using less.IH [OF f, of "md5_block_body ptr ctx"] by (elim exE conjE)
    have "take n ptr = take 64 ptr @ take (n - 64) (drop 64 ptr)" using n by (simp flip: take_add)
    then have "rfc_blocks (take n ptr) (m5_state ctx) = rfc_blocks (take (n - 64) (drop 64 ptr)) (rfc_block (take 64 ptr) (m5_state ctx))"
      using n less.prems(3) one by (simp add: rfc_blocks_append)
    moreover have "md5_body ptr n ctx = md5_body (drop 64 ptr) (n - 64) (md5_block_body ptr ctx)"
      using n less.prems(3) False by (subst md5_body.simps) (simp add: Let_def)
    ultimately show ?thesis using c m n by (auto simp: moved_def)
  qed
qed

lemma length_bits:
  assumes "k < 2 ^ 64" "m5_lo ctx = of_nat (L mod 2 ^ 29)" "m5_hi ctx = of_nat (L div 2 ^ 29)"
  shows "m5_lo (count_length (of_nat k) ctx) = of_nat ((L + k) mod 2 ^ 29)" "m5_hi (count_length (of_nat k) ctx) = of_nat ((L + k) div 2 ^ 29)"
proof -
  let ?M = "2 ^ 29 :: nat" and ?l = "L mod 2 ^ 29"
  have l: "?l < ?M" by simp
  have "(ucast (m5_lo ctx) :: u64) = of_nat ?l" using assms(2) l by (simp add: unsigned_of_nat take_bit_eq_mod)
  then have "(ucast (m5_lo ctx) + of_nat k :: u64) AND 0x1fffffff = take_bit 29 (of_nat (?l + k))"
    by (simp add: take_bit_eq_mask mask_numeral)
  also have "\<dots> = of_nat ((?l + k) mod ?M)"
    by (simp only: take_bit_of_nat) (simp only: take_bit_eq_mod)
  finally have a: "(ucast (m5_lo ctx) + of_nat k :: u64) AND 0x1fffffff = of_nat ((?l + k) mod ?M)" .
  have u: "ucast (of_nat v :: u64) = (of_nat v :: u32)" for v by transfer simp
  then have lo: "m5_lo (count_length (of_nat k) ctx) = of_nat ((?l + k) mod ?M)" by (simp add: count_length_def Let_def a u)
  then show "m5_lo (count_length (of_nat k) ctx) = of_nat ((L + k) mod 2 ^ 29)" by (simp add: mod_simps)
  let ?v = "(?l + k) mod ?M"
  have v: "?v < ?M" by simp
  have c: "ucast ((ucast (m5_lo ctx) + of_nat k :: u64) AND 0x1fffffff) < m5_lo ctx \<longleftrightarrow> ?v < ?l"
    unfolding a u unfolding assms(2) using l v by (simp add: word_less_nat_alt unat_of_nat)
  have "drop_bit 29 (of_nat k :: u64) = of_nat (k div ?M)"
    using assms(1) by (simp add: word_unat_eq_iff unat_drop_bit_eq unat_of_nat drop_bit_eq_div unat_div)
  then have k: "ucast (drop_bit 29 (of_nat k :: u64)) = (of_nat (k div ?M) :: u32)" by (simp only: u)
  have "m5_hi (count_length (of_nat k) ctx) = m5_hi ctx + (if ?v < ?l then 1 else 0) + of_nat (k div ?M)"
    using c k by (simp add: count_length_def Let_def)
  moreover have "(L + k) div ?M = L div ?M + (if ?v < ?l then 1 else 0) + k div ?M"
  proof -
    have e: "?v = (?l + k mod ?M) mod ?M" by (simp add: mod_simps)
    have r: "?l + k mod ?M < 2 * ?M" using l mod_less_divisor [of ?M k] by linarith
    have "(?l + k mod ?M) div ?M = (if ?v < ?l then 1 else 0)"
    proof (cases "?l + k mod ?M < ?M")
      case True
      then show ?thesis unfolding e by simp
    next
      case False
      then have "(?l + k mod ?M) mod ?M = ?l + k mod ?M - ?M" "(?l + k mod ?M) div ?M = 1"
        using r by (simp_all add: le_mod_geq le_div_geq)
      moreover have "?l + k mod ?M - ?M < ?l" using l mod_less_divisor [of ?M k] False by linarith
      ultimately show ?thesis unfolding e by simp
    qed
    then show ?thesis by (simp add: div_add1_eq [of L k])
  qed
  ultimately show "m5_hi (count_length (of_nat k) ctx) = of_nat ((L + k) div 2 ^ 29)" using assms(3) by simp
qed

definition rfc_init :: md5_state where
  "rfc_init = (0x67452301, 0xefcdab89, 0x98badcfe, 0x10325476)"

text \<open>What a context holds after the data \<open>msg\<close>: \<open>whole msg\<close> is processed, the rest is in the buffer.\<close>

definition whole :: "byte list \<Rightarrow> nat" where
  "whole msg = length msg - length msg mod 64"

lemma whole_mod: "whole msg mod 64 = 0" "whole msg \<le> length msg" "length msg - whole msg = length msg mod 64"
proof -
  show "whole msg mod 64 = 0" "whole msg \<le> length msg" by (simp_all add: whole_def minus_mod_eq_mult_div)
  have "length msg mod 64 \<le> length msg" by (rule mod_less_eq_dividend)
  then show "length msg - whole msg = length msg mod 64" by (simp add: whole_def)
qed

lemma mod64: "x mod 64 = 0 \<Longrightarrow> (x + y) mod 64 = y mod (64 :: nat)" "x mod 64 + y = 64 \<Longrightarrow> (x + y) mod 64 = 0"
  using mod_add_left_eq [of x 64 y] by simp_all

definition holds :: "byte list \<Rightarrow> md5_context \<Rightarrow> bool" where
  "holds msg ctx \<longleftrightarrow> m5_state ctx = rfc_blocks (take (whole msg) msg) rfc_init \<and> length (m5_buffer ctx) = 64
     \<and> take (length msg mod 64) (m5_buffer ctx) = drop (whole msg) msg"

definition counts :: "nat \<Rightarrow> md5_context \<Rightarrow> bool" where
  "counts L ctx \<longleftrightarrow> m5_lo ctx = of_nat (L mod 2 ^ 29) \<and> m5_hi ctx = of_nat (L div 2 ^ 29)"

lemma whole_append: "length xs mod 64 = 0 \<Longrightarrow> whole (xs @ ys) = length xs + whole ys"
proof -
  assume "length xs mod 64 = 0"
  then have "(length xs + length ys) mod 64 = length ys mod 64" by (rule mod64)
  moreover have "length ys mod 64 \<le> length ys" by (rule mod_less_eq_dividend)
  ultimately show ?thesis by (simp add: whole_def)
qed

lemma holds_start: "m5_state ctx = rfc_blocks xs rfc_init \<Longrightarrow> length xs mod 64 = 0 \<Longrightarrow> length (m5_buffer ctx) = 64 \<Longrightarrow> holds xs ctx"
  by (simp add: holds_def whole_def)

lemma md5_whole_blocks_ok:
  assumes "holds xs ctx" "length xs mod 64 = 0"
  shows "\<exists>ctx'. md5_whole_blocks data ctx = Some ctx' \<and> holds (xs @ data) ctx' \<and> m5_lo ctx' = m5_lo ctx \<and> m5_hi ctx' = m5_hi ctx"
proof -
  let ?n = "whole data"
  have n: "?n mod 64 = 0" "?n \<le> length data" "length data < 64 \<longleftrightarrow> ?n = 0"
    using whole_mod [of data] by (simp_all add: whole_def minus_mod_eq_mult_div div_eq_0_iff)
  obtain ctx1 where c: "(if length data \<ge> 64 then md5_body data (length data - length data mod 64) ctx else Some (data, ctx)) = Some (drop ?n data, ctx1)"
      "moved (rfc_blocks (take ?n data) (m5_state ctx)) ctx ctx1"
  proof (cases "length data < 64")
    case True
    then show ?thesis using n(3) by (intro that [of ctx]) (simp_all add: moved_def)
  next
    case False
    then obtain ctx1 where "md5_body data ?n ctx = Some (drop ?n data, ctx1)" "moved (rfc_blocks (take ?n data) (m5_state ctx)) ctx ctx1"
      using md5_body_ok [OF n(1) _ n(2), of ctx] n(3) by auto
    then show ?thesis using False by (intro that [of ctx1]) (simp_all add: whole_def)
  qed
  let ?ctx = "ctx1\<lparr>m5_buffer := overwrite 0 (drop ?n data) (m5_buffer ctx1)\<rparr>"
  have x: "m5_state ctx = rfc_blocks xs rfc_init" "length (m5_buffer ctx) = 64" using assms by (simp_all add: holds_def whole_def)
  have l: "length (drop ?n data) = length data mod 64" using whole_mod(3) by simp
  then have l64: "length (drop ?n data) < 64" by simp
  have "holds (xs @ data) ?ctx"
  proof -
    have "take (whole (xs @ data)) (xs @ data) = xs @ take ?n data" using whole_append [OF assms(2)] by simp
    moreover have "m5_state ?ctx = rfc_blocks (take ?n data) (m5_state ctx)" using c(2) by (simp add: moved_def m5_state_def)
    moreover have "length (m5_buffer ?ctx) = 64" using c(2) x(2) l64 by (simp add: moved_def)
    moreover have "(length xs + length data) mod 64 = length data mod 64" using mod64(1) assms(2) by simp
    moreover have "take (length data mod 64) (m5_buffer ?ctx) = drop ?n data"
      unfolding l [symmetric] using take_overwrite_end [of 0 "m5_buffer ctx1" "drop ?n data"] by simp
    ultimately show ?thesis using x(1) whole_append [OF assms(2), of data] by (simp add: holds_def rfc_blocks_append [OF assms(2)])
  qed
  then show ?thesis using c by (simp add: md5_whole_blocks_def Let_def moved_def)
qed

lemma used_bytes: "unat ((of_nat (L mod 2 ^ 29) :: u32) AND 0x3f) = L mod 64"
proof -
  have "(of_nat (L mod 2 ^ 29) :: u32) AND 0x3f = take_bit 6 (of_nat (L mod 2 ^ 29))" by (simp add: take_bit_eq_mask mask_numeral)
  also have "\<dots> = of_nat (L mod 2 ^ 29 mod 2 ^ 6)" by (simp only: take_bit_of_nat) (simp only: take_bit_eq_mod)
  also have "L mod 2 ^ 29 mod 2 ^ 6 = L mod 64" by (simp add: mod_mod_cancel)
  finally show ?thesis by (simp add: unat_of_nat) 
qed

lemma count_length_frame: "m5_state (count_length n ctx) = m5_state ctx" "m5_buffer (count_length n ctx) = m5_buffer ctx"
  by (simp_all add: count_length_def Let_def m5_state_def)

lemma holds_cong: "m5_state ctx' = m5_state ctx \<Longrightarrow> m5_buffer ctx' = m5_buffer ctx \<Longrightarrow> holds xs ctx' = holds xs ctx"
  by (simp add: holds_def)

text \<open>A block that is completed in the buffer.\<close>

lemma fill_buffer:
  assumes "holds msg ctx" "length msg mod 64 + length d = 64"
  shows "\<exists>ctx'. md5_body (overwrite (length msg mod 64) d (m5_buffer ctx)) 64 (ctx\<lparr>m5_buffer := overwrite (length msg mod 64) d (m5_buffer ctx)\<rparr>) = Some ([], ctx')
    \<and> holds (msg @ d) ctx' \<and> m5_lo ctx' = m5_lo ctx \<and> m5_hi ctx' = m5_hi ctx"
proof -
  let ?u = "length msg mod 64"
  let ?b = "overwrite ?u d (m5_buffer ctx)" and ?ctx = "ctx\<lparr>m5_buffer := overwrite ?u d (m5_buffer ctx)\<rparr>"
  have h: "m5_state ctx = rfc_blocks (take (whole msg) msg) rfc_init" "length (m5_buffer ctx) = 64" "take ?u (m5_buffer ctx) = drop (whole msg) msg"
    using assms(1) by (simp_all add: holds_def)
  have b: "?b = drop (whole msg) msg @ d" using h assms(2) by (simp add: overwrite_def)
  have lb: "length ?b = 64" using h(2) assms(2) by simp
  obtain ctx' where c: "md5_body ?b 64 ?ctx = Some (drop 64 ?b, ctx')" "moved (rfc_blocks (take 64 ?b) (m5_state ?ctx)) ?ctx ctx'"
    using md5_body_ok [of 64 ?b ?ctx] lb by auto
  have m: "msg @ d = take (whole msg) msg @ ?b" using b by simp
  have "rfc_blocks (msg @ d) rfc_init = rfc_blocks ?b (m5_state ctx)"
    unfolding m using h(1) whole_mod(1,2) [of msg] by (simp add: rfc_blocks_append min_def)
  then have "m5_state ctx' = rfc_blocks (msg @ d) rfc_init" using c(2) lb by (simp add: moved_def m5_state_def)
  moreover have "length (msg @ d) mod 64 = 0" using mod64(2) assms(2) by simp
  moreover have "length (m5_buffer ctx') = 64" using c(2) lb by (simp add: moved_def)
  ultimately have "holds (msg @ d) ctx'" by (intro holds_start)
  then show ?thesis using c lb by (simp add: moved_def)
qed

lemma md5_update_ok:
  assumes "holds msg ctx" "counts (length msg) ctx" "length data < 2 ^ 64"
  shows "\<exists>ctx'. md5_update data ctx = Some ctx' \<and> holds (msg @ data) ctx' \<and> counts (length (msg @ data)) ctx'"
proof -
  let ?u = "length msg mod 64" and ?c = "count_length (of_nat (length data)) ctx"
  have u: "unat (m5_lo ctx AND 0x3f) = ?u" using assms(2) used_bytes by (simp add: counts_def)
  have cnt: "counts (length (msg @ data)) ?c" using length_bits [OF assms(3), of ctx "length msg"] assms(2) by (simp add: counts_def)
  have h: "holds msg ?c" using assms(1) holds_cong count_length_frame by metis
  have lb: "length (m5_buffer ?c) = 64" using h by (simp add: holds_def)
  show ?thesis
  proof (cases "?u = 0")
    case True
    then show ?thesis using md5_whole_blocks_ok [OF h True, of data] u cnt by (auto simp: md5_update_def Let_def counts_def)
  next
    case u0: False
    show ?thesis
    proof (cases "length data < 64 - ?u")
      case True
      let ?ctx = "?c\<lparr>m5_buffer := overwrite ?u data (m5_buffer ?c)\<rparr>"
      have m: "length (msg @ data) mod 64 = ?u + length data"
      proof -
        have "(length msg + length data) mod 64 = (?u + length data) mod 64" by (simp add: mod_simps)
        then show ?thesis using True by simp
      qed
      then have w: "whole (msg @ data) = whole msg" by (simp add: whole_def)
      have "take (?u + length data) (overwrite ?u data (m5_buffer ?c)) = drop (whole msg) msg @ data"
        using take_overwrite_end [of ?u "m5_buffer ?c" data] h lb by (simp add: holds_def)
      then have "holds (msg @ data) ?ctx"
        using h lb True m w whole_mod(2) [of msg] by (simp add: holds_def m5_state_def)
      moreover have "counts (length (msg @ data)) ?ctx" using cnt by (simp add: counts_def)
      moreover have "md5_update data ctx = Some ?ctx" using True u u0 by (simp add: md5_update_def Let_def)
      ultimately show ?thesis by blast
    next
      case False
      let ?d = "take (64 - ?u) data"
      have d: "?u + length ?d = 64" using False mod_less_divisor [of 64 "length msg"] by (simp add: min_def)
      obtain ctx1 where c1: "md5_body (overwrite ?u ?d (m5_buffer ?c)) 64 (?c\<lparr>m5_buffer := overwrite ?u ?d (m5_buffer ?c)\<rparr>) = Some ([], ctx1)"
          "holds (msg @ ?d) ctx1" "m5_lo ctx1 = m5_lo ?c" "m5_hi ctx1 = m5_hi ?c"
        using fill_buffer [OF h d] by blast
      have m: "length (msg @ ?d) mod 64 = 0" unfolding length_append by (rule mod64(2) [OF d])
      obtain ctx2 where "md5_whole_blocks (drop (64 - ?u) data) ctx1 = Some ctx2" "holds ((msg @ ?d) @ drop (64 - ?u) data) ctx2"
          "m5_lo ctx2 = m5_lo ctx1" "m5_hi ctx2 = m5_hi ctx1"
        using md5_whole_blocks_ok [OF c1(2) m, of "drop (64 - ?u) data"] by (elim exE conjE)
      then show ?thesis using False u u0 c1 cnt by (auto simp: md5_update_def Let_def counts_def)
    qed
  qed
qed

section \<open>The digest\<close>

lemma OUT_le_bytes: "OUT w = le_bytes 4 w"
  by (simp add: OUT_def numeral_eq_Suc drop_bit_drop_bit add.commute)

lemma length_OUT [simp]: "length (OUT w) = 4"
  by (simp add: OUT_def)

text \<open>The two words of the length are its 64 bits.\<close>

lemma le_bytes_halves: "le_bytes 4 (ucast w :: u32) @ le_bytes 4 (ucast (drop_bit 32 w) :: u32) = le_bytes 8 (w :: u64)"
proof -
  have "ucast (ucast v :: u32) = (ucast v :: byte)" for v :: u64 by (rule bit_word_eqI) (auto simp: bit_simps)
  moreover have "ucast (drop_bit n (ucast v :: u32)) = (ucast (drop_bit n v) :: byte)" if "n \<le> 24" for v :: u64 and n
    using that by (intro bit_word_eqI) (auto simp: bit_simps)
  ultimately show ?thesis by (simp add: OUT_le_bytes [symmetric] OUT_def) (simp add: numeral_eq_Suc drop_bit_drop_bit add.commute)
qed

lemma OUT_length:
  assumes "counts L ctx"
  shows "OUT (push_bit 3 (m5_lo ctx)) @ OUT (m5_hi ctx) = le_bytes 8 (of_nat (8 * L) :: u64)"
proof -
  let ?w = "of_nat (8 * L) :: u64" and ?N = "2 ^ 32 :: nat"
  have u: "ucast (of_nat v :: u64) = (of_nat v :: u32)" for v by transfer simp
  have c: "(of_nat m :: u32) = of_nat n \<longleftrightarrow> m mod ?N = n mod ?N" for m n by (simp add: word_of_nat_eq_iff take_bit_eq_mod)
  have "push_bit 3 (m5_lo ctx) = of_nat (8 * (L mod 2 ^ 29))" using assms by (simp add: counts_def push_bit_eq_mult)
  moreover have "8 * (L mod 2 ^ 29) = (8 * L) mod ?N" by (simp add: mult_mod_right)
  ultimately have lo: "push_bit 3 (m5_lo ctx) = ucast ?w" by (simp only: u c mod_mod_trivial)
  have "(8 * L mod 2 ^ 64) div ?N = (8 * L) div ?N mod ?N"
  proof -
    have "8 * L mod (?N * ?N) = ?N * (8 * L div ?N mod ?N) + 8 * L mod ?N" by (rule mod_mult2_eq)
    then show ?thesis by simp
  qed
  moreover have "(8 * L) div ?N = L div 2 ^ 29" using div_mult_mult1 [of 8 L "2 ^ 29"] by simp
  moreover have "drop_bit 32 (of_nat n :: u64) = of_nat ((n mod 2 ^ 64) div ?N)" for n
    by (simp add: word_unat_eq_iff unat_drop_bit_eq unat_of_nat drop_bit_eq_div unat_div)
  ultimately have "ucast (drop_bit 32 ?w) = (of_nat (L div 2 ^ 29) :: u32)" by (simp only: u c mod_mod_trivial)
  then have hi: "m5_hi ctx = ucast (drop_bit 32 ?w)" using assms by (simp add: counts_def)
  show ?thesis unfolding lo hi OUT_le_bytes by (rule le_bytes_halves)
qed

lemma overwrite_overwrite:
  assumes "a + length xs + length ys \<le> length zs" "n = a + length xs"
  shows "overwrite n ys (overwrite a xs zs) = overwrite a (xs @ ys) zs"
proof -
  have "take n (overwrite a xs zs) = take a zs @ xs" "drop (n + length ys) (overwrite a xs zs) = drop (a + length (xs @ ys)) zs"
    using assms by (simp_all add: overwrite_def min_absorb2 add_ac)
  then show ?thesis by (simp add: overwrite_def [of n] overwrite_def [of a "xs @ ys"])
qed

text \<open>The last block: \<open>pre\<close> and the length fill it.\<close>

lemma last_block:
  assumes "holds msg ctx" "counts (length m) ctx" "length msg mod 64 + length pre = 56"
  shows "\<exists>ctx'. md5_body (overwrite 60 (OUT (m5_hi ctx)) (overwrite 56 (OUT (push_bit 3 (m5_lo ctx))) (overwrite (length msg mod 64) pre (m5_buffer ctx)))) 64
       (ctx\<lparr>m5_lo := push_bit 3 (m5_lo ctx), m5_buffer := overwrite 60 (OUT (m5_hi ctx)) (overwrite 56 (OUT (push_bit 3 (m5_lo ctx))) (overwrite (length msg mod 64) pre (m5_buffer ctx)))\<rparr>)
       = Some ([], ctx') \<and> m5_state ctx' = rfc_blocks (msg @ pre @ le_bytes 8 (of_nat (8 * length m) :: u64)) rfc_init"
proof -
  let ?d = "(pre @ OUT (push_bit 3 (m5_lo ctx))) @ OUT (m5_hi ctx)" and ?c = "ctx\<lparr>m5_lo := push_bit 3 (m5_lo ctx)\<rparr>"
  have b: "length (m5_buffer ctx) = 64" using assms(1) by (simp add: holds_def)
  have o: "overwrite 60 (OUT (m5_hi ctx)) (overwrite 56 (OUT (push_bit 3 (m5_lo ctx))) (overwrite (length msg mod 64) pre (m5_buffer ctx)))
      = overwrite (length msg mod 64) ?d (m5_buffer ctx)"
    using b assms(3) by (simp add: overwrite_overwrite)
  have h: "holds msg ?c" using assms(1) by (simp add: holds_def m5_state_def)
  have l: "length msg mod 64 + length ?d = 64" using assms(3) by simp
  obtain ctx' where c: "md5_body (overwrite (length msg mod 64) ?d (m5_buffer ?c)) 64 (?c\<lparr>m5_buffer := overwrite (length msg mod 64) ?d (m5_buffer ?c)\<rparr>) = Some ([], ctx')"
      "holds (msg @ ?d) ctx'"
    using fill_buffer [OF h l] by blast
  have "length (msg @ ?d) mod 64 = 0" unfolding length_append [of msg ?d] by (rule mod64(2) [OF l])
  then have "whole (msg @ ?d) = length (msg @ ?d)" by (simp add: whole_def)
  then have "m5_state ctx' = rfc_blocks (msg @ ?d) rfc_init" using c(2) by (simp add: holds_def)
  then show ?thesis using c(1) o OUT_length [OF assms(2)] by simp
qed

lemma md5_final_ok:
  assumes "holds msg ctx" "counts (length msg) ctx"
  shows "md5_final ctx = Some (rfc_md5 msg, zero_context)"
proof -
  let ?u = "length msg mod 64" and ?b = "m5_buffer ctx"
  have u: "unat (m5_lo ctx AND 0x3f) = ?u" using assms(2) used_bytes by (simp add: counts_def)
  have b: "length ?b = 64" using assms(1) by (simp add: holds_def)
  have "?u < 64" by simp
  have digest: "rfc_md5 msg = OUT (m5_a c) @ OUT (m5_b c) @ OUT (m5_c c) @ OUT (m5_d c)" if "m5_state c = rfc_blocks (rfc_pad msg) rfc_init" for c
    using that [symmetric] by (simp add: rfc_md5_def rfc_init_def m5_state_def OUT_le_bytes split: prod.splits)
  show ?thesis
  proof (cases "?u < 56")
    case True
    let ?pre = "0x80 # replicate (55 - ?u) (0 :: byte)"
    have p: "overwrite (?u + 1) (replicate (55 - ?u) 0) (overwrite ?u [0x80] ?b) = overwrite ?u ?pre ?b"
      using overwrite_overwrite [of ?u "[0x80]" "replicate (55 - ?u) 0" ?b "?u + 1"] b True by simp
    have "(119 - ?u) mod 64 = 55 - ?u" using True by (simp add: le_mod_geq)
    then have pad: "rfc_pad msg = msg @ ?pre @ le_bytes 8 (of_nat (8 * length msg) :: u64)" by (simp add: rfc_pad_def)
    have "?u + length ?pre = 56" using True by simp
    then obtain c where c: "md5_body (overwrite 60 (OUT (m5_hi ctx)) (overwrite 56 (OUT (push_bit 3 (m5_lo ctx))) (overwrite ?u ?pre ?b))) 64
       (ctx\<lparr>m5_lo := push_bit 3 (m5_lo ctx), m5_buffer := overwrite 60 (OUT (m5_hi ctx)) (overwrite 56 (OUT (push_bit 3 (m5_lo ctx))) (overwrite ?u ?pre ?b))\<rparr>)
       = Some ([], c)" "m5_state c = rfc_blocks (rfc_pad msg) rfc_init"
      using last_block [OF assms, of ?pre] unfolding pad by blast
    have "64 - (?u + 1) - 8 = 55 - ?u" "\<not> 63 - ?u < 8" using True by simp_all
    then show ?thesis using True c(1) digest [OF c(2)] p by (simp add: md5_final_def u Let_def)
  next
    case False
    let ?pre = "0x80 # replicate (63 - ?u) (0 :: byte)" and ?z = "replicate 56 (0 :: byte)"
    have p: "overwrite (?u + 1) (replicate (63 - ?u) 0) (overwrite ?u [0x80] ?b) = overwrite ?u ?pre ?b"
      using overwrite_overwrite [of ?u "[0x80]" "replicate (63 - ?u) 0" ?b "?u + 1"] b \<open>?u < 64\<close> by simp
    have l: "?u + length ?pre = 64" using \<open>?u < 64\<close> by simp
    obtain c1 where c1: "md5_body (overwrite ?u ?pre ?b) 64 (ctx\<lparr>m5_buffer := overwrite ?u ?pre ?b\<rparr>) = Some ([], c1)"
        "holds (msg @ ?pre) c1" "m5_lo c1 = m5_lo ctx" "m5_hi c1 = m5_hi ctx"
      using fill_buffer [OF assms(1) l] by blast
    have m: "length (msg @ ?pre) mod 64 = 0" unfolding length_append [of msg ?pre] by (rule mod64(2) [OF l])
    have n: "(119 - ?u) mod 64 = 63 - ?u + 56" using False \<open>?u < 64\<close> by simp
    have pad: "rfc_pad msg = (msg @ ?pre) @ ?z @ le_bytes 8 (of_nat (8 * length msg) :: u64)"
      unfolding rfc_pad_def n replicate_add by simp
    have cnt: "counts (length msg) c1" using assms(2) c1(3,4) by (simp add: counts_def)
    have "length (msg @ ?pre) mod 64 + length ?z = 56" using m by simp
    then obtain c where c: "md5_body (overwrite 60 (OUT (m5_hi c1)) (overwrite 56 (OUT (push_bit 3 (m5_lo c1))) (overwrite 0 ?z (m5_buffer c1)))) 64
       (c1\<lparr>m5_lo := push_bit 3 (m5_lo c1), m5_buffer := overwrite 60 (OUT (m5_hi c1)) (overwrite 56 (OUT (push_bit 3 (m5_lo c1))) (overwrite 0 ?z (m5_buffer c1)))\<rparr>)
       = Some ([], c)" "m5_state c = rfc_blocks (rfc_pad msg) rfc_init"
      using last_block [OF c1(2) cnt, of ?z] unfolding m pad by blast
    have "64 - (?u + 1) = 63 - ?u" "63 - ?u < 8" using False by simp_all
    then show ?thesis using False c(1) c1(1) digest [OF c(2)] p by (simp add: md5_final_def u Let_def)
  qed
qed

fun md5_updates :: "byte list list \<Rightarrow> md5_context \<Rightarrow> md5_context option" where
  "md5_updates [] ctx = Some ctx"
| "md5_updates (d # ds) ctx = do { ctx \<leftarrow> md5_update d ctx; md5_updates ds ctx }"

lemma md5_updates_ok:
  assumes "holds msg ctx" "counts (length msg) ctx" "\<forall>d\<in>set ds. length d < 2 ^ 64"
  shows "\<exists>ctx'. md5_updates ds ctx = Some ctx' \<and> holds (msg @ concat ds) ctx' \<and> counts (length (msg @ concat ds)) ctx'"
  using assms
proof (induction ds arbitrary: msg ctx)
  case (Cons d ds)
  then obtain ctx1 where "md5_update d ctx = Some ctx1" "holds (msg @ d) ctx1" "counts (length (msg @ d)) ctx1"
    using md5_update_ok [OF Cons.prems(1,2), of d] by auto
  then show ?case using Cons.IH [of "msg @ d" ctx1] Cons.prems(3) by simp
qed simp

lemma holds_init: "length (m5_buffer ctx) = 64 \<Longrightarrow> holds [] (md5_init ctx) \<and> counts 0 (md5_init ctx)"
  by (simp add: holds_def counts_def whole_def md5_init_def m5_state_def rfc_init_def)

text \<open>
  C5: the digest of data that comes in any pieces, of any lengths, is the one RFC 1321 defines for all
  of it: the optimised functions, the unrolled rounds, the buffering of unfinished blocks, the
  padding and the length in two words, for a context with any old contents.
\<close>

theorem md5_rfc:
  assumes "length (m5_buffer ctx) = 64" "\<forall>d\<in>set ds. length d < 2 ^ 64"
  shows "Option.bind (md5_updates ds (md5_init ctx)) md5_final = Some (rfc_md5 (concat ds), zero_context)"
  using md5_updates_ok [of "[]" "md5_init ctx" ds] holds_init [OF assms(1)] assms(2) md5_final_ok by auto

theorem md5_rfc_witness:
  "Option.bind (md5_updates [ascii ''a'', [], ascii ''bc''] (md5_init zero_context)) md5_final = Some (rfc_md5 (ascii ''abc''), zero_context)"
  using md5_rfc [of zero_context "[ascii ''a'', [], ascii ''bc'']"] by (simp add: zero_context_def ascii_def)

end
