(* ===== verification/JsonWalk.thy ===== *)
theory JsonWalk
  imports Prelude
begin

text \<open>
  The JSON parser (\<^verbatim>\<open>json_walk\<close> and what it calls in \<^verbatim>\<open>lib_util/json_frozen.c\<close>). The text is the list
  \<open>t\<close> of the bytes that may be read, of which the first \<open>e\<close> are the JSON text; reading at or after
  \<open>length t\<close> is undefined. The pointer \<open>cur\<close> is an offset, \<open>path\<close> the buffer of 256 bytes with its
  length, and \<open>events\<close> are the calls of the callback, which is taken to be given, in order. The callback is given the path as a C
  string, of which an event holds the bytes of the buffer up to its length: where a key holds a
  byte 0, which only the trailing bytes of a UTF-8 character can be, the string ends there.

  Every function returns the code (negative for an error) with the state. The functions that
  call each other take the depth of nesting and the number of elements from a first argument.
\<close>

section \<open>State\<close>

datatype json_token_type =
    JSON_TYPE_INVALID | JSON_TYPE_STRING | JSON_TYPE_NUMBER | JSON_TYPE_TRUE | JSON_TYPE_FALSE | JSON_TYPE_NULL
  | JSON_TYPE_OBJECT_START | JSON_TYPE_OBJECT_END | JSON_TYPE_ARRAY_START | JSON_TYPE_ARRAY_END

definition JSON_STRING_INVALID :: int where "JSON_STRING_INVALID = -1"
definition JSON_STRING_INCOMPLETE :: int where "JSON_STRING_INCOMPLETE = -2"
definition JSON_MAX_PATH_LEN :: nat where "JSON_MAX_PATH_LEN = 256"

record json_token =
  tk_ptr :: "nat option"
  tk_len :: nat
  tk_type :: json_token_type

datatype name_ref = NullName | TextName nat | PathName nat

record event =
  ev_name :: "byte list option"
  ev_path :: "byte list"
  ev_token :: json_token

record frozen =
  cur_pos :: nat
  cur_name :: name_ref
  cur_name_len :: nat
  path_buf :: "byte list"
  path_len :: nat
  events :: "event list"

definition frozen_init :: frozen where
  "frozen_init = \<lparr>cur_pos = 0, cur_name = NullName, cur_name_len = 0,
     path_buf = replicate JSON_MAX_PATH_LEN 0, path_len = 0, events = []\<rparr>"

type_synonym outcome = "(int \<times> frozen) option"

definition try_step :: "outcome \<Rightarrow> (frozen \<Rightarrow> outcome) \<Rightarrow> outcome" where
  "try_step m k = (case m of None \<Rightarrow> None | Some (n, f) \<Rightarrow> if n < 0 then Some (n, f) else k f)"

definition rd :: "byte list \<Rightarrow> nat \<Rightarrow> byte option" where
  "rd t i = (if i < length t then Some (t ! i) else None)"

definition text_slice :: "byte list \<Rightarrow> nat \<Rightarrow> nat \<Rightarrow> byte list option" where
  "text_slice t off n = (if off + n \<le> length t then Some (slice off n t) else None)"

definition append_to_path :: "byte list \<Rightarrow> frozen \<Rightarrow> nat \<times> frozen" where
  "append_to_path str f =
     (let n = path_len f; left = JSON_MAX_PATH_LEN - n - 1; size = min (length str) left
      in (n, f\<lparr>path_buf := (overwrite n (take size str) (path_buf f))[n + size := 0],
               path_len := n + size\<rparr>))"

definition truncate_path :: "nat \<Rightarrow> frozen \<Rightarrow> frozen" where
  "truncate_path len f = f\<lparr>path_len := len, path_buf := (path_buf f)[len := 0]\<rparr>"

definition name_bytes :: "byte list \<Rightarrow> frozen \<Rightarrow> byte list option option" where
  "name_bytes t f = (case cur_name f of NullName \<Rightarrow> Some None
     | TextName off \<Rightarrow> map_option Some (text_slice t off (cur_name_len f))
     | PathName off \<Rightarrow> map_option Some (text_slice (path_buf f) off (cur_name_len f)))"

text \<open>
  A callback is given the path as a C string and the name with its length. The event keeps the \<open>path_len\<close> bytes of the
  path; what a callback sees of them ends at the first byte 0 (\<open>c_string\<close> in JsonClients).
\<close>

definition call_back :: "byte list \<Rightarrow> json_token_type \<Rightarrow> nat option \<Rightarrow> nat \<Rightarrow> frozen \<Rightarrow> outcome" where
  "call_back t tok value len f =
     (if path_len f = 0 \<or> path_buf f ! (path_len f - 1) \<noteq> ch_of CHR ''.'' then do {
        name \<leftarrow> name_bytes t f;
        Some (0, f\<lparr>events := events f @ [\<lparr>ev_name = name, ev_path = take (path_len f) (path_buf f),
                      ev_token = \<lparr>tk_ptr = value, tk_len = len, tk_type = tok\<rparr>\<rparr>],
                   cur_name := NullName, cur_name_len := 0\<rparr>)
      }
      else Some (0, f))"

section \<open>Characters\<close>

definition is_space :: "byte \<Rightarrow> bool" where
  "is_space ch \<longleftrightarrow> ch = ch_of CHR '' '' \<or> ch = 9 \<or> ch = 13 \<or> ch = 10"

definition is_alpha :: "byte \<Rightarrow> bool" where
  "is_alpha ch \<longleftrightarrow> ch_of CHR ''a'' \<le> ch \<and> ch \<le> ch_of CHR ''z'' \<or> ch_of CHR ''A'' \<le> ch \<and> ch \<le> ch_of CHR ''Z''"

definition is_digit :: "byte \<Rightarrow> bool" where
  "is_digit ch \<longleftrightarrow> ch_of CHR ''0'' \<le> ch \<and> ch \<le> ch_of CHR ''9''"

definition is_hex_digit :: "byte \<Rightarrow> bool" where
  "is_hex_digit ch \<longleftrightarrow> is_digit ch \<or> ch_of CHR ''a'' \<le> ch \<and> ch \<le> ch_of CHR ''f'' \<or>
     ch_of CHR ''A'' \<le> ch \<and> ch \<le> ch_of CHR ''F''"

definition get_utf8_char_len :: "byte \<Rightarrow> nat" where
  "get_utf8_char_len ch =
     (if ch AND 0x80 = 0 then 1
      else if ch AND 0xf0 = 0xf0 then 4
      else if ch AND 0xf0 = 0xe0 then 3
      else 2)"

text \<open>\<open>scan P t e i\<close> is the loop that steps over the characters of class \<open>P\<close>.\<close>

function scan :: "(byte \<Rightarrow> bool) \<Rightarrow> byte list \<Rightarrow> nat \<Rightarrow> nat \<Rightarrow> nat option" where
  "scan P t e i = (if i < e then do { ch \<leftarrow> rd t i; if P ch then scan P t e (i + 1) else Some i } else Some i)"
  by pat_completeness auto
termination by (relation "measure (\<lambda>(P, t, e, i). e - i)") auto

declare scan.simps [simp del]

definition skip_whitespaces :: "byte list \<Rightarrow> nat \<Rightarrow> frozen \<Rightarrow> frozen option" where
  "skip_whitespaces t e f = do { i \<leftarrow> scan is_space t e (cur_pos f); Some (f\<lparr>cur_pos := i\<rparr>) }"

text \<open>\<open>cur\<close>: the character after white space, \<open>None\<close> at the end of the text.\<close>

definition cur :: "byte list \<Rightarrow> nat \<Rightarrow> frozen \<Rightarrow> (byte option \<times> frozen) option" where
  "cur t e f = do {
     f \<leftarrow> skip_whitespaces t e f;
     if e \<le> cur_pos f then Some (None, f) else do { ch \<leftarrow> rd t (cur_pos f); Some (Some ch, f) }
   }"

definition end_or_invalid :: "byte option \<Rightarrow> int" where
  "end_or_invalid ch = (if ch = None then JSON_STRING_INCOMPLETE else JSON_STRING_INVALID)"

definition test_and_skip :: "byte list \<Rightarrow> nat \<Rightarrow> byte \<Rightarrow> frozen \<Rightarrow> outcome" where
  "test_and_skip t e expected f = do {
     (ch, f) \<leftarrow> cur t e f;
     Some (if ch = Some expected then (0, f\<lparr>cur_pos := cur_pos f + 1\<rparr>) else (end_or_invalid ch, f))
   }"

section \<open>Tokens\<close>

definition get_escape_len :: "byte list \<Rightarrow> nat \<Rightarrow> nat \<Rightarrow> int option" where
  "get_escape_len t s len = do {
     ch \<leftarrow> rd t s;
     if ch = ch_of CHR ''u'' then
       if len < 6 then Some JSON_STRING_INCOMPLETE
       else do {
         a \<leftarrow> rd t (s + 1); b \<leftarrow> rd t (s + 2); c \<leftarrow> rd t (s + 3); d \<leftarrow> rd t (s + 4);
         Some (if is_hex_digit a \<and> is_hex_digit b \<and> is_hex_digit c \<and> is_hex_digit d then 5 else JSON_STRING_INVALID)
       }
     else if ch = 34 \<or> ch = 92 \<or> ch = ch_of CHR ''/'' \<or> ch = ch_of CHR ''b'' \<or> ch = ch_of CHR ''f'' \<or>
         ch = ch_of CHR ''n'' \<or> ch = ch_of CHR ''r'' \<or> ch = ch_of CHR ''t'' then
       Some (if len < 2 then JSON_STRING_INCOMPLETE else 1)
     else Some JSON_STRING_INVALID
   }"

definition parse_identifier :: "byte list \<Rightarrow> nat \<Rightarrow> frozen \<Rightarrow> outcome" where
  "parse_identifier t e f = do {
     (ch, f) \<leftarrow> cur t e f;
     if \<not> (case ch of Some c \<Rightarrow> is_alpha c | None \<Rightarrow> False) then Some (JSON_STRING_INVALID, f)
     else do {
       let ptr = cur_pos f;
       let (len, f) = append_to_path [] f;
       i \<leftarrow> scan (\<lambda>c. c = ch_of CHR ''_'' \<or> is_alpha c \<or> is_digit c) t e (cur_pos f);
       let f = truncate_path len (f\<lparr>cur_pos := i\<rparr>);
       call_back t JSON_TYPE_STRING (Some ptr) (i - ptr) f
     }
   }"

text \<open>
  The loop over the characters of a string: a code and the place of the closing quote, or of the
  character where the error is found.
\<close>

function string_loop :: "byte list \<Rightarrow> nat \<Rightarrow> nat \<Rightarrow> (int \<times> nat) option" where
  "string_loop t e i =
     (if i < e then do {
        ch \<leftarrow> rd t i;
        let len = get_utf8_char_len ch;
        if \<not> (ch \<ge> 32 \<and> len > 0) then Some (JSON_STRING_INVALID, i)
        else if \<not> (len \<le> e - i) then Some (JSON_STRING_INCOMPLETE, i)
        else if ch = 92 then do {
          n \<leftarrow> get_escape_len t (i + 1) (e - i);
          if \<not> (n > 0) then Some (n, i) else string_loop t e (i + (len + nat n))
        }
        else if ch = 34 then Some (0, i)
        else string_loop t e (i + len)
      }
      else Some (JSON_STRING_INCOMPLETE, i))"
  by pat_completeness auto
termination
  by (relation "measure (\<lambda>(t, e, i). e - i)") (auto simp: get_utf8_char_len_def)

declare string_loop.simps [simp del]

definition parse_string :: "byte list \<Rightarrow> nat \<Rightarrow> frozen \<Rightarrow> outcome" where
  "parse_string t e f = try_step (test_and_skip t e 34 f) (\<lambda>f.
     let ptr = cur_pos f; (len, f) = append_to_path [] f
     in do {
       (n, i) \<leftarrow> string_loop t e (cur_pos f);
       let f = f\<lparr>cur_pos := i\<rparr>;
       if n \<noteq> 0 then Some (n, f)
       else try_step (call_back t JSON_TYPE_STRING (Some ptr) (i - ptr) (truncate_path len f))
              (\<lambda>f. Some (0, f\<lparr>cur_pos := cur_pos f + 1\<rparr>))
     })"

text \<open>At least one digit at \<open>i\<close>, and the place after the digits.\<close>

definition digits :: "byte list \<Rightarrow> nat \<Rightarrow> nat \<Rightarrow> (int \<times> nat) option" where
  "digits t e i =
     (if \<not> i < e then Some (JSON_STRING_INCOMPLETE, i)
      else do {
        c \<leftarrow> rd t i;
        if \<not> is_digit c then Some (JSON_STRING_INVALID, i)
        else do { j \<leftarrow> scan is_digit t e i; Some (0, j) }
      })"

definition fraction_part :: "byte list \<Rightarrow> nat \<Rightarrow> nat \<Rightarrow> (int \<times> nat) option" where
  "fraction_part t e i =
     (if i < e then do {
        c \<leftarrow> rd t i;
        if c = ch_of CHR ''.'' then digits t e (i + 1) else Some (0, i)
      }
      else Some (0, i))"

definition exponent_part :: "byte list \<Rightarrow> nat \<Rightarrow> nat \<Rightarrow> (int \<times> nat) option" where
  "exponent_part t e i =
     (if i < e then do {
        c \<leftarrow> rd t i;
        if c = ch_of CHR ''e'' \<or> c = ch_of CHR ''E'' then
          if \<not> i + 1 < e then Some (JSON_STRING_INCOMPLETE, i + 1)
          else do {
            s \<leftarrow> rd t (i + 1);
            digits t e (if s = ch_of CHR ''+'' \<or> s = ch_of CHR ''-'' then i + 2 else i + 1)
          }
        else Some (0, i)
      }
      else Some (0, i))"

definition number_end :: "byte list \<Rightarrow> nat \<Rightarrow> nat \<Rightarrow> (int \<times> nat) option" where
  "number_end t e i = do {
     (n, i) \<leftarrow> digits t e i;
     if n < 0 then Some (n, i) else do {
       (n, i) \<leftarrow> fraction_part t e i;
       if n < 0 then Some (n, i) else exponent_part t e i
     }
   }"

definition parse_number :: "byte list \<Rightarrow> nat \<Rightarrow> frozen \<Rightarrow> outcome" where
  "parse_number t e f = do {
     (ch, f) \<leftarrow> cur t e f;
     let ptr = cur_pos f;
     let (len, f) = append_to_path [] f;
     (n, i) \<leftarrow> number_end t e (if ch = Some (ch_of CHR ''-'') then cur_pos f + 1 else cur_pos f);
     let f = f\<lparr>cur_pos := i\<rparr>;
     if n < 0 then Some (n, f)
     else call_back t JSON_TYPE_NUMBER (Some ptr) (i - ptr) (truncate_path len f)
   }"

fun expect_loop :: "byte list \<Rightarrow> nat \<Rightarrow> nat \<Rightarrow> byte list \<Rightarrow> int option" where
  "expect_loop t e i [] = Some 0"
| "expect_loop t e i (c # s) =
     (if e \<le> i then Some JSON_STRING_INCOMPLETE
      else do { d \<leftarrow> rd t i; if d \<noteq> c then Some JSON_STRING_INVALID else expect_loop t e (i + 1) s })"

definition expect :: "byte list \<Rightarrow> nat \<Rightarrow> byte list \<Rightarrow> json_token_type \<Rightarrow> frozen \<Rightarrow> outcome" where
  "expect t e s tok_type f = do {
     let ptr = cur_pos f;
     let (len, f) = append_to_path [] f;
     n \<leftarrow> expect_loop t e (cur_pos f) s;
     if n < 0 then Some (n, f)
     else let f = truncate_path len (f\<lparr>cur_pos := cur_pos f + length s\<rparr>)
          in call_back t tok_type (Some ptr) (cur_pos f - ptr) f
   }"

definition parse_key :: "byte list \<Rightarrow> nat \<Rightarrow> frozen \<Rightarrow> outcome" where
  "parse_key t e f = do {
     (ch, f) \<leftarrow> cur t e f;
     if (case ch of Some c \<Rightarrow> is_alpha c | None \<Rightarrow> False) then parse_identifier t e f
     else if ch = Some 34 then parse_string t e f
     else Some (end_or_invalid ch, f)
   }"

section \<open>Values\<close>

text \<open>The part of \<open>parse_pair\<close> between the key, which starts at \<open>tok\<close>, and the colon.\<close>

definition name_pair :: "byte list \<Rightarrow> nat \<Rightarrow> frozen \<Rightarrow> (nat \<times> frozen) option" where
  "name_pair t tok f = do {
     c \<leftarrow> rd t tok;
     let off = (if c = 34 then tok + 1 else tok);
     let len = (if c = 34 then cur_pos f - tok - 2 else cur_pos f - tok);
     name \<leftarrow> text_slice t off len;
     Some (append_to_path name (f\<lparr>cur_name := TextName off, cur_name_len := len\<rparr>))
   }"

text \<open>\<^verbatim>\<open>strlen(f->path)\<close>: the place of the first byte 0 in the buffer, which a key may put before \<open>path_len\<close>.\<close>

definition path_strlen :: "frozen \<Rightarrow> nat option" where
  "path_strlen f = (if 0 \<in> set (path_buf f) then Some (length (takeWhile (\<lambda>c. c \<noteq> 0) (path_buf f))) else None)"

text \<open>
  The index that \<open>parse_array\<close> appends to the path; the name points at its digits. Stepping back over more
  bytes than the string has leaves the buffer.
\<close>

definition name_element :: "nat \<Rightarrow> frozen \<Rightarrow> (nat \<times> frozen) option" where
  "name_element i f =
     (let buf = ascii ''['' @ dec_nat i @ ascii '']''; (current_path_len, f) = append_to_path buf f
      in do {
        n \<leftarrow> path_strlen f;
        if n < length buf then None
        else Some (current_path_len, f\<lparr>cur_name := PathName (n - length buf + 1), cur_name_len := length buf - 2\<rparr>)
      })"

definition skip_comma :: "byte list \<Rightarrow> nat \<Rightarrow> frozen \<Rightarrow> outcome" where
  "skip_comma t e f = do {
     (ch, f) \<leftarrow> cur t e f;
     Some (0, if ch = Some (ch_of CHR '','') then f\<lparr>cur_pos := cur_pos f + 1\<rparr> else f)
   }"

text \<open>
  Values nest: \<open>pv\<close> is the parser of the values inside an array or object, and \<open>k\<close> bounds the number
  of elements; \<open>parse_value\<close> ties the knot for a depth \<open>d\<close> of nesting.
\<close>

primrec array_loop :: "nat \<Rightarrow> (frozen \<Rightarrow> outcome) \<Rightarrow> byte list \<Rightarrow> nat \<Rightarrow> nat \<Rightarrow> frozen \<Rightarrow> outcome" where
  "array_loop 0 pv t e i f = None"
| "array_loop (Suc k) pv t e i f = do {
     (ch, f) \<leftarrow> cur t e f;
     if ch = Some (ch_of CHR '']'') then Some (0, f)
     else do {
       (current_path_len, f) \<leftarrow> name_element i f;
       try_step (pv f) (\<lambda>f.
       try_step (skip_comma t e (truncate_path current_path_len f)) (array_loop k pv t e (i + 1)))
     }
   }"

definition parse_array :: "nat \<Rightarrow> (frozen \<Rightarrow> outcome) \<Rightarrow> byte list \<Rightarrow> nat \<Rightarrow> frozen \<Rightarrow> outcome" where
  "parse_array k pv t e f =
     try_step (call_back t JSON_TYPE_ARRAY_START None 0 f) (\<lambda>f.
     try_step (test_and_skip t e (ch_of CHR ''['') f) (\<lambda>f.
       let ptr = cur_pos f - 1; (len, f) = append_to_path [] f
       in try_step (array_loop k pv t e 0 f) (\<lambda>f.
          try_step (test_and_skip t e (ch_of CHR '']'') f) (\<lambda>f.
            let f = truncate_path len f in call_back t JSON_TYPE_ARRAY_END (Some ptr) (cur_pos f - ptr) f))))"

definition parse_pair :: "(frozen \<Rightarrow> outcome) \<Rightarrow> byte list \<Rightarrow> nat \<Rightarrow> frozen \<Rightarrow> outcome" where
  "parse_pair pv t e f = do {
     f \<leftarrow> skip_whitespaces t e f;
     let tok = cur_pos f;
     try_step (parse_key t e f) (\<lambda>f. do {
       (current_path_len, f) \<leftarrow> name_pair t tok f;
       try_step (test_and_skip t e (ch_of CHR '':'') f) (\<lambda>f.
       try_step (pv f) (\<lambda>f. Some (0, truncate_path current_path_len f)))
     })
   }"

primrec object_loop :: "nat \<Rightarrow> (frozen \<Rightarrow> outcome) \<Rightarrow> byte list \<Rightarrow> nat \<Rightarrow> frozen \<Rightarrow> outcome" where
  "object_loop 0 pv t e f = None"
| "object_loop (Suc k) pv t e f = do {
     (ch, f) \<leftarrow> cur t e f;
     if ch = Some (ch_of CHR ''}'') then Some (0, f)
     else try_step (parse_pair pv t e f) (\<lambda>f. try_step (skip_comma t e f) (object_loop k pv t e))
   }"

definition parse_object :: "nat \<Rightarrow> (frozen \<Rightarrow> outcome) \<Rightarrow> byte list \<Rightarrow> nat \<Rightarrow> frozen \<Rightarrow> outcome" where
  "parse_object k pv t e f =
     try_step (call_back t JSON_TYPE_OBJECT_START None 0 f) (\<lambda>f.
     try_step (test_and_skip t e (ch_of CHR ''{'') f) (\<lambda>f.
       let ptr = cur_pos f - 1; (len, f) = append_to_path (ascii ''.'') f
       in try_step (object_loop k pv t e f) (\<lambda>f.
          try_step (test_and_skip t e (ch_of CHR ''}'') f) (\<lambda>f.
            let f = truncate_path len f in call_back t JSON_TYPE_OBJECT_END (Some ptr) (cur_pos f - ptr) f))))"

primrec parse_value :: "nat \<Rightarrow> byte list \<Rightarrow> nat \<Rightarrow> frozen \<Rightarrow> outcome" where
  "parse_value 0 t e f = None"
| "parse_value (Suc d) t e f = do {
     (ch, f) \<leftarrow> cur t e f;
     (case ch of
        None \<Rightarrow> Some (JSON_STRING_INCOMPLETE, f)
      | Some c \<Rightarrow>
          if c = 34 then parse_string t e f
          else if c = ch_of CHR ''{'' then parse_object (Suc d) (parse_value d t e) t e f
          else if c = ch_of CHR ''['' then parse_array (Suc d) (parse_value d t e) t e f
          else if c = ch_of CHR ''n'' then expect t e (ascii ''null'') JSON_TYPE_NULL f
          else if c = ch_of CHR ''t'' then expect t e (ascii ''true'') JSON_TYPE_TRUE f
          else if c = ch_of CHR ''f'' then expect t e (ascii ''false'') JSON_TYPE_FALSE f
          else if c = ch_of CHR ''-'' \<or> is_digit c then parse_number t e f
          else Some (JSON_STRING_INVALID, f))
   }"

definition doit :: "byte list \<Rightarrow> nat \<Rightarrow> frozen \<Rightarrow> outcome" where
  "doit t e f = (if e = cur_pos f then Some (JSON_STRING_INCOMPLETE, f) else parse_value (e + 1) t e f)"

definition json_walk :: "byte list \<Rightarrow> nat \<Rightarrow> (int \<times> event list) option" where
  "json_walk t e = do {
     (n, f) \<leftarrow> doit t e frozen_init;
     Some (if n < 0 then n else int (cur_pos f), events f)
   }"

end
