(* ===== verification/JsonSafe.thy ===== *)
theory JsonSafe
  imports JsonWalk
begin

text \<open>
  The JSON parser returns on every text: with one readable byte after the text it never leaves it,
  never writes outside the path buffer, and every token of an event lies inside the text.
\<close>

section \<open>The invariant\<close>

definition event_ok :: "nat \<Rightarrow> event \<Rightarrow> bool" where
  "event_ok e ev \<longleftrightarrow> length (ev_path ev) < JSON_MAX_PATH_LEN \<and>
     (case tk_ptr (ev_token ev) of None \<Rightarrow> tk_len (ev_token ev) = 0 | Some p \<Rightarrow> p + tk_len (ev_token ev) \<le> e)"

definition name_ok :: "byte list \<Rightarrow> frozen \<Rightarrow> bool" where
  "name_ok t f \<longleftrightarrow> (case cur_name f of NullName \<Rightarrow> True | TextName off \<Rightarrow> off + cur_name_len f \<le> length t
     | PathName off \<Rightarrow> off + cur_name_len f \<le> JSON_MAX_PATH_LEN)"

definition walk_inv :: "byte list \<Rightarrow> nat \<Rightarrow> frozen \<Rightarrow> bool" where
  "walk_inv t e f \<longleftrightarrow> cur_pos f \<le> e \<and> length (path_buf f) = JSON_MAX_PATH_LEN \<and> path_len f < JSON_MAX_PATH_LEN \<and>
     name_ok t f \<and> list_all (event_ok e) (events f) \<and>
     0 \<notin> set (take (path_len f) (path_buf f)) \<and> path_buf f ! path_len f = 0 \<and> 0 \<notin> set (take e t)"

definition returns :: "nat \<Rightarrow> (frozen \<Rightarrow> bool) \<Rightarrow> outcome \<Rightarrow> bool" where
  "returns e Q m \<longleftrightarrow> (\<exists>n f. m = Some (n, f) \<and> list_all (event_ok e) (events f) \<and>
     (n = JSON_STRING_INVALID \<or> n = JSON_STRING_INCOMPLETE \<or> n = 0 \<and> Q f))"

lemmas codes = JSON_STRING_INVALID_def JSON_STRING_INCOMPLETE_def

lemma returns_try:
  assumes "returns e Q m" "\<And>f. Q f \<Longrightarrow> returns e R (k f)"
  shows "returns e R (try_step m k)"
  using assms by (auto simp: returns_def try_step_def codes)

lemma returns_mono: "returns e Q m \<Longrightarrow> (\<And>f. Q f \<Longrightarrow> R f) \<Longrightarrow> returns e R m"
  by (auto simp: returns_def)

lemma returns_ok: "walk_inv t e f \<Longrightarrow> Q f \<Longrightarrow> returns e Q (Some (0, f))"
  by (auto simp: returns_def walk_inv_def)

lemma returns_error:
  "walk_inv t e f \<Longrightarrow> n = JSON_STRING_INVALID \<or> n = JSON_STRING_INCOMPLETE \<Longrightarrow> returns e Q (Some (n, f))"
  by (auto simp: returns_def walk_inv_def)

lemma end_or_invalid_code: "end_or_invalid ch = JSON_STRING_INVALID \<or> end_or_invalid ch = JSON_STRING_INCOMPLETE"
  by (simp add: end_or_invalid_def)

section \<open>The path\<close>

lemma append_to_path_inv:
  assumes "walk_inv t e f" "append_to_path str f = (n, f')" "0 \<notin> set str"
  shows "walk_inv t e f'" "n = path_len f" "cur_pos f' = cur_pos f"
    "path_len f' = path_len f + min (length str) (JSON_MAX_PATH_LEN - path_len f - 1)"
    "cur_name f' = cur_name f" "cur_name_len f' = cur_name_len f"
proof -
  show *: "n = path_len f" "cur_pos f' = cur_pos f"
    "path_len f' = path_len f + min (length str) (JSON_MAX_PATH_LEN - path_len f - 1)"
    "cur_name f' = cur_name f" "cur_name_len f' = cur_name_len f"
    using assms(2) by (auto simp: append_to_path_def Let_def)
  have "length (path_buf f') = length (path_buf f)" "events f' = events f"
    using assms by (auto simp: append_to_path_def Let_def walk_inv_def)
  moreover have "take (path_len f') (path_buf f') =
      take (path_len f) (path_buf f) @ take (min (length str) (JSON_MAX_PATH_LEN - path_len f - 1)) str" "path_buf f' ! path_len f' = 0"
  proof -
    let ?k = "min (length str) (JSON_MAX_PATH_LEN - path_len f - 1)"
    have l: "path_len f \<le> length (path_buf f)" "path_len f + ?k < length (path_buf f)" using assms(1) by (auto simp: walk_inv_def)
    have f': "path_buf f' = (overwrite (path_len f) (take ?k str) (path_buf f))[path_len f + ?k := 0]" "path_len f' = path_len f + ?k"
      using assms(2) by (auto simp: append_to_path_def Let_def)
    have "length (take ?k str) = ?k" by simp
    with take_overwrite_end [OF l(1), of "take ?k str"]
    show "take (path_len f') (path_buf f') = take (path_len f) (path_buf f) @ take ?k str"
      unfolding f' by (simp only: take_update_cancel [OF order_refl])
    show "path_buf f' ! path_len f' = 0" unfolding f' using l by (simp add: buf_simps)
  qed
  moreover have "0 \<notin> set (take k str)" for k using assms(3) by (meson in_set_takeD)
  ultimately show "walk_inv t e f'"
    using assms(1) * by (auto simp: walk_inv_def name_ok_def split: name_ref.splits)
qed

lemma truncate_path_inv:
  "walk_inv t e f \<Longrightarrow> len \<le> path_len f \<Longrightarrow> walk_inv t e (truncate_path len f)"
  "cur_pos (truncate_path len f) = cur_pos f" "path_len (truncate_path len f) = len"
proof -
  show "walk_inv t e (truncate_path len f)" if "walk_inv t e f" "len \<le> path_len f"
  proof -
    have "set (take len (path_buf f)) \<subseteq> set (take (path_len f) (path_buf f))" by (rule set_take_subset_set_take [OF that(2)])
    then show ?thesis using that by (auto simp: truncate_path_def walk_inv_def name_ok_def split: name_ref.splits)
  qed
qed (simp_all add: truncate_path_def)

lemma set_cur_inv: "walk_inv t e f \<Longrightarrow> i \<le> e \<Longrightarrow> walk_inv t e (f\<lparr>cur_pos := i\<rparr>)"
  by (auto simp: walk_inv_def name_ok_def split: name_ref.splits)

lemma path_len_less: "walk_inv t e f \<Longrightarrow> path_len f < JSON_MAX_PATH_LEN"
  by (simp add: walk_inv_def)

lemma call_back_returns:
  assumes "walk_inv t e f" "case ptr of None \<Rightarrow> len = 0 | Some p \<Rightarrow> p + len \<le> e"
  shows "returns e (\<lambda>f'. walk_inv t e f' \<and> cur_pos f' = cur_pos f \<and> path_len f' = path_len f) (call_back t tok ptr len f)"
proof -
  have l: "path_len f < JSON_MAX_PATH_LEN" "length (path_buf f) = JSON_MAX_PATH_LEN" and n: "name_ok t f"
    using assms(1) by (auto simp: walk_inv_def)
  obtain name where "name_bytes t f = Some name"
    using n l by (cases "cur_name f") (auto simp: name_bytes_def name_ok_def text_slice_def)
  then show ?thesis
    using assms l by (cases ptr) (auto simp: returns_def call_back_def walk_inv_def name_ok_def event_ok_def min_def)
qed

section \<open>Characters\<close>

lemma scan_returns:
  assumes "e \<le> length t" "i \<le> e"
  obtains j where "scan P t e i = Some j" "i \<le> j" "j \<le> e" "j < e \<Longrightarrow> \<not> P (t ! j)" "\<forall>k. i \<le> k \<and> k < j \<longrightarrow> P (t ! k)"
  using assms
proof (induction P t e i arbitrary: thesis rule: scan.induct)
  case (1 P t e i)
  show ?case
  proof (cases "i < e \<and> P (t ! i)")
    case True
    then have "rd t i = Some (t ! i)" using 1(3) by (simp add: rd_def)
    moreover obtain j where "scan P t e (i + 1) = Some j" "i + 1 \<le> j" "j \<le> e" "j < e \<Longrightarrow> \<not> P (t ! j)"
        "\<forall>k. i + 1 \<le> k \<and> k < j \<longrightarrow> P (t ! k)"
      using 1(1) [of "t ! i"] True calculation 1(3) by (metis Suc_eq_plus1 Suc_leI)
    moreover from this have "P (t ! k)" if "i \<le> k" "k < j" for k
      using True that by (cases "i = k") auto
    ultimately show ?thesis
      using True by (intro 1(2) [of j]) (auto simp: scan.simps [of P t e i])
  next
    case False
    then show ?thesis
      using 1(3,4) by (intro 1(2) [of i]) (auto simp: scan.simps [of P t e i] rd_def)
  qed
qed

lemma scan_stop: "(i < e \<Longrightarrow> i < length t \<and> \<not> P (t ! i)) \<Longrightarrow> scan P t e i = Some i"
  by (auto simp: scan.simps [of P t e i] rd_def)

lemma cur_returns:
  assumes "walk_inv t e f" "e \<le> length t"
  obtains j where "cur t e f = Some (if j < e then Some (t ! j) else None, f\<lparr>cur_pos := j\<rparr>)"
    "skip_whitespaces t e f = Some (f\<lparr>cur_pos := j\<rparr>)"
    "cur_pos f \<le> j" "j \<le> e" "walk_inv t e (f\<lparr>cur_pos := j\<rparr>)" "j < e \<Longrightarrow> \<not> is_space (t ! j)"
proof -
  have "cur_pos f \<le> e" using assms(1) by (simp add: walk_inv_def)
  from scan_returns [OF assms(2) this, of is_space] obtain j where
    j: "scan is_space t e (cur_pos f) = Some j" "cur_pos f \<le> j" "j \<le> e" "j < e \<Longrightarrow> \<not> is_space (t ! j)" by blast
  show thesis
    using j assms by (intro that [of j]) (auto simp: cur_def skip_whitespaces_def rd_def set_cur_inv)
qed

lemma cur_at:
  assumes "e \<le> length t" "cur_pos f < e" "\<not> is_space (t ! cur_pos f)"
  shows "cur t e f = Some (Some (t ! cur_pos f), f)" "skip_whitespaces t e f = Some f"
  using assms by (auto simp: cur_def skip_whitespaces_def scan_stop rd_def)

lemma cur_end: "cur_pos f = e \<Longrightarrow> cur t e f = Some (None, f)"
  by (simp add: cur_def skip_whitespaces_def scan_stop)

lemma test_and_skip_returns:
  assumes "walk_inv t e f" "e \<le> length t"
  shows "returns e (\<lambda>f'. walk_inv t e f' \<and> cur_pos f < cur_pos f' \<and> path_len f' = path_len f \<and>
    t ! (cur_pos f' - 1) = c \<and> (\<forall>j. skip_whitespaces t e f = Some (f\<lparr>cur_pos := j\<rparr>) \<longrightarrow> cur_pos f' = j + 1)) (test_and_skip t e c f)"
proof -
  from assms obtain j where j: "cur t e f = Some (if j < e then Some (t ! j) else None, f\<lparr>cur_pos := j\<rparr>)"
    "skip_whitespaces t e f = Some (f\<lparr>cur_pos := j\<rparr>)" "cur_pos f \<le> j" "j \<le> e" "walk_inv t e (f\<lparr>cur_pos := j\<rparr>)"
    by (rule cur_returns) blast
  show ?thesis
  proof (cases "j < e \<and> t ! j = c")
    case True
    have "f\<lparr>cur_pos := j\<rparr> = f\<lparr>cur_pos := j'\<rparr> \<Longrightarrow> j = j'" for j'
      by (metis frozen.select_convs(1) frozen.surjective frozen.update_convs(1))
    then show ?thesis
      using True j set_cur_inv [OF assms(1), of "j + 1"]
      by (auto simp: test_and_skip_def intro!: returns_ok)
  next
    case False
    then show ?thesis
      using j end_or_invalid_code by (auto simp: test_and_skip_def intro!: returns_error)
  qed
qed

section \<open>Tokens\<close>

lemma utf8_len: "0 < get_utf8_char_len ch" "get_utf8_char_len 92 = 1" "get_utf8_char_len 34 = 1"
  by (simp_all add: get_utf8_char_len_def)

lemma get_escape_len_returns:
  assumes "s < length t" "s + len \<le> length t + 1"
  shows "\<exists>n. get_escape_len t s len = Some n \<and>
    (n = JSON_STRING_INVALID \<or> n = JSON_STRING_INCOMPLETE \<or> 0 < n \<and> nat n + 1 \<le> len)"
  using assms by (auto simp: get_escape_len_def rd_def codes)

lemma string_loop_end: "\<not> i < e \<Longrightarrow> string_loop t e i = Some (JSON_STRING_INCOMPLETE, i)"
  by (subst string_loop.simps) simp

lemma string_loop_plain:
  assumes "i < e" "i < length t" "t ! i \<ge> 32" "get_utf8_char_len (t ! i) \<le> e - i" "t ! i \<noteq> 92" "t ! i \<noteq> 34"
  shows "string_loop t e i = string_loop t e (i + get_utf8_char_len (t ! i))"
  using assms utf8_len(1) [of "t ! i"] by (subst string_loop.simps) (simp add: rd_def Let_def)

lemma string_loop_quote:
  assumes "i < e" "i < length t" "t ! i = 34"
  shows "string_loop t e i = Some (0, i)"
  using assms by (subst string_loop.simps) (simp add: rd_def Let_def utf8_len Suc_le_eq)

lemma string_loop_escape:
  assumes "i < e" "i < length t" "t ! i = 92" "get_escape_len t (i + 1) (e - i) = Some n"
  shows "string_loop t e i = (if 0 < n then string_loop t e (i + (1 + nat n)) else Some (n, i))"
  using assms by (subst string_loop.simps) (simp add: rd_def Let_def utf8_len Suc_le_eq)

lemma string_loop_returns:
  assumes "e < length t" "i \<le> e"
  shows "\<exists>n j. string_loop t e i = Some (n, j) \<and> i \<le> j \<and> j \<le> e \<and>
    (n = JSON_STRING_INVALID \<or> n = JSON_STRING_INCOMPLETE \<or> n = 0 \<and> j < e)"
  using assms
proof (induction t e i rule: string_loop.induct)
  case (1 t e i)
  show ?case
  proof (cases "i < e")
    case False
    then have "string_loop t e i = Some (JSON_STRING_INCOMPLETE, i)"
      by (subst string_loop.simps) simp
    then show ?thesis using 1(4) by simp
  next
    case True
    let ?ch = "t ! i" and ?len = "get_utf8_char_len (t ! i)"
    have t: "i < length t" using True 1(3) by simp
    have r: "rd t i = Some ?ch" using t by (simp add: rd_def)
    consider (bad) "\<not> ?ch \<ge> 32" | (short) "?ch \<ge> 32" "\<not> ?len \<le> e - i"
      | (esc) "?ch = 92" "?len \<le> e - i" | (quote) "?ch = 34"
      | (plain) "?ch \<ge> 32" "?len \<le> e - i" "?ch \<noteq> 92" "?ch \<noteq> 34"
      by blast
    then show ?thesis
    proof cases
      case bad
      then have "string_loop t e i = Some (JSON_STRING_INVALID, i)"
        using True r by (subst string_loop.simps) (simp add: Let_def)
      then show ?thesis using True by simp
    next
      case short
      then have "string_loop t e i = Some (JSON_STRING_INCOMPLETE, i)"
        using True r utf8_len(1) [of ?ch] by (subst string_loop.simps) (simp add: Let_def)
      then show ?thesis using True by simp
    next
      case esc
      obtain n where n: "get_escape_len t (i + 1) (e - i) = Some n"
          "n = JSON_STRING_INVALID \<or> n = JSON_STRING_INCOMPLETE \<or> 0 < n \<and> nat n + 1 \<le> e - i"
        using get_escape_len_returns [of "i + 1" t "e - i"] True 1(3) by auto
      show ?thesis
      proof (cases "0 < n")
        case True
        have "\<exists>m j. string_loop t e (i + (?len + nat n)) = Some (m, j) \<and> i + (?len + nat n) \<le> j \<and> j \<le> e \<and>
            (m = JSON_STRING_INVALID \<or> m = JSON_STRING_INCOMPLETE \<or> m = 0 \<and> j < e)"
          using \<open>i < e\<close> r esc True n utf8_len 1(3) by (intro 1(1)) (auto simp: codes)
        then show ?thesis
          using string_loop_escape [OF \<open>i < e\<close> t esc(1) n(1)] True esc(1) by (auto simp: utf8_len)
      next
        case False
        then show ?thesis
          using string_loop_escape [OF \<open>i < e\<close> t esc(1) n(1)] n(2) \<open>i < e\<close> by auto
      qed
    next
      case quote
      then show ?thesis using True string_loop_quote [OF True t] by simp
    next
      case plain
      have "\<exists>m j. string_loop t e (i + ?len) = Some (m, j) \<and> i + ?len \<le> j \<and> j \<le> e \<and>
          (m = JSON_STRING_INVALID \<or> m = JSON_STRING_INCOMPLETE \<or> m = 0 \<and> j < e)"
        using True r plain utf8_len 1(3) by (intro 1(2)) auto
      then show ?thesis
        unfolding string_loop_plain [OF True t plain(1,2,3,4)] by fastforce
    qed
  qed
qed

text \<open>A token starts at the next character that is not white space and is not empty.\<close>

definition token_at :: "byte list \<Rightarrow> nat \<Rightarrow> nat \<Rightarrow> frozen \<Rightarrow> frozen \<Rightarrow> bool" where
  "token_at t e k f f' \<longleftrightarrow> walk_inv t e f' \<and> cur_pos f + k \<le> cur_pos f' \<and> path_len f' = path_len f"

lemma parse_string_returns:
  assumes "walk_inv t e f" "e < length t"
  shows "returns e (token_at t e 2 f) (parse_string t e f)"
proof -
  have step: "returns e (token_at t e 2 f) (
      let ptr = cur_pos g; (len, g) = append_to_path [] g
      in do {
       (n, i) \<leftarrow> string_loop t e (cur_pos g);
       let g = g\<lparr>cur_pos := i\<rparr>;
       if n \<noteq> 0 then Some (n, g)
       else try_step (call_back t JSON_TYPE_STRING (Some ptr) (i - ptr) (truncate_path len g))
              (\<lambda>f. Some (0, f\<lparr>cur_pos := cur_pos f + 1\<rparr>))
     })" if g: "walk_inv t e g" "cur_pos f < cur_pos g" "path_len g = path_len f" for g
  proof -
    obtain len h where h: "append_to_path [] g = (len, h)" by fastforce
    note a = append_to_path_inv [OF g(1) h, simplified]
    have "cur_pos h \<le> e" using a(1) by (simp add: walk_inv_def)
    then obtain n i where l: "string_loop t e (cur_pos h) = Some (n, i)" "cur_pos h \<le> i" "i \<le> e"
        "n = JSON_STRING_INVALID \<or> n = JSON_STRING_INCOMPLETE \<or> n = 0 \<and> i < e"
      using string_loop_returns [OF assms(2)] by blast
    have inv: "walk_inv t e (h\<lparr>cur_pos := i\<rparr>)" by (rule set_cur_inv [OF a(1) l(3)])
    have len: "len \<le> path_len (h\<lparr>cur_pos := i\<rparr>)" using a(2,4) by simp
    show ?thesis
    proof (cases "n = 0")
      case False
      then show ?thesis using l h inv by (auto simp: intro!: returns_error)
    next
      case True
      then have i: "i < e" using l(4) by (auto simp: codes)
      have "returns e (token_at t e 2 f) (try_step
          (call_back t JSON_TYPE_STRING (Some (cur_pos g)) (i - cur_pos g) (truncate_path len (h\<lparr>cur_pos := i\<rparr>)))
          (\<lambda>f. Some (0, f\<lparr>cur_pos := cur_pos f + 1\<rparr>)))"
      proof (rule returns_try [OF call_back_returns [OF truncate_path_inv(1) [OF inv len]]])
        show "case Some (cur_pos g) of None \<Rightarrow> i - cur_pos g = 0 | Some p \<Rightarrow> p + (i - cur_pos g) \<le> e"
          using l(2,3) a(3) by simp
      next
        fix f' assume "walk_inv t e f' \<and> cur_pos f' = cur_pos (truncate_path len (h\<lparr>cur_pos := i\<rparr>)) \<and>
            path_len f' = path_len (truncate_path len (h\<lparr>cur_pos := i\<rparr>))"
        then show "returns e (token_at t e 2 f) (Some (0, f'\<lparr>cur_pos := cur_pos f' + 1\<rparr>))"
          using i l(2) a(2,3) g(2,3) set_cur_inv [of t e f' "cur_pos f' + 1"]
          by (auto simp: truncate_path_inv token_at_def intro!: returns_ok)
      qed
      then show ?thesis using True l(1) h by (simp add: Let_def)
    qed
  qed
  show ?thesis
    unfolding parse_string_def
    by (rule returns_try [OF test_and_skip_returns [OF assms(1) less_imp_le [OF assms(2)]]]) (use step in blast)
qed

lemma digits_returns:
  assumes "e \<le> length t" "i \<le> e"
  shows "\<exists>n j. digits t e i = Some (n, j) \<and> i \<le> j \<and> j \<le> e \<and>
    (n = JSON_STRING_INVALID \<or> n = JSON_STRING_INCOMPLETE \<or> n = 0 \<and> i < j)"
proof (cases "i < e \<and> is_digit (t ! i)")
  case True
  then obtain j where "scan is_digit t e i = Some j" "i \<le> j" "j \<le> e" "j < e \<Longrightarrow> \<not> is_digit (t ! j)"
    using scan_returns [OF assms, of is_digit] by blast
  moreover from this True have "i < j" by (cases "i = j") auto
  ultimately show ?thesis
    using True assms by (auto simp: digits_def rd_def)
next
  case False
  then show ?thesis using assms by (auto simp: digits_def rd_def)
qed

lemma fraction_part_returns:
  assumes "e \<le> length t" "i \<le> e"
  shows "\<exists>n j. fraction_part t e i = Some (n, j) \<and> i \<le> j \<and> j \<le> e \<and>
    (n = JSON_STRING_INVALID \<or> n = JSON_STRING_INCOMPLETE \<or> n = 0)"
proof (cases "i < e \<and> t ! i = ch_of CHR ''.''")
  case True
  then show ?thesis
    using digits_returns [OF assms(1), of "i + 1"] assms by (auto simp: fraction_part_def rd_def)
next
  case False
  then show ?thesis using assms by (auto simp: fraction_part_def rd_def)
qed

lemma exponent_part_returns:
  assumes "e \<le> length t" "i \<le> e"
  shows "\<exists>n j. exponent_part t e i = Some (n, j) \<and> i \<le> j \<and> j \<le> e \<and>
    (n = JSON_STRING_INVALID \<or> n = JSON_STRING_INCOMPLETE \<or> n = 0)"
proof (cases "i + 1 < e \<and> (t ! i = ch_of CHR ''e'' \<or> t ! i = ch_of CHR ''E'')")
  case True
  then show ?thesis
    using digits_returns [OF assms(1), of "i + 1"] digits_returns [OF assms(1), of "i + 2"] assms
    by (auto simp: exponent_part_def rd_def)
next
  case False
  then show ?thesis using assms by (auto simp: exponent_part_def rd_def)
qed

lemma number_end_returns:
  assumes "e \<le> length t" "i \<le> e"
  shows "\<exists>n j. number_end t e i = Some (n, j) \<and> i \<le> j \<and> j \<le> e \<and>
    (n = JSON_STRING_INVALID \<or> n = JSON_STRING_INCOMPLETE \<or> n = 0 \<and> i < j)"
proof -
  obtain n j where 1: "digits t e i = Some (n, j)" "i \<le> j" "j \<le> e"
      "n = JSON_STRING_INVALID \<or> n = JSON_STRING_INCOMPLETE \<or> n = 0 \<and> i < j"
    using digits_returns [OF assms] by blast
  obtain n' j' where 2: "fraction_part t e j = Some (n', j')" "j \<le> j'" "j' \<le> e"
      "n' = JSON_STRING_INVALID \<or> n' = JSON_STRING_INCOMPLETE \<or> n' = 0"
    using fraction_part_returns [OF assms(1) 1(3)] by blast
  obtain n'' j'' where 3: "exponent_part t e j' = Some (n'', j'')" "j' \<le> j''" "j'' \<le> e"
      "n'' = JSON_STRING_INVALID \<or> n'' = JSON_STRING_INCOMPLETE \<or> n'' = 0"
    using exponent_part_returns [OF assms(1) 2(3)] by blast
  show ?thesis
    using 1 2 3 by (auto simp: number_end_def codes)
qed

lemma parse_number_returns:
  assumes "walk_inv t e f" "e < length t" "cur_pos f < e" "\<not> is_space (t ! cur_pos f)"
  shows "returns e (token_at t e 1 f) (parse_number t e f)"
proof -
  obtain len h where h: "append_to_path [] f = (len, h)" by fastforce
  note a = append_to_path_inv [OF assms(1) h, simplified]
  have c: "cur t e f = Some (Some (t ! cur_pos f), f)"
    using cur_at assms by simp
  define i where "i = (if t ! cur_pos f = ch_of CHR ''-'' then cur_pos h + 1 else cur_pos h)"
  have i: "cur_pos f \<le> i" "i \<le> e" using assms(3) a(3) by (auto simp: i_def)
  obtain n j where j: "number_end t e i = Some (n, j)" "i \<le> j" "j \<le> e"
      "n = JSON_STRING_INVALID \<or> n = JSON_STRING_INCOMPLETE \<or> n = 0 \<and> i < j"
    using number_end_returns [of e t i] assms(2) i by auto
  have inv: "walk_inv t e (h\<lparr>cur_pos := j\<rparr>)" by (rule set_cur_inv [OF a(1) j(3)])
  have len: "len \<le> path_len (h\<lparr>cur_pos := j\<rparr>)" using a(2,4) by simp
  have eq: "parse_number t e f = (if n < 0 then Some (n, h\<lparr>cur_pos := j\<rparr>)
      else call_back t JSON_TYPE_NUMBER (Some (cur_pos f)) (j - cur_pos f) (truncate_path len (h\<lparr>cur_pos := j\<rparr>)))"
    using j(1) by (cases "t ! cur_pos f = ch_of CHR ''-''") (simp_all add: parse_number_def c h i_def Let_def)
  show ?thesis
  proof (cases "n = 0")
    case True
    have "returns e (token_at t e 1 f)
        (call_back t JSON_TYPE_NUMBER (Some (cur_pos f)) (j - cur_pos f) (truncate_path len (h\<lparr>cur_pos := j\<rparr>)))"
      by (rule returns_mono [OF call_back_returns [OF truncate_path_inv(1) [OF inv len]]])
        (use True i j a(2,3) in \<open>auto simp: truncate_path_inv token_at_def codes\<close>)
    then show ?thesis using True eq by simp
  next
    case False
    then show ?thesis using j(4) inv eq by (auto simp: codes intro!: returns_error)
  qed
qed

lemma expect_loop_returns:
  assumes "e \<le> length t"
  shows "\<exists>n. expect_loop t e i s = Some n \<and>
    (n = JSON_STRING_INVALID \<or> n = JSON_STRING_INCOMPLETE \<or> n = 0 \<and> (s \<noteq> [] \<longrightarrow> i + length s \<le> e))"
  using assms
proof (induction s arbitrary: i)
  case (Cons c s)
  then show ?case
    using Cons.IH [of "i + 1"] by (cases s) (auto simp: rd_def)
qed simp

lemma expect_returns:
  assumes "walk_inv t e f" "e < length t" "s \<noteq> []"
  shows "returns e (token_at t e 1 f) (expect t e s tok f)"
proof -
  obtain len h where h: "append_to_path [] f = (len, h)" by fastforce
  note a = append_to_path_inv [OF assms(1) h, simplified]
  obtain n where n: "expect_loop t e (cur_pos h) s = Some n"
      "n = JSON_STRING_INVALID \<or> n = JSON_STRING_INCOMPLETE \<or> n = 0 \<and> cur_pos h + length s \<le> e"
    using expect_loop_returns [of e t "cur_pos h" s] assms by auto
  have len: "len \<le> path_len (h\<lparr>cur_pos := cur_pos h + length s\<rparr>)" using a(2,4) by simp
  define g where "g = truncate_path len (h\<lparr>cur_pos := cur_pos h + length s\<rparr>)"
  have eq: "expect t e s tok f = (if n < 0 then Some (n, h) else call_back t tok (Some (cur_pos f)) (cur_pos g - cur_pos f) g)"
    by (simp add: expect_def h n(1) Let_def g_def)
  show ?thesis
  proof (cases "n = 0")
    case True
    then have "walk_inv t e g"
      using n(2) a(1) len unfolding g_def by (intro truncate_path_inv set_cur_inv) (auto simp: codes)
    then have "returns e (token_at t e 1 f) (call_back t tok (Some (cur_pos f)) (cur_pos g - cur_pos f) g)"
      by (intro returns_mono [OF call_back_returns])
        (use True n(2) a(2,3) assms(3) in \<open>auto simp: truncate_path_inv token_at_def codes g_def Suc_le_eq\<close>)
    then show ?thesis using True eq by simp
  next
    case False
    then show ?thesis using n(2) a(1) eq by (auto simp: codes intro!: returns_error)
  qed
qed

section \<open>Keys\<close>

lemma is_alpha_facts: "is_alpha c \<Longrightarrow> \<not> is_space c \<and> c \<noteq> 34 \<and> c \<noteq> 92 \<and> 32 \<le> c"
  by (auto simp: is_alpha_def is_space_def word_le_nat_alt dest: arg_cong [of c _ unat])

lemma parse_identifier_returns:
  assumes "walk_inv t e f" "e < length t" "cur_pos f < e" "is_alpha (t ! cur_pos f)"
  shows "returns e (token_at t e 1 f) (parse_identifier t e f)"
proof -
  let ?P = "\<lambda>c. c = ch_of CHR ''_'' \<or> is_alpha c \<or> is_digit c"
  obtain len h where h: "append_to_path [] f = (len, h)" by fastforce
  note a = append_to_path_inv [OF assms(1) h, simplified]
  have c: "cur t e f = Some (Some (t ! cur_pos f), f)"
    using cur_at assms is_alpha_facts by simp
  obtain j where j: "scan ?P t e (cur_pos h) = Some j" "cur_pos h \<le> j" "j \<le> e" "j < e \<Longrightarrow> \<not> ?P (t ! j)"
    using scan_returns [of e t "cur_pos h" ?P] assms(2,3) a(3) by auto
  have less: "cur_pos f < j"
    using j(2,4) assms(3,4) a(3) by (cases "cur_pos f = j") auto
  have inv: "walk_inv t e (truncate_path len (h\<lparr>cur_pos := j\<rparr>))"
    using set_cur_inv [OF a(1) j(3)] a(2,4) by (intro truncate_path_inv) simp_all
  have eq: "parse_identifier t e f = call_back t JSON_TYPE_STRING (Some (cur_pos f)) (j - cur_pos f) (truncate_path len (h\<lparr>cur_pos := j\<rparr>))"
    using j(1) assms(4) by (simp add: parse_identifier_def c h Let_def)
  show ?thesis
    unfolding eq
    by (rule returns_mono [OF call_back_returns [OF inv]])
      (use less j a(2,3) in \<open>auto simp: truncate_path_inv token_at_def\<close>)
qed

lemma parse_key_returns:
  assumes "walk_inv t e f" "e < length t" "cur_pos f = e \<or> \<not> is_space (t ! cur_pos f)"
  shows "returns e (\<lambda>f'. cur_pos f < e \<and> token_at t e (if t ! cur_pos f = 34 then 2 else 1) f f') (parse_key t e f)"
proof (cases "cur_pos f = e")
  case True
  then show ?thesis
    using assms(1) end_or_invalid_code by (auto simp: parse_key_def cur_end intro!: returns_error)
next
  case False
  then have l: "cur_pos f < e" "\<not> is_space (t ! cur_pos f)" using assms by (auto simp: walk_inv_def)
  then have c: "cur t e f = Some (Some (t ! cur_pos f), f)"
    using cur_at assms(2) by simp
  consider "is_alpha (t ! cur_pos f)" | "t ! cur_pos f = 34" "\<not> is_alpha (t ! cur_pos f)"
    | "\<not> is_alpha (t ! cur_pos f)" "t ! cur_pos f \<noteq> 34" by blast
  then show ?thesis
  proof cases
    case 1
    then show ?thesis
      using returns_mono [OF parse_identifier_returns [OF assms(1,2) l(1) 1]] is_alpha_facts [OF 1] l(1)
      by (simp add: parse_key_def c)
  next
    case 2
    then show ?thesis
      using returns_mono [OF parse_string_returns [OF assms(1,2)]] l(1) by (simp add: parse_key_def c)
  next
    case 3
    then show ?thesis
      using assms(1) end_or_invalid_code by (auto simp: parse_key_def c intro!: returns_error)
  qed
qed

lemma name_pair_inv:
  assumes "walk_inv t e f" "e < length t" "tok < e" "tok + (if t ! tok = 34 then 2 else 1) \<le> cur_pos f"
  obtains f' where "name_pair t tok f = Some (path_len f, f')" "walk_inv t e f'" "cur_pos f' = cur_pos f" "path_len f \<le> path_len f'"
proof -
  define off where "off = (if t ! tok = 34 then tok + 1 else tok)"
  define len where "len = (if t ! tok = 34 then cur_pos f - tok - 2 else cur_pos f - tok)"
  have le: "off + len \<le> length t"
    using assms by (auto simp: off_def len_def walk_inv_def)
  let ?g = "f\<lparr>cur_name := TextName off, cur_name_len := len\<rparr>"
  have g: "walk_inv t e ?g"
    using assms(1) le by (auto simp: walk_inv_def name_ok_def)
  obtain n f' where f': "append_to_path (slice off len t) ?g = (n, f')" by fastforce
  have "off + len \<le> e" using assms by (auto simp: off_def len_def walk_inv_def)
  then have "slice off len t = slice off len (take e t)" by (simp add: slice_def drop_take min_def)
  then have "0 \<notin> set (slice off len t)"
    using assms(1) by (metis in_set_dropD in_set_takeD slice_def walk_inv_def)
  note a = append_to_path_inv [OF g f' this]
  have "name_pair t tok f = Some (path_len f, f')"
    using assms(2,3) le f' a(2) by (simp add: name_pair_def rd_def text_slice_def off_def len_def Let_def)
  then show thesis using that a(1,3,4) by simp
qed

section \<open>Values\<close>

definition values_return :: "byte list \<Rightarrow> nat \<Rightarrow> nat \<Rightarrow> (frozen \<Rightarrow> outcome) \<Rightarrow> bool" where
  "values_return t e lo pv \<longleftrightarrow>
     (\<forall>f. walk_inv t e f \<longrightarrow> lo \<le> cur_pos f \<longrightarrow> returns e (token_at t e 1 f) (pv f))"

lemma skip_comma_returns:
  assumes "walk_inv t e f" "e \<le> length t"
  shows "returns e (\<lambda>f'. walk_inv t e f' \<and> cur_pos f \<le> cur_pos f' \<and> path_len f' = path_len f) (skip_comma t e f)"
proof -
  from assms obtain j where j: "cur t e f = Some (if j < e then Some (t ! j) else None, f\<lparr>cur_pos := j\<rparr>)"
    "cur_pos f \<le> j" "j \<le> e" "walk_inv t e (f\<lparr>cur_pos := j\<rparr>)"
    by (rule cur_returns) blast
  then show ?thesis
    using set_cur_inv [OF assms(1), of "j + 1"] by (auto simp: skip_comma_def intro!: returns_ok)
qed

lemma parse_pair_returns:
  assumes "walk_inv t e f" "e < length t" "values_return t e lo pv" "lo \<le> cur_pos f"
  shows "returns e (token_at t e 1 f) (parse_pair pv t e f)"
proof -
  from assms(1) less_imp_le [OF assms(2)] obtain j where j: "skip_whitespaces t e f = Some (f\<lparr>cur_pos := j\<rparr>)"
    "cur_pos f \<le> j" "j \<le> e" "walk_inv t e (f\<lparr>cur_pos := j\<rparr>)" "j < e \<Longrightarrow> \<not> is_space (t ! j)"
    by (rule cur_returns) blast
  let ?g = "f\<lparr>cur_pos := j\<rparr>"
  have key: "returns e (\<lambda>f'. cur_pos ?g < e \<and> token_at t e (if t ! cur_pos ?g = 34 then 2 else 1) ?g f') (parse_key t e ?g)"
    by (rule parse_key_returns [OF j(4) assms(2)]) (use j(3,5) in auto)
  have "returns e (token_at t e 1 f) (try_step (parse_key t e ?g) (\<lambda>f. do {
       (current_path_len, f) \<leftarrow> name_pair t j f;
       try_step (test_and_skip t e (ch_of CHR '':'') f) (\<lambda>f.
       try_step (pv f) (\<lambda>f. Some (0, truncate_path current_path_len f)))
     }))"
  proof (rule returns_try [OF key])
    fix f1 assume "cur_pos ?g < e \<and> token_at t e (if t ! cur_pos ?g = 34 then 2 else 1) ?g f1"
    then have 1: "j < e" "walk_inv t e f1" "j + (if t ! j = 34 then 2 else 1) \<le> cur_pos f1" "path_len f1 = path_len f"
      by (auto simp: token_at_def)
    from name_pair_inv [OF 1(2) assms(2) 1(1,3)] obtain f2 where
      2: "name_pair t j f1 = Some (path_len f1, f2)" "walk_inv t e f2" "cur_pos f2 = cur_pos f1" "path_len f1 \<le> path_len f2" by blast
    have "returns e (token_at t e 1 f) (try_step (test_and_skip t e (ch_of CHR '':'') f2) (\<lambda>f.
       try_step (pv f) (\<lambda>f. Some (0, truncate_path (path_len f1) f))))"
    proof (rule returns_try [OF test_and_skip_returns [OF 2(2) less_imp_le [OF assms(2)]]], elim conjE)
      fix f3 assume 3: "walk_inv t e f3" "cur_pos f2 < cur_pos f3" "path_len f3 = path_len f2"
      then have "lo \<le> cur_pos f3" using 1(3) 2(3) j(2) assms(4) by simp
      with 3 assms(3) have "returns e (token_at t e 1 f3) (pv f3)" by (simp add: values_return_def)
      then show "returns e (token_at t e 1 f) (try_step (pv f3) (\<lambda>f. Some (0, truncate_path (path_len f1) f)))"
      proof (rule returns_try)
        fix f4 assume 4: "token_at t e 1 f3 f4"
        have "walk_inv t e (truncate_path (path_len f1) f4)"
          using 4 2(4) 3(3) by (simp add: token_at_def truncate_path_inv)
        then show "returns e (token_at t e 1 f) (Some (0, truncate_path (path_len f1) f4))"
          using 1 2(3) 3(2) 4 j(2) by (intro returns_ok) (auto simp: token_at_def truncate_path_inv split: if_splits)
      qed
    qed
    then show "returns e (token_at t e 1 f) (do {
       (current_path_len, f) \<leftarrow> name_pair t j f1;
       try_step (test_and_skip t e (ch_of CHR '':'') f) (\<lambda>f.
       try_step (pv f) (\<lambda>f. Some (0, truncate_path current_path_len f)))
     })"
      by (simp add: 2(1))
  qed
  then show ?thesis
    by (simp add: parse_pair_def j(1) Let_def)
qed

lemma path_strlen_at:
  assumes "n < length (path_buf f)" "path_buf f ! n = 0" "0 \<notin> set (take n (path_buf f))"
  shows "path_strlen f = Some n"
proof -
  let ?p = "take n (path_buf f)"
  have "path_buf f = ?p @ 0 # drop (Suc n) (path_buf f)" using id_take_nth_drop [OF assms(1)] assms(2) by simp
  moreover have "takeWhile (\<lambda>c. c \<noteq> 0) (?p @ 0 # r) = ?p" for r using assms(3) by (subst takeWhile_append2) auto
  ultimately have "takeWhile (\<lambda>c. c \<noteq> 0) (path_buf f) = ?p" by metis
  moreover have "0 \<in> set (path_buf f)" using nth_mem [OF assms(1)] assms(2) by simp
  ultimately show ?thesis using assms(1) by (simp add: path_strlen_def)
qed

lemma path_strlen_inv: "walk_inv t e f \<Longrightarrow> path_strlen f = Some (path_len f)"
  by (rule path_strlen_at) (auto simp: walk_inv_def)

lemma name_element_inv:
  assumes "walk_inv t e f" "i < 2 ^ 31"
  obtains f' where "name_element i f = Some (path_len f, f')" "walk_inv t e f'" "cur_pos f' = cur_pos f" "path_len f \<le> path_len f'"
proof -
  let ?buf = "ascii ''['' @ dec_nat i @ ascii '']''"
  obtain m g where g: "append_to_path ?buf f = (m, g)" by fastforce
  have z: "0 \<notin> set ?buf" using dec_nat_decimal [of i] by (auto simp: ascii_def)
  note a = append_to_path_inv [OF assms(1) g z]
  have l: "length (dec_nat i) \<le> 10"
    using assms(2) by (intro dec_nat_length) simp_all
  show thesis
  proof (cases "path_len g < length ?buf")
    case True
    then show ?thesis using a(4) path_len_less [OF assms(1)] l by (simp add: ascii_def JSON_MAX_PATH_LEN_def)
  next
    case False
    let ?f = "g\<lparr>cur_name := PathName (path_len g - length ?buf + 1), cur_name_len := length ?buf - 2\<rparr>"
    have "path_len g - length ?buf + 1 + (length ?buf - 2) \<le> JSON_MAX_PATH_LEN"
      using path_len_less [OF a(1)] False by simp
    then have "walk_inv t e ?f" using a(1) by (simp add: walk_inv_def name_ok_def)
    moreover have "name_element i f = Some (path_len f, ?f)"
      unfolding name_element_def Let_def g prod.case path_strlen_inv [OF a(1)] using False a(2) by simp
    ultimately show ?thesis using a(3,4) by (intro that [of ?f]) simp_all
  qed
qed

lemma array_loop_returns:
  assumes "walk_inv t e f" "e < length t" "e < 2 ^ 31" "values_return t e lo pv" "lo \<le> cur_pos f" "i \<le> cur_pos f" "e < k + cur_pos f"
  shows "returns e (\<lambda>f'. walk_inv t e f' \<and> cur_pos f \<le> cur_pos f' \<and> path_len f' = path_len f) (array_loop k pv t e i f)"
  using assms
proof (induction k arbitrary: i f)
  case 0
  then show ?case by (simp add: walk_inv_def)
next
  case (Suc k)
  note e = less_imp_le [OF Suc.prems(2)]
  from Suc.prems(1) e obtain j where j: "cur t e f = Some (if j < e then Some (t ! j) else None, f\<lparr>cur_pos := j\<rparr>)"
    "cur_pos f \<le> j" "j \<le> e" "walk_inv t e (f\<lparr>cur_pos := j\<rparr>)"
    by (rule cur_returns) blast
  let ?g = "f\<lparr>cur_pos := j\<rparr>"
  show ?case
  proof (cases "j < e \<and> t ! j = ch_of CHR '']''")
    case True
    then show ?thesis using j by (auto intro!: returns_ok)
  next
    case False
    have i: "i < 2 ^ 31" using Suc.prems(3,6) j(2,3) by linarith
    from name_element_inv [OF j(4) i] obtain g where
      g: "name_element i ?g = Some (path_len f, g)" and a: "walk_inv t e g" "cur_pos g = cur_pos ?g" "path_len f \<le> path_len g" by auto
    let ?n = "path_len f"
    have "returns e (token_at t e 1 g) (pv g)"
      using Suc.prems(4,5) a(1,2) j(2) by (simp add: values_return_def)
    then have "returns e (\<lambda>f'. walk_inv t e f' \<and> cur_pos f \<le> cur_pos f' \<and> path_len f' = path_len f)
        (try_step (pv g) (\<lambda>f. try_step (skip_comma t e (truncate_path ?n f)) (array_loop k pv t e (i + 1))))"
    proof (rule returns_try)
      fix h assume h: "token_at t e 1 g h"
      then have inv: "walk_inv t e (truncate_path ?n h)" using a(3) by (simp add: token_at_def truncate_path_inv)
      show "returns e (\<lambda>f'. walk_inv t e f' \<and> cur_pos f \<le> cur_pos f' \<and> path_len f' = path_len f)
          (try_step (skip_comma t e (truncate_path ?n h)) (array_loop k pv t e (i + 1)))"
      proof (rule returns_try [OF skip_comma_returns [OF inv e]], elim conjE)
        fix h' assume h': "walk_inv t e h'" "cur_pos (truncate_path ?n h) \<le> cur_pos h'" "path_len h' = path_len (truncate_path ?n h)"
        then have c: "cur_pos f + 1 \<le> cur_pos h'" "path_len h' = path_len f"
          using h a(2) j(2) by (simp_all add: token_at_def truncate_path_inv)
        have "returns e (\<lambda>f'. walk_inv t e f' \<and> cur_pos h' \<le> cur_pos f' \<and> path_len f' = path_len h') (array_loop k pv t e (i + 1) h')"
          using Suc.prems(2-7) h'(1) c by (intro Suc.IH) auto
        then show "returns e (\<lambda>f'. walk_inv t e f' \<and> cur_pos f \<le> cur_pos f' \<and> path_len f' = path_len f) (array_loop k pv t e (i + 1) h')"
          by (rule returns_mono) (use c in auto)
      qed
    qed
    then show ?thesis using False j(1) g by auto
  qed
qed

lemma object_loop_returns:
  assumes "walk_inv t e f" "e < length t" "values_return t e lo pv" "lo \<le> cur_pos f" "e < k + cur_pos f"
  shows "returns e (\<lambda>f'. walk_inv t e f' \<and> cur_pos f \<le> cur_pos f' \<and> path_len f' = path_len f) (object_loop k pv t e f)"
  using assms
proof (induction k arbitrary: f)
  case 0
  then show ?case by (simp add: walk_inv_def)
next
  case (Suc k)
  note e = less_imp_le [OF Suc.prems(2)]
  from Suc.prems(1) e obtain j where j: "cur t e f = Some (if j < e then Some (t ! j) else None, f\<lparr>cur_pos := j\<rparr>)"
    "cur_pos f \<le> j" "j \<le> e" "walk_inv t e (f\<lparr>cur_pos := j\<rparr>)"
    by (rule cur_returns) blast
  let ?g = "f\<lparr>cur_pos := j\<rparr>"
  show ?case
  proof (cases "j < e \<and> t ! j = ch_of CHR ''}''")
    case True
    then show ?thesis using j by (auto intro!: returns_ok)
  next
    case False
    have "returns e (token_at t e 1 ?g) (parse_pair pv t e ?g)"
      using Suc.prems j by (intro parse_pair_returns [where lo = lo]) auto
    then have "returns e (\<lambda>f'. walk_inv t e f' \<and> cur_pos f \<le> cur_pos f' \<and> path_len f' = path_len f)
        (try_step (parse_pair pv t e ?g) (\<lambda>f. try_step (skip_comma t e f) (object_loop k pv t e)))"
    proof (rule returns_try)
      fix h assume h: "token_at t e 1 ?g h"
      then have inv: "walk_inv t e h" by (simp add: token_at_def)
      show "returns e (\<lambda>f'. walk_inv t e f' \<and> cur_pos f \<le> cur_pos f' \<and> path_len f' = path_len f) (try_step (skip_comma t e h) (object_loop k pv t e))"
      proof (rule returns_try [OF skip_comma_returns [OF inv e]], elim conjE)
        fix h' assume h': "walk_inv t e h'" "cur_pos h \<le> cur_pos h'" "path_len h' = path_len h"
        then have c: "cur_pos f + 1 \<le> cur_pos h'" "path_len h' = path_len f" using h j(2) by (simp_all add: token_at_def)
        have "returns e (\<lambda>f'. walk_inv t e f' \<and> cur_pos h' \<le> cur_pos f' \<and> path_len f' = path_len h') (object_loop k pv t e h')"
          using Suc.prems h'(1) c by (intro Suc.IH) auto
        then show "returns e (\<lambda>f'. walk_inv t e f' \<and> cur_pos f \<le> cur_pos f' \<and> path_len f' = path_len f) (object_loop k pv t e h')"
          by (rule returns_mono) (use c in auto)
      qed
    qed
    then show ?thesis using False j(1) by auto
  qed
qed

text \<open>
  What arrays and objects have in common: an opening bracket, a loop over the elements, the closing
  bracket and an event for the whole.
\<close>

definition bracketed :: "byte list \<Rightarrow> nat \<Rightarrow> json_token_type \<Rightarrow> json_token_type \<Rightarrow> byte \<Rightarrow> byte \<Rightarrow> byte list \<Rightarrow>
    (frozen \<Rightarrow> outcome) \<Rightarrow> frozen \<Rightarrow> outcome" where
  "bracketed t e tok_start tok_end opening closing str loop f =
     try_step (call_back t tok_start None 0 f) (\<lambda>f.
     try_step (test_and_skip t e opening f) (\<lambda>f.
       let ptr = cur_pos f - 1; (len, f) = append_to_path str f
       in try_step (loop f) (\<lambda>f.
          try_step (test_and_skip t e closing f) (\<lambda>f.
            let f = truncate_path len f in call_back t tok_end (Some ptr) (cur_pos f - ptr) f))))"

lemma parse_array_bracketed:
  "parse_array k pv t e = bracketed t e JSON_TYPE_ARRAY_START JSON_TYPE_ARRAY_END (ch_of CHR ''['') (ch_of CHR '']'') [] (array_loop k pv t e 0)"
  by (simp add: parse_array_def bracketed_def fun_eq_iff)

lemma parse_object_bracketed:
  "parse_object k pv t e = bracketed t e JSON_TYPE_OBJECT_START JSON_TYPE_OBJECT_END (ch_of CHR ''{'') (ch_of CHR ''}'') (ascii ''.'') (object_loop k pv t e)"
  by (simp add: parse_object_def bracketed_def fun_eq_iff)

lemma bracketed_returns:
  assumes "walk_inv t e f" "e < length t" "0 \<notin> set str"
    "\<And>g. walk_inv t e g \<Longrightarrow> cur_pos f < cur_pos g \<Longrightarrow> returns e (\<lambda>f'. walk_inv t e f' \<and> cur_pos g \<le> cur_pos f' \<and> path_len f' = path_len g) (loop g)"
  shows "returns e (token_at t e 1 f) (bracketed t e ts te a b str loop f)"
proof -
  note e = less_imp_le [OF assms(2)]
  have finish: "returns e (token_at t e 1 f) (let ptr = cur_pos f2 - 1; (len, f) = append_to_path str f2
       in try_step (loop f) (\<lambda>f.
          try_step (test_and_skip t e b f) (\<lambda>f.
            let f = truncate_path len f in call_back t te (Some ptr) (cur_pos f - ptr) f)))"
    if f2: "walk_inv t e f2" "cur_pos f < cur_pos f2" "path_len f2 = path_len f" for f2
  proof -
    obtain len f3 where f3: "append_to_path str f2 = (len, f3)" by fastforce
    note a = append_to_path_inv [OF f2(1) f3 assms(3)]
    have len: "len \<le> path_len f3" using a(2,4) by simp
    have "returns e (token_at t e 1 f) (try_step (loop f3) (\<lambda>f.
          try_step (test_and_skip t e b f) (\<lambda>f.
            call_back t te (Some (cur_pos f2 - 1)) (cur_pos f - (cur_pos f2 - 1)) (truncate_path len f))))"
    proof (rule returns_try [OF assms(4) [OF a(1)]], use a(3) f2(2) in simp, elim conjE)
      fix f4 assume f4: "walk_inv t e f4" "cur_pos f3 \<le> cur_pos f4" "path_len f4 = path_len f3"
      show "returns e (token_at t e 1 f) (try_step (test_and_skip t e b f4) (\<lambda>f.
            call_back t te (Some (cur_pos f2 - 1)) (cur_pos f - (cur_pos f2 - 1)) (truncate_path len f)))"
      proof (rule returns_try [OF test_and_skip_returns [OF f4(1) e]], elim conjE)
        fix f5 assume f5: "walk_inv t e f5" "cur_pos f4 < cur_pos f5" "path_len f5 = path_len f4"
        then have len5: "len \<le> path_len f5" using len f4(3) by simp
        from f5 have le: "cur_pos f2 - 1 + (cur_pos f5 - (cur_pos f2 - 1)) \<le> e"
          using f4 a(3) by (simp add: walk_inv_def)
        show "returns e (token_at t e 1 f)
            (call_back t te (Some (cur_pos f2 - 1)) (cur_pos f5 - (cur_pos f2 - 1)) (truncate_path len f5))"
          by (rule returns_mono [OF call_back_returns [OF truncate_path_inv(1) [OF f5(1) len5]]])
            (use le f2 f4(2) f5(2) a(2,3) in \<open>auto simp: token_at_def truncate_path_inv\<close>)
      qed
    qed
    then show ?thesis by (simp add: f3 Let_def truncate_path_inv)
  qed
  show ?thesis
    unfolding bracketed_def
  proof (rule returns_try [OF call_back_returns [OF assms(1)]], simp, elim conjE)
    fix f1 assume f1: "walk_inv t e f1" "cur_pos f1 = cur_pos f" "path_len f1 = path_len f"
    show "returns e (token_at t e 1 f) (try_step (test_and_skip t e a f1) (\<lambda>f.
       let ptr = cur_pos f - 1; (len, f) = append_to_path str f
       in try_step (loop f) (\<lambda>f.
          try_step (test_and_skip t e b f) (\<lambda>f.
            let f = truncate_path len f in call_back t te (Some ptr) (cur_pos f - ptr) f))))"
      by (rule returns_try [OF test_and_skip_returns [OF f1(1) e]], elim conjE, rule finish) (use f1 in auto)
  qed
qed

lemma parse_value_returns:
  assumes "walk_inv t e f" "e < length t" "e < 2 ^ 31" "e < d + cur_pos f"
  shows "returns e (token_at t e 1 f) (parse_value d t e f)"
  using assms
proof (induction d arbitrary: f)
  case 0
  then show ?case by (simp add: walk_inv_def)
next
  case (Suc d)
  note e = less_imp_le [OF Suc.prems(2)]
  from Suc.prems(1) e obtain j where j: "cur t e f = Some (if j < e then Some (t ! j) else None, f\<lparr>cur_pos := j\<rparr>)"
    "cur_pos f \<le> j" "j \<le> e" "walk_inv t e (f\<lparr>cur_pos := j\<rparr>)" "j < e \<Longrightarrow> \<not> is_space (t ! j)"
    by (rule cur_returns) blast
  let ?g = "f\<lparr>cur_pos := j\<rparr>"
  have vals: "values_return t e (j + 1) (parse_value d t e)"
    unfolding values_return_def using Suc.IH Suc.prems(2,3,4) j(2) by auto
  have weaken: "returns e (token_at t e k ?g) m \<Longrightarrow> 1 \<le> k \<Longrightarrow> returns e (token_at t e 1 f) m" for k m
    by (erule returns_mono) (use j(2) in \<open>auto simp: token_at_def\<close>)
  show ?case
  proof (cases "j < e")
    case False
    then show ?thesis using j by (auto intro!: returns_error)
  next
    case True
    have arr: "returns e (token_at t e 1 f) (parse_array (Suc d) (parse_value d t e) t e ?g)"
      unfolding parse_array_bracketed
      by (intro weaken [OF bracketed_returns [OF j(4) Suc.prems(2)]] array_loop_returns [OF _ Suc.prems(2,3) vals])
        (use Suc.prems(4) j(2) in \<open>auto simp: ascii_def\<close>)
    have obj: "returns e (token_at t e 1 f) (parse_object (Suc d) (parse_value d t e) t e ?g)"
      unfolding parse_object_bracketed
      by (intro weaken [OF bracketed_returns [OF j(4) Suc.prems(2)]] object_loop_returns [OF _ Suc.prems(2) vals])
        (use Suc.prems(4) j(2) in \<open>auto simp: ascii_def\<close>)
    have str: "returns e (token_at t e 1 f) (parse_string t e ?g)"
      by (rule weaken [OF parse_string_returns [OF j(4) Suc.prems(2)]]) simp
    have num: "returns e (token_at t e 1 f) (parse_number t e ?g)"
      by (rule weaken [OF parse_number_returns [OF j(4) Suc.prems(2)]]) (use True j(5) in auto)
    have exp: "returns e (token_at t e 1 f) (expect t e s tok ?g)" if "s \<noteq> []" for s tok
      by (rule weaken [OF expect_returns [OF j(4) Suc.prems(2) that]]) simp
    have err: "returns e (token_at t e 1 f) (Some (JSON_STRING_INVALID, ?g))"
      by (rule returns_error [OF j(4)]) simp
    show ?thesis
      using True arr obj str num exp [of "ascii ''null''"] exp [of "ascii ''true''"] exp [of "ascii ''false''"] err
      by (auto simp: j(1) ascii_def)
  qed
qed

lemma frozen_init_inv: "0 \<notin> set (take e t) \<Longrightarrow> walk_inv t e frozen_init"
  by (simp add: frozen_init_def walk_inv_def name_ok_def JSON_MAX_PATH_LEN_def)

text \<open>
  C25: On every text without a byte 0 that is followed by one more readable byte the parser returns without
  reading outside them or writing outside its path buffer; the result is one of the two errors or
  the number of bytes of the value, and every event has a path shorter than the buffer and a token inside
  the text. A key with a byte 0, which the parser accepts inside a UTF-8 character, is excluded: the name
  of an array element under it is looked for before the path buffer.
\<close>

theorem json_walk_safe:
  assumes "e < length t" "e < 2 ^ 31" "0 \<notin> set (take e t)"
  shows "\<exists>n evs. json_walk t e = Some (n, evs) \<and>
    (n = JSON_STRING_INVALID \<or> n = JSON_STRING_INCOMPLETE \<or> 0 < n \<and> n \<le> int e) \<and> list_all (event_ok e) evs"
proof (cases "e = 0")
  case True
  then show ?thesis
    by (simp add: json_walk_def doit_def frozen_init_def codes)
next
  case False
  have "returns e (token_at t e 1 frozen_init) (parse_value (e + 1) t e frozen_init)"
    by (rule parse_value_returns [OF frozen_init_inv [OF assms(3)] assms(1,2)]) simp
  then obtain n f where nf: "parse_value (e + 1) t e frozen_init = Some (n, f)" "list_all (event_ok e) (events f)"
      "n = JSON_STRING_INVALID \<or> n = JSON_STRING_INCOMPLETE \<or> n = 0 \<and> token_at t e 1 frozen_init f"
    unfolding returns_def by blast
  then have "json_walk t e = Some (if n < 0 then n else int (cur_pos f), events f)"
    using False unfolding json_walk_def doit_def by (simp add: frozen_init_def del: parse_value.simps)
  then show ?thesis
    using nf(2,3) by (auto simp: codes token_at_def walk_inv_def)
qed

lemma json_walk_safe_witness:
  "\<exists>n evs. json_walk (ascii ''{a:[1,2]} '') 9 = Some (n, evs) \<and> list_all (event_ok 9) evs"
  using json_walk_safe [of 9 "ascii ''{a:[1,2]} ''"] by (auto simp: ascii_def)

text \<open>Without a byte after the text a backslash at its end is followed outside of it.\<close>

lemma json_walk_reads_past_end: "json_walk [34, 92] 2 = None"
  by code_simp

text \<open>With a byte 0 in a key the name of the eleventh element of an array lies before the path buffer.\<close>

lemma json_walk_name_before_path:
  "json_walk ([123, 34, 0xC2, 0, 34] @ ascii '':[0,0,0,0,0,0,0,0,0,0,0]} '') 29 = None"
  by code_simp

end
