(* ===== verification/JsonRender.thy ===== *)
theory JsonRender
  imports JsonSafe
begin

text \<open>
  What the JSON parser promises: for a value, written with any white space before its tokens, it
  returns the number of bytes and calls back once for every scalar and twice for every array and
  object, in the order of the text, with the name, the path and the place of each.
\<close>

section \<open>JSON values and their text\<close>

text \<open>A number: sign, digits, digits after the point, and letter, sign and digits of the exponent.\<close>

datatype json_number = Number bool "byte list" "byte list option" "(byte \<times> byte list \<times> byte list) option"

datatype json =
    JNull | JTrue | JFalse | JNumber json_number | JString "byte list"
  | JArray "json list" | JObject "(byte list \<times> json) list"

definition frac_text :: "byte list option \<Rightarrow> byte list" where
  "frac_text fr = (case fr of None \<Rightarrow> [] | Some ds \<Rightarrow> ch_of CHR ''.'' # ds)"

definition exp_text :: "(byte \<times> byte list \<times> byte list) option \<Rightarrow> byte list" where
  "exp_text ex = (case ex of None \<Rightarrow> [] | Some (c, sg, ds) \<Rightarrow> c # sg @ ds)"

fun number_text :: "json_number \<Rightarrow> byte list" where
  "number_text (Number neg ds fr ex) = (if neg then ascii ''-'' else []) @ ds @ frac_text fr @ exp_text ex"

definition is_digits :: "byte list \<Rightarrow> bool" where
  "is_digits ds \<longleftrightarrow> ds \<noteq> [] \<and> list_all is_digit ds"

fun number_ok :: "json_number \<Rightarrow> bool" where
  "number_ok (Number neg ds fr ex) \<longleftrightarrow> is_digits ds \<and> (case fr of None \<Rightarrow> True | Some fs \<Rightarrow> is_digits fs) \<and>
     (case ex of None \<Rightarrow> True | Some (c, sg, es) \<Rightarrow>
        c \<in> {ch_of CHR ''e'', ch_of CHR ''E''} \<and> sg \<in> {[], ascii ''+'', ascii ''-''} \<and> is_digits es)"

text \<open>The text between the quotes of a string.\<close>

function string_ok :: "byte list \<Rightarrow> bool" where
  "string_ok [] = True"
| "string_ok (c # s) =
     (if c = 92 then
        (case s of [] \<Rightarrow> False
         | x # r \<Rightarrow> if x = ch_of CHR ''u'' then 4 \<le> length r \<and> list_all is_hex_digit (take 4 r) \<and> string_ok (drop 4 r)
                   else x \<in> {34, 92} \<union> set (ascii ''/bfnrt'') \<and> string_ok r)
      else 32 \<le> c \<and> c \<noteq> 34 \<and> get_utf8_char_len c \<le> length (c # s) \<and> string_ok (drop (get_utf8_char_len c - 1) s))"
  by pat_completeness auto
termination by (relation "measure length") (auto simp: less_Suc_eq_le)

text \<open>A key is a string that is not empty, does not end in a point and holds no byte 0.\<close>

definition key_ok :: "byte list \<Rightarrow> bool" where
  "key_ok k \<longleftrightarrow> string_ok k \<and> k \<noteq> [] \<and> last k \<noteq> ch_of CHR ''.'' \<and> 0 \<notin> set k"

fun render :: "byte list \<Rightarrow> json \<Rightarrow> byte list"
  and render_elements :: "byte list \<Rightarrow> json list \<Rightarrow> byte list"
  and render_members :: "byte list \<Rightarrow> (byte list \<times> json) list \<Rightarrow> byte list" where
  "render w JNull = w @ ascii ''null''"
| "render w JTrue = w @ ascii ''true''"
| "render w JFalse = w @ ascii ''false''"
| "render w (JNumber n) = w @ number_text n"
| "render w (JString s) = w @ [34] @ s @ [34]"
| "render w (JArray vs) = w @ ascii ''['' @ render_elements w vs @ w @ ascii '']''"
| "render w (JObject ms) = w @ ascii ''{'' @ render_members w ms @ w @ ascii ''}''"
| "render_elements w [] = []"
| "render_elements w (v # vs) = render w v @ (if vs = [] then [] else w @ ascii '','' @ render_elements w vs)"
| "render_members w [] = []"
| "render_members w ((k, v) # ms) = w @ [34] @ k @ [34] @ w @ ascii '':'' @ render w v @
     (if ms = [] then [] else w @ ascii '','' @ render_members w ms)"

text \<open>The values are well formed and every path fits into the buffer after a path of \<open>n\<close> bytes.\<close>

definition index_text :: "nat \<Rightarrow> byte list" where
  "index_text i = ascii ''['' @ dec_nat i @ ascii '']''"

fun json_ok :: "nat \<Rightarrow> json \<Rightarrow> bool"
  and elements_ok :: "nat \<Rightarrow> nat \<Rightarrow> json list \<Rightarrow> bool"
  and members_ok :: "nat \<Rightarrow> (byte list \<times> json) list \<Rightarrow> bool" where
  "json_ok n (JNumber x) = number_ok x"
| "json_ok n (JString s) = string_ok s"
| "json_ok n (JArray vs) = elements_ok n 0 vs"
| "json_ok n (JObject ms) = (n + 1 < JSON_MAX_PATH_LEN \<and> members_ok n ms)"
| "json_ok n JNull = True"
| "json_ok n JTrue = True"
| "json_ok n JFalse = True"
| "elements_ok n i [] = True"
| "elements_ok n i (v # vs) = (n + length (index_text i) < JSON_MAX_PATH_LEN \<and> json_ok (n + length (index_text i)) v \<and>
     elements_ok n (i + 1) vs)"
| "members_ok n [] = True"
| "members_ok n ((k, v) # ms) = (key_ok k \<and> n + 1 + length k < JSON_MAX_PATH_LEN \<and> json_ok (n + 1 + length k) v \<and> members_ok n ms)"

text \<open>The events of a value that is written from offset \<open>off\<close> on.\<close>

definition event_of :: "byte list option \<Rightarrow> byte list \<Rightarrow> json_token_type \<Rightarrow> nat option \<Rightarrow> nat \<Rightarrow> event" where
  "event_of name path tok ptr len = \<lparr>ev_name = name, ev_path = path, ev_token = \<lparr>tk_ptr = ptr, tk_len = len, tk_type = tok\<rparr>\<rparr>"

fun value_events :: "byte list \<Rightarrow> byte list \<Rightarrow> byte list option \<Rightarrow> nat \<Rightarrow> json \<Rightarrow> event list"
  and element_events :: "byte list \<Rightarrow> byte list \<Rightarrow> nat \<Rightarrow> nat \<Rightarrow> json list \<Rightarrow> event list"
  and member_events :: "byte list \<Rightarrow> byte list \<Rightarrow> nat \<Rightarrow> (byte list \<times> json) list \<Rightarrow> event list" where
  "value_events w path name off JNull = [event_of name path JSON_TYPE_NULL (Some (off + length w)) 4]"
| "value_events w path name off JTrue = [event_of name path JSON_TYPE_TRUE (Some (off + length w)) 4]"
| "value_events w path name off JFalse = [event_of name path JSON_TYPE_FALSE (Some (off + length w)) 5]"
| "value_events w path name off (JNumber n) = [event_of name path JSON_TYPE_NUMBER (Some (off + length w)) (length (number_text n))]"
| "value_events w path name off (JString s) = [event_of name path JSON_TYPE_STRING (Some (off + length w + 1)) (length s)]"
| "value_events w path name off (JArray vs) =
     [event_of name path JSON_TYPE_ARRAY_START None 0] @ element_events w path 0 (off + length w + 1) vs @
     [event_of None path JSON_TYPE_ARRAY_END (Some (off + length w)) (length (render w (JArray vs)) - length w)]"
| "value_events w path name off (JObject ms) =
     [event_of name path JSON_TYPE_OBJECT_START None 0] @ member_events w path (off + length w + 1) ms @
     [event_of None path JSON_TYPE_OBJECT_END (Some (off + length w)) (length (render w (JObject ms)) - length w)]"
| "element_events w path i off [] = []"
| "element_events w path i off (v # vs) = value_events w (path @ index_text i) (Some (dec_nat i)) off v @
     element_events w path (i + 1) (off + length (render w v) + length w + 1) vs"
| "member_events w path off [] = []"
| "member_events w path off ((k, v) # ms) =
     value_events w (path @ ascii ''.'' @ k) (Some k) (off + 2 * length w + length k + 3) v @
     member_events w path (off + 2 * length w + length k + 3 + length (render w v) + length w + 1) ms"

section \<open>Text at an offset\<close>

definition occurs :: "byte list \<Rightarrow> nat \<Rightarrow> nat \<Rightarrow> byte list \<Rightarrow> bool" where
  "occurs t e off s \<longleftrightarrow> off + length s \<le> e \<and> e \<le> length t \<and> slice off (length s) t = s"

lemma occurs_append:
  "occurs t e off (a @ b) \<longleftrightarrow> occurs t e off a \<and> occurs t e (off + length a) b"
proof -
  have "slice off (length a + length b) t = slice off (length a) t @ slice (off + length a) (length b) t"
    by (simp add: slice_def take_add add.commute)
  moreover have "length (slice off (length a) t) = length a" if "off + length a \<le> length t"
    using that by simp
  ultimately show ?thesis
    by (auto simp: occurs_def)
qed

lemma occurs_Cons:
  "occurs t e off (c # s) \<longleftrightarrow> off < e \<and> e \<le> length t \<and> t ! off = c \<and> occurs t e (off + 1) s"
proof -
  have "occurs t e off [c] \<longleftrightarrow> off < e \<and> e \<le> length t \<and> t ! off = c"
    by (auto simp: occurs_def slice_def take_Suc_conv_app_nth)
  then show ?thesis
    using occurs_append [of t e off "[c]" s] by auto
qed

lemma occurs_Nil: "occurs t e off [] \<longleftrightarrow> off \<le> e \<and> e \<le> length t"
  by (simp add: occurs_def slice_def)

lemma occurs_nth:
  assumes "occurs t e off s" "i < length s"
  shows "t ! (off + i) = s ! i"
proof -
  have *: "off + length s \<le> length t" "slice off (length s) t = s" using assms(1) by (simp_all add: occurs_def)
  have "slice off n t ! i = t ! (off + i)" if "i < n" "off + n \<le> length t" for n
    using that by (simp add: slice_def)
  from this [OF assms(2) *(1)] show ?thesis
    unfolding *(2) by simp
qed

lemma scan_occurs:
  assumes "occurs t e off s" "list_all P s" "off + length s < e \<Longrightarrow> \<not> P (t ! (off + length s))"
  shows "scan P t e off = Some (off + length s)"
  using assms
proof (induction s arbitrary: off)
  case Nil
  then show ?case using scan_stop [of off e t P] by (auto simp: occurs_Nil)
next
  case (Cons c s)
  then have "scan P t e off = scan P t e (off + 1)"
    by (subst scan.simps) (auto simp: occurs_Cons rd_def)
  then show ?case
    using Cons.IH [of "off + 1"] Cons.prems by (auto simp: occurs_Cons)
qed

lemma get_escape_len_u:
  assumes "t ! s = ch_of CHR ''u''" "6 \<le> len" "s + 4 < length t"
    "is_hex_digit (t ! (s + 1))" "is_hex_digit (t ! (s + 2))" "is_hex_digit (t ! (s + 3))" "is_hex_digit (t ! (s + 4))"
  shows "get_escape_len t s len = Some 5"
  using assms by (simp add: get_escape_len_def rd_def)

lemma string_loop_occurs:
  assumes "occurs t e off (s @ [34])" "string_ok s"
  shows "string_loop t e off = Some (0, off + length s)"
  using assms
proof (induction s arbitrary: off rule: string_ok.induct)
  case 1
  then show ?case by (simp add: occurs_Cons string_loop_quote)
next
  case (2 c s)
  have o: "off < e" "e \<le> length t" "t ! off = c" "off < length t" "occurs t e (off + 1) (s @ [34])"
    using 2(4) by (auto simp: occurs_Cons)
  have len: "off + length s + 2 \<le> e"
    using 2(4) by (simp add: occurs_def)
  show ?case
  proof (cases "c = 92")
    case False
    let ?n = "get_utf8_char_len c"
    have ok: "32 \<le> c" "c \<noteq> 34" "?n \<le> length (c # s)" "string_ok (drop (?n - 1) s)"
      using 2(5) False by simp_all
    have "occurs t e (off + 1) (take (?n - 1) s @ drop (?n - 1) s @ [34])"
      using o(5) by (metis append.assoc append_take_drop_id)
    then have "occurs t e (off + 1 + length (take (?n - 1) s)) (drop (?n - 1) s @ [34])"
      by (simp only: occurs_append)
    moreover have n: "off + 1 + length (take (?n - 1) s) = off + ?n"
      using ok(3) utf8_len(1) [of c] by simp
    ultimately have "string_loop t e (off + ?n) = Some (0, off + ?n + length (drop (?n - 1) s))"
      unfolding n by (intro 2(3) [OF False _ ok(4)])
    moreover have "string_loop t e off = string_loop t e (off + ?n)"
      using string_loop_plain [OF o(1,4)] ok False o(3) len by simp
    ultimately show ?thesis
      using ok(3) utf8_len(1) [of c] by simp
  next
    case True
    then obtain x r where s: "s = x # r" using 2(5) by (cases s) auto
    have x: "off + 1 < e" "t ! (off + 1) = x" "occurs t e (off + 2) (r @ [34])"
      using o(5) s by (auto simp: occurs_Cons)
    show ?thesis
    proof (cases "x = ch_of CHR ''u''")
      case False
      then have ok: "x \<in> {34, 92} \<union> set (ascii ''/bfnrt'')" "string_ok r" using 2(5) True s by auto
      have "get_escape_len t (off + 1) (e - off) = Some 1"
        using ok(1) x o(2) False by (auto simp: get_escape_len_def rd_def ascii_def)
      then show ?thesis
        using string_loop_escape [OF o(1,4)] o(3) True 2(2) [OF True s False] ok(2) x(3) s by simp
    next
      case u: True
      then have ok: "4 \<le> length r" "list_all is_hex_digit (take 4 r)" "string_ok (drop 4 r)"
        using 2(5) True s by auto
      have r: "occurs t e (off + 2) (take 4 r @ drop 4 r @ [34])"
        using x(3) by (metis append.assoc append_take_drop_id)
      have r4: "occurs t e (off + 2) (take 4 r)" "occurs t e (off + 6) (drop 4 r @ [34])"
      proof -
        have "length (take 4 r) = 4" "off + 2 + 4 = off + 6" using ok(1) by simp_all
        then show "occurs t e (off + 2) (take 4 r)" "occurs t e (off + 6) (drop 4 r @ [34])"
          using iffD1 [OF occurs_append r] by metis+
      qed
      have nth: "t ! (off + 2 + i) = r ! i" if "i < 4" for i
        using occurs_nth [OF r4(1), of i] that ok(1) by simp
      have hex: "is_hex_digit (r ! i)" if "i < 4" for i
        using ok(1,2) that by (simp add: list_all_length)
      have "off + 6 < e"
        using len ok(1) s by simp
      have at: "is_hex_digit (t ! (off + 1 + k))" if "0 < k" "k < 5" for k
        using nth [of "k - 1"] hex [of "k - 1"] that by simp
      have "get_escape_len t (off + 1) (e - off) = Some 5"
        by (rule get_escape_len_u) (use x(1,2) u o(2) \<open>off + 6 < e\<close> at [of 1] at [of 2] at [of 3] at [of 4] in simp_all)
      then show ?thesis
        using string_loop_escape [OF o(1,4)] o(3) True 2(1) [OF True s u] ok r4(2) s by (simp add: numeral_eq_Suc)
    qed
  qed
qed

section \<open>The state of the parser\<close>

definition shown :: "byte list \<Rightarrow> bool" where
  "shown p \<longleftrightarrow> p = [] \<or> last p \<noteq> ch_of CHR ''.''"

definition at_state :: "byte list \<Rightarrow> nat \<Rightarrow> byte list \<Rightarrow> byte list option \<Rightarrow> event list \<Rightarrow> frozen \<Rightarrow> bool" where
  "at_state t off p name evs f \<longleftrightarrow> cur_pos f = off \<and> path_len f = length p \<and> length p < JSON_MAX_PATH_LEN \<and>
     length (path_buf f) = JSON_MAX_PATH_LEN \<and> take (length p) (path_buf f) = p \<and> events f = evs \<and>
     name_bytes t f = Some name \<and> (\<forall>k. cur_name f = PathName k \<longrightarrow> k + cur_name_len f \<le> length p) \<and>
     0 \<notin> set p \<and> path_buf f ! length p = 0"

lemma index_text_no_NUL: "0 \<notin> set (index_text i)"
  using dec_nat_decimal [of i] by (auto simp: index_text_def ascii_def)

lemma take_overwrite_less: "k \<le> n \<Longrightarrow> n \<le> length xs \<Longrightarrow> take k (overwrite n ys xs) = take k xs"
  by (simp add: overwrite_def)

lemma slice_take: "k + n \<le> m \<Longrightarrow> slice k n xs = slice k n (take m xs)"
  by (simp add: slice_def drop_take min_def)

lemma name_bytes_cong:
  assumes "cur_name f' = cur_name f" "cur_name_len f' = cur_name_len f" "length (path_buf f') = length (path_buf f)"
    "take n (path_buf f') = take n (path_buf f)" "\<forall>k. cur_name f = PathName k \<longrightarrow> k + cur_name_len f \<le> n"
  shows "name_bytes t f' = name_bytes t f"
  using assms slice_take [of _ "cur_name_len f" n "path_buf f"] slice_take [of _ "cur_name_len f" n "path_buf f'"]
  by (auto simp: name_bytes_def text_slice_def split: name_ref.splits)

lemma append_to_path_state:
  assumes "at_state t off p name evs f" "length p + length s < JSON_MAX_PATH_LEN" "0 \<notin> set s"
  obtains f' where "append_to_path s f = (length p, f')" "at_state t off (p @ s) name evs f'"
proof -
  define f' where "f' = snd (append_to_path s f)"
  have len: "length p + length s < length (path_buf f)" using assms by (simp add: at_state_def)
  have fit: "min (length s) (JSON_MAX_PATH_LEN - length p - 1) = length s"
    using assms(2) by simp
  have eq: "append_to_path s f = (length p, f')"
    using assms(1,2) by (simp add: f'_def append_to_path_def at_state_def Let_def)
  have buf: "path_buf f' = (overwrite (length p) s (path_buf f))[length p + length s := 0]"
      "path_len f' = length p + length s" "cur_pos f' = cur_pos f" "cur_name f' = cur_name f"
      "cur_name_len f' = cur_name_len f" "events f' = events f"
    using assms(1) fit by (simp_all add: f'_def append_to_path_def at_state_def Let_def)
  have keep: "take (length p) (path_buf f') = take (length p) (path_buf f)"
    using len by (simp add: buf(1) take_overwrite_less)
  have "take (length p + length s) (path_buf f') = p @ s"
    using len assms(1) take_overwrite_end [of "length p" "path_buf f" s] by (simp add: buf(1) at_state_def)
  moreover have "length (path_buf f') = length (path_buf f)"
    using len by (simp add: buf(1))
  moreover from this keep have "name_bytes t f' = name_bytes t f"
    using assms(1) by (intro name_bytes_cong [where n = "length p"]) (auto simp: buf at_state_def)
  moreover have "path_buf f' ! length (p @ s) = 0"
    using len by (simp add: buf(1) buf_simps)
  ultimately show thesis
    using assms buf(2-) by (intro that [OF eq]) (auto simp: at_state_def)
qed

lemma truncate_path_state:
  assumes "at_state t off p name evs f"
  shows "at_state t off p name evs (truncate_path (length p) f)"
proof -
  have "name_bytes t (truncate_path (length p) f) = name_bytes t f"
    using assms by (intro name_bytes_cong [where n = "length p"]) (auto simp: truncate_path_def at_state_def)
  then show ?thesis
    using assms by (auto simp: at_state_def truncate_path_def)
qed

lemma name_None: "name_bytes t f = Some None \<longleftrightarrow> cur_name f = NullName"
  by (auto simp: name_bytes_def text_slice_def split: name_ref.splits if_splits)

lemma truncate_path_back:
  assumes "at_state t off (p @ s) None evs f"
  shows "at_state t off p None evs (truncate_path (length p) f)"
proof -
  have "take (length p) (take (length (p @ s)) (path_buf f)) = p"
    using assms by (simp add: at_state_def)
  then have "take (length p) (path_buf f) = p" by simp
  then show ?thesis
    using assms by (auto simp: at_state_def truncate_path_def name_None)
qed

lemma set_cur_state: "at_state t off p name evs f \<Longrightarrow> at_state t i p name evs (f\<lparr>cur_pos := i\<rparr>)"
  by (auto simp: at_state_def name_bytes_def split: name_ref.splits)

lemma call_back_state:
  assumes "at_state t off p name evs f" "shown p"
  shows "\<exists>f'. call_back t tok ptr len f = Some (0, f') \<and> at_state t off p None (evs @ [event_of name p tok ptr len]) f'"
proof -
  have "path_buf f ! (path_len f - 1) \<noteq> ch_of CHR ''.''" if "path_len f \<noteq> 0"
  proof -
    have p: "p \<noteq> []" using that assms(1) by (auto simp: at_state_def)
    then have "last p = take (length p) (path_buf f) ! (length p - 1)"
      using assms(1) by (simp add: at_state_def last_conv_nth)
    also have "\<dots> = path_buf f ! (length p - 1)" using p by (intro nth_take) simp
    finally have "last p = path_buf f ! (path_len f - 1)" using assms(1) by (simp add: at_state_def)
    then show ?thesis using p assms(2) by (auto simp: shown_def)
  qed
  then show ?thesis
    using assms(1) by (auto simp: call_back_def at_state_def event_of_def name_bytes_def)
qed

lemma call_back_hidden:
  assumes "at_state t off (p @ ascii ''.'') name evs f"
  shows "call_back t tok ptr len f = Some (0, f)"
proof -
  have "take (Suc (length p)) (path_buf f) = p @ ascii ''.''" "path_len f = Suc (length p)"
    using assms by (auto simp: at_state_def ascii_def)
  moreover have "path_buf f ! length p = take (Suc (length p)) (path_buf f) ! length p"
    by simp
  ultimately have "path_buf f ! length p = ch_of CHR ''.''"
    by (simp add: ascii_def)
  then show ?thesis
    using \<open>path_len f = _\<close> by (simp add: call_back_def)
qed

section \<open>Tokens\<close>

lemma cur_occurs:
  assumes "at_state t off p name evs f" "occurs t e off (w @ c # r)" "list_all is_space w" "\<not> is_space c"
  shows "cur t e f = Some (Some c, f\<lparr>cur_pos := off + length w\<rparr>)"
    "skip_whitespaces t e f = Some (f\<lparr>cur_pos := off + length w\<rparr>)"
    "at_state t (off + length w) p name evs (f\<lparr>cur_pos := off + length w\<rparr>)"
    "off + length w < e" "e \<le> length t" "t ! (off + length w) = c" "occurs t e (off + length w + 1) r"
proof -
  show o: "off + length w < e" "e \<le> length t" "t ! (off + length w) = c" "occurs t e (off + length w + 1) r"
    using assms(2) by (auto simp: occurs_append occurs_Cons)
  have "scan is_space t e (cur_pos f) = Some (off + length w)"
    using assms o by (simp add: at_state_def occurs_append scan_occurs)
  then show "cur t e f = Some (Some c, f\<lparr>cur_pos := off + length w\<rparr>)"
    "skip_whitespaces t e f = Some (f\<lparr>cur_pos := off + length w\<rparr>)"
    using o by (auto simp: cur_def skip_whitespaces_def rd_def)
  show "at_state t (off + length w) p name evs (f\<lparr>cur_pos := off + length w\<rparr>)"
    by (rule set_cur_state [OF assms(1)])
qed

lemma test_and_skip_occurs:
  assumes "at_state t off p name evs f" "occurs t e off (w @ c # r)" "list_all is_space w" "\<not> is_space c"
  shows "test_and_skip t e c f = Some (0, f\<lparr>cur_pos := off + length w + 1\<rparr>)"
    "at_state t (off + length w + 1) p name evs (f\<lparr>cur_pos := off + length w + 1\<rparr>)"
  using cur_occurs [OF assms] set_cur_state [OF assms(1)] by (simp_all add: test_and_skip_def)

lemma quote_not_space: "\<not> is_space 34" "\<not> is_alpha 34"
  by (simp_all add: is_space_def is_alpha_def)

lemma parse_string_eq:
  assumes "test_and_skip t e 34 f = Some (0, f1)" "append_to_path [] f1 = (len, g)" "string_loop t e (cur_pos g) = Some (0, i)"
    "call_back t JSON_TYPE_STRING (Some (cur_pos f1)) (i - cur_pos f1) (truncate_path len (g\<lparr>cur_pos := i\<rparr>)) = Some (0, h)"
  shows "parse_string t e f = Some (0, h\<lparr>cur_pos := cur_pos h + 1\<rparr>)"
  by (simp add: parse_string_def try_step_def assms Let_def)

lemma parse_string_occurs:
  assumes "at_state t off p name evs f" "occurs t e off (w @ [34] @ s @ [34])" "list_all is_space w" "string_ok s" "shown p"
  shows "\<exists>f'. parse_string t e f = Some (0, f') \<and>
    at_state t (off + length w + length s + 2) p None (evs @ [event_of name p JSON_TYPE_STRING (Some (off + length w + 1)) (length s)]) f'"
proof -
  have o: "occurs t e off (w @ 34 # s @ [34])" using assms(2) by simp
  note sk = test_and_skip_occurs [OF assms(1) o assms(3) quote_not_space(1)]
  obtain g where g: "append_to_path [] (f\<lparr>cur_pos := off + length w + 1\<rparr>) = (length p, g)"
      "at_state t (off + length w + 1) p name evs g"
    using append_to_path_state [OF sk(2), of "[]"] assms(1) by (auto simp: at_state_def)
  have l: "string_loop t e (cur_pos g) = Some (0, off + length w + 1 + length s)"
    using string_loop_occurs [OF _ assms(4)] cur_occurs(7) [OF assms(1) o assms(3) quote_not_space(1)] g(2)
    by (simp add: at_state_def)
  show ?thesis
  proof -
    let ?h = "truncate_path (length p) (g\<lparr>cur_pos := off + length w + 1 + length s\<rparr>)"
    have "at_state t (off + length w + 1 + length s) p name evs ?h"
      by (rule truncate_path_state [OF set_cur_state [OF g(2)]])
    from call_back_state [OF this assms(5), of JSON_TYPE_STRING "Some (off + length w + 1)" "length s"] obtain f' where
      f': "call_back t JSON_TYPE_STRING (Some (off + length w + 1)) (length s) ?h = Some (0, f')"
      "at_state t (off + length w + 1 + length s) p None (evs @ [event_of name p JSON_TYPE_STRING (Some (off + length w + 1)) (length s)]) f'"
      by blast
    have "parse_string t e f = Some (0, f'\<lparr>cur_pos := cur_pos f' + 1\<rparr>)"
      by (rule parse_string_eq [OF sk(1) g(1) l]) (use f'(1) in simp)
    then show ?thesis
      using set_cur_state [OF f'(2), of "cur_pos f' + 1"] f'(2) by (simp add: at_state_def)
  qed
qed

lemma parse_key_occurs:
  assumes "at_state t off (p @ ascii ''.'') name evs f" "occurs t e off ([34] @ s @ [34])" "string_ok s"
  shows "\<exists>f'. parse_key t e f = Some (0, f') \<and> at_state t (off + length s + 2) (p @ ascii ''.'') name evs f'"
proof -
  let ?p = "p @ ascii ''.''"
  have o: "occurs t e off ([] @ 34 # s @ [34])" using assms(2) by simp
  have "list_all is_space []" by simp
  note c = cur_occurs [OF assms(1) o this quote_not_space(1)] and sk = test_and_skip_occurs [OF assms(1) o this quote_not_space(1)]
  have f: "f\<lparr>cur_pos := off\<rparr> = f" using assms(1) by (simp add: at_state_def)
  obtain g where g: "append_to_path [] (f\<lparr>cur_pos := off + 1\<rparr>) = (length ?p, g)" "at_state t (off + 1) ?p name evs g"
    using append_to_path_state [OF sk(2), of "[]"] assms(1) by (auto simp: at_state_def)
  have l: "string_loop t e (cur_pos g) = Some (0, off + 1 + length s)"
    using string_loop_occurs [OF _ assms(3)] c(7) g(2) by (simp add: at_state_def)
  let ?h = "truncate_path (length ?p) (g\<lparr>cur_pos := off + 1 + length s\<rparr>)"
  have h: "at_state t (off + 1 + length s) ?p name evs ?h"
    by (rule truncate_path_state [OF set_cur_state [OF g(2)]])
  have "parse_string t e f = Some (0, ?h\<lparr>cur_pos := cur_pos ?h + 1\<rparr>)"
  proof (rule parse_string_eq [OF _ g(1) l])
    show "test_and_skip t e 34 f = Some (0, f\<lparr>cur_pos := off + 1\<rparr>)" using sk(1) by simp
  qed (rule call_back_hidden [OF h])
  then have "parse_key t e f = Some (0, ?h\<lparr>cur_pos := cur_pos ?h + 1\<rparr>)"
    using c(1) quote_not_space(2) by (simp add: parse_key_def f)
  moreover have "cur_pos ?h + 1 = off + length s + 2"
    by (simp add: truncate_path_inv)
  ultimately show ?thesis
    using set_cur_state [OF h, of "off + length s + 2"] by auto
qed

section \<open>Numbers and literals\<close>

lemma digits_occurs:
  assumes "occurs t e off ds" "is_digits ds" "off + length ds < e \<Longrightarrow> \<not> is_digit (t ! (off + length ds))"
  shows "digits t e off = Some (0, off + length ds)"
proof -
  obtain c r where ds: "ds = c # r" using assms(2) by (cases ds) (auto simp: is_digits_def)
  have "off < e" "off < length t" "t ! off = c" "is_digit c"
    using assms(1,2) by (auto simp: ds occurs_Cons is_digits_def)
  then show ?thesis
    using scan_occurs [where P = is_digit, OF assms(1) _ assms(3)] assms(2) by (simp add: digits_def rd_def is_digits_def)
qed

text \<open>The character at \<open>q\<close> cannot continue a number.\<close>

definition stops :: "byte list \<Rightarrow> nat \<Rightarrow> nat \<Rightarrow> bool" where
  "stops t e q \<longleftrightarrow> (q < e \<longrightarrow> \<not> is_digit (t ! q) \<and> t ! q \<notin> {ch_of CHR ''.'', ch_of CHR ''e'', ch_of CHR ''E''})"

lemma not_digit: "\<not> is_digit (ch_of CHR ''.'')" "\<not> is_digit (ch_of CHR ''e'')" "\<not> is_digit (ch_of CHR ''E'')"
  "\<not> is_digit (ch_of CHR ''+'')" "\<not> is_digit (ch_of CHR ''-'')"
  by (simp_all add: is_digit_def)

lemma exponent_part_occurs:
  assumes "occurs t e off (exp_text ex)" "stops t e (off + length (exp_text ex))"
    "case ex of None \<Rightarrow> True | Some (c, sg, es) \<Rightarrow>
        c \<in> {ch_of CHR ''e'', ch_of CHR ''E''} \<and> sg \<in> {[], ascii ''+'', ascii ''-''} \<and> is_digits es"
  shows "exponent_part t e off = Some (0, off + length (exp_text ex))"
proof (cases ex)
  case None
  then show ?thesis
    using assms by (auto simp: exponent_part_def exp_text_def stops_def occurs_Nil rd_def)
next
  case (Some x)
  then obtain c sg es where x: "ex = Some (c, sg, es)" by (cases x) auto
  have ok: "c \<in> {ch_of CHR ''e'', ch_of CHR ''E''}" "sg \<in> {[], ascii ''+'', ascii ''-''}" "is_digits es"
    using assms(3) x by auto
  have o: "off < e" "e \<le> length t" "t ! off = c" "occurs t e (off + 1) (sg @ es)"
    using assms(1) by (auto simp: x exp_text_def occurs_Cons)
  have es: "occurs t e (off + 1 + length sg) es"
    using o(4) by (simp only: occurs_append)
  obtain d r where d: "es = d # r" "is_digit d" using ok(3) by (cases es) (auto simp: is_digits_def)
  have dig: "digits t e (off + 1 + length sg) = Some (0, off + 1 + length sg + length es)"
    using assms(2) by (intro digits_occurs [OF es ok(3)]) (simp add: x exp_text_def stops_def add.assoc)
  have next_in: "off + 1 < e"
    using es d by (auto simp: occurs_def)
  show ?thesis
  proof (cases "sg = []")
    case True
    then have "t ! (off + 1) = d" using es d by (auto simp: occurs_Cons)
    then have "t ! (off + 1) \<noteq> ch_of CHR ''+''" "t ! (off + 1) \<noteq> ch_of CHR ''-''"
      using d(2) not_digit by auto
    then show ?thesis
      using dig o(1,2,3) ok(1) next_in True by (auto simp: exponent_part_def rd_def x exp_text_def)
  next
    case False
    then have "length sg = 1" "t ! (off + 1) = ch_of CHR ''+'' \<or> t ! (off + 1) = ch_of CHR ''-''"
      using ok(2) o(4) by (auto simp: ascii_def occurs_Cons)
    then show ?thesis
      using dig o(1,2,3) ok(1) next_in by (auto simp: exponent_part_def rd_def x exp_text_def)
  qed
qed

lemma exp_text_start: "exp_text ex = c # r \<Longrightarrow> number_ok (Number neg ds fr ex) \<Longrightarrow> c \<in> {ch_of CHR ''e'', ch_of CHR ''E''}"
  by (auto simp: exp_text_def split: option.splits)

lemma number_end_occurs:
  assumes "occurs t e off (ds @ frac_text fr @ exp_text ex)" "stops t e (off + length (ds @ frac_text fr @ exp_text ex))"
    "number_ok (Number neg ds fr ex)"
  shows "number_end t e off = Some (0, off + length (ds @ frac_text fr @ exp_text ex))"
proof -
  let ?q = "off + length ds" and ?r = "off + length ds + length (frac_text fr)"
  have o: "occurs t e off ds" "occurs t e ?q (frac_text fr)" "occurs t e ?r (exp_text ex)"
    using assms(1) by (simp_all only: occurs_append)
  have stop: "stops t e (?r + length (exp_text ex))"
    using assms(2) by (simp add: add.assoc)
  have exp_head: "\<not> is_digit (t ! ?r) \<and> t ! ?r \<noteq> ch_of CHR ''.''" if "?r < e"
  proof (cases "exp_text ex")
    case Nil
    then show ?thesis using stop that by (auto simp: stops_def)
  next
    case (Cons c r)
    then have "t ! ?r = c" using o(3) by (simp add: occurs_Cons)
    then show ?thesis using exp_text_start [OF Cons assms(3)] not_digit by auto
  qed
  have frac_head: "\<not> is_digit (t ! ?q)" if "?q < e"
  proof (cases fr)
    case None
    then show ?thesis using exp_head that by (simp add: frac_text_def)
  next
    case (Some fs)
    then have "t ! ?q = ch_of CHR ''.''" using o(2) by (simp add: frac_text_def occurs_Cons)
    then show ?thesis using not_digit by simp
  qed
  have 1: "digits t e off = Some (0, ?q)"
    using assms(3) frac_head by (intro digits_occurs [OF o(1)]) auto
  have 2: "fraction_part t e ?q = Some (0, ?r)"
  proof (cases fr)
    case None
    then show ?thesis
      using exp_head o(2) by (auto simp: fraction_part_def frac_text_def occurs_Nil rd_def)
  next
    case (Some fs)
    have "?q < e" "e \<le> length t" "t ! ?q = ch_of CHR ''.''" "occurs t e (?q + 1) fs"
      using o(2) Some by (auto simp: frac_text_def occurs_Cons)
    moreover have "digits t e (?q + 1) = Some (0, ?q + 1 + length fs)"
      using calculation(4) assms(3) Some exp_head by (intro digits_occurs) (auto simp: frac_text_def)
    ultimately show ?thesis
      using Some by (simp add: fraction_part_def frac_text_def rd_def)
  qed
  have 3: "exponent_part t e ?r = Some (0, ?r + length (exp_text ex))"
    using assms(3) by (intro exponent_part_occurs [OF o(3) stop]) simp
  show ?thesis
    by (simp add: number_end_def 1 2 3)
qed

lemma number_text_start:
  assumes "number_ok n"
  obtains c r where "number_text n = c # r" "c = ch_of CHR ''-'' \<or> is_digit c"
proof -
  obtain neg ds fr ex where n: "n = Number neg ds fr ex" by (cases n)
  obtain d r where "ds = d # r" "is_digit d" using assms by (cases ds) (auto simp: n is_digits_def)
  then show thesis using that by (cases neg) (auto simp: n ascii_def)
qed

lemma digit_not_space: "is_digit c \<Longrightarrow> \<not> is_space c"
  by (auto simp: is_digit_def is_space_def)

lemma parse_number_occurs:
  assumes "at_state t off p name evs f" "occurs t e off (number_text n)" "number_ok n"
    "stops t e (off + length (number_text n))" "shown p"
  shows "\<exists>f'. parse_number t e f = Some (0, f') \<and>
    at_state t (off + length (number_text n)) p None (evs @ [event_of name p JSON_TYPE_NUMBER (Some off) (length (number_text n))]) f'"
proof -
  obtain c r where c: "number_text n = c # r" "c = ch_of CHR ''-'' \<or> is_digit c"
    using number_text_start [OF assms(3)] by blast
  have sp: "\<not> is_space c" using c(2) digit_not_space by (auto simp: is_space_def)
  have "occurs t e off ([] @ c # r)" using assms(2) c(1) by simp
  note cu = cur_occurs [OF assms(1) this _ sp]
  have f: "f\<lparr>cur_pos := off\<rparr> = f" "cur_pos f = off" using assms(1) by (auto simp: at_state_def)
  obtain g where g: "append_to_path [] f = (length p, g)" "at_state t off p name evs g"
    using append_to_path_state [OF assms(1), of "[]"] assms(1) by (auto simp: at_state_def)
  have gc: "cur_pos g = off" using g(2) by (simp add: at_state_def)
  obtain neg ds fr ex where n: "n = Number neg ds fr ex" by (cases n)
  have nend: "number_end t e (if c = ch_of CHR ''-'' then off + 1 else off) = Some (0, off + length (number_text n))"
  proof (cases neg)
    case True
    then have "c = ch_of CHR ''-''" using c(1) by (simp add: n ascii_def)
    moreover have "occurs t e (off + 1) (ds @ frac_text fr @ exp_text ex)"
      using assms(2) True by (simp add: n ascii_def occurs_Cons)
    ultimately show ?thesis
      using number_end_occurs [of t e "off + 1" ds fr ex neg] assms(3,4) True by (simp add: n ascii_def)
  next
    case False
    then have "c \<noteq> ch_of CHR ''-''"
      using c(1) assms(3) not_digit by (cases ds) (auto simp: n is_digits_def)
    then show ?thesis
      using number_end_occurs [of t e off ds fr ex neg] assms(2,3,4) False by (simp add: n)
  qed
  let ?q = "off + length (number_text n)"
  have "at_state t ?q p name evs (truncate_path (length p) (g\<lparr>cur_pos := ?q\<rparr>))"
    by (rule truncate_path_state [OF set_cur_state [OF g(2)]])
  from call_back_state [OF this assms(5), of JSON_TYPE_NUMBER "Some off" "length (number_text n)"] obtain f' where
    f': "call_back t JSON_TYPE_NUMBER (Some off) (length (number_text n)) (truncate_path (length p) (g\<lparr>cur_pos := ?q\<rparr>)) = Some (0, f')"
    "at_state t ?q p None (evs @ [event_of name p JSON_TYPE_NUMBER (Some off) (length (number_text n))]) f'" by blast
  have "parse_number t e f = Some (0, f')"
    using cu(1) nend f'(1) by (cases "c = ch_of CHR ''-''") (simp_all add: parse_number_def f g(1) gc Let_def)
  then show ?thesis using f'(2) by blast
qed

lemma expect_loop_occurs: "occurs t e off s \<Longrightarrow> expect_loop t e off s = Some 0"
  by (induction s arbitrary: off) (auto simp: occurs_Cons rd_def)

lemma expect_occurs:
  assumes "at_state t off p name evs f" "occurs t e off s" "shown p"
  shows "\<exists>f'. expect t e s tok f = Some (0, f') \<and>
    at_state t (off + length s) p None (evs @ [event_of name p tok (Some off) (length s)]) f'"
proof -
  obtain g where g: "append_to_path [] f = (length p, g)" "at_state t off p name evs g"
    using append_to_path_state [OF assms(1), of "[]"] assms(1) by (auto simp: at_state_def)
  have gc: "cur_pos g = off" "cur_pos f = off" using g(2) assms(1) by (simp_all add: at_state_def)
  let ?q = "off + length s"
  have "at_state t ?q p name evs (truncate_path (length p) (g\<lparr>cur_pos := ?q\<rparr>))"
    by (rule truncate_path_state [OF set_cur_state [OF g(2)]])
  from call_back_state [OF this assms(3), of tok "Some off" "length s"] obtain f' where
    f': "call_back t tok (Some off) (length s) (truncate_path (length p) (g\<lparr>cur_pos := ?q\<rparr>)) = Some (0, f')"
    "at_state t ?q p None (evs @ [event_of name p tok (Some off) (length s)]) f'" by blast
  have "expect t e s tok f = Some (0, f')"
    using expect_loop_occurs [OF assms(2)] f'(1) by (simp add: expect_def g(1) gc Let_def truncate_path_inv)
  then show ?thesis using f'(2) by blast
qed

section \<open>Arrays and objects\<close>

lemma name_element_state:
  assumes "at_state t off p name evs f" "length p + length (index_text i) < JSON_MAX_PATH_LEN"
  shows "\<exists>f'. name_element i f = Some (length p, f') \<and> at_state t off (p @ index_text i) (Some (dec_nat i)) evs f'"
proof -
  obtain g where g: "append_to_path (index_text i) f = (length p, g)" "at_state t off (p @ index_text i) name evs g"
    using append_to_path_state [OF assms index_text_no_NUL] by blast
  define f' where "f' = g\<lparr>cur_name := PathName (path_len g - length (index_text i) + 1), cur_name_len := length (index_text i) - 2\<rparr>"
  have len: "path_len g = length p + length (index_text i)" "length (index_text i) = length (dec_nat i) + 2"
    using g(2) by (simp_all add: at_state_def index_text_def ascii_def)
  have "path_strlen g = Some (path_len g)"
    using g(2) by (intro path_strlen_at) (simp_all add: at_state_def)
  then have f: "name_element i f = Some (length p, f')"
    using g(1) len(1) by (simp add: name_element_def f'_def index_text_def)
  have "slice (length p + 1) (length (dec_nat i)) (path_buf g) =
      slice (length p + 1) (length (dec_nat i)) (take (length (p @ index_text i)) (path_buf g))"
    using len by (intro slice_take) simp
  also have "\<dots> = slice (length p + 1) (length (dec_nat i)) (p @ index_text i)"
    using g(2) by (simp only: at_state_def)
  also have "\<dots> = dec_nat i"
    by (simp add: slice_def index_text_def ascii_def)
  finally have "name_bytes t f' = Some (Some (dec_nat i))"
    using g(2) len by (simp add: f'_def name_bytes_def text_slice_def at_state_def)
  then have "at_state t off (p @ index_text i) (Some (dec_nat i)) evs f'"
    using g(2) len by (auto simp: at_state_def f'_def)
  then show ?thesis using f by blast
qed

lemma shown_index: "shown (p @ index_text i)"
  by (simp add: shown_def index_text_def ascii_def)

lemma name_pair_state:
  assumes "at_state t (tok + length k + 2) p name evs f" "occurs t e tok ([34] @ k @ [34])" "length p + length k < JSON_MAX_PATH_LEN"
    "0 \<notin> set k"
  shows "\<exists>f'. name_pair t tok f = Some (length p, f') \<and> at_state t (tok + length k + 2) (p @ k) (Some k) evs f'"
proof -
  have o: "tok < length t" "t ! tok = 34" "occurs t e (tok + 1) k"
    using assms(2) by (auto simp: occurs_Cons occurs_append)
  then have k: "tok + 1 + length k \<le> length t" "slice (tok + 1) (length k) t = k"
    by (auto simp: occurs_def)
  have pos: "cur_pos f - tok - 2 = length k" using assms(1) by (simp add: at_state_def)
  let ?g = "f\<lparr>cur_name := TextName (tok + 1), cur_name_len := length k\<rparr>"
  have "at_state t (tok + length k + 2) p (Some k) evs ?g"
    using assms(1) k by (simp add: at_state_def name_bytes_def text_slice_def)
  then obtain f' where f': "append_to_path k ?g = (length p, f')" "at_state t (tok + length k + 2) (p @ k) (Some k) evs f'"
    using append_to_path_state assms(3,4) by blast
  have "name_pair t tok f = Some (length p, f')"
    using o k pos f'(1) by (simp add: name_pair_def rd_def text_slice_def Let_def)
  then show ?thesis using f'(2) by blast
qed

definition parses :: "byte list \<Rightarrow> nat \<Rightarrow> byte list \<Rightarrow> nat \<Rightarrow> (frozen \<Rightarrow> outcome) \<Rightarrow> json \<Rightarrow> bool" where
  "parses t e w lo pv v \<longleftrightarrow> (\<forall>off start p name evs f. lo \<le> off \<longrightarrow> start = off \<or> start = off + length w \<longrightarrow>
     at_state t start p name evs f \<longrightarrow> shown p \<longrightarrow> occurs t e off (render w v) \<longrightarrow>
     stops t e (off + length (render w v)) \<longrightarrow> json_ok (length p) v \<longrightarrow>
     (\<exists>f'. pv f = Some (0, f') \<and> at_state t (off + length (render w v)) p None (evs @ value_events w p name off v) f'))"

lemma parsesD:
  assumes "parses t e w lo pv v" "lo \<le> off" "start = off \<or> start = off + length w"
    "at_state t start p name evs f" "shown p" "occurs t e off (render w v)"
    "stops t e (off + length (render w v))" "json_ok (length p) v"
  obtains f' where "pv f = Some (0, f')" "at_state t (off + length (render w v)) p None (evs @ value_events w p name off v) f'"
  using assms unfolding parses_def by blast

lemma stops_before:
  assumes "occurs t e q (u @ c # r)" "list_all is_space u" "c \<in> {ch_of CHR '','', ch_of CHR '']'', ch_of CHR ''}''}"
  shows "stops t e q"
proof (cases u)
  case Nil
  then show ?thesis using assms by (auto simp: stops_def occurs_Cons is_digit_def)
next
  case (Cons x u')
  then show ?thesis using assms by (auto simp: stops_def occurs_Cons is_digit_def is_space_def)
qed

lemma closers_not_space: "\<not> is_space (ch_of CHR '','')" "\<not> is_space (ch_of CHR '']'')" "\<not> is_space (ch_of CHR ''}'')"
  "\<not> is_space (ch_of CHR '':'')" "\<not> is_space (ch_of CHR ''['')" "\<not> is_space (ch_of CHR ''{'')"
  by (simp_all add: is_space_def)

lemma skip_comma_occurs:
  assumes "at_state t off p name evs f" "occurs t e off (u @ ch_of CHR '','' # r)" "list_all is_space u"
  shows "skip_comma t e f = Some (0, f\<lparr>cur_pos := off + length u + 1\<rparr>)"
    "at_state t (off + length u + 1) p name evs (f\<lparr>cur_pos := off + length u + 1\<rparr>)"
  using cur_occurs [OF assms closers_not_space(1)] set_cur_state [OF assms(1)] by (simp_all add: skip_comma_def)

lemma skip_comma_absent:
  assumes "at_state t off p name evs f" "occurs t e off (u @ c # r)" "list_all is_space u"
    "c = ch_of CHR '']'' \<or> c = ch_of CHR ''}''"
  shows "skip_comma t e f = Some (0, f\<lparr>cur_pos := off + length u\<rparr>)"
    "at_state t (off + length u) p name evs (f\<lparr>cur_pos := off + length u\<rparr>)"
proof -
  have "\<not> is_space c" "c \<noteq> ch_of CHR '',''" using assms(4) closers_not_space by auto
  then show "skip_comma t e f = Some (0, f\<lparr>cur_pos := off + length u\<rparr>)"
    "at_state t (off + length u) p name evs (f\<lparr>cur_pos := off + length u\<rparr>)"
    using cur_occurs [OF assms(1,2,3)] by (simp_all add: skip_comma_def)
qed

lemma render_start:
  assumes "json_ok n v"
  obtains c r where "render w v = w @ c # r" "\<not> is_space c" "c \<noteq> ch_of CHR '']''" "c \<noteq> ch_of CHR ''}''"
proof (cases v)
  case (JNumber x)
  then obtain c r where "number_text x = c # r" "c = ch_of CHR ''-'' \<or> is_digit c"
    using assms number_text_start [of x] by auto
  moreover from this have "\<not> is_space c" "c \<noteq> ch_of CHR '']''" "c \<noteq> ch_of CHR ''}''"
    using digit_not_space [of c] by (auto simp: is_space_def is_digit_def)
  ultimately show thesis
    using that [of c r] JNumber by simp
qed (use that in \<open>auto simp: ascii_def is_space_def\<close>)

lemma array_loop_parses:
  assumes "\<And>v. v \<in> set vs \<Longrightarrow> parses t e w lo pv v" "lo \<le> off" "at_state t off p None evs f"
    "occurs t e off (render_elements w vs @ u @ [ch_of CHR '']''])" "list_all is_space w" "list_all is_space u"
    "elements_ok (length p) i vs" "e < k + off"
  shows "\<exists>f'. array_loop k pv t e i f = Some (0, f') \<and>
    at_state t (off + length (render_elements w vs) + length u) p None (evs @ element_events w p i off vs) f'"
  using assms
proof (induction vs arbitrary: i k off f evs u)
  case Nil
  then have o: "occurs t e off (u @ ch_of CHR '']'' # [])" by simp
  note c = cur_occurs [OF Nil.prems(3) o Nil.prems(6) closers_not_space(2)]
  obtain k' where "k = Suc k'" using Nil.prems(8) c(4) by (cases k) auto
  then show ?case using c(1,3) by simp
next
  case (Cons v vs)
  define rest where "rest = (if vs = [] then u @ [ch_of CHR '']'']
    else w @ ch_of CHR '','' # render_elements w vs @ u @ [ch_of CHR '']''])"
  have ok: "length p + length (index_text i) < JSON_MAX_PATH_LEN" "json_ok (length (p @ index_text i)) v"
      "elements_ok (length p) (i + 1) vs"
    using Cons.prems(7) by simp_all
  have o: "occurs t e off (render w v @ rest)"
    using Cons.prems(4) by (cases "vs = []") (simp_all add: rest_def ascii_def)
  then have o1: "occurs t e off (render w v)" and o2: "occurs t e (off + length (render w v)) rest"
    by (simp_all only: occurs_append)
  obtain c r where c: "render w v = w @ c # r" "\<not> is_space c" "c \<noteq> ch_of CHR '']''"
    using render_start [OF ok(2), of w] by metis
  note cu = cur_occurs [OF Cons.prems(3) _ Cons.prems(5) c(2), of e "r @ rest"]
  have o': "occurs t e off (w @ c # r @ rest)" using o c(1) by simp
  note cu = cu [OF o']
  obtain k' where k: "k = Suc k'" using Cons.prems(8) cu(4) by (cases k) auto
  obtain g where g: "name_element i (f\<lparr>cur_pos := off + length w\<rparr>) = Some (length p, g)"
      "at_state t (off + length w) (p @ index_text i) (Some (dec_nat i)) evs g"
    using name_element_state [OF cu(3) ok(1)] by blast
  have st: "stops t e (off + length (render w v))"
    using o2 Cons.prems(5,6) by (auto simp: rest_def intro: stops_before split: if_splits)
  have "parses t e w lo pv v" using Cons.prems(1) by simp
  from parsesD [OF this Cons.prems(2) _ g(2) shown_index o1 st ok(2)] obtain h where
    h: "pv g = Some (0, h)" "at_state t (off + length (render w v)) (p @ index_text i) None
      (evs @ value_events w (p @ index_text i) (Some (dec_nat i)) off v) h" by blast
  let ?q = "off + length (render w v)" and ?evs = "evs @ value_events w (p @ index_text i) (Some (dec_nat i)) off v"
  have tr: "at_state t ?q p None ?evs (truncate_path (length p) h)"
    by (rule truncate_path_back [OF h(2)])
  have long: "off < ?q" using c(1) by simp
  have step: "array_loop k pv t e i f = try_step (skip_comma t e (truncate_path (length p) h)) (array_loop k' pv t e (i + 1))"
    using cu(1) c(3) g(1) h(1) by (simp add: k try_step_def)
  show ?case
  proof (cases "vs = []")
    case True
    then have "occurs t e ?q (u @ ch_of CHR '']'' # [])" using o2 by (simp add: rest_def)
    note sk = skip_comma_absent [OF tr this Cons.prems(6)]
    have "occurs t e (?q + length u) ([] @ ch_of CHR '']'' # [])"
      using \<open>occurs t e ?q (u @ ch_of CHR '']'' # [])\<close> by (simp add: occurs_append)
    note c2 = cur_occurs [OF sk(2) this _ closers_not_space(2)]
    have "?q + length u < e" using c2(4) by simp
    then obtain k'' where "k' = Suc k''"
      using Cons.prems(8) k long by (cases k') auto
    then have "array_loop k' pv t e (i + 1) ((truncate_path (length p) h)\<lparr>cur_pos := ?q + length u\<rparr>) =
        Some (0, (truncate_path (length p) h)\<lparr>cur_pos := ?q + length u\<rparr>)"
      using c2(1) by simp
    then show ?thesis
      using step sk True by (simp add: try_step_def)
  next
    case False
    then have o3: "occurs t e ?q (w @ ch_of CHR '','' # render_elements w vs @ u @ [ch_of CHR '']''])" using o2 by (simp add: rest_def)
    note sk = skip_comma_occurs [OF tr o3 Cons.prems(5)]
    have "occurs t e (?q + length w + 1) (render_elements w vs @ u @ [ch_of CHR '']''])"
      using o3 by (simp add: occurs_append occurs_Cons)
    then have "\<exists>f'. array_loop k' pv t e (i + 1) ((truncate_path (length p) h)\<lparr>cur_pos := ?q + length w + 1\<rparr>) = Some (0, f') \<and>
        at_state t (?q + length w + 1 + length (render_elements w vs) + length u) p None
          (?evs @ element_events w p (i + 1) (?q + length w + 1) vs) f'"
      using Cons.prems(1,2,5,6,8) ok(3) sk(2) long k by (intro Cons.IH) auto
    then show ?thesis
      using step sk(1) False by (auto simp: try_step_def ascii_def add.assoc)
  qed
qed

lemma shown_key: "key_ok k \<Longrightarrow> shown (q @ k)"
  by (auto simp: shown_def key_ok_def)

text \<open>One member: \<open>p\<close> is the path of the object without the point.\<close>

lemma parse_pair_parses:
  assumes "parses t e w lo pv v" "lo \<le> off" "start = off \<or> start = off + length w"
    "at_state t start (p @ ascii ''.'') None evs f"
    "occurs t e off (w @ [34] @ k @ [34] @ w @ ascii '':'' @ render w v)" "list_all is_space w"
    "stops t e (off + 2 * length w + length k + 3 + length (render w v))"
    "key_ok k" "length p + 1 + length k < JSON_MAX_PATH_LEN" "json_ok (length p + 1 + length k) v"
  shows "\<exists>f'. parse_pair pv t e f = Some (0, f') \<and>
    at_state t (off + 2 * length w + length k + 3 + length (render w v)) (p @ ascii ''.'') None
      (evs @ value_events w (p @ ascii ''.'' @ k) (Some k) (off + 2 * length w + length k + 3) v) f'"
proof -
  let ?p = "p @ ascii ''.''" and ?tok = "off + length w"
  let ?o = "off + 2 * length w + length k + 3"
  have plen: "length ?p = length p + 1" by (simp add: ascii_def)
  have o: "occurs t e off (w @ 34 # k @ [34] @ w @ ascii '':'' @ render w v)" using assms(5) by simp
  have ow: "occurs t e ?tok (34 # k @ [34] @ w @ ascii '':'' @ render w v)" using o by (simp only: occurs_append)
  obtain f1 where f1: "skip_whitespaces t e f = Some f1" "at_state t ?tok ?p None evs f1" "cur_pos f1 = ?tok"
  proof (cases "start = off")
    case True
    then have st: "at_state t off ?p None evs f" using assms(4) by simp
    show thesis
      by (rule that [OF cur_occurs(2,3) [OF st o assms(6) quote_not_space(1)]]) simp
  next
    case False
    then have st: "at_state t ?tok ?p None evs f" using assms(3,4) by simp
    have o': "occurs t e ?tok ([] @ 34 # k @ [34] @ w @ ascii '':'' @ render w v)" using ow by simp
    show thesis
      by (rule that [OF cur_occurs(2) [OF st o' _ quote_not_space(1)]]) (use set_cur_state [OF st] in simp_all)
  qed
  have key: "occurs t e ?tok ([34] @ k @ [34])" and colon: "occurs t e (?tok + length k + 2) (w @ ch_of CHR '':'' # render w v)"
    using ow occurs_append [of t e ?tok "[34] @ k @ [34]" "w @ ascii '':'' @ render w v"]
    by (simp_all add: ascii_def)
  obtain f2 where f2: "parse_key t e f1 = Some (0, f2)" "at_state t (?tok + length k + 2) ?p None evs f2"
    using parse_key_occurs [OF f1(2) key] assms(8) by (auto simp: key_ok_def)
  obtain f3 where f3: "name_pair t ?tok f2 = Some (length ?p, f3)" "at_state t (?tok + length k + 2) (?p @ k) (Some k) evs f3"
    using name_pair_state [OF f2(2) key] assms(8,9) plen by (auto simp: key_ok_def)
  note sk = test_and_skip_occurs [OF f3(2) colon assms(6) closers_not_space(4)]
  have pos: "?tok + length k + 2 + length w + 1 = ?o" by simp
  have val: "occurs t e ?o (render w v)"
    unfolding pos [symmetric] using colon by (simp add: occurs_append occurs_Cons)
  have ok: "json_ok (length (?p @ k)) v" using assms(10) plen by simp
  obtain f4 where f4: "pv (f3\<lparr>cur_pos := ?o\<rparr>) = Some (0, f4)"
      "at_state t (?o + length (render w v)) (?p @ k) None (evs @ value_events w (?p @ k) (Some k) ?o v) f4"
    by (rule parsesD [OF assms(1) _ _ sk(2) [unfolded pos] shown_key [OF assms(8)] val assms(7) ok])
      (use assms(2) in auto)
  have "parse_pair pv t e f = Some (0, truncate_path (length ?p) f4)"
    using f1(1,3) f2(1) f3(1) sk(1) [unfolded pos] f4(1) by (simp add: parse_pair_def try_step_def)
  then show ?thesis
    using truncate_path_back [OF f4(2)] by (simp add: ascii_def)
qed

lemma object_loop_parses:
  assumes "\<And>k v. (k, v) \<in> set ms \<Longrightarrow> parses t e w lo pv v" "lo \<le> off" "at_state t off (p @ ascii ''.'') None evs f"
    "occurs t e off (render_members w ms @ u @ [ch_of CHR ''}''])" "list_all is_space w" "list_all is_space u"
    "members_ok (length p) ms" "e < d + off"
  shows "\<exists>f'. object_loop d pv t e f = Some (0, f') \<and>
    at_state t (off + length (render_members w ms) + length u) (p @ ascii ''.'') None (evs @ member_events w p off ms) f'"
  using assms
proof (induction ms arbitrary: d off f evs u)
  case Nil
  then have o: "occurs t e off (u @ ch_of CHR ''}'' # [])" by simp
  note c = cur_occurs [OF Nil.prems(3) o Nil.prems(6) closers_not_space(3)]
  obtain d' where "d = Suc d'" using Nil.prems(8) c(4) by (cases d) auto
  then show ?case using c(1,3) by simp
next
  case (Cons m ms)
  obtain k v where m: "m = (k, v)" by (cases m)
  define member where "member = w @ [34] @ k @ [34] @ w @ ascii '':'' @ render w v"
  define rest where "rest = (if ms = [] then u @ [ch_of CHR ''}'']
    else w @ ch_of CHR '','' # render_members w ms @ u @ [ch_of CHR ''}''])"
  have ok: "key_ok k" "length p + 1 + length k < JSON_MAX_PATH_LEN" "json_ok (length p + 1 + length k) v" "members_ok (length p) ms"
    using Cons.prems(7) by (simp_all add: m)
  have o: "occurs t e off (member @ rest)"
    using Cons.prems(4) by (cases "ms = []") (simp_all add: member_def rest_def m ascii_def)
  then have o1: "occurs t e off member" and o2: "occurs t e (off + length member) rest"
    by (simp_all only: occurs_append)
  have ml: "off + length member = off + 2 * length w + length k + 3 + length (render w v)"
    by (simp add: member_def ascii_def)
  have "occurs t e off (w @ 34 # k @ [34] @ w @ ascii '':'' @ render w v)" using o1 by (simp add: member_def)
  note cu = cur_occurs [OF Cons.prems(3) this Cons.prems(5) quote_not_space(1)]
  obtain d' where d: "d = Suc d'" using Cons.prems(8) cu(4) by (cases d) auto
  have st: "stops t e (off + length member)"
    using o2 Cons.prems(5,6) by (auto simp: rest_def intro: stops_before split: if_splits)
  have pv: "parses t e w lo pv v" using Cons.prems(1) [of k v] by (simp add: m)
  let ?o = "off + 2 * length w + length k + 3"
  let ?q = "?o + length (render w v)"
  let ?evs = "evs @ value_events w (p @ ascii ''.'' @ k) (Some k) ?o v"
  note o2 = o2 [unfolded ml] and st = st [unfolded ml]
  obtain h where h: "parse_pair pv t e (f\<lparr>cur_pos := off + length w\<rparr>) = Some (0, h)" "at_state t ?q (p @ ascii ''.'') None ?evs h"
    using parse_pair_parses [OF pv Cons.prems(2) _ cu(3) o1 [unfolded member_def] Cons.prems(5) st ok(1,2,3)] by auto
  have step: "object_loop d pv t e f = try_step (skip_comma t e h) (object_loop d' pv t e)"
    using cu(1) h(1) by (simp add: d try_step_def)
  show ?case
  proof (cases "ms = []")
    case True
    then have o3: "occurs t e ?q (u @ ch_of CHR ''}'' # [])" using o2 by (simp add: rest_def)
    note sk = skip_comma_absent [OF h(2) o3 Cons.prems(6)]
    have "occurs t e (?q + length u) ([] @ ch_of CHR ''}'' # [])"
      using o3 by (simp add: occurs_append)
    note c2 = cur_occurs [OF sk(2) this _ closers_not_space(3)]
    have "?q + length u < e" using c2(4) by simp
    then obtain d'' where "d' = Suc d''"
      using Cons.prems(8) d by (cases d') auto
    then have "object_loop d' pv t e (h\<lparr>cur_pos := ?q + length u\<rparr>) = Some (0, h\<lparr>cur_pos := ?q + length u\<rparr>)"
      using c2(1) by simp
    moreover have "off + length (render_members w (m # ms)) + length u = ?q + length u"
      "evs @ member_events w p off (m # ms) = ?evs"
      using True by (simp_all add: m ascii_def)
    ultimately show ?thesis
      using step sk by (simp only: try_step_def) simp
  next
    case False
    then have o3: "occurs t e ?q (w @ ch_of CHR '','' # render_members w ms @ u @ [ch_of CHR ''}''])" using o2 by (simp add: rest_def)
    note sk = skip_comma_occurs [OF h(2) o3 Cons.prems(5)]
    have o4: "occurs t e (?q + length w + 1) (render_members w ms @ u @ [ch_of CHR ''}''])"
      using o3 by (simp add: occurs_append occurs_Cons)
    obtain f' where f': "object_loop d' pv t e (h\<lparr>cur_pos := ?q + length w + 1\<rparr>) = Some (0, f')"
        "at_state t (?q + length w + 1 + length (render_members w ms) + length u) (p @ ascii ''.'') None
          (?evs @ member_events w p (?q + length w + 1) ms) f'"
      using Cons.IH [OF _ _ sk(2) o4 Cons.prems(5,6) ok(4), of d'] Cons.prems(1,2,8) d by auto
    moreover have "off + length (render_members w (m # ms)) + length u =
        ?q + length w + 1 + length (render_members w ms) + length u"
      "evs @ member_events w p off (m # ms) = ?evs @ member_events w p (?q + length w + 1) ms"
      using False by (simp_all add: m ascii_def)
    ultimately show ?thesis
      using step sk(1) by (simp only: try_step_def) simp
  qed
qed

lemma bracketed_parses:
  assumes "at_state t off p name evs f" "shown p" "length p + length str < JSON_MAX_PATH_LEN" "0 \<notin> set str"
    "occurs t e off (a # body @ u @ [b])" "\<not> is_space a" "\<not> is_space b"
    "\<And>g. at_state t (off + 1) (p @ str) None (evs @ [event_of name p ts None 0]) g \<Longrightarrow>
      \<exists>g'. loop g = Some (0, g') \<and> at_state t (off + 1 + length body + length u) (p @ str) None evs' g'"
  shows "\<exists>f'. bracketed t e ts te a b str loop f = Some (0, f') \<and>
    at_state t (off + length body + length u + 2) p None (evs' @ [event_of None p te (Some off) (length body + length u + 2)]) f'"
proof -
  let ?q = "off + 1 + length body + length u"
  obtain f1 where f1: "call_back t ts None 0 f = Some (0, f1)" "at_state t off p None (evs @ [event_of name p ts None 0]) f1"
    using call_back_state [OF assms(1,2)] by blast
  have "occurs t e off ([] @ a # body @ u @ [b])" using assms(5) by simp
  note sk = test_and_skip_occurs [OF f1(2) this _ assms(6), simplified]
  have "at_state t (off + 1) p None (evs @ [event_of name p ts None 0]) (f1\<lparr>cur_pos := off + 1\<rparr>)"
    using sk(2) by simp
  then obtain f2 where f2: "append_to_path str (f1\<lparr>cur_pos := Suc off\<rparr>) = (length p, f2)"
      "at_state t (off + 1) (p @ str) None (evs @ [event_of name p ts None 0]) f2"
    using append_to_path_state assms(3,4) by (metis Suc_eq_plus1)
  obtain f3 where f3: "loop f2 = Some (0, f3)" "at_state t ?q (p @ str) None evs' f3"
    using assms(8) [OF f2(2)] by blast
  have "occurs t e ?q ([] @ b # [])"
    using assms(5) by (simp add: occurs_Cons occurs_append)
  note sk3 = test_and_skip_occurs [OF f3(2) this _ assms(7), simplified]
  have f4: "at_state t (?q + 1) p None evs' (truncate_path (length p) (f3\<lparr>cur_pos := ?q + 1\<rparr>))"
    using truncate_path_back sk3(2) by simp
  have len: "Suc (Suc (off + length body + length u)) - off = length body + length u + 2" by simp
  from call_back_state [OF f4 assms(2), of te "Some off" "length body + length u + 2"] obtain f5 where
    f5: "call_back t te (Some off) (length body + length u + 2) (truncate_path (length p) (f3\<lparr>cur_pos := ?q + 1\<rparr>)) = Some (0, f5)"
    "at_state t (?q + 1) p None (evs' @ [event_of None p te (Some off) (length body + length u + 2)]) f5" by blast
  have "bracketed t e ts te a b str loop f = Some (0, f5)"
    using f1(1) sk(1) f2(1) f3(1) sk3(1) f5(1) len by (simp add: bracketed_def try_step_def truncate_path_inv Let_def)
  then show ?thesis using f5(2) by (auto simp: add.commute)
qed

section \<open>Values\<close>

lemma render_array: "render w (JArray vs) = w @ ch_of CHR ''['' # render_elements w vs @ w @ [ch_of CHR '']'']"
  by (simp add: ascii_def)

lemma render_object: "render w (JObject ms) = w @ ch_of CHR ''{'' # render_members w ms @ w @ [ch_of CHR ''}'']"
  by (simp add: ascii_def)

text \<open>\<open>parse_value\<close> at the first character of a value.\<close>

lemma parse_value_cur:
  assumes "cur t e f = Some (Some c, g)"
  shows "c = 34 \<Longrightarrow> parse_value (Suc d) t e f = parse_string t e g"
    "c = ch_of CHR ''{'' \<Longrightarrow> parse_value (Suc d) t e f = parse_object (Suc d) (parse_value d t e) t e g"
    "c = ch_of CHR ''['' \<Longrightarrow> parse_value (Suc d) t e f = parse_array (Suc d) (parse_value d t e) t e g"
    "c = ch_of CHR ''n'' \<Longrightarrow> parse_value (Suc d) t e f = expect t e (ascii ''null'') JSON_TYPE_NULL g"
    "c = ch_of CHR ''t'' \<Longrightarrow> parse_value (Suc d) t e f = expect t e (ascii ''true'') JSON_TYPE_TRUE g"
    "c = ch_of CHR ''f'' \<Longrightarrow> parse_value (Suc d) t e f = expect t e (ascii ''false'') JSON_TYPE_FALSE g"
    "c = ch_of CHR ''-'' \<or> is_digit c \<Longrightarrow> parse_value (Suc d) t e f = parse_number t e g"
  using assms by (auto simp: is_digit_def)

lemma digit_or_minus: "c = ch_of CHR ''-'' \<or> is_digit c \<Longrightarrow> \<not> is_space c"
  using digit_not_space by (auto simp: is_space_def)

lemma start_cur:
  assumes "at_state t start p name evs f" "start = off \<or> start = off + length w" "occurs t e off (w @ c # r)"
    "list_all is_space w" "\<not> is_space c"
  shows "cur t e f = Some (Some c, f\<lparr>cur_pos := off + length w\<rparr>)"
    "at_state t (off + length w) p name evs (f\<lparr>cur_pos := off + length w\<rparr>)" "off + length w < e"
    "occurs t e (off + length w) (c # r)"
proof -
  show o: "occurs t e (off + length w) (c # r)" "off + length w < e"
    using assms(3) by (auto simp: occurs_append occurs_Cons)
  show "cur t e f = Some (Some c, f\<lparr>cur_pos := off + length w\<rparr>)"
  proof (cases "start = off")
    case True
    then show ?thesis using cur_occurs(1) [OF _ assms(3,4,5)] assms(1) by simp
  next
    case False
    then show ?thesis
      using cur_occurs(1) [of t "off + length w" p name evs f e "[]" c r] assms(1,2,5) o(1) by simp
  qed
  show "at_state t (off + length w) p name evs (f\<lparr>cur_pos := off + length w\<rparr>)"
    by (rule set_cur_state [OF assms(1)])
qed

lemma parses_valueI:
  assumes "list_all is_space w" "e < d + lo"
    "\<And>n. json_ok n v \<Longrightarrow> \<exists>c r. render w v = w @ c # r \<and> \<not> is_space c \<and>
      (\<forall>d f g. cur t e f = Some (Some c, g) \<longrightarrow> parse_value (Suc d) t e f = K d g)"
    "\<And>d' off g p name evs. d = Suc d' \<Longrightarrow> lo \<le> off \<Longrightarrow> at_state t (off + length w) p name evs g \<Longrightarrow> shown p \<Longrightarrow>
      occurs t e off (render w v) \<Longrightarrow> stops t e (off + length (render w v)) \<Longrightarrow> json_ok (length p) v \<Longrightarrow>
      \<exists>f'. K d' g = Some (0, f') \<and> at_state t (off + length (render w v)) p None (evs @ value_events w p name off v) f'"
  shows "parses t e w lo (parse_value d t e) v"
  unfolding parses_def
proof (intro allI impI)
  fix off start p name evs f
  assume h: "lo \<le> off" "start = off \<or> start = off + length w" "at_state t start p name evs f" "shown p"
    "occurs t e off (render w v)" "stops t e (off + length (render w v))" "json_ok (length p) v"
  obtain c r where c: "render w v = w @ c # r" "\<not> is_space c"
      "\<And>d f g. cur t e f = Some (Some c, g) \<Longrightarrow> parse_value (Suc d) t e f = K d g"
    using assms(3) [OF h(7)] by blast
  note st = start_cur [OF h(3,2) h(5) [unfolded c(1)] assms(1) c(2)]
  obtain d' where d: "d = Suc d'" using st(3) assms(2) h(1) by (cases d) auto
  show "\<exists>f'. parse_value d t e f = Some (0, f') \<and> at_state t (off + length (render w v)) p None (evs @ value_events w p name off v) f'"
    unfolding d c(3) [OF st(1)] by (rule assms(4) [OF d h(1) st(2) h(4,5,6,7)])
qed

lemma literal_parses:
  assumes "list_all is_space w" "e < d + lo" "render w v = w @ s" "s = c # r" "\<not> is_space c"
    "\<And>off name p. value_events w p name off v = [event_of name p tok (Some (off + length w)) (length s)]"
    "\<And>d f g. cur t e f = Some (Some c, g) \<Longrightarrow> parse_value (Suc d) t e f = expect t e s tok g"
  shows "parses t e w lo (parse_value d t e) v"
proof (rule parses_valueI [OF assms(1,2), where K = "\<lambda>_. expect t e s tok"])
  show "\<exists>c r. render w v = w @ c # r \<and> \<not> is_space c \<and>
      (\<forall>d f g. cur t e f = Some (Some c, g) \<longrightarrow> parse_value (Suc d) t e f = expect t e s tok g)" for n
    using assms(3,4,5,7) by blast
next
  fix off g p name evs
  assume h: "at_state t (off + length w) p name evs g" "shown p" "occurs t e off (render w v)"
  have "occurs t e (off + length w) s" using h(3) by (simp only: assms(3) occurs_append)
  from expect_occurs [OF h(1) this h(2), of tok]
  show "\<exists>f'. expect t e s tok g = Some (0, f') \<and> at_state t (off + length (render w v)) p None (evs @ value_events w p name off v) f'"
    by (simp add: assms(3,6) add.assoc)
qed

lemma number_parses:
  assumes "list_all is_space w" "e < d + lo"
  shows "parses t e w lo (parse_value d t e) (JNumber n)"
proof (rule parses_valueI [OF assms, where K = "\<lambda>_. parse_number t e"])
  show "\<exists>c r. render w (JNumber n) = w @ c # r \<and> \<not> is_space c \<and>
      (\<forall>d f g. cur t e f = Some (Some c, g) \<longrightarrow> parse_value (Suc d) t e f = parse_number t e g)" if "json_ok m (JNumber n)" for m
  proof -
    have "number_ok n" using that by simp
    then obtain c r where c: "number_text n = c # r" "c = ch_of CHR ''-'' \<or> is_digit c"
      by (rule number_text_start)
    have "\<forall>d f g. cur t e f = Some (Some c, g) \<longrightarrow> parse_value (Suc d) t e f = parse_number t e g"
      using parse_value_cur(7) [OF _ c(2)] by blast
    then show ?thesis
      using c(1) digit_or_minus [OF c(2)] by (auto simp del: parse_value.simps)
  qed
next
  fix off g p name evs
  assume h: "at_state t (off + length w) p name evs g" "shown p" "occurs t e off (render w (JNumber n))"
    "stops t e (off + length (render w (JNumber n)))" "json_ok (length p) (JNumber n)"
  have "occurs t e (off + length w) (number_text n)" using h(3) by (simp add: occurs_append)
  from parse_number_occurs [OF h(1) this _ _ h(2)] h(4,5)
  show "\<exists>f'. parse_number t e g = Some (0, f') \<and>
      at_state t (off + length (render w (JNumber n))) p None (evs @ value_events w p name off (JNumber n)) f'"
    by (simp add: add.assoc)
qed

lemma string_parses:
  assumes "list_all is_space w" "e < d + lo"
  shows "parses t e w lo (parse_value d t e) (JString s)"
proof (rule parses_valueI [OF assms, where K = "\<lambda>_. parse_string t e"])
  show "\<exists>c r. render w (JString s) = w @ c # r \<and> \<not> is_space c \<and>
      (\<forall>d f g. cur t e f = Some (Some c, g) \<longrightarrow> parse_value (Suc d) t e f = parse_string t e g)" for n
    using parse_value_cur(1) [OF _ refl, of t e] quote_not_space(1) by (auto simp del: parse_value.simps)
next
  fix off g p name evs
  assume h: "at_state t (off + length w) p name evs g" "shown p" "occurs t e off (render w (JString s))" "json_ok (length p) (JString s)"
  have "occurs t e (off + length w) ([] @ [34] @ s @ [34])" using h(3) by (simp add: occurs_append)
  from parse_string_occurs [OF h(1) this _ _ h(2)] h(4)
  show "\<exists>f'. parse_string t e g = Some (0, f') \<and>
      at_state t (off + length (render w (JString s))) p None (evs @ value_events w p name off (JString s)) f'"
    by (simp add: add.commute add.left_commute)
qed

lemma array_parses:
  assumes "list_all is_space w" "e < d + lo"
    "\<And>v d lo. v \<in> set vs \<Longrightarrow> e < d + lo \<Longrightarrow> parses t e w lo (parse_value d t e) v"
  shows "parses t e w lo (parse_value d t e) (JArray vs)"
proof (rule parses_valueI [OF assms(1,2), where K = "\<lambda>d. parse_array (Suc d) (parse_value d t e) t e"])
  show "\<exists>c r. render w (JArray vs) = w @ c # r \<and> \<not> is_space c \<and>
      (\<forall>d f g. cur t e f = Some (Some c, g) \<longrightarrow> parse_value (Suc d) t e f = parse_array (Suc d) (parse_value d t e) t e g)" for n
    using parse_value_cur(3) [OF _ refl, of t e] closers_not_space(5) unfolding render_array by blast
next
  fix d' off g p name evs
  assume h: "d = Suc d'" "lo \<le> off" "at_state t (off + length w) p name evs g" "shown p" "occurs t e off (render w (JArray vs))"
    "json_ok (length p) (JArray vs)"
  let ?body = "render_elements w vs" and ?start = "event_of name p JSON_TYPE_ARRAY_START None 0" and ?o = "off + length w"
  have o: "occurs t e ?o (ch_of CHR ''['' # ?body @ w @ [ch_of CHR '']''])"
    using h(5) by (simp only: render_array occurs_append)
  have p: "length p + length [] < JSON_MAX_PATH_LEN" using h(3) by (simp add: at_state_def)
  have loop: "\<exists>g'. array_loop (Suc d') (parse_value d' t e) t e 0 k = Some (0, g') \<and>
      at_state t (?o + 1 + length ?body + length w) (p @ []) None ((evs @ [?start]) @ element_events w p 0 (?o + 1) vs) g'"
    if "at_state t (?o + 1) (p @ []) None (evs @ [?start]) k" for k
    using that array_loop_parses [where lo = "?o + 1" and pv = "parse_value d' t e" and vs = vs and p = p and u = w and i = 0
        and off = "?o + 1" and k = "Suc d'" and f = k and evs = "evs @ [?start]" and t = t and e = e and w = w]
      assms(1,2,3) h(1,2,6) o by (simp add: occurs_Cons)
  from bracketed_parses [where ts = JSON_TYPE_ARRAY_START and te = JSON_TYPE_ARRAY_END and loop = "array_loop (Suc d') (parse_value d' t e) t e 0",
      OF h(3,4) p _ o closers_not_space(5,2) loop]
  show "\<exists>f'. parse_array (Suc d') (parse_value d' t e) t e g = Some (0, f') \<and>
      at_state t (off + length (render w (JArray vs))) p None (evs @ value_events w p name off (JArray vs)) f'"
    unfolding parse_array_bracketed by (simp add: ascii_def algebra_simps)
qed

lemma object_parses:
  assumes "list_all is_space w" "e < d + lo"
    "\<And>k v d lo. (k, v) \<in> set ms \<Longrightarrow> e < d + lo \<Longrightarrow> parses t e w lo (parse_value d t e) v"
  shows "parses t e w lo (parse_value d t e) (JObject ms)"
proof (rule parses_valueI [OF assms(1,2), where K = "\<lambda>d. parse_object (Suc d) (parse_value d t e) t e"])
  show "\<exists>c r. render w (JObject ms) = w @ c # r \<and> \<not> is_space c \<and>
      (\<forall>d f g. cur t e f = Some (Some c, g) \<longrightarrow> parse_value (Suc d) t e f = parse_object (Suc d) (parse_value d t e) t e g)" for n
    using parse_value_cur(2) [OF _ refl, of t e] closers_not_space(6) unfolding render_object by blast
next
  fix d' off g p name evs
  assume h: "d = Suc d'" "lo \<le> off" "at_state t (off + length w) p name evs g" "shown p" "occurs t e off (render w (JObject ms))"
    "json_ok (length p) (JObject ms)"
  let ?body = "render_members w ms" and ?start = "event_of name p JSON_TYPE_OBJECT_START None 0" and ?o = "off + length w"
  have o: "occurs t e ?o (ch_of CHR ''{'' # ?body @ w @ [ch_of CHR ''}''])"
    using h(5) by (simp only: render_object occurs_append)
  have p: "length p + length (ascii ''.'') < JSON_MAX_PATH_LEN" using h(6) by (simp add: ascii_def)
  have z: "0 \<notin> set (ascii ''.'')" by (simp add: ascii_def)
  have loop: "\<exists>g'. object_loop (Suc d') (parse_value d' t e) t e k = Some (0, g') \<and>
      at_state t (?o + 1 + length ?body + length w) (p @ ascii ''.'') None ((evs @ [?start]) @ member_events w p (?o + 1) ms) g'"
    if "at_state t (?o + 1) (p @ ascii ''.'') None (evs @ [?start]) k" for k
    using that object_loop_parses [where lo = "?o + 1" and pv = "parse_value d' t e" and ms = ms and p = p and u = w
        and off = "?o + 1" and d = "Suc d'" and f = k and evs = "evs @ [?start]" and t = t and e = e and w = w]
      assms(1,2,3) h(1,2,6) o by (simp add: occurs_Cons)
  from bracketed_parses [where ts = JSON_TYPE_OBJECT_START and te = JSON_TYPE_OBJECT_END and loop = "object_loop (Suc d') (parse_value d' t e) t e",
      OF h(3,4) p z o closers_not_space(6,3) loop]
  show "\<exists>f'. parse_object (Suc d') (parse_value d' t e) t e g = Some (0, f') \<and>
      at_state t (off + length (render w (JObject ms))) p None (evs @ value_events w p name off (JObject ms)) f'"
    unfolding parse_object_bracketed by (simp add: ascii_def algebra_simps)
qed

lemma literal_lengths: "length (ascii ''null'') = 4" "length (ascii ''true'') = 4" "length (ascii ''false'') = 5"
  by (simp_all add: ascii_def)

lemma parse_value_parses:
  assumes "list_all is_space w" "e < d + lo"
  shows "parses t e w lo (parse_value d t e) v"
  using assms(2)
proof (induction v arbitrary: d lo)
  case JNull
  show ?case
    by (rule literal_parses [OF assms(1) JNull, where tok = JSON_TYPE_NULL and s = "ascii ''null''"], unfold literal_lengths)
      (auto simp: ascii_def is_space_def simp del: parse_value.simps intro!: parse_value_cur(4) [unfolded ascii_def, simplified])
next
  case JTrue
  show ?case
    by (rule literal_parses [OF assms(1) JTrue, where tok = JSON_TYPE_TRUE and s = "ascii ''true''"], unfold literal_lengths)
      (auto simp: ascii_def is_space_def simp del: parse_value.simps intro!: parse_value_cur(5) [unfolded ascii_def, simplified])
next
  case JFalse
  show ?case
    by (rule literal_parses [OF assms(1) JFalse, where tok = JSON_TYPE_FALSE and s = "ascii ''false''"], unfold literal_lengths)
      (auto simp: ascii_def is_space_def simp del: parse_value.simps intro!: parse_value_cur(6) [unfolded ascii_def, simplified])
next
  case (JNumber n)
  then show ?case by (rule number_parses [OF assms(1)])
next
  case (JString s)
  then show ?case by (rule string_parses [OF assms(1)])
next
  case (JArray vs)
  then show ?case by (intro array_parses [OF assms(1)])
next
  case (JObject ms)
  show ?case
    by (rule object_parses [OF assms(1) JObject.prems]) (rule JObject.IH, auto)
qed

lemma frozen_init_state: "at_state t 0 [] None [] frozen_init"
  by (simp add: at_state_def frozen_init_def JSON_MAX_PATH_LEN_def name_bytes_def)

lemma json_walk_reads_render:
  assumes "json_ok 0 v" "list_all is_space w"
    "rest = [] \<or> \<not> is_digit (hd rest) \<and> hd rest \<notin> {ch_of CHR ''.'', ch_of CHR ''e'', ch_of CHR ''E''}"
  shows "json_walk (render w v @ rest) (length (render w v @ rest)) =
    Some (int (length (render w v)), value_events w [] None 0 v)"
proof -
  let ?t = "render w v @ rest" and ?e = "length (render w v @ rest)"
  obtain c r where c: "render w v = w @ c # r" using render_start [OF assms(1)] by metis
  have o: "occurs ?t ?e 0 (render w v)" by (simp add: occurs_def slice_def)
  have st: "stops ?t ?e (0 + length (render w v))"
    using assms(3) by (cases rest) (auto simp: stops_def nth_append)
  have p: "parses ?t ?e w 0 (parse_value (?e + 1) ?t ?e) v"
    by (rule parse_value_parses [OF assms(2)]) simp
  obtain f' where f': "parse_value (?e + 1) ?t ?e frozen_init = Some (0, f')"
      "at_state ?t (0 + length (render w v)) [] None ([] @ value_events w [] None 0 v) f'"
    by (rule parsesD [OF p _ _ frozen_init_state _ o st]) (use assms(1) in \<open>auto simp: shown_def\<close>)
  have "?e \<noteq> cur_pos frozen_init" using c by (simp add: frozen_init_def)
  then show ?thesis
    using f' unfolding json_walk_def doit_def by (simp add: at_state_def del: parse_value.simps)
qed



end
