(* ===== verification/JsonText.thy ===== *)
theory JsonText
  imports JsonRender
begin

unbundle bit_operations_syntax

text \<open>
  The strings of \<^verbatim>\<open>lib_util/json_frozen.c\<close>: the printers \<^verbatim>\<open>json_printer_buf\<close> and \<^verbatim>\<open>json_sprinter\<close>,
  \<^verbatim>\<open>json_escape\<close> and \<^verbatim>\<open>json_unescape\<close>, and the base64 and hexadecimal text of \<^verbatim>\<open>%V\<close> and \<^verbatim>\<open>%H\<close>.
  A printer is given its output and a list of bytes and returns their number and the new output.
  As in the C locale, \<^verbatim>\<open>isprint\<close> holds from 32 to 126.
\<close>

section \<open>Printers\<close>

record json_buf =
  jb_buf :: "byte list"
  jb_size :: nat
  jb_len :: nat

definition json_printer_buf :: "json_buf \<Rightarrow> byte list \<Rightarrow> nat \<times> json_buf" where
  "json_printer_buf out s =
     (let avail = jb_size out - jb_len out; n = (if length s < avail then length s else avail);
          out = out\<lparr>jb_buf := overwrite (jb_len out) (take n s) (jb_buf out), jb_len := jb_len out + n\<rparr>;
          idx = (if jb_len out \<ge> jb_size out then jb_size out - 1 else jb_len out)
      in (length s, if jb_size out > 0 then out\<lparr>jb_buf := (jb_buf out)[idx := 0]\<rparr> else out))"

text \<open>The allocated text without its last byte, the terminator; \<open>alloc n\<close>: \<^verbatim>\<open>realloc\<close> gives \<open>n\<close> bytes.\<close>

definition json_sprinter :: "(nat \<Rightarrow> bool) \<Rightarrow> byte list option \<Rightarrow> byte list \<Rightarrow> nat \<times> byte list option" where
  "json_sprinter alloc out s =
     (let old = (case out of None \<Rightarrow> [] | Some b \<Rightarrow> takeWhile (\<lambda>c. c \<noteq> 0) b); new_len = length s + length old
      in (length s, if alloc (new_len + 1) then Some (old @ s) else out))"

definition print_piece :: "('o \<Rightarrow> byte list \<Rightarrow> nat \<times> 'o) \<Rightarrow> nat \<times> 'o \<Rightarrow> byte list \<Rightarrow> nat \<times> 'o" where
  "print_piece printer st s = (let (n, out) = st; (k, out) = printer out s in (n + k, out))"

text \<open>What a caller relies on: printing in pieces is printing at once.\<close>

locale json_printer =
  fixes printer :: "'o \<Rightarrow> byte list \<Rightarrow> nat \<times> 'o" and ok :: "'o \<Rightarrow> bool"
  assumes printer_len: "fst (printer out s) = length s"
    and printer_ok: "ok out \<Longrightarrow> ok (snd (printer out s))"
    and printer_join: "\<lbrakk>ok out; s \<noteq> []; 0 \<notin> set s; 0 \<notin> set s'\<rbrakk> \<Longrightarrow>
      snd (printer (snd (printer out s)) s') = snd (printer out (s @ s'))"
begin

lemma print_pieces:
  assumes "ok out" "p \<noteq> []" "\<forall>s \<in> set (p # ps). 0 \<notin> set s"
  shows "foldl (print_piece printer) (n, snd (printer out p)) ps =
    (n + length (concat ps), snd (printer out (concat (p # ps))))"
  using assms
proof (induction ps arbitrary: p n)
  case (Cons q ps)
  have "print_piece printer (n, snd (printer out p)) q = (n + length q, snd (printer out (p @ q)))"
    using Cons.prems printer_len [of "snd (printer out p)" q] printer_join [of out p q]
    by (auto simp: print_piece_def prod_eq_iff split: prod.splits)
  then show ?case using Cons.IH [of "p @ q"] Cons.prems by (auto simp: add.assoc)
qed simp

lemma print_all_hd:
  assumes "ok out" "ps \<noteq> []" "hd ps \<noteq> []" "\<forall>s \<in> set ps. 0 \<notin> set s"
  shows "foldl (print_piece printer) (0, out) ps = printer out (concat ps)"
proof -
  obtain p qs where ps: "ps = p # qs" using assms(2) by (cases ps) auto
  have "print_piece printer (0, out) p = (length p, snd (printer out p))"
    using printer_len [of out p] by (cases "printer out p") (simp add: print_piece_def)
  then show ?thesis
    using print_pieces [of out p qs "length p"] assms(1,3,4) printer_len [of out "concat ps"]
    by (simp add: ps) (simp add: prod_eq_iff)
qed

lemma print_all:
  assumes "ok out" "ps \<noteq> []" "\<forall>s \<in> set ps. s \<noteq> [] \<and> 0 \<notin> set s"
  shows "foldl (print_piece printer) (0, out) ps = printer out (concat ps)"
  using assms by (intro print_all_hd) auto

end

definition buf_ok :: "json_buf \<Rightarrow> bool" where
  "buf_ok out \<longleftrightarrow> jb_len out \<le> jb_size out \<and> length (jb_buf out) = jb_size out"

lemma printer_buf_fits:
  assumes "length s < jb_size out - jb_len out"
  shows "json_printer_buf out s =
    (length s, out\<lparr>jb_buf := (overwrite (jb_len out) s (jb_buf out))[jb_len out + length s := 0], jb_len := jb_len out + length s\<rparr>)"
  using assms by (simp add: json_printer_buf_def Let_def)

lemma printer_buf_full:
  assumes "\<not> length s < jb_size out - jb_len out" "buf_ok out" "0 < jb_size out"
  shows "json_printer_buf out s =
    (length s, out\<lparr>jb_buf := (overwrite (jb_len out) (take (jb_size out - jb_len out) s) (jb_buf out))[jb_size out - 1 := 0],
       jb_len := jb_size out\<rparr>)"
  using assms by (simp add: json_printer_buf_def Let_def buf_ok_def)

lemma overwrite_twice:
  assumes "v \<noteq> []" "k + length s + length v \<le> length b"
  shows "overwrite (k + length s) v ((overwrite k s b)[k + length s := x]) = overwrite k (s @ v) b"
  using assms by (intro nth_equalityI) (auto simp: nth_overwrite nth_list_update nth_append)

lemma printer_buf_join:
  assumes "buf_ok out" "s \<noteq> []"
  shows "snd (json_printer_buf (snd (json_printer_buf out s)) s') = snd (json_printer_buf out (s @ s'))"
proof (cases "jb_size out = 0")
  case True
  then show ?thesis using assms(1) by (simp add: json_printer_buf_def Let_def buf_ok_def overwrite_def)
next
  case False
  then have pos: "0 < jb_size out" and len: "jb_len out \<le> jb_size out" "length (jb_buf out) = jb_size out"
    using assms(1) by (auto simp: buf_ok_def)
  show ?thesis
  proof (cases "length s < jb_size out - jb_len out")
    case fits: True
    let ?o = "out\<lparr>jb_buf := (overwrite (jb_len out) s (jb_buf out))[jb_len out + length s := 0], jb_len := jb_len out + length s\<rparr>"
    have o: "buf_ok ?o" "snd (json_printer_buf out s) = ?o"
      using fits len by (simp_all add: buf_ok_def printer_buf_fits buf_simps)
    show ?thesis
    proof (cases "length s' < jb_size out - jb_len out - length s")
      case True
      then show ?thesis
        using fits len by (cases "s' = []") (simp_all add: printer_buf_fits overwrite_twice add.assoc)
    next
      case False
      let ?v = "take (jb_size out - jb_len out - length s) s'"
      have v: "?v \<noteq> []" "jb_len out + length s + length ?v \<le> length (jb_buf out)"
        using False fits len by auto
      have "\<not> length s' < jb_size ?o - jb_len ?o" using False by simp
      from printer_buf_full [OF this o(1)] printer_buf_full [of "s @ s'" out] show ?thesis
        using False fits pos assms(1) overwrite_twice [OF v] o(2) by simp
    qed
  next
    case False
    then show ?thesis
      using printer_buf_full [OF False assms(1) pos] printer_buf_full [of "s @ s'" out] assms pos
      by (simp add: json_printer_buf_def Let_def)
  qed
qed

interpretation buf_printer: json_printer json_printer_buf buf_ok
proof unfold_locales
  show "fst (json_printer_buf out s) = length s" for out s
    by (simp add: json_printer_buf_def Let_def)
  show "buf_ok (snd (json_printer_buf out s))" if "buf_ok out" for out s
    using that by (auto simp: json_printer_buf_def buf_ok_def Let_def buf_simps)
qed (rule printer_buf_join)

interpretation sprinter: json_printer "json_sprinter (\<lambda>_. True)" "\<lambda>_. True"
proof unfold_locales
  show "snd (json_sprinter (\<lambda>_. True) (snd (json_sprinter (\<lambda>_. True) out s)) s') = snd (json_sprinter (\<lambda>_. True) out (s @ s'))"
    if "0 \<notin> set s" for out s s'
    using that by (auto simp: json_sprinter_def Let_def takeWhile_append2 split: option.splits)
      (metis (mono_tags, lifting) append_self_conv  takeWhile_append2 takeWhile_eq_all_conv set_takeWhileD)+
qed (auto simp: json_sprinter_def Let_def)

section \<open>Escapes\<close>

definition isprint :: "byte \<Rightarrow> bool" where
  "isprint ch \<longleftrightarrow> 32 \<le> ch \<and> ch \<le> 126"

definition esc_hex_digit :: "byte \<Rightarrow> byte" where
  "esc_hex_digit k = ascii ''0123456789abcdef'' ! unat k"

text \<open>What is printed for the character at \<open>i\<close>, and how many bytes are consumed.\<close>

definition escape_char :: "byte list \<Rightarrow> nat \<Rightarrow> (byte list list \<times> nat) option" where
  "escape_char t i = do {
     ch \<leftarrow> rd t i;
     let cl = get_utf8_char_len ch;
     if ch = 34 \<or> ch = 92 then Some ([[92], [ch]], 1)
     else if 8 \<le> ch \<and> ch \<le> 13 then Some ([[92], [ascii ''btnvfr'' ! unat (ch - 8)]], 1)
     else if isprint ch then Some ([[ch]], 1)
     else if cl = 1 then Some ([92 # ascii ''u00'', [esc_hex_digit (drop_bit 4 ch mod 15)], [esc_hex_digit (ch mod 15)]], 1)
     else do { s \<leftarrow> text_slice t i cl; Some ([s], cl) }
   }"

lemma get_utf8_char_len_pos: "0 < get_utf8_char_len ch"
  by (simp add: get_utf8_char_len_def)

lemma escape_char_advances: "escape_char t i = Some (ps, k) \<Longrightarrow> 0 < k"
  using get_utf8_char_len_pos
  by (auto simp: escape_char_def Let_def bind_eq_Some_conv split: if_splits)

function escape_loop :: "('o \<Rightarrow> byte list \<Rightarrow> nat \<times> 'o) \<Rightarrow> byte list \<Rightarrow> nat \<Rightarrow> nat \<Rightarrow> nat \<times> 'o \<Rightarrow> (nat \<times> 'o) option" where
  "escape_loop printer t len i st =
     (if i < len then do {
        (ps, k) \<leftarrow> escape_char t i;
        escape_loop printer t len (i + k) (foldl (print_piece printer) st ps)
      }
      else Some st)"
  by pat_completeness auto
termination
  by (relation "measure (\<lambda>(printer, t, len, i, st). len - i)") (auto dest: escape_char_advances)

declare escape_loop.simps [simp del]

definition json_escape :: "('o \<Rightarrow> byte list \<Rightarrow> nat \<times> 'o) \<Rightarrow> 'o \<Rightarrow> byte list \<Rightarrow> nat \<Rightarrow> (nat \<times> 'o) option" where
  "json_escape printer out t len = escape_loop printer t len 0 (0, out)"

text \<open>
  \<open>strchr\<close> finds the terminator of \<^verbatim>\<open>esc1\<close> too, so a backslash before a byte 0 stands for it. The
  result is the code with the bytes written, of which there are at most \<open>dlen\<close>.
\<close>

definition unescape_table :: "(byte \<times> byte) list" where
  "unescape_table = zip (34 # 92 # ascii ''/bfnrt'' @ [0]) [34, 92, ch_of CHR ''/'', 8, 12, 10, 13, 9, 0]"

definition put_char :: "nat \<Rightarrow> nat \<Rightarrow> byte \<Rightarrow> byte list \<Rightarrow> byte list" where
  "put_char n dlen c dst = (if n < dlen then dst @ [c] else dst)"

fun unescape_loop :: "byte list \<Rightarrow> nat \<Rightarrow> nat \<Rightarrow> byte list \<Rightarrow> int \<times> byte list" where
  "unescape_loop [] n dlen dst = (int n, dst)"
| "unescape_loop (c # src) n dlen dst =
     (if c = 92 then
        (case src of [] \<Rightarrow> (JSON_STRING_INCOMPLETE, dst)
         | x # src \<Rightarrow>
             if x = ch_of CHR ''u'' then (JSON_STRING_INVALID, dst)
             else (case map_of unescape_table x of
                None \<Rightarrow> (JSON_STRING_INVALID, dst)
              | Some y \<Rightarrow> unescape_loop src (n + 1) dlen (put_char n dlen y dst)))
      else unescape_loop src (n + 1) dlen (put_char n dlen c dst))"

definition json_unescape :: "byte list \<Rightarrow> nat \<Rightarrow> int \<times> byte list" where
  "json_unescape src dlen = unescape_loop src 0 dlen []"

section \<open>Base64 and hexadecimal text\<close>

definition b64idx :: "byte \<Rightarrow> byte" where
  "b64idx c =
     (if c < 26 then c + ch_of CHR ''A''
      else if c < 52 then c - 26 + ch_of CHR ''a''
      else if c < 62 then c - 52 + ch_of CHR ''0''
      else if c = 62 then ch_of CHR ''+'' else ch_of CHR ''/'')"

definition b64rev :: "byte \<Rightarrow> byte" where
  "b64rev c =
     (if ch_of CHR ''A'' \<le> c \<and> c \<le> ch_of CHR ''Z'' then c - ch_of CHR ''A''
      else if ch_of CHR ''a'' \<le> c \<and> c \<le> ch_of CHR ''z'' then c + 26 - ch_of CHR ''a''
      else if ch_of CHR ''0'' \<le> c \<and> c \<le> ch_of CHR ''9'' then c + 52 - ch_of CHR ''0''
      else if c = ch_of CHR ''+'' then 62
      else if c = ch_of CHR ''/'' then 63
      else 64)"

text \<open>One round of the loop of \<^verbatim>\<open>b64enc\<close>: \<open>n\<close> of the bytes \<open>a\<close>, \<open>b\<close>, \<open>c\<close> are there, the others are 0.\<close>

definition b64_quad :: "nat \<Rightarrow> byte \<Rightarrow> byte \<Rightarrow> byte \<Rightarrow> byte list" where
  "b64_quad n a b c =
     [b64idx (drop_bit 2 a), b64idx (push_bit 4 (a AND 3) OR drop_bit 4 b),
      if n \<le> 1 then ch_of CHR ''='' else b64idx (push_bit 2 (b AND 15) OR drop_bit 6 c),
      if n \<le> 2 then ch_of CHR ''='' else b64idx (c AND 63)]"

fun b64_quads :: "byte list \<Rightarrow> byte list list" where
  "b64_quads [] = []"
| "b64_quads [a] = [b64_quad 1 a 0 0]"
| "b64_quads [a, b] = [b64_quad 2 a b 0]"
| "b64_quads (a # b # c # p) = b64_quad 3 a b c # b64_quads p"

definition b64enc :: "('o \<Rightarrow> byte list \<Rightarrow> nat \<times> 'o) \<Rightarrow> 'o \<Rightarrow> byte list \<Rightarrow> nat \<times> 'o" where
  "b64enc printer out p = foldl (print_piece printer) (0, out) (b64_quads p)"

fun b64dec :: "byte list \<Rightarrow> byte list" where
  "b64dec (s0 # s1 # s2 # s3 # src) =
     (let a = b64rev s0; b = b64rev s1; c = b64rev s2; d = b64rev s3
      in (push_bit 2 a OR drop_bit 4 b) #
         (if s2 \<noteq> ch_of CHR ''='' then
            (push_bit 4 b OR drop_bit 2 c) #
            (if s3 \<noteq> ch_of CHR ''='' then [push_bit 6 c OR d] else [])
          else []) @ b64dec src)"
| "b64dec src = []"


lemma b64rev_b64idx:
  assumes "x < 64"
  shows "b64rev (b64idx x) = x" "b64idx x \<noteq> ch_of CHR ''=''" "b64idx x \<noteq> 0"
proof -
  have "\<forall>n < 64. b64rev (b64idx (word_of_nat n)) = word_of_nat n \<and> b64idx (word_of_nat n) \<noteq> ch_of CHR ''='' \<and>
      b64idx (word_of_nat n) \<noteq> 0"
    by code_simp
  moreover have "unat x < 64" using assms by (simp add: word_less_nat_alt)
  ultimately have "b64rev (b64idx (word_of_nat (unat x))) = word_of_nat (unat x) \<and>
      b64idx (word_of_nat (unat x)) \<noteq> ch_of CHR ''='' \<and> b64idx (word_of_nat (unat x)) \<noteq> 0" by blast
  then show "b64rev (b64idx x) = x" "b64idx x \<noteq> ch_of CHR ''=''" "b64idx x \<noteq> 0" by simp_all
qed

lemma six_bits:
  assumes "\<And>n. 6 \<le> n \<Longrightarrow> \<not> bit (x :: byte) n"
  shows "x < 64"
proof -
  have "x = take_bit 6 x" by (rule bit_word_eqI) (use assms not_le in \<open>auto simp: bit_simps\<close>)
  moreover have "unat (take_bit 6 x) < 64" by (simp only: unsigned_take_bit_eq) (simp add: take_bit_eq_mod)
  ultimately show ?thesis by (simp add: word_less_nat_alt)
qed

lemma b64_sextets:
  "drop_bit 2 (a :: byte) < 64" "push_bit 4 (a AND 3) OR drop_bit 4 b < 64" "push_bit 2 (b AND 15) OR drop_bit 6 (c :: byte) < 64"
  "c AND 63 < 64"
proof -
  have m: "3 = (mask 2 :: byte)" "15 = (mask 4 :: byte)" "63 = (mask 6 :: byte)" by code_simp+
  show "drop_bit 2 (a :: byte) < 64" "push_bit 4 (a AND 3) OR drop_bit 4 b < 64" "push_bit 2 (b AND 15) OR drop_bit 6 (c :: byte) < 64"
    "c AND 63 < 64"
    unfolding m by (rule six_bits; auto simp: bit_simps bit_mask_iff simp del: push_bit_and push_bit_take_bit dest: bit_imp_le_length)+
qed


lemma b64_bytes:
  "push_bit 2 (drop_bit 2 a) OR drop_bit 4 (push_bit 4 (a AND 3) OR drop_bit 4 b) = (a :: byte)"
  "push_bit 4 (push_bit 4 (a AND 3) OR drop_bit 4 b) OR drop_bit 2 (push_bit 2 (b AND 15) OR drop_bit 6 c) = (b :: byte)"
  "push_bit 6 (push_bit 2 (b AND 15) OR drop_bit 6 c) OR (c AND 63) = (c :: byte)"
proof -
  have m: "3 = (mask 2 :: byte)" "15 = (mask 4 :: byte)" "63 = (mask 6 :: byte)" by code_simp+
  have lt: "n < 8 \<longleftrightarrow> n \<in> {0, 1, 2, 3, 4, 5, 6, 7}" for n :: nat by auto
  have sc: "Suc (Suc 0) = 2" "Suc 2 = 3" by simp_all
  show "push_bit 2 (drop_bit 2 a) OR drop_bit 4 (push_bit 4 (a AND 3) OR drop_bit 4 b) = a"
    unfolding m by (rule bit_word_eqI) (auto simp: bit_simps bit_mask_iff lt sc)
  show "push_bit 4 (push_bit 4 (a AND 3) OR drop_bit 4 b) OR drop_bit 2 (push_bit 2 (b AND 15) OR drop_bit 6 c) = b"
    unfolding m by (rule bit_word_eqI) (auto simp: bit_simps bit_mask_iff lt sc)
  show "push_bit 6 (push_bit 2 (b AND 15) OR drop_bit 6 c) OR (c AND 63) = c"
    unfolding m by (rule bit_word_eqI) (auto simp: bit_simps bit_mask_iff lt sc)
qed

lemma b64_quad_cases:
  obtains x y z u where "x < 64" "y < 64" "z < 64" "u < 64"
    "push_bit 2 x OR drop_bit 4 y = a" "push_bit 4 y OR drop_bit 2 z = b" "push_bit 6 z OR u = c"
    "\<And>n. b64_quad n a b c = [b64idx x, b64idx y, if n \<le> 1 then ch_of CHR ''='' else b64idx z,
       if n \<le> 2 then ch_of CHR ''='' else b64idx u]"
  using that [OF b64_sextets b64_bytes b64_quad_def] .

lemma b64dec_quad:
  assumes "1 \<le> n" "n \<le> 3"
  shows "b64dec (b64_quad n a b c @ q) = take n [a, b, c] @ b64dec q"
proof -
  from assms consider "n = 1" | "n = 2" | "n = 3" by linarith
  then show ?thesis
    by (cases; rule b64_quad_cases [of a b c]) (auto simp: Let_def b64rev_b64idx(1) b64rev_b64idx(2) [simplified])
qed

lemma b64_quad_no_NUL: "0 \<notin> set (b64_quad n a b c)"
  by (rule b64_quad_cases [of a b c]) (auto simp: b64rev_b64idx(3) dest: sym)

lemma b64dec_quads: "b64dec (concat (b64_quads p)) = p"
proof (induction p rule: b64_quads.induct)
  case (2 a)
  show ?case using b64dec_quad [of 1 a 0 0 "[]"] by simp
next
  case (3 a b)
  show ?case using b64dec_quad [of 2 a b 0 "[]"] by simp
next
  case (4 a b c p)
  then show ?case using b64dec_quad [of 3 a b c] by simp
qed simp

lemma b64_quad_nonempty: "b64_quad n a b c \<noteq> []"
  by (simp add: b64_quad_def)

lemma b64_quads_text: "\<forall>q \<in> set (b64_quads p). q \<noteq> [] \<and> 0 \<notin> set q"
  by (induction p rule: b64_quads.induct) (simp_all add: b64_quad_no_NUL b64_quad_nonempty)

lemma b64_quads_Nil: "b64_quads p = [] \<longleftrightarrow> p = []"
  by (cases p rule: b64_quads.cases) auto

text \<open>
  C24: Base64 text is decoded to the bytes it was printed for, with either printer: into a buffer
  with room for it and its terminator, or into an allocated string.
\<close>

theorem base64_roundtrip:
  assumes "p \<noteq> []"
  shows "\<exists>q. b64enc (json_sprinter (\<lambda>_. True)) None p = (length q, Some q) \<and> b64dec q = p \<and>
    (\<forall>buf. length q < length buf \<longrightarrow>
       b64enc json_printer_buf \<lparr>jb_buf = buf, jb_size = length buf, jb_len = 0\<rparr> p =
         (length q, \<lparr>jb_buf = q @ [0] @ drop (length q + 1) buf, jb_size = length buf, jb_len = length q\<rparr>))"
proof (intro exI conjI allI impI)
  let ?q = "concat (b64_quads p)"
  have q: "b64_quads p \<noteq> []" using assms by (simp add: b64_quads_Nil)
  show "b64enc (json_sprinter (\<lambda>_. True)) None p = (length ?q, Some ?q)"
    unfolding b64enc_def sprinter.print_all [OF TrueI q b64_quads_text] by (simp add: json_sprinter_def Let_def)
  show "b64dec ?q = p" by (rule b64dec_quads)
  fix buf :: "byte list"
  assume room: "length ?q < length buf"
  let ?o = "\<lparr>jb_buf = buf, jb_size = length buf, jb_len = 0\<rparr>"
  have "buf_ok ?o" by (simp add: buf_ok_def)
  from buf_printer.print_all [OF this q b64_quads_text] room
  show "b64enc json_printer_buf ?o p =
      (length ?q, \<lparr>jb_buf = ?q @ [0] @ drop (length ?q + 1) buf, jb_size = length buf, jb_len = length ?q\<rparr>)"
    unfolding b64enc_def
    by (simp add: printer_buf_fits overwrite_def list_update_append Cons_nth_drop_Suc [symmetric])
qed

lemma base64_roundtrip_witness:
  "\<exists>q. b64enc (json_sprinter (\<lambda>_. True)) None (ascii ''Hello'') = (length q, Some q) \<and> b64dec q = ascii ''Hello''"
  using base64_roundtrip [of "ascii ''Hello''"] by (auto simp: ascii_def)


section \<open>An escaped text is read back\<close>

text \<open>
  The texts that survive: printable characters, the control characters that JSON has escapes for,
  and UTF-8 characters whose bytes after the first have their top bit set.
\<close>

definition escapable :: "byte \<Rightarrow> bool" where
  "escapable c \<longleftrightarrow> c \<in> {8, 9, 10, 12, 13} \<or> isprint c"

function text_ok :: "byte list \<Rightarrow> bool" where
  "text_ok [] = True"
| "text_ok (c # s) =
     (if get_utf8_char_len c = 1 then escapable c \<and> text_ok s
      else get_utf8_char_len c \<le> length (c # s) \<and> list_all (\<lambda>b. 128 \<le> b) (take (get_utf8_char_len c - 1) s) \<and>
        text_ok (drop (get_utf8_char_len c - 1) s))"
  by pat_completeness auto
termination by (relation "measure length") (auto simp: less_Suc_eq_le)

definition char_pieces :: "byte \<Rightarrow> byte list list" where
  "char_pieces c =
     (if c = 34 \<or> c = 92 then [[92], [c]]
      else if 8 \<le> c \<and> c \<le> 13 then [[92], [ascii ''btnvfr'' ! unat (c - 8)]]
      else [[c]])"

function escape_pieces :: "byte list \<Rightarrow> byte list list" where
  "escape_pieces [] = []"
| "escape_pieces (c # s) =
     (if get_utf8_char_len c = 1 then char_pieces c @ escape_pieces s
      else (c # take (get_utf8_char_len c - 1) s) # escape_pieces (drop (get_utf8_char_len c - 1) s))"
  by pat_completeness auto
termination by (relation "measure length") (auto simp: less_Suc_eq_le)

lemma utf8_lead:
  assumes "get_utf8_char_len c \<noteq> 1"
  shows "128 \<le> c"
proof (rule ccontr)
  assume "\<not> 128 \<le> c"
  then have "unat c < 128" by (simp add: word_le_nat_alt)
  moreover have "\<forall>n < 128. get_utf8_char_len (word_of_nat n) = 1" by code_simp
  ultimately have "get_utf8_char_len (word_of_nat (unat c)) = 1" by blast
  then show False using assms by simp
qed

lemma utf8_lead_char:
  assumes "128 \<le> c"
  shows "c \<noteq> 34" "c \<noteq> 92" "c \<noteq> 0" "\<not> (8 \<le> c \<and> c \<le> 13)" "\<not> isprint c" "32 \<le> c"
  using assms by (auto simp: isprint_def word_le_nat_alt)

lemma escapable_cases:
  assumes "escapable c"
  obtains "c \<in> {8, 9, 10, 12, 13}" | "isprint c" "\<not> (8 \<le> c \<and> c \<le> 13)" "32 \<le> c"
  using assms by (auto simp: escapable_def isprint_def word_le_nat_alt)

lemma escapable_char:
  assumes "escapable c"
  shows "escape_char (pre @ c # s) (length pre) = Some (char_pieces c, 1)"
    "\<forall>q \<in> set (char_pieces c). q \<noteq> [] \<and> 0 \<notin> set q" "char_pieces c \<noteq> []"
  using assms
  by (cases rule: escapable_cases;
      auto simp: escape_char_def char_pieces_def rd_def Let_def ascii_def)+

lemma utf8_char:
  assumes "get_utf8_char_len c \<noteq> 1" "get_utf8_char_len c \<le> length (c # s)"
  shows "escape_char (pre @ c # s) (length pre) = Some ([c # take (get_utf8_char_len c - 1) s], get_utf8_char_len c)"
  using assms utf8_lead_char [OF utf8_lead [OF assms(1)]] get_utf8_char_len_pos [of c]
  by (auto simp: escape_char_def rd_def text_slice_def slice_def Let_def take_Cons' )

lemma escape_loop_pieces:
  assumes "text_ok p" "len = length pre + length p"
  shows "escape_loop printer (pre @ p @ rest) len (length pre) st = Some (foldl (print_piece printer) st (escape_pieces p))"
  using assms
proof (induction p arbitrary: pre st rule: text_ok.induct)
  case 1
  then show ?case by (simp add: escape_loop.simps)
next
  case (2 c s)
  let ?n = "get_utf8_char_len c"
  show ?case
  proof (cases "?n = 1")
    case True
    then have e: "escapable c" "text_ok s" using 2(3) by simp_all
    from 2(1) [OF True e(2), of "pre @ [c]"] 2(4) True
    show ?thesis using escapable_char(1) [OF e(1), of pre "s @ rest"] by (subst escape_loop.simps) simp
  next
    case False
    then have u: "?n \<le> length (c # s)" "text_ok (drop (?n - 1) s)" using 2(3) by simp_all
    have k: "length (c # take (?n - 1) s) = ?n" using u(1) get_utf8_char_len_pos [of c] by simp
    have split: "(pre @ c # take (?n - 1) s) @ drop (?n - 1) s @ rest = pre @ (c # s) @ rest" by simp
    have l: "length (pre @ c # take (?n - 1) s) = length pre + ?n" using k by simp
    have "len = length (pre @ c # take (?n - 1) s) + length (drop (?n - 1) s)" using 2(4) u(1) l by simp
    note loop = 2(2) [OF False u(2) this, unfolded split l]
    have "escape_char (pre @ (c # s) @ rest) (length pre) = Some ([c # take (?n - 1) s], ?n)"
      using utf8_char [OF False, of "s @ rest" pre] u(1) by simp
    then show ?thesis
      using 2(4) False loop by (subst escape_loop.simps) simp
  qed
qed


lemma escape_pieces_text:
  assumes "text_ok p"
  shows "\<forall>q \<in> set (escape_pieces p). q \<noteq> [] \<and> 0 \<notin> set q"
  using assms
proof (induction p rule: text_ok.induct)
  case (2 c s)
  show ?case
  proof (cases "get_utf8_char_len c = 1")
    case True
    then show ?thesis using 2 escapable_char(2) by auto
  next
    case False
    then have "0 \<notin> set (take (get_utf8_char_len c - 1) s)" using 2(3) by (auto simp: list_all_iff)
    then show ?thesis using 2 False utf8_lead_char(3) [OF utf8_lead [OF False]] by auto
  qed
qed simp

lemma escape_pieces_Nil: "text_ok p \<Longrightarrow> escape_pieces p = [] \<longleftrightarrow> p = []"
  using escapable_char(3) by (cases p) auto

lemma put_char_take: "put_char (length d) dlen c (take dlen d) = take dlen (d @ [c])"
  by (auto simp: put_char_def)

lemma unescape_plain:
  assumes "list_all (\<lambda>b. b \<noteq> 92) u"
  shows "unescape_loop (u @ r) (length d) dlen (take dlen d) = unescape_loop r (length (d @ u)) dlen (take dlen (d @ u))"
  using assms
proof (induction u arbitrary: d)
  case (Cons c u)
  then show ?case using Cons.IH [of "d @ [c]"] by (simp add: put_char_take del: take_append)
qed simp

lemma unescape_char_pieces:
  assumes "escapable c"
  shows "unescape_loop (concat (char_pieces c) @ r) (length d) dlen (take dlen d) =
      unescape_loop r (length (d @ [c])) dlen (take dlen (d @ [c]))"
    "get_utf8_char_len c = 1 \<Longrightarrow> string_ok (concat (char_pieces c) @ r) \<longleftrightarrow> string_ok r"
  using assms
  by (cases rule: escapable_cases;
      auto simp: char_pieces_def ascii_def unescape_table_def put_char_take simp del: take_append)+

lemma escaped_text:
  assumes "text_ok p"
  shows "string_ok (concat (escape_pieces p))"
    "unescape_loop (concat (escape_pieces p)) (length d) dlen (take dlen d) = (int (length (d @ p)), take dlen (d @ p))"
proof -
  have "string_ok (concat (escape_pieces p)) \<and> (\<forall>d. unescape_loop (concat (escape_pieces p)) (length d) dlen (take dlen d) =
      (int (length (d @ p)), take dlen (d @ p)))"
    using assms
  proof (induction p rule: text_ok.induct)
    case (2 c s)
    let ?n = "get_utf8_char_len c"
    show ?case
    proof (cases "?n = 1")
      case True
      then have e: "escapable c" "text_ok s" using 2(3) by simp_all
      note ih = 2(1) [OF True e(2)]
      have "unescape_loop (concat (escape_pieces s)) (length (d @ [c])) dlen (take dlen (d @ [c])) =
          (int (length (d @ c # s)), take dlen (d @ c # s))" for d
        using ih [THEN conjunct2, rule_format, of "d @ [c]"] by (simp del: take_append)
      then show ?thesis
        using ih unescape_char_pieces [OF e(1)] True by (simp del: take_append)
    next
      case False
      let ?u = "c # take (?n - 1) s"
      have t: "?n \<le> length (c # s)" "list_all (\<lambda>b. 128 \<le> b) (take (?n - 1) s)" "text_ok (drop (?n - 1) s)"
        using False 2(3) by simp_all
      note c = utf8_lead_char [OF utf8_lead [OF False]]
      have plain: "list_all (\<lambda>b. b \<noteq> 92) ?u"
        using c(2) t(2) by (auto simp: list_all_iff)
      let ?r = "drop (?n - 1) s"
      note ih = 2(2) [OF False t(3)]
      have cat: "concat (escape_pieces (c # s)) = ?u @ concat (escape_pieces ?r)" using False by simp
      have str: "string_ok (?u @ concat (escape_pieces ?r))" using c ih t(1) by simp
      have "unescape_loop (?u @ concat (escape_pieces ?r)) (length d) dlen (take dlen d) =
          (int (length (d @ c # s)), take dlen (d @ c # s))" for d
      proof -
        have d: "(d @ ?u) @ ?r = d @ c # s" by simp
        show ?thesis unfolding unescape_plain [OF plain] ih [THEN conjunct2, rule_format, of "d @ ?u"] d ..
      qed
      with str show ?thesis unfolding cat by blast
    qed
  qed simp
  then show "string_ok (concat (escape_pieces p))"
    "unescape_loop (concat (escape_pieces p)) (length d) dlen (take dlen d) = (int (length (d @ p)), take dlen (d @ p))"
    by blast+
qed

text \<open>
  C23: A text, not empty, of printable characters, of the control characters backspace, tab, newline, form feed and carriage
  return, and of complete UTF-8 characters that is escaped into an allocated string and written between
  quotes is parsed as one string, whose unescaped bytes are the text (as many of them as the destination
  holds), and the length that is returned is that of the text. Of the other control characters none
  survives (see below).
\<close>

theorem json_escape_roundtrip:
  assumes "text_ok p" "p \<noteq> []"
  shows "\<exists>q. json_escape (json_sprinter (\<lambda>_. True)) None (p @ rest) (length p) = Some (length q, Some q) \<and>
    json_walk ([34] @ q @ [34]) (length q + 2) =
      Some (int (length q + 2), [event_of None [] JSON_TYPE_STRING (Some 1) (length q)]) \<and>
    json_unescape q dlen = (int (length p), take dlen p)"
proof (intro exI conjI)
  let ?q = "concat (escape_pieces p)"
  have ne: "escape_pieces p \<noteq> []" using assms by (simp add: escape_pieces_Nil)
  show "json_escape (json_sprinter (\<lambda>_. True)) None (p @ rest) (length p) = Some (length ?q, Some ?q)"
    using escape_loop_pieces [OF assms(1), where pre = "[]" and len = "length p" and printer = "json_sprinter (\<lambda>_. True)"] sprinter.print_all [OF TrueI ne escape_pieces_text [OF assms(1)]]
    by (simp add: json_escape_def json_sprinter_def Let_def)
  show "json_walk ([34] @ ?q @ [34]) (length ?q + 2) =
      Some (int (length ?q + 2), [event_of None [] JSON_TYPE_STRING (Some 1) (length ?q)])"
    using json_walk_reads_render [of "JString ?q" "[]" "[]"] escaped_text(1) [OF assms(1)] by simp
  show "json_unescape ?q dlen = (int (length p), take dlen p)"
    using escaped_text(2) [OF assms(1), of "[]" dlen] by (simp add: json_unescape_def)
qed

lemma json_escape_roundtrip_witness:
  "\<exists>q. json_escape (json_sprinter (\<lambda>_. True)) None [34, 10, 65, 0xC3, 0xA9] 5 = Some (length q, Some q) \<and>
    json_unescape q 100 = (5, [34, 10, 65, 0xC3, 0xA9])"
proof -
  have ok: "text_ok [34, 10, 65, 0xC3, 0xA9]" by code_simp
  have len: "length [34, 10, 65, 0xC3, 0xA9 :: byte] = 5" by simp
  show ?thesis using json_escape_roundtrip [OF ok, of "[]" 100] unfolding len append_Nil2 by auto
qed

text \<open>What does not survive: a vertical tab is escaped to what the parser refuses, other control
  characters become another character, and an incomplete UTF-8 character is read past the text.\<close>

lemma json_escape_not_parsed:
  "json_escape (json_sprinter (\<lambda>_. True)) None [11] 1 = Some (2, Some (92 # ascii ''v''))"
  "json_walk (34 # 92 # ascii ''v'' @ [34]) 4 = Some (JSON_STRING_INVALID, [])"
  by code_simp+

lemma json_escape_wrong_digits:
  "json_escape (json_sprinter (\<lambda>_. True)) None [0x7f] 1 = Some (6, Some (92 # ascii ''u0077''))"
  "json_escape (json_sprinter (\<lambda>_. True)) None [0x0f] 1 = Some (6, Some (92 # ascii ''u0000''))"
  by code_simp+

lemma json_escape_reads_past_end: "json_escape (json_sprinter (\<lambda>_. True)) None [0xC3] 1 = None"
  by code_simp

end
