(* ===== verification/JsonClients.thy ===== *)
theory JsonClients
  imports JsonText "HOL-Library.Sublist"
begin

text \<open>
  What \<^verbatim>\<open>lib_util/json_frozen.c\<close> builds on its parser: \<^verbatim>\<open>json_scanf_array_elem\<close>, \<^verbatim>\<open>json_prettify\<close> and
  \<^verbatim>\<open>json_next\<close>. Each is a callback, so here a fold over the events of \<open>json_walk\<close>.
\<close>

text \<open>A path as the C string a callback sees.\<close>

definition c_string :: "byte list \<Rightarrow> byte list" where
  "c_string s = takeWhile (\<lambda>c. c \<noteq> 0) s"

definition no_token :: json_token where
  "no_token = \<lparr>tk_ptr = None, tk_len = 0, tk_type = JSON_TYPE_INVALID\<rparr>"

section \<open>One element of an array\<close>

definition json_scanf_array_elem_cb :: "byte list \<Rightarrow> event \<Rightarrow> bool \<times> json_token \<Rightarrow> bool \<times> json_token" where
  "json_scanf_array_elem_cb info_path ev info =
     (if c_string (ev_path ev) = info_path then (True, ev_token ev) else info)"

definition json_scanf_array_elem :: "byte list \<Rightarrow> nat \<Rightarrow> byte list \<Rightarrow> int \<Rightarrow> (int \<times> json_token) option" where
  "json_scanf_array_elem s len path idx = do {
     let info_path = take (JSON_MAX_PATH_LEN - 1) (path @ ascii ''['' @ dec_int idx @ ascii '']'');
     (n, evs) \<leftarrow> json_walk s len;
     let (found, token) = fold (json_scanf_array_elem_cb info_path) evs (False, no_token);
     Some (if found then int (tk_len token) else -1, token)
   }"

section \<open>Pretty printing\<close>

record 'o prettify_data =
  pd_out :: 'o
  pd_level :: int
  pd_last :: json_token_type

definition emit :: "('o \<Rightarrow> byte list \<Rightarrow> nat \<times> 'o) \<Rightarrow> byte list \<Rightarrow> 'o prettify_data \<Rightarrow> 'o prettify_data" where
  "emit printer s pd = pd\<lparr>pd_out := snd (printer (pd_out pd) s)\<rparr>"

primrec indent_times :: "('o \<Rightarrow> byte list \<Rightarrow> nat \<times> 'o) \<Rightarrow> nat \<Rightarrow> 'o prettify_data \<Rightarrow> 'o prettify_data" where
  "indent_times printer 0 pd = pd"
| "indent_times printer (Suc n) pd = indent_times printer n (emit printer (ascii ''  '') pd)"

definition indent :: "('o \<Rightarrow> byte list \<Rightarrow> nat \<times> 'o) \<Rightarrow> 'o prettify_data \<Rightarrow> 'o prettify_data" where
  "indent printer pd = indent_times printer (nat (pd_level pd)) pd"

definition after_value :: "json_token_type \<Rightarrow> bool" where
  "after_value tok \<longleftrightarrow> tok \<noteq> JSON_TYPE_INVALID \<and> tok \<noteq> JSON_TYPE_ARRAY_START \<and> tok \<noteq> JSON_TYPE_OBJECT_START"

definition print_key :: "('o \<Rightarrow> byte list \<Rightarrow> nat \<times> 'o) \<Rightarrow> byte list \<Rightarrow> byte list option \<Rightarrow> 'o prettify_data \<Rightarrow> 'o prettify_data" where
  "print_key printer path name pd =
     (let pd = (if after_value (pd_last pd) then emit printer (ascii '','') pd else pd);
          pd = (if path \<noteq> [] then emit printer [10] pd else pd);
          pd = indent printer pd
      in if path \<noteq> [] \<and> last path \<noteq> ch_of CHR '']''
         then emit printer (ascii '': '') (emit printer [34] (emit printer (case name of None \<Rightarrow> [] | Some s \<Rightarrow> s) (emit printer [34] pd)))
         else pd)"

definition prettify_cb :: "('o \<Rightarrow> byte list \<Rightarrow> nat \<times> 'o) \<Rightarrow> byte list \<Rightarrow> event \<Rightarrow> 'o prettify_data \<Rightarrow> 'o prettify_data option" where
  "prettify_cb printer s ev pd =
     (let tok = tk_type (ev_token ev); path = c_string (ev_path ev)
      in map_option (pd_last_update (\<lambda>_. tok))
        (if tok = JSON_TYPE_OBJECT_START \<or> tok = JSON_TYPE_ARRAY_START then
           let pd = emit printer (if tok = JSON_TYPE_ARRAY_START then ascii ''['' else ascii ''{'') (print_key printer path (ev_name ev) pd)
           in Some (pd\<lparr>pd_level := pd_level pd + 1\<rparr>)
         else if tok = JSON_TYPE_OBJECT_END \<or> tok = JSON_TYPE_ARRAY_END then
           let pd = pd\<lparr>pd_level := pd_level pd - 1\<rparr>;
               pd = (if after_value (pd_last pd) then indent printer (emit printer [10] pd) else pd)
           in Some (emit printer (if tok = JSON_TYPE_ARRAY_END then ascii '']'' else ascii ''}'') pd)
         else if tok = JSON_TYPE_INVALID then Some pd
         else do {
           ptr \<leftarrow> tk_ptr (ev_token ev);
           value \<leftarrow> text_slice s ptr (tk_len (ev_token ev));
           let pd = print_key printer path (ev_name ev) pd;
           Some (if tok = JSON_TYPE_STRING then emit printer [34] (emit printer value (emit printer [34] pd)) else emit printer value pd)
         }))"

primrec prettify_events :: "('o \<Rightarrow> byte list \<Rightarrow> nat \<times> 'o) \<Rightarrow> byte list \<Rightarrow> event list \<Rightarrow> 'o prettify_data \<Rightarrow> 'o prettify_data option" where
  "prettify_events printer s [] pd = Some pd"
| "prettify_events printer s (ev # evs) pd = do { pd \<leftarrow> prettify_cb printer s ev pd; prettify_events printer s evs pd }"

definition json_prettify :: "('o \<Rightarrow> byte list \<Rightarrow> nat \<times> 'o) \<Rightarrow> 'o \<Rightarrow> byte list \<Rightarrow> nat \<Rightarrow> (int \<times> 'o) option" where
  "json_prettify printer out s len = do {
     (n, evs) \<leftarrow> json_walk s len;
     pd \<leftarrow> prettify_events printer s evs \<lparr>pd_out = out, pd_level = 0, pd_last = JSON_TYPE_INVALID\<rparr>;
     Some (n, pd_out pd)
   }"

section \<open>Iteration\<close>

text \<open>\<^verbatim>\<open>atoi\<close> for a name that starts with digits; \<open>nd_handle\<close> is the offset of the last value.\<close>

definition atoi :: "byte list \<Rightarrow> int" where
  "atoi s = int (foldl (\<lambda>n c. 10 * n + unat (c - ch_of CHR ''0'')) 0 (takeWhile is_digit s))"

record next_data =
  nd_handle :: "nat option"
  nd_found :: bool
  nd_key :: "byte list option"
  nd_val :: json_token
  nd_idx :: int

definition next_set_key :: "byte list option \<Rightarrow> bool \<Rightarrow> next_data \<Rightarrow> next_data option" where
  "next_set_key name is_array d =
     (if is_array then map_option (\<lambda>s. d\<lparr>nd_key := None, nd_idx := atoi s\<rparr>) name
      else Some (d\<lparr>nd_key := name, nd_idx := -1\<rparr>))"

definition next_cb :: "byte list \<Rightarrow> event \<Rightarrow> next_data \<Rightarrow> next_data option" where
  "next_cb d_path ev d =
     (let path = c_string (ev_path ev); p = drop (length d_path) path; tok = tk_type (ev_token ev)
      in if nd_found d then Some d
         else if length d_path \<ge> length path then Some d
         else if take (length d_path) path \<noteq> d_path then Some d
         else if ch_of CHR ''.'' \<in> set (tl p) then Some d
         else if ch_of CHR ''['' \<in> set (tl p) then Some d
         else if tok = JSON_TYPE_OBJECT_START \<or> tok = JSON_TYPE_ARRAY_START then next_set_key (ev_name ev) (hd p = ch_of CHR ''['') d
         else if (case nd_handle d of None \<Rightarrow> True | Some h \<Rightarrow> (case tk_ptr (ev_token ev) of Some ptr \<Rightarrow> h < ptr | None \<Rightarrow> False)) then do {
           d \<leftarrow> (if tok \<noteq> JSON_TYPE_OBJECT_END \<and> tok \<noteq> JSON_TYPE_ARRAY_END then next_set_key (ev_name ev) (hd p = ch_of CHR ''['') d else Some d);
           Some (d\<lparr>nd_val := ev_token ev, nd_handle := tk_ptr (ev_token ev), nd_found := True\<rparr>)
         }
         else Some d)"

primrec next_events :: "byte list \<Rightarrow> event list \<Rightarrow> next_data \<Rightarrow> next_data option" where
  "next_events d_path [] d = Some d"
| "next_events d_path (ev # evs) d = do { d \<leftarrow> next_cb d_path ev d; next_events d_path evs d }"

text \<open>
  The result is the handle that is returned (\<open>None\<close> for \<^verbatim>\<open>NULL\<close>) with the key, the index and the value;
  these are the caller's variables, which here start as \<open>None\<close>, 0 and \<open>no_token\<close>.
\<close>

definition json_next :: "byte list \<Rightarrow> nat \<Rightarrow> nat option \<Rightarrow> byte list \<Rightarrow> (nat option \<times> next_data) option" where
  "json_next s len handle path = do {
     (n, evs) \<leftarrow> json_walk s len;
     d \<leftarrow> next_events path evs \<lparr>nd_handle = handle, nd_found = False, nd_key = None, nd_val = no_token, nd_idx = 0\<rparr>;
     Some (if nd_found d then nd_handle d else None, d)
   }"

section \<open>The element that is selected\<close>

text \<open>The token of a value, its text, and where an element starts.\<close>

definition value_token :: "byte list \<Rightarrow> nat \<Rightarrow> json \<Rightarrow> json_token" where
  "value_token w off v = ev_token (last (value_events w [] None off v))"

definition value_text :: "byte list \<Rightarrow> json \<Rightarrow> byte list" where
  "value_text w v = (case v of JString s \<Rightarrow> s | _ \<Rightarrow> drop (length w) (render w v))"

primrec element_offset :: "byte list \<Rightarrow> nat \<Rightarrow> json list \<Rightarrow> nat \<Rightarrow> nat" where
  "element_offset w off [] i = off"
| "element_offset w off (v # vs) i = (if i = 0 then off else element_offset w (off + length (render w v) + length w + 1) vs (i - 1))"

lemma last_event:
  obtains front nm where "value_events w path name off v = front @ [\<lparr>ev_name = nm, ev_path = path, ev_token = value_token w off v\<rparr>]"
  by (cases v) (fastforce simp: value_token_def event_of_def)+

lemma event_paths:
  "ev \<in> set (value_events w path name off v) \<Longrightarrow> prefix path (ev_path ev)"
  "ev \<in> set (element_events w path i off vs) \<Longrightarrow> prefix path (ev_path ev)"
  "ev \<in> set (member_events w path off ms) \<Longrightarrow> prefix path (ev_path ev)"
proof (induction w path name off v and w path i off vs and w path off ms rule: value_events_element_events_member_events.induct)
qed (auto simp: event_of_def dest: append_prefixD)

lemma value_token_text:
  assumes "occurs t e off (render w v)"
  shows "slice (the (tk_ptr (value_token w off v))) (tk_len (value_token w off v)) t = value_text w v"
proof (cases "\<exists>s. v = JString s")
  case True
  then obtain s where v: "v = JString s" by blast
  have "occurs t e (off + length w + 1) s" using assms unfolding v by (simp add: occurs_append occurs_Cons)
  then show ?thesis by (simp add: v value_token_def value_text_def event_of_def occurs_def)
next
  case False
  then have r: "render w v = w @ value_text w v" by (cases v) (auto simp: value_text_def)
  have tok: "tk_ptr (value_token w off v) = Some (off + length w)" "tk_len (value_token w off v) = length (value_text w v)"
    using False by (cases v; auto simp: value_token_def value_text_def event_of_def ascii_def)+
  have "occurs t e (off + length w) (value_text w v)" using assms unfolding r by (simp add: occurs_append)
  then show ?thesis by (simp add: tok occurs_def)
qed

lemma index_text_bytes: "0 \<notin> set (index_text i)" "takeWhile (\<lambda>c. c \<noteq> 93) (tl (index_text i @ x)) = dec_nat i"
proof -
  have "c \<noteq> 0 \<and> c \<noteq> 93" if "c \<in> set (dec_nat i)" for c
    using dec_nat_decimal [of i] that by (auto simp: word_le_nat_alt)
  then show "0 \<notin> set (index_text i)" "takeWhile (\<lambda>c. c \<noteq> 93) (tl (index_text i @ x)) = dec_nat i"
    by (auto simp: index_text_def ascii_def takeWhile_append2)
qed

lemma index_text_prefix: "index_text i = index_text j @ x \<Longrightarrow> i = j"
  using index_text_bytes(2) [of i "[]"] index_text_bytes(2) [of j x] digits_value [of i] digits_value [of j] by simp

lemma c_string_append: "0 \<notin> set a \<Longrightarrow> c_string (a @ x) = a @ c_string x"
  unfolding c_string_def by (rule takeWhile_append2) auto

lemma other_events:
  assumes "\<And>ev. ev \<in> set evs \<Longrightarrow> c_string (ev_path ev) \<noteq> path"
  shows "fold (json_scanf_array_elem_cb path) evs info = info"
  using assms by (induction evs arbitrary: info) (simp_all add: json_scanf_array_elem_cb_def)

lemma select_element:
  "fold (json_scanf_array_elem_cb (index_text i)) (element_events w [] k off vs) info =
    (if k \<le> i \<and> i < k + length vs then (True, value_token w (element_offset w off vs (i - k)) (vs ! (i - k))) else info)"
proof (induction vs arbitrary: k off info)
  case (Cons v vs)
  have "fold (json_scanf_array_elem_cb (index_text i)) (value_events w (index_text k) (Some (dec_nat k)) off v) info =
      (if i = k then (True, value_token w off v) else info)"
  proof (cases "i = k")
    case True
    obtain front nm where "value_events w (index_text k) (Some (dec_nat k)) off v =
        front @ [\<lparr>ev_name = nm, ev_path = index_text k, ev_token = value_token w off v\<rparr>]"
      by (rule last_event)
    then show ?thesis
      using True c_string_append [OF index_text_bytes(1), of k "[]"] by (simp add: json_scanf_array_elem_cb_def c_string_def)
  next
    case False
    have "c_string (ev_path ev) \<noteq> index_text i" if ev: "ev \<in> set (value_events w (index_text k) (Some (dec_nat k)) off v)" for ev
    proof -
      obtain x where "ev_path ev = index_text k @ x" using event_paths(1) [OF ev] by (auto simp: prefix_def)
      then show ?thesis
        using False index_text_prefix [of i k "c_string x"] c_string_append [OF index_text_bytes(1)] by metis
    qed
    then show ?thesis using False by (simp add: other_events)
  qed
  moreover have "i - Suc k = n" if "i - k = Suc n" for n using that by simp
  ultimately show ?case using Cons.IH by (cases "i - k") (auto simp: not_le less_Suc_eq_le Suc_diff_le)
qed auto

lemma element_occurs:
  assumes "occurs t e off (render_elements w vs)" "i < length vs"
  shows "occurs t e (element_offset w off vs i) (render w (vs ! i))"
  using assms
proof (induction vs arbitrary: off i)
  case (Cons v vs)
  then show ?case
    by (cases i; cases "vs = []") (auto simp: occurs_append occurs_Cons ascii_def add.assoc)
qed simp



lemma json_scanf_array_elem_finds_key:
  "map_option fst (json_scanf_array_elem (ascii ''{\"a\":[],\"a[0]\":5}'') 17 (ascii ''.a'') 0) = Some 1"
  by code_simp


section \<open>The text that is printed\<close>

fun pretty :: "nat \<Rightarrow> json \<Rightarrow> byte list list"
  and pretty_elements :: "nat \<Rightarrow> bool \<Rightarrow> json list \<Rightarrow> byte list list"
  and pretty_members :: "nat \<Rightarrow> bool \<Rightarrow> (byte list \<times> json) list \<Rightarrow> byte list list" where
  "pretty n JNull = [ascii ''null'']"
| "pretty n JTrue = [ascii ''true'']"
| "pretty n JFalse = [ascii ''false'']"
| "pretty n (JNumber x) = [number_text x]"
| "pretty n (JString s) = [[34], s, [34]]"
| "pretty n (JArray vs) = [ascii ''[''] @ pretty_elements (n + 1) False vs @
     (if vs = [] then [] else [10] # replicate n (ascii ''  '')) @ [ascii '']'']"
| "pretty n (JObject ms) = [ascii ''{''] @ pretty_members (n + 1) False ms @
     (if ms = [] then [] else [10] # replicate n (ascii ''  '')) @ [ascii ''}'']"
| "pretty_elements n comma [] = []"
| "pretty_elements n comma (v # vs) = (if comma then [ascii '','']  else []) @ [10] # replicate n (ascii ''  '') @
     pretty n v @ pretty_elements n True vs"
| "pretty_members n comma [] = []"
| "pretty_members n comma ((k, v) # ms) = (if comma then [ascii '','']  else []) @ [10] # replicate n (ascii ''  '') @
     [[34], k, [34], ascii '': ''] @ pretty n v @ pretty_members n True ms"

text \<open>Strings hold no byte 0, and no key ends in a bracket.\<close>

fun plain :: "json \<Rightarrow> bool"
  and plain_members :: "(byte list \<times> json) list \<Rightarrow> bool" where
  "plain (JString s) = (0 \<notin> set s)"
| "plain (JNumber x) = number_ok x"
| "plain (JArray vs) = list_all plain vs"
| "plain (JObject ms) = plain_members ms"
| "plain _ = True"
| "plain_members [] = True"
| "plain_members ((k, v) # ms) = (0 \<notin> set k \<and> k \<noteq> [] \<and> last k \<noteq> ch_of CHR '']'' \<and> plain v \<and> plain_members ms)"

definition emits :: "('o \<Rightarrow> byte list \<Rightarrow> nat \<times> 'o) \<Rightarrow> byte list list \<Rightarrow> 'o \<Rightarrow> 'o" where
  "emits printer ps out = fold (\<lambda>s out. snd (printer out s)) ps out"

lemma emits_simps:
  "emits printer [] out = out" "emits printer (s # ps) out = emits printer ps (snd (printer out s))"
  "emits printer (ps @ qs) out = emits printer qs (emits printer ps out)"
  by (simp_all add: emits_def)

definition key_pieces :: "bool \<Rightarrow> byte list \<Rightarrow> byte list option \<Rightarrow> nat \<Rightarrow> byte list list" where
  "key_pieces comma path name n = (if comma then [ascii '','']  else []) @ (if path \<noteq> [] then [[10]] else []) @ replicate n (ascii ''  '') @
     (if path \<noteq> [] \<and> last path \<noteq> ch_of CHR '']'' then [[34], case name of None \<Rightarrow> [] | Some s \<Rightarrow> s, [34], ascii '': ''] else [])"

lemma indent_times_eq: "indent_times printer n pd = pd\<lparr>pd_out := emits printer (replicate n (ascii ''  '')) (pd_out pd)\<rparr>"
  by (induction n arbitrary: pd) (simp_all add: emit_def emits_simps)

lemma print_key_eq:
  "print_key printer path name pd =
    pd\<lparr>pd_out := emits printer (key_pieces (after_value (pd_last pd)) path name (nat (pd_level pd))) (pd_out pd)\<rparr>"
  by (simp add: print_key_def Let_def indent_def indent_times_eq key_pieces_def emit_def emits_simps)

lemma prettify_append:
  "prettify_events printer s (es @ fs) pd = prettify_events printer s es pd \<bind> prettify_events printer s fs"
  by (induction es arbitrary: pd) (simp_all split: bind_splits)

lemma prettify_start:
  "prettify_cb printer s (event_of name path (if arr then JSON_TYPE_ARRAY_START else JSON_TYPE_OBJECT_START) ptr n) pd =
    Some \<lparr>pd_out = emits printer (key_pieces (after_value (pd_last pd)) (c_string path) name (nat (pd_level pd)) @
        [if arr then ascii ''['' else ascii ''{'']) (pd_out pd), pd_level = pd_level pd + 1,
      pd_last = (if arr then JSON_TYPE_ARRAY_START else JSON_TYPE_OBJECT_START)\<rparr>"
  by (simp add: prettify_cb_def event_of_def Let_def print_key_eq emit_def emits_simps)

lemma prettify_end:
  "prettify_cb printer s (event_of name path (if arr then JSON_TYPE_ARRAY_END else JSON_TYPE_OBJECT_END) ptr n) pd =
    Some \<lparr>pd_out = emits printer ((if after_value (pd_last pd) then [10] # replicate (nat (pd_level pd - 1)) (ascii ''  '') else []) @
        [if arr then ascii '']'' else ascii ''}'']) (pd_out pd), pd_level = pd_level pd - 1,
      pd_last = (if arr then JSON_TYPE_ARRAY_END else JSON_TYPE_OBJECT_END)\<rparr>"
  by (simp add: prettify_cb_def event_of_def Let_def indent_def indent_times_eq emit_def emits_simps)

lemma prettify_scalar:
  assumes "occurs s e off v" "tok \<in> {JSON_TYPE_NUMBER, JSON_TYPE_NULL, JSON_TYPE_TRUE, JSON_TYPE_FALSE, JSON_TYPE_STRING}" "n = length v"
  shows "prettify_cb printer s (event_of name path tok (Some off) n) pd =
    Some \<lparr>pd_out = emits printer (key_pieces (after_value (pd_last pd)) (c_string path) name (nat (pd_level pd)) @
        (if tok = JSON_TYPE_STRING then [[34], v, [34]] else [v])) (pd_out pd), pd_level = pd_level pd, pd_last = tok\<rparr>"
proof -
  have "text_slice s off n = Some v" using assms(1) by (auto simp: occurs_def text_slice_def assms(3))
  then show ?thesis
    using assms(2) by (auto simp: prettify_cb_def event_of_def Let_def print_key_eq emit_def emits_simps)
qed


lemma key_pieces_index: "key_pieces comma (path @ index_text i) name n = (if comma then [ascii '','']  else []) @ [10] # replicate n (ascii ''  '')"
  by (simp add: key_pieces_def index_text_def ascii_def)

lemma key_pieces_key:
  "k \<noteq> [] \<Longrightarrow> last k \<noteq> ch_of CHR '']'' \<Longrightarrow> key_pieces comma (path @ ascii ''.'' @ k) (Some k) n =
    (if comma then [ascii '','']  else []) @ [10] # replicate n (ascii ''  '') @ [[34], k, [34], ascii '': '']"
  by (simp add: key_pieces_def ascii_def)

definition pretty_state :: "('o \<Rightarrow> byte list \<Rightarrow> nat \<times> 'o) \<Rightarrow> byte list list \<Rightarrow> nat \<Rightarrow> json_token_type \<Rightarrow> 'o prettify_data \<Rightarrow> 'o prettify_data" where
  "pretty_state printer ps n tok pd = \<lparr>pd_out = emits printer ps (pd_out pd), pd_level = int n, pd_last = tok\<rparr>"

lemma pretty_state_simps:
  "pd_level (pretty_state printer ps n tok pd) = int n" "pd_last (pretty_state printer ps n tok pd) = tok"
  "pretty_state printer qs m tok' (pretty_state printer ps n tok pd) = pretty_state printer (ps @ qs) m tok' pd"
  by (simp_all add: pretty_state_def emits_simps)

lemma scalar_state:
  assumes "occurs s e off (w @ v)" "tok \<in> {JSON_TYPE_NUMBER, JSON_TYPE_NULL, JSON_TYPE_TRUE, JSON_TYPE_FALSE}"
    "0 \<notin> set path" "pd_level pd = int n" "k = length v"
  shows "\<exists>tk. after_value tk \<and> prettify_events printer s [event_of name path tok (Some (off + length w)) k] pd =
    Some (pretty_state printer (key_pieces (after_value (pd_last pd)) path name n @ [v]) n tk pd)"
proof -
  have "occurs s e (off + length w) v" using assms(1) by (simp add: occurs_append)
  note p = prettify_scalar [OF this _ assms(5), where tok = tok and printer = printer and name = name and path = path and pd = pd]
  have "c_string path = path" using c_string_append [OF assms(3), of "[]"] by (simp add: c_string_def)
  moreover have "after_value tok" using assms(2) by (auto simp: after_value_def)
  ultimately show ?thesis
    using p assms(2,4) by (intro exI [of _ tok]) (auto simp: pretty_state_def)
qed

lemma prettify_brackets:
  assumes "0 \<notin> set path" "pd_level pd = int n"
    "\<And>pd. pd_level pd = int (n + 1) \<Longrightarrow> \<not> after_value (pd_last pd) \<Longrightarrow>
      \<exists>tok. after_value tok = (\<not> hollow) \<and> prettify_events printer s es pd = Some (pretty_state printer ps (n + 1) tok pd)"
  shows "\<exists>tok. after_value tok \<and>
    prettify_events printer s ([event_of name path (if arr then JSON_TYPE_ARRAY_START else JSON_TYPE_OBJECT_START) None 0] @ es @
      [event_of None path (if arr then JSON_TYPE_ARRAY_END else JSON_TYPE_OBJECT_END) z k]) pd =
    Some (pretty_state printer (key_pieces (after_value (pd_last pd)) path name n @ [if arr then ascii ''['' else ascii ''{''] @ ps @
      (if hollow then [] else [10] # replicate n (ascii ''  '')) @ [if arr then ascii '']'' else ascii ''}'']) n tok pd)"
proof -
  have c: "c_string path = path" using c_string_append [OF assms(1), of "[]"] by (simp add: c_string_def)
  let ?open = "key_pieces (after_value (pd_last pd)) path name n @ [if arr then ascii ''['' else ascii ''{'']"
  let ?pd1 = "pretty_state printer ?open (n + 1) (if arr then JSON_TYPE_ARRAY_START else JSON_TYPE_OBJECT_START) pd"
  have 1: "prettify_cb printer s (event_of name path (if arr then JSON_TYPE_ARRAY_START else JSON_TYPE_OBJECT_START) None 0) pd = Some ?pd1"
    unfolding prettify_start c by (simp add: assms(2) pretty_state_def)
  have "pd_level ?pd1 = int (n + 1)" "\<not> after_value (pd_last ?pd1)" by (simp_all only: pretty_state_simps) (simp add: after_value_def)
  from assms(3) [OF this] obtain tok where 2: "after_value tok = (\<not> hollow)" "prettify_events printer s es ?pd1 = Some (pretty_state printer ps (n + 1) tok ?pd1)"
    by blast
  let ?pd2 = "pretty_state printer ps (n + 1) tok ?pd1"
  let ?close = "(if hollow then [] else [10] # replicate n (ascii ''  '')) @ [if arr then ascii '']'' else ascii ''}'']"
  have 3: "prettify_cb printer s (event_of None path (if arr then JSON_TYPE_ARRAY_END else JSON_TYPE_OBJECT_END) z k) ?pd2 =
      Some (pretty_state printer ?close n (if arr then JSON_TYPE_ARRAY_END else JSON_TYPE_OBJECT_END) ?pd2)"
    unfolding prettify_end by (cases hollow; cases arr; simp add: 2(1) pretty_state_def emits_simps)
  have "after_value (if arr then JSON_TYPE_ARRAY_END else JSON_TYPE_OBJECT_END)" by (simp add: after_value_def)
  then show ?thesis
    using 1 2(2) 3 by (intro exI [of _ "if arr then JSON_TYPE_ARRAY_END else JSON_TYPE_OBJECT_END"]) (simp add: prettify_append pretty_state_simps)
qed

lemma prettify_value:
  "occurs s e off (render w v) \<Longrightarrow> plain v \<Longrightarrow> 0 \<notin> set path \<Longrightarrow> pd_level pd = int n \<Longrightarrow>
    \<exists>tok. after_value tok \<and> prettify_events printer s (value_events w path name off v) pd =
      Some (pretty_state printer (key_pieces (after_value (pd_last pd)) path name n @ pretty n v) n tok pd)"
  "vs = [] \<or> occurs s e off (render_elements w vs) \<Longrightarrow> list_all plain vs \<Longrightarrow> 0 \<notin> set path \<Longrightarrow> pd_level pd = int n \<Longrightarrow>
    \<exists>tok. after_value tok = (vs \<noteq> [] \<or> after_value (pd_last pd)) \<and> prettify_events printer s (element_events w path i off vs) pd =
      Some (pretty_state printer (pretty_elements n (after_value (pd_last pd)) vs) n tok pd)"
  "ms = [] \<or> occurs s e off (render_members w ms) \<Longrightarrow> plain_members ms \<Longrightarrow> 0 \<notin> set path \<Longrightarrow> pd_level pd = int n \<Longrightarrow>
    \<exists>tok. after_value tok = (ms \<noteq> [] \<or> after_value (pd_last pd)) \<and> prettify_events printer s (member_events w path off ms) pd =
      Some (pretty_state printer (pretty_members n (after_value (pd_last pd)) ms) n tok pd)"
proof (induction w path name off v and w path i off vs and w path off ms arbitrary: pd n and pd n and pd n
    rule: value_events_element_events_member_events.induct)
  case (1 w path name off)
  then show ?case using scalar_state [of s e off w "ascii ''null''" JSON_TYPE_NULL path pd n 4 printer name] by (simp add: literal_lengths)
next
  case (2 w path name off)
  then show ?case using scalar_state [of s e off w "ascii ''true''" JSON_TYPE_TRUE path pd n 4 printer name] by (simp add: literal_lengths)
next
  case (3 w path name off)
  then show ?case using scalar_state [of s e off w "ascii ''false''" JSON_TYPE_FALSE path pd n 5 printer name] by (simp add: literal_lengths)
next
  case (4 w path name off x)
  then show ?case using scalar_state [of s e off w "number_text x" JSON_TYPE_NUMBER path pd n "length (number_text x)" printer name] by simp
next
  case (5 w path name off x)
  have "occurs s e (off + length w + 1) x" using 5(1) by (simp add: occurs_append occurs_Cons)
  note p = prettify_scalar [OF this, where tok = JSON_TYPE_STRING and n = "length x" and printer = printer and name = name and path = path and pd = pd]
  have "c_string path = path" using c_string_append [OF 5(3), of "[]"] by (simp add: c_string_def)
  then show ?case using p 5(4) by (intro exI [of _ JSON_TYPE_STRING]) (simp add: pretty_state_def after_value_def)
next
  case (6 w path name off vs)
  have "occurs s e (off + length w + 1) (render_elements w vs)"
    using 6(2) unfolding render_array by (simp add: occurs_append occurs_Cons)
  then have "\<exists>tok. after_value tok = (\<not> vs = []) \<and> prettify_events printer s (element_events w path 0 (off + length w + 1) vs) pd =
      Some (pretty_state printer (pretty_elements (n + 1) False vs) (n + 1) tok pd)"
    if "pd_level pd = int (n + 1)" "\<not> after_value (pd_last pd)" for pd
    using 6(1) [of pd "n + 1"] 6(3,4) that by simp
  then show ?case
    unfolding value_events.simps pretty.simps by (intro prettify_brackets [OF 6(4,5), where arr = True, unfolded if_True if_False]) blast
next
  case (7 w path name off ms)
  have "occurs s e (off + length w + 1) (render_members w ms)"
    using 7(2) unfolding render_object by (simp add: occurs_append occurs_Cons)
  then have "\<exists>tok. after_value tok = (\<not> ms = []) \<and> prettify_events printer s (member_events w path (off + length w + 1) ms) pd =
      Some (pretty_state printer (pretty_members (n + 1) False ms) (n + 1) tok pd)"
    if "pd_level pd = int (n + 1)" "\<not> after_value (pd_last pd)" for pd
    using 7(1) [of pd "n + 1"] 7(3,4) that by simp
  then show ?case
    unfolding value_events.simps pretty.simps by (intro prettify_brackets [OF 7(4,5), where arr = False, unfolded if_True if_False]) blast
next
  case (8 w path i off)
  then show ?case by (intro exI [of _ "pd_last pd"]) (simp add: pretty_state_def emits_simps)
next
  case (9 w path i off v vs)
  have o: "occurs s e off (render w v)" "vs = [] \<or> occurs s e (off + length (render w v) + length w + 1) (render_elements w vs)"
    using 9(3) by (cases "vs = []"; auto simp: occurs_append occurs_Cons ascii_def add.assoc)+
  have "0 \<notin> set (path @ index_text i)" using 9(5) index_text_bytes(1) by simp
  then obtain tok where tok: "after_value tok" "prettify_events printer s (value_events w (path @ index_text i) (Some (dec_nat i)) off v) pd =
      Some (pretty_state printer (key_pieces (after_value (pd_last pd)) (path @ index_text i) (Some (dec_nat i)) n @ pretty n v) n tok pd)"
    using 9(1) [OF o(1) _ _ 9(6)] 9(4) by auto
  let ?pd = "pretty_state printer (key_pieces (after_value (pd_last pd)) (path @ index_text i) (Some (dec_nat i)) n @ pretty n v) n tok pd"
  obtain tok' where "after_value tok'" "prettify_events printer s (element_events w path (i + 1) (off + length (render w v) + length w + 1) vs) ?pd =
      Some (pretty_state printer (pretty_elements n True vs) n tok' ?pd)"
    using 9(2) [OF o(2) _ 9(5), of ?pd n] 9(4) tok(1) by (auto simp: pretty_state_simps)
  then show ?case
    using tok(2) by (intro exI [of _ tok']) (simp add: prettify_append pretty_state_simps key_pieces_index)
next
  case (10 w path off)
  then show ?case by (intro exI [of _ "pd_last pd"]) (simp add: pretty_state_def emits_simps)
next
  case (11 w path off k v ms)
  let ?off = "off + 2 * length w + length k + 3"
  have o: "occurs s e ?off (render w v)" "ms = [] \<or> occurs s e (?off + length (render w v) + length w + 1) (render_members w ms)"
  proof -
    let ?key = "w @ [34] @ k @ [34] @ w @ ascii '':''"
    have l: "off + length ?key = ?off" by (simp add: ascii_def)
    have r: "render_members w ((k, v) # ms) = ?key @ render w v @ (if ms = [] then [] else (w @ ascii '','') @ render_members w ms)" by simp
    have h: "occurs s e ?off (render w v @ (if ms = [] then [] else (w @ ascii '','') @ render_members w ms))"
      using 11(3) unfolding r occurs_append l by simp
    show "occurs s e ?off (render w v)" using h unfolding occurs_append by blast
    have "length (w @ ascii '','') = length w + 1" by (simp add: ascii_def)
    then show "ms = [] \<or> occurs s e (?off + length (render w v) + length w + 1) (render_members w ms)"
      using h by (cases "ms = []") (simp_all add: occurs_append add.assoc)
  qed
  have "0 \<notin> set (path @ ascii ''.'' @ k)" using 11(4,5) by (simp add: ascii_def)
  then obtain tok where tok: "after_value tok" "prettify_events printer s (value_events w (path @ ascii ''.'' @ k) (Some k) ?off v) pd =
      Some (pretty_state printer (key_pieces (after_value (pd_last pd)) (path @ ascii ''.'' @ k) (Some k) n @ pretty n v) n tok pd)"
    using 11(1) [OF o(1) _ _ 11(6)] 11(4) by auto
  let ?pd = "pretty_state printer (key_pieces (after_value (pd_last pd)) (path @ ascii ''.'' @ k) (Some k) n @ pretty n v) n tok pd"
  obtain tok' where "after_value tok'" "prettify_events printer s (member_events w path (?off + length (render w v) + length w + 1) ms) ?pd =
      Some (pretty_state printer (pretty_members n True ms) n tok' ?pd)"
    using 11(2) [OF o(2) _ 11(5), of ?pd n] 11(4) tok(1) by (auto simp: pretty_state_simps)
  then show ?case
    using tok(2) 11(4) by (intro exI [of _ tok']) (simp add: prettify_append pretty_state_simps key_pieces_key)
qed


lemma number_text_bytes:
  assumes "number_ok x"
  shows "0 \<notin> set (number_text x)" "number_text x \<noteq> []"
proof -
  have d: "0 \<notin> set ds" if "is_digits ds" for ds using that by (auto simp: is_digits_def list_all_iff is_digit_def)
  obtain neg ds fr ex where x: "x = Number neg ds fr ex" by (cases x)
  show "0 \<notin> set (number_text x)" "number_text x \<noteq> []"
    using assms d by (auto simp: x frac_text_def exp_text_def ascii_def is_digits_def split: option.splits prod.splits)
qed

lemma pretty_bytes:
  "plain v \<Longrightarrow> q \<in> set (pretty n v) \<Longrightarrow> 0 \<notin> set q"
  "list_all plain vs \<Longrightarrow> q \<in> set (pretty_elements n comma vs) \<Longrightarrow> 0 \<notin> set q"
  "plain_members ms \<Longrightarrow> q \<in> set (pretty_members n comma ms) \<Longrightarrow> 0 \<notin> set q"
proof (induction n v and n comma vs and n comma ms rule: pretty_pretty_elements_pretty_members.induct)
qed (auto simp: ascii_def number_text_bytes(1) split: if_splits)

lemma pretty_starts: "plain v \<Longrightarrow> pretty n v \<noteq> [] \<and> hd (pretty n v) \<noteq> []"
  by (cases v) (auto simp: ascii_def number_text_bytes(2))

lemma emits_foldl: "snd (foldl (print_piece printer) (k, out) ps) = emits printer ps out"
  by (induction ps arbitrary: k out) (auto simp: emits_simps print_piece_def split: prod.splits)



text \<open>A key that ends in a bracket is printed without its name.\<close>

lemma json_prettify_loses_key:
  "json_prettify (json_sprinter (\<lambda>_. True)) None (ascii ''{\"a]\":1}'') 8 =
    Some (8, Some (concat [ascii ''{'', [10], ascii ''  1'', [10], ascii ''}'']))"
  by code_simp

text \<open>Iterating over the object at \<open>.a\<close> gives a sibling whose key only starts with \<open>a\<close>.\<close>

lemma json_next_takes_sibling:
  "map_option (\<lambda>(h, d). (h, nd_key d)) (json_next (ascii ''{\"a\":{},\"ab\":1}'') 15 None (ascii ''.a'')) =
    Some (Some 13, Some (ascii ''ab''))"
  by code_simp


section \<open>Iterating over an array\<close>

definition element_token :: "byte list \<Rightarrow> json list \<Rightarrow> nat \<Rightarrow> json_token" where
  "element_token w vs i = value_token w (element_offset w (length w + 1) vs i) (vs ! i)"

definition later :: "nat option \<Rightarrow> json_token \<Rightarrow> bool" where
  "later h tok \<longleftrightarrow> (case h of None \<Rightarrow> True | Some h \<Rightarrow> (case tk_ptr tok of Some ptr \<Rightarrow> h < ptr | None \<Rightarrow> False))"

definition next_found :: "json_token \<Rightarrow> nat \<Rightarrow> next_data" where
  "next_found tok i = \<lparr>nd_handle = tk_ptr tok, nd_found = True, nd_key = None, nd_val = tok, nd_idx = int i\<rparr>"

lemma inner_paths:
  "ev \<in> set (value_events w path name off v) \<Longrightarrow> ev_path ev = path \<or> (\<exists>c x. ev_path ev = path @ c # x \<and> (c = 46 \<or> c = 91))"
  "ev \<in> set (element_events w path i off vs) \<Longrightarrow> \<exists>x. ev_path ev = path @ 91 # x"
  "ev \<in> set (member_events w path off ms) \<Longrightarrow> \<exists>x. ev_path ev = path @ 46 # x"
proof (induction w path name off v and w path i off vs and w path off ms rule: value_events_element_events_member_events.induct)
qed (fastforce simp: event_of_def index_text_def ascii_def)+

lemma next_found_stays: "nd_found d \<Longrightarrow> next_events path evs d = Some d"
  by (induction evs) (simp_all add: next_cb_def Let_def)

lemma next_append: "next_events path (es @ fs) d = next_events path es d \<bind> next_events path fs"
  by (induction es arbitrary: d) (simp_all split: bind_splits)

lemma next_root: "ev_path ev = [] \<Longrightarrow> next_cb [] ev d = Some d"
  by (simp add: next_cb_def c_string_def Let_def)

lemma next_inner:
  assumes "\<And>ev. ev \<in> set evs \<Longrightarrow> \<exists>c x. ev_path ev = index_text i @ c # x \<and> (c = 46 \<or> c = 91)"
  shows "next_events [] evs d = Some d"
  using assms
proof (induction evs)
  case (Cons ev evs)
  obtain c x where c: "ev_path ev = index_text i @ c # x" "c = 46 \<or> c = 91" using Cons.prems [of ev] by auto
  then have "c_string (ev_path ev) = index_text i @ c # c_string x"
    unfolding c(1) c_string_append [OF index_text_bytes(1)] by (auto simp: c_string_def)
  then have "next_cb [] ev d = Some d"
    using c(2) by (auto simp: next_cb_def Let_def index_text_def ascii_def)
  then show ?case using Cons by simp
qed simp

lemma atoi_dec_nat: "atoi (dec_nat n) = int n"
proof -
  have "takeWhile is_digit (dec_nat n) = dec_nat n"
    using dec_nat_decimal [of n] by (simp add: takeWhile_eq_all_conv is_digit_def)
  then show ?thesis unfolding atoi_def by (simp only: digits_value)
qed

lemma next_at_index:
  assumes "ev_path ev = index_text i" "\<not> nd_found d"
  shows "next_cb [] ev d =
    (if tk_type (ev_token ev) \<in> {JSON_TYPE_OBJECT_START, JSON_TYPE_ARRAY_START} then next_set_key (ev_name ev) True d
     else if later (nd_handle d) (ev_token ev) then do {
       d \<leftarrow> (if tk_type (ev_token ev) \<notin> {JSON_TYPE_OBJECT_END, JSON_TYPE_ARRAY_END} then next_set_key (ev_name ev) True d else Some d);
       Some (d\<lparr>nd_val := ev_token ev, nd_handle := tk_ptr (ev_token ev), nd_found := True\<rparr>)
     }
     else Some d)"
proof -
  have c: "c_string (index_text i) = index_text i" using c_string_append [OF index_text_bytes(1), of i "[]"] by (simp add: c_string_def)
  have "c \<noteq> 46 \<and> c \<noteq> 91" if "c \<in> set (dec_nat i)" for c using dec_nat_decimal [of i] that by (auto simp: word_le_nat_alt)
  then have "46 \<notin> set (tl (index_text i))" "91 \<notin> set (tl (index_text i))" "hd (index_text i) = 91" "index_text i \<noteq> []"
    by (auto simp: index_text_def ascii_def)
  then show ?thesis
    using assms c by (simp add: next_cb_def Let_def later_def)
qed

lemma next_container:
  assumes "\<not> nd_found d" "\<And>ev. ev \<in> set evs \<Longrightarrow> \<exists>c x. ev_path ev = index_text i @ c # x \<and> (c = 46 \<or> c = 91)"
    "ev_path a = index_text i" "ev_name a = Some (dec_nat i)" "tk_type (ev_token a) \<in> {JSON_TYPE_OBJECT_START, JSON_TYPE_ARRAY_START}"
    "ev_path z = index_text i" "tk_type (ev_token z) \<in> {JSON_TYPE_OBJECT_END, JSON_TYPE_ARRAY_END}"
  shows "\<exists>d'. next_events [] ([a] @ evs @ [z]) d = Some d' \<and>
    (if later (nd_handle d) (ev_token z) then d' = next_found (ev_token z) i else nd_handle d' = nd_handle d \<and> \<not> nd_found d')"
proof -
  let ?d = "d\<lparr>nd_key := None, nd_idx := int i\<rparr>"
  have a: "next_cb [] a d = Some ?d"
    using assms(5) by (simp add: next_at_index [OF assms(3,1)] next_set_key_def assms(4) atoi_dec_nat)
  have f: "\<not> nd_found ?d" using assms(1) by simp
  have "next_cb [] z ?d = Some (if later (nd_handle d) (ev_token z) then next_found (ev_token z) i else ?d)"
    using assms(7) by (auto simp: next_at_index [OF assms(6) f] next_found_def)
  then show ?thesis
    using next_inner [OF assms(2)] assms(1) by (simp add: next_append a)
qed

lemma next_value:
  assumes "\<not> nd_found d"
  shows "\<exists>d'. next_events [] (value_events w (index_text i) (Some (dec_nat i)) off v) d = Some d' \<and>
    (if later (nd_handle d) (value_token w off v) then d' = next_found (value_token w off v) i else nd_handle d' = nd_handle d \<and> \<not> nd_found d')"
proof (cases v)
  case (JArray vs)
  let ?a = "event_of (Some (dec_nat i)) (index_text i) JSON_TYPE_ARRAY_START None 0"
  let ?z = "event_of None (index_text i) JSON_TYPE_ARRAY_END (Some (off + length w)) (length (render w (JArray vs)) - length w)"
  have e: "value_events w (index_text i) (Some (dec_nat i)) off v = [?a] @ element_events w (index_text i) 0 (off + length w + 1) vs @ [?z]"
    unfolding JArray by (rule value_events.simps)
  have tk: "value_token w off v = ev_token ?z"
    unfolding JArray value_token_def value_events.simps by (simp add: event_of_def)
  have "\<exists>c x. ev_path ev = index_text i @ c # x \<and> (c = 46 \<or> c = 91)" if "ev \<in> set (element_events w (index_text i) 0 (off + length w + 1) vs)" for ev
    using inner_paths(2) [OF that] by blast
  then show ?thesis
    unfolding e tk by (intro next_container [OF assms]) (simp_all add: event_of_def)
next
  case (JObject ms)
  let ?a = "event_of (Some (dec_nat i)) (index_text i) JSON_TYPE_OBJECT_START None 0"
  let ?z = "event_of None (index_text i) JSON_TYPE_OBJECT_END (Some (off + length w)) (length (render w (JObject ms)) - length w)"
  have e: "value_events w (index_text i) (Some (dec_nat i)) off v = [?a] @ member_events w (index_text i) (off + length w + 1) ms @ [?z]"
    unfolding JObject by (rule value_events.simps)
  have tk: "value_token w off v = ev_token ?z"
    unfolding JObject value_token_def value_events.simps by (simp add: event_of_def)
  have "\<exists>c x. ev_path ev = index_text i @ c # x \<and> (c = 46 \<or> c = 91)" if "ev \<in> set (member_events w (index_text i) (off + length w + 1) ms)" for ev
    using inner_paths(3) [OF that] by blast
  then show ?thesis
    unfolding e tk by (intro next_container [OF assms]) (simp_all add: event_of_def)
qed (use assms in \<open>auto simp: next_at_index event_of_def value_token_def next_set_key_def atoi_dec_nat next_found_def\<close>)

lemma next_elements:
  assumes "\<not> nd_found d" "\<And>j. j < m \<Longrightarrow> j < length vs \<Longrightarrow> \<not> later (nd_handle d) (value_token w (element_offset w off vs j) (vs ! j))"
    "m < length vs \<Longrightarrow> later (nd_handle d) (value_token w (element_offset w off vs m) (vs ! m))"
  shows "\<exists>d'. next_events [] (element_events w [] k off vs) d = Some d' \<and>
    (if m < length vs then d' = next_found (value_token w (element_offset w off vs m) (vs ! m)) (k + m) else \<not> nd_found d')"
  using assms
proof (induction vs arbitrary: m k off d)
  case (Cons v vs)
  obtain d' where d': "next_events [] (value_events w (index_text k) (Some (dec_nat k)) off v) d = Some d'"
    "if later (nd_handle d) (value_token w off v) then d' = next_found (value_token w off v) k else nd_handle d' = nd_handle d \<and> \<not> nd_found d'"
    using next_value [OF Cons.prems(1)] by blast
  show ?case
  proof (cases m)
    case 0
    then have "d' = next_found (value_token w off v) k" using d'(2) Cons.prems(3) by simp
    then show ?thesis using 0 d'(1) by (simp add: next_append next_found_stays next_found_def)
  next
    case (Suc m')
    then have h: "nd_handle d' = nd_handle d" "\<not> nd_found d'" using d'(2) Cons.prems(2) [of 0] by simp_all
    have "\<not> later (nd_handle d') (value_token w (element_offset w (off + length (render w v) + length w + 1) vs j) (vs ! j))"
      if "j < m'" "j < length vs" for j
      using Cons.prems(2) [of "Suc j"] that Suc h(1) by simp
    moreover have "later (nd_handle d') (value_token w (element_offset w (off + length (render w v) + length w + 1) vs m') (vs ! m'))"
      if "m' < length vs"
      using Cons.prems(3) that Suc h(1) by simp
    ultimately obtain d'' where "next_events [] (element_events w [] (k + 1) (off + length (render w v) + length w + 1) vs) d' = Some d''"
        "if m' < length vs then d'' = next_found (value_token w (element_offset w (off + length (render w v) + length w + 1) vs m') (vs ! m')) (k + 1 + m')
         else \<not> nd_found d''"
      using Cons.IH [OF h(2), of m' "off + length (render w v) + length w + 1" "k + 1"] by blast
    then show ?thesis
      using Suc d'(1) by (intro exI [of _ d'']) (cases "m' < length vs"; simp add: next_append)
  qed
qed simp

lemma value_ptr: "\<exists>q. tk_ptr (value_token w off v) = Some q \<and> off \<le> q \<and> q \<le> off + length (render w v)"
  by (cases v) (auto simp: value_token_def event_of_def)

lemma element_offset_ge: "off \<le> element_offset w off vs n"
proof (induction vs arbitrary: off n)
  case (Cons v vs)
  show ?case using Cons.IH [of "off + length (render w v) + length w + 1" "n - 1"] by simp
qed simp

lemma element_offset_mono:
  "i < j \<Longrightarrow> j < length vs \<Longrightarrow> element_offset w off vs i + length (render w (vs ! i)) < element_offset w off vs j"
proof (induction vs arbitrary: off i j)
  case (Cons v vs)
  show ?case
    using Cons.IH [of "i - 1" "j - 1"] Cons.prems element_offset_ge [of "off + length (render w v) + length w + 1" w vs "j - 1"]
    by (cases i) (auto simp: nth_Cons')
qed simp

lemma later_element:
  assumes "i < length vs" "j < length vs"
  shows "later (tk_ptr (element_token w vs i)) (element_token w vs j) \<longleftrightarrow> i < j"
proof -
  obtain p q where p: "tk_ptr (element_token w vs i) = Some p" "element_offset w (length w + 1) vs i \<le> p"
      "p \<le> element_offset w (length w + 1) vs i + length (render w (vs ! i))"
    and q: "tk_ptr (element_token w vs j) = Some q" "element_offset w (length w + 1) vs j \<le> q"
      "q \<le> element_offset w (length w + 1) vs j + length (render w (vs ! j))"
    using value_ptr [of w "element_offset w (length w + 1) vs i" "vs ! i"] value_ptr [of w "element_offset w (length w + 1) vs j" "vs ! j"]
    unfolding element_token_def by blast
  have "i = j \<Longrightarrow> p = q" using p(1) q(1) by simp
  then have "p < q \<longleftrightarrow> i < j"
    using element_offset_mono [of i j vs w "length w + 1"] element_offset_mono [of j i vs w "length w + 1"] assms p q
    by (cases i j rule: linorder_cases) auto
  then show ?thesis by (simp add: later_def p(1) q(1))
qed

text \<open>
  Iterating with \<open>json_next\<close> over an array visits its elements once each and in order: with the
  handle of one element it gives the next with its index and its text, from no handle the first, and from the
  last none.
\<close>

theorem json_next_iterates:
  assumes "json_ok 0 (JArray vs)" "list_all is_space w" "t = render w (JArray vs) @ rest" "i \<le> length vs"
    "rest = [] \<or> \<not> is_digit (hd rest) \<and> hd rest \<notin> {ch_of CHR ''.'', ch_of CHR ''e'', ch_of CHR ''E''}"
  shows "\<exists>d. json_next t (length t) (if i = 0 then None else tk_ptr (element_token w vs (i - 1))) [] =
      Some (if i < length vs then tk_ptr (element_token w vs i) else None, d) \<and>
    (i < length vs \<longrightarrow> nd_idx d = int i \<and> nd_val d = element_token w vs i \<and>
       slice (the (tk_ptr (nd_val d))) (tk_len (nd_val d)) t = value_text w (vs ! i))"
proof -
  let ?h = "if i = 0 then None else tk_ptr (element_token w vs (i - 1))"
  let ?d = "\<lparr>nd_handle = ?h, nd_found = False, nd_key = None, nd_val = no_token, nd_idx = 0\<rparr>"
  have before: "\<not> later ?h (element_token w vs j)" if "j < i" "j < length vs" for j
    using later_element [of "i - 1" vs j] that assms(4) by auto
  have now: "later ?h (element_token w vs i)" if "i < length vs"
    using later_element [of "i - 1" vs i] that by (auto simp: later_def)
  have f: "\<not> nd_found ?d" by simp
  obtain d where d: "next_events [] (element_events w [] 0 (length w + 1) vs) ?d = Some d"
    "if i < length vs then d = next_found (element_token w vs i) i else \<not> nd_found d"
    using next_elements [OF f, of i vs w "length w + 1" 0] before now unfolding element_token_def by auto
  have walk: "json_walk t (length t) = Some (int (length (render w (JArray vs))),
      [event_of None [] JSON_TYPE_ARRAY_START None 0] @ element_events w [] 0 (length w + 1) vs @
      [event_of None [] JSON_TYPE_ARRAY_END (Some (length w)) (length (render w (JArray vs)) - length w)])"
    using json_walk_reads_render [OF assms(1,2,5)] assms(3) by simp
  have "json_next t (length t) ?h [] = Some (if i < length vs then tk_ptr (element_token w vs i) else None, d)"
    unfolding json_next_def walk using d by (auto simp: next_append next_root event_of_def next_found_def)
  moreover have "slice (the (tk_ptr (element_token w vs i))) (tk_len (element_token w vs i)) t = value_text w (vs ! i)" if "i < length vs"
  proof -
    have "occurs t (length t) 0 (render w (JArray vs))" by (simp add: assms(3) occurs_def slice_def)
    then have "occurs t (length t) (length w + 1) (render_elements w vs)"
      unfolding render_array by (simp add: occurs_append occurs_Cons)
    from value_token_text [OF element_occurs [OF this that]] show ?thesis by (simp add: element_token_def)
  qed
  ultimately show ?thesis using d(2) by (intro exI [of _ d]) (auto simp: next_found_def)
qed

end
