(* ===== verification/MessageFrame.thy ===== *)
theory MessageFrame
  imports Prelude
begin

text \<open>
  \<^verbatim>\<open>lib_message/message_frame.h\<close>: a message carries the structs of some of nine features behind a
  header with its size and a bit mask of the features. The builder copies each struct to a place of
  its own and finally moves the ones that are there together; the reader walks over them. Structs
  are byte images of their size.
\<close>

section \<open>Features\<close>

datatype feature = SensorMetaData | TimestampData | LowNoiseImuData | HighRangeImuData | ExtremeRangeAccData
  | BarometerData | MagnetometerData | FusionData | BatteryData

fun feature_bit :: "feature \<Rightarrow> nat" where
  "feature_bit SensorMetaData = 0"
| "feature_bit TimestampData = 1"
| "feature_bit LowNoiseImuData = 2"
| "feature_bit HighRangeImuData = 3"
| "feature_bit ExtremeRangeAccData = 4"
| "feature_bit BarometerData = 5"
| "feature_bit MagnetometerData = 6"
| "feature_bit FusionData = 7"
| "feature_bit BatteryData = 8"

definition feature_id :: "feature \<Rightarrow> u16" where
  "feature_id f = push_bit (feature_bit f) 1"

fun feature_size :: "feature \<Rightarrow> nat" where
  "feature_size SensorMetaData = 8"
| "feature_size TimestampData = 8"
| "feature_size LowNoiseImuData = 24"
| "feature_size HighRangeImuData = 24"
| "feature_size ExtremeRangeAccData = 12"
| "feature_size BarometerData = 8"
| "feature_size MagnetometerData = 12"
| "feature_size FusionData = 16"
| "feature_size BatteryData = 4"

definition header_size :: nat where "header_size = 4"

function frame_offset :: "feature \<Rightarrow> nat" where
  "frame_offset SensorMetaData = header_size"
| "frame_offset TimestampData = feature_size SensorMetaData + frame_offset SensorMetaData"
| "frame_offset LowNoiseImuData = feature_size TimestampData + frame_offset TimestampData"
| "frame_offset HighRangeImuData = feature_size LowNoiseImuData + frame_offset LowNoiseImuData"
| "frame_offset ExtremeRangeAccData = feature_size HighRangeImuData + frame_offset HighRangeImuData"
| "frame_offset BarometerData = feature_size ExtremeRangeAccData + frame_offset ExtremeRangeAccData"
| "frame_offset MagnetometerData = feature_size BarometerData + frame_offset BarometerData"
| "frame_offset FusionData = feature_size MagnetometerData + frame_offset MagnetometerData"
| "frame_offset BatteryData = feature_size FusionData + frame_offset FusionData"
  by pat_completeness auto

termination
  by (relation "measure feature_bit") simp_all

definition all_features :: "feature list" where
  "all_features = [SensorMetaData, TimestampData, LowNoiseImuData, HighRangeImuData, ExtremeRangeAccData, BarometerData,
     MagnetometerData, FusionData, BatteryData]"

section \<open>The builder\<close>

record frame_builder =
  m_feature_mask :: u16
  m_size :: u32
  m_buffer :: "byte list"
  m_finished :: bool

definition frame_clear :: "frame_builder \<Rightarrow> frame_builder" where
  "frame_clear b = b\<lparr>m_feature_mask := 0, m_size := of_nat header_size, m_buffer := replicate (length (m_buffer b)) 0, m_finished := False\<rparr>"

definition new_builder :: frame_builder where
  "new_builder = frame_clear \<lparr>m_feature_mask = 0, m_size = 0, m_buffer = replicate 512 0, m_finished = False\<rparr>"

definition frame_add :: "feature \<Rightarrow> byte list \<Rightarrow> frame_builder \<Rightarrow> int \<times> frame_builder" where
  "frame_add f d b = (if m_finished b then (-1, b)
     else (0, b\<lparr>m_feature_mask := m_feature_mask b OR feature_id f, m_buffer := overwrite (frame_offset f) d (m_buffer b),
       m_size := m_size b + of_nat (feature_size f)\<rparr>))"

text \<open>The loop of \<^verbatim>\<open>finish\<close>: every feature that is missing is closed up by \<^verbatim>\<open>memmove\<close>.\<close>

fun compact :: "u16 \<Rightarrow> feature list \<Rightarrow> nat \<Rightarrow> byte list \<Rightarrow> byte list" where
  "compact msk [] src buf = buf"
| "compact msk (f # fs) src buf = (if msk AND feature_id f \<noteq> 0 then compact msk fs (src + feature_size f) buf
     else compact msk fs src (overwrite src (drop (src + feature_size f) buf) buf))"

definition frame_finish :: "frame_builder \<Rightarrow> frame_builder" where
  "frame_finish b = (if m_finished b then b
     else let buf = compact (m_feature_mask b) all_features header_size (m_buffer b);
              hdr = le_bytes 2 (ucast (m_size b) :: u16) @ le_bytes 2 (m_feature_mask b)
          in b\<lparr>m_finished := True, m_buffer := overwrite 0 hdr buf\<rparr>)"

section \<open>The reader\<close>

text \<open>
  The size checks only where a feature starts, so the copy of a struct may leave the buffer:
  \<open>None\<close>. The header is read before any check.
\<close>

fun find_feature :: "byte list \<Rightarrow> u16 \<Rightarrow> feature list \<Rightarrow> nat \<Rightarrow> feature \<Rightarrow> byte list option option" where
  "find_feature buf msk [] ptr f = Some None"
| "find_feature buf msk (g # gs) ptr f = (if ptr \<ge> length buf then Some None
     else if msk AND feature_id g \<noteq> 0 then
       if g = f then (if ptr + feature_size g \<le> length buf then Some (Some (slice ptr (feature_size g) buf)) else None)
       else find_feature buf msk gs (ptr + feature_size g) f
     else find_feature buf msk gs ptr f)"

definition get_frame_message_data :: "byte list \<Rightarrow> feature \<Rightarrow> byte list option option" where
  "get_frame_message_data buf f = (if length buf < header_size then None
     else find_feature buf (le_word (slice 2 2 buf)) all_features header_size f)"

section \<open>What a builder holds\<close>

lemma feature_bit_inj: "feature_bit f = feature_bit g \<longleftrightarrow> f = g"
  by (cases f; cases g) simp_all

lemma feature_bit_less: "feature_bit f < 16"
  by (cases f) simp_all

lemma has_feature_bit: "msk AND feature_id f \<noteq> 0 \<longleftrightarrow> bit msk (feature_bit f)"
  by (simp add: feature_id_def bit_iff_and_push_bit_not_eq_0)

lemma has_feature_add: "(msk OR feature_id g) AND feature_id f \<noteq> 0 \<longleftrightarrow> f = g \<or> msk AND feature_id f \<noteq> 0"
  unfolding has_feature_bit using feature_bit_less [of f]
  by (auto simp: feature_id_def bit_or_iff bit_push_bit_iff bit_exp_iff feature_bit_inj [symmetric])

lemma slice_overwrite_other:
  assumes "a + n \<le> b \<or> b + length ys \<le> a" "b + length ys \<le> length xs"
  shows "slice a n (overwrite b ys xs) = slice a n xs"
  by (rule nth_equalityI) (use assms in \<open>auto simp: slice_def nth_overwrite length_overwrite\<close>)

lemma feature_places: "f \<noteq> g \<Longrightarrow> frame_offset f + feature_size f \<le> frame_offset g \<or> frame_offset g + feature_size g \<le> frame_offset f"
  by (cases f; cases g) (simp_all add: header_size_def)

lemma feature_place_end: "frame_offset f + feature_size f \<le> 120"
  by (cases f) (simp_all add: header_size_def)

definition content_size :: "(feature \<Rightarrow> byte list option) \<Rightarrow> feature list \<Rightarrow> nat" where
  "content_size M fs = sum_list (map (\<lambda>f. if M f = None then 0 else feature_size f) fs)"

definition holds :: "(feature \<Rightarrow> byte list option) \<Rightarrow> frame_builder \<Rightarrow> bool" where
  "holds M b \<longleftrightarrow> \<not> m_finished b \<and> length (m_buffer b) = 512 \<and> (\<forall>f. m_feature_mask b AND feature_id f \<noteq> 0 \<longleftrightarrow> M f \<noteq> None)
     \<and> m_size b = of_nat (header_size + content_size M all_features)
     \<and> (\<forall>f d. M f = Some d \<longrightarrow> length d = feature_size f \<and> slice (frame_offset f) (feature_size f) (m_buffer b) = d)"

lemma holds_new: "holds Map.empty new_builder"
  by (simp add: holds_def new_builder_def frame_clear_def content_size_def all_features_def)

lemma holds_add:
  assumes "holds M b" "M f = None" "length d = feature_size f"
  shows "fst (frame_add f d b) = 0 \<and> holds (M(f \<mapsto> d)) (snd (frame_add f d b))"
proof -
  have "content_size (M(f \<mapsto> d)) all_features = content_size M all_features + feature_size f"
    using assms(2) by (cases f) (simp_all add: content_size_def all_features_def)
  moreover have "slice (frame_offset g) (feature_size g) (overwrite (frame_offset f) d (m_buffer b)) = (if g = f then d else slice (frame_offset g) (feature_size g) (m_buffer b))" for g
    using assms(1,3) feature_place_end [of f] feature_places [of g f] slice_overwrite [of "frame_offset f" "m_buffer b" d]
    by (auto simp: holds_def intro!: slice_overwrite_other)
  moreover have "length (overwrite (frame_offset f) d (m_buffer b)) = 512"
    using assms(1,3) feature_place_end [of f] by (simp add: holds_def)
  ultimately show ?thesis
    using assms has_feature_add [of "m_feature_mask b" f] by (auto simp: holds_def frame_add_def algebra_simps)
qed

fun frame_add_all :: "(feature \<times> byte list) list \<Rightarrow> frame_builder \<Rightarrow> frame_builder" where
  "frame_add_all [] b = b"
| "frame_add_all ((f, d) # ds) b = frame_add_all ds (snd (frame_add f d b))"

lemma holds_add_all:
  assumes "holds M b" "distinct (map fst ds)" "\<forall>(f, d)\<in>set ds. M f = None \<and> length d = feature_size f"
  shows "holds (M ++ map_of ds) (frame_add_all ds b)"
  using assms
proof (induction ds arbitrary: M b)
  case (Cons x ds)
  obtain f d where x: "x = (f, d)" by fastforce
  have "holds (M(f \<mapsto> d)) (snd (frame_add f d b))" using holds_add [OF Cons.prems(1)] Cons.prems(3) x by auto
  then have "holds (M(f \<mapsto> d) ++ map_of ds) (frame_add_all ds (snd (frame_add f d b)))"
    by (rule Cons.IH) (use Cons.prems(2,3) x in \<open>force+\<close>)
  moreover have "M(f \<mapsto> d) ++ map_of ds = M ++ map_of (x # ds)"
    using Cons.prems(2) x by (auto simp: fun_eq_iff map_add_def dest: map_of_SomeD split: option.splits) (metis fst_conv image_eqI map_of_SomeD)
  ultimately show ?case unfolding x frame_add_all.simps by (simp only:)
qed simp

text \<open>Closing up the gaps.\<close>

lemma compact_concat:
  assumes "\<forall>f\<in>set fs. length (c f) = feature_size f"
  shows "\<exists>tail'. compact msk fs (length pre) (pre @ concat (map c fs) @ tail) = pre @ concat (map c (filter (\<lambda>f. msk AND feature_id f \<noteq> 0) fs)) @ tail'
     \<and> length (compact msk fs (length pre) (pre @ concat (map c fs) @ tail)) = length (pre @ concat (map c fs) @ tail)"
  using assms
proof (induction fs arbitrary: pre tail)
  case (Cons f fs)
  have l: "length (c f) = feature_size f" "\<forall>f\<in>set fs. length (c f) = feature_size f" using Cons.prems by simp_all
  show ?case
  proof (cases "msk AND feature_id f \<noteq> 0")
    case True
    then show ?thesis using Cons.IH [OF l(2), of "pre @ c f" tail] l(1) by simp
  next
    case False
    let ?xs = "concat (map c fs) @ tail"
    obtain junk where j: "overwrite (length pre) ?xs (pre @ c f @ ?xs) = pre @ ?xs @ junk" "length junk = length (c f)"
      by (simp add: overwrite_def)
    then show ?thesis using Cons.IH [OF l(2), of pre "tail @ junk"] False l(1) by simp
  qed
qed simp

section \<open>Messages\<close>

definition frame_message :: "frame_builder \<Rightarrow> byte list" where
  "frame_message b = take (unat (m_size b)) (m_buffer b)"

definition present :: "(feature \<Rightarrow> byte list option) \<Rightarrow> feature list" where
  "present M = filter (\<lambda>f. M f \<noteq> None) all_features"

text \<open>The message that stands for a choice of features: header, then the structs in the fixed order.\<close>

definition frame_bytes :: "u16 \<Rightarrow> (feature \<Rightarrow> byte list option) \<Rightarrow> byte list" where
  "frame_bytes msk M = le_bytes 2 (of_nat (header_size + content_size M all_features) :: u16) @ le_bytes 2 msk @ concat (map (\<lambda>f. the (M f)) (present M))"

lemma slice_join: "b = a + n \<Longrightarrow> slice a n xs @ slice b m xs @ zs = slice a (n + m) xs @ zs"
  by (simp add: slice_def take_add add.commute [of a n])

lemma slice_join_last: "b = a + n \<Longrightarrow> slice a n xs @ slice b m xs = slice a (n + m) xs"
  by (simp add: slice_def take_add add.commute [of a n])

lemma buffer_places: "120 \<le> length buf \<Longrightarrow>
   buf = take header_size buf @ concat (map (\<lambda>f. slice (frame_offset f) (feature_size f) buf) all_features) @ drop 120 buf"
proof -
  assume a: "120 \<le> length buf"
  have "concat (map (\<lambda>f. slice (frame_offset f) (feature_size f) buf) all_features) = slice 4 116 buf"
    by (simp add: all_features_def header_size_def slice_join slice_join_last)
  moreover have "buf = take 4 buf @ slice 4 116 buf @ drop 120 buf"
    using append_take_drop_id [of 4 buf] append_take_drop_id [of 116 "drop 4 buf"] by (simp add: slice_def)
  ultimately show ?thesis by (simp add: header_size_def)
qed

lemma content_size_bound: "content_size M all_features \<le> 116"
  by (simp add: content_size_def all_features_def)

lemma length_content:
  assumes "\<forall>f d. M f = Some d \<longrightarrow> length d = feature_size f"
  shows "length (concat (map (\<lambda>f. the (M f)) (filter (\<lambda>f. M f \<noteq> None) fs))) = content_size M fs"
  using assms by (induction fs) (auto simp: content_size_def)

lemma frame_message_holds:
  assumes "holds M b"
  shows "frame_message (frame_finish b) = frame_bytes (m_feature_mask b) M" "unat (m_size b) = header_size + content_size M all_features"
proof -
  let ?c = "\<lambda>f. slice (frame_offset f) (feature_size f) (m_buffer b)" and ?msk = "m_feature_mask b"
  have b: "\<not> m_finished b" "length (m_buffer b) = 512" "\<And>f. ?msk AND feature_id f \<noteq> 0 \<longleftrightarrow> M f \<noteq> None"
    and sz: "m_size b = of_nat (header_size + content_size M all_features)"
    and d: "\<forall>f d. M f = Some d \<longrightarrow> length d = feature_size f" "\<And>f. M f \<noteq> None \<Longrightarrow> ?c f = the (M f)"
    using assms by (auto simp: holds_def)
  have small: "header_size + content_size M all_features \<le> 120" using content_size_bound [of M] by (simp add: header_size_def)
  show n: "unat (m_size b) = header_size + content_size M all_features"
    unfolding sz by (rule of_nat_inverse [OF refl]) (use small in simp)
  have len: "\<forall>f\<in>set all_features. length (?c f) = feature_size f"
  proof
    fix f
    have "feature_size f \<le> 512 - frame_offset f" using feature_place_end [of f] by linarith
    then show "length (?c f) = feature_size f" using b(2) by simp
  qed
  have bf: "m_buffer b = take header_size (m_buffer b) @ concat (map ?c all_features) @ drop 120 (m_buffer b)"
    by (rule buffer_places) (simp add: b(2))
  have hl: "length (take header_size (m_buffer b)) = header_size" using b(2) by (simp add: header_size_def)
  obtain tail' where t: "compact ?msk all_features header_size (m_buffer b) = take header_size (m_buffer b) @ concat (map ?c (filter (\<lambda>f. ?msk AND feature_id f \<noteq> 0) all_features)) @ tail'"
    using compact_concat [OF len, of ?msk "take header_size (m_buffer b)" "drop 120 (m_buffer b)"] unfolding hl bf [symmetric] by blast
  have "concat (map ?c (filter (\<lambda>f. ?msk AND feature_id f \<noteq> 0) all_features)) = concat (map (\<lambda>f. the (M f)) (present M))"
    unfolding b(3) present_def by (rule arg_cong [of _ _ concat], rule map_cong) (simp_all add: d(2))
  then have t2: "compact ?msk all_features header_size (m_buffer b) = take header_size (m_buffer b) @ concat (map (\<lambda>f. the (M f)) (present M)) @ tail'"
    using t by simp
  let ?hdr = "le_bytes 2 (ucast (m_size b) :: u16) @ le_bytes 2 ?msk"
  have "m_buffer (frame_finish b) = ?hdr @ concat (map (\<lambda>f. the (M f)) (present M)) @ tail'"
    using b(1,2) unfolding frame_finish_def Let_def t2 by (simp add: overwrite_def header_size_def)
  moreover have "m_size (frame_finish b) = m_size b" using b(1) by (simp add: frame_finish_def Let_def)
  moreover have "(ucast (m_size b) :: u16) = of_nat (header_size + content_size M all_features)"
    using of_nat_unat [of "m_size b", where 'a = u16] n by metis
  ultimately show "frame_message (frame_finish b) = frame_bytes ?msk M"
    using n length_content [OF d(1), of all_features] by (simp add: frame_message_def frame_bytes_def present_def header_size_def)
qed

lemma find_feature_content:
  assumes "\<forall>f. msk AND feature_id f \<noteq> 0 \<longleftrightarrow> M f \<noteq> None" "\<forall>f d. M f = Some d \<longrightarrow> length d = feature_size f"
  shows "find_feature (pre @ concat (map (\<lambda>f. the (M f)) (filter (\<lambda>f. M f \<noteq> None) fs))) msk fs (length pre) f = Some (if f \<in> set fs then M f else None)"
proof (induction fs arbitrary: pre)
  case (Cons g gs)
  have pos: "0 < feature_size g" for g by (cases g) simp_all
  show ?case
  proof (cases "M g")
    case None
    then have m: "msk AND feature_id g = 0" using spec [OF assms(1), of g] by simp
    show ?thesis
    proof (cases "concat (map (\<lambda>f. the (M f)) (filter (\<lambda>f. M f \<noteq> None) gs)) = []")
      case True
      have none: "M h = None" if "h \<in> set gs" for h
      proof (rule ccontr)
        assume "M h \<noteq> None"
        then obtain d where d: "M h = Some d" by blast
        then have "d = []" using True that by (simp only: concat_eq_Nil_conv set_map set_filter) force
        then show False using assms(2) d pos [of h] by force
      qed
      then have "filter (\<lambda>f. M f \<noteq> None) (g # gs) = []" using None by (simp add: filter_empty_conv)
      then show ?thesis using none None by auto
    next
      case False
      then have "\<not> length (pre @ concat (map (\<lambda>f. the (M f)) (filter (\<lambda>f. M f \<noteq> None) gs))) \<le> length pre" by (simp del: concat_eq_Nil_conv)
      then show ?thesis using None m Cons.IH [of pre] by auto
    qed
  next
    case (Some d)
    then have "msk AND feature_id g \<noteq> 0" "length d = feature_size g" "0 < length d" using assms pos by auto
    then show ?thesis using Some Cons.IH [of "pre @ d"] by (auto simp: slice_def)
  qed
qed simp

text \<open>
  C31: whatever features are added, in any order, a finished message gives every one of them back
  and reports the others as missing, reading only inside the message.
\<close>

theorem frame_roundtrip:
  assumes "distinct (map fst ds)" "\<forall>(f, d)\<in>set ds. length d = feature_size f"
  shows "get_frame_message_data (frame_message (frame_finish (frame_add_all ds new_builder))) f = Some (map_of ds f)"
proof -
  let ?b = "frame_add_all ds new_builder" and ?M = "map_of ds"
  have h: "holds ?M ?b" using holds_add_all [OF holds_new assms(1)] assms(2) by (simp add: case_prod_beta)
  have M: "\<forall>f. m_feature_mask ?b AND feature_id f \<noteq> 0 \<longleftrightarrow> ?M f \<noteq> None" "\<forall>f d. ?M f = Some d \<longrightarrow> length d = feature_size f"
    using h by (simp_all add: holds_def)
  let ?hdr = "le_bytes 2 (of_nat (header_size + content_size ?M all_features) :: u16) @ le_bytes 2 (m_feature_mask ?b)"
  have "f \<in> set all_features" by (cases f) (simp_all add: all_features_def)
  then have "find_feature (?hdr @ concat (map (\<lambda>f. the (?M f)) (present ?M))) (m_feature_mask ?b) all_features header_size f = Some (?M f)"
    using find_feature_content [OF M, of ?hdr all_features f] by (simp add: present_def header_size_def)
  moreover have "slice 2 2 (?hdr @ xs) = le_bytes 2 (m_feature_mask ?b)" for xs by (simp add: slice_def)
  ultimately show ?thesis
    unfolding frame_message_holds(1) [OF h] by (simp add: get_frame_message_data_def frame_bytes_def header_size_def)
qed

theorem frame_roundtrip_witness:
  "get_frame_message_data (frame_message (frame_finish (frame_add_all [(BatteryData, [1, 2, 3, 4]), (TimestampData, [1, 2, 3, 4, 5, 6, 7, 8])] new_builder))) BatteryData
     = Some (Some [1, 2, 3, 4])"
  by (subst frame_roundtrip) simp_all

lemma find_feature_cut:
  "f \<in> set fs \<Longrightarrow> ptr < length buf \<Longrightarrow> length buf < ptr + feature_size f \<Longrightarrow> \<forall>g. msk AND feature_id g \<noteq> 0 \<longleftrightarrow> g = f \<Longrightarrow> find_feature buf msk fs ptr f = None"
  by (induction fs) auto

text \<open>
  The reader checks that a feature starts inside the buffer, not that it ends there: of a
  message cut inside a struct it reads past the end.
\<close>

theorem frame_read_past_end:
  assumes "length d = feature_size f" "0 < n" "n < feature_size f"
  shows "get_frame_message_data (take (header_size + n) (frame_message (frame_finish (snd (frame_add f d new_builder))))) f = None"
proof -
  let ?b = "snd (frame_add f d new_builder)"
  have h: "holds [f \<mapsto> d] ?b" using holds_add [OF holds_new, where f = f and d = d] assms(1) by simp
  then have msk: "\<forall>g. m_feature_mask ?b AND feature_id g \<noteq> 0 \<longleftrightarrow> g = f" by (auto simp: holds_def)
  let ?hdr = "le_bytes 2 (of_nat (header_size + content_size [f \<mapsto> d] all_features) :: u16) @ le_bytes 2 (m_feature_mask ?b)"
  have p: "concat (map (\<lambda>g. the ([f \<mapsto> d] g)) (present [f \<mapsto> d])) = d" by (cases f) (simp_all add: present_def all_features_def)
  have a: "f \<in> set all_features" by (cases f) (simp_all add: all_features_def)
  have m: "take (header_size + n) (frame_message (frame_finish ?b)) = ?hdr @ take n d"
    unfolding frame_message_holds(1) [OF h] frame_bytes_def p by (simp add: header_size_def)
  have "slice 2 2 (?hdr @ take n d) = le_bytes 2 (m_feature_mask ?b)" by (simp add: slice_def)
  moreover have "find_feature (?hdr @ take n d) (m_feature_mask ?b) all_features header_size f = None"
    by (rule find_feature_cut [OF a _ _ msk]) (use assms in \<open>simp_all add: header_size_def\<close>)
  ultimately show ?thesis unfolding m by (simp add: get_frame_message_data_def header_size_def)
qed

theorem frame_read_past_end_witness:
  "get_frame_message_data (take (header_size + 2) (frame_message (frame_finish (snd (frame_add BatteryData [1, 2, 3, 4] new_builder))))) BatteryData = None"
  by (rule frame_read_past_end) simp_all

end
