(* ===== verification/Rbs.thy ===== *)
theory Rbs
  imports Prelude
begin

text \<open>
  Time synchronisation by reference broadcasts, \<^verbatim>\<open>lib_rbs\<close>: the packets from and to the sync daemon,
  the sync table with its double buffer, and the server that reads the queued packets, switches
  tables and answers with its last timestamps. Doubles are their 64-bit images; their arithmetic is
  a parameter. The network is one too: what happens to the n-th answer is given by a function, and
  packets are named so that it can be seen which were given back. \<open>None\<close> is a read past the
  packet or a write outside an array.
\<close>

section \<open>Tables and timestamps\<close>

record timestamp =
  ts_sequence_id :: u32
  ts_timestamp_us :: u64
  ts_daemon_id :: u32

record sync_table_entry =
  row_sensor_id :: u32
  row_sensor_instance_id :: u32
  row_m :: u64
  row_t :: u64

record sync_table =
  table_id :: u32
  table_daemon_id :: u32
  rows :: "sync_table_entry list"

definition zero_row :: sync_table_entry where
  "zero_row = \<lparr>row_sensor_id = 0, row_sensor_instance_id = 0, row_m = 0, row_t = 0\<rparr>"

definition new_table :: sync_table where
  "new_table = \<lparr>table_id = 0, table_daemon_id = 0, rows = replicate 32 zero_row\<rparr>"

fun find_row :: "u32 \<Rightarrow> sync_table_entry list \<Rightarrow> (u64 \<times> u64) option" where
  "find_row n [] = None"
| "find_row n (r # rs) = (if row_sensor_id r = n then Some (row_m r, row_t r) else find_row n rs)"

definition get_coeff :: "u32 \<Rightarrow> sync_table \<Rightarrow> (u64 \<times> u64) option" where
  "get_coeff n T = find_row n (rows T)"

definition has_entry :: "u32 \<Rightarrow> u32 \<Rightarrow> sync_table \<Rightarrow> bool" where
  "has_entry n k T \<longleftrightarrow> (\<exists>r\<in>set (rows T). row_sensor_id r = n \<and> row_sensor_instance_id r = k)"

section \<open>Packets\<close>

definition timestamp_bytes :: "timestamp \<Rightarrow> byte list" where
  "timestamp_bytes ts = le_bytes 4 (ts_sequence_id ts) @ le_bytes 8 (ts_timestamp_us ts) @ le_bytes 4 (ts_daemon_id ts)"

text \<open>The length of the buffer is a parameter of the code that it does not look at.\<close>

definition write_timestamp_packet :: "u32 \<Rightarrow> u32 \<Rightarrow> timestamp list \<Rightarrow> byte list \<Rightarrow> (nat \<times> byte list) option" where
  "write_timestamp_packet sensor_id instance_id hist buf = (
     let d = le_bytes 4 sensor_id @ le_bytes 4 instance_id @ concat (map timestamp_bytes hist)
     in if length d \<le> length buf then Some (length d, overwrite 0 d buf) else None)"

definition row_of_bytes :: "byte list \<Rightarrow> sync_table_entry" where
  "row_of_bytes cur = \<lparr>row_sensor_id = le_word (slice 0 4 cur), row_sensor_instance_id = le_word (slice 4 4 cur),
     row_m = le_word (slice 8 8 cur), row_t = le_word (slice 16 8 cur)\<rparr>"

function read_rows :: "nat \<Rightarrow> byte list \<Rightarrow> sync_table_entry list \<Rightarrow> sync_table_entry list option" where
  "read_rows i cur rs = (if cur = [] then Some rs
     else if length cur < 24 \<or> length rs \<le> i then None
     else read_rows (i + 1) (drop 24 cur) (rs[i := row_of_bytes cur]))"
  by pat_completeness auto

termination
  by (relation "measure (\<lambda>(i, cur, rs). length cur)") auto

definition read_sync_packet :: "byte list \<Rightarrow> (int \<times> u32 \<times> sync_table) option" where
  "read_sync_packet buf = (if length buf < 4 then Some (-1, 0, new_table)
     else if length buf < 12 then None
     else do {
       rs \<leftarrow> read_rows 0 (drop 12 buf) (rows new_table);
       Some (0, le_word (slice 0 4 buf), \<lparr>table_id = le_word (slice 4 4 buf), table_daemon_id = le_word (slice 8 4 buf), rows = rs\<rparr>)
     })"

section \<open>The server\<close>

record udp_packet =
  pk_name :: nat
  pk_data :: "byte list"
  pk_source :: "u32 \<times> u16"
  pk_timestamp_us :: "u64 option"

datatype net_result = Net_ok | Create_failed | Send_failed

record rbs_server =
  history :: "timestamp list"
  received_packets :: "(udp_packet \<times> u64) list"
  suspended :: bool
  table_buffer :: "sync_table list"
  active :: nat
  deleted :: "nat list"
  answers :: "((u32 \<times> u16) \<times> byte list \<times> net_result) list"

definition active_table :: "rbs_server \<Rightarrow> sync_table" where
  "active_table s = table_buffer s ! active s"

definition rbs_reset :: "rbs_server \<Rightarrow> rbs_server" where
  "rbs_reset s = s\<lparr>table_buffer := [new_table, new_table], active := 0, history := []\<rparr>"

definition new_server :: rbs_server where
  "new_server = rbs_reset \<lparr>history = [], received_packets = [], suspended = False, table_buffer = [], active = 0, deleted = [], answers = []\<rparr>"

definition rbs_suspend :: "bool \<Rightarrow> rbs_server \<Rightarrow> rbs_server" where
  "rbs_suspend b s = s\<lparr>suspended := b\<rparr>"

definition flip_sync_tables :: "sync_table \<Rightarrow> rbs_server \<Rightarrow> rbs_server" where
  "flip_sync_tables T s = (let not_in_use = (if active s = 0 then 1 else 0)
     in s\<lparr>table_buffer := (table_buffer s)[not_in_use := T], active := not_in_use\<rparr>)"

definition calculate_synced_time :: "(u64 \<Rightarrow> u64 \<Rightarrow> u64 \<Rightarrow> u64) \<Rightarrow> u32 \<Rightarrow> u64 \<Rightarrow> rbs_server \<Rightarrow> u64 option" where
  "calculate_synced_time synced device_id time_us s = (case get_coeff device_id (active_table s) of None \<Rightarrow> None | Some (m, t) \<Rightarrow> Some (synced m t time_us))"

definition send_timestamps :: "(nat \<Rightarrow> net_result) \<Rightarrow> u32 \<Rightarrow> u32 \<Rightarrow> u32 \<times> u16 \<Rightarrow> rbs_server \<Rightarrow> rbs_server option" where
  "send_timestamps net device_id instance_id dst s = do {
     (n, msg) \<leftarrow> write_timestamp_packet device_id instance_id (history s) (replicate 128 0);
     Some (if n > 0 then s\<lparr>answers := answers s @ [(dst, take n msg, net (length (answers s)))]\<rparr> else s)
   }"

definition process_packet :: "(nat \<Rightarrow> net_result) \<Rightarrow> u32 \<Rightarrow> u32 \<Rightarrow> udp_packet \<times> u64 \<Rightarrow> rbs_server \<Rightarrow> rbs_server option" where
  "process_packet net device_id instance_id = (\<lambda>(p, timestamp_us) s. do {
     (rc, sequence_id, received_table) \<leftarrow> read_sync_packet (pk_data p);
     s \<leftarrow> (if rc = 0 then do {
        let s = (if table_id (active_table s) \<noteq> table_id received_table \<and> \<not> suspended s then flip_sync_tables received_table s else s);
        let ts = \<lparr>ts_sequence_id = sequence_id, ts_timestamp_us = timestamp_us, ts_daemon_id = table_daemon_id received_table\<rparr>;
        let s = s\<lparr>history := drop (length (history s) - 2) (history s) @ [ts]\<rparr>;
        send_timestamps net device_id instance_id (pk_source p) s
      } else Some s);
     Some (s\<lparr>deleted := deleted s @ [pk_name p]\<rparr>)
   })"

fun process_loop :: "(nat \<Rightarrow> net_result) \<Rightarrow> u32 \<Rightarrow> u32 \<Rightarrow> (udp_packet \<times> u64) list \<Rightarrow> rbs_server \<Rightarrow> rbs_server option" where
  "process_loop net d k [] s = Some (s\<lparr>received_packets := []\<rparr>)"
| "process_loop net d k (p # ps) s = do {
     s \<leftarrow> process_packet net d k p (s\<lparr>received_packets := ps\<rparr>);
     process_loop net d k ps s
   }"

definition rbs_process :: "(nat \<Rightarrow> net_result) \<Rightarrow> u32 \<Rightarrow> u32 \<Rightarrow> rbs_server \<Rightarrow> rbs_server option" where
  "rbs_process net d k s = process_loop net d k (received_packets s) s"

text \<open>The queue takes the packet or it is given back at once.\<close>

definition on_receive_packet :: "bool \<Rightarrow> udp_packet \<Rightarrow> rbs_server \<Rightarrow> rbs_server" where
  "on_receive_packet put_ok p s = (
     let timestamp_us = (case pk_timestamp_us p of None \<Rightarrow> 0 | Some t \<Rightarrow> t)
     in if put_ok then s\<lparr>received_packets := received_packets s @ [(p, timestamp_us)]\<rparr> else s\<lparr>deleted := deleted s @ [pk_name p]\<rparr>)"

definition rbs_stop :: "rbs_server \<Rightarrow> rbs_server" where
  "rbs_stop s = s\<lparr>received_packets := [], deleted := deleted s @ map (pk_name \<circ> fst) (received_packets s)\<rparr>"

section \<open>Reading packets\<close>

declare read_rows.simps [simp del]

text \<open>What the daemon sends.\<close>

definition row_bytes :: "sync_table_entry \<Rightarrow> byte list" where
  "row_bytes r = le_bytes 4 (row_sensor_id r) @ le_bytes 4 (row_sensor_instance_id r) @ le_bytes 8 (row_m r) @ le_bytes 8 (row_t r)"

definition sync_packet :: "u32 \<Rightarrow> u32 \<Rightarrow> u32 \<Rightarrow> sync_table_entry list \<Rightarrow> byte list" where
  "sync_packet seq tid did rs = le_bytes 4 seq @ le_bytes 4 tid @ le_bytes 4 did @ concat (map row_bytes rs)"

lemma length_row_bytes [simp]: "length (row_bytes r) = 24"
  by (simp add: row_bytes_def)

lemma row_bytes_not_Nil [simp]: "row_bytes r \<noteq> []"
  by (rule notI) (use length_row_bytes [of r] in simp)

lemma row_of_row_bytes: "row_of_bytes (row_bytes r @ xs) = r"
  by (simp add: row_of_bytes_def row_bytes_def slice_def)

lemma read_rows_packet:
  "i + length rs \<le> length old \<Longrightarrow> read_rows i (concat (map row_bytes rs)) old = Some (take i old @ rs @ drop (i + length rs) old)"
proof (induction rs arbitrary: i old)
  case (Cons r rs)
  have "read_rows i (concat (map row_bytes (r # rs))) old = read_rows (i + 1) (concat (map row_bytes rs)) (old[i := r])"
    using Cons.prems by (subst read_rows.simps) (auto simp: row_of_row_bytes)
  also have "\<dots> = Some (take (i + 1) (old[i := r]) @ rs @ drop (i + 1 + length rs) (old[i := r]))"
    by (rule Cons.IH) (use Cons.prems in simp)
  finally show ?case using Cons.prems by (simp add: take_Suc_conv_app_nth)
qed (simp add: read_rows.simps)

lemma sync_packet_read:
  assumes "length rs \<le> 32"
  shows "read_sync_packet (sync_packet seq tid did rs)
     = Some (0, seq, \<lparr>table_id = tid, table_daemon_id = did, rows = rs @ replicate (32 - length rs) zero_row\<rparr>)"
  using read_rows_packet [of 0 rs "replicate 32 zero_row"] assms
  by (simp add: read_sync_packet_def sync_packet_def slice_def new_table_def)

text \<open>
  a packet of the daemon with at most 32 rows is read back: sequence number, table and rows,
  the rest of the table being zero.
\<close>

theorem sync_packet_roundtrip:
  assumes "length rs \<le> 32"
  shows "read_sync_packet (sync_packet seq tid did rs)
     = Some (0, seq, \<lparr>table_id = tid, table_daemon_id = did, rows = rs @ replicate (32 - length rs) zero_row\<rparr>)"
  using assms by (rule sync_packet_read)

theorem sync_packet_roundtrip_witness:
  "read_sync_packet (sync_packet 7 1 2 [\<lparr>row_sensor_id = 5, row_sensor_instance_id = 6, row_m = 1, row_t = 2\<rparr>])
     = Some (0, 7, \<lparr>table_id = 1, table_daemon_id = 2, rows = [\<lparr>row_sensor_id = 5, row_sensor_instance_id = 6, row_m = 1, row_t = 2\<rparr>] @ replicate 31 zero_row\<rparr>)"
  by (subst sync_packet_roundtrip) simp_all

lemma read_rows_defined: "i \<le> length rs \<Longrightarrow> read_rows i cur rs \<noteq> None \<longleftrightarrow> 24 dvd length cur \<and> length cur div 24 \<le> length rs - i"
proof (induction i cur rs rule: read_rows.induct)
  case (1 i cur rs)
  show ?case
  proof (cases "cur = [] \<or> length cur < 24 \<or> length rs \<le> i")
    case True
    then show ?thesis using 1(2) by (subst read_rows.simps) (auto dest: dvd_imp_le)
  next
    case False
    then have "read_rows i cur rs = read_rows (i + 1) (drop 24 cur) (rs[i := row_of_bytes cur])" by (subst read_rows.simps) auto
    moreover have "(24 dvd length cur - 24) = (24 dvd length cur)" "length cur div 24 = Suc ((length cur - 24) div 24)"
      using False by (auto simp: dvd_minus_self le_div_geq not_less)
    ultimately show ?thesis using 1(1) False by auto
  qed
qed

text \<open>
  of all packets only those of less than 4 bytes, which are rejected, and those of 12 bytes and
  up to 32 whole rows are read inside the packet and the table; the code checks only the 4 bytes.
\<close>

theorem read_sync_packet_defined:
  "read_sync_packet buf \<noteq> None \<longleftrightarrow> length buf < 4 \<or> 12 \<le> length buf \<and> 24 dvd length buf - 12 \<and> (length buf - 12) div 24 \<le> 32"
  using read_rows_defined [of 0 "rows new_table" "drop 12 buf"]
  by (auto simp: read_sync_packet_def new_table_def)

section \<open>The server\<close>

definition rbs_inv :: "rbs_server \<Rightarrow> bool" where
  "rbs_inv s \<longleftrightarrow> length (history s) \<le> 3 \<and> active s < 2 \<and> length (table_buffer s) = 2"

lemma rbs_inv_new: "rbs_inv new_server"
  by (simp add: rbs_inv_def new_server_def rbs_reset_def)

text \<open>What one packet means: the last three timestamps and the table in use.\<close>

definition last3 :: "'a list \<Rightarrow> 'a list" where
  "last3 xs = drop (length xs - 3) xs"

definition sync_step :: "bool \<Rightarrow> timestamp list \<times> sync_table \<Rightarrow> udp_packet \<times> u64 \<Rightarrow> timestamp list \<times> sync_table" where
  "sync_step susp = (\<lambda>(h, T) (p, t). case read_sync_packet (pk_data p) of
       Some (rc, seq, T') \<Rightarrow> if rc \<noteq> 0 then (h, T) else
         (last3 (h @ [\<lparr>ts_sequence_id = seq, ts_timestamp_us = t, ts_daemon_id = table_daemon_id T'\<rparr>]),
          if table_id T \<noteq> table_id T' \<and> \<not> susp then T' else T)
     | None \<Rightarrow> (h, T))"

text \<open>
  The answers to a sequence of packets: each packet that carries a sequence number is answered to
  where it came from, with the two identifiers of the sensor and the last three timestamps, its
  own included.
\<close>

fun sync_answers :: "u32 \<Rightarrow> u32 \<Rightarrow> bool \<Rightarrow> timestamp list \<times> sync_table \<Rightarrow> (udp_packet \<times> u64) list \<Rightarrow> ((u32 \<times> u16) \<times> byte list) list" where
  "sync_answers d k susp st [] = []"
| "sync_answers d k susp st (x # xs) = (let st' = sync_step susp st x in
     (if 4 \<le> length (pk_data (fst x))
      then [(pk_source (fst x), le_bytes 4 d @ le_bytes 4 k @ concat (map timestamp_bytes (fst st')))] else [])
     @ sync_answers d k susp st' xs)"

definition addressed :: "((u32 \<times> u16) \<times> byte list \<times> net_result) list \<Rightarrow> ((u32 \<times> u16) \<times> byte list) list" where
  "addressed as = map (\<lambda>(dst, msg, r). (dst, msg)) as"

lemma read_sync_packet_accepts: "read_sync_packet buf = Some (rc, seq, T) \<Longrightarrow> rc = 0 \<longleftrightarrow> 4 \<le> length buf"
  by (auto simp: read_sync_packet_def split: if_splits bind_splits)

lemma flip_inv:
  assumes "rbs_inv s"
  shows "rbs_inv (flip_sync_tables T s)" "active_table (flip_sync_tables T s) = T" "table_buffer (flip_sync_tables T s) ! active s = active_table s"
proof -
  have "active s = 0 \<or> active s = 1" using assms by (auto simp: rbs_inv_def)
  then show "rbs_inv (flip_sync_tables T s)" "active_table (flip_sync_tables T s) = T" "table_buffer (flip_sync_tables T s) ! active s = active_table s"
    using assms by (auto simp: rbs_inv_def flip_sync_tables_def active_table_def Let_def)
qed

lemma length_timestamps: "length (concat (map timestamp_bytes h)) = 16 * length h"
  by (induction h) (simp_all add: timestamp_bytes_def)

lemma send_timestamps_ok:
  assumes "length (history s) \<le> 3"
  shows "\<exists>msg r. send_timestamps net d k dst s = Some (s\<lparr>answers := answers s @ [(dst, msg, r)]\<rparr>) \<and>
     msg = le_bytes 4 d @ le_bytes 4 k @ concat (map timestamp_bytes (history s)) \<and> length msg \<le> 56"
proof -
  let ?m = "le_bytes 4 d @ le_bytes 4 k @ concat (map timestamp_bytes (history s))"
  have l: "length ?m \<le> 56" using assms by (simp add: length_timestamps)
  then have "write_timestamp_packet d k (history s) (replicate 128 0) = Some (length ?m, overwrite 0 ?m (replicate 128 0))"
    by (simp add: write_timestamp_packet_def Let_def)
  moreover have "take (length ?m) (overwrite 0 ?m xs) = ?m" for xs by (simp add: overwrite_def)
  ultimately show ?thesis using l by (auto simp: send_timestamps_def)
qed

lemma process_packet_ok:
  assumes "rbs_inv s" "read_sync_packet (pk_data p) \<noteq> None"
  shows "\<exists>s' new. process_packet net d k (p, t) s = Some s' \<and> rbs_inv s' \<and> suspended s' = suspended s \<and> received_packets s' = received_packets s
     \<and> deleted s' = deleted s @ [pk_name p] \<and> (history s', active_table s') = sync_step (suspended s) (history s, active_table s) (p, t)
     \<and> answers s' = answers s @ new \<and> addressed new = sync_answers d k (suspended s) (history s, active_table s) [(p, t)]
     \<and> (\<forall>(dst, msg, r)\<in>set new. length msg \<le> 56)"
proof -
  obtain rc seq T where r: "read_sync_packet (pk_data p) = Some (rc, seq, T)" using assms(2) by (cases "read_sync_packet (pk_data p)") auto
  show ?thesis
  proof (cases "rc = 0")
    case False
    then have "\<not> 4 \<le> length (pk_data p)" using read_sync_packet_accepts [OF r] by simp
    then show ?thesis using False assms(1) r
      by (auto simp: process_packet_def sync_step_def rbs_inv_def active_table_def addressed_def)
  next
    case True
    let ?s1 = "if table_id (active_table s) \<noteq> table_id T \<and> \<not> suspended s then flip_sync_tables T s else s"
    let ?ts = "\<lparr>ts_sequence_id = seq, ts_timestamp_us = t, ts_daemon_id = table_daemon_id T\<rparr>"
    let ?s2 = "?s1\<lparr>history := drop (length (history ?s1) - 2) (history ?s1) @ [?ts]\<rparr>"
    have s1: "rbs_inv ?s1" "active_table ?s1 = (if table_id (active_table s) \<noteq> table_id T \<and> \<not> suspended s then T else active_table s)"
        "history ?s1 = history s" "suspended ?s1 = suspended s" "received_packets ?s1 = received_packets s" "deleted ?s1 = deleted s" "answers ?s1 = answers s"
      using flip_inv [OF assms(1), of T] assms(1) by (simp_all add: flip_sync_tables_def Let_def)
    have h: "drop (length (history ?s1) - 2) (history ?s1) @ [?ts] = last3 (history s @ [?ts])"
      using s1(3) by (simp add: last3_def)
    have l: "length (history ?s2) \<le> 3" by (simp add: h last3_def)
    obtain msg r' where m: "send_timestamps net d k (pk_source p) ?s2 = Some (?s2\<lparr>answers := answers ?s2 @ [(pk_source p, msg, r')]\<rparr>)" "length msg \<le> 56"
      and msg: "msg = le_bytes 4 d @ le_bytes 4 k @ concat (map timestamp_bytes (history ?s2))"
      using send_timestamps_ok [OF l, of net d k "pk_source p"] by blast
    have step: "sync_step (suspended s) (history s, active_table s) (p, t) = (last3 (history s @ [?ts]), active_table ?s1)"
      by (simp add: sync_step_def r True s1(2))
    have len: "4 \<le> length (pk_data p)" using read_sync_packet_accepts [OF r] True by simp
    have hs: "history ?s2 = last3 (history s @ [?ts])" unfolding h by simp
    have ans: "sync_answers d k (suspended s) (history s, active_table s) [(p, t)] = addressed [(pk_source p, msg, r')]"
      unfolding msg hs by (simp add: step len addressed_def)
    have "process_packet net d k (p, t) s = Some ((?s2\<lparr>answers := answers ?s2 @ [(pk_source p, msg, r')]\<rparr>)\<lparr>deleted := deleted ?s2 @ [pk_name p]\<rparr>)"
      unfolding process_packet_def by (simp add: r True Let_def m(1) cong: if_cong)
    moreover have "active_table (?s2\<lparr>answers := a, deleted := b\<rparr>) = active_table ?s1" for a b by (simp add: active_table_def)
    moreover have "rbs_inv (?s2\<lparr>answers := a, deleted := b\<rparr>)" for a b using s1(1) l by (simp add: rbs_inv_def)
    ultimately show ?thesis
      using s1 m(2) h step
      by (intro exI [of _ "(?s2\<lparr>answers := answers ?s2 @ [(pk_source p, msg, r')]\<rparr>)\<lparr>deleted := deleted ?s2 @ [pk_name p]\<rparr>"]
          exI [of _ "[(pk_source p, msg, r')]"]) (simp add: ans del: sync_answers.simps)
  qed
qed

lemma process_loop_ok:
  assumes "rbs_inv s" "\<forall>(p, t)\<in>set ps. read_sync_packet (pk_data p) \<noteq> None"
  shows "\<exists>s' new. process_loop net d k ps s = Some s' \<and> rbs_inv s' \<and> received_packets s' = []
     \<and> deleted s' = deleted s @ map (pk_name \<circ> fst) ps
     \<and> (history s', active_table s') = foldl (sync_step (suspended s)) (history s, active_table s) ps
     \<and> answers s' = answers s @ new \<and> addressed new = sync_answers d k (suspended s) (history s, active_table s) ps
     \<and> (\<forall>(dst, msg, r)\<in>set new. length msg \<le> 56)"
  using assms
proof (induction ps arbitrary: s)
  case Nil
  then show ?case by (simp add: rbs_inv_def active_table_def addressed_def)
next
  case (Cons x ps)
  obtain p t where x: "x = (p, t)" by fastforce
  let ?s = "s\<lparr>received_packets := ps\<rparr>"
  have i: "rbs_inv ?s" "active_table ?s = active_table s" using Cons.prems(1) by (simp_all add: rbs_inv_def active_table_def)
  obtain s1 new1 where s1: "process_packet net d k (p, t) ?s = Some s1" "rbs_inv s1" "suspended s1 = suspended s" "deleted s1 = deleted s @ [pk_name p]"
      "(history s1, active_table s1) = sync_step (suspended s) (history s, active_table s) (p, t)" "answers s1 = answers s @ new1"
      "addressed new1 = sync_answers d k (suspended s) (history s, active_table s) [(p, t)]" "\<forall>(dst, msg, r)\<in>set new1. length msg \<le> 56"
    using process_packet_ok [OF i(1), of p net d k t] Cons.prems(2) x i(2) by auto
  obtain s2 new2 where s2: "process_loop net d k ps s1 = Some s2" "rbs_inv s2" "received_packets s2 = []" "deleted s2 = deleted s1 @ map (pk_name \<circ> fst) ps"
      "(history s2, active_table s2) = foldl (sync_step (suspended s1)) (history s1, active_table s1) ps" "answers s2 = answers s1 @ new2"
      "addressed new2 = sync_answers d k (suspended s1) (history s1, active_table s1) ps" "\<forall>(dst, msg, r)\<in>set new2. length msg \<le> 56"
    using Cons.IH [OF s1(2)] Cons.prems(2) by auto
  have "addressed (new1 @ new2) = sync_answers d k (suspended s) (history s, active_table s) (x # ps)"
    using s1(3,5,7) s2(7) by (simp add: x addressed_def Let_def)
  then show ?case
    by (intro exI [of _ s2] exI [of _ "new1 @ new2"]) (use s1 s2 x in auto)
qed

text \<open>
  C32: when every queued packet has less than 4 bytes, or 12 and at most 32 whole rows of 24, the
  server works through the queue without leaving an array, gives every packet back, and has then
  the timestamps and the table in use that the packets mean one after the other. It answers
  exactly the packets of 4 bytes and more, in order and to their senders, each with the sensor's
  two identifiers and the last three timestamps; an answer has at most 56 bytes, which fit the
  buffer of 128. (The lengths are those the reader can take; it does not check them itself.)
\<close>

theorem rbs_process_refines:
  assumes "rbs_inv s"
    and "\<forall>(p, t)\<in>set (received_packets s). length (pk_data p) < 4
       \<or> 12 \<le> length (pk_data p) \<and> 24 dvd length (pk_data p) - 12 \<and> (length (pk_data p) - 12) div 24 \<le> 32"
  shows "\<exists>s' new. rbs_process net d k s = Some s' \<and> rbs_inv s' \<and> received_packets s' = []
     \<and> deleted s' = deleted s @ map (pk_name \<circ> fst) (received_packets s)
     \<and> (history s', active_table s') = foldl (sync_step (suspended s)) (history s, active_table s) (received_packets s)
     \<and> answers s' = answers s @ new
     \<and> addressed new = sync_answers d k (suspended s) (history s, active_table s) (received_packets s)
     \<and> (\<forall>(dst, msg, r)\<in>set new. length msg \<le> 56)"
proof -
  have "\<forall>(p, t)\<in>set (received_packets s). read_sync_packet (pk_data p) \<noteq> None"
    using assms(2) unfolding read_sync_packet_defined by simp
  from process_loop_ok [OF assms(1) this, of net d k] show ?thesis by (simp add: rbs_process_def)
qed

theorem rbs_process_refines_witness:
  "\<exists>s'. rbs_process (\<lambda>_. Net_ok) 5 6 (on_receive_packet True \<lparr>pk_name = 1, pk_data = sync_packet 7 1 2 [], pk_source = (3, 4), pk_timestamp_us = Some 9\<rparr> new_server) = Some s'
     \<and> deleted s' = [1] \<and> table_id (active_table s') = 1
     \<and> addressed (answers s') = [((3, 4), le_bytes 4 (5 :: u32) @ le_bytes 4 (6 :: u32) @ le_bytes 4 (7 :: u32) @ le_bytes 8 (9 :: u64) @ le_bytes 4 (2 :: u32))]"
proof -
  let ?s = "on_receive_packet True \<lparr>pk_name = 1, pk_data = sync_packet 7 1 2 [], pk_source = (3, 4), pk_timestamp_us = Some 9\<rparr> new_server"
  have r: "read_sync_packet (sync_packet 7 1 2 []) = Some (0, 7, \<lparr>table_id = 1, table_daemon_id = 2, rows = replicate 32 zero_row\<rparr>)"
    using sync_packet_read [of "[]"] by simp
  have q: "received_packets ?s = [(\<lparr>pk_name = 1, pk_data = sync_packet 7 1 2 [], pk_source = (3, 4), pk_timestamp_us = Some 9\<rparr>, 9)]" "deleted ?s = []"
      "active_table ?s = new_table" "suspended ?s = False"
    by (simp_all add: on_receive_packet_def new_server_def rbs_reset_def active_table_def)
  have inv: "rbs_inv ?s" using rbs_inv_new by (simp add: rbs_inv_def on_receive_packet_def)
  have len: "length (sync_packet 7 1 2 []) = 12" by (simp add: sync_packet_def)
  have hs: "history ?s = []" "answers ?s = []" by (simp_all add: on_receive_packet_def new_server_def rbs_reset_def)
  show ?thesis
    using rbs_process_refines [OF inv, of "\<lambda>_. Net_ok" 5 6] unfolding q hs
    by (auto simp: r sync_step_def new_table_def len last3_def timestamp_bytes_def simp del: le_bytes.simps)
qed

end
