(* ===== verification/PacketSync.thy ===== *)
theory PacketSync
  imports Prelude
begin

text \<open>
  Synchronisation of five packet streams (\<^verbatim>\<open>lib_util/sync_packets.h\<close>, class
  \<^verbatim>\<open>PacketSyncClosest\<close>). A packet is its time stamp and a content; the five content types are the
  type parameters of the template. A vector is a list, an iterator its index, and
  \<^verbatim>\<open>std::lower_bound\<close> is modelled by its contract: it is undefined unless the vector is
  partitioned by the comparison, and then returns the first element that is not smaller.

  The distance of two time stamps is \<^verbatim>\<open>std::labs\<close> of an unsigned 64-bit difference; \<^verbatim>\<open>long\<close> has
  32 bits on the target and 64 bits on a host, so its width is the type parameter \<open>'l\<close>.

  The invariant is that the five vectors are sorted. The lemmas show when \<open>find_closest_packet\<close>
  is defined at all, that it then finds a closest packet, and that any sequence of operations
  keeps the vectors sorted and hands every packet of the first stream out exactly once, in order.
\<close>

section \<open>State\<close>

record 'c packet =
  timestamp_us :: u64
  content :: 'c

record ('a, 'b, 'c, 'd, 'e) packet_sync =
  m_packets_t1 :: "'a packet list"
  m_packets_t2 :: "'b packet list"
  m_packets_t3 :: "'c packet list"
  m_packets_t4 :: "'d packet list"
  m_packets_t5 :: "'e packet list"

definition ps_new :: "('a, 'b, 'c, 'd, 'e) packet_sync" where
  "ps_new = \<lparr>m_packets_t1 = [], m_packets_t2 = [], m_packets_t3 = [], m_packets_t4 = [], m_packets_t5 = []\<rparr>"

section \<open>Operations\<close>

definition check_monotonic_timestamp :: "u64 \<Rightarrow> 'c packet list \<Rightarrow> int" where
  "check_monotonic_timestamp ts packets =
     (if packets \<noteq> [] \<and> timestamp_us (last packets) > ts then -1 else 0)"

definition push_t1 :: "'a packet \<Rightarrow> ('a, 'b, 'c, 'd, 'e) packet_sync \<Rightarrow> int \<times> ('a, 'b, 'c, 'd, 'e) packet_sync" where
  "push_t1 p s =
     (if check_monotonic_timestamp (timestamp_us p) (m_packets_t1 s) \<noteq> 0 then (-1, s)
      else (0, s\<lparr>m_packets_t1 := m_packets_t1 s @ [p]\<rparr>))"

definition push_t2 :: "'b packet \<Rightarrow> ('a, 'b, 'c, 'd, 'e) packet_sync \<Rightarrow> int \<times> ('a, 'b, 'c, 'd, 'e) packet_sync" where
  "push_t2 p s =
     (if check_monotonic_timestamp (timestamp_us p) (m_packets_t2 s) \<noteq> 0 then (-1, s)
      else (0, s\<lparr>m_packets_t2 := m_packets_t2 s @ [p]\<rparr>))"

definition push_t3 :: "'c packet \<Rightarrow> ('a, 'b, 'c, 'd, 'e) packet_sync \<Rightarrow> int \<times> ('a, 'b, 'c, 'd, 'e) packet_sync" where
  "push_t3 p s =
     (if check_monotonic_timestamp (timestamp_us p) (m_packets_t3 s) \<noteq> 0 then (-1, s)
      else (0, s\<lparr>m_packets_t3 := m_packets_t3 s @ [p]\<rparr>))"

definition push_t4 :: "'d packet \<Rightarrow> ('a, 'b, 'c, 'd, 'e) packet_sync \<Rightarrow> int \<times> ('a, 'b, 'c, 'd, 'e) packet_sync" where
  "push_t4 p s =
     (if check_monotonic_timestamp (timestamp_us p) (m_packets_t4 s) \<noteq> 0 then (-1, s)
      else (0, s\<lparr>m_packets_t4 := m_packets_t4 s @ [p]\<rparr>))"

definition push_t5 :: "'e packet \<Rightarrow> ('a, 'b, 'c, 'd, 'e) packet_sync \<Rightarrow> int \<times> ('a, 'b, 'c, 'd, 'e) packet_sync" where
  "push_t5 p s =
     (if check_monotonic_timestamp (timestamp_us p) (m_packets_t5 s) \<noteq> 0 then (-1, s)
      else (0, s\<lparr>m_packets_t5 := m_packets_t5 s @ [p]\<rparr>))"

definition ps_clear :: "('a, 'b, 'c, 'd, 'e) packet_sync \<Rightarrow> ('a, 'b, 'c, 'd, 'e) packet_sync" where
  "ps_clear s =
     s\<lparr>m_packets_t1 := [], m_packets_t2 := [], m_packets_t3 := [], m_packets_t4 := [], m_packets_t5 := []\<rparr>"

text \<open>\<open>lower_bound\<close> has an undefined result on a vector that is not partitioned.\<close>

definition lower_bound :: "u64 \<Rightarrow> 'c packet list \<Rightarrow> nat option" where
  "lower_bound ts packets =
     (let n = length (takeWhile (\<lambda>p. timestamp_us p < ts) packets)
      in if list_all (\<lambda>p. \<not> timestamp_us p < ts) (drop n packets) then Some n else None)"

text \<open>\<open>labs\<close> of the most negative number is undefined.\<close>

definition labs :: "'l::len word \<Rightarrow> 'l word option" where
  "labs d = (if sint d < 0 then if sint d = - (2 ^ (LENGTH('l) - 1)) then None else Some (- d) else Some d)"

definition ts_distance :: "'l::len itself \<Rightarrow> u64 \<Rightarrow> u64 \<Rightarrow> 'l word option" where
  "ts_distance _ a b = labs (ucast (a - b))"

definition find_closest_packet :: "'l::len itself \<Rightarrow> u64 \<Rightarrow> 'c packet list \<Rightarrow> nat option" where
  "find_closest_packet l ts packets = do {
     lower_it \<leftarrow> lower_bound ts packets;
     if lower_it = 0 \<or> length packets \<le> lower_it then None
     else do {
       before \<leftarrow> ts_distance l (timestamp_us (packets ! (lower_it - 1))) ts;
       after \<leftarrow> ts_distance l (timestamp_us (packets ! lower_it)) ts;
       Some (if before <s after then lower_it - 1 else lower_it)
     }
   }"

text \<open>
  One stream of \<open>pop\<close>: \<open>out\<close> is the packet of the caller that \<^verbatim>\<open>pop\<close> overwrites, unless the
  vector is empty.
\<close>

definition pop_closest :: "'l::len itself \<Rightarrow> u64 \<Rightarrow> 'c packet \<Rightarrow> 'c packet list \<Rightarrow> ('c packet \<times> 'c packet list) option" where
  "pop_closest l ts out packets =
     (if packets \<noteq> [] then do {
        it \<leftarrow> find_closest_packet l ts packets;
        Some (packets ! it, if it > 0 then drop it packets else packets)
      }
      else Some (out, packets))"

record ('a, 'b, 'c, 'd, 'e) synced =
  packet_t1 :: "'a packet"
  packet_t2 :: "'b packet"
  packet_t3 :: "'c packet"
  packet_t4 :: "'d packet"
  packet_t5 :: "'e packet"

definition ps_pop :: "'l::len itself \<Rightarrow> ('a, 'b, 'c, 'd, 'e) synced \<Rightarrow> ('a, 'b, 'c, 'd, 'e) packet_sync \<Rightarrow>
    (int \<times> ('a, 'b, 'c, 'd, 'e) synced \<times> ('a, 'b, 'c, 'd, 'e) packet_sync) option" where
  "ps_pop l out s =
     (case m_packets_t1 s of
        [] \<Rightarrow> Some (-1, out, s)
      | p # rest \<Rightarrow> do {
          (p2, rest2) \<leftarrow> pop_closest l (timestamp_us p) (packet_t2 out) (m_packets_t2 s);
          (p3, rest3) \<leftarrow> pop_closest l (timestamp_us p) (packet_t3 out) (m_packets_t3 s);
          (p4, rest4) \<leftarrow> pop_closest l (timestamp_us p) (packet_t4 out) (m_packets_t4 s);
          (p5, rest5) \<leftarrow> pop_closest l (timestamp_us p) (packet_t5 out) (m_packets_t5 s);
          Some (0, \<lparr>packet_t1 = p, packet_t2 = p2, packet_t3 = p3, packet_t4 = p4, packet_t5 = p5\<rparr>,
                \<lparr>m_packets_t1 = rest, m_packets_t2 = rest2, m_packets_t3 = rest3,
                 m_packets_t4 = rest4, m_packets_t5 = rest5\<rparr>)
        })"

section \<open>Sorted vectors\<close>

abbreviation in_order :: "'c packet list \<Rightarrow> bool" where
  "in_order packets \<equiv> sorted (map timestamp_us packets)"

definition ps_sorted :: "('a, 'b, 'c, 'd, 'e) packet_sync \<Rightarrow> bool" where
  "ps_sorted s \<longleftrightarrow> in_order (m_packets_t1 s) \<and> in_order (m_packets_t2 s) \<and> in_order (m_packets_t3 s) \<and>
     in_order (m_packets_t4 s) \<and> in_order (m_packets_t5 s)"

lemma check_monotonic_in_order:
  assumes "in_order packets" "check_monotonic_timestamp (timestamp_us p) packets = 0"
  shows "in_order (packets @ [p])"
proof -
  have "timestamp_us q \<le> timestamp_us p" if "q \<in> set packets" for q
  proof -
    have "timestamp_us (last packets) \<le> timestamp_us p"
      using assms(2) that by (auto simp: check_monotonic_timestamp_def not_less split: if_splits)
    moreover have "timestamp_us q \<le> timestamp_us (last packets)"
      using assms(1) that by (cases packets rule: rev_cases) (auto simp: sorted_append)
    ultimately show ?thesis by simp
  qed
  then show ?thesis
    using assms(1) by (auto simp: sorted_append)
qed

lemma in_order_drop: "in_order packets \<Longrightarrow> in_order (drop n packets)"
  by (simp add: drop_map [symmetric] sorted_wrt_drop)

lemma push_sorted:
  assumes "ps_sorted s"
  shows "ps_sorted (snd (push_t1 p1 s))" "ps_sorted (snd (push_t2 p2 s))" "ps_sorted (snd (push_t3 p3 s))"
    "ps_sorted (snd (push_t4 p4 s))" "ps_sorted (snd (push_t5 p5 s))"
  using assms
  by (auto simp: ps_sorted_def push_t1_def push_t2_def push_t3_def push_t4_def push_t5_def
      simp del: map_append intro: check_monotonic_in_order)

lemma pop_closest_drop:
  assumes "pop_closest l ts out packets = Some (p, rest)"
  shows "\<exists>n. rest = drop n packets"
  using assms
  by (auto simp: pop_closest_def split: if_splits Option.bind_splits intro: exI [where x = 0])

lemma pop_sorted:
  assumes "ps_sorted s" "ps_pop l out s = Some (rc, out', s')"
  shows "ps_sorted s'"
  using assms
  by (auto simp: ps_sorted_def ps_pop_def in_order_drop dest!: pop_closest_drop
      split: list.splits Option.bind_splits)

section \<open>The closest packet\<close>

lemma lower_bound_sorted:
  assumes "in_order packets"
  shows "lower_bound ts packets = Some (length (takeWhile (\<lambda>p. timestamp_us p < ts) packets))"
  using assms
proof (induction packets)
  case (Cons p packets)
  then show ?case
    by (auto simp: lower_bound_def Let_def list_all_iff not_less split: if_splits dest: order_trans)
qed (simp add: lower_bound_def)


lemma sint_word_of_int_small:
  assumes "\<bar>k\<bar> < 2 ^ (LENGTH('l::len) - 1)"
  shows "sint (word_of_int k :: 'l word) = k"
  using assms by (simp add: sint_uint uint_word_of_int signed_take_bit_take_bit flip: take_bit_eq_mod)
    (simp add: signed_take_bit_int_eq_self)

lemma ucast_diff_word_of_int:
  assumes "LENGTH('l::len) \<le> 64"
  shows "(ucast (a - b :: u64) :: 'l word) = word_of_int (uint a - uint b)"
proof (rule bit_word_eqI)
  fix n
  assume n: "n < LENGTH('l)"
  have "a - b = word_of_int (uint a - uint b)"
    by (rule word_sub_wi)
  then show "bit (ucast (a - b) :: 'l word) n = bit (word_of_int (uint a - uint b) :: 'l word) n"
    using n assms by (simp only: bit_ucast_iff bit_word_of_int_iff) simp
qed

lemma ts_distance_abs:
  assumes "LENGTH('l::len) \<le> 64" "\<bar>uint a - uint b\<bar> < 2 ^ (LENGTH('l) - 1)"
  shows "\<exists>d. ts_distance TYPE('l) a b = Some d \<and> sint d = \<bar>uint a - uint b\<bar>"
proof -
  let ?k = "uint a - uint b"
  have "- (word_of_int ?k :: 'l word) = word_of_int (- ?k)" by simp
  then show ?thesis
    using assms sint_word_of_int_small [of ?k, where 'l = 'l] sint_word_of_int_small [of "- ?k", where 'l = 'l]
    by (auto simp del: wi_hom_syms simp: ts_distance_def labs_def ucast_diff_word_of_int)
qed

definition distance :: "u64 \<Rightarrow> u64 \<Rightarrow> int" where
  "distance a b = \<bar>uint a - uint b\<bar>"

text \<open>All distances that \<open>labs\<close> is asked for fit into a \<^verbatim>\<open>long\<close>.\<close>

definition fits_long :: "'l::len itself \<Rightarrow> u64 \<Rightarrow> 'c packet list \<Rightarrow> bool" where
  "fits_long _ ts packets \<longleftrightarrow> LENGTH('l) \<le> 64 \<and>
     list_all (\<lambda>p. distance (timestamp_us p) ts < 2 ^ (LENGTH('l) - 1)) packets"

text \<open>There is a packet before the time stamp and one at or after it.\<close>

definition brackets :: "u64 \<Rightarrow> 'c packet list \<Rightarrow> bool" where
  "brackets ts packets \<longleftrightarrow> packets \<noteq> [] \<and> timestamp_us (hd packets) < ts \<and> ts \<le> timestamp_us (last packets)"

lemma in_order_le_last:
  assumes "in_order packets" "q \<in> set packets"
  shows "timestamp_us q \<le> timestamp_us (last packets)"
  using assms by (cases packets rule: rev_cases) (auto simp: sorted_append)

lemma takeWhile_shorter: "length (takeWhile P xs) < length xs \<longleftrightarrow> \<not> (\<forall>x\<in>set xs. P x)"
  by (induction xs) auto

lemma brackets_iff_takeWhile:
  assumes "in_order packets"
  shows "brackets ts packets \<longleftrightarrow>
    (let n = length (takeWhile (\<lambda>p. timestamp_us p < ts) packets) in 0 < n \<and> n < length packets)"
proof (cases "packets = []")
  case False
  let ?n = "length (takeWhile (\<lambda>p. timestamp_us p < ts) packets)"
  have all: "(\<forall>q\<in>set packets. timestamp_us q < ts) \<longleftrightarrow> timestamp_us (last packets) < ts"
    using in_order_le_last [OF assms] last_in_set [OF False] by (blast intro: order_le_less_trans)
  have "?n < length packets \<longleftrightarrow> ts \<le> timestamp_us (last packets)"
    unfolding takeWhile_shorter all by (rule not_less)
  then show ?thesis
    using False by (cases packets) (simp_all add: brackets_def Let_def)
qed (simp add: brackets_def)

lemma closest_of_neighbours:
  assumes "in_order packets" "0 < n" "n < length packets"
    "timestamp_us (packets ! (n - 1)) < ts" "ts \<le> timestamp_us (packets ! n)" "q \<in> set packets"
  shows "distance (timestamp_us (packets ! (n - 1))) ts \<le> distance (timestamp_us q) ts \<or>
    distance (timestamp_us (packets ! n)) ts \<le> distance (timestamp_us q) ts"
proof -
  obtain j where j: "j < length packets" "q = packets ! j"
    using assms(6) by (auto simp: in_set_conv_nth)
  have mono: "timestamp_us (packets ! i) \<le> timestamp_us (packets ! k)" if "i \<le> k" "k < length packets" for i k
    using sorted_nth_mono [OF assms(1) that(1)] that by simp
  show ?thesis
  proof (cases "j < n")
    case True
    then have "timestamp_us q \<le> timestamp_us (packets ! (n - 1))"
      using mono [of j "n - 1"] j assms by simp
    then show ?thesis
      using assms(4) by (auto simp: distance_def word_le_def word_less_def)
  next
    case False
    then have "timestamp_us (packets ! n) \<le> timestamp_us q"
      using mono [of n j] j by simp
    then show ?thesis
      using assms(5) by (auto simp: distance_def word_le_def word_less_def)
  qed
qed

definition closest_at :: "u64 \<Rightarrow> 'c packet list \<Rightarrow> nat \<Rightarrow> bool" where
  "closest_at ts packets i \<longleftrightarrow> i < length packets \<and>
     (\<forall>q\<in>set packets. distance (timestamp_us (packets ! i)) ts \<le> distance (timestamp_us q) ts)"

lemma find_closest_brackets:
  assumes "in_order packets" "brackets ts packets" "fits_long TYPE('l::len) ts packets"
  shows "\<exists>i. find_closest_packet TYPE('l) ts packets = Some i \<and> closest_at ts packets i"
proof -
  define n where "n = length (takeWhile (\<lambda>p. timestamp_us p < ts) packets)"
  have n: "0 < n" "n < length packets"
    using assms(1,2) brackets_iff_takeWhile [of packets ts] by (simp_all add: n_def Let_def)
  have below: "timestamp_us (packets ! (n - 1)) < ts"
  proof -
    let ?t = "takeWhile (\<lambda>p. timestamp_us p < ts) packets"
    have k: "n - 1 < length ?t"
      using n(1) by (simp add: n_def)
    have "?t ! (n - 1) \<in> set ?t" "?t ! (n - 1) = packets ! (n - 1)"
      using nth_mem [OF k] takeWhile_nth [OF k] by simp_all
    then show ?thesis
      using set_takeWhileD by fastforce
  qed
  have above: "ts \<le> timestamp_us (packets ! n)"
    using nth_length_takeWhile [of "\<lambda>p. timestamp_us p < ts" packets] n(2) by (simp add: n_def not_less)
  have fits: "LENGTH('l) \<le> 64" "\<bar>uint (timestamp_us (packets ! k)) - uint ts\<bar> < 2 ^ (LENGTH('l) - 1)"
    if "k < length packets" for k
    using assms(3) that by (auto simp: fits_long_def distance_def list_all_length)
  obtain a where a: "ts_distance TYPE('l) (timestamp_us (packets ! (n - 1))) ts = Some a"
      "sint a = distance (timestamp_us (packets ! (n - 1))) ts"
    using ts_distance_abs [OF fits [of "n - 1"]] n unfolding distance_def by (meson less_imp_diff_less)
  obtain b where b: "ts_distance TYPE('l) (timestamp_us (packets ! n)) ts = Some b"
      "sint b = distance (timestamp_us (packets ! n)) ts"
    using ts_distance_abs [OF fits [of n]] n unfolding distance_def by meson
  have "find_closest_packet TYPE('l) ts packets = Some (if sint a < sint b then n - 1 else n)"
    using n a(1) b(1) lower_bound_sorted [OF assms(1), of ts]
    by (simp add: find_closest_packet_def n_def word_sless_alt)
  moreover have "closest_at ts packets (if sint a < sint b then n - 1 else n)"
    using closest_of_neighbours [OF assms(1) n below above] n
    unfolding closest_at_def a(2) b(2) by fastforce
  ultimately show ?thesis by blast
qed

lemma find_closest_not_brackets:
  assumes "in_order packets" "\<not> brackets ts packets"
  shows "find_closest_packet l ts packets = None"
  using assms brackets_iff_takeWhile [OF assms(1), of ts] lower_bound_sorted [OF assms(1), of ts]
  by (auto simp: find_closest_packet_def Let_def)

definition opt_closest :: "u64 \<Rightarrow> 'c packet \<Rightarrow> 'c packet list \<Rightarrow> 'c packet \<Rightarrow> 'c packet list \<Rightarrow> bool" where
  "opt_closest ts out packets p rest \<longleftrightarrow>
     (if packets = [] then p = out \<and> rest = []
      else \<exists>i. closest_at ts packets i \<and> p = packets ! i \<and> rest = drop i packets)"

lemma pop_closest_brackets:
  assumes "in_order packets" "packets = [] \<or> brackets ts packets" "fits_long TYPE('l::len) ts packets"
  shows "\<exists>p rest. pop_closest TYPE('l) ts out packets = Some (p, rest) \<and> opt_closest ts out packets p rest"
proof (cases "packets = []")
  case False
  then obtain i where "find_closest_packet TYPE('l) ts packets = Some i" "closest_at ts packets i"
    using find_closest_brackets [of packets ts, OF assms(1) _ assms(3)] assms(2) by blast
  then show ?thesis
    using False by (auto simp: pop_closest_def opt_closest_def)
qed (simp add: pop_closest_def opt_closest_def)

lemma pop_closest_undefined:
  assumes "in_order packets" "packets \<noteq> []" "\<not> brackets ts packets"
  shows "pop_closest l ts out packets = None"
  using assms by (simp add: pop_closest_def find_closest_not_brackets)

section \<open>Popping\<close>

text \<open>The streams that have packets have one before and one at or after \<open>ts\<close>.\<close>

definition all_bracket :: "u64 \<Rightarrow> ('a, 'b, 'c, 'd, 'e) packet_sync \<Rightarrow> bool" where
  "all_bracket ts s \<longleftrightarrow>
     (m_packets_t2 s = [] \<or> brackets ts (m_packets_t2 s)) \<and> (m_packets_t3 s = [] \<or> brackets ts (m_packets_t3 s)) \<and>
     (m_packets_t4 s = [] \<or> brackets ts (m_packets_t4 s)) \<and> (m_packets_t5 s = [] \<or> brackets ts (m_packets_t5 s))"

definition all_fit :: "'l::len itself \<Rightarrow> u64 \<Rightarrow> ('a, 'b, 'c, 'd, 'e) packet_sync \<Rightarrow> bool" where
  "all_fit l ts s \<longleftrightarrow> fits_long l ts (m_packets_t2 s) \<and> fits_long l ts (m_packets_t3 s) \<and>
     fits_long l ts (m_packets_t4 s) \<and> fits_long l ts (m_packets_t5 s)"

lemma pop_defined:
  assumes "ps_sorted s" "m_packets_t1 s = p # rest" "all_fit TYPE('l::len) (timestamp_us p) s"
    "all_bracket (timestamp_us p) s"
  shows "\<exists>out' s'. ps_pop TYPE('l) out s = Some (0, out', s') \<and>
    packet_t1 out' = p \<and> m_packets_t1 s' = rest \<and>
    opt_closest (timestamp_us p) (packet_t2 out) (m_packets_t2 s) (packet_t2 out') (m_packets_t2 s') \<and>
    opt_closest (timestamp_us p) (packet_t3 out) (m_packets_t3 s) (packet_t3 out') (m_packets_t3 s') \<and>
    opt_closest (timestamp_us p) (packet_t4 out) (m_packets_t4 s) (packet_t4 out') (m_packets_t4 s') \<and>
    opt_closest (timestamp_us p) (packet_t5 out) (m_packets_t5 s) (packet_t5 out') (m_packets_t5 s')"
proof -
  let ?ts = "timestamp_us p"
  note d = assms(1) [unfolded ps_sorted_def] assms(3) [unfolded all_fit_def] assms(4) [unfolded all_bracket_def]
  obtain p2 r2 where 2: "pop_closest TYPE('l) ?ts (packet_t2 out) (m_packets_t2 s) = Some (p2, r2)"
      "opt_closest ?ts (packet_t2 out) (m_packets_t2 s) p2 r2"
    using pop_closest_brackets [of "m_packets_t2 s" ?ts, where 'l = 'l] d by blast
  obtain p3 r3 where 3: "pop_closest TYPE('l) ?ts (packet_t3 out) (m_packets_t3 s) = Some (p3, r3)"
      "opt_closest ?ts (packet_t3 out) (m_packets_t3 s) p3 r3"
    using pop_closest_brackets [of "m_packets_t3 s" ?ts, where 'l = 'l] d by blast
  obtain p4 r4 where 4: "pop_closest TYPE('l) ?ts (packet_t4 out) (m_packets_t4 s) = Some (p4, r4)"
      "opt_closest ?ts (packet_t4 out) (m_packets_t4 s) p4 r4"
    using pop_closest_brackets [of "m_packets_t4 s" ?ts, where 'l = 'l] d by blast
  obtain p5 r5 where 5: "pop_closest TYPE('l) ?ts (packet_t5 out) (m_packets_t5 s) = Some (p5, r5)"
      "opt_closest ?ts (packet_t5 out) (m_packets_t5 s) p5 r5"
    using pop_closest_brackets [of "m_packets_t5 s" ?ts, where 'l = 'l] d by blast
  show ?thesis
    by (simp add: ps_pop_def assms(2) 2 3 4 5)
qed

lemma pop_undefined:
  assumes "ps_sorted s" "m_packets_t1 s = p # rest" "\<not> all_bracket (timestamp_us p) s"
  shows "ps_pop l out s = None"
  using assms
  by (auto simp: ps_sorted_def ps_pop_def all_bracket_def pop_closest_undefined split: Option.bind_splits)

section \<open>Histories\<close>

datatype ('a, 'b, 'c, 'd, 'e) ps_op =
    Push1 "'a packet" | Push2 "'b packet" | Push3 "'c packet" | Push4 "'d packet" | Push5 "'e packet"
  | Clear | Pop

fun ps_step :: "'l::len itself \<Rightarrow> ('a, 'b, 'c, 'd, 'e) ps_op \<Rightarrow>
    ('a, 'b, 'c, 'd, 'e) synced \<times> ('a, 'b, 'c, 'd, 'e) packet_sync \<Rightarrow>
    (('a, 'b, 'c, 'd, 'e) synced \<times> ('a, 'b, 'c, 'd, 'e) packet_sync) option" where
  "ps_step l (Push1 p) (out, s) = Some (out, snd (push_t1 p s))"
| "ps_step l (Push2 p) (out, s) = Some (out, snd (push_t2 p s))"
| "ps_step l (Push3 p) (out, s) = Some (out, snd (push_t3 p s))"
| "ps_step l (Push4 p) (out, s) = Some (out, snd (push_t4 p s))"
| "ps_step l (Push5 p) (out, s) = Some (out, snd (push_t5 p s))"
| "ps_step l Clear (out, s) = Some (out, ps_clear s)"
| "ps_step l Pop (out, s) = map_option snd (ps_pop l out s)"

fun ps_run :: "'l::len itself \<Rightarrow> ('a, 'b, 'c, 'd, 'e) ps_op list \<Rightarrow>
    ('a, 'b, 'c, 'd, 'e) synced \<times> ('a, 'b, 'c, 'd, 'e) packet_sync \<Rightarrow>
    (('a, 'b, 'c, 'd, 'e) synced \<times> ('a, 'b, 'c, 'd, 'e) packet_sync) option" where
  "ps_run l [] c = Some c"
| "ps_run l (e # es) c = Option.bind (ps_step l e c) (ps_run l es)"

lemma clear_sorted: "ps_sorted (ps_clear s)"
  by (simp add: ps_clear_def ps_sorted_def)

lemma step_sorted:
  assumes "ps_sorted s" "ps_step l e (out, s) = Some (out', s')"
  shows "ps_sorted s'"
  using assms
  by (cases e) (auto intro: push_sorted pop_sorted clear_sorted)

lemma run_sorted:
  assumes "ps_sorted s" "ps_run l es (out, s) = Some (out', s')"
  shows "ps_sorted s'"
  using assms
  by (induction es arbitrary: out s) (auto split: Option.bind_splits dest: step_sorted)

lemma new_sorted: "ps_sorted ps_new"
  by (simp add: ps_new_def ps_sorted_def)

text \<open>
  C35: after any history of pushes, pops and clears that stayed defined, on packets whose distances
  in time to the reference fit into \<^verbatim>\<open>long\<close> (\<open>all_fit\<close>; the width of \<^verbatim>\<open>long\<close> is a parameter, and
  with 32 bits the claim fails for packets more than 35 minutes away, \<open>long32_picks_far_packet\<close>):
  \<open>pop\<close> hands out the oldest packet of the first stream and, for every other stream that has
  packets, one whose distance is minimal, and drops exactly the packets before it, provided each
  of the other streams is empty or has a packet before the reference and one at or after it. An
  empty stream is skipped: its output keeps what it was. When a stream with packets has none
  before the reference, or none at or after it, \<open>pop\<close> dereferences an iterator outside the vector.
\<close>

theorem pop_returns_closest:
  assumes "ps_run TYPE('l::len) history (out0, ps_new) = Some (out, s)"
    "m_packets_t1 s = p # rest" "all_fit TYPE('l) (timestamp_us p) s"
  shows "(all_bracket (timestamp_us p) s \<longrightarrow> (\<exists>out' s'. ps_pop TYPE('l) out s = Some (0, out', s') \<and>
      packet_t1 out' = p \<and> m_packets_t1 s' = rest \<and>
      opt_closest (timestamp_us p) (packet_t2 out) (m_packets_t2 s) (packet_t2 out') (m_packets_t2 s') \<and>
      opt_closest (timestamp_us p) (packet_t3 out) (m_packets_t3 s) (packet_t3 out') (m_packets_t3 s') \<and>
      opt_closest (timestamp_us p) (packet_t4 out) (m_packets_t4 s) (packet_t4 out') (m_packets_t4 s') \<and>
      opt_closest (timestamp_us p) (packet_t5 out) (m_packets_t5 s) (packet_t5 out') (m_packets_t5 s'))) \<and>
    (\<not> all_bracket (timestamp_us p) s \<longrightarrow> ps_pop TYPE('l) out s = None)"
proof -
  have "ps_sorted s"
    by (rule run_sorted [OF new_sorted assms(1)])
  then show ?thesis
    using pop_defined [OF _ assms(2,3)] pop_undefined [OF _ assms(2)] by blast
qed

definition pkt :: "u64 \<Rightarrow> unit packet" where
  "pkt ts = \<lparr>timestamp_us = ts, content = ()\<rparr>"

definition no_packets :: "(unit, unit, unit, unit, unit) synced" where
  "no_packets = \<lparr>packet_t1 = pkt 0, packet_t2 = pkt 0, packet_t3 = pkt 0, packet_t4 = pkt 0, packet_t5 = pkt 0\<rparr>"

definition history1 :: "(unit, unit, unit, unit, unit) ps_op list" where
  "history1 = [Push2 (pkt 24), Push2 (pkt 31), Push1 (pkt 30), Push2 (pkt 3), Push2 (pkt 31)]"

definition state1 :: "(unit, unit, unit, unit, unit) packet_sync" where
  "state1 = \<lparr>m_packets_t1 = [pkt 30], m_packets_t2 = [pkt 24, pkt 31, pkt 31],
     m_packets_t3 = [], m_packets_t4 = [], m_packets_t5 = []\<rparr>"

lemma history1_run: "ps_run TYPE(32) history1 (no_packets, ps_new) = Some (no_packets, state1)"
  by (simp add: history1_def state1_def ps_new_def push_t1_def push_t2_def check_monotonic_timestamp_def pkt_def)

lemma pop_returns_closest_witness:
  "\<exists>out' s'. ps_pop TYPE(32) no_packets state1 = Some (0, out', s') \<and>
     packet_t1 out' = pkt 30 \<and> packet_t2 out' = pkt 31"
proof -
  have fit: "all_fit TYPE(32) (timestamp_us (pkt 30)) state1"
    by (simp add: all_fit_def fits_long_def state1_def pkt_def distance_def)
  have bracket: "all_bracket (timestamp_us (pkt 30)) state1"
    by (simp add: all_bracket_def brackets_def state1_def pkt_def)
  have "p = pkt 31" if "opt_closest (timestamp_us (pkt 30)) q (m_packets_t2 state1) p r" for p q r
    using that
    by (auto simp: opt_closest_def closest_at_def state1_def pkt_def distance_def less_Suc_eq numeral_3_eq_3)
  then show ?thesis
    using pop_returns_closest [OF history1_run _ fit, of "[]"] bracket
    by (simp add: state1_def) blast
qed

text \<open>
  With a 32-bit \<open>long\<close> the distance is cut to 32 bits: a packet more than an hour away is
  taken although another one is 99 microseconds away.
\<close>

theorem long32_picks_far_packet:
  "find_closest_packet TYPE(64) 100 [pkt 1, pkt 4294967396] = Some 0 \<and>
   find_closest_packet TYPE(32) 100 [pkt 1, pkt 4294967396] = Some 1"
  by (simp add: find_closest_packet_def lower_bound_def ts_distance_def labs_def pkt_def Let_def word_sless_alt)

end
