(* ===== verification/GenericSensor.thy ===== *)
theory GenericSensor
  imports Prelude
begin

text \<open>
  The sensor host class and the configuration enumerations (\<^verbatim>\<open>lib_util/generic_sensor.h\<close>). Every
  C++ enum is a datatype with the same enumerators, a function \<open><enum>_int\<close> for their values and the
  list \<open><enum>_valid\<close> of its \<^verbatim>\<open>EnumValuesTrait\<close>. The locale \<open>enum_trait\<close> is the contract of a trait:
  distinct values and a list of exactly the enumerators other than the invalid one. It is
  interpreted for every enum but \<open>GyrScaleRange\<close>, whose list leaves out four ranges.

  The four policies of a sensor are template arguments: each is a state and two functions that
  return a code, may change the state of the policy and act on the hardware \<open>'w\<close> behind the handle
  that the device policy gives to the others.
\<close>

section \<open>The contract of a trait\<close>

definition find_if :: "('e \<Rightarrow> bool) \<Rightarrow> 'e list \<Rightarrow> nat" where
  "find_if P xs = length (takeWhile (\<lambda>e. \<not> P e) xs)"

definition is_valid_enum_value :: "('e \<Rightarrow> int) \<Rightarrow> 'e list \<Rightarrow> int \<Rightarrow> bool" where
  "is_valid_enum_value int_of valid value =
     (let it = find_if (\<lambda>e_val. value = int_of e_val) valid in it \<noteq> length valid)"

lemma find_if_end: "find_if P xs = length xs \<longleftrightarrow> (\<forall>e\<in>set xs. \<not> P e)"
  by (induction xs) (auto simp: find_if_def)

lemma is_valid_enum_value_iff:
  "is_valid_enum_value int_of valid value \<longleftrightarrow> value \<in> int_of ` set valid"
  by (auto simp: is_valid_enum_value_def find_if_end)

locale enum_trait =
  fixes int_of :: "'e \<Rightarrow> int" and valid :: "'e list" and invalid :: 'e
  assumes values_distinct: "int_of e = int_of e' \<Longrightarrow> e = e'"
    and valid_complete: "e \<in> set valid \<longleftrightarrow> e \<noteq> invalid"
begin

lemma valid_iff: "is_valid_enum_value int_of valid value \<longleftrightarrow> (\<exists>!e. e \<noteq> invalid \<and> int_of e = value)"
  by (auto simp: is_valid_enum_value_iff valid_complete dest: values_distinct)

end

section \<open>The enumerations\<close>

datatype PresPowerMode =
    PRES_SLEEP_MODE | PRES_FORCED_MODE | PRES_NORMAL_MODE | PRES_MODE_INVALID

fun PresPowerMode_int :: "PresPowerMode \<Rightarrow> int" where
  "PresPowerMode_int PRES_SLEEP_MODE = 0"
| "PresPowerMode_int PRES_FORCED_MODE = 1"
| "PresPowerMode_int PRES_NORMAL_MODE = 3"
| "PresPowerMode_int PRES_MODE_INVALID = - 1"

definition PresPowerMode_valid :: "PresPowerMode list" where
  "PresPowerMode_valid =
     [PRES_SLEEP_MODE, PRES_FORCED_MODE, PRES_NORMAL_MODE]"

datatype AccOperatingMode =
    ACC_OP_MODE_STANDBY | ACC_OP_MODE_WAKE_UP | ACC_OP_MODE_INSTANT_ON
    | ACC_OP_MODE_FULL_BW_MEASUREMENT | ACC_OP_MODE_INVALID

fun AccOperatingMode_int :: "AccOperatingMode \<Rightarrow> int" where
  "AccOperatingMode_int ACC_OP_MODE_STANDBY = 0"
| "AccOperatingMode_int ACC_OP_MODE_WAKE_UP = 1"
| "AccOperatingMode_int ACC_OP_MODE_INSTANT_ON = 2"
| "AccOperatingMode_int ACC_OP_MODE_FULL_BW_MEASUREMENT = 3"
| "AccOperatingMode_int ACC_OP_MODE_INVALID = - 1"

definition AccOperatingMode_valid :: "AccOperatingMode list" where
  "AccOperatingMode_valid =
     [ACC_OP_MODE_STANDBY, ACC_OP_MODE_WAKE_UP, ACC_OP_MODE_INSTANT_ON,
      ACC_OP_MODE_FULL_BW_MEASUREMENT]"

datatype AccBandwidth =
    ACC_BW_200HZ | ACC_BW_400HZ | ACC_BW_800HZ | ACC_BW_1600HZ | ACC_BW_3200HZ | ACC_BW_INVALID

fun AccBandwidth_int :: "AccBandwidth \<Rightarrow> int" where
  "AccBandwidth_int ACC_BW_200HZ = 0"
| "AccBandwidth_int ACC_BW_400HZ = 1"
| "AccBandwidth_int ACC_BW_800HZ = 2"
| "AccBandwidth_int ACC_BW_1600HZ = 3"
| "AccBandwidth_int ACC_BW_3200HZ = 4"
| "AccBandwidth_int ACC_BW_INVALID = - 1"

definition AccBandwidth_valid :: "AccBandwidth list" where
  "AccBandwidth_valid =
     [ACC_BW_200HZ, ACC_BW_400HZ, ACC_BW_800HZ, ACC_BW_1600HZ, ACC_BW_3200HZ]"

datatype AccInstantOnThMode =
    ACC_INSTANT_ON_LOW_TH | ACC_INSTANT_ON_HIGH_TH | ACC_INSTANT_ON_INVALID

fun AccInstantOnThMode_int :: "AccInstantOnThMode \<Rightarrow> int" where
  "AccInstantOnThMode_int ACC_INSTANT_ON_LOW_TH = 0"
| "AccInstantOnThMode_int ACC_INSTANT_ON_HIGH_TH = 1"
| "AccInstantOnThMode_int ACC_INSTANT_ON_INVALID = - 1"

definition AccInstantOnThMode_valid :: "AccInstantOnThMode list" where
  "AccInstantOnThMode_valid =
     [ACC_INSTANT_ON_LOW_TH, ACC_INSTANT_ON_HIGH_TH]"

datatype AccODR =
    ACC_ODR_400HZ | ACC_ODR_800HZ | ACC_ODR_1600HZ | ACC_ODR_3200HZ | ACC_ODR_6400HZ
    | ACC_ODR_INVALID

fun AccODR_int :: "AccODR \<Rightarrow> int" where
  "AccODR_int ACC_ODR_400HZ = 0"
| "AccODR_int ACC_ODR_800HZ = 1"
| "AccODR_int ACC_ODR_1600HZ = 2"
| "AccODR_int ACC_ODR_3200HZ = 3"
| "AccODR_int ACC_ODR_6400HZ = 4"
| "AccODR_int ACC_ODR_INVALID = - 1"

definition AccODR_valid :: "AccODR list" where
  "AccODR_valid =
     [ACC_ODR_400HZ, ACC_ODR_800HZ, ACC_ODR_1600HZ, ACC_ODR_3200HZ, ACC_ODR_6400HZ]"

datatype AccLrODR =
    ACC_ODR_1_5625HZ | ACC_ODR_3_125HZ | ACC_ODR_6_25HZ | ACC_ODR_12_5HZ | ACC_ODR_25HZ
    | ACC_ODR_50HZ | ACC_ODR_100HZ | ACC_ODR_200HZ | ACC_ODR_500HZ | ACC_ODR_1KHZ | ACC_ODR_2KHZ
    | ACC_ODR_4KHZ | ACC_ODR_8KHZ | ACC_ODR_16KHZ | ACC_ODR_32KHZ | ACC_ODR_LR_INVALID

fun AccLrODR_int :: "AccLrODR \<Rightarrow> int" where
  "AccLrODR_int ACC_ODR_1_5625HZ = 0"
| "AccLrODR_int ACC_ODR_3_125HZ = 1"
| "AccLrODR_int ACC_ODR_6_25HZ = 2"
| "AccLrODR_int ACC_ODR_12_5HZ = 3"
| "AccLrODR_int ACC_ODR_25HZ = 4"
| "AccLrODR_int ACC_ODR_50HZ = 5"
| "AccLrODR_int ACC_ODR_100HZ = 6"
| "AccLrODR_int ACC_ODR_200HZ = 7"
| "AccLrODR_int ACC_ODR_500HZ = 8"
| "AccLrODR_int ACC_ODR_1KHZ = 9"
| "AccLrODR_int ACC_ODR_2KHZ = 10"
| "AccLrODR_int ACC_ODR_4KHZ = 11"
| "AccLrODR_int ACC_ODR_8KHZ = 12"
| "AccLrODR_int ACC_ODR_16KHZ = 13"
| "AccLrODR_int ACC_ODR_32KHZ = 14"
| "AccLrODR_int ACC_ODR_LR_INVALID = - 1"

definition AccLrODR_valid :: "AccLrODR list" where
  "AccLrODR_valid =
     [ACC_ODR_1_5625HZ, ACC_ODR_3_125HZ, ACC_ODR_6_25HZ, ACC_ODR_12_5HZ, ACC_ODR_25HZ, ACC_ODR_50HZ,
      ACC_ODR_100HZ, ACC_ODR_200HZ, ACC_ODR_500HZ, ACC_ODR_1KHZ, ACC_ODR_2KHZ, ACC_ODR_4KHZ,
      ACC_ODR_8KHZ, ACC_ODR_16KHZ, ACC_ODR_32KHZ]"

datatype GyrLrODR =
    GYR_ODR_12_5HZ | GYR_ODR_25HZ | GYR_ODR_50HZ | GYR_ODR_100HZ | GYR_ODR_200HZ | GYR_ODR_500HZ
    | GYR_ODR_1KHZ | GYR_ODR_2KHZ | GYR_ODR_4KHZ | GYR_ODR_8KHZ | GYR_ODR_16KHZ | GYR_ODR_32KHZ
    | GYR_ODR_LR_INVALID

fun GyrLrODR_int :: "GyrLrODR \<Rightarrow> int" where
  "GyrLrODR_int GYR_ODR_12_5HZ = 0"
| "GyrLrODR_int GYR_ODR_25HZ = 1"
| "GyrLrODR_int GYR_ODR_50HZ = 2"
| "GyrLrODR_int GYR_ODR_100HZ = 3"
| "GyrLrODR_int GYR_ODR_200HZ = 4"
| "GyrLrODR_int GYR_ODR_500HZ = 5"
| "GyrLrODR_int GYR_ODR_1KHZ = 6"
| "GyrLrODR_int GYR_ODR_2KHZ = 7"
| "GyrLrODR_int GYR_ODR_4KHZ = 8"
| "GyrLrODR_int GYR_ODR_8KHZ = 9"
| "GyrLrODR_int GYR_ODR_16KHZ = 10"
| "GyrLrODR_int GYR_ODR_32KHZ = 11"
| "GyrLrODR_int GYR_ODR_LR_INVALID = - 1"

definition GyrLrODR_valid :: "GyrLrODR list" where
  "GyrLrODR_valid =
     [GYR_ODR_12_5HZ, GYR_ODR_25HZ, GYR_ODR_50HZ, GYR_ODR_100HZ, GYR_ODR_200HZ, GYR_ODR_500HZ,
      GYR_ODR_1KHZ, GYR_ODR_2KHZ, GYR_ODR_4KHZ, GYR_ODR_8KHZ, GYR_ODR_16KHZ, GYR_ODR_32KHZ]"

datatype AccActivityThreshold =
    ACC_TH_ACTIVITY | ACC_TH_ACTIVITY2 | ACC_TH_INACTIVITY | ACC_TH_INVALID

fun AccActivityThreshold_int :: "AccActivityThreshold \<Rightarrow> int" where
  "AccActivityThreshold_int ACC_TH_ACTIVITY = 0"
| "AccActivityThreshold_int ACC_TH_ACTIVITY2 = 1"
| "AccActivityThreshold_int ACC_TH_INACTIVITY = 2"
| "AccActivityThreshold_int ACC_TH_INVALID = - 1"

definition AccActivityThreshold_valid :: "AccActivityThreshold list" where
  "AccActivityThreshold_valid =
     [ACC_TH_ACTIVITY, ACC_TH_ACTIVITY2, ACC_TH_INACTIVITY]"

datatype AccActProcMode =
    ACC_ACT_PROC_MODE_DEFAULT | ACC_ACT_PROC_MODE_LINKED | ACC_ACT_PROC_MODE_LOOPED
    | ACC_ACT_PROC_MODE_INVALID

fun AccActProcMode_int :: "AccActProcMode \<Rightarrow> int" where
  "AccActProcMode_int ACC_ACT_PROC_MODE_DEFAULT = 0"
| "AccActProcMode_int ACC_ACT_PROC_MODE_LINKED = 1"
| "AccActProcMode_int ACC_ACT_PROC_MODE_LOOPED = 2"
| "AccActProcMode_int ACC_ACT_PROC_MODE_INVALID = - 1"

definition AccActProcMode_valid :: "AccActProcMode list" where
  "AccActProcMode_valid =
     [ACC_ACT_PROC_MODE_DEFAULT, ACC_ACT_PROC_MODE_LINKED, ACC_ACT_PROC_MODE_LOOPED]"

datatype AccWakeUpRate =
    ACC_WUR_52ms | ACC_WUR_104ms | ACC_WUR_208ms | ACC_WUR_512ms | ACC_WUR_2048ms | ACC_WUR_4096ms
    | ACC_WUR_8192ms | ACC_WUR_24576ms | ACC_WUR_INVALID

fun AccWakeUpRate_int :: "AccWakeUpRate \<Rightarrow> int" where
  "AccWakeUpRate_int ACC_WUR_52ms = 0"
| "AccWakeUpRate_int ACC_WUR_104ms = 1"
| "AccWakeUpRate_int ACC_WUR_208ms = 2"
| "AccWakeUpRate_int ACC_WUR_512ms = 3"
| "AccWakeUpRate_int ACC_WUR_2048ms = 4"
| "AccWakeUpRate_int ACC_WUR_4096ms = 5"
| "AccWakeUpRate_int ACC_WUR_8192ms = 6"
| "AccWakeUpRate_int ACC_WUR_24576ms = 7"
| "AccWakeUpRate_int ACC_WUR_INVALID = - 1"

definition AccWakeUpRate_valid :: "AccWakeUpRate list" where
  "AccWakeUpRate_valid =
     [ACC_WUR_52ms, ACC_WUR_104ms, ACC_WUR_208ms, ACC_WUR_512ms, ACC_WUR_2048ms, ACC_WUR_4096ms,
      ACC_WUR_8192ms, ACC_WUR_24576ms]"

datatype MagOperatingMode =
    MAG_OP_MODE_CONTINUOUS | MAG_OP_MODE_SINGLE_TRIGGER | MAG_OP_MODE_POWER_DOWN
    | MAG_OP_MODE_INVALID

fun MagOperatingMode_int :: "MagOperatingMode \<Rightarrow> int" where
  "MagOperatingMode_int MAG_OP_MODE_CONTINUOUS = 0"
| "MagOperatingMode_int MAG_OP_MODE_SINGLE_TRIGGER = 1"
| "MagOperatingMode_int MAG_OP_MODE_POWER_DOWN = 2"
| "MagOperatingMode_int MAG_OP_MODE_INVALID = - 1"

definition MagOperatingMode_valid :: "MagOperatingMode list" where
  "MagOperatingMode_valid =
     [MAG_OP_MODE_CONTINUOUS, MAG_OP_MODE_SINGLE_TRIGGER, MAG_OP_MODE_POWER_DOWN]"

datatype MagScaleRange =
    MAG_SCALE_RANGE_4_GAUSS | MAG_SCALE_RANGE_8_GAUSS | MAG_SCALE_RANGE_12_GAUSS
    | MAG_SCALE_RANGE_16_GAUSS | MAG_SCALE_RANGE_INVALID

fun MagScaleRange_int :: "MagScaleRange \<Rightarrow> int" where
  "MagScaleRange_int MAG_SCALE_RANGE_4_GAUSS = 4"
| "MagScaleRange_int MAG_SCALE_RANGE_8_GAUSS = 8"
| "MagScaleRange_int MAG_SCALE_RANGE_12_GAUSS = 12"
| "MagScaleRange_int MAG_SCALE_RANGE_16_GAUSS = 16"
| "MagScaleRange_int MAG_SCALE_RANGE_INVALID = - 1"

definition MagScaleRange_valid :: "MagScaleRange list" where
  "MagScaleRange_valid =
     [MAG_SCALE_RANGE_4_GAUSS, MAG_SCALE_RANGE_8_GAUSS, MAG_SCALE_RANGE_12_GAUSS,
      MAG_SCALE_RANGE_16_GAUSS]"

datatype AccScaleRange =
    ACC_SCALE_RANGE_2G | ACC_SCALE_RANGE_4G | ACC_SCALE_RANGE_8G | ACC_SCALE_RANGE_16G
    | ACC_SCALE_RANGE_30G | ACC_SCALE_RANGE_32G | ACC_SCALE_RANGE_INVALID

fun AccScaleRange_int :: "AccScaleRange \<Rightarrow> int" where
  "AccScaleRange_int ACC_SCALE_RANGE_2G = 2"
| "AccScaleRange_int ACC_SCALE_RANGE_4G = 4"
| "AccScaleRange_int ACC_SCALE_RANGE_8G = 8"
| "AccScaleRange_int ACC_SCALE_RANGE_16G = 16"
| "AccScaleRange_int ACC_SCALE_RANGE_30G = 30"
| "AccScaleRange_int ACC_SCALE_RANGE_32G = 32"
| "AccScaleRange_int ACC_SCALE_RANGE_INVALID = - 1"

definition AccScaleRange_valid :: "AccScaleRange list" where
  "AccScaleRange_valid =
     [ACC_SCALE_RANGE_2G, ACC_SCALE_RANGE_4G, ACC_SCALE_RANGE_8G, ACC_SCALE_RANGE_16G,
      ACC_SCALE_RANGE_30G, ACC_SCALE_RANGE_32G]"

datatype GyrScaleRange =
    GYR_SCALE_RANGE_16DPS | GYR_SCALE_RANGE_31DPS | GYR_SCALE_RANGE_62DPS | GYR_SCALE_RANGE_125DPS
    | GYR_SCALE_RANGE_250DPS | GYR_SCALE_RANGE_500DPS | GYR_SCALE_RANGE_1000DPS
    | GYR_SCALE_RANGE_2000DPS | GYR_SCALE_RANGE_4000DPS | GYR_SCALE_RANGE_INVALID

fun GyrScaleRange_int :: "GyrScaleRange \<Rightarrow> int" where
  "GyrScaleRange_int GYR_SCALE_RANGE_16DPS = 16"
| "GyrScaleRange_int GYR_SCALE_RANGE_31DPS = 31"
| "GyrScaleRange_int GYR_SCALE_RANGE_62DPS = 62"
| "GyrScaleRange_int GYR_SCALE_RANGE_125DPS = 125"
| "GyrScaleRange_int GYR_SCALE_RANGE_250DPS = 250"
| "GyrScaleRange_int GYR_SCALE_RANGE_500DPS = 500"
| "GyrScaleRange_int GYR_SCALE_RANGE_1000DPS = 1000"
| "GyrScaleRange_int GYR_SCALE_RANGE_2000DPS = 2000"
| "GyrScaleRange_int GYR_SCALE_RANGE_4000DPS = 4000"
| "GyrScaleRange_int GYR_SCALE_RANGE_INVALID = - 1"

definition GyrScaleRange_valid :: "GyrScaleRange list" where
  "GyrScaleRange_valid =
     [GYR_SCALE_RANGE_250DPS, GYR_SCALE_RANGE_500DPS, GYR_SCALE_RANGE_1000DPS,
      GYR_SCALE_RANGE_2000DPS, GYR_SCALE_RANGE_4000DPS]"

datatype SampleRate =
    SAMPLE_RATE_10HZ | SAMPLE_RATE_100HZ | SAMPLE_RATE_200HZ | SAMPLE_RATE_500HZ
    | SAMPLE_RATE_1000HZ | SAMPLE_RATE_INVALID

fun SampleRate_int :: "SampleRate \<Rightarrow> int" where
  "SampleRate_int SAMPLE_RATE_10HZ = 10"
| "SampleRate_int SAMPLE_RATE_100HZ = 100"
| "SampleRate_int SAMPLE_RATE_200HZ = 200"
| "SampleRate_int SAMPLE_RATE_500HZ = 500"
| "SampleRate_int SAMPLE_RATE_1000HZ = 1000"
| "SampleRate_int SAMPLE_RATE_INVALID = - 1"

definition SampleRate_valid :: "SampleRate list" where
  "SampleRate_valid =
     [SAMPLE_RATE_10HZ, SAMPLE_RATE_100HZ, SAMPLE_RATE_200HZ, SAMPLE_RATE_500HZ, SAMPLE_RATE_1000HZ]"

section \<open>The traits keep the contract\<close>

interpretation pres_mode: enum_trait PresPowerMode_int PresPowerMode_valid PRES_MODE_INVALID
proof
  show "e = e'" if "PresPowerMode_int e = PresPowerMode_int e'" for e e'
    using that by (cases e; cases e'; simp)
  show "e \<in> set PresPowerMode_valid \<longleftrightarrow> e \<noteq> PRES_MODE_INVALID" for e
    by (cases e) (simp_all add: PresPowerMode_valid_def)
qed

interpretation acc_mode: enum_trait AccOperatingMode_int AccOperatingMode_valid ACC_OP_MODE_INVALID
proof
  show "e = e'" if "AccOperatingMode_int e = AccOperatingMode_int e'" for e e'
    using that by (cases e; cases e'; simp)
  show "e \<in> set AccOperatingMode_valid \<longleftrightarrow> e \<noteq> ACC_OP_MODE_INVALID" for e
    by (cases e) (simp_all add: AccOperatingMode_valid_def)
qed

interpretation acc_bw: enum_trait AccBandwidth_int AccBandwidth_valid ACC_BW_INVALID
proof
  show "e = e'" if "AccBandwidth_int e = AccBandwidth_int e'" for e e'
    using that by (cases e; cases e'; simp)
  show "e \<in> set AccBandwidth_valid \<longleftrightarrow> e \<noteq> ACC_BW_INVALID" for e
    by (cases e) (simp_all add: AccBandwidth_valid_def)
qed

interpretation acc_instant: enum_trait AccInstantOnThMode_int AccInstantOnThMode_valid ACC_INSTANT_ON_INVALID
proof
  show "e = e'" if "AccInstantOnThMode_int e = AccInstantOnThMode_int e'" for e e'
    using that by (cases e; cases e'; simp)
  show "e \<in> set AccInstantOnThMode_valid \<longleftrightarrow> e \<noteq> ACC_INSTANT_ON_INVALID" for e
    by (cases e) (simp_all add: AccInstantOnThMode_valid_def)
qed

interpretation acc_odr: enum_trait AccODR_int AccODR_valid ACC_ODR_INVALID
proof
  show "e = e'" if "AccODR_int e = AccODR_int e'" for e e'
    using that by (cases e; cases e'; simp)
  show "e \<in> set AccODR_valid \<longleftrightarrow> e \<noteq> ACC_ODR_INVALID" for e
    by (cases e) (simp_all add: AccODR_valid_def)
qed

interpretation acc_lr: enum_trait AccLrODR_int AccLrODR_valid ACC_ODR_LR_INVALID
proof
  show "e = e'" if "AccLrODR_int e = AccLrODR_int e'" for e e'
    using that by (cases e; cases e'; simp)
  show "e \<in> set AccLrODR_valid \<longleftrightarrow> e \<noteq> ACC_ODR_LR_INVALID" for e
    by (cases e) (simp_all add: AccLrODR_valid_def)
qed

interpretation gyr_lr: enum_trait GyrLrODR_int GyrLrODR_valid GYR_ODR_LR_INVALID
proof
  show "e = e'" if "GyrLrODR_int e = GyrLrODR_int e'" for e e'
    using that by (cases e; cases e'; simp)
  show "e \<in> set GyrLrODR_valid \<longleftrightarrow> e \<noteq> GYR_ODR_LR_INVALID" for e
    by (cases e) (simp_all add: GyrLrODR_valid_def)
qed

interpretation acc_th: enum_trait AccActivityThreshold_int AccActivityThreshold_valid ACC_TH_INVALID
proof
  show "e = e'" if "AccActivityThreshold_int e = AccActivityThreshold_int e'" for e e'
    using that by (cases e; cases e'; simp)
  show "e \<in> set AccActivityThreshold_valid \<longleftrightarrow> e \<noteq> ACC_TH_INVALID" for e
    by (cases e) (simp_all add: AccActivityThreshold_valid_def)
qed

interpretation acc_act: enum_trait AccActProcMode_int AccActProcMode_valid ACC_ACT_PROC_MODE_INVALID
proof
  show "e = e'" if "AccActProcMode_int e = AccActProcMode_int e'" for e e'
    using that by (cases e; cases e'; simp)
  show "e \<in> set AccActProcMode_valid \<longleftrightarrow> e \<noteq> ACC_ACT_PROC_MODE_INVALID" for e
    by (cases e) (simp_all add: AccActProcMode_valid_def)
qed

interpretation acc_wur: enum_trait AccWakeUpRate_int AccWakeUpRate_valid ACC_WUR_INVALID
proof
  show "e = e'" if "AccWakeUpRate_int e = AccWakeUpRate_int e'" for e e'
    using that by (cases e; cases e'; simp)
  show "e \<in> set AccWakeUpRate_valid \<longleftrightarrow> e \<noteq> ACC_WUR_INVALID" for e
    by (cases e) (simp_all add: AccWakeUpRate_valid_def)
qed

interpretation mag_mode: enum_trait MagOperatingMode_int MagOperatingMode_valid MAG_OP_MODE_INVALID
proof
  show "e = e'" if "MagOperatingMode_int e = MagOperatingMode_int e'" for e e'
    using that by (cases e; cases e'; simp)
  show "e \<in> set MagOperatingMode_valid \<longleftrightarrow> e \<noteq> MAG_OP_MODE_INVALID" for e
    by (cases e) (simp_all add: MagOperatingMode_valid_def)
qed

interpretation mag_range: enum_trait MagScaleRange_int MagScaleRange_valid MAG_SCALE_RANGE_INVALID
proof
  show "e = e'" if "MagScaleRange_int e = MagScaleRange_int e'" for e e'
    using that by (cases e; cases e'; simp)
  show "e \<in> set MagScaleRange_valid \<longleftrightarrow> e \<noteq> MAG_SCALE_RANGE_INVALID" for e
    by (cases e) (simp_all add: MagScaleRange_valid_def)
qed

interpretation acc_range: enum_trait AccScaleRange_int AccScaleRange_valid ACC_SCALE_RANGE_INVALID
proof
  show "e = e'" if "AccScaleRange_int e = AccScaleRange_int e'" for e e'
    using that by (cases e; cases e'; simp)
  show "e \<in> set AccScaleRange_valid \<longleftrightarrow> e \<noteq> ACC_SCALE_RANGE_INVALID" for e
    by (cases e) (simp_all add: AccScaleRange_valid_def)
qed

interpretation sample_rate: enum_trait SampleRate_int SampleRate_valid SAMPLE_RATE_INVALID
proof
  show "e = e'" if "SampleRate_int e = SampleRate_int e'" for e e'
    using that by (cases e; cases e'; simp)
  show "e \<in> set SampleRate_valid \<longleftrightarrow> e \<noteq> SAMPLE_RATE_INVALID" for e
    by (cases e) (simp_all add: SampleRate_valid_def)
qed

lemma GyrScaleRange_distinct: "GyrScaleRange_int e = GyrScaleRange_int e' \<Longrightarrow> e = e'"
  by (cases e; cases e'; simp)

lemma GyrScaleRange_valid_iff:
  "e \<in> set GyrScaleRange_valid \<longleftrightarrow> e \<noteq> GYR_SCALE_RANGE_INVALID \<and> GyrScaleRange_int e \<notin> {16, 31, 62, 125}"
  by (cases e) (simp_all add: GyrScaleRange_valid_def)

lemma gyr_range_valid:
  "is_valid_enum_value GyrScaleRange_int GyrScaleRange_valid v \<longleftrightarrow>
    v \<notin> {16, 31, 62, 125} \<and> (\<exists>!e. e \<noteq> GYR_SCALE_RANGE_INVALID \<and> GyrScaleRange_int e = v)"
  unfolding is_valid_enum_value_iff by (auto simp: GyrScaleRange_valid_iff dest: GyrScaleRange_distinct)

text \<open>
  C36: A configuration value is accepted exactly when it is the value of one enumerator other than
  the invalid one, for every enumeration but the range of the gyroscope, where the values of four
  enumerators (16, 31, 62 and 125 degrees per second) are refused.
\<close>

theorem sensor_values_typed:
  "(is_valid_enum_value PresPowerMode_int PresPowerMode_valid v \<longleftrightarrow>
      (\<exists>!e. e \<noteq> PRES_MODE_INVALID \<and> PresPowerMode_int e = v)) \<and>
   (is_valid_enum_value AccOperatingMode_int AccOperatingMode_valid v \<longleftrightarrow>
      (\<exists>!e. e \<noteq> ACC_OP_MODE_INVALID \<and> AccOperatingMode_int e = v)) \<and>
   (is_valid_enum_value AccBandwidth_int AccBandwidth_valid v \<longleftrightarrow>
      (\<exists>!e. e \<noteq> ACC_BW_INVALID \<and> AccBandwidth_int e = v)) \<and>
   (is_valid_enum_value AccInstantOnThMode_int AccInstantOnThMode_valid v \<longleftrightarrow>
      (\<exists>!e. e \<noteq> ACC_INSTANT_ON_INVALID \<and> AccInstantOnThMode_int e = v)) \<and>
   (is_valid_enum_value AccODR_int AccODR_valid v \<longleftrightarrow>
      (\<exists>!e. e \<noteq> ACC_ODR_INVALID \<and> AccODR_int e = v)) \<and>
   (is_valid_enum_value AccLrODR_int AccLrODR_valid v \<longleftrightarrow>
      (\<exists>!e. e \<noteq> ACC_ODR_LR_INVALID \<and> AccLrODR_int e = v)) \<and>
   (is_valid_enum_value GyrLrODR_int GyrLrODR_valid v \<longleftrightarrow>
      (\<exists>!e. e \<noteq> GYR_ODR_LR_INVALID \<and> GyrLrODR_int e = v)) \<and>
   (is_valid_enum_value AccActivityThreshold_int AccActivityThreshold_valid v \<longleftrightarrow>
      (\<exists>!e. e \<noteq> ACC_TH_INVALID \<and> AccActivityThreshold_int e = v)) \<and>
   (is_valid_enum_value AccActProcMode_int AccActProcMode_valid v \<longleftrightarrow>
      (\<exists>!e. e \<noteq> ACC_ACT_PROC_MODE_INVALID \<and> AccActProcMode_int e = v)) \<and>
   (is_valid_enum_value AccWakeUpRate_int AccWakeUpRate_valid v \<longleftrightarrow>
      (\<exists>!e. e \<noteq> ACC_WUR_INVALID \<and> AccWakeUpRate_int e = v)) \<and>
   (is_valid_enum_value MagOperatingMode_int MagOperatingMode_valid v \<longleftrightarrow>
      (\<exists>!e. e \<noteq> MAG_OP_MODE_INVALID \<and> MagOperatingMode_int e = v)) \<and>
   (is_valid_enum_value MagScaleRange_int MagScaleRange_valid v \<longleftrightarrow>
      (\<exists>!e. e \<noteq> MAG_SCALE_RANGE_INVALID \<and> MagScaleRange_int e = v)) \<and>
   (is_valid_enum_value AccScaleRange_int AccScaleRange_valid v \<longleftrightarrow>
      (\<exists>!e. e \<noteq> ACC_SCALE_RANGE_INVALID \<and> AccScaleRange_int e = v)) \<and>
   (is_valid_enum_value GyrScaleRange_int GyrScaleRange_valid v \<longleftrightarrow>
      v \<notin> {16, 31, 62, 125} \<and> (\<exists>!e. e \<noteq> GYR_SCALE_RANGE_INVALID \<and> GyrScaleRange_int e = v)) \<and>
   (is_valid_enum_value SampleRate_int SampleRate_valid v \<longleftrightarrow>
      (\<exists>!e. e \<noteq> SAMPLE_RATE_INVALID \<and> SampleRate_int e = v))"
  by (intro conjI gyr_range_valid
    pres_mode.valid_iff acc_mode.valid_iff acc_bw.valid_iff acc_instant.valid_iff acc_odr.valid_iff acc_lr.valid_iff gyr_lr.valid_iff acc_th.valid_iff acc_act.valid_iff acc_wur.valid_iff mag_mode.valid_iff mag_range.valid_iff acc_range.valid_iff sample_rate.valid_iff)

section \<open>The sensor host\<close>

text \<open>The four policies: what their functions do with their own state and the hardware.\<close>

record ('d, 's, 'p, 'q, 'h, 'w) policies =
  device_initialize :: "'d \<Rightarrow> 'w \<Rightarrow> u32 \<times> 'd \<times> 'w"
  device_deinitialize :: "'d \<Rightarrow> 'w \<Rightarrow> u32 \<times> 'd \<times> 'w"
  device_get :: "'d \<Rightarrow> 'h"
  settings_initialize :: "'h \<Rightarrow> 's \<Rightarrow> 'w \<Rightarrow> u32 \<times> 's \<times> 'w"
  settings_deinitialize :: "'s \<Rightarrow> 'w \<Rightarrow> u32 \<times> 's \<times> 'w"
  data_initialize :: "'h \<Rightarrow> 'p \<Rightarrow> 'w \<Rightarrow> u32 \<times> 'p \<times> 'w"
  data_deinitialize :: "'p \<Rightarrow> 'w \<Rightarrow> u32 \<times> 'p \<times> 'w"
  powersave_initialize :: "'h \<Rightarrow> 'q \<Rightarrow> 'w \<Rightarrow> u32 \<times> 'q \<times> 'w"
  powersave_deinitialize :: "'q \<Rightarrow> 'w \<Rightarrow> u32 \<times> 'q \<times> 'w"

record ('d, 's, 'p, 'q) generic_sensor =
  m_device_policy :: 'd
  m_settings_policy :: 's
  m_data_policy :: 'p
  m_powersave_policy :: 'q
  m_active :: bool

definition gs_new :: "'d \<Rightarrow> 's \<Rightarrow> 'p \<Rightarrow> 'q \<Rightarrow> ('d, 's, 'p, 'q) generic_sensor" where
  "gs_new d s p q = \<lparr>m_device_policy = d, m_settings_policy = s, m_data_policy = p,
     m_powersave_policy = q, m_active = True\<rparr>"

definition gs_initialize :: "('d, 's, 'p, 'q, 'h, 'w) policies \<Rightarrow> ('d, 's, 'p, 'q) generic_sensor \<Rightarrow> 'w \<Rightarrow>
    u32 \<times> ('d, 's, 'p, 'q) generic_sensor \<times> 'w" where
  "gs_initialize P g w =
     (let (rc, d, w) = device_initialize P (m_device_policy g) w;
          (rc_s, s, w) = settings_initialize P (device_get P d) (m_settings_policy g) w;
          rc = rc OR rc_s;
          (rc_p, p, w) = data_initialize P (device_get P d) (m_data_policy g) w;
          rc = rc OR rc_p;
          (rc_q, q, w) = powersave_initialize P (device_get P d) (m_powersave_policy g) w;
          rc = rc OR rc_q
      in (rc, g\<lparr>m_device_policy := d, m_settings_policy := s, m_data_policy := p, m_powersave_policy := q\<rparr>, w))"

definition gs_deinitialize :: "('d, 's, 'p, 'q, 'h, 'w) policies \<Rightarrow> ('d, 's, 'p, 'q) generic_sensor \<Rightarrow> 'w \<Rightarrow>
    u32 \<times> ('d, 's, 'p, 'q) generic_sensor \<times> 'w" where
  "gs_deinitialize P g w =
     (let (rc, q, w) = powersave_deinitialize P (m_powersave_policy g) w;
          (rc_p, p, w) = data_deinitialize P (m_data_policy g) w;
          rc = rc OR rc_p;
          (rc_s, s, w) = settings_deinitialize P (m_settings_policy g) w;
          rc = rc OR rc_s;
          (rc_d, d, w) = device_deinitialize P (m_device_policy g) w;
          rc = rc OR rc_d
      in (rc, g\<lparr>m_device_policy := d, m_settings_policy := s, m_data_policy := p, m_powersave_policy := q\<rparr>, w))"

definition set_active :: "bool \<Rightarrow> ('d, 's, 'p, 'q) generic_sensor \<Rightarrow> ('d, 's, 'p, 'q) generic_sensor" where
  "set_active active g = g\<lparr>m_active := active\<rparr>"

definition is_active :: "('d, 's, 'p, 'q) generic_sensor \<Rightarrow> bool" where
  "is_active g = m_active g"

lemma or_zero_iff: "(a :: u32) OR b = 0 \<longleftrightarrow> a = 0 \<and> b = 0"
  by (fact or_eq_0_iff)

text \<open>
  Success of \<open>initialize\<close> means success of all four parts; a part that fails does not keep the
  later ones from being initialised with the handle of a device that may not work.
\<close>

lemma gs_initialize_success:
  assumes "device_initialize P (m_device_policy g) w = (rd, d, w1)"
    "settings_initialize P (device_get P d) (m_settings_policy g) w1 = (rs, s, w2)"
    "data_initialize P (device_get P d) (m_data_policy g) w2 = (rp, p, w3)"
    "powersave_initialize P (device_get P d) (m_powersave_policy g) w3 = (rq, q, w4)"
  shows "fst (gs_initialize P g w) = 0 \<longleftrightarrow> rd = 0 \<and> rs = 0 \<and> rp = 0 \<and> rq = 0"
  using assms by (simp add: gs_initialize_def or_zero_iff conj_assoc)

text \<open>
  When every part can undo its own initialisation, \<open>deinitialize\<close> after \<open>initialize\<close> restores the
  sensor and the hardware, because it goes through the parts in the opposite order.
\<close>

definition undoes :: "('x \<Rightarrow> 'w \<Rightarrow> u32 \<times> 'x \<times> 'w) \<Rightarrow> ('x \<Rightarrow> 'w \<Rightarrow> u32 \<times> 'x \<times> 'w) \<Rightarrow> bool" where
  "undoes init fini \<longleftrightarrow> (\<forall>x w. snd (fini (fst (snd (init x w))) (snd (snd (init x w)))) = (x, w))"

lemma undoesD: "undoes init fini \<Longrightarrow> init x w = (rc, x', w') \<Longrightarrow> \<exists>rc'. fini x' w' = (rc', x, w)"
  by (auto simp: undoes_def dest!: spec [of _ x] spec [of _ w]) (metis prod.collapse)

lemma gs_deinitialize_undoes:
  assumes "undoes (device_initialize P) (device_deinitialize P)"
    "\<And>h. undoes (settings_initialize P h) (settings_deinitialize P)"
    "\<And>h. undoes (data_initialize P h) (data_deinitialize P)"
    "\<And>h. undoes (powersave_initialize P h) (powersave_deinitialize P)"
  shows "\<exists>rc'. gs_deinitialize P (fst (snd (gs_initialize P g w))) (snd (snd (gs_initialize P g w))) = (rc', g, w)"
proof -
  obtain rd d w1 where d: "device_initialize P (m_device_policy g) w = (rd, d, w1)" by (metis prod_cases3)
  obtain rs s w2 where s: "settings_initialize P (device_get P d) (m_settings_policy g) w1 = (rs, s, w2)" by (metis prod_cases3)
  obtain rp p w3 where p: "data_initialize P (device_get P d) (m_data_policy g) w2 = (rp, p, w3)" by (metis prod_cases3)
  obtain rq q w4 where q: "powersave_initialize P (device_get P d) (m_powersave_policy g) w3 = (rq, q, w4)" by (metis prod_cases3)
  obtain rd' rs' rp' rq' where
    "device_deinitialize P d w1 = (rd', m_device_policy g, w)" "settings_deinitialize P s w2 = (rs', m_settings_policy g, w1)"
    "data_deinitialize P p w3 = (rp', m_data_policy g, w2)" "powersave_deinitialize P q w4 = (rq', m_powersave_policy g, w3)"
    using undoesD [OF assms(1) d] undoesD [OF assms(2) s] undoesD [OF assms(3) p] undoesD [OF assms(4) q] by blast
  then show ?thesis
    by (simp add: gs_initialize_def gs_deinitialize_def d s p q)
qed

end
