(* ===== verification/RgbLed.thy ===== *)
theory RgbLed
  imports Complex_Main Rbs
begin

text \<open>
  The status LED (\<^verbatim>\<open>lib_util/rgb_led.cpp\<close>, \<^verbatim>\<open>rgb_led.h\<close>) and its PWM driver
  (\<^verbatim>\<open>rgb_led_driver.cpp\<close>). \<open>rgb_led\<close> is the table from priorities to patterns with the active
  pattern, \<open>rgb_driver\<close> the colour that the driver holds; the calls of \<^verbatim>\<open>wiced_pwm_change\<close> are
  the list of pins and duty cycles that the operations return. The mutex makes the operations
  atomic; the registration of the periodic timer is left to the platform.

  A \<^verbatim>\<open>float\<close> is the rational number that it stands for, and \<open>fl\<close> is the rounding that follows
  every operation. What the proofs need of \<open>fl\<close> is in \<open>binary32\<close>: it is monotone and keeps the
  numbers that a single precision number represents.
\<close>

section \<open>Numbers\<close>

definition binary32 :: "(rat \<Rightarrow> rat) \<Rightarrow> bool" where
  "binary32 fl \<longleftrightarrow> mono fl \<and> (\<forall>k::int. \<forall>n::nat. \<bar>k\<bar> \<le> 2 ^ 24 \<longrightarrow> n \<le> 24 \<longrightarrow> fl (of_int k / 2 ^ n) = of_int k / 2 ^ n)"

lemma binary32_id: "binary32 (\<lambda>x. x)"
  by (simp add: binary32_def mono_def)

lemma fl_dyadic: "binary32 fl \<Longrightarrow> \<bar>k\<bar> \<le> 2 ^ 24 \<Longrightarrow> n \<le> 24 \<Longrightarrow> fl (of_int k / 2 ^ n) = of_int k / 2 ^ n"
  by (simp add: binary32_def)

lemma fl_int: "binary32 fl \<Longrightarrow> \<bar>k\<bar> \<le> 2 ^ 24 \<Longrightarrow> fl (of_int k) = of_int k"
  using fl_dyadic [of fl k 0] by simp

lemma fl_mono: "binary32 fl \<Longrightarrow> x \<le> y \<Longrightarrow> fl x \<le> fl y"
  by (simp add: binary32_def mono_def)

lemma fl_bounds:
  assumes "binary32 fl" "of_int a \<le> x" "x \<le> of_int b" "\<bar>a\<bar> \<le> 2 ^ 24" "\<bar>b\<bar> \<le> 2 ^ 24"
  shows "of_int a \<le> fl x" "fl x \<le> of_int b"
  using fl_mono [OF assms(1,2)] fl_mono [OF assms(1,3)] fl_int [OF assms(1)] assms(4,5) by simp_all

section \<open>Colours and the driver\<close>

type_synonym color_rgb = "rat \<times> rat \<times> rat"

definition black :: color_rgb where "black = (0, 0, 0)"
definition white :: color_rgb where "white = (1, 1, 1)"

definition channels :: "color_rgb \<Rightarrow> rat list" where
  "channels rgb = (case rgb of (r, g, b) \<Rightarrow> [r, g, b])"

record 'pin rgb_driver =
  m_pins :: "'pin list"
  m_colors :: color_rgb
  m_pin_white :: 'pin
  m_white_active :: bool

definition driver_new :: "'pin \<Rightarrow> 'pin \<Rightarrow> 'pin \<Rightarrow> 'pin \<Rightarrow> 'pin rgb_driver" where
  "driver_new r g b w = \<lparr>m_pins = [r, g, b], m_colors = (1, 1, 1), m_pin_white = w, m_white_active = True\<rparr>"

text \<open>The double constant 0.01 that the code compares with.\<close>

definition c_0_01 :: rat where
  "c_0_01 = 5764607523034235 / 576460752303423488"

definition set_brightness :: "(rat \<Rightarrow> rat) \<Rightarrow> rat \<Rightarrow> 'pin rgb_driver \<Rightarrow> ('pin \<times> rat) list" where
  "set_brightness fl brightness d =
     (let m = -30; t = 100 in
      if m_white_active d
      then [(m_pin_white d, if fl (brightness * 1) > c_0_01 then fl (fl (fl (m * brightness) * 1) + t) else 100)]
      else map (\<lambda>(pin, c). (pin, if fl (brightness * c) > c_0_01 then fl (fl (fl (m * brightness) * c) + t) else 100))
             (zip (m_pins d) (channels (m_colors d))))"

definition set_color :: "(rat \<Rightarrow> rat) \<Rightarrow> color_rgb \<Rightarrow> 'pin rgb_driver \<Rightarrow> ('pin \<times> rat) list \<times> 'pin rgb_driver" where
  "set_color fl rgb d =
     (let d = d\<lparr>m_colors := rgb\<rparr>; m = -30; t = 100 in
      if rgb = (1, 1, 1)
      then ((m_pin_white d, fl (fl (m * 1) + t)) # map (\<lambda>pin. (pin, 100)) (m_pins d), d\<lparr>m_white_active := True\<rparr>)
      else ((m_pin_white d, 100) # map (\<lambda>(pin, c). (pin, if c > c_0_01 then fl (fl (m * c) + t) else 100))
              (zip (m_pins d) (channels (m_colors d))), d\<lparr>m_white_active := False\<rparr>))"

definition get_color :: "'pin rgb_driver \<Rightarrow> color_rgb" where
  "get_color d = m_colors d"

text \<open>\<open>pwm_init\<close> is the code that the platform returns for a pin; 0 is success.\<close>

definition driver_init :: "('pin \<Rightarrow> u32) \<Rightarrow> 'pin rgb_driver \<Rightarrow> u32 \<times> 'pin rgb_driver" where
  "driver_init pwm_init d =
     (let result = fold (\<lambda>pin result. result OR (if pwm_init pin = 0 then 0 else -1)) (m_pins d) 0
      in (result OR pwm_init (m_pin_white d), d\<lparr>m_white_active := False\<rparr>))"

section \<open>Patterns and priorities\<close>

datatype led_pattern =
    LED_PATTERN_DISABLED | LED_PATTERN_SOLID | LED_PATTERN_FADE_ULTRAFAST | LED_PATTERN_FADE_FAST
  | LED_PATTERN_FADE_SLOW | LED_PATTERN_BLINK_SLOW | LED_PATTERN_BLINK_FAST | LED_PATTERN_BLINK_ULTRAFAST

datatype led_priority =
    LED_PRIORITY_IDLE | LED_PRIORITY_NETWORK | LED_PRIORITY_APP | LED_PRIORITY_ERROR | LED_PRIORITY_COUNT

fun priority_index :: "led_priority \<Rightarrow> nat" where
  "priority_index LED_PRIORITY_IDLE = 0"
| "priority_index LED_PRIORITY_NETWORK = 1"
| "priority_index LED_PRIORITY_APP = 2"
| "priority_index LED_PRIORITY_ERROR = 3"
| "priority_index LED_PRIORITY_COUNT = 4"

type_synonym pattern_color = "led_pattern \<times> color_rgb"

record rgb_led =
  m_patterns :: "nat \<rightharpoonup> pattern_color"
  m_active_pattern :: pattern_color

definition led_new :: rgb_led where
  "led_new = \<lparr>m_patterns = Map.empty, m_active_pattern = (LED_PATTERN_DISABLED, black)\<rparr>"

text \<open>\<open>operator[]\<close> of a \<^verbatim>\<open>std::map\<close> inserts a value of zeros for a key that is missing.\<close>

definition map_index :: "nat \<Rightarrow> (nat \<rightharpoonup> pattern_color) \<Rightarrow> pattern_color \<times> (nat \<rightharpoonup> pattern_color)" where
  "map_index p m = (case m p of Some v \<Rightarrow> (v, m)
     | None \<Rightarrow> ((LED_PATTERN_DISABLED, (0, 0, 0)), m(p \<mapsto> (LED_PATTERN_DISABLED, (0, 0, 0)))))"

fun init_patterns :: "nat \<Rightarrow> (nat \<rightharpoonup> pattern_color) \<Rightarrow> (nat \<rightharpoonup> pattern_color)" where
  "init_patterns 0 m = m"
| "init_patterns (Suc p) m = (init_patterns p m)(p \<mapsto> (LED_PATTERN_DISABLED, black))"

definition led_initialize :: "('pin \<Rightarrow> u32) \<Rightarrow> rgb_led \<times> 'pin rgb_driver \<Rightarrow> u32 \<times> rgb_led \<times> 'pin rgb_driver" where
  "led_initialize pwm_init = (\<lambda>(s, d).
     let (rc, d) = driver_init pwm_init d
     in (rc, s\<lparr>m_patterns := init_patterns (priority_index LED_PRIORITY_COUNT) (m_patterns s)\<rparr>, d))"

definition get_active :: "rgb_led \<Rightarrow> pattern_color" where
  "get_active s = m_active_pattern s"

text \<open>The loop of \<open>set\<close> counts down; \<open>Suc p\<close> stands for its variable being \<open>p\<close>.\<close>

fun select_active :: "nat \<Rightarrow> rgb_led \<Rightarrow> rgb_led" where
  "select_active 0 s = s"
| "select_active (Suc p) s =
     (let (pc, m) = map_index p (m_patterns s); s = s\<lparr>m_patterns := m\<rparr>
      in if fst pc \<noteq> LED_PATTERN_DISABLED then s\<lparr>m_active_pattern := pc\<rparr> else select_active p s)"

definition led_set :: "led_priority \<Rightarrow> led_pattern \<Rightarrow> color_rgb \<Rightarrow> rgb_led \<Rightarrow> rgb_led" where
  "led_set prio pattern rgb s =
     select_active (priority_index LED_PRIORITY_COUNT)
       (s\<lparr>m_patterns := (m_patterns s)(priority_index prio \<mapsto> (pattern, rgb))\<rparr>)"

definition hex_channel :: "(rat \<Rightarrow> rat) \<Rightarrow> u32 \<Rightarrow> rat" where
  "hex_channel fl v = fl (fl (of_nat (unat (v AND 0xff))) / 255)"

definition set_from_hex :: "(rat \<Rightarrow> rat) \<Rightarrow> u32 \<Rightarrow> led_priority \<Rightarrow> rgb_led \<Rightarrow> rgb_led" where
  "set_from_hex fl color_hex prio s =
     (let rgb = (hex_channel fl (drop_bit 16 color_hex), hex_channel fl (drop_bit 8 color_hex), hex_channel fl color_hex)
      in led_set prio (fst (m_active_pattern s)) rgb s)"

section \<open>The periodic update\<close>

text \<open>The constants 0.1, 0.2 and 0.4 as the nearest single precision numbers.\<close>

definition c_0_1f :: rat where "c_0_1f = 13421773 / 134217728"
definition c_0_2f :: rat where "c_0_2f = 13421773 / 67108864"
definition c_0_4f :: rat where "c_0_4f = 13421773 / 33554432"

definition period_us :: "(rat \<Rightarrow> rat) \<Rightarrow> rat \<Rightarrow> u64" where
  "period_us fl period = word_of_int (floor (fl (1000000 * period)))"

definition pattern_norm :: "(rat \<Rightarrow> rat) \<Rightarrow> u64 \<Rightarrow> u64 \<Rightarrow> rat" where
  "pattern_norm fl time_us per =
     (let pos = time_us mod per; dir = (time_us div per) mod 2;
          pos = (if dir \<noteq> 0 then per - pos else pos)
      in fl (fl (of_nat (unat pos)) / fl (of_nat (unat per))))"

definition pattern_fade_period :: "(rat \<Rightarrow> rat) \<Rightarrow> u64 \<Rightarrow> rat \<Rightarrow> rat" where
  "pattern_fade_period fl time_us period = pattern_norm fl time_us (period_us fl period)"

definition pattern_blink_period :: "(rat \<Rightarrow> rat) \<Rightarrow> u64 \<Rightarrow> rat \<Rightarrow> rat" where
  "pattern_blink_period fl time_us period =
     (if pattern_norm fl time_us (period_us fl period) < 1 / 2 then 0 else 1)"

fun pattern_brightness :: "(rat \<Rightarrow> rat) \<Rightarrow> led_pattern \<Rightarrow> u64 \<Rightarrow> rat" where
  "pattern_brightness fl LED_PATTERN_FADE_SLOW time_us = pattern_fade_period fl time_us 2"
| "pattern_brightness fl LED_PATTERN_FADE_FAST time_us = pattern_fade_period fl time_us 1"
| "pattern_brightness fl LED_PATTERN_FADE_ULTRAFAST time_us = pattern_fade_period fl time_us c_0_2f"
| "pattern_brightness fl LED_PATTERN_BLINK_SLOW time_us = pattern_blink_period fl time_us c_0_4f"
| "pattern_brightness fl LED_PATTERN_BLINK_FAST time_us = pattern_blink_period fl time_us c_0_2f"
| "pattern_brightness fl LED_PATTERN_BLINK_ULTRAFAST time_us = pattern_blink_period fl time_us c_0_1f"
| "pattern_brightness fl LED_PATTERN_SOLID time_us = 1"
| "pattern_brightness fl LED_PATTERN_DISABLED time_us = 0"

text \<open>
  \<open>synced\<close> is the conversion of the synchronisation table, \<open>server\<close> the state it is read from.
\<close>

definition on_led_update :: "(rat \<Rightarrow> rat) \<Rightarrow> (u64 \<Rightarrow> u64 \<Rightarrow> u64 \<Rightarrow> u64) \<Rightarrow> u32 \<Rightarrow> rbs_server \<Rightarrow> u64 \<Rightarrow>
    rgb_led \<Rightarrow> 'pin rgb_driver \<Rightarrow> ('pin \<times> rat) list \<times> 'pin rgb_driver" where
  "on_led_update fl synced device_id server time_us s d =
     (let time_us = (case calculate_synced_time synced device_id time_us server of Some t \<Rightarrow> t | None \<Rightarrow> time_us);
          (pattern, rgb) = get_active s;
          brightness = pattern_brightness fl pattern time_us;
          (calls, d) = set_color fl rgb d
      in (calls @ set_brightness fl brightness d, d))"

section \<open>The highest priority is shown\<close>

definition pattern_at :: "(nat \<rightharpoonup> pattern_color) \<Rightarrow> nat \<Rightarrow> pattern_color" where
  "pattern_at m p = (case m p of Some v \<Rightarrow> v | None \<Rightarrow> (LED_PATTERN_DISABLED, (0, 0, 0)))"

definition enabled :: "(nat \<rightharpoonup> pattern_color) \<Rightarrow> nat \<Rightarrow> bool" where
  "enabled m p \<longleftrightarrow> fst (pattern_at m p) \<noteq> LED_PATTERN_DISABLED"

definition highest :: "(nat \<rightharpoonup> pattern_color) \<Rightarrow> nat \<Rightarrow> nat option" where
  "highest m n = find (enabled m) (rev [0..<n])"

lemma map_index_spec:
  "fst (map_index p m) = pattern_at m p" "pattern_at (snd (map_index p m)) = pattern_at m"
  by (auto simp: map_index_def pattern_at_def split: option.splits)

lemma pattern_at_upd: "pattern_at (m(k \<mapsto> v)) = (pattern_at m)(k := v)"
  by (simp add: pattern_at_def fun_eq_iff)

lemma enabled_cong: "pattern_at m = pattern_at m' \<Longrightarrow> enabled m = enabled m'"
  by (simp add: enabled_def fun_eq_iff)

lemma highest_cong: "pattern_at m = pattern_at m' \<Longrightarrow> highest m = highest m'"
  unfolding highest_def by (drule enabled_cong) simp

lemma select_active_Suc:
  assumes "s' = s\<lparr>m_patterns := snd (map_index n (m_patterns s))\<rparr>"
  shows "select_active (Suc n) s = (if enabled (m_patterns s) n
      then s'\<lparr>m_active_pattern := pattern_at (m_patterns s) n\<rparr> else select_active n s')"
    "pattern_at (m_patterns s') = pattern_at (m_patterns s)" "m_active_pattern s' = m_active_pattern s"
  using map_index_spec(1) [of n "m_patterns s"]
  by (simp_all add: assms enabled_def Let_def split_def map_index_spec)

lemma highest_Suc: "highest m (Suc n) = (if enabled m n then Some n else highest m n)"
  by (simp add: highest_def)

lemma select_active_spec:
  "pattern_at (m_patterns (select_active n s)) = pattern_at (m_patterns s) \<and>
   m_active_pattern (select_active n s) =
    (case highest (m_patterns s) n of Some p \<Rightarrow> pattern_at (m_patterns s) p | None \<Rightarrow> m_active_pattern s)"
proof (induction n arbitrary: s)
  case 0
  show ?case by (simp add: highest_def)
next
  case (Suc n)
  define s' where "s' = s\<lparr>m_patterns := snd (map_index n (m_patterns s))\<rparr>"
  note step = select_active_Suc [OF s'_def]
  have "highest (m_patterns s') n = highest (m_patterns s) n"
    using highest_cong [OF step(2)] by simp
  then show ?case
    unfolding step(1) highest_Suc using Suc.IH [of s'] step(2,3) by (simp split: option.split)
qed

lemma highest_Some_iff:
  "highest m n = Some p \<longleftrightarrow> p < n \<and> enabled m p \<and> (\<forall>q. p < q \<and> q < n \<longrightarrow> \<not> enabled m q)"
proof (induction n)
  case (Suc n)
  then show ?case
    by (auto simp: highest_def less_Suc_eq)
qed (simp add: highest_def)

lemma highest_None_iff: "highest m n = None \<longleftrightarrow> (\<forall>q<n. \<not> enabled m q)"
  by (auto simp: highest_def find_None_iff)

lemma init_patterns_disabled: "p < n \<Longrightarrow> \<not> enabled (init_patterns n m) p"
  by (induction n) (auto simp: enabled_def pattern_at_def less_Suc_eq)

definition shows_highest :: "rgb_led \<Rightarrow> bool" where
  "shows_highest s \<longleftrightarrow> (\<forall>p<4. enabled (m_patterns s) p \<and> (\<forall>q. p < q \<and> q < 4 \<longrightarrow> \<not> enabled (m_patterns s) q) \<longrightarrow>
     m_active_pattern s = pattern_at (m_patterns s) p)"

lemma shows_highest_iff:
  "shows_highest s \<longleftrightarrow> (\<forall>p. highest (m_patterns s) 4 = Some p \<longrightarrow> m_active_pattern s = pattern_at (m_patterns s) p)"
  by (auto simp: shows_highest_def highest_Some_iff)

lemma led_set_spec:
  "pattern_at (m_patterns (led_set prio pattern rgb s)) = (pattern_at (m_patterns s))(priority_index prio := (pattern, rgb))"
  "shows_highest (led_set prio pattern rgb s)"
proof -
  show "pattern_at (m_patterns (led_set prio pattern rgb s)) = (pattern_at (m_patterns s))(priority_index prio := (pattern, rgb))"
    by (simp add: led_set_def select_active_spec pattern_at_upd)
  let ?s = "s\<lparr>m_patterns := (m_patterns s)(priority_index prio \<mapsto> (pattern, rgb))\<rparr>"
  have "m_active_pattern (select_active 4 ?s) = pattern_at (m_patterns (select_active 4 ?s)) p"
    if "highest (m_patterns (select_active 4 ?s)) 4 = Some p" for p
    using that select_active_spec [of 4 ?s] highest_cong [of "m_patterns (select_active 4 ?s)" "m_patterns ?s"] by simp
  then show "shows_highest (led_set prio pattern rgb s)"
    by (simp add: shows_highest_iff led_set_def)
qed

datatype led_op = Initialize | Set led_priority led_pattern color_rgb | Set_from_hex u32 led_priority

fun led_step :: "(rat \<Rightarrow> rat) \<Rightarrow> led_op \<Rightarrow> rgb_led \<Rightarrow> rgb_led" where
  "led_step fl Initialize s = s\<lparr>m_patterns := init_patterns (priority_index LED_PRIORITY_COUNT) (m_patterns s)\<rparr>"
| "led_step fl (Set prio pattern rgb) s = led_set prio pattern rgb s"
| "led_step fl (Set_from_hex h prio) s = set_from_hex fl h prio s"

definition led_run :: "(rat \<Rightarrow> rat) \<Rightarrow> led_op list \<Rightarrow> rgb_led" where
  "led_run fl ops = fold (led_step fl) ops led_new"

lemma led_step_initialize: "fst (snd (led_initialize pwm_init (s, d))) = led_step fl Initialize s"
  by (simp add: led_initialize_def split_def Let_def)

lemma led_step_shows_highest: "shows_highest (led_step fl e s)"
proof (cases e)
  case Initialize
  then show ?thesis by (simp add: shows_highest_def init_patterns_disabled)
qed (simp_all add: led_set_spec(2) set_from_hex_def)

text \<open>
  C37: After any sequence of initialisations and of patterns set by priority or by a hex colour,
  the active pattern is the one of the highest priority that is not disabled.
\<close>

theorem led_shows_highest: "shows_highest (led_run fl ops)"
  unfolding led_run_def
proof (induction ops rule: rev_induct)
  case Nil
  show ?case by (simp add: shows_highest_def led_new_def enabled_def pattern_at_def)
qed (simp add: led_step_shows_highest)

text \<open>
  Disabling the only pattern that is set leaves it active: the loop finds no enabled priority
  and keeps the old pattern, and the colour and pattern stay on.
\<close>

theorem led_disabled_stays_on:
  assumes "pattern \<noteq> LED_PATTERN_DISABLED" "prio \<noteq> LED_PRIORITY_COUNT"
  shows "let s = led_run fl [Initialize, Set prio pattern rgb, Set prio LED_PATTERN_DISABLED rgb']
    in highest (m_patterns s) 4 = None \<and> get_active s = (pattern, rgb)"
proof -
  define s where "s = led_run fl [Initialize, Set prio pattern rgb, Set prio LED_PATTERN_DISABLED rgb']"
  let ?i = "led_step fl Initialize led_new" and ?k = "priority_index prio"
  let ?s1 = "led_set prio pattern rgb ?i"
  have k: "?k < 4" using assms(2) by (cases prio) simp_all
  have off: "\<not> enabled (m_patterns ?i) p" if "p < 4" for p
    using init_patterns_disabled [OF that] by simp
  have e1: "enabled (m_patterns ?s1) p = (p = ?k)" if "p < 4" for p
    using off [OF that] assms(1) by (simp add: enabled_def led_set_spec)
  have "m_active_pattern ?s1 = pattern_at (m_patterns ?s1) ?k"
    using led_set_spec(2) [of prio pattern rgb ?i] k e1 by (simp add: shows_highest_def)
  then have a1: "m_active_pattern ?s1 = (pattern, rgb)"
    by (simp add: led_set_spec)
  have s: "s = led_set prio LED_PATTERN_DISABLED rgb' ?s1"
    by (simp add: s_def led_run_def)
  have e2: "\<not> enabled (m_patterns s) p" if "p < 4" for p
    using e1 [OF that] by (auto simp: s enabled_def led_set_spec)
  let ?m = "(m_patterns ?s1)(?k \<mapsto> (LED_PATTERN_DISABLED, rgb'))"
  have "pattern_at ?m = pattern_at (m_patterns s)"
    unfolding s led_set_spec pattern_at_upd by simp
  then have "enabled ?m = enabled (m_patterns s)"
    by (rule enabled_cong)
  then have "highest ?m 4 = None"
    using e2 by (simp only: highest_None_iff) blast
  then have "m_active_pattern s = m_active_pattern ?s1"
    by (simp add: s led_set_def select_active_spec del: fun_upd_apply)
  then show ?thesis
    using a1 e2 unfolding s_def [symmetric] by (simp add: get_active_def highest_None_iff)
qed

lemma led_disabled_stays_on_witness:
  "get_active (led_run (\<lambda>x. x) [Initialize, Set LED_PRIORITY_APP LED_PATTERN_SOLID white,
     Set LED_PRIORITY_APP LED_PATTERN_DISABLED black]) = (LED_PATTERN_SOLID, white)"
  using led_disabled_stays_on [of LED_PATTERN_SOLID LED_PRIORITY_APP "\<lambda>x. x" white black]
  unfolding Let_def by blast

section \<open>Brightness over time\<close>

text \<open>A triangle that rises from 0 to \<open>P\<close> and falls back, with period \<open>2 * P\<close>.\<close>

definition triangle :: "nat \<Rightarrow> nat \<Rightarrow> nat" where
  "triangle P t = (if t mod (2 * P) \<le> P then t mod (2 * P) else 2 * P - t mod (2 * P))"

lemma triangle_div:
  assumes "0 < P"
  shows "triangle P t = (if t div P mod 2 \<noteq> 0 then P - t mod P else t mod P)"
proof -
  have "t mod (2 * P) = t mod P + P * (t div P mod 2)"
    using mod_mult2_eq [of t P 2] by (simp add: mult.commute)
  moreover have "t mod P < P" using assms by simp
  ultimately show ?thesis
    by (cases "t div P mod 2 = 0") (auto simp: triangle_def not_mod_2_eq_0_eq_1)
qed

lemma triangle_le: "0 < P \<Longrightarrow> triangle P t \<le> P"
  by (auto simp: triangle_def)

lemma triangle_periodic: "triangle P (t + 2 * P) = triangle P t"
  by (simp add: triangle_def)

lemma fl_nat: "binary32 fl \<Longrightarrow> n \<le> 2 ^ 24 \<Longrightarrow> fl (of_nat n) = of_nat n"
  using fl_int [of fl "int n"] by simp

lemma pattern_norm_triangle:
  assumes "binary32 fl" "0 < P" "P \<le> 2 ^ 24"
  shows "pattern_norm fl t (of_nat P) = fl (of_nat (triangle P (unat t)) / of_nat P)"
proof -
  have P: "unat (of_nat P :: u64) = P"
    using assms(3) by (simp add: unat_of_nat)
  have le: "t mod of_nat P \<le> (of_nat P :: u64)"
    using assms(2) by (simp add: word_le_nat_alt unat_mod P less_imp_le)
  have "unat (if t div of_nat P mod 2 \<noteq> 0 then of_nat P - t mod of_nat P else t mod of_nat P :: u64) = triangle P (unat t)"
    unfolding triangle_div [OF assms(2)]
    by (auto simp: unat_mod unat_div P unat_sub [OF le] word_unat_eq_iff)
  then have "pattern_norm fl t (of_nat P) = fl (fl (of_nat (triangle P (unat t))) / fl (of_nat P))"
    unfolding pattern_norm_def Let_def P by (rule arg_cong)
  then show ?thesis
    using triangle_le [OF assms(2), of "unat t"] assms by (simp add: fl_nat)
qed

lemma period_us_floor:
  assumes "binary32 fl" "of_nat k \<le> 1000000 * x" "1000000 * x \<le> of_int (int k * 2 ^ n + 1) / 2 ^ n"
    "int k * 2 ^ n + 1 \<le> 2 ^ 24" "n \<le> 24" "0 < n"
  shows "period_us fl x = of_nat k"
proof -
  have k: "int k \<le> 2 ^ 24"
  proof -
    have "int k * 1 \<le> int k * 2 ^ n"
      by (rule mult_left_mono) simp_all
    then show ?thesis using assms(4) by simp
  qed
  have lower: "of_nat k \<le> fl (1000000 * x)"
    using fl_mono [OF assms(1,2)] fl_nat [OF assms(1), of k] k by simp
  have "fl (1000000 * x) \<le> of_int (int k * 2 ^ n + 1) / 2 ^ n"
    using fl_mono [OF assms(1,3)] fl_dyadic [OF assms(1) _ assms(5), of "int k * 2 ^ n + 1"] assms(4) by simp
  also have "\<dots> = of_nat k + 1 / 2 ^ n"
    by (simp add: add_divide_distrib)
  also have "\<dots> < of_nat k + 1"
    using one_less_power [OF _ assms(6), of "2 :: rat"] by simp
  finally have "floor (fl (1000000 * x)) = int k"
    using lower by (intro floor_unique) simp_all
  then show ?thesis
    by (simp add: period_us_def)
qed

lemma period_us_consts:
  assumes "binary32 fl"
  shows "period_us fl 2 = of_nat 2000000" "period_us fl 1 = of_nat 1000000" "period_us fl c_0_4f = of_nat 400000"
    "period_us fl c_0_2f = of_nat 200000" "period_us fl c_0_1f = of_nat 100000"
proof -
  show "period_us fl 2 = of_nat 2000000"
    by (rule period_us_floor [OF assms, where n = 1]) simp_all
  show "period_us fl 1 = of_nat 1000000"
    by (rule period_us_floor [OF assms, where n = 1]) simp_all
  show "period_us fl c_0_4f = of_nat 400000"
    by (rule period_us_floor [OF assms, where n = 5]) (simp_all add: c_0_4f_def)
  show "period_us fl c_0_2f = of_nat 200000"
    by (rule period_us_floor [OF assms, where n = 6]) (simp_all add: c_0_2f_def)
  show "period_us fl c_0_1f = of_nat 100000"
    by (rule period_us_floor [OF assms, where n = 7]) (simp_all add: c_0_1f_def)
qed

lemma fl_half:
  assumes "binary32 fl" "0 < P" "P \<le> 2 ^ 19"
  shows "fl (of_nat n / of_nat P) < 1 / 2 \<longleftrightarrow> 2 * n < P"
proof (cases "2 * n < P")
  case True
  have "of_nat n / of_nat P \<le> (of_int (2 ^ 19 - 1) / 2 ^ 20 :: rat)"
  proof -
    have "2 * n + 1 \<le> P" using True by simp
    then have "of_nat (2 * n + 1) \<le> (of_nat P :: rat)"
      by (simp only: of_nat_le_iff)
    moreover have "of_nat P \<le> (of_nat (2 ^ 19) :: rat)"
      using assms(3) by (simp only: of_nat_le_iff)
    ultimately show ?thesis
      using assms(2) by (simp add: field_simps)
  qed
  from fl_mono [OF assms(1) this] show ?thesis
    using fl_dyadic [OF assms(1), of "2 ^ 19 - 1" 20] True by simp
next
  case False
  then have "P \<le> 2 * n" by simp
  then have "of_nat P \<le> (of_nat (2 * n) :: rat)"
    by (simp only: of_nat_le_iff)
  then have "1 / 2 \<le> (of_nat n / of_nat P :: rat)"
    using assms(2) by (simp add: field_simps)
  from fl_mono [OF assms(1) this] show ?thesis
    using fl_dyadic [OF assms(1), of 1 1] False by simp
qed

fun ideal_brightness :: "(rat \<Rightarrow> rat) \<Rightarrow> led_pattern \<Rightarrow> nat \<Rightarrow> rat" where
  "ideal_brightness fl LED_PATTERN_FADE_SLOW t = fl (of_nat (triangle 2000000 t) / 2000000)"
| "ideal_brightness fl LED_PATTERN_FADE_FAST t = fl (of_nat (triangle 1000000 t) / 1000000)"
| "ideal_brightness fl LED_PATTERN_FADE_ULTRAFAST t = fl (of_nat (triangle 200000 t) / 200000)"
| "ideal_brightness fl LED_PATTERN_BLINK_SLOW t = (if triangle 400000 t < 200000 then 0 else 1)"
| "ideal_brightness fl LED_PATTERN_BLINK_FAST t = (if triangle 200000 t < 100000 then 0 else 1)"
| "ideal_brightness fl LED_PATTERN_BLINK_ULTRAFAST t = (if triangle 100000 t < 50000 then 0 else 1)"
| "ideal_brightness fl LED_PATTERN_SOLID t = 1"
| "ideal_brightness fl LED_PATTERN_DISABLED t = 0"

lemma pattern_brightness_ideal:
  assumes "binary32 fl"
  shows "pattern_brightness fl pattern time_us = ideal_brightness fl pattern (unat time_us)"
proof -
  have n: "pattern_norm fl time_us (of_nat P) = fl (of_nat (triangle P (unat time_us)) / of_nat P)"
    if "0 < P" "P \<le> 2000000" for P
    using that by (intro pattern_norm_triangle [OF assms]) simp_all
  have h: "pattern_norm fl time_us (of_nat P) < 1 / 2 \<longleftrightarrow> 2 * triangle P (unat time_us) < P"
    if "0 < P" "P \<le> 400000" for P
  proof -
    have "P \<le> 2000000" "P \<le> 2 ^ 19" using that by simp_all
    then show ?thesis
      unfolding n [OF that(1) \<open>P \<le> 2000000\<close>] by (intro fl_half [OF assms that(1)])
  qed
  show ?thesis
  proof (cases pattern)
    case LED_PATTERN_FADE_ULTRAFAST
    then show ?thesis using n [of 200000] by (simp add: pattern_fade_period_def period_us_consts [OF assms])
  next
    case LED_PATTERN_FADE_FAST
    then show ?thesis using n [of 1000000] by (simp add: pattern_fade_period_def period_us_consts [OF assms])
  next
    case LED_PATTERN_FADE_SLOW
    then show ?thesis using n [of 2000000] by (simp add: pattern_fade_period_def period_us_consts [OF assms])
  next
    case LED_PATTERN_BLINK_SLOW
    then show ?thesis using h [of 400000] by (simp add: pattern_blink_period_def period_us_consts [OF assms])
  next
    case LED_PATTERN_BLINK_FAST
    then show ?thesis using h [of 200000] by (simp add: pattern_blink_period_def period_us_consts [OF assms])
  next
    case LED_PATTERN_BLINK_ULTRAFAST
    then show ?thesis using h [of 100000] by (simp add: pattern_blink_period_def period_us_consts [OF assms])
  qed simp_all
qed

lemma ideal_brightness_range:
  assumes "binary32 fl"
  shows "0 \<le> ideal_brightness fl pattern t" "ideal_brightness fl pattern t \<le> 1"
proof -
  have "0 \<le> fl (of_nat (triangle P t) / of_nat P) \<and> fl (of_nat (triangle P t) / of_nat P) \<le> 1" if "0 < P" for P
    using fl_bounds [OF assms, of 0 "of_nat (triangle P t) / of_nat P" 1] triangle_le [OF that, of t] that by simp
  from this [of 2000000] this [of 1000000] this [of 200000]
  show "0 \<le> ideal_brightness fl pattern t" "ideal_brightness fl pattern t \<le> 1"
    by (cases pattern; simp)+
qed

section \<open>Duty cycles\<close>

definition duty :: "(rat \<Rightarrow> rat) \<Rightarrow> rat \<Rightarrow> rat \<Rightarrow> rat" where
  "duty fl b c = (if fl (b * c) > c_0_01 then fl (fl (fl (-30 * b) * c) + 100) else 100)"

definition unit_range :: "rat \<Rightarrow> bool" where
  "unit_range x \<longleftrightarrow> 0 \<le> x \<and> x \<le> 1"

lemma duty_range:
  assumes "binary32 fl" "unit_range b" "unit_range c"
  shows "70 \<le> duty fl b c" "duty fl b c \<le> 100"
proof -
  define y where "y = fl (-30 * b)"
  have y: "-30 \<le> y" "y \<le> 0"
    using fl_bounds [OF assms(1), of "-30" "-30 * b" 0] assms(2) by (simp_all add: y_def unit_range_def)
  define z where "z = fl (y * c)"
  have "-30 \<le> y * c" "y * c \<le> 0"
    using y assms(3) mult_left_mono_neg [of c 1 y] by (simp_all add: unit_range_def mult_nonpos_nonneg)
  then have z: "-30 \<le> z" "z \<le> 0"
    using fl_bounds [OF assms(1), of "-30" "y * c" 0] by (simp_all add: z_def)
  have "70 \<le> fl (z + 100)" "fl (z + 100) \<le> 100"
    using fl_bounds [OF assms(1), of 70 "z + 100" 100] z by simp_all
  then show "70 \<le> duty fl b c" "duty fl b c \<le> 100"
    by (auto simp: duty_def y_def z_def)
qed

lemma duty_dark: "binary32 fl \<Longrightarrow> duty fl 0 c = 100"
  using fl_int [of fl 0] by (simp add: duty_def c_0_01_def)

text \<open>What a pin is driven with after a list of calls.\<close>

definition last_duty :: "('pin \<times> rat) list \<Rightarrow> 'pin \<Rightarrow> rat option" where
  "last_duty calls = map_of (rev calls)"

lemma set_color_then_brightness:
  assumes "m_pins d = [pr, pg, pb]" "distinct [pr, pg, pb, m_pin_white d]"
    "set_color fl (r, g, b) d = (calls, d')"
  shows "m_pins d' = m_pins d" "m_pin_white d' = m_pin_white d"
    "last_duty (calls @ set_brightness fl br d') (m_pin_white d) =
      Some (if (r, g, b) = white then duty fl br 1 else 100)"
    "last_duty (calls @ set_brightness fl br d') pr = Some (if (r, g, b) = white then 100 else duty fl br r)"
    "last_duty (calls @ set_brightness fl br d') pg = Some (if (r, g, b) = white then 100 else duty fl br g)"
    "last_duty (calls @ set_brightness fl br d') pb = Some (if (r, g, b) = white then 100 else duty fl br b)"
proof -
  have eqs: "d' = d\<lparr>m_colors := (r, g, b), m_white_active := ((r, g, b) = white)\<rparr>"
    using assms(3) by (auto simp: set_color_def white_def Let_def split: if_splits)
  have calls: "map fst calls = [m_pin_white d, pr, pg, pb]"
      "(r, g, b) = white \<longrightarrow> map snd (tl calls) = [100, 100, 100]"
      "(r, g, b) \<noteq> white \<longrightarrow> snd (hd calls) = 100"
    using assms(1,3) by (auto simp: set_color_def white_def Let_def channels_def split: if_splits)
  then obtain c1 c2 c3 c4 where c: "calls = [(m_pin_white d, c1), (pr, c2), (pg, c3), (pb, c4)]"
    by (auto simp: Cons_eq_map_conv map_eq_Cons_conv)
  show "m_pins d' = m_pins d" "m_pin_white d' = m_pin_white d"
    by (simp_all add: eqs)
  show "last_duty (calls @ set_brightness fl br d') (m_pin_white d) =
      Some (if (r, g, b) = white then duty fl br 1 else 100)"
    "last_duty (calls @ set_brightness fl br d') pr = Some (if (r, g, b) = white then 100 else duty fl br r)"
    "last_duty (calls @ set_brightness fl br d') pg = Some (if (r, g, b) = white then 100 else duty fl br g)"
    "last_duty (calls @ set_brightness fl br d') pb = Some (if (r, g, b) = white then 100 else duty fl br b)"
    using assms(1,2) calls(2,3)
    by (auto simp: c eqs last_duty_def set_brightness_def duty_def Let_def channels_def)
qed

lemma hex_channel_range:
  assumes "binary32 fl"
  shows "unit_range (hex_channel fl v)"
proof -
  have "v AND 255 \<le> 255"
    by (rule word_and_le1)
  then have "unat (v AND 255) \<le> 255"
    by (simp add: word_le_nat_alt)
  moreover have "unit_range (fl (fl (of_nat n) / 255))" if "n \<le> 255" for n
    using fl_bounds [OF assms, of 0 "of_nat n / 255" 1] that
    by (simp add: unit_range_def fl_nat [OF assms])
  ultimately show ?thesis
    unfolding hex_channel_def by blast
qed

text \<open>
  C38: One update drives either the white pin or the three colour pins, each with the duty of the
  brightness that the pattern has at the (synchronised) time, and the others are off; the
  brightness of the fading patterns is a triangle of the nominal period, the blinking ones are
  off for the half of the time in which it is below one half; every duty is between 70 and
  100 (off), and exactly 100 on all pins when the pattern is dark.
\<close>

theorem led_update_duty:
  assumes "binary32 fl" "get_active s = (pattern, (r, g, b))" "unit_range r" "unit_range g" "unit_range b"
    "m_pins d = [pr, pg, pb]" "distinct [pr, pg, pb, m_pin_white d]"
    "t = (case calculate_synced_time synced device_id time_us server of Some t \<Rightarrow> t | None \<Rightarrow> time_us)"
    "on_led_update fl synced device_id server time_us s d = (calls, d')"
  shows "(let br = ideal_brightness fl pattern (unat t); is_white = ((r, g, b) = white) in
    last_duty calls (m_pin_white d) = Some (if is_white then duty fl br 1 else 100) \<and>
    last_duty calls pr = Some (if is_white then 100 else duty fl br r) \<and>
    last_duty calls pg = Some (if is_white then 100 else duty fl br g) \<and>
    last_duty calls pb = Some (if is_white then 100 else duty fl br b) \<and>
    (\<forall>c. unit_range c \<longrightarrow> 70 \<le> duty fl br c \<and> duty fl br c \<le> 100) \<and>
    (br = 0 \<longrightarrow> (\<forall>c. duty fl br c = 100)) \<and>
    m_pins d' = m_pins d \<and> m_pin_white d' = m_pin_white d)"
proof -
  define br where "br = ideal_brightness fl pattern (unat t)"
  obtain calls1 where c: "set_color fl (r, g, b) d = (calls1, d')" "calls = calls1 @ set_brightness fl br d'"
    using assms(2,9) pattern_brightness_ideal [OF assms(1), of pattern t]
    by (auto simp: on_led_update_def Let_def br_def assms(8) [symmetric] split: prod.splits)
  have "unit_range br"
    using ideal_brightness_range [OF assms(1)] by (simp add: br_def unit_range_def)
  then show ?thesis
    unfolding Let_def br_def [symmetric]
    using set_color_then_brightness [OF assms(6,7) c(1)] duty_range [OF assms(1)] duty_dark [OF assms(1)]
    by (simp add: c(2))
qed

lemma led_update_duty_witness:
  "let s = \<lparr>m_patterns = Map.empty, m_active_pattern = (LED_PATTERN_BLINK_SLOW, (1, 0, 0))\<rparr>;
     calls = fst (on_led_update (\<lambda>x. x) (\<lambda>m t x. x) 1 new_server 1100000 s (driver_new (1::nat) 2 3 4))
   in last_duty calls 1 = Some 70 \<and> last_duty calls 4 = Some 100"
proof -
  let ?s = "\<lparr>m_patterns = Map.empty, m_active_pattern = (LED_PATTERN_BLINK_SLOW, (1, 0, 0))\<rparr>"
  let ?u = "on_led_update (\<lambda>x. x) (\<lambda>m t x. x) 1 new_server 1100000 ?s (driver_new (1::nat) 2 3 4)"
  have "find_row n (replicate k zero_row) = None" if "n \<noteq> 0" for n k
    using that by (induction k) (simp_all add: zero_row_def)
  then have "calculate_synced_time (\<lambda>m t x. x) 1 1100000 new_server = None"
    by (simp add: calculate_synced_time_def new_server_def rbs_reset_def active_table_def new_table_def get_coeff_def)
  then show ?thesis
    using led_update_duty [OF binary32_id, where s = ?s and d = "driver_new (1::nat) 2 3 4" and synced = "\<lambda>m t x. x"
        and device_id = 1 and time_us = 1100000 and server = new_server and calls = "fst ?u" and d' = "snd ?u"
        and pattern = LED_PATTERN_BLINK_SLOW and r = 1 and g = 0 and b = 0 and pr = 1 and pg = 2 and pb = 3 and t = 1100000]
    by (simp add: get_active_def unit_range_def driver_new_def white_def triangle_def Let_def duty_def c_0_01_def)
qed

end
