(* ===== verification/BatteryCharger.thy ===== *)
theory BatteryCharger
  imports Complex_Main Prelude
begin

text \<open>
  The fuel gauge and the battery charger (\<^verbatim>\<open>lib_util/battery_charger.h\<close>, \<^verbatim>\<open>battery_defs.h\<close>). The
  I2C functions of the platform are the record \<open>i2c\<close> over a bus state \<open>'w\<close>; \<open>wiced_error\<close> is the
  value of the error constant and \<open>ptr_size\<close> the size of a pointer. The bytes of a read that
  succeeded are a function of the index. A \<^verbatim>\<open>float\<close> is the number it stands for, \<open>fl\<close> rounds to
  single and \<open>fl64\<close> to double precision. Messages on the console are left out.

  The lemmas show which register values the readings decode to, where signed registers are read as
  unsigned, and that no command that writes a register can succeed.
\<close>

section \<open>The bus\<close>

datatype i2c_flag = WICED_I2C_START_FLAG | WICED_I2C_REPEATED_START_FLAG | WICED_I2C_STOP_FLAG

record 'w i2c =
  wiced_i2c_init :: "byte \<Rightarrow> 'w \<Rightarrow> u32 \<times> 'w"
  wiced_i2c_write :: "byte \<Rightarrow> i2c_flag list \<Rightarrow> byte list \<Rightarrow> 'w \<Rightarrow> u32 \<times> 'w"
  wiced_i2c_read :: "byte \<Rightarrow> i2c_flag list \<Rightarrow> nat \<Rightarrow> 'w \<Rightarrow> u32 \<times> (nat \<Rightarrow> byte) \<times> 'w"
  wiced_i2c_deinit :: "byte \<Rightarrow> 'w \<Rightarrow> 'w"
  wiced_error :: u32
  ptr_size :: nat

text \<open>\<open>buf_size\<close> is the size of the array that the bytes are read into.\<close>

definition read_device :: "'w i2c \<Rightarrow> byte \<Rightarrow> byte \<Rightarrow> nat \<Rightarrow> nat \<Rightarrow> 'w \<Rightarrow> (u32 \<times> byte list \<times> 'w) option" where
  "read_device bus i2c_address read_register buf_size read_size w =
     (let (rc, w) = wiced_i2c_init bus i2c_address w;
          wbuff = [read_register, 0];
          (rc, w) = wiced_i2c_write bus i2c_address [WICED_I2C_START_FLAG] (take 1 wbuff) w
      in if buf_size < read_size then None
         else let (rc, data, w) = wiced_i2c_read bus i2c_address [WICED_I2C_REPEATED_START_FLAG, WICED_I2C_STOP_FLAG] read_size w
              in if rc \<noteq> 0 then Some (wiced_error bus, [], w)
                 else Some (0, map data [0..<read_size], wiced_i2c_deinit bus i2c_address w))"

text \<open>
  \<open>write_device\<close> sends \<^verbatim>\<open>sizeof(write_register)\<close> bytes, the size of the pointer, whatever size the
  caller gives.
\<close>

definition write_device :: "'w i2c \<Rightarrow> byte \<Rightarrow> byte list \<Rightarrow> nat \<Rightarrow> 'w \<Rightarrow> (u32 \<times> 'w) option" where
  "write_device bus i2c_address write_register write_reg_size_bytes w =
     (let (rc, w) = wiced_i2c_init bus i2c_address w
      in if length write_register < ptr_size bus then None
         else let (rc, w) = wiced_i2c_write bus i2c_address [WICED_I2C_START_FLAG, WICED_I2C_STOP_FLAG]
                              (take (ptr_size bus) write_register) w
              in if rc \<noteq> 0 then Some (wiced_error bus, w) else Some (0, wiced_i2c_deinit bus i2c_address w))"

section \<open>Registers\<close>

definition MAX77818_BATT_CGR_ADDR :: byte where "MAX77818_BATT_CGR_ADDR = drop_bit 1 0xd2"
definition MAX77818_FUEL_GAUGE_ADDR :: byte where "MAX77818_FUEL_GAUGE_ADDR = drop_bit 1 0x6c"
definition MAX_CHG_DETAILS_01 :: byte where "MAX_CHG_DETAILS_01 = 0xB4"
definition MAX_FG_STATUS :: byte where "MAX_FG_STATUS = 0x00"
definition MAX_FG_TEMP_REG :: byte where "MAX_FG_TEMP_REG = 0x08"
definition MAX_FG_VCELL_REG :: byte where "MAX_FG_VCELL_REG = 0x09"
definition MAX_FG_CURRENT_REG :: byte where "MAX_FG_CURRENT_REG = 0x0A"
definition MAX_FG_AVG_CURRENT_REG :: byte where "MAX_FG_AVG_CURRENT_REG = 0x0B"
definition MAX_FG_CHG_CNFG_03 :: byte where "MAX_FG_CHG_CNFG_03 = 0xBA"
definition MAX_FG_CONFIG :: byte where "MAX_FG_CONFIG = 0x1D"
definition MAX_FG_SD_TIMER :: byte where "MAX_FG_SD_TIMER = 0x3F"
definition MAX_CHG_CNFG_00_REG :: byte where "MAX_CHG_CNFG_00_REG = 0xB7"
definition MAX_MBAT_TO_SYSFET_BIT :: nat where "MAX_MBAT_TO_SYSFET_BIT = 6"

section \<open>The fuel gauge\<close>

text \<open>
  Every reading reads two bytes and returns the code; the second component is the value written
  through the pointer argument, \<open>None\<close> when it is not written.
\<close>

definition c_0_0039f :: rat where "c_0_0039f = 4187593 / 1073741824"
definition c_78_125e_6f :: rat where "c_78_125e_6f = 5368709 / 68719476736"
definition c_1e_6 :: rat where "c_1e_6 = 4722366482869645 / 4722366482869645213696"

definition temperature_value :: "(rat \<Rightarrow> rat) \<Rightarrow> byte list \<Rightarrow> rat" where
  "temperature_value fl temp =
     (let lower_temp = fl (of_nat (unat (temp ! 0)) * c_0_0039f);
          upper_temp = fl (of_nat (unat (temp ! 1)) * 1)
      in fl (upper_temp + lower_temp))"

definition get_temperature :: "(rat \<Rightarrow> rat) \<Rightarrow> 'w i2c \<Rightarrow> 'w \<Rightarrow> (u32 \<times> rat option \<times> 'w) option" where
  "get_temperature fl bus w = do {
     (rc, temp, w) \<leftarrow> read_device bus MAX77818_FUEL_GAUGE_ADDR MAX_FG_TEMP_REG 2 2 w;
     Some (if rc \<noteq> 0 then (rc, None, w) else (0, Some (temperature_value fl temp), w))
   }"

definition voltage_value :: "(rat \<Rightarrow> rat) \<Rightarrow> byte list \<Rightarrow> rat" where
  "voltage_value fl volt =
     (let vcell_voltage = push_bit 8 (ucast (volt ! 1)) OR ucast (volt ! 0) :: u16
      in fl (of_nat (unat vcell_voltage) * c_78_125e_6f))"

definition get_voltage :: "(rat \<Rightarrow> rat) \<Rightarrow> 'w i2c \<Rightarrow> 'w \<Rightarrow> (u32 \<times> rat option \<times> 'w) option" where
  "get_voltage fl bus w = do {
     (rc, volt, w) \<leftarrow> read_device bus MAX77818_FUEL_GAUGE_ADDR MAX_FG_VCELL_REG 2 2 w;
     Some (if rc \<noteq> 0 then (rc, None, w) else (0, Some (voltage_value fl volt), w))
   }"

definition inst_current_value :: "(rat \<Rightarrow> rat) \<Rightarrow> byte list \<Rightarrow> rat" where
  "inst_current_value fl reg =
     (let inst_curr = push_bit 8 (ucast (reg ! 1)) OR ucast (reg ! 0) :: u16
      in fl (of_int (sint inst_curr) / 330))"

definition get_inst_current :: "(rat \<Rightarrow> rat) \<Rightarrow> 'w i2c \<Rightarrow> 'w \<Rightarrow> (u32 \<times> rat option \<times> 'w) option" where
  "get_inst_current fl bus w = do {
     (rc, reg, w) \<leftarrow> read_device bus MAX77818_FUEL_GAUGE_ADDR MAX_FG_CURRENT_REG 2 2 w;
     Some (if rc \<noteq> 0 then (rc, None, w) else (0, Some (inst_current_value fl reg), w))
   }"

definition avg_current_value :: "(rat \<Rightarrow> rat) \<Rightarrow> (rat \<Rightarrow> rat) \<Rightarrow> byte list \<Rightarrow> rat" where
  "avg_current_value fl fl64 reg =
     (let avg_curr = push_bit 8 (ucast (reg ! 1)) OR ucast (reg ! 0) :: u16
      in fl (fl64 (fl (of_nat (unat avg_curr) * (25 / 16)) * c_1e_6)))"

definition get_avg_current :: "(rat \<Rightarrow> rat) \<Rightarrow> (rat \<Rightarrow> rat) \<Rightarrow> 'w i2c \<Rightarrow> 'w \<Rightarrow> (u32 \<times> rat option \<times> 'w) option" where
  "get_avg_current fl fl64 bus w = do {
     (rc, reg, w) \<leftarrow> read_device bus MAX77818_FUEL_GAUGE_ADDR MAX_FG_AVG_CURRENT_REG 2 2 w;
     Some (if rc \<noteq> 0 then (rc, None, w) else (0, Some (avg_current_value fl fl64 reg), w))
   }"

text \<open>\<open>status\<close> never writes its result.\<close>

definition gauge_status :: "'w i2c \<Rightarrow> 'w \<Rightarrow> (u32 \<times> byte option \<times> 'w) option" where
  "gauge_status bus w = do {
     (rc, status_reg_val, w) \<leftarrow> read_device bus MAX77818_FUEL_GAUGE_ADDR MAX_FG_STATUS 2 2 w;
     Some (if rc \<noteq> 0 then (rc, None, w) else (0, None, w))
   }"

definition set_shutdown_timer :: "'w i2c \<Rightarrow> byte \<Rightarrow> 'w \<Rightarrow> (u32 \<times> 'w) option" where
  "set_shutdown_timer bus timer w = do {
     (rc, read_reg, w) \<leftarrow> read_device bus MAX77818_FUEL_GAUGE_ADDR MAX_FG_SD_TIMER 2 2 w;
     if rc \<noteq> 0 then Some (rc, w)
     else do {
       let msb = read_reg ! 1 AND 0b00011111;
       (rc, w) \<leftarrow> write_device bus MAX77818_FUEL_GAUGE_ADDR [MAX_FG_SD_TIMER, read_reg ! 0, msb] 2 w;
       Some (if rc \<noteq> 0 then (rc, w) else (0, w))
     }
   }"

definition get_shutdown_threshold :: "'w i2c \<Rightarrow> 'w \<Rightarrow> (byte \<times> 'w) option" where
  "get_shutdown_threshold bus w = do {
     (rc, read_reg, w) \<leftarrow> read_device bus MAX77818_FUEL_GAUGE_ADDR MAX_FG_SD_TIMER 2 2 w;
     Some (if rc \<noteq> 0 then (ucast rc, w) else (drop_bit 5 (read_reg ! 1), w))
   }"

definition get_shutdown_counter :: "'w i2c \<Rightarrow> 'w \<Rightarrow> (u16 \<times> 'w) option" where
  "get_shutdown_counter bus w = do {
     (rc, read_reg, w) \<leftarrow> read_device bus MAX77818_FUEL_GAUGE_ADDR MAX_FG_SD_TIMER 2 2 w;
     Some (if rc \<noteq> 0 then (ucast rc, w)
           else (push_bit 8 (ucast (read_reg ! 1 AND 0b00011111)) OR ucast (read_reg ! 0), w))
   }"

definition device_shutdown :: "'w i2c \<Rightarrow> 'w \<Rightarrow> (u32 \<times> 'w) option" where
  "device_shutdown bus w = do {
     (rc, read_reg, w) \<leftarrow> read_device bus MAX77818_FUEL_GAUGE_ADDR MAX_FG_CONFIG 2 2 w;
     if rc \<noteq> 0 then Some (rc, w)
     else do {
       let sd_reg = 0b10000000 OR read_reg ! 0;
       (rc, w) \<leftarrow> write_device bus MAX77818_FUEL_GAUGE_ADDR [MAX_FG_CONFIG, sd_reg, read_reg ! 1] 2 w;
       if rc \<noteq> 0 then Some (rc, w)
       else do {
         (rc, status_reg_val, w) \<leftarrow> read_device bus MAX77818_FUEL_GAUGE_ADDR MAX_FG_CONFIG 2 3 w;
         Some (if rc \<noteq> 0 then (rc, w) else (0, w))
       }
     }
   }"

section \<open>The charger\<close>

datatype ChargerModes =
    LowBattPreQual | FastChargeConstCurrent | FastChargeConstVoltage | TopOff | Done | TimerFault
  | HighSuspend | Off | OffHighJunctionTemp | OffWatchdogTimer

datatype BatteryModes =
    NoBattery | DeadBattPreQual | SlowChargeFault | OkayGoodVoltage | OkayLowVoltage | OverVoltage | OverCurrent

fun charger_mode_value :: "ChargerModes \<Rightarrow> byte" where
  "charger_mode_value LowBattPreQual = 0x00"
| "charger_mode_value FastChargeConstCurrent = 0x01"
| "charger_mode_value FastChargeConstVoltage = 0x02"
| "charger_mode_value TopOff = 0x03"
| "charger_mode_value Done = 0x04"
| "charger_mode_value TimerFault = 0x06"
| "charger_mode_value HighSuspend = 0x07"
| "charger_mode_value Off = 0x08"
| "charger_mode_value OffHighJunctionTemp = 0x0A"
| "charger_mode_value OffWatchdogTimer = 0x0B"

fun battery_mode_value :: "BatteryModes \<Rightarrow> byte" where
  "battery_mode_value NoBattery = 0x00"
| "battery_mode_value DeadBattPreQual = 0x01"
| "battery_mode_value SlowChargeFault = 0x02"
| "battery_mode_value OkayGoodVoltage = 0x03"
| "battery_mode_value OkayLowVoltage = 0x04"
| "battery_mode_value OverVoltage = 0x05"
| "battery_mode_value OverCurrent = 0x06"

text \<open>A status is the number of the register that the caller casts to the enumeration.\<close>

definition charger_status_as_str :: "byte \<Rightarrow> int \<times> string" where
  "charger_status_as_str status =
     (if status = charger_mode_value LowBattPreQual then (0, ''low_battery_pre_qual'')
      else if status = charger_mode_value FastChargeConstCurrent then (0, ''fast_charge_constant_current'')
      else if status = charger_mode_value FastChargeConstVoltage then (0, ''fast_charge_constant_voltage'')
      else if status = charger_mode_value TopOff then (0, ''top_off'')
      else if status = charger_mode_value Done then (0, ''done'')
      else if status = charger_mode_value TimerFault then (0, ''timer_fault'')
      else if status = charger_mode_value HighSuspend then (0, ''high_suspend'')
      else if status = charger_mode_value Off then (0, ''off'')
      else if status = charger_mode_value OffHighJunctionTemp then (0, ''off_high_junction_temperature'')
      else if status = charger_mode_value OffWatchdogTimer then (0, ''off_watchdog_timer'')
      else (-1, ''invalid_status''))"

definition battery_status_as_str :: "byte \<Rightarrow> int \<times> string" where
  "battery_status_as_str status =
     (if status = battery_mode_value NoBattery then (0, ''no_battery'')
      else if status = battery_mode_value DeadBattPreQual then (0, ''low_battery_pre_qual'')
      else if status = battery_mode_value SlowChargeFault then (0, ''slow_charge_fault'')
      else if status = battery_mode_value OkayGoodVoltage then (0, ''ok_good_voltage'')
      else if status = battery_mode_value OkayLowVoltage then (0, ''ok_low_voltagef'')
      else if status = battery_mode_value OverVoltage then (0, ''over_voltage'')
      else if status = battery_mode_value OverCurrent then (0, ''over_current'')
      else (-1, ''invalid_status''))"

definition top_off_time :: "'w i2c \<Rightarrow> 'w \<Rightarrow> (u32 \<times> byte option \<times> 'w) option" where
  "top_off_time bus w = do {
     (rc, reg, w) \<leftarrow> read_device bus MAX77818_BATT_CGR_ADDR MAX_FG_CHG_CNFG_03 1 1 w;
     Some (if rc \<noteq> 0 then (rc, None, w) else (0, Some (drop_bit 3 (reg ! 0) AND 0b00000111), w))
   }"

definition charge_details :: "'w i2c \<Rightarrow> 'w \<Rightarrow> (u32 \<times> (byte \<times> byte) option \<times> 'w) option" where
  "charge_details bus w = do {
     (rc, reg, w) \<leftarrow> read_device bus MAX77818_BATT_CGR_ADDR MAX_CHG_DETAILS_01 1 1 w;
     Some (if rc \<noteq> 0 then (rc, None, w)
           else (0, Some (reg ! 0 AND 0b00001111, drop_bit 4 (reg ! 0) AND 0b00000111), w))
   }"

definition enable_ship_mode :: "'w i2c \<Rightarrow> 'w \<Rightarrow> (u32 \<times> 'w) option" where
  "enable_ship_mode bus w = do {
     (rc, read_reg, w) \<leftarrow> read_device bus MAX77818_BATT_CGR_ADDR MAX_CHG_CNFG_00_REG 1 1 w;
     if rc \<noteq> 0 then Some (rc, w)
     else do {
       let sd_reg = push_bit MAX_MBAT_TO_SYSFET_BIT 1 OR read_reg ! 0;
       (rc, w) \<leftarrow> write_device bus MAX77818_BATT_CGR_ADDR [MAX_CHG_CNFG_00_REG, sd_reg] 2 w;
       Some (if rc \<noteq> 0 then (rc, w) else (0, w))
     }
   }"

section \<open>Readings\<close>

lemma reg16_le_word: "push_bit 8 (ucast hi) OR ucast lo = (le_word [lo, hi] :: u16)"
  by (simp add: or.commute)

lemma uint_of_sint_u16: "uint (r :: u16) = (if sint r < 0 then sint r + 65536 else sint r)"
proof -
  have u: "uint r = sint r mod 65536"
    using uint_sint [of r] by (simp add: take_bit_eq_mod)
  have r: "- 32768 \<le> sint r" "sint r < 32768"
    using sint_ge [of r] sint_lt [of r] by simp_all
  show ?thesis
  proof (cases "sint r < 0")
    case True
    have "sint r mod 65536 = (sint r + 65536) mod 65536" by simp
    also have "\<dots> = sint r + 65536"
      using True r by (intro mod_pos_pos_trivial) simp_all
    finally show ?thesis using True u by simp
  next
    case False
    then show ?thesis using u r by (simp add: mod_pos_pos_trivial)
  qed
qed

text \<open>The current is the signed register over the resistance.\<close>

lemma inst_current_signed:
  "inst_current_value fl [lo, hi] = fl (of_int (sint (le_word [lo, hi] :: u16)) / 330)"
  unfolding inst_current_value_def Let_def reg16_le_word [symmetric] by simp

text \<open>The average of a negative current is read 65536 units too high.\<close>

lemma avg_current_negative:
  assumes "sint (le_word [lo, hi] :: u16) < 0"
  shows "avg_current_value fl fl64 [lo, hi] =
    fl (fl64 (fl (of_int (sint (le_word [lo, hi] :: u16) + 65536) * (25 / 16)) * c_1e_6))"
proof -
  have "of_nat (unat r) = (of_int (uint r) :: rat)" for r :: u16
    by simp
  then show ?thesis
    using assms uint_of_sint_u16 [of "le_word [lo, hi]"]
    by (simp only: avg_current_value_def reg16_le_word Let_def nth_Cons_0 nth_Cons_Suc One_nat_def if_True)
qed

section \<open>Commands\<close>

definition read_ok :: "'w i2c \<Rightarrow> byte \<Rightarrow> byte \<Rightarrow> nat \<Rightarrow> 'w \<Rightarrow> bool" where
  "read_ok bus addr reg n w \<longleftrightarrow> (\<exists>data w'. read_device bus addr reg n n w = Some (0, data, w'))"

lemma read_device_cases:
  assumes "wiced_error bus \<noteq> 0"
  obtains (ok) data w' where "read_device bus addr reg n n w = Some (0, data, w')" "read_ok bus addr reg n w"
  | (failed) w' where "read_device bus addr reg n n w = Some (wiced_error bus, [], w')" "\<not> read_ok bus addr reg n w"
proof -
  obtain rc1 w1 where 1: "wiced_i2c_init bus addr w = (rc1, w1)" by fastforce
  obtain rc2 w2 where 2: "wiced_i2c_write bus addr [WICED_I2C_START_FLAG] [reg] w1 = (rc2, w2)" by fastforce
  obtain rc3 data w3 where 3: "wiced_i2c_read bus addr [WICED_I2C_REPEATED_START_FLAG, WICED_I2C_STOP_FLAG] n w2 = (rc3, data, w3)"
    by (metis prod_cases3)
  show thesis
  proof (cases "rc3 = 0")
    case True
    then have "read_device bus addr reg n n w = Some (0, map data [0..<n], wiced_i2c_deinit bus addr w3)"
      by (simp add: read_device_def 1 2 3)
    then show thesis using ok by (simp add: read_ok_def)
  next
    case False
    then have "read_device bus addr reg n n w = Some (wiced_error bus, [], w3)"
      by (simp add: read_device_def 1 2 3)
    then show thesis using failed assms by (simp add: read_ok_def)
  qed
qed

lemma write_device_overread:
  "length buf < ptr_size bus \<Longrightarrow> write_device bus addr buf n w = None"
  by (simp add: write_device_def split_def Let_def)

text \<open>
  C39: On a machine with pointers of at least four bytes no command that writes a register ever
  succeeds: when the register can be read, the write takes the size of a pointer from an array of
  two or three bytes and so reads past its end, and otherwise the error is returned.
\<close>

theorem charger_commands_fail:
  assumes "4 \<le> ptr_size bus" "wiced_error bus \<noteq> 0"
  shows "(read_ok bus MAX77818_FUEL_GAUGE_ADDR MAX_FG_SD_TIMER 2 w \<longrightarrow> set_shutdown_timer bus timer w = None) \<and>
    (\<not> read_ok bus MAX77818_FUEL_GAUGE_ADDR MAX_FG_SD_TIMER 2 w \<longrightarrow>
      map_option fst (set_shutdown_timer bus timer w) = Some (wiced_error bus)) \<and>
    (read_ok bus MAX77818_FUEL_GAUGE_ADDR MAX_FG_CONFIG 2 w \<longrightarrow> device_shutdown bus w = None) \<and>
    (\<not> read_ok bus MAX77818_FUEL_GAUGE_ADDR MAX_FG_CONFIG 2 w \<longrightarrow>
      map_option fst (device_shutdown bus w) = Some (wiced_error bus)) \<and>
    (read_ok bus MAX77818_BATT_CGR_ADDR MAX_CHG_CNFG_00_REG 1 w \<longrightarrow> enable_ship_mode bus w = None) \<and>
    (\<not> read_ok bus MAX77818_BATT_CGR_ADDR MAX_CHG_CNFG_00_REG 1 w \<longrightarrow>
      map_option fst (enable_ship_mode bus w) = Some (wiced_error bus))"
proof -
  note over = write_device_overread [of _ bus] and cases = read_device_cases [OF assms(2)]
  have "(read_ok bus MAX77818_FUEL_GAUGE_ADDR MAX_FG_SD_TIMER 2 w \<longrightarrow> set_shutdown_timer bus timer w = None) \<and>
    (\<not> read_ok bus MAX77818_FUEL_GAUGE_ADDR MAX_FG_SD_TIMER 2 w \<longrightarrow>
      map_option fst (set_shutdown_timer bus timer w) = Some (wiced_error bus))"
    by (rule cases [of MAX77818_FUEL_GAUGE_ADDR MAX_FG_SD_TIMER 2 w])
      (use assms in \<open>simp_all add: set_shutdown_timer_def over Let_def\<close>)
  moreover have "(read_ok bus MAX77818_FUEL_GAUGE_ADDR MAX_FG_CONFIG 2 w \<longrightarrow> device_shutdown bus w = None) \<and>
    (\<not> read_ok bus MAX77818_FUEL_GAUGE_ADDR MAX_FG_CONFIG 2 w \<longrightarrow>
      map_option fst (device_shutdown bus w) = Some (wiced_error bus))"
    by (rule cases [of MAX77818_FUEL_GAUGE_ADDR MAX_FG_CONFIG 2 w])
      (use assms in \<open>simp_all add: device_shutdown_def over Let_def\<close>)
  moreover have "(read_ok bus MAX77818_BATT_CGR_ADDR MAX_CHG_CNFG_00_REG 1 w \<longrightarrow> enable_ship_mode bus w = None) \<and>
    (\<not> read_ok bus MAX77818_BATT_CGR_ADDR MAX_CHG_CNFG_00_REG 1 w \<longrightarrow>
      map_option fst (enable_ship_mode bus w) = Some (wiced_error bus))"
    by (rule cases [of MAX77818_BATT_CGR_ADDR MAX_CHG_CNFG_00_REG 1 w])
      (use assms in \<open>simp_all add: enable_ship_mode_def over Let_def\<close>)
  ultimately show ?thesis by blast
qed

definition quiet_bus :: "unit i2c" where
  "quiet_bus = \<lparr>wiced_i2c_init = (\<lambda>_ _. (0, ())), wiced_i2c_write = (\<lambda>_ _ _ _. (0, ())),
     wiced_i2c_read = (\<lambda>_ _ _ _. (0, \<lambda>_. 0, ())), wiced_i2c_deinit = (\<lambda>_ _. ()), wiced_error = 4, ptr_size = 4\<rparr>"

lemma charger_commands_fail_witness:
  "set_shutdown_timer quiet_bus 5 () = None \<and> device_shutdown quiet_bus () = None \<and> enable_ship_mode quiet_bus () = None"
  using charger_commands_fail [of quiet_bus "()" 5]
  by (simp add: quiet_bus_def read_ok_def read_device_def)

text \<open>Every charger mode has its own name, the other numbers are reported as invalid.\<close>

lemma charger_names:
  "fst (charger_status_as_str status) = 0 \<longleftrightarrow> (\<exists>m. charger_mode_value m = status)"
proof
  assume "fst (charger_status_as_str status) = 0"
  then show "\<exists>m. charger_mode_value m = status"
    by (simp only: charger_status_as_str_def split: if_splits) (auto simp del: charger_mode_value.simps)
next
  assume "\<exists>m. charger_mode_value m = status"
  then obtain m where "status = charger_mode_value m" by blast
  then show "fst (charger_status_as_str status) = 0"
    by (cases m) (simp_all add: charger_status_as_str_def)
qed

end
