(* ===== verification/LinAlg.thy ===== *)
theory LinAlg
  imports Complex_Main Prelude
begin

text \<open>
  Vectors and matrices (\<^verbatim>\<open>lib_util/linalg.h\<close>, \<^verbatim>\<open>linalg.cpp\<close>). A \<^verbatim>\<open>float\<close> is the rational number that it
  stands for and \<open>fl\<close> the rounding that follows every operation, as in the model of the LED. The
  vector that is transformed and the result may be the same object (\<open>alias\<close>).
\<close>

type_synonym vector3 = "rat list"
type_synonym matrix44 = "rat list list"

definition vector3_new :: vector3 where "vector3_new = [0, 0, 0]"

definition matrix_at :: "matrix44 \<Rightarrow> nat \<Rightarrow> rat" where
  "matrix_at mat idx = mat ! (idx div 4) ! (idx mod 4)"

definition vector_add :: "(rat \<Rightarrow> rat) \<Rightarrow> vector3 \<Rightarrow> vector3 \<Rightarrow> vector3" where
  "vector_add fl v rhs = [fl (v ! 0 + rhs ! 0), fl (v ! 1 + rhs ! 1), fl (v ! 2 + rhs ! 2)]"

definition vector_sub :: "(rat \<Rightarrow> rat) \<Rightarrow> vector3 \<Rightarrow> vector3 \<Rightarrow> vector3" where
  "vector_sub fl v rhs = vector_add fl v [- rhs ! 0, - rhs ! 1, - rhs ! 2]"

definition vector_dot :: "(rat \<Rightarrow> rat) \<Rightarrow> vector3 \<Rightarrow> vector3 \<Rightarrow> rat" where
  "vector_dot fl v rhs = fl (fl (fl (fl (v ! 0 * rhs ! 0) + fl (v ! 1 * rhs ! 1)) + v ! 2) + rhs ! 2)"

definition vector_scale :: "(rat \<Rightarrow> rat) \<Rightarrow> vector3 \<Rightarrow> rat \<Rightarrow> vector3" where
  "vector_scale fl v scalar = [fl (v ! 0 * scalar), fl (v ! 1 * scalar), fl (v ! 2 * scalar)]"

definition vector_div :: "(rat \<Rightarrow> rat) \<Rightarrow> vector3 \<Rightarrow> rat \<Rightarrow> vector3" where
  "vector_div fl v scalar = vector_scale fl v (fl (1 / scalar))"

definition matrix_identity :: matrix44 where
  "matrix_identity =
     (let m = replicate 4 (replicate 4 0) in map (\<lambda>i. (m ! i)[i := 1]) [0..<4])"

definition matrix_from_a16 :: "rat list \<Rightarrow> matrix44" where
  "matrix_from_a16 values = map (\<lambda>i. slice (4 * i) 4 values) [0..<4]"

definition product33 :: "(rat \<Rightarrow> rat) \<Rightarrow> matrix44 \<Rightarrow> vector3 \<Rightarrow> nat \<Rightarrow> rat" where
  "product33 fl mat v j = fl (fl (fl (v ! 0 * mat ! 0 ! j) + fl (v ! 1 * mat ! 1 ! j)) + fl (v ! 2 * mat ! 2 ! j))"

definition product44 :: "(rat \<Rightarrow> rat) \<Rightarrow> matrix44 \<Rightarrow> vector3 \<Rightarrow> nat \<Rightarrow> rat" where
  "product44 fl mat v j = fl (product33 fl mat v j + fl (1 * mat ! 3 ! j))"

definition assign3 :: "bool \<Rightarrow> (vector3 \<Rightarrow> nat \<Rightarrow> rat) \<Rightarrow> vector3 \<Rightarrow> vector3 \<Rightarrow> vector3" where
  "assign3 alias p v_in v_out =
     (let v_out = v_out[0 := p v_in 0]; v_in = (if alias then v_out else v_in);
          v_out = v_out[1 := p v_in 1]; v_in = (if alias then v_out else v_in)
      in v_out[2 := p v_in 2])"

definition vector3_transform44 :: "(rat \<Rightarrow> rat) \<Rightarrow> bool \<Rightarrow> vector3 \<Rightarrow> matrix44 \<Rightarrow> vector3 \<Rightarrow> vector3" where
  "vector3_transform44 fl alias v_in mat v_out = assign3 alias (product44 fl mat) v_in v_out"

definition vector3_transform33 :: "(rat \<Rightarrow> rat) \<Rightarrow> bool \<Rightarrow> vector3 \<Rightarrow> matrix44 \<Rightarrow> vector3 \<Rightarrow> vector3" where
  "vector3_transform33 fl alias v_in mat v_out = assign3 alias (product33 fl mat) v_in v_out"

section \<open>What the operations compute\<close>

lemma vector3_cases: "length v = 3 \<Longrightarrow> \<exists>a b c. v = [a, b, c]"
  by (auto simp: length_Suc_conv eval_nat_numeral)

lemma identity_rows: "matrix_identity = [[1, 0, 0, 0], [0, 1, 0, 0], [0, 0, 1, 0], [0, 0, 0, 1]]"
  by (simp add: matrix_identity_def upt_conv_Cons eval_nat_numeral)

text \<open>The identity changes no vector, in place or not, if rounding keeps its coordinates.\<close>

lemma transform_identity:
  assumes "length v_in = 3" "length v_out = 3" "fl 0 = 0" "\<forall>x \<in> set v_in. fl x = x" "alias \<longrightarrow> v_out = v_in"
  shows "vector3_transform44 fl alias v_in matrix_identity v_out = v_in"
    "vector3_transform33 fl alias v_in matrix_identity v_out = v_in"
  using vector3_cases [OF assms(1)] vector3_cases [OF assms(2)] assms(3,4,5)
  by (auto simp: vector3_transform44_def vector3_transform33_def assign3_def product44_def product33_def identity_rows Let_def
      eval_nat_numeral)

text \<open>Without rounding a transformation is linear, with the last row added.\<close>

lemma transform_exact:
  assumes "length v = 3" "length v' = 3" "length v_out = 3"
  shows "vector3_transform44 (\<lambda>x. x) False v mat v_out =
      vector_add (\<lambda>x. x) (vector3_transform33 (\<lambda>x. x) False v mat v_out) (map (\<lambda>j. mat ! 3 ! j) [0..<3])"
    "vector3_transform33 (\<lambda>x. x) False (vector_add (\<lambda>x. x) v v') mat v_out =
      vector_add (\<lambda>x. x) (vector3_transform33 (\<lambda>x. x) False v mat v_out) (vector3_transform33 (\<lambda>x. x) False v' mat v_out)"
    "vector3_transform33 (\<lambda>x. x) False (vector_scale (\<lambda>x. x) v k) mat v_out =
      vector_scale (\<lambda>x. x) (vector3_transform33 (\<lambda>x. x) False v mat v_out) k"
  using vector3_cases [OF assms(1)] vector3_cases [OF assms(2)] vector3_cases [OF assms(3)]
  by (auto simp: vector3_transform44_def vector3_transform33_def assign3_def product44_def product33_def vector_add_def
      vector_scale_def Let_def upt_conv_Cons eval_nat_numeral algebra_simps)

lemma vector_sub_add:
  assumes "length v = 3" "length v' = 3"
  shows "vector_sub (\<lambda>x. x) (vector_add (\<lambda>x. x) v v') v' = v"
  using vector3_cases [OF assms(1)] vector3_cases [OF assms(2)]
  by (auto simp: vector_sub_def vector_add_def eval_nat_numeral)

lemma matrix_from_a16_at:
  assumes "length values = 16" "idx < 16"
  shows "matrix_at (matrix_from_a16 values) idx = values ! idx"
proof -
  have "idx div 4 < 4" "4 * (idx div 4) + idx mod 4 = idx" "4 * (idx div 4) + 4 \<le> 16" using assms(2) by auto
  then show ?thesis using assms(1) by (simp add: matrix_at_def matrix_from_a16_def slice_def)
qed

text \<open>The last coordinates are added, not multiplied; and in place, a rotation reads what it has written.\<close>

lemma vector_dot_adds: "vector_dot (\<lambda>x. x) [0, 0, a] [0, 0, b] = a + b"
  by (simp add: vector_dot_def eval_nat_numeral)

lemma transform_in_place_differs:
  "vector3_transform33 (\<lambda>x. x) True [1, 0, 0] [[0, 1, 0, 0], [1, 0, 0, 0], [0, 0, 1, 0], [0, 0, 0, 1]] [1, 0, 0] = [0, 0, 0]"
  "vector3_transform33 (\<lambda>x. x) False [1, 0, 0] [[0, 1, 0, 0], [1, 0, 0, 0], [0, 0, 1, 0], [0, 0, 0, 1]] [1, 0, 0] = [0, 1, 0]"
  by (simp_all add: vector3_transform33_def assign3_def product33_def Let_def eval_nat_numeral)

end
