(* ===== verification/IpAddress.thy ===== *)
theory IpAddress
  imports Prelude
begin

unbundle bit_operations_syntax

text \<open>
  Addresses as text (\<^verbatim>\<open>lib_util/ip_address.cpp\<close>). The buffer is cleared and \<^verbatim>\<open>snprintf\<close> writes into it
  what fits before the terminator; its result is the length of the whole text.
\<close>

definition print_into :: "nat \<Rightarrow> byte list \<Rightarrow> int \<times> byte list" where
  "print_into dst_length s = (int (length s), take (dst_length - 1) s @ replicate (dst_length - min (dst_length - 1) (length s)) 0)"

definition octet :: "u32 \<Rightarrow> nat \<Rightarrow> byte" where
  "octet ip i = ucast (drop_bit (i * 8) ip AND 0xFF)"

definition ip4_text :: "u32 \<Rightarrow> byte list" where
  "ip4_text ip = dec_nat (unat (octet ip 3)) @ ascii ''.'' @ dec_nat (unat (octet ip 2)) @ ascii ''.'' @
     dec_nat (unat (octet ip 1)) @ ascii ''.'' @ dec_nat (unat (octet ip 0))"

definition ip4_to_string :: "u32 \<Rightarrow> nat \<Rightarrow> int \<times> byte list" where
  "ip4_to_string ip dst_length = print_into dst_length (ip4_text ip)"

text \<open>\<^verbatim>\<open>%04X\<close> of 16 bits.\<close>

definition hex4 :: "u16 \<Rightarrow> byte list" where
  "hex4 w = map (\<lambda>k. ascii ''0123456789ABCDEF'' ! (unat (drop_bit (4 * k) w) mod 16)) [3, 2, 1, 0]"

definition ip6_text :: "u32 list \<Rightarrow> byte list" where
  "ip6_text ip = concat (map (\<lambda>i. (if i = 0 then [] else ascii '':'') @
     hex4 (ucast (if even i then drop_bit 16 (ip ! (i div 2)) else ip ! (i div 2)))) [0..<8])"

definition ip6_to_string :: "u32 list \<Rightarrow> nat \<Rightarrow> int \<times> byte list" where
  "ip6_to_string ip dst_length = print_into dst_length (ip6_text ip)"

lemma octets:
  "(octet ip 0 = octet ip' 0 \<and> octet ip 1 = octet ip' 1 \<and> octet ip 2 = octet ip' 2 \<and> octet ip 3 = octet ip' 3) \<longleftrightarrow> ip = ip'"
proof
  assume h: "octet ip 0 = octet ip' 0 \<and> octet ip 1 = octet ip' 1 \<and> octet ip 2 = octet ip' 2 \<and> octet ip 3 = octet ip' 3"
  have m: "0xFF = (mask 8 :: u32)" by code_simp
  have b: "bit (octet ip i) k \<longleftrightarrow> k < 8 \<and> bit ip (i * 8 + k)" for ip i k
    unfolding octet_def m by (auto simp: bit_simps bit_mask_iff dest: bit_imp_le_length)
  show "ip = ip'"
  proof (rule bit_word_eqI)
    fix n assume "n < LENGTH(32)"
    then have "n div 8 \<in> {0, 1, 2, 3}" by auto
    then have "octet ip (n div 8) = octet ip' (n div 8)" using h by auto
    then show "bit ip n \<longleftrightarrow> bit ip' n" using b [of ip "n div 8" "n mod 8"] b [of ip' "n div 8" "n mod 8"] by simp
  qed
qed simp

lemma dec_field:
  "takeWhile (\<lambda>c. c \<noteq> 46) (dec_nat n @ 46 # r) = dec_nat n" "dropWhile (\<lambda>c. c \<noteq> 46) (dec_nat n @ 46 # r) = 46 # r"
proof -
  have "c \<noteq> 46" if "c \<in> set (dec_nat n)" for c using dec_nat_decimal [of n] that by (auto simp: word_le_nat_alt)
  then show "takeWhile (\<lambda>c. c \<noteq> 46) (dec_nat n @ 46 # r) = dec_nat n" "dropWhile (\<lambda>c. c \<noteq> 46) (dec_nat n @ 46 # r) = 46 # r"
    by (auto simp: takeWhile_append2 dropWhile_append2)
qed

lemma dec_nat_inj: "dec_nat m = dec_nat n \<longleftrightarrow> m = n"
  using digits_value [of m] digits_value [of n] by metis

lemma dec_field_inj: "dec_nat m @ 46 # r = dec_nat n @ 46 # r' \<longleftrightarrow> m = n \<and> r = r'"
  using dec_field(1) [of m r] dec_field(1) [of n r'] by (auto simp: dec_nat_inj)

lemma dec_nat_byte: "length (dec_nat (unat (b :: byte))) \<le> 3"
  by (rule dec_nat_length [OF order_less_trans [OF unat_u8_less]]) simp_all

text \<open>Sixteen bytes hold the text of any address, and different addresses have different texts.\<close>

lemma ip4_text_inj: "ip4_text ip = ip4_text ip' \<longleftrightarrow> ip = ip'"
proof
  assume "ip4_text ip = ip4_text ip'"
  then have "octet ip 0 = octet ip' 0 \<and> octet ip 1 = octet ip' 1 \<and> octet ip 2 = octet ip' 2 \<and> octet ip 3 = octet ip' 3"
    by (auto simp: ip4_text_def ascii_def dec_field_inj dec_nat_inj word_unat_eq_iff)
  then show "ip = ip'" by (simp only: octets)
qed simp

lemma ip4_text_length: "length (ip4_text ip) \<le> 15"
  using dec_nat_byte [of "octet ip 3"] dec_nat_byte [of "octet ip 2"] dec_nat_byte [of "octet ip 1"] dec_nat_byte [of "octet ip 0"]
  by (simp add: ip4_text_def ascii_def)

lemma ip4_to_string_distinct:
  assumes "16 \<le> n" "ip4_to_string ip n = ip4_to_string ip' n"
  shows "ip = ip'"
proof -
  have "snd (ip4_to_string a n) = ip4_text a @ replicate (n - length (ip4_text a)) 0 \<and> fst (ip4_to_string a n) = int (length (ip4_text a))" for a
    using ip4_text_length [of a] assms(1) by (simp add: ip4_to_string_def print_into_def min_absorb2)
  then have "ip4_text ip = ip4_text ip'" using assms(2) by (metis append_eq_append_conv nat_int)
  then show ?thesis by (simp only: ip4_text_inj)
qed

lemma ip6_text_length: "length (ip6_text ip) = 39"
  by (simp add: ip6_text_def hex4_def ascii_def upt_conv_Cons)

end
