(* ===== verification/Spec2Isabelle.thy ===== *)
theory Spec2Isabelle
  imports Prelude Crc32 BlockDevice SlotFS SlotFS_Layout SlotFS_Meta SlotFS_Write SlotFS_Session SlotFS_Read
    SlotFS_Props SlotFS_Safety SequentialBuffer CommandQueue
    HttpParser HttpParserExec HttpParserRun HttpParserSafe HttpParserSplit HttpParserCut HttpParserChunks
    HttpParserFrame HttpUrl HttpRequest HttpRequestSafe EventTrace HttpPayload HttpResponse HttpServer HttpDelivery HttpAnswers
    Md5 JsonWalk JsonSafe JsonRender JsonText JsonClients MessageFrame Rbs PacketSync GenericSensor RgbLed BatteryCharger
    LinAlg IpAddress
begin

text \<open>
  The libraries of a wireless motion sensor: a file system for its flash, buffers and queues between
  its threads, the HTTP server of its REST interface, its data messages and its time synchronisation.
  The C and C++ code under \<^verbatim>\<open>src/\<close> is translated definition by definition, with the names of the code;
  what the libraries are given from outside (the block device, the RTOS, the network, the clock,
  callbacks, floating point) is a parameter of the definitions that use it.

  \<^bold>\<open>How the parts meet.\<close> \<^verbatim>\<open>lib_slotfs\<close> stores measurements, checking its metadata with the CRC of
  \<^verbatim>\<open>lib_util\<close>; a session writes or reads one slot. Data passes between threads through the sequential
  buffer, calls through the command queue. An HTTP request is built by the callbacks of the HTTP parser
  while network packets arrive, the parser cuts its URL, and the route table selects its handler, whose
  response the thread of the server copies into packets from its header and payload.
  Sensor data is sent in message frames whose time stamps the synchronisation server corrects.

  \<^bold>\<open>Theories.\<close>
  \<^item> Prelude: words, little-endian layouts and slices of buffers, shared by all parts.
  \<^item> Crc32 (\<^verbatim>\<open>lib_util/util_crc32.cpp\<close>): table and loop, equal to the division bit by bit; errors
    within four bytes are found.
  \<^item> BlockDevice (\<^verbatim>\<open>BlockDevice\<close> in \<^verbatim>\<open>lib_slotfs/slotfs.h\<close>): the interface as a locale. The file
    system is \<open>SlotFS\<close> (types, layouts, every \<^verbatim>\<open>sfs_\<close> function of \<^verbatim>\<open>slotfs.cpp\<close>); \<open>SlotFS_Layout\<close> and
    \<open>SlotFS_Meta\<close> say where slots and metadata lie and which version a reader finds, \<open>SlotFS_Write\<close>
    and \<open>SlotFS_Read\<close> hold the invariants of an open file, \<open>SlotFS_Session\<close> the abstract file
    system, a map from slots to files, and \<open>SlotFS_Props\<close> and \<open>SlotFS_Safety\<close> what follows: sessions
    refine the abstract operations where a slot is a whole number of pages (of 2048 bytes; the code only rounds
    slots to 512, and the last page of another slot is written over the next one), a flush is atomic under torn
    writes, an open slot is locked against writers, and limits of the code.
  \<^item> SequentialBuffer (\<^verbatim>\<open>lib_util/sequential_buffer.h\<close>): the byte ring, refined to a bounded queue.
  \<^item> CommandQueue (\<^verbatim>\<open>lib_util/command_queue.h\<close>): the contexts with their reference counts, the
    contract of the queue template as a locale, and the invariant over any sequence of operations, in
    which no put fails.
  \<^item> HttpParser, HttpParserExec, HttpParserRun (\<^verbatim>\<open>lib_http/http_parser.h\<close>, \<^verbatim>\<open>http_parser.c\<close>): data and
    tables, the states one definition each, the loop. HttpParserSafe shows that it is defined
    and returns; HttpParserSplit, HttpParserCut and HttpParserChunks show that it does not matter how
    the input is cut into buffers, for a client whose data callbacks append (a locale).
  \<^item> HttpParserFrame: how fast the header count grows, and in which order a client is called (a locale).
  \<^item> HttpUrl: \<^verbatim>\<open>http_parser_parse_url\<close> and \<^verbatim>\<open>http_parse_host\<close>.
  \<^item> HttpRequest (\<^verbatim>\<open>lib_http/http_request.cpp\<close>): the callbacks interpret the locale of such clients,
    so a request too can be read in parts; queries and routes. HttpRequestSafe: no input makes a
    callback leave its array.
  \<^item> EventTrace (\<^verbatim>\<open>lib_lw_event_trace/lw_event_trace.cpp\<close>), HttpPayload (\<^verbatim>\<open>lib_http/http_payload*\<close>) and HttpResponse
    (\<^verbatim>\<open>lib_http/http_response.cpp\<close>, \<^verbatim>\<open>http_utils.cpp\<close>): payloads and responses as sources of bytes, a locale that
    each interprets, with extensions for sources that always end and for those that never do.
  \<^item> HttpServer (\<^verbatim>\<open>lib_http/http_server.cpp\<close>): the connections and the turns of the thread. HttpDelivery shows
    that responses arrive unchanged, which of them finish, and the invariant of the server; HttpAnswers
    that an answer does not depend on the packets of the request.
  \<^item> Md5 (\<^verbatim>\<open>lib_util/md5.c\<close>): the digest of data in pieces is that of RFC 1321.
  \<^item> JsonWalk (\<^verbatim>\<open>json_walk\<close> in \<^verbatim>\<open>lib_util/json_frozen.c\<close>): the JSON parser with its events. JsonSafe shows that it
    returns inside a text without a byte 0 and its path buffer, JsonRender that it reads back a written value. JsonText: its printers (a
    locale), escaped strings and base64, each read back. JsonClients: what is built on the parser; the
    element of an array that is selected, the text that \<^verbatim>\<open>json_prettify\<close> prints.
  \<^item> MessageFrame (\<^verbatim>\<open>lib_message\<close>) and Rbs (\<^verbatim>\<open>lib_rbs\<close>): what is written is read back; the server
    works through its packets as the tables and time stamps they mean.
  \<^item> PacketSync (\<^verbatim>\<open>lib_util/sync_packets.h\<close>): five sorted streams, of which \<open>pop\<close> gives out packets that
    belong together in time. GenericSensor (\<^verbatim>\<open>generic_sensor.h\<close>): the enumerations of sensor settings,
    the contract of their traits as a locale, and the host class over its four policies.
  \<^item> RgbLed (\<^verbatim>\<open>rgb_led.cpp\<close>, \<^verbatim>\<open>rgb_led_driver.cpp\<close>): patterns by priority, and what an update at the time
    of Rbs drives the pins with. BatteryCharger (\<^verbatim>\<open>battery_charger.h\<close>): readings and commands over
    an I2C bus, and why no command succeeds.
  \<^item> LinAlg (\<^verbatim>\<open>linalg.h\<close>, \<^verbatim>\<open>linalg.cpp\<close>): vectors and matrices up to rounding, and where a transformation in place
    differs. IpAddress (\<^verbatim>\<open>ip_address.cpp\<close>): addresses as text, which tells them apart.

  \<^bold>\<open>Conventions.\<close> Integers have the width they have in C where they can wrap; \<^verbatim>\<open>size_t\<close> and
  \<^verbatim>\<open>uint64_t\<close> are 64 bits. A pointer into a buffer is an offset. \<open>None\<close> is undefined behaviour, a
  failed assertion or a call that does not return; errors that the code reports are values. Locks make
  an operation atomic, so threads are sequences of operations. A floating point number is the rational
  it stands for; the rounding of an operation is a parameter, of which proofs use that it is monotone
  and keeps the numbers that single precision represents.

  \<^bold>\<open>Bounds and fuel.\<close> Only the JSON parser has fuel: \<open>parse_value\<close> and its loops are given a depth, one more
  than the length of the text, and JsonSafe shows that it suffices. Loops over a buffer are structural recursions; \<open>run\<close>, the loop
  of the parser over one byte, has a measure that each re-execution decreases, and the loops of the file
  system, which go by what the device holds, are partial functions in the option monad, shown to
  return. The parser property on cut buffers excludes a header overflow (the limit is 80 KiB, and a header
  cut by a buffer end counts twice towards it); buffers are shorter than 2^64 bytes. URL fields
  have 16 bits, and what that cuts off is a theorem.

  \<^bold>\<open>Not modelled.\<close>
  \<^item> The rest of \<^verbatim>\<open>lib_util/json_frozen.c\<close>: \<^verbatim>\<open>json_printf\<close>, \<^verbatim>\<open>json_scanf\<close> and \<^verbatim>\<open>json_setf\<close>, which work on C format
    strings and \<^verbatim>\<open>va_list\<close>, and files; the discovery service (\<^verbatim>\<open>lib_discovery\<close>) is one call of that printer.
  \<^item> Thin wrappers of the vendor's SDK, without logic beyond the calls: \<^verbatim>\<open>event_flag_status.h\<close>, locks,
    clocks and memory statistics of the event trace, the timer of the LED, opening and closing
    sockets in \<^verbatim>\<open>lib_rbs\<close>, start and stop of the HTTP server with its TLS set-up.
  \<^item> Tables of names and descriptions, version numbers,
    tests and the vendored \<^verbatim>\<open>unittest/catch.hpp\<close>.
\<close>

end
